(* ===== verification/Fib_Prelude.thy ===== *)
theory Fib_Prelude
  imports Main "HOL-Library.Word" "HOL-Library.Monad_Syntax"
begin

unbundle bit_operations_syntax

text \<open>
  The prelude of the development: the C types the library uses, assertions, blocks of memory, the
  transition-system frame the concurrent models share, and the generic lemmas on words and lists the
  component theories rest on.

  Pointers are 64-bit words (\<open>NULL\<close> is 0), so that the sentinel values the code returns
  (\<open>(void*)-1\<close>, \<open>(void*)-2\<close>) are values of the same type, as in the code. A C
  function that fails an \<open>assert\<close> or dereferences a pointer that is not allocated returns
  \<open>None\<close>; its regular results are \<open>Some\<close>.
\<close>

section \<open>Machine types\<close>

type_synonym ptr = "64 word"
type_synonym u64 = "64 word"
type_synonym u32 = "32 word"

text \<open>Thread identifiers of the concurrent models.\<close>

type_synonym tid = nat

abbreviation NULL :: ptr where
  "NULL \<equiv> 0"

text \<open>\<open>assert(b)\<close>: the program stops unless \<open>b\<close> holds.\<close>

definition c_assert :: "bool \<Rightarrow> unit option" where
  "c_assert b = (if b then Some () else None)"

named_theorems inv_defs \<open>definitions of the components' invariants\<close>
named_theorems c_ops \<open>definitions of the C operations, for evaluation and case analysis\<close>

lemma c_assert_simps [simp]:
  "c_assert True = Some ()"
  "c_assert False = None"
  by (simp_all add: c_assert_def)

lemma c_assert_eq_Some [simp]: "c_assert b = Some u \<longleftrightarrow> b"
  by (simp add: c_assert_def)

lemma c_assert_bind [simp]: "Option.bind (c_assert b) f = (if b then f () else None)"
  by (simp add: c_assert_def)

section \<open>Words\<close>

lemma unat_u64_less [simp]: "unat (x :: 64 word) < 2 ^ 64"
  using unsigned_less [of x, where 'a = nat] by simp

lemma unat_u64_less_numeral [simp]: "unat (x :: 64 word) < 18446744073709551616"
  using unat_u64_less [of x] by simp

lemma unat_of_nat_u64:
  assumes "k < 2 ^ 64"
  shows "unat (of_nat k :: u64) = k"
proof -
  have "unat (of_nat k :: u64) = take_bit 64 k"
    by (simp add: unsigned_of_nat)
  also have "\<dots> = k"
    using assms by (simp only: take_bit_nat_eq_self_iff)
  finally show ?thesis .
qed

text \<open>A buffer of a power-of-two size is indexed by \<open>i & (size - 1)\<close>.\<close>

lemma unat_and_mask:
  fixes x :: "'a::len word"
  shows "unat (x AND mask k) = unat x mod 2 ^ k"
  by (simp only: take_bit_eq_mask [symmetric] unsigned_take_bit_eq) (simp add: take_bit_eq_mod)

lemma unat_mask_u64:
  assumes "k \<le> 64"
  shows "unat (mask k :: u64) = 2 ^ k - 1"
proof -
  have "unat (mask k :: u64) = unat ((- 1 :: u64) AND mask k)"
    by simp
  also have "\<dots> = take_bit k (unat (- 1 :: u64))"
    by (simp only: unat_and_mask take_bit_eq_mod)
  also have "\<dots> = mask k"
    using assms by (simp add: unsigned_minus_1_eq_mask min_def)
  finally show ?thesis
    by (simp add: mask_eq_exp_minus_1)
qed

lemma Suc_0_less_twice_pow [simp]: "Suc 0 < 2 * 2 ^ k"
  using one_less_power [of "2 :: nat" "Suc k"] by simp

lemma unat_inc:
  fixes x :: "'a::len word"
  assumes "unat x < n" and "n < 2 ^ LENGTH('a)"
  shows "unat (x + 1) = Suc (unat x)"
proof -
  have "unat x + 1 < 2 ^ LENGTH('a)"
    using assms by linarith
  then show ?thesis
    by (simp add: unat_word_ariths)
qed

lemma unat_Suc_less:
  fixes x y :: "'a::len word"
  assumes "x < y"
  shows "unat (x + 1) = Suc (unat x)"
  using assms unsigned_less [of y, where 'a = nat]
  by (intro unat_inc [where n = "unat y"]) (simp_all add: word_less_nat_alt)

text \<open>The same for a signed index converted to \<open>size_t\<close>.\<close>

lemma unat_of_int_and_mask:
  assumes "k \<le> 64"
  shows "unat ((word_of_int i :: u64) AND mask k) = nat (i mod 2 ^ k)"
proof -
  have "uint (word_of_int i :: u64) = take_bit 64 i"
    by (simp add: unsigned_of_int)
  then have "uint ((word_of_int i :: u64) AND mask k) = take_bit k (take_bit 64 i)"
    by (simp only: take_bit_eq_mask [symmetric] unsigned_take_bit_eq)
  also have "\<dots> = take_bit k i"
    using assms by (simp add: min_def)
  also have "\<dots> = i mod 2 ^ k"
    by (rule take_bit_eq_mod)
  finally show ?thesis
    by (simp flip: nat_uint_eq)
qed

lemma unat_diff:
  fixes x y :: "'a::len word"
  assumes "y \<le> x"
  shows "unat (x - y) = unat x - unat y"
  using assms by (simp add: unat_sub word_le_nat_alt)

lemma unat_ucast_32_64 [simp]: "unat (ucast (x :: 32 word) :: 64 word) = unat x"
proof -
  have "unat x < 2 ^ 32"
    using unsigned_less [of x, where 'a = nat] by simp
  then have "unat x < 2 ^ 64" by simp
  then show ?thesis
    by (simp only: unsigned_ucast_eq take_bit_nat_eq_self len_num0 len_num1 len_bit0) 
      (simp add: take_bit_nat_eq_self)
qed

lemma sint_eq_unat_u64:
  assumes "unat (x :: 64 word) < 2 ^ 63"
  shows "sint x = int (unat x)"
proof -
  have u: "int (unat x) = uint x"
    by (rule uint_nat [symmetric])
  moreover have "int (unat x) < int (2 ^ 63)"
    using assms by (simp only: of_nat_less_iff)
  ultimately have "uint x < 2 ^ 63" by simp
  moreover have "- (2 ^ 63) \<le> uint x"
    using uint_ge_0 [of x] by (rule order_trans [rotated]) simp
  ultimately have "signed_take_bit 63 (uint x) = uint x"
    by (intro signed_take_bit_int_eq_self) simp_all
  then show ?thesis
    unfolding u by (simp add: sint_uint)
qed

lemma ucast_mask_32_64: "k \<le> 32 \<Longrightarrow> (ucast (mask k :: 32 word) :: 64 word) = mask k"
  by (rule bit_word_eqI) (auto simp: bit_simps)

text \<open>Positions less than a buffer's length apart have different cells.\<close>

lemma mod_neq_window:
  fixes a b n :: nat
  assumes "a < b" and "b < a + n"
  shows "a mod n \<noteq> b mod n"
proof
  assume "a mod n = b mod n"
  then have "n dvd b - a"
    using assms(1) by (metis less_imp_le_nat mod_eq_dvd_iff_nat)
  moreover have "0 < b - a" and "b - a < n"
    using assms by simp_all
  ultimately show False
    by (simp add: nat_dvd_not_less)
qed

lemma mod_eq_window:
  fixes a b n :: nat
  assumes "a mod n = b mod n" and "a < b + n" and "b < a + n"
  shows "a = b"
  using assms mod_neq_window [of a b n] mod_neq_window [of b a n] by (cases a b rule: linorder_cases) auto

section \<open>Blocks of memory\<close>

text \<open>
  \<open>free\<close>, which accepts \<open>NULL\<close>, of the block at an address: \<open>m\<close> has what is allocated. Freeing an address where
  nothing is allocated is an error.
\<close>

definition free_block :: "(ptr \<Rightarrow> 'a option) \<Rightarrow> ptr \<Rightarrow> (ptr \<Rightarrow> 'a option) option" where
  "free_block m p = (if p = NULL then Some m else if m p = None then None else Some (m(p := None)))"

lemma free_block_simps [simp]:
  "free_block m NULL = Some m" "p \<noteq> NULL \<Longrightarrow> m p = None \<Longrightarrow> free_block m p = None"
  "p \<noteq> NULL \<Longrightarrow> m p = Some b \<Longrightarrow> free_block m p = Some (m(p := None))"
  by (simp_all add: free_block_def)

section \<open>Ring buffers\<close>

text \<open>Access to the flexible array member; an index past its end is an invalid access.\<close>

definition buf_get :: "ptr list \<Rightarrow> u64 \<Rightarrow> ptr option" where
  "buf_get b i = (if unat i < length b then Some (b ! unat i) else None)"

definition buf_set :: "ptr list \<Rightarrow> u64 \<Rightarrow> ptr \<Rightarrow> ptr list option" where
  "buf_set b i p = (if unat i < length b then Some (b[unat i := p]) else None)"

lemma unat_push_bit_1: "k < 32 \<Longrightarrow> unat (push_bit k 1 :: u32) = 2 ^ k"
  by (simp only: unsigned_push_bit_eq) (simp add: push_bit_eq_mult take_bit_nat_eq_self)

lemma push_bit_1_minus_1: "(push_bit k 1 - 1 :: 'a::len word) = mask k"
  by (simp add: mask_eq_exp_minus_1 push_bit_eq_mult)

lemma mask_index:
  fixes i :: u64
  assumes "k < 32"
  shows "unat (i AND ucast (mask k :: u32)) = unat i mod 2 ^ k"
proof -
  have "(ucast (mask k :: u32) :: u64) = mask k"
    using assms by (simp add: ucast_mask_32_64)
  then show ?thesis by (simp only: unat_and_mask)
qed

section \<open>Neighbours in a list\<close>

fun follows :: "'a list \<Rightarrow> 'a \<Rightarrow> 'a \<Rightarrow> bool" where
  "follows (x # y # zs) a b \<longleftrightarrow> x = a \<and> y = b \<or> follows (y # zs) a b"
| "follows _ a b = False"

lemma follows_Cons: "follows (m # ns) a b \<longleftrightarrow> ns \<noteq> [] \<and> a = m \<and> b = List.hd ns \<or> follows ns a b"
  by (cases ns) auto

lemma follows_snoc: "follows (ns @ [n]) a b \<longleftrightarrow> follows ns a b \<or> ns \<noteq> [] \<and> a = List.last ns \<and> b = n"
  by (induction ns a b rule: follows.induct) auto

lemma follows_set: "follows ns a b \<Longrightarrow> a \<in> set ns \<and> b \<in> set (tl ns)"
  by (induction ns a b rule: follows.induct) auto

lemma follows_fun: "distinct ns \<Longrightarrow> follows ns a b \<Longrightarrow> follows ns a b' \<Longrightarrow> b = b'"
  by (induction ns a b rule: follows.induct) (auto dest: follows_set)

lemma follows_inj: "distinct ns \<Longrightarrow> follows ns a b \<Longrightarrow> follows ns a' b \<Longrightarrow> a = a'"
  by (induction ns a b rule: follows.induct) (auto dest: follows_set)

lemma follows_not_last: "distinct ns \<Longrightarrow> follows ns a b \<Longrightarrow> a \<noteq> List.last ns"
  by (induction ns a b rule: follows.induct) (auto split: if_splits dest: follows_set)

section \<open>Snapshots of a counter\<close>

text \<open>
  \<open>c\<close> is the value that a 64-bit counter had after at most \<open>n\<close> increments, where \<open>n\<close> is their number now, and
  \<open>P\<close> holds if there was none since.
\<close>

definition since :: "nat \<Rightarrow> u64 \<Rightarrow> bool \<Rightarrow> bool" where
  "since n c P \<longleftrightarrow> (\<exists>k \<le> n. c = of_nat k \<and> (k = n \<longrightarrow> P))"

lemma since_now: "since n (of_nat n) P = P" if "n < 2 ^ 64"
proof -
  have "k = n" if "k \<le> n" "(of_nat n :: u64) = of_nat k" for k
  proof -
    have "unat (of_nat n :: u64) = n"
      by (rule unat_of_nat_u64) fact
    moreover have "unat (of_nat k :: u64) = k"
      by (rule unat_of_nat_u64 [OF le_less_trans]) fact+
    ultimately show ?thesis
      using that(2) by metis
  qed
  then show ?thesis by (auto simp: since_def)
qed

lemma since_later: "since n c P \<Longrightarrow> since (Suc n) c Q"
  unfolding since_def by (metis Suc_n_not_le_n le_SucI)

lemma since_mono: "since n c P \<Longrightarrow> (P \<Longrightarrow> Q) \<Longrightarrow> since n c Q"
  by (auto simp: since_def)

lemma since_new: "since n (of_nat n) True"
  by (auto simp: since_def)

section \<open>Transition systems\<close>

text \<open>
  The concurrent models are a set of start states and a step relation, one rule per access to
  shared memory. \<open>reach\<close> is the set of reachable states.
\<close>

inductive reach :: "('s \<Rightarrow> bool) \<Rightarrow> ('s \<Rightarrow> 's \<Rightarrow> bool) \<Rightarrow> 's \<Rightarrow> bool"
  for init :: "'s \<Rightarrow> bool" and step :: "'s \<Rightarrow> 's \<Rightarrow> bool"
  where
    reach_init: "init s \<Longrightarrow> reach init step s"
  | reach_step: "reach init step s \<Longrightarrow> step s t \<Longrightarrow> reach init step t"

lemma rtranclp_deterministic:
  assumes det: "\<And>a b c. r a b \<Longrightarrow> r a c \<Longrightarrow> b = c"
    and "r\<^sup>*\<^sup>* a b" and "\<And>c. \<not> r b c" and "r\<^sup>*\<^sup>* a c" and "\<And>d. \<not> r c d"
  shows "b = c"
  using assms(2-5)
proof (induction rule: converse_rtranclp_induct)
  case base
  then show ?case by (metis converse_rtranclpE)
next
  case (step a a')
  then show ?case by (metis det converse_rtranclpE)
qed

text \<open>
  The contract of an inductive invariant. \<open>bound\<close> is what the invariant may take for granted
  (a counter that has not wrapped around, say); it has to hold of every state before one where
  it holds.
\<close>

locale bounded_invariant =
  fixes init :: "'s \<Rightarrow> bool"
    and step :: "'s \<Rightarrow> 's \<Rightarrow> bool"
    and bound :: "'s \<Rightarrow> bool"
    and inv :: "'s \<Rightarrow> bool"
  assumes inv_init: "init s \<Longrightarrow> inv s"
    and bound_back: "step s t \<Longrightarrow> bound t \<Longrightarrow> bound s"
    and inv_step: "inv s \<Longrightarrow> bound t \<Longrightarrow> step s t \<Longrightarrow> inv t"
begin

lemma reach_inv: "reach init step s \<Longrightarrow> bound s \<Longrightarrow> inv s"
  by (induction rule: reach.induct) (blast intro: inv_init inv_step dest: bound_back)+

end

locale invariant =
  fixes init :: "'s \<Rightarrow> bool"
    and step :: "'s \<Rightarrow> 's \<Rightarrow> bool"
    and inv :: "'s \<Rightarrow> bool"
  assumes init_inv: "init s \<Longrightarrow> inv s"
    and step_inv: "inv s \<Longrightarrow> step s t \<Longrightarrow> inv t"

sublocale invariant \<subseteq> bounded_invariant init step "\<lambda>_. True" inv
  by unfold_locales (auto intro: init_inv step_inv)

text \<open>
  A system seen through \<open>abs\<close>: every step is a step of the other system or leaves what \<open>abs\<close>
  shows alone, as long as an invariant of the system holds.
\<close>

locale simulation = invariant init step inv
  for init :: "'s \<Rightarrow> bool" and step :: "'s \<Rightarrow> 's \<Rightarrow> bool" and inv :: "'s \<Rightarrow> bool" +
  fixes abs_init :: "'a \<Rightarrow> bool"
    and abs_step :: "'a \<Rightarrow> 'a \<Rightarrow> bool"
    and abs :: "'s \<Rightarrow> 'a"
  assumes abs_start: "init s \<Longrightarrow> abs_init (abs s)"
    and abs_move: "inv s \<Longrightarrow> step s t \<Longrightarrow> abs t = abs s \<or> abs_step (abs s) (abs t)"
begin

lemma reach_abs: "reach init step s \<Longrightarrow> reach abs_init abs_step (abs s)"
proof (induction rule: reach.induct)
  case (reach_init s)
  then show ?case
    by (intro reach.reach_init abs_start)
next
  case (reach_step s t)
  have "inv s"
    using reach_step.hyps(1) reach_inv by simp
  with reach_step show ?case
    using abs_move [of s t] reach.reach_step by metis
qed

end

end
