(* ===== verification/Queuedef.thy ===== *)
theory Queuedef
  imports Fib_Prelude
begin

text \<open>
  The queue definitions of \<open>queuedef.h\<close> and \<open>queuedef.c\<close>: the error codes and their
  names, the validation of a queue size and the rounding of a size to a power of two.
  \<open>size_t\<close> is a 64-bit word, \<open>qerr_t\<close> (an \<open>unsigned int\<close>) a 32-bit word.
\<close>

section \<open>Error codes\<close>

definition QERR_OK :: u32 where "QERR_OK = 0"
definition QERR_BUG1 :: u32 where "QERR_BUG1 = 1"
definition QERR_BUG2 :: u32 where "QERR_BUG2 = 2"
definition QERR_BADSIZE :: u32 where "QERR_BADSIZE = 3"
definition QERR_MALLOCERR :: u32 where "QERR_MALLOCERR = 4"
definition QERR_FULL :: u32 where "QERR_FULL = 5"
definition QERR_EMPTY :: u32 where "QERR_EMPTY = 6"
definition LAST_QERR :: u32 where "LAST_QERR = 6"

lemmas qerr_defs = QERR_OK_def QERR_BUG1_def QERR_BUG2_def QERR_BADSIZE_def
  QERR_MALLOCERR_def QERR_FULL_def QERR_EMPTY_def LAST_QERR_def

text \<open>The table \<open>qerrs\<close>; its last entry is the terminating \<open>NULL\<close> pointer.\<close>

definition qerrs :: "string option list" where
  "qerrs = [Some ''QERR_OK'', Some ''QERR_BUG1'', Some ''QERR_BUG2'',
            Some ''QERR_BADSIZE'', Some ''QERR_MALLOCERR'', Some ''QERR_FULL'',
            Some ''QERR_EMPTY'', Some ''BAD_QERR'', None]"

definition BAD_QERR :: nat where
  "BAD_QERR = length qerrs - 2"

text \<open>\<open>None\<close> is a read past the table; \<open>Some None\<close> a NULL string.\<close>

definition qerrs_at :: "nat \<Rightarrow> string option option" where
  "qerrs_at i = (if i < length qerrs then Some (qerrs ! i) else None)"

definition queue_qerr_str :: "u32 \<Rightarrow> string option option" where
  "queue_qerr_str qerr =
     (if unat qerr \<ge> BAD_QERR then qerrs_at BAD_QERR else qerrs_at (unat qerr))"

section \<open>Sizes\<close>

definition is_power_2 :: "u64 \<Rightarrow> bool" where
  "is_power_2 n \<longleftrightarrow> (n - 1) AND n = 0"

definition queue_size_is_valid :: "u64 \<Rightarrow> u32" where
  "queue_size_is_valid q_size =
     (if q_size \<le> 1 \<or> \<not> is_power_2 q_size then QERR_BADSIZE else QERR_OK)"

text \<open>
  \<open>while (q_size >>= 1) v <<= 1\<close>: the size is shifted first and the shifted value tested.
\<close>

function size_to_power_of_2_loop :: "u64 \<Rightarrow> u64 \<Rightarrow> u64" where
  "size_to_power_of_2_loop q_size v =
     (let q_size' = drop_bit 1 q_size
      in if q_size' \<noteq> 0 then size_to_power_of_2_loop q_size' (push_bit 1 v) else v)"
  by pat_completeness auto

lemma unat_drop_bit_1: "unat (drop_bit 1 x) = unat x div 2" for x :: u64
  using unat_u64_less [of x]
  by (simp only: unsigned_drop_bit_eq) (simp add: drop_bit_eq_div take_bit_nat_eq_self)

termination size_to_power_of_2_loop
proof (relation "measure (\<lambda>(q, v). unat q)")
  fix q_size v q_size' :: u64
  assume "q_size' = drop_bit 1 q_size" and "q_size' \<noteq> 0"
  then have "unat q_size div 2 \<noteq> 0"
    by (metis unat_drop_bit_1 unat_eq_zero)
  then show "((q_size', push_bit 1 v), (q_size, v)) \<in> measure (\<lambda>(q, v). unat q)"
    using \<open>q_size' = drop_bit 1 q_size\<close> unat_drop_bit_1 [of q_size] by simp
qed simp

declare size_to_power_of_2_loop.simps [simp del]

definition size_to_power_of_2 :: "u64 \<Rightarrow> u64" where
  "size_to_power_of_2 q_size = size_to_power_of_2_loop q_size 1"

section \<open>Powers of two\<close>

lemma nat_and_pred_eq_0_iff:
  fixes n :: nat
  assumes "0 < n"
  shows "(n - 1) AND n = 0 \<longleftrightarrow> (\<exists>k. n = 2 ^ k)"
  using assms
proof (induction n rule: less_induct)
  case (less n)
  show ?case
  proof (cases "even n")
    case True
    then obtain m where n: "n = 2 * m" and m: "0 < m"
      using less.prems by (auto elim: evenE)
    have "(2 * m - Suc 0) div 2 = m - Suc 0"
      using m by arith
    then have "(n - 1) AND n = 2 * ((m - 1) AND m)"
      using m by (subst and_nat_rec) (simp add: n)
    moreover have "(\<exists>k. n = 2 ^ k) \<longleftrightarrow> (\<exists>k. m = 2 ^ k)"
    proof
      assume "\<exists>k. n = 2 ^ k"
      then obtain k where k: "n = 2 ^ k" ..
      with True have "k \<noteq> 0"
        by (metis odd_one power_0)
      with k n have "m = 2 ^ (k - 1)"
        by (cases k) simp_all
      then show "\<exists>k. m = 2 ^ k" ..
    next
      assume "\<exists>k. m = 2 ^ k"
      then show "\<exists>k. n = 2 ^ k"
        using n by (metis power_Suc)
    qed
    ultimately show ?thesis
      using less.IH [of m] n m by simp
  next
    case False
    then obtain m where n: "n = 2 * m + 1"
      by (auto elim: oddE)
    have "(n - 1) AND n = 2 * m"
      by (subst and_nat_rec) (simp add: n)
    moreover have "(\<exists>k. n = 2 ^ k) \<longleftrightarrow> m = 0"
    proof
      assume "\<exists>k. n = 2 ^ k"
      then obtain k where k: "n = 2 ^ k" ..
      with False have "k = 0"
        by (metis even_power even_numeral neq0_conv)
      with k n show "m = 0" by simp
    next
      assume "m = 0"
      then show "\<exists>k. n = 2 ^ k"
        using n by (auto intro: exI [of _ 0])
    qed
    ultimately show ?thesis by simp
  qed
qed

lemma is_power_2_iff: "is_power_2 n \<longleftrightarrow> n = 0 \<or> (\<exists>k. unat n = 2 ^ k)"
proof (cases "n = 0")
  case True
  then show ?thesis by (simp add: is_power_2_def)
next
  case False
  then have pos: "0 < unat n"
    by (simp add: unat_gt_0)
  have "is_power_2 n \<longleftrightarrow> unat ((n - 1) AND n) = 0"
    by (simp only: is_power_2_def unat_eq_zero)
  also have "unat ((n - 1) AND n) = (unat n - 1) AND unat n"
    using False by (simp add: unsigned_and_eq unat_minus_one)
  finally show ?thesis
    using nat_and_pred_eq_0_iff [OF pos] False by simp
qed

lemma exponent_bound: "unat (n :: u64) = 2 ^ k \<Longrightarrow> k < 64"
  using unat_u64_less [of n] by (metis power_less_imp_less_exp one_less_numeral_iff semiring_norm(76))

text \<open>
  \<open>queue_size_is_valid\<close> accepts a queue size exactly when it is a power of two and at
  least 2; every other size is answered with \<open>QERR_BADSIZE\<close>.
\<close>

theorem queue_size_is_valid_correct:
  "queue_size_is_valid q =
     (if \<exists>k. 1 \<le> k \<and> k < 64 \<and> unat q = 2 ^ k then QERR_OK else QERR_BADSIZE)"
proof -
  have "q \<le> 1 \<or> \<not> is_power_2 q \<longleftrightarrow> \<not> (\<exists>k. 1 \<le> k \<and> k < 64 \<and> unat q = 2 ^ k)" (is "?L \<longleftrightarrow> ?R")
  proof
    assume l: ?L
    show ?R
    proof
      assume "\<exists>k. 1 \<le> k \<and> k < 64 \<and> unat q = 2 ^ k"
      then obtain k where k: "1 \<le> k" "unat q = 2 ^ k" by blast
      then have "2 ^ 1 \<le> unat q"
        by (metis one_le_numeral power_increasing)
      then have "\<not> q \<le> 1"
        by (simp add: word_le_nat_alt)
      with l k show False
        by (auto simp: is_power_2_iff)
    qed
  next
    assume r: ?R
    show ?L
    proof (rule ccontr)
      assume "\<not> ?L"
      then obtain k where k: "unat q = 2 ^ k" and q: "\<not> q \<le> 1"
        by (auto simp: is_power_2_iff)
      have "k \<noteq> 0"
        using q k by (cases k) (auto simp: word_le_nat_alt)
      with r k exponent_bound [OF k] show False by auto
    qed
  qed
  then show ?thesis by (auto simp: queue_size_is_valid_def)
qed

section \<open>Rounding\<close>

lemma size_to_power_of_2_loop_spec:
  assumes "unat v = 2 ^ j" and "unat q < 2 ^ (64 - j)" and "j < 64"
  shows "\<exists>k<64. unat (size_to_power_of_2_loop q v) = 2 ^ k
    \<and> (\<exists>i. k = j + i \<and> 2 ^ i \<le> max 1 (unat q) \<and> unat q < 2 ^ (i + 1))"
  using assms
proof (induction q v arbitrary: j rule: size_to_power_of_2_loop.induct)
  case (1 q v)
  let ?q = "drop_bit 1 q"
  show ?case
  proof (cases "?q = 0")
    case True
    then have "unat q div 2 = 0"
      by (metis unat_drop_bit_1 unsigned_0)
    then have "unat q < 2" by simp
    with True "1.prems" show ?thesis
      by (auto simp: size_to_power_of_2_loop.simps [of q v] intro!: exI [of _ 0] exI [of _ j])
  next
    case False
    then have nz: "unat q div 2 \<noteq> 0"
      by (metis unat_drop_bit_1 unat_eq_zero)
    have j: "j + 1 < 64"
    proof (rule ccontr)
      assume "\<not> j + 1 < 64"
      with "1.prems"(3) have "j = 63" by simp
      with "1.prems"(2) nz show False by simp
    qed
    have "unat q < 2 * 2 ^ (64 - (j + 1))"
    proof -
      have "64 - j = Suc (64 - (j + 1))" using j by simp
      with "1.prems"(2) show ?thesis by (metis power_Suc)
    qed
    then have q': "unat ?q < 2 ^ (64 - (j + 1))"
      unfolding unat_drop_bit_1 by simp
    have "unat v * 2 < 2 ^ 64"
    proof -
      have "(2::nat) ^ (j + 1) < 2 ^ 64"
        using j by (intro power_strict_increasing) simp_all
      with "1.prems"(1) show ?thesis by simp
    qed
    then have v': "unat (push_bit 1 v) = 2 ^ (j + 1)"
      using "1.prems"(1) by (simp add: unat_word_ariths)
    obtain k i where ki: "k < 64" "unat (size_to_power_of_2_loop ?q (push_bit 1 v)) = 2 ^ k"
        "k = j + 1 + i" "2 ^ i \<le> max 1 (unat ?q)" "unat ?q < 2 ^ (i + 1)"
      using "1.IH" [OF refl False v' q' j] by blast
    have "2 ^ i \<le> unat q div 2" and "unat q div 2 < 2 ^ (i + 1)"
      using ki(4,5) nz unfolding unat_drop_bit_1 by auto
    then have "2 ^ (i + 1) \<le> max 1 (unat q) \<and> unat q < 2 ^ (i + 1 + 1)"
      by auto
    moreover have "size_to_power_of_2_loop q v = size_to_power_of_2_loop ?q (push_bit 1 v)"
      using False by (subst size_to_power_of_2_loop.simps) simp
    ultimately show ?thesis
      using ki(1-3) by (intro exI [of _ k] conjI exI [of _ "i + 1"]) auto
  qed
qed

lemma size_to_power_of_2_value:
  assumes "2 ^ k \<le> max 1 (unat q)" and "unat q < 2 ^ (k + 1)"
  shows "unat (size_to_power_of_2 q) = 2 ^ k"
proof -
  obtain k' i where k': "unat (size_to_power_of_2 q) = 2 ^ k'" "k' = 0 + i"
      "2 ^ i \<le> max 1 (unat q)" "unat q < 2 ^ (i + 1)"
    using size_to_power_of_2_loop_spec [of 1 0 q] unat_u64_less [of q]
    by (auto simp: size_to_power_of_2_def)
  have "max 1 (unat q) < 2 ^ (k + 1)" "max 1 (unat q) < 2 ^ (i + 1)"
    using assms(2) k'(4) by (simp_all add: max_def)
  then have "(2::nat) ^ k < 2 ^ (i + 1)" "(2::nat) ^ i < 2 ^ (k + 1)"
    using assms(1) k'(3) by linarith+
  then have "k < i + 1" and "i < k + 1"
    by (metis power_less_imp_less_exp one_less_numeral_iff semiring_norm(76))+
  then have "k = i" by simp
  with k' show ?thesis by simp
qed

text \<open>
  Rounding and validation agree on every size of at least 2: the rounded size is accepted.
  On the sizes 0 and 1 the rounding returns 1, which the validation rejects (the comment in
  \<open>queuedef.h\<close> promises 2 there).
\<close>

theorem size_to_power_of_2_valid:
  "queue_size_is_valid (size_to_power_of_2 q) = (if q \<le> 1 then QERR_BADSIZE else QERR_OK)"
proof -
  obtain k where k: "k < 64" "unat (size_to_power_of_2 q) = 2 ^ k"
      "2 ^ k \<le> max 1 (unat q)" "unat q < 2 ^ (k + 1)"
    using size_to_power_of_2_loop_spec [of 1 0 q] unat_u64_less [of q]
    by (auto simp: size_to_power_of_2_def)
  let ?v = "size_to_power_of_2 q"
  have pow: "is_power_2 ?v"
    using k(2) by (auto simp: is_power_2_iff)
  have "?v \<le> 1 \<longleftrightarrow> k = 0"
    using k(2) by (cases k) (auto simp: word_le_nat_alt not_le)
  also have "k = 0 \<longleftrightarrow> q \<le> 1"
  proof
    assume "k = 0"
    then show "q \<le> 1" using k(4) by (simp add: word_le_nat_alt)
  next
    assume "q \<le> 1"
    then have "max 1 (unat q) < 2" by (simp add: word_le_nat_alt)
    with k(3) have "(2::nat) ^ k < 2 ^ 1" by simp
    then show "k = 0" by (simp only: power_strict_increasing_iff)
  qed
  finally show ?thesis
    using pow by (simp add: queue_size_is_valid_def)
qed

text \<open>
  C40. \<open>size_to_power_of_2\<close> terminates on every size. From 2 on it returns the largest power of two
  that is not above the size, which \<open>queue_size_is_valid\<close> accepts; for 0 and 1 it returns 1, which
  \<open>queue_size_is_valid\<close> rejects, although \<open>queuedef.h\<close> promises 2 for every size below 2.
\<close>

theorem size_to_power_of_2_correct:
  "if q < 2 then size_to_power_of_2 q = 1 \<and> queue_size_is_valid (size_to_power_of_2 q) = QERR_BADSIZE
   else (\<exists>k. 0 < k \<and> k < 64 \<and> unat (size_to_power_of_2 q) = 2 ^ k \<and> 2 ^ k \<le> unat q \<and> unat q < 2 ^ (k + 1))
     \<and> queue_size_is_valid (size_to_power_of_2 q) = QERR_OK"
proof -
  obtain k where k: "k < 64" "unat (size_to_power_of_2 q) = 2 ^ k"
      "2 ^ k \<le> max 1 (unat q)" "unat q < 2 ^ (k + 1)"
    using size_to_power_of_2_loop_spec [of 1 0 q] unat_u64_less [of q]
    by (auto simp: size_to_power_of_2_def)
  show ?thesis
  proof (cases "q < 2")
    case True
    then have "(2 :: nat) ^ k < 2 ^ 1"
      using k(3) by (simp add: word_less_nat_alt)
    then have "k = 0"
      by (simp only: power_strict_increasing_iff)
    then have "size_to_power_of_2 q = 1"
      using k(2) by (simp add: word_unat_eq_iff)
    then show ?thesis
      using True by (simp add: queue_size_is_valid_def)
  next
    case False
    then have q: "2 \<le> unat q" "\<not> q \<le> 1"
      by (simp_all add: word_less_nat_alt word_le_nat_alt)
    then have "k \<noteq> 0"
      using k(4) by (cases k) simp_all
    then show ?thesis
      using False q k size_to_power_of_2_valid [of q] by (auto simp: max_def)
  qed
qed

section \<open>Error names\<close>

text \<open>
  \<open>queue_qerr_str\<close> never reads past its table and never returns the terminating NULL: it
  returns a string for every code, and \<open>BAD_QERR\<close> exactly for the codes above the last one.
\<close>

theorem queue_qerr_str_total:
  "\<exists>s. queue_qerr_str e = Some (Some s) \<and> (s = ''BAD_QERR'' \<longleftrightarrow> LAST_QERR < e)"
proof (cases "unat e \<ge> 7")
  case True
  then have "LAST_QERR < e"
    by (simp add: LAST_QERR_def word_less_nat_alt)
  with True show ?thesis
    by (simp add: queue_qerr_str_def qerrs_at_def qerrs_def BAD_QERR_def)
next
  case False
  then have le: "\<not> LAST_QERR < e"
    by (simp add: LAST_QERR_def word_less_nat_alt)
  from False have "unat e \<in> {0, 1, 2, 3, 4, 5, 6}" by auto
  with le show ?thesis
    by (auto simp: queue_qerr_str_def qerrs_at_def qerrs_def BAD_QERR_def)
qed

end
