(* ===== verification/Machine_Specific.thy ===== *)
theory Machine_Specific
  imports Fib_Prelude
begin

text \<open>
  \<open>arch.h\<close> and \<open>machine_specific.h\<close>: which architecture macro and which cache line size a
  compiler's predefined macros select, what each barrier is compiled to, and the atomic
  primitives. A primitive takes the present contents of the memory cell and returns its result
  and the new contents.
\<close>

section \<open>Architecture selection\<close>

text \<open>
  A macro that the compiler predefines to a nonzero value is a member of the list; the result is
  the architecture macro the header defines, if any, and \<open>CACHE_LINE_SIZE\<close>, if it is defined.
\<close>

datatype arch = ARCH_x86 | ARCH_x86_64

definition any_of :: "string list \<Rightarrow> string list \<Rightarrow> bool" where
  "any_of names macros = list_ex (\<lambda>n. n \<in> set macros) names"

definition select_arch_msvc :: "string list \<Rightarrow> arch option \<times> nat option" where
  "select_arch_msvc m =
     (if any_of [''_M_IA64''] m then (None, Some 128)
      else if any_of [''_M_X64''] m then (Some ARCH_x86_64, Some 64)
      else if any_of [''_M_X86''] m then (Some ARCH_x86, Some 64)
      else (None, None))"

definition select_arch_other :: "string list \<Rightarrow> arch option \<times> nat option" where
  "select_arch_other m =
     (if any_of [''__powerpc'', ''__ia64__'', ''__ia64''] m then (None, Some 128)
      else if any_of [''__amd64__''] m then (Some ARCH_x86_64, Some 64)
      else if any_of [''__sparc__'', ''__sparc''] m then (None, Some 64)
      else if any_of [''__i386__''] m then (None, Some 32)
      else if any_of [''ARM_CPU_ARM7''] m then (None, Some 32)
      else if any_of [''ARM_CPU_ARM926''] m then (None, Some 32)
      else if any_of [''ARM_CPU_ARM1136''] m then (None, Some 32)
      else if any_of [''ARM_CPU_ARMEMU''] m then (None, Some 32)
      else if any_of [''ARM_CPU_CORTEX_A7''] m then (None, Some 64)
      else if any_of [''ARM_CPU_CORTEX_A8''] m then (None, Some 64)
      else if any_of [''ARM_CPU_CORTEX_A9''] m then (None, Some 32)
      else if any_of [''ARM_CPU_CORTEX_M0'', ''ARM_CPU_CORTEX_M0_PLUS'',
        ''ARM_CPU_CORTEX_M3'', ''ARM_CPU_CORTEX_M4''] m then (None, Some 32)
      else if any_of [''ARM_CPU_CORTEX_M7''] m then (None, Some 32)
      else if any_of [''ARM_CPU_CORTEX_A15''] m then (None, Some 64)
      else if any_of [''ARM_CPU_CORTEX_R4F''] m then (None, Some 64)
      else (None, None))"

text \<open>The header as a whole: \<open>None\<close> is its \<open>#error\<close>.\<close>

definition select_arch :: "string list \<Rightarrow> (arch option \<times> nat) option" where
  "select_arch m =
     (case (if any_of [''MSVC''] m then select_arch_msvc m else select_arch_other m) of
        (a, Some line) \<Rightarrow> Some (a, line)
      | (_, None) \<Rightarrow> None)"

section \<open>Barriers\<close>

text \<open>
  The instructions a barrier emits, per architecture macro (\<open>None\<close>: neither is defined). A
  barrier that emits nothing still orders the compiler's own accesses, by its
  \<open>memory\<close> clobber, but not the processor's.
\<close>

datatype instr = LOCK_ADDL | LOCK_ADDQ | SYNC_SYNCHRONIZE | PAUSE

definition write_barrier :: "arch option \<Rightarrow> instr list" where
  "write_barrier a =
     (case a of Some ARCH_x86 \<Rightarrow> [] | Some ARCH_x86_64 \<Rightarrow> [] | None \<Rightarrow> [SYNC_SYNCHRONIZE])"

definition store_load_barrier :: "arch option \<Rightarrow> instr list" where
  "store_load_barrier a =
     (case a of Some ARCH_x86 \<Rightarrow> [LOCK_ADDL] | Some ARCH_x86_64 \<Rightarrow> []
      | None \<Rightarrow> [LOCK_ADDQ, SYNC_SYNCHRONIZE])"

definition load_load_barrier :: "arch option \<Rightarrow> instr list" where
  "load_load_barrier a =
     (case a of Some ARCH_x86 \<Rightarrow> [] | Some ARCH_x86_64 \<Rightarrow> [] | None \<Rightarrow> [SYNC_SYNCHRONIZE])"

definition cpu_relax :: "arch option \<Rightarrow> instr list" where
  "cpu_relax a =
     (case a of Some ARCH_x86 \<Rightarrow> [PAUSE] | Some ARCH_x86_64 \<Rightarrow> [PAUSE]
      | None \<Rightarrow> [SYNC_SYNCHRONIZE])"

text \<open>
  On x86 processors a store may pass a later load unless a locked instruction or a fence stands
  between them: that is what a store-load barrier is for.
\<close>

definition drains_stores :: "instr list \<Rightarrow> bool" where
  "drains_stores is = list_ex (\<lambda>i. i \<in> {LOCK_ADDL, LOCK_ADDQ, SYNC_SYNCHRONIZE}) is"

section \<open>Atomic primitives\<close>

definition atomic_exchange_pointer :: "ptr \<Rightarrow> ptr \<Rightarrow> ptr \<times> ptr" where
  "atomic_exchange_pointer location value = (location, value)"

definition atomic_exchange_int :: "u32 \<Rightarrow> u32 \<Rightarrow> u32 \<times> u32" where
  "atomic_exchange_int location value = (location, value)"

text \<open>The compiler builtins \<open>__sync_bool_compare_and_swap\<close> and \<open>__sync_add_and_fetch\<close>.\<close>

definition sync_bool_compare_and_swap :: "'a \<Rightarrow> 'a \<Rightarrow> 'a \<Rightarrow> bool \<times> 'a" where
  "sync_bool_compare_and_swap location old new =
     (if location = old then (True, new) else (False, location))"

definition sync_add_and_fetch :: "'a::plus \<Rightarrow> 'a \<Rightarrow> 'a \<times> 'a" where
  "sync_add_and_fetch location v = (location + v, location + v)"

lemmas atomic_defs = atomic_exchange_pointer_def sync_bool_compare_and_swap_def
  sync_add_and_fetch_def

record pointer_pair =
  pp_low :: ptr
  pp_high :: ptr

text \<open>
  \<open>compare_and_swap2\<close>: the x86_64 branch compares and swaps the pair
  (\<open>lock cmpxchg16b\<close>); every other branch casts the pair to \<open>uint64_t*\<close>, which holds
  the whole pair where a pointer has 4 bytes and its first member alone where it has 8.
\<close>

definition compare_and_swap2 ::
  "arch option \<Rightarrow> nat \<Rightarrow> pointer_pair \<Rightarrow> pointer_pair \<Rightarrow> pointer_pair \<Rightarrow> bool \<times> pointer_pair" where
  "compare_and_swap2 a sizeof_ptr location original_value new_value =
     (if a = Some ARCH_x86_64 \<or> sizeof_ptr = 4
      then if location = original_value then (True, new_value) else (False, location)
      else if pp_low location = pp_low original_value
           then (True, location\<lparr>pp_low := pp_low new_value\<rparr>) else (False, location))"

text \<open>On the supported architectures it is the compare-and-swap of the pair.\<close>

lemma compare_and_swap2_x86:
  "a = Some ARCH_x86_64 \<or> sizeof_ptr = 4 \<Longrightarrow>
     compare_and_swap2 a sizeof_ptr l orig new = sync_bool_compare_and_swap l orig new"
  by (auto simp: compare_and_swap2_def sync_bool_compare_and_swap_def)

section \<open>What the headers guarantee\<close>

text \<open>
  Whatever macros the compiler predefines, a cache line size that the header accepts is a
  power of two between 32 and 128, so that every padding
  \<open>CACHE_LINE_SIZE - sizeof(field)\<close> of the library is positive.
\<close>

theorem select_arch_line_size:
  "case select_arch m of None \<Rightarrow> True | Some (_, line) \<Rightarrow> line \<in> {32, 64, 128}"
proof -
  have "snd (select_arch_msvc m) \<in> {None, Some 32, Some 64, Some 128}"
    by (simp add: select_arch_msvc_def)
  moreover have "snd (select_arch_other m) \<in> {None, Some 32, Some 64, Some 128}"
    by (simp add: select_arch_other_def)
  ultimately show ?thesis
    by (auto simp: select_arch_def split: prod.splits option.splits if_splits)
qed

text \<open>
  The three barriers and x86_64: the store-load barrier drains the store buffer on every
  architecture but x86_64, where its branch of the conditional is empty and the instruction meant
  for it stands in the branch after; the architecture \<open>arch.h\<close> selects for gcc on amd64 is that one.
\<close>

theorem store_load_barrier_missing_on_x86_64:
  "(drains_stores (store_load_barrier a) \<longleftrightarrow> a \<noteq> Some ARCH_x86_64)
     \<and> select_arch [''__amd64__''] = Some (Some ARCH_x86_64, 64)"
proof
  show "drains_stores (store_load_barrier a) \<longleftrightarrow> a \<noteq> Some ARCH_x86_64"
    by (auto simp: drains_stores_def store_load_barrier_def split: option.splits arch.splits)
  show "select_arch [''__amd64__''] = Some (Some ARCH_x86_64, 64)"
    by (simp add: select_arch_def select_arch_other_def any_of_def)
qed

end
