(* ===== verification/Fifo_Interface.thy ===== *)
theory Fifo_Interface
  imports Fib_Prelude
begin

text \<open>
  The contract of the library's bounded buffers: what a push and a pop of one thread do to the
  list of items, and the refinement of whole histories that follows from it. The interface is
  a locale; Ring\_Buffer and Fifo\_Steal interpret it on the code's operations.
\<close>

section \<open>Histories\<close>

datatype 'a fifo_op = Push 'a | Pop
datatype 'a fifo_out = Pushed bool | Popped "'a option"

text \<open>A history of calls on the implementation, stopped by the first failure.\<close>

fun run_fifo ::
  "('s \<Rightarrow> 'a \<Rightarrow> (bool \<times> 's) option) \<Rightarrow> ('s \<Rightarrow> ('a option \<times> 's) option) \<Rightarrow> 's \<Rightarrow> 'a fifo_op list
     \<Rightarrow> ('a fifo_out list \<times> 's) option" where
  "run_fifo push pop s [] = Some ([], s)"
| "run_fifo push pop s (Push x # ops) = do {
     (b, s') \<leftarrow> push s x;
     (outs, s'') \<leftarrow> run_fifo push pop s' ops;
     Some (Pushed b # outs, s'')
   }"
| "run_fifo push pop s (Pop # ops) = do {
     (r, s') \<leftarrow> pop s;
     (outs, s'') \<leftarrow> run_fifo push pop s' ops;
     Some (Popped r # outs, s'')
   }"

text \<open>The same history on a list of at most \<open>n\<close> items.\<close>

fun spec_fifo :: "nat \<Rightarrow> 'a list \<Rightarrow> 'a fifo_op list \<Rightarrow> 'a fifo_out list \<times> 'a list" where
  "spec_fifo n xs [] = ([], xs)"
| "spec_fifo n xs (Push x # ops) =
     (let (outs, ys) = spec_fifo n (if length xs < n then xs @ [x] else xs) ops
      in (Pushed (length xs < n) # outs, ys))"
| "spec_fifo n xs (Pop # ops) =
     (let (outs, ys) = spec_fifo n (tl xs) ops
      in (Popped (case xs of [] \<Rightarrow> None | x # _ \<Rightarrow> Some x) # outs, ys))"

definition legal_ops :: "('a \<Rightarrow> bool) \<Rightarrow> 'a fifo_op list \<Rightarrow> bool" where
  "legal_ops legal ops = list_all (\<lambda>op. case op of Push x \<Rightarrow> legal x | Pop \<Rightarrow> True) ops"

lemma legal_ops_simps [simp]:
  "legal_ops legal []"
  "legal_ops legal (Push x # ops) \<longleftrightarrow> legal x \<and> legal_ops legal ops"
  "legal_ops legal (Pop # ops) \<longleftrightarrow> legal_ops legal ops"
  by (simp_all add: legal_ops_def)

section \<open>The interface\<close>

text \<open>
  \<open>ok\<close> is the representation invariant, \<open>items\<close> the abstraction, \<open>cap\<close> the capacity,
  \<open>room\<close> the number of pushes left before a counter of the representation overflows,
  \<open>legal\<close> the values the buffer can hold.
\<close>

locale bounded_fifo =
  fixes ok :: "'s \<Rightarrow> bool"
    and items :: "'s \<Rightarrow> 'a list"
    and cap :: "'s \<Rightarrow> nat"
    and room :: "'s \<Rightarrow> nat"
    and legal :: "'a \<Rightarrow> bool"
    and push :: "'s \<Rightarrow> 'a \<Rightarrow> (bool \<times> 's) option"
    and pop :: "'s \<Rightarrow> ('a option \<times> 's) option"
  assumes push_law: "ok s \<Longrightarrow> legal x \<Longrightarrow> 0 < room s \<Longrightarrow>
      \<exists>s'. push s x = Some (length (items s) < cap s, s')
        \<and> ok s' \<and> cap s' = cap s \<and> room s \<le> Suc (room s')
        \<and> items s' = (if length (items s) < cap s then items s @ [x] else items s)"
    and pop_law: "ok s \<Longrightarrow>
      \<exists>s'. pop s = Some (case items s of [] \<Rightarrow> None | x # _ \<Rightarrow> Some x, s')
        \<and> ok s' \<and> cap s' = cap s \<and> room s \<le> room s' \<and> items s' = tl (items s)"
begin

lemma run_refines:
  assumes "ok s" and "legal_ops legal ops" and "length ops \<le> room s"
  shows "\<exists>s'. run_fifo push pop s ops = Some (fst (spec_fifo (cap s) (items s) ops), s')
    \<and> ok s' \<and> items s' = snd (spec_fifo (cap s) (items s) ops)"
  using assms
proof (induction ops arbitrary: s)
  case Nil
  then show ?case by simp
next
  case (Cons op ops)
  show ?case
  proof (cases op)
    case (Push x)
    then obtain s' where s': "push s x = Some (length (items s) < cap s, s')" "ok s'"
        "cap s' = cap s" "room s \<le> Suc (room s')"
        "items s' = (if length (items s) < cap s then items s @ [x] else items s)"
      using push_law [of s x] Cons.prems by auto
    then show ?thesis
      using Cons.IH [of s'] Cons.prems Push by (auto simp: split_beta)
  next
    case Pop
    then obtain s' where s': "pop s = Some (case items s of [] \<Rightarrow> None | x # _ \<Rightarrow> Some x, s')"
        "ok s'" "cap s' = cap s" "room s \<le> room s'" "items s' = tl (items s)"
      using pop_law [of s] Cons.prems by auto
    then show ?thesis
      using Cons.IH [of s'] Cons.prems Pop by (auto simp: split_beta)
  qed
qed

end

end
