(* ===== verification/Ring_Buffer.thy ===== *)
theory Ring_Buffer
  imports Machine_Specific Fifo_Interface
begin

text \<open>
  \<open>lockfree_ring_buffer.h\<close> as one thread sees it: the struct, its creation and its five
  operations, each as a function on the struct. Ring\_Buffer\_Conc interleaves the same accesses.
  A cell that is 0 has not been written yet or has been emptied; the counters \<open>high\<close> and
  \<open>low\<close> are 64-bit words that are never reduced, the index of a counter is its value
  modulo the size.
\<close>

section \<open>The struct and its operations\<close>

record lockfree_ring_buffer =
  rb_high :: u64
  rb_low :: u64
  rb_size :: u32
  rb_power_of_2_mod :: u32
  rb_buffer :: "ptr list"

text \<open>
  \<open>calloc\<close> either returns zeroed memory or fails (\<open>calloc_ok\<close> false); the assertion stands after
  the allocation. \<open>Some None\<close> is the NULL result.
\<close>

definition lockfree_ring_buffer_create :: "u32 \<Rightarrow> bool \<Rightarrow> lockfree_ring_buffer option option" where
  "lockfree_ring_buffer_create power_of_2_size calloc_ok =
     (let size' = push_bit (unat power_of_2_size) 1 :: u32
      in do {
        c_assert (power_of_2_size \<noteq> 0 \<and> power_of_2_size < 32);
        Some (if calloc_ok
              then Some \<lparr>rb_high = 0, rb_low = 0, rb_size = size', rb_power_of_2_mod = size' - 1,
                         rb_buffer = replicate (unat size') NULL\<rparr>
              else None)
      })"

text \<open>\<open>rbs\<close> are the ring buffers in memory, by address.\<close>

definition lockfree_ring_buffer_destroy ::
  "(ptr \<Rightarrow> lockfree_ring_buffer option) \<Rightarrow> ptr \<Rightarrow> (ptr \<Rightarrow> lockfree_ring_buffer option) option" where
  "lockfree_ring_buffer_destroy rbs rb = free_block rbs rb"

text \<open>The difference of the counters is read as a signed 64-bit number.\<close>

definition lockfree_ring_buffer_size :: "lockfree_ring_buffer \<Rightarrow> u64" where
  "lockfree_ring_buffer_size rb =
     (let high = rb_high rb; s = high - rb_low rb
      in if 0 \<le> sint s then s else 0)"

definition lockfree_ring_buffer_trypush ::
  "lockfree_ring_buffer \<Rightarrow> ptr \<Rightarrow> (int \<times> lockfree_ring_buffer) option" where
  "lockfree_ring_buffer_trypush rb p = do {
     c_assert (p \<noteq> NULL);
     let low = rb_low rb;
     let high = rb_high rb;
     let index = high AND ucast (rb_power_of_2_mod rb);
     cell \<leftarrow> buf_get (rb_buffer rb) index;
     if cell = NULL \<and> high - low < ucast (rb_size rb)
     then (case sync_bool_compare_and_swap (rb_high rb) high (high + 1) of
             (True, high') \<Rightarrow> do {
               b \<leftarrow> buf_set (rb_buffer rb) index p;
               Some (1, rb\<lparr>rb_high := high', rb_buffer := b\<rparr>)
             }
           | (False, _) \<Rightarrow> Some (0, rb))
     else Some (0, rb)
   }"

definition lockfree_ring_buffer_trypop ::
  "lockfree_ring_buffer \<Rightarrow> (ptr \<times> lockfree_ring_buffer) option" where
  "lockfree_ring_buffer_trypop rb = do {
     let high = rb_high rb;
     let low = rb_low rb;
     let index = low AND ucast (rb_power_of_2_mod rb);
     ret \<leftarrow> buf_get (rb_buffer rb) index;
     if ret \<noteq> NULL \<and> high > low
     then (case sync_bool_compare_and_swap (rb_low rb) low (low + 1) of
             (True, low') \<Rightarrow> do {
               b \<leftarrow> buf_set (rb_buffer rb) index NULL;
               Some (ret, rb\<lparr>rb_low := low', rb_buffer := b\<rparr>)
             }
           | (False, _) \<Rightarrow> Some (NULL, rb))
     else Some (NULL, rb)
   }"

text \<open>
  The blocking operations spin until the attempt succeeds. The state of each iteration is what
  the other threads left: \<open>env i\<close> is their effect between iterations \<open>i\<close> and
  \<open>i + 1\<close>. The test in the loop body only decides whether to pause. Not returning is
  \<open>None\<close>, as is a failed assertion.
\<close>

partial_function (option) lockfree_ring_buffer_push ::
  "(nat \<Rightarrow> lockfree_ring_buffer \<Rightarrow> lockfree_ring_buffer) \<Rightarrow> nat \<Rightarrow> lockfree_ring_buffer \<Rightarrow> ptr
     \<Rightarrow> lockfree_ring_buffer option" where
  "lockfree_ring_buffer_push env i rb p =
     (case lockfree_ring_buffer_trypush rb p of
        None \<Rightarrow> None
      | Some (r, rb') \<Rightarrow>
          if r \<noteq> 0 then Some rb' else lockfree_ring_buffer_push env (i + 1) (env i rb') p)"

partial_function (option) lockfree_ring_buffer_pop ::
  "(nat \<Rightarrow> lockfree_ring_buffer \<Rightarrow> lockfree_ring_buffer) \<Rightarrow> nat \<Rightarrow> lockfree_ring_buffer
     \<Rightarrow> (ptr \<times> lockfree_ring_buffer) option" where
  "lockfree_ring_buffer_pop env i rb =
     (case lockfree_ring_buffer_trypop rb of
        None \<Rightarrow> None
      | Some (ret, rb') \<Rightarrow>
          if ret \<noteq> NULL then Some (ret, rb') else lockfree_ring_buffer_pop env (i + 1) (env i rb'))"


section \<open>Representation\<close>

text \<open>The size is a power of two and the mask and the array fit it.\<close>

definition rb_wf :: "lockfree_ring_buffer \<Rightarrow> bool" where
  [inv_defs]: "rb_wf rb \<longleftrightarrow>
     (\<exists>k\<in>{1..<32}. rb_size rb = push_bit k 1 \<and> rb_power_of_2_mod rb = mask k
        \<and> length (rb_buffer rb) = 2 ^ k)"

lemma rb_wfE:
  assumes "rb_wf rb"
  obtains k where "1 \<le> k" "k < 32" "unat (rb_size rb) = 2 ^ k"
    "rb_power_of_2_mod rb = mask k" "length (rb_buffer rb) = 2 ^ k"
  using assms unat_push_bit_1 unfolding rb_wf_def by (metis atLeastLessThan_iff)

lemma rb_wf_length: "rb_wf rb \<Longrightarrow> length (rb_buffer rb) = unat (rb_size rb)"
  by (metis rb_wfE)

lemma rb_wf_pos: "rb_wf rb \<Longrightarrow> 0 < unat (rb_size rb)"
  by (metis rb_wfE zero_less_numeral zero_less_power)

lemma rb_index:
  fixes i :: u64
  assumes "rb_wf rb"
  shows "unat (i AND ucast (rb_power_of_2_mod rb)) = unat i mod unat (rb_size rb)"
  using rb_wfE [OF assms] mask_index by metis

lemma rb_index_less: "rb_wf rb \<Longrightarrow>
  unat ((i :: u64) AND ucast (rb_power_of_2_mod rb)) < length (rb_buffer rb)"
  by (simp add: rb_index rb_wf_length rb_wf_pos)

text \<open>The cell of position \<open>p\<close>, counted from the creation of the buffer.\<close>

definition rb_cell :: "lockfree_ring_buffer \<Rightarrow> nat \<Rightarrow> ptr" where
  "rb_cell rb p = rb_buffer rb ! (p mod unat (rb_size rb))"

definition rb_items :: "lockfree_ring_buffer \<Rightarrow> ptr list" where
  "rb_items rb = map (rb_cell rb) [unat (rb_low rb)..<unat (rb_high rb)]"

text \<open>
  Between calls the cells from \<open>low\<close> to \<open>high\<close> hold the items, the others are empty.
\<close>

definition rb_ok :: "lockfree_ring_buffer \<Rightarrow> bool" where
  [inv_defs]: "rb_ok rb \<longleftrightarrow> rb_wf rb
     \<and> unat (rb_low rb) \<le> unat (rb_high rb)
     \<and> unat (rb_high rb) \<le> unat (rb_low rb) + unat (rb_size rb)
     \<and> (\<forall>p. unat (rb_low rb) \<le> p \<and> p < unat (rb_high rb) \<longrightarrow> rb_cell rb p \<noteq> NULL)
     \<and> (\<forall>p. unat (rb_high rb) \<le> p \<and> p < unat (rb_low rb) + unat (rb_size rb)
          \<longrightarrow> rb_cell rb p = NULL)"

lemma length_rb_items [simp]: "length (rb_items rb) = unat (rb_high rb) - unat (rb_low rb)"
  by (simp add: rb_items_def)

lemma rb_cell_update:
  assumes "rb_wf rb"
  shows "rb_cell (rb\<lparr>rb_buffer := (rb_buffer rb)[p mod unat (rb_size rb) := x]\<rparr>) q =
    (if q mod unat (rb_size rb) = p mod unat (rb_size rb) then x else rb_cell rb q)"
  using assms rb_wf_pos [OF assms] by (simp add: rb_cell_def nth_list_update rb_wf_length)

lemma buf_get_index:
  "rb_wf rb \<Longrightarrow> buf_get (rb_buffer rb) (i AND ucast (rb_power_of_2_mod rb)) = Some (rb_cell rb (unat i))"
  by (simp add: buf_get_def rb_index_less rb_index rb_cell_def rb_wf_length rb_wf_pos)

lemma buf_set_index:
  "rb_wf rb \<Longrightarrow> buf_set (rb_buffer rb) (i AND ucast (rb_power_of_2_mod rb)) x =
     Some ((rb_buffer rb)[unat i mod unat (rb_size rb) := x])"
  by (simp add: buf_set_def rb_index_less rb_index rb_wf_length rb_wf_pos)

section \<open>The operations refine a bounded queue\<close>

lemma lockfree_ring_buffer_create_ok:
  assumes "lockfree_ring_buffer_create k True = Some (Some rb)"
  shows "rb_ok rb \<and> rb_items rb = [] \<and> unat (rb_size rb) = 2 ^ unat k \<and> rb_high rb = 0"
proof -
  have k: "k \<noteq> 0" "k < 32" and rb: "rb = \<lparr>rb_high = 0, rb_low = 0,
      rb_size = push_bit (unat k) 1, rb_power_of_2_mod = push_bit (unat k) 1 - 1,
      rb_buffer = replicate (unat (push_bit (unat k) 1 :: u32)) NULL\<rparr>"
    using assms by (auto simp: lockfree_ring_buffer_create_def Let_def split: if_splits)
  have kb: "1 \<le> unat k" "unat k < 32"
    using k unat_gt_0 [of k] by (auto simp: word_less_nat_alt Suc_le_eq)
  then have "rb_wf rb"
    using unat_push_bit_1 [of "unat k"]
    by (auto simp: rb_wf_def rb mask_eq_exp_minus_1 intro!: bexI [of _ "unat k"])
  moreover have "rb_cell rb p = NULL" for p
    using rb_wf_pos [OF calculation] by (simp add: rb_cell_def rb)
  ultimately show ?thesis
    using unat_push_bit_1 [of "unat k"] kb by (auto simp: rb_ok_def rb_items_def rb)
qed

lemma trypush_unfold:
  assumes "rb_wf rb" and "p \<noteq> NULL"
  shows "lockfree_ring_buffer_trypush rb p = Some
    (if rb_cell rb (unat (rb_high rb)) = NULL \<and> rb_high rb - rb_low rb < ucast (rb_size rb)
     then (1, rb\<lparr>rb_high := rb_high rb + 1,
       rb_buffer := (rb_buffer rb)[unat (rb_high rb) mod unat (rb_size rb) := p]\<rparr>)
     else (0, rb))"
  using assms
  by (simp add: lockfree_ring_buffer_trypush_def buf_get_index buf_set_index
      sync_bool_compare_and_swap_def Let_def)

lemma trypop_unfold:
  assumes "rb_wf rb"
  shows "lockfree_ring_buffer_trypop rb = Some
    (if rb_cell rb (unat (rb_low rb)) \<noteq> NULL \<and> rb_low rb < rb_high rb
     then (rb_cell rb (unat (rb_low rb)), rb\<lparr>rb_low := rb_low rb + 1,
       rb_buffer := (rb_buffer rb)[unat (rb_low rb) mod unat (rb_size rb) := NULL]\<rparr>)
     else (NULL, rb))"
  using assms
  by (simp add: lockfree_ring_buffer_trypop_def buf_get_index buf_set_index
      sync_bool_compare_and_swap_def Let_def)

text \<open>A push has room for one more increment of \<open>high\<close>.\<close>

definition rb_room :: "lockfree_ring_buffer \<Rightarrow> nat" where
  "rb_room rb = 2 ^ 64 - 1 - unat (rb_high rb)"

lemma rb_full_iff:
  assumes "rb_ok rb"
  shows "rb_high rb - rb_low rb < ucast (rb_size rb) \<longleftrightarrow>
    length (rb_items rb) < unat (rb_size rb)"
proof -
  have "rb_low rb \<le> rb_high rb"
    using assms by (simp add: rb_ok_def word_le_nat_alt)
  then show ?thesis
    by (simp add: word_less_nat_alt unat_diff)
qed

lemma rb_push_law:
  assumes ok: "rb_ok rb" and p: "p \<noteq> NULL" and room: "0 < rb_room rb"
  shows "\<exists>rb'. lockfree_ring_buffer_trypush rb p =
      Some (if length (rb_items rb) < unat (rb_size rb) then 1 else 0, rb')
    \<and> rb_ok rb' \<and> rb_size rb' = rb_size rb \<and> rb_room rb \<le> Suc (rb_room rb')
    \<and> rb_items rb' =
        (if length (rb_items rb) < unat (rb_size rb) then rb_items rb @ [p] else rb_items rb)"
proof (cases "length (rb_items rb) < unat (rb_size rb)")
  case False
  with ok p show ?thesis
    by (simp add: trypush_unfold rb_full_iff rb_ok_def)
next
  case True
  let ?n = "unat (rb_size rb)" and ?h = "unat (rb_high rb)" and ?l = "unat (rb_low rb)"
  let ?rb = "rb\<lparr>rb_high := rb_high rb + 1, rb_buffer := (rb_buffer rb)[?h mod ?n := p]\<rparr>"
  have wf: "rb_wf rb" and le: "?l \<le> ?h" "?h \<le> ?l + ?n"
    using ok by (simp_all add: rb_ok_def)
  have lt: "?h < ?l + ?n"
    using True le by simp
  have null: "rb_cell rb ?h = NULL"
    using ok lt by (simp add: rb_ok_def)
  have h': "unat (rb_high rb + 1) = Suc ?h"
    using room by (intro unat_inc [where n = "2 ^ 64 - 1"]) (simp_all add: rb_room_def)
  have cell: "rb_cell ?rb q = (if q mod ?n = ?h mod ?n then p else rb_cell rb q)" for q
    using rb_cell_update [OF wf, of ?h p q] by (simp add: rb_cell_def)
  have old: "rb_cell ?rb q = rb_cell rb q" if "?l \<le> q" "q < ?h" for q
    using cell mod_neq_window [of q ?h ?n] that lt by simp
  have new: "rb_cell ?rb ?h = p"
    by (simp add: cell)
  have free: "rb_cell ?rb q = NULL" if "Suc ?h \<le> q" "q < ?l + ?n" for q
    using cell mod_neq_window [of ?h q ?n] that le ok by (simp add: rb_ok_def)
  have wf': "rb_wf ?rb"
    using wf by (simp add: rb_wf_def)
  have "rb_ok ?rb"
    unfolding rb_ok_def using wf' h' le lt old new free p ok
    by (auto simp: less_Suc_eq rb_ok_def)
  moreover have "rb_items ?rb = rb_items rb @ [p]"
    using le old new by (simp add: rb_items_def h')
  moreover have "rb_room rb \<le> Suc (rb_room ?rb)"
    by (simp add: rb_room_def h')
  moreover have "lockfree_ring_buffer_trypush rb p = Some (1, ?rb)"
    using True null by (simp add: trypush_unfold [OF wf p] rb_full_iff [OF ok])
  ultimately show ?thesis using True by auto
qed

lemma rb_pop_law:
  assumes ok: "rb_ok rb"
  shows "\<exists>rb'. lockfree_ring_buffer_trypop rb =
      Some (case rb_items rb of [] \<Rightarrow> NULL | x # _ \<Rightarrow> x, rb')
    \<and> rb_ok rb' \<and> rb_size rb' = rb_size rb \<and> rb_room rb \<le> rb_room rb'
    \<and> rb_items rb' = tl (rb_items rb) \<and> NULL \<notin> set (rb_items rb)"
proof -
  let ?n = "unat (rb_size rb)" and ?h = "unat (rb_high rb)" and ?l = "unat (rb_low rb)"
  have wf: "rb_wf rb" and le: "?l \<le> ?h" "?h \<le> ?l + ?n"
    using ok by (simp_all add: rb_ok_def)
  have nonnull: "NULL \<notin> set (rb_items rb)"
    using ok by (auto simp: rb_items_def rb_ok_def)
  show ?thesis
  proof (cases "?l < ?h")
    case False
    then have "rb_items rb = []" and "\<not> rb_low rb < rb_high rb"
      by (simp_all add: rb_items_def word_less_nat_alt)
    with ok show ?thesis by (simp add: trypop_unfold [OF wf])
  next
    case True
    let ?rb = "rb\<lparr>rb_low := rb_low rb + 1, rb_buffer := (rb_buffer rb)[?l mod ?n := NULL]\<rparr>"
    have items: "rb_items rb = rb_cell rb ?l # map (rb_cell rb) [Suc ?l..<?h]"
      using True by (simp add: rb_items_def upt_conv_Cons)
    have nz: "rb_cell rb ?l \<noteq> NULL"
      using ok True by (simp add: rb_ok_def)
    have l': "unat (rb_low rb + 1) = Suc ?l"
      using True unat_u64_less [of "rb_high rb"] by (intro unat_inc [where n = ?h]) simp_all
    have cell: "rb_cell ?rb q = (if q mod ?n = ?l mod ?n then NULL else rb_cell rb q)" for q
      using rb_cell_update [OF wf, of ?l NULL q] by (simp add: rb_cell_def)
    have old: "rb_cell ?rb q = rb_cell rb q" if "Suc ?l \<le> q" "q < ?h" for q
      using cell mod_neq_window [of ?l q ?n] that le by simp
    have free: "rb_cell ?rb q = NULL" if "?h \<le> q" "q < Suc ?l + ?n" for q
    proof (cases "q = ?l + ?n")
      case True
      then show ?thesis by (simp add: cell)
    next
      case False
      with that ok have "rb_cell rb q = NULL" by (simp add: rb_ok_def)
      then show ?thesis by (simp add: cell)
    qed
    have wf': "rb_wf ?rb"
      using wf by (simp add: rb_wf_def)
    have "rb_ok ?rb"
      unfolding rb_ok_def using wf' l' True le old free ok
      by (auto simp: rb_ok_def Suc_le_eq)
    moreover have "rb_items ?rb = tl (rb_items rb)"
      unfolding items using old by (simp add: rb_items_def l')
    moreover have "rb_room rb \<le> rb_room ?rb"
      by (simp add: rb_room_def)
    moreover have "lockfree_ring_buffer_trypop rb = Some (rb_cell rb ?l, ?rb)"
      using True nz by (simp add: trypop_unfold [OF wf] word_less_nat_alt)
    ultimately show ?thesis using items nonnull by auto
  qed
qed

text \<open>
  The results as the interface has them: \<open>1\<close> and \<open>0\<close> are true and false, \<open>NULL\<close> is no item.
\<close>

definition rb_push_op :: "lockfree_ring_buffer \<Rightarrow> ptr \<Rightarrow> (bool \<times> lockfree_ring_buffer) option" where
  "rb_push_op rb p = map_option (\<lambda>(r, rb'). (r \<noteq> 0, rb')) (lockfree_ring_buffer_trypush rb p)"

definition rb_pop_op :: "lockfree_ring_buffer \<Rightarrow> (ptr option \<times> lockfree_ring_buffer) option" where
  "rb_pop_op rb = map_option (\<lambda>(r, rb'). (if r = NULL then None else Some r, rb'))
     (lockfree_ring_buffer_trypop rb)"

interpretation rb: bounded_fifo rb_ok rb_items "\<lambda>rb. unat (rb_size rb)" rb_room "\<lambda>p. p \<noteq> NULL"
  rb_push_op rb_pop_op
proof (unfold_locales, goal_cases)
  case (1 s x)
  then show ?case
    using rb_push_law [of s x] by (auto simp: rb_push_op_def split: if_splits)
next
  case (2 s)
  then show ?case
    using rb_pop_law [of s] by (auto simp: rb_pop_op_def split: list.splits)
qed

section \<open>Properties\<close>

text \<open>
  C31. Every single-threaded history of \<open>trypush\<close> and \<open>trypop\<close> calls on a created buffer
  returns what a queue of \<open>2 ^ power_of_2_size\<close> items returns, and no call fails.
\<close>

theorem ring_buffer_history:
  assumes "lockfree_ring_buffer_create k True = Some (Some rb)"
    and "legal_ops (\<lambda>p. p \<noteq> NULL) ops" and "length ops < 2 ^ 64"
  shows "\<exists>rb'. run_fifo rb_push_op rb_pop_op rb ops =
      Some (fst (spec_fifo (2 ^ unat k) [] ops), rb')
    \<and> rb_items rb' = snd (spec_fifo (2 ^ unat k) [] ops)"
proof -
  have "rb_ok rb" "rb_items rb = []" "unat (rb_size rb) = 2 ^ unat k" "rb_room rb = 2 ^ 64 - 1"
    using lockfree_ring_buffer_create_ok [OF assms(1)] by (simp_all add: rb_room_def)
  then show ?thesis
    using rb.run_refines [of rb ops] assms(2,3) by fastforce
qed

definition rb_demo :: lockfree_ring_buffer where
  "rb_demo = \<lparr>rb_high = 0, rb_low = 0, rb_size = 2, rb_power_of_2_mod = 1, rb_buffer = [0, 0]\<rparr>"

lemma rb_demo_create: "lockfree_ring_buffer_create 1 True = Some (Some rb_demo)"
  by code_simp

theorem ring_buffer_history_witness:
  "\<exists>rb'. run_fifo rb_push_op rb_pop_op rb_demo [Push 7, Push 8, Push 9, Pop, Pop, Pop] =
    Some ([Pushed True, Pushed True, Pushed False, Popped (Some 7), Popped (Some 8), Popped None], rb')"
  using ring_buffer_history [OF rb_demo_create, of "[Push 7, Push 8, Push 9, Pop, Pop, Pop]"]
  by auto

text \<open>
  \<open>lockfree_ring_buffer_size\<close> is the number of items, for every state between calls.
\<close>

theorem ring_buffer_size_correct:
  assumes "rb_ok rb"
  shows "unat (lockfree_ring_buffer_size rb) = length (rb_items rb)"
proof -
  let ?s = "rb_high rb - rb_low rb"
  have le: "rb_low rb \<le> rb_high rb" and "unat (rb_high rb) \<le> unat (rb_low rb) + unat (rb_size rb)"
    using assms by (simp_all add: rb_ok_def word_le_nat_alt)
  moreover have "unat (rb_size rb) < 2 ^ 32"
    using unsigned_less [of "rb_size rb", where 'a = nat] by simp
  ultimately have "unat ?s < 2 ^ 63"
    by (simp add: unat_diff)
  then have "0 \<le> sint ?s"
    by (simp add: sint_eq_unat_u64)
  then show ?thesis
    using le by (simp add: lockfree_ring_buffer_size_def Let_def unat_diff)
qed

theorem ring_buffer_size_correct_witness:
  "rb_ok rb_demo \<and> unat (lockfree_ring_buffer_size rb_demo) = 0"
  using ring_buffer_size_correct [of rb_demo] lockfree_ring_buffer_create_ok [OF rb_demo_create]
  by simp

text \<open>
  The states of successive iterations of a blocking call: its failed attempts leave the struct
  alone, the environment may change it between them.
\<close>

primrec rb_spin :: "(nat \<Rightarrow> lockfree_ring_buffer \<Rightarrow> lockfree_ring_buffer) \<Rightarrow> nat
    \<Rightarrow> lockfree_ring_buffer \<Rightarrow> nat \<Rightarrow> lockfree_ring_buffer" where
  "rb_spin env i rb 0 = rb"
| "rb_spin env i rb (Suc n) = rb_spin env (i + 1) (env i rb) n"

definition rb_full :: "lockfree_ring_buffer \<Rightarrow> bool" where
  "rb_full rb \<longleftrightarrow> length (rb_items rb) = unat (rb_size rb)"

lemma trypush_full:
  assumes "rb_ok rb" and "p \<noteq> NULL" and "rb_full rb"
  shows "lockfree_ring_buffer_trypush rb p = Some (0, rb)"
  using assms by (auto simp: trypush_unfold rb_full_iff rb_full_def rb_ok_def)

lemma trypush_not_full:
  assumes "rb_ok rb" and "p \<noteq> NULL" and "0 < rb_room rb" and "\<not> rb_full rb"
  shows "\<exists>rb'. lockfree_ring_buffer_trypush rb p = Some (1, rb') \<and> rb_items rb' = rb_items rb @ [p]"
proof -
  have "length (rb_items rb) < unat (rb_size rb)"
    using assms(1,4) by (auto simp: rb_full_def rb_ok_def)
  then show ?thesis
    using rb_push_law [OF assms(1-3)] by auto
qed

lemma push_returns:
  assumes "\<forall>m. rb_ok (rb_spin env i rb m) \<and> 0 < rb_room (rb_spin env i rb m)"
    and "p \<noteq> NULL" and "\<not> rb_full (rb_spin env i rb n)"
  shows "\<exists>m\<le>n. \<exists>rb'. lockfree_ring_buffer_push env i rb p = Some rb'
    \<and> rb_items rb' = rb_items (rb_spin env i rb m) @ [p]"
  using assms
proof (induction n arbitrary: i rb)
  case 0
  then show ?case
    using trypush_not_full [of rb p] spec [OF 0(1), of 0]
    by (auto simp: lockfree_ring_buffer_push.simps [of env i rb])
next
  case (Suc n)
  have ok: "rb_ok rb" "0 < rb_room rb"
    using spec [OF Suc.prems(1), of 0] by simp_all
  show ?case
  proof (cases "rb_full rb")
    case False
    then show ?thesis
      using trypush_not_full [OF ok(1) Suc.prems(2) ok(2)]
      by (auto simp: lockfree_ring_buffer_push.simps [of env i rb] intro!: exI [of _ 0])
  next
    case True
    have "\<forall>m. rb_ok (rb_spin env (i + 1) (env i rb) m) \<and> 0 < rb_room (rb_spin env (i + 1) (env i rb) m)"
      using spec [OF Suc.prems(1), of "Suc _"] by simp
    from Suc.IH [OF this Suc.prems(2)] Suc.prems(3)
    obtain m rb' where "m \<le> n" "lockfree_ring_buffer_push env (i + 1) (env i rb) p = Some rb'"
        "rb_items rb' = rb_items (rb_spin env (i + 1) (env i rb) m) @ [p]"
      by auto
    with True show ?thesis
      by (auto simp: lockfree_ring_buffer_push.simps [of env i rb] trypush_full [OF ok(1) Suc.prems(2)]
          intro!: exI [of _ "Suc m"])
  qed
qed

lemma push_needs_room:
  assumes "lockfree_ring_buffer_push env i rb p = Some rb'" and "p \<noteq> NULL"
    and "\<forall>m. rb_ok (rb_spin env i rb m)"
  shows "\<exists>n. \<not> rb_full (rb_spin env i rb n)"
proof -
  have "p \<noteq> NULL \<longrightarrow> (\<forall>m. rb_ok (rb_spin env i rb m)) \<longrightarrow> (\<exists>n. \<not> rb_full (rb_spin env i rb n))"
  proof (rule lockfree_ring_buffer_push.raw_induct [where
      P = "\<lambda>env i rb p r. p \<noteq> NULL \<longrightarrow> (\<forall>m. rb_ok (rb_spin env i rb m))
        \<longrightarrow> (\<exists>n. \<not> rb_full (rb_spin env i rb n))", OF _ assms(1)], intro impI)
    fix f env i rb p r
    assume IH: "\<And>env i rb p r. f env i rb p = Some r \<Longrightarrow> p \<noteq> NULL \<longrightarrow>
        (\<forall>m. rb_ok (rb_spin env i rb m)) \<longrightarrow> (\<exists>n. \<not> rb_full (rb_spin env i rb n))"
      and eq: "(case lockfree_ring_buffer_trypush rb p of None \<Rightarrow> None
        | Some (r, rb') \<Rightarrow> if r \<noteq> 0 then Some rb' else f env (i + 1) (env i rb') p) = Some r"
      and p: "p \<noteq> NULL" and ok: "\<forall>m. rb_ok (rb_spin env i rb m)"
    show "\<exists>n. \<not> rb_full (rb_spin env i rb n)"
    proof (cases "rb_full rb")
      case False
      then show ?thesis by (intro exI [of _ 0]) simp
    next
      case True
      then have "f env (i + 1) (env i rb) p = Some r"
        using eq trypush_full [OF _ p True] spec [OF ok, of 0] by simp
      moreover have "\<forall>m. rb_ok (rb_spin env (i + 1) (env i rb) m)"
        using spec [OF ok, of "Suc _"] by simp
      ultimately obtain n where "\<not> rb_full (rb_spin env (i + 1) (env i rb) n)"
        using IH p by blast
      then show ?thesis by (intro exI [of _ "Suc n"]) simp
    qed
  qed
  with assms(2,3) show ?thesis by blast
qed

text \<open>
  The blocking push: while the other threads keep the struct in its invariant, it returns if
  and only if some iteration finds room; it spins for ever on a buffer that stays full.
\<close>

theorem ring_buffer_push_returns_iff:
  assumes "\<forall>m. rb_ok (rb_spin env i rb m) \<and> 0 < rb_room (rb_spin env i rb m)" and "p \<noteq> NULL"
  shows "(\<exists>rb'. lockfree_ring_buffer_push env i rb p = Some rb')
    \<longleftrightarrow> (\<exists>n. \<not> rb_full (rb_spin env i rb n))"
  using push_returns [OF assms] push_needs_room [of env i rb p] assms by blast

lemma rb_spin_idle [simp]: "rb_spin (\<lambda>_ r. r) i rb n = rb"
  by (induction n arbitrary: i) simp_all

lemma rb_demo_ok: "rb_ok rb_demo" "rb_room rb_demo = 2 ^ 64 - 1" "rb_items rb_demo = []"
  using lockfree_ring_buffer_create_ok [OF rb_demo_create] by (simp_all add: rb_room_def)

theorem ring_buffer_push_returns_iff_witness:
  "(\<exists>rb'. lockfree_ring_buffer_push (\<lambda>_ r. r) 0 rb_demo 7 = Some rb')
     \<longleftrightarrow> (\<exists>n. \<not> rb_full (rb_spin (\<lambda>_ r. r) 0 rb_demo n))"
  by (rule ring_buffer_push_returns_iff) (simp_all add: rb_demo_ok)

text \<open>
  At the end of the counters' range the two sides disagree: \<open>trypush\<close> and \<open>size\<close>
  subtract the counters and survive their wrap-around, \<open>trypop\<close> compares them and does not. The
  state below is the one after \<open>2 ^ 64\<close> pushes, with one item left in the buffer.
\<close>

lemma trypop_after_wrap:
  defines "rb \<equiv> rb_demo\<lparr>rb_high := 0, rb_low := - 1, rb_buffer := [0, 7]\<rparr>"
  shows "lockfree_ring_buffer_size rb = 1 \<and> lockfree_ring_buffer_trypop rb = Some (NULL, rb)"
  unfolding rb_def by code_simp

end
