(* ===== verification/Ring_Buffer_Conc.thy ===== *)
theory Ring_Buffer_Conc
  imports Ring_Buffer
begin

text \<open>
  \<open>lockfree_ring_buffer.h\<close> under any number of threads: \<open>trypush\<close> and \<open>trypop\<close> cut at each
  access to the shared struct, in the program's order, and interleaved at will. A thread's
  program counter holds the locals it has read. Two fields of the state are not the program's:
  the values whose push has won its compare-and-swap, in that order, and those whose pop has.
\<close>

section \<open>The threads' steps\<close>

datatype rb_pc =
    RB_idle
  | Push_low ptr                     \<comment> \<open>about to read \<open>low\<close>\<close>
  | Push_high ptr u64                \<comment> \<open>has \<open>low\<close>, about to read \<open>high\<close>\<close>
  | Push_cell ptr u64 u64            \<comment> \<open>has \<open>low\<close>, \<open>high\<close>, about to test the cell and the size\<close>
  | Push_cas ptr u64 u64             \<comment> \<open>the tests passed, about to compare-and-swap \<open>high\<close>\<close>
  | Push_store ptr u64               \<comment> \<open>owns position \<open>high\<close>, about to write its cell\<close>
  | Pop_high                         \<comment> \<open>about to read \<open>high\<close>\<close>
  | Pop_low u64                      \<comment> \<open>has \<open>high\<close>, about to read \<open>low\<close>\<close>
  | Pop_cell u64 u64                 \<comment> \<open>has \<open>high\<close>, \<open>low\<close>, about to read and test the cell\<close>
  | Pop_cas u64 u64 ptr              \<comment> \<open>the tests passed, about to compare-and-swap \<open>low\<close>\<close>
  | Pop_clear u64 ptr                \<comment> \<open>owns position \<open>low\<close>, about to clear its cell\<close>

record rb_sys =
  rs_rb :: lockfree_ring_buffer
  rs_pc :: "tid \<Rightarrow> rb_pc"
  rs_pushed :: "ptr list"
  rs_popped :: "ptr list"

abbreviation rb_goto :: "rb_sys \<Rightarrow> tid \<Rightarrow> rb_pc \<Rightarrow> rb_sys" where
  "rb_goto s t c \<equiv> s\<lparr>rs_pc := (rs_pc s)(t := c)\<rparr>"

definition rb_init :: "u32 \<Rightarrow> rb_sys \<Rightarrow> bool" where
  "rb_init k s \<longleftrightarrow> lockfree_ring_buffer_create k True = Some (Some (rs_rb s))
     \<and> rs_pc s = (\<lambda>_. RB_idle) \<and> rs_pushed s = [] \<and> rs_popped s = []"

abbreviation rb_idx :: "rb_sys \<Rightarrow> u64 \<Rightarrow> u64" where
  "rb_idx s i \<equiv> i AND ucast (rb_power_of_2_mod (rs_rb s))"

inductive rb_step :: "rb_sys \<Rightarrow> rb_sys \<Rightarrow> bool" where
  push_call: "rs_pc s t = RB_idle \<Longrightarrow> p \<noteq> NULL \<Longrightarrow> rb_step s (rb_goto s t (Push_low p))"
| push_low: "rs_pc s t = Push_low p \<Longrightarrow>
    rb_step s (rb_goto s t (Push_high p (rb_low (rs_rb s))))"
| push_high: "rs_pc s t = Push_high p low \<Longrightarrow>
    rb_step s (rb_goto s t (Push_cell p low (rb_high (rs_rb s))))"
| push_tests: "rs_pc s t = Push_cell p low high \<Longrightarrow>
    buf_get (rb_buffer (rs_rb s)) (rb_idx s high) = Some cell \<Longrightarrow>
    rb_step s (rb_goto s t
      (if cell = NULL \<and> high - low < ucast (rb_size (rs_rb s)) then Push_cas p low high
       else RB_idle))"
| push_won: "rs_pc s t = Push_cas p low high \<Longrightarrow>
    sync_bool_compare_and_swap (rb_high (rs_rb s)) high (high + 1) = (True, high') \<Longrightarrow>
    rb_step s (rb_goto s t (Push_store p high)
      \<lparr>rs_rb := (rs_rb s)\<lparr>rb_high := high'\<rparr>, rs_pushed := rs_pushed s @ [p]\<rparr>)"
| push_lost: "rs_pc s t = Push_cas p low high \<Longrightarrow>
    sync_bool_compare_and_swap (rb_high (rs_rb s)) high (high + 1) = (False, high') \<Longrightarrow>
    rb_step s (rb_goto s t RB_idle)"
| push_store: "rs_pc s t = Push_store p high \<Longrightarrow>
    buf_set (rb_buffer (rs_rb s)) (rb_idx s high) p = Some b \<Longrightarrow>
    rb_step s (rb_goto s t RB_idle\<lparr>rs_rb := (rs_rb s)\<lparr>rb_buffer := b\<rparr>\<rparr>)"
| pop_call: "rs_pc s t = RB_idle \<Longrightarrow> rb_step s (rb_goto s t Pop_high)"
| pop_high: "rs_pc s t = Pop_high \<Longrightarrow>
    rb_step s (rb_goto s t (Pop_low (rb_high (rs_rb s))))"
| pop_low: "rs_pc s t = Pop_low high \<Longrightarrow>
    rb_step s (rb_goto s t (Pop_cell high (rb_low (rs_rb s))))"
| pop_tests: "rs_pc s t = Pop_cell high low \<Longrightarrow>
    buf_get (rb_buffer (rs_rb s)) (rb_idx s low) = Some ret \<Longrightarrow>
    rb_step s (rb_goto s t
      (if ret \<noteq> NULL \<and> high > low then Pop_cas high low ret else RB_idle))"
| pop_won: "rs_pc s t = Pop_cas high low ret \<Longrightarrow>
    sync_bool_compare_and_swap (rb_low (rs_rb s)) low (low + 1) = (True, low') \<Longrightarrow>
    rb_step s (rb_goto s t (Pop_clear low ret)
      \<lparr>rs_rb := (rs_rb s)\<lparr>rb_low := low'\<rparr>, rs_popped := rs_popped s @ [ret]\<rparr>)"
| pop_lost: "rs_pc s t = Pop_cas high low ret \<Longrightarrow>
    sync_bool_compare_and_swap (rb_low (rs_rb s)) low (low + 1) = (False, low') \<Longrightarrow>
    rb_step s (rb_goto s t RB_idle)"
| pop_clear: "rs_pc s t = Pop_clear low ret \<Longrightarrow>
    buf_set (rb_buffer (rs_rb s)) (rb_idx s low) NULL = Some b \<Longrightarrow>
    rb_step s (rb_goto s t RB_idle\<lparr>rs_rb := (rs_rb s)\<lparr>rb_buffer := b\<rparr>\<rparr>)"

section \<open>The invariant\<close>

text \<open>The position a thread has won and not yet written, or not yet cleared.\<close>

fun store_pos :: "rb_pc \<Rightarrow> nat option" where
  "store_pos (Push_store p high) = Some (unat high)"
| "store_pos _ = None"

fun clear_pos :: "rb_pc \<Rightarrow> nat option" where
  "clear_pos (Pop_clear low ret) = Some (unat low)"
| "clear_pos _ = None"

abbreviation rs_H :: "rb_sys \<Rightarrow> nat" where "rs_H s \<equiv> length (rs_pushed s)"
abbreviation rs_L :: "rb_sys \<Rightarrow> nat" where "rs_L s \<equiv> length (rs_popped s)"
abbreviation rs_n :: "rb_sys \<Rightarrow> nat" where "rs_n s \<equiv> unat (rb_size (rs_rb s))"

text \<open>What a thread knows of its locals, whatever the others do.\<close>

fun rb_local :: "rb_sys \<Rightarrow> rb_pc \<Rightarrow> bool" where
  "rb_local s RB_idle \<longleftrightarrow> True"
| "rb_local s (Push_low p) \<longleftrightarrow> p \<noteq> NULL"
| "rb_local s (Push_high p low) \<longleftrightarrow> p \<noteq> NULL \<and> unat low \<le> rs_L s"
| "rb_local s (Push_cell p low high) \<longleftrightarrow>
     p \<noteq> NULL \<and> unat low \<le> rs_L s \<and> unat low \<le> unat high \<and> unat high \<le> rs_H s"
| "rb_local s (Push_cas p low high) \<longleftrightarrow>
     p \<noteq> NULL \<and> unat low \<le> rs_L s \<and> unat high \<le> rs_H s \<and> unat high < unat low + rs_n s
     \<and> (unat high = rs_H s \<longrightarrow> (\<forall>t c. clear_pos (rs_pc s t) = Some c \<longrightarrow> c + rs_n s \<noteq> unat high))"
| "rb_local s (Push_store p high) \<longleftrightarrow>
     p \<noteq> NULL \<and> rs_L s \<le> unat high \<and> unat high < rs_H s \<and> rs_pushed s ! unat high = p
     \<and> rb_cell (rs_rb s) (unat high) = NULL"
| "rb_local s Pop_high \<longleftrightarrow> True"
| "rb_local s (Pop_low high) \<longleftrightarrow> unat high \<le> rs_H s"
| "rb_local s (Pop_cell high low) \<longleftrightarrow> unat high \<le> rs_H s \<and> unat low \<le> rs_L s"
| "rb_local s (Pop_cas high low ret) \<longleftrightarrow>
     unat high \<le> rs_H s \<and> unat low \<le> rs_L s \<and> unat low < unat high
     \<and> (unat low = rs_L s \<longrightarrow> ret = rs_pushed s ! unat low
          \<and> (\<forall>t. store_pos (rs_pc s t) \<noteq> Some (unat low)))"
| "rb_local s (Pop_clear low ret) \<longleftrightarrow>
     unat low < rs_L s \<and> rs_H s \<le> unat low + rs_n s \<and> rb_cell (rs_rb s) (unat low) \<noteq> NULL"

definition rb_inv :: "rb_sys \<Rightarrow> bool" where
  [inv_defs]: "rb_inv s \<longleftrightarrow> rb_wf (rs_rb s)
     \<and> unat (rb_high (rs_rb s)) = rs_H s \<and> unat (rb_low (rs_rb s)) = rs_L s
     \<and> rs_L s \<le> rs_H s \<and> rs_H s \<le> rs_L s + rs_n s
     \<and> rs_popped s = take (rs_L s) (rs_pushed s) \<and> NULL \<notin> set (rs_pushed s)
     \<and> (\<forall>t. rb_local s (rs_pc s t))
     \<and> (\<forall>t t' p. store_pos (rs_pc s t) = Some p \<and> store_pos (rs_pc s t') = Some p \<longrightarrow> t = t')
     \<and> (\<forall>t t' p. clear_pos (rs_pc s t) = Some p \<and> clear_pos (rs_pc s t') = Some p \<longrightarrow> t = t')
     \<and> (\<forall>p. rs_L s \<le> p \<and> p < rs_H s \<and> (\<forall>t. store_pos (rs_pc s t) \<noteq> Some p)
          \<longrightarrow> rb_cell (rs_rb s) p = rs_pushed s ! p)
     \<and> (\<forall>p. rs_H s \<le> p \<and> p < rs_L s + rs_n s
          \<and> (\<forall>t c. clear_pos (rs_pc s t) = Some c \<longrightarrow> c + rs_n s \<noteq> p)
          \<longrightarrow> rb_cell (rs_rb s) p = NULL)"

definition rb_bound :: "rb_sys \<Rightarrow> bool" where
  "rb_bound s \<longleftrightarrow> rs_H s < 2 ^ 64"

section \<open>Every step keeps it\<close>

lemma rb_invD:
  assumes "rb_inv s"
  shows "rb_wf (rs_rb s)" "unat (rb_high (rs_rb s)) = rs_H s" "unat (rb_low (rs_rb s)) = rs_L s"
    "rs_L s \<le> rs_H s" "rs_H s \<le> rs_L s + rs_n s"
    "rs_popped s = take (rs_L s) (rs_pushed s)" "NULL \<notin> set (rs_pushed s)"
    "rb_local s (rs_pc s t)"
  using assms by (simp_all add: rb_inv_def)

lemma rb_invI:
  assumes "rb_wf (rs_rb s)" and "unat (rb_high (rs_rb s)) = rs_H s" and "unat (rb_low (rs_rb s)) = rs_L s"
    and "rs_L s \<le> rs_H s" and "rs_H s \<le> rs_L s + rs_n s"
    and "rs_popped s = take (rs_L s) (rs_pushed s)" and "NULL \<notin> set (rs_pushed s)"
    and "\<And>u. rb_local s (rs_pc s u)"
    and "\<And>u v q. store_pos (rs_pc s u) = Some q \<Longrightarrow> store_pos (rs_pc s v) = Some q \<Longrightarrow> u = v"
    and "\<And>u v q. clear_pos (rs_pc s u) = Some q \<Longrightarrow> clear_pos (rs_pc s v) = Some q \<Longrightarrow> u = v"
    and "\<And>q. rs_L s \<le> q \<Longrightarrow> q < rs_H s \<Longrightarrow> \<forall>u. store_pos (rs_pc s u) \<noteq> Some q \<Longrightarrow>
      rb_cell (rs_rb s) q = rs_pushed s ! q"
    and "\<And>q. rs_H s \<le> q \<Longrightarrow> q < rs_L s + rs_n s \<Longrightarrow>
      \<forall>u c. clear_pos (rs_pc s u) = Some c \<longrightarrow> c + rs_n s \<noteq> q \<Longrightarrow> rb_cell (rs_rb s) q = NULL"
  shows "rb_inv s"
  unfolding rb_inv_def using assms by blast

lemma rb_inv_store_unique:
  "rb_inv s \<Longrightarrow> store_pos (rs_pc s t) = Some p \<Longrightarrow> store_pos (rs_pc s t') = Some p \<Longrightarrow> t = t'"
  by (simp add: rb_inv_def)

lemma rb_inv_clear_unique:
  "rb_inv s \<Longrightarrow> clear_pos (rs_pc s t) = Some p \<Longrightarrow> clear_pos (rs_pc s t') = Some p \<Longrightarrow> t = t'"
  by (simp add: rb_inv_def)

lemma rb_inv_full_cell:
  "rb_inv s \<Longrightarrow> rs_L s \<le> p \<Longrightarrow> p < rs_H s \<Longrightarrow> \<forall>t. store_pos (rs_pc s t) \<noteq> Some p \<Longrightarrow>
     rb_cell (rs_rb s) p = rs_pushed s ! p"
  by (simp add: rb_inv_def)

lemma rb_inv_free_cell:
  "rb_inv s \<Longrightarrow> rs_H s \<le> p \<Longrightarrow> p < rs_L s + rs_n s \<Longrightarrow>
     \<forall>t c. clear_pos (rs_pc s t) = Some c \<longrightarrow> c + rs_n s \<noteq> p \<Longrightarrow> rb_cell (rs_rb s) p = NULL"
  by (simp add: rb_inv_def)

text \<open>A thread that owns a position is between its compare-and-swap and its last access.\<close>

lemma store_posE:
  assumes "store_pos c = Some p"
  obtains x h where "c = Push_store x h" "p = unat h"
  using assms by (cases c) auto

lemma clear_posE:
  assumes "clear_pos c = Some p"
  obtains l r where "c = Pop_clear l r" "p = unat l"
  using assms by (cases c) auto

lemma rb_inv_store_pos:
  assumes "rb_inv s" and "store_pos (rs_pc s t) = Some p"
  shows "rs_L s \<le> p \<and> p < rs_H s \<and> rb_cell (rs_rb s) p = NULL"
proof -
  obtain x h where "rs_pc s t = Push_store x h" "p = unat h"
    using store_posE [OF assms(2)] by blast
  with rb_invD(8) [OF assms(1), of t] show ?thesis by simp
qed

lemma rb_inv_clear_pos:
  assumes "rb_inv s" and "clear_pos (rs_pc s t) = Some p"
  shows "p < rs_L s \<and> rs_H s \<le> p + rs_n s \<and> rb_cell (rs_rb s) p \<noteq> NULL"
proof -
  obtain l r where "rs_pc s t = Pop_clear l r" "p = unat l"
    using clear_posE [OF assms(2)] by blast
  with rb_invD(8) [OF assms(1), of t] show ?thesis by simp
qed

text \<open>A step that only moves a thread that owns nothing.\<close>

lemma rb_inv_quiet:
  assumes inv: "rb_inv s"
    and pos: "store_pos (rs_pc s t) = None" "clear_pos (rs_pc s t) = None"
      "store_pos c = None" "clear_pos c = None"
    and loc: "rb_local s c"
  shows "rb_inv (rb_goto s t c)"
proof -
  have sp: "store_pos (((rs_pc s)(t := c)) u) = store_pos (rs_pc s u)"
    and cp: "clear_pos (((rs_pc s)(t := c)) u) = clear_pos (rs_pc s u)" for u
    using pos by simp_all
  have cong: "rb_local (rb_goto s t c) d = rb_local s d" for d
    by (cases d) (simp_all add: sp cp del: fun_upd_apply)
  have "rb_local (rb_goto s t c) (rs_pc (rb_goto s t c) u)" for u
    unfolding cong using rb_invD(8) [OF inv, of u] loc by simp
  then show ?thesis
    using inv unfolding rb_inv_def by (simp add: sp cp del: fun_upd_apply)
qed

lemma tests_cell:
  "rb_wf rb \<Longrightarrow> buf_get (rb_buffer rb) (i AND ucast (rb_power_of_2_mod rb)) = Some c \<longleftrightarrow>
     c = rb_cell rb (unat i)"
  by (auto simp: buf_get_index)

lemma rb_inv_push_tests:
  assumes inv: "rb_inv s" and pc: "rs_pc s t = Push_cell p low high"
    and cell: "rb_cell (rs_rb s) (unat high) = NULL"
    and sz: "high - low < ucast (rb_size (rs_rb s))"
  shows "rb_local s (Push_cas p low high)"
proof -
  have l: "p \<noteq> NULL" "unat low \<le> rs_L s" "unat low \<le> unat high" "unat high \<le> rs_H s"
    using rb_invD(8) [OF inv, of t] pc by simp_all
  have "unat high - unat low < rs_n s"
    using sz l(3) by (simp add: word_less_nat_alt unat_diff word_le_nat_alt)
  then have lt: "unat high < unat low + rs_n s"
    using l(3) by linarith
  have "c + rs_n s \<noteq> unat high" if "clear_pos (rs_pc s u) = Some c" for u c
  proof
    assume "c + rs_n s = unat high"
    then have "rb_cell (rs_rb s) (unat high) = rb_cell (rs_rb s) c"
      by (simp add: rb_cell_def flip: \<open>c + rs_n s = unat high\<close>)
    then show False
      using rb_inv_clear_pos [OF inv that] cell by simp
  qed
  with l lt show ?thesis by auto
qed

lemma rb_inv_pop_tests:
  assumes inv: "rb_inv s" and pc: "rs_pc s t = Pop_cell high low"
    and ret: "rb_cell (rs_rb s) (unat low) \<noteq> NULL" and lt: "high > low"
  shows "rb_local s (Pop_cas high low (rb_cell (rs_rb s) (unat low)))"
proof -
  have l: "unat high \<le> rs_H s" "unat low \<le> rs_L s"
    using rb_invD(8) [OF inv, of t] pc by simp_all
  have lt': "unat low < unat high"
    using lt by (simp add: word_less_nat_alt)
  have no_store: "store_pos (rs_pc s u) \<noteq> Some (unat low)" for u
    using rb_inv_store_pos [OF inv, of u "unat low"] ret by auto
  have "rb_cell (rs_rb s) (unat low) = rs_pushed s ! unat low" if "unat low = rs_L s"
    using rb_inv_full_cell [OF inv, of "unat low"] that l lt' no_store by simp
  with l lt' no_store show ?thesis by auto
qed

lemma rb_cell_fields [simp]:
  "rb_cell (rb\<lparr>rb_high := h\<rparr>) p = rb_cell rb p"
  "rb_cell (rb\<lparr>rb_low := h\<rparr>) p = rb_cell rb p"
  by (simp_all add: rb_cell_def)

lemma rb_wf_fields [simp]:
  "rb_wf (rb\<lparr>rb_high := h\<rparr>) = rb_wf rb"
  "rb_wf (rb\<lparr>rb_low := h\<rparr>) = rb_wf rb"
  "rb_wf (rb\<lparr>rb_buffer := (rb_buffer rb)[i := x]\<rparr>) = rb_wf rb"
  by (simp_all add: rb_wf_def)

lemma rb_inv_push_won:
  assumes inv: "rb_inv s" and pc: "rs_pc s t = Push_cas p low high"
    and eq: "rb_high (rs_rb s) = high" and bound: "Suc (rs_H s) < 2 ^ 64"
  shows "rb_inv (rb_goto s t (Push_store p high)
    \<lparr>rs_rb := (rs_rb s)\<lparr>rb_high := high + 1\<rparr>, rs_pushed := rs_pushed s @ [p]\<rparr>)" (is "rb_inv ?s")
proof -
  note D = rb_invD [OF inv]
  have h: "unat high = rs_H s"
    using D(2) eq by simp
  have own: "p \<noteq> NULL" "unat low \<le> rs_L s" "rs_H s < unat low + rs_n s"
    and no_clear: "\<And>u c. clear_pos (rs_pc s u) = Some c \<Longrightarrow> c + rs_n s \<noteq> rs_H s"
    using D(8) [of t] pc h by auto
  have h': "unat (high + 1) = Suc (rs_H s)"
    using bound h by (simp add: unat_inc [where n = "2 ^ 64 - 1"])
  have clear: "clear_pos (rs_pc ?s u) = clear_pos (rs_pc s u)" for u
    using pc by simp
  have store: "store_pos (rs_pc ?s u) = (if u = t then Some (rs_H s) else store_pos (rs_pc s u))" for u
    using h by simp
  have empty: "rb_cell (rs_rb s) (rs_H s) = NULL"
    using rb_inv_free_cell [OF inv] no_clear own by simp
  have loc: "rb_local ?s (rs_pc ?s u)" for u
  proof (cases "u = t")
    case True
    then show ?thesis using own h empty D(4) by simp
  next
    case False
    then show ?thesis
      using D(8) [of u] D(4) no_clear [of u] store clear h
      by (cases "rs_pc s u") (auto simp: nth_append)
  qed
  have store_lt: "store_pos (rs_pc s u) \<noteq> Some (rs_H s)" for u
    using rb_inv_store_pos [OF inv, of u "rs_H s"] by auto
  have full: "rb_cell (rs_rb ?s) q = rs_pushed ?s ! q"
    if "rs_L s \<le> q" "q < Suc (rs_H s)" "\<forall>u. store_pos (rs_pc ?s u) \<noteq> Some q" for q
  proof -
    have q: "q < rs_H s"
      using that(2,3) store by (metis less_SucE)
    have "store_pos (rs_pc s u) \<noteq> Some q" for u
      using that(3) store [of u] pc by (cases "u = t") (auto dest: spec [of _ u])
    with q show ?thesis
      using rb_inv_full_cell [OF inv that(1) q] by (simp add: nth_append)
  qed
  have free: "rb_cell (rs_rb ?s) q = NULL"
    if "Suc (rs_H s) \<le> q" "q < rs_L s + rs_n s"
      "\<forall>u c. clear_pos (rs_pc ?s u) = Some c \<longrightarrow> c + rs_n s \<noteq> q" for q
    using rb_inv_free_cell [OF inv, of q] that unfolding clear by simp
  show ?thesis
  proof (rule rb_invI)
    show "u = v" if "store_pos (rs_pc ?s u) = Some q" "store_pos (rs_pc ?s v) = Some q" for u v q
      using that store store_lt rb_inv_store_unique [OF inv] by (metis option.inject)
    show "u = v" if "clear_pos (rs_pc ?s u) = Some q" "clear_pos (rs_pc ?s v) = Some q" for u v q
      using that unfolding clear by (rule rb_inv_clear_unique [OF inv])
    show "rb_local ?s (rs_pc ?s u)" for u
      by (rule loc)
  qed (use D h' own full free in simp_all)
qed

lemma rb_local_pop_won:
  assumes inv: "rb_inv s" and pc: "rs_pc s t = Pop_cas high low ret" and eq: "rb_low (rs_rb s) = low" and False: "u \<noteq> t"
  shows "rb_local (rb_goto s t (Pop_clear low ret)
    \<lparr>rs_rb := (rs_rb s)\<lparr>rb_low := low + 1\<rparr>, rs_popped := rs_popped s @ [ret]\<rparr>) (rs_pc s u)" (is "rb_local ?s _")
proof -
  note D = rb_invD [OF inv]
  have l: "unat low = rs_L s"
    using D(3) eq by simp
  have no_store: "\<And>u. store_pos (rs_pc s u) \<noteq> Some (rs_L s)"
    using D(8) [of t] pc l by auto
  have clear: "clear_pos (rs_pc ?s u) = (if u = t then Some (rs_L s) else clear_pos (rs_pc s u))" for u
    using l by simp
  have store: "store_pos (rs_pc ?s u) = store_pos (rs_pc s u)" for u
    using pc by simp
  have loc: "rb_local s (rs_pc s u)" by (rule D(8))
  show ?thesis
  proof (cases "rs_pc s u")
    case (Push_cas x lo hi)
    then have "unat hi < rs_L s + rs_n s" and "unat hi = rs_H s \<longrightarrow>
        (\<forall>t c. clear_pos (rs_pc s t) = Some c \<longrightarrow> c + rs_n s \<noteq> unat hi)"
      using loc by auto
    then have "c + rs_n s \<noteq> unat hi" if "clear_pos (rs_pc ?s v) = Some c" "unat hi = rs_H s" for v c
      using clear [of v] that by (cases "v = t") auto
    then show ?thesis
      using loc Push_cas by simp
  next
    case (Push_store x hi)
    then have "unat hi \<noteq> rs_L s"
      using no_store [of u] by simp
    then show ?thesis
      using loc Push_store by simp
  next
    case (Pop_cas hi lo r)
    then show ?thesis
      using loc store by (simp del: fun_upd_apply)
  qed (use loc in simp_all)
qed

lemma rb_inv_pop_won:
  assumes inv: "rb_inv s" and pc: "rs_pc s t = Pop_cas high low ret"
    and eq: "rb_low (rs_rb s) = low" and bound: "rs_H s < 2 ^ 64"
  shows "rb_inv (rb_goto s t (Pop_clear low ret)
    \<lparr>rs_rb := (rs_rb s)\<lparr>rb_low := low + 1\<rparr>, rs_popped := rs_popped s @ [ret]\<rparr>)" (is "rb_inv ?s")
proof -
  note D = rb_invD [OF inv]
  have l: "unat low = rs_L s"
    using D(3) eq by simp
  have own: "rs_L s < rs_H s" "ret = rs_pushed s ! rs_L s"
    and no_store: "\<And>u. store_pos (rs_pc s u) \<noteq> Some (rs_L s)"
    using D(8) [of t] pc l by auto
  have l': "unat (low + 1) = Suc (rs_L s)"
    using bound l own(1) by (simp add: unat_inc [where n = "2 ^ 64 - 1"])
  have clear: "clear_pos (rs_pc ?s u) = (if u = t then Some (rs_L s) else clear_pos (rs_pc s u))" for u
    using l by simp
  have store: "store_pos (rs_pc ?s u) = store_pos (rs_pc s u)" for u
    using pc by simp
  have cell: "rb_cell (rs_rb s) (rs_L s) = ret"
    using rb_inv_full_cell [OF inv, of "rs_L s"] no_store own by simp
  have ret: "ret \<noteq> NULL"
    using own D(7) by (metis nth_mem)
  have loc: "rb_local ?s (rs_pc ?s u)" for u
  proof (cases "u = t")
    case True
    then show ?thesis using l cell ret D(5) by simp
  next
    case False
    then show ?thesis
      using rb_local_pop_won [OF inv pc eq False] by simp
  qed
  have clear_lt: "clear_pos (rs_pc s u) \<noteq> Some (rs_L s)" for u
    using rb_inv_clear_pos [OF inv, of u "rs_L s"] by auto
  have full: "rb_cell (rs_rb ?s) q = rs_pushed ?s ! q"
    if "Suc (rs_L s) \<le> q" "q < rs_H s" "\<forall>u. store_pos (rs_pc ?s u) \<noteq> Some q" for q
    using rb_inv_full_cell [OF inv, of q] that unfolding store by simp
  have free: "rb_cell (rs_rb ?s) q = NULL"
    if "rs_H s \<le> q" "q < Suc (rs_L s) + rs_n s"
      "\<forall>u c. clear_pos (rs_pc ?s u) = Some c \<longrightarrow> c + rs_n s \<noteq> q" for q
  proof -
    have "q \<noteq> rs_L s + rs_n s"
      using that(3) clear [of t] by (metis (full_types))
    moreover have "c + rs_n s \<noteq> q" if "clear_pos (rs_pc s u) = Some c" for u c
    proof (cases "u = t")
      case True
      with that pc show ?thesis by simp
    next
      case False
      then show ?thesis
        using \<open>\<forall>u c. clear_pos (rs_pc ?s u) = Some c \<longrightarrow> c + rs_n s \<noteq> q\<close> clear [of u] that
        by (metis (full_types))
    qed
    ultimately show ?thesis
      using rb_inv_free_cell [OF inv, of q] that(1,2) by simp
  qed
  show ?thesis
  proof (rule rb_invI)
    show "u = v" if "store_pos (rs_pc ?s u) = Some q" "store_pos (rs_pc ?s v) = Some q" for u v q
      using that unfolding store by (rule rb_inv_store_unique [OF inv])
    show "u = v" if "clear_pos (rs_pc ?s u) = Some q" "clear_pos (rs_pc ?s v) = Some q" for u v q
      using that clear clear_lt rb_inv_clear_unique [OF inv] by (metis option.inject)
    show "rb_local ?s (rs_pc ?s u)" for u
      by (rule loc)
    have "rs_popped s @ [ret] = take (rs_L s) (rs_pushed s) @ [rs_pushed s ! rs_L s]"
      using D(6) own(2) by simp
    then show "rs_popped ?s = take (rs_L ?s) (rs_pushed ?s)"
      using own(1) by (simp add: take_Suc_conv_app_nth)
  qed (use D l' own full free in simp_all)
qed

lemma rb_local_push_store:
  assumes inv: "rb_inv s" and pc: "rs_pc s t = Push_store p high" and False: "u \<noteq> t"
  shows "rb_local (rb_goto s t RB_idle\<lparr>rs_rb := (rs_rb s)
    \<lparr>rb_buffer := (rb_buffer (rs_rb s))[unat high mod rs_n s := p]\<rparr>\<rparr>) (rs_pc s u)" (is "rb_local ?s _")
proof -
  note D = rb_invD [OF inv]
  let ?n = "rs_n s" and ?h = "unat high"
  have own: "p \<noteq> NULL" "rs_L s \<le> ?h" "?h < rs_H s" "rs_pushed s ! ?h = p"
    using D(8) [of t] pc by simp_all
  have cell: "rb_cell (rs_rb ?s) q = (if q mod ?n = ?h mod ?n then p else rb_cell (rs_rb s) q)" for q
    using rb_cell_update [OF D(1)] by simp
  have clear: "clear_pos (rs_pc ?s u) = clear_pos (rs_pc s u)" for u
    using pc by simp
  have store: "store_pos (rs_pc ?s u) = (if u = t then None else store_pos (rs_pc s u))" for u
    by simp
  have window: "q mod ?n \<noteq> ?h mod ?n" if "rs_L s \<le> q" "q < rs_H s" "q \<noteq> ?h" for q
    using mod_neq_window [of q ?h ?n] mod_neq_window [of ?h q ?n] that own D(5)
    by (cases q ?h rule: linorder_cases) auto
  have loc: "rb_local s (rs_pc s u)" by (rule D(8))
  show ?thesis
  proof (cases "rs_pc s u")
    case (Push_store x hi)
    then have "unat hi \<noteq> ?h"
      using rb_inv_store_unique [OF inv, of u ?h t] pc False by auto
    then show ?thesis
      using loc Push_store window [of "unat hi"] cell [of "unat hi"] by simp
  next
    case (Pop_clear lo r)
    then show ?thesis
      using loc own(1) cell [of "unat lo"] by simp
  next
    case (Push_cas x lo hi)
    then show ?thesis
      using loc clear by (simp del: fun_upd_apply)
  next
    case (Pop_cas hi lo r)
    then have "store_pos (rs_pc ?s v) \<noteq> Some (unat lo)" if "unat lo = rs_L s" for v
      using loc store [of v] that by auto
    then show ?thesis
      using loc Pop_cas by simp
  qed (use loc in simp_all)
qed

lemma rb_inv_push_store:
  assumes inv: "rb_inv s" and pc: "rs_pc s t = Push_store p high"
  shows "rb_inv (rb_goto s t RB_idle\<lparr>rs_rb := (rs_rb s)
    \<lparr>rb_buffer := (rb_buffer (rs_rb s))[unat high mod rs_n s := p]\<rparr>\<rparr>)" (is "rb_inv ?s")
proof -
  note D = rb_invD [OF inv]
  let ?n = "rs_n s" and ?h = "unat high"
  have own: "p \<noteq> NULL" "rs_L s \<le> ?h" "?h < rs_H s" "rs_pushed s ! ?h = p"
    using D(8) [of t] pc by simp_all
  have cell: "rb_cell (rs_rb ?s) q = (if q mod ?n = ?h mod ?n then p else rb_cell (rs_rb s) q)" for q
    using rb_cell_update [OF D(1)] by simp
  have clear: "clear_pos (rs_pc ?s u) = clear_pos (rs_pc s u)" for u
    using pc by simp
  have store: "store_pos (rs_pc ?s u) = (if u = t then None else store_pos (rs_pc s u))" for u
    by simp
  have window: "q mod ?n \<noteq> ?h mod ?n" if "rs_L s \<le> q" "q < rs_H s" "q \<noteq> ?h" for q
    using mod_neq_window [of q ?h ?n] mod_neq_window [of ?h q ?n] that own D(5)
    by (cases q ?h rule: linorder_cases) auto
  have loc: "rb_local ?s (rs_pc ?s u)" for u
  proof (cases "u = t")
    case True
    then show ?thesis by simp
  next
    case False
    then show ?thesis
      using rb_local_push_store [OF inv pc False] by simp
  qed
  have full: "rb_cell (rs_rb ?s) q = rs_pushed s ! q"
    if "rs_L s \<le> q" "q < rs_H s" "\<forall>u. store_pos (rs_pc ?s u) \<noteq> Some q" for q
  proof (cases "q = ?h")
    case True
    then show ?thesis using cell own(4) by simp
  next
    case False
    have "store_pos (rs_pc s u) \<noteq> Some q" for u
      using that(3) [rule_format, of u] store [of u] pc False by (cases "u = t") auto
    then show ?thesis
      using rb_inv_full_cell [OF inv that(1,2)] cell window [OF that(1,2) False] by simp
  qed
  have free: "rb_cell (rs_rb ?s) q = NULL"
    if "rs_H s \<le> q" "q < rs_L s + ?n"
      "\<forall>u c. clear_pos (rs_pc ?s u) = Some c \<longrightarrow> c + ?n \<noteq> q" for q
    using rb_inv_free_cell [OF inv that(1,2)] that cell [of q] mod_neq_window [of ?h q ?n] own
    unfolding clear by simp
  show ?thesis
  proof (rule rb_invI)
    show "u = v" if "store_pos (rs_pc ?s u) = Some q" "store_pos (rs_pc ?s v) = Some q" for u v q
      using that store rb_inv_store_unique [OF inv] by (metis option.distinct(1))
    show "u = v" if "clear_pos (rs_pc ?s u) = Some q" "clear_pos (rs_pc ?s v) = Some q" for u v q
      using that unfolding clear by (rule rb_inv_clear_unique [OF inv])
    show "rb_local ?s (rs_pc ?s u)" for u
      by (rule loc)
  qed (use D full free in simp_all)
qed

lemma rb_local_pop_clear:
  assumes inv: "rb_inv s" and pc: "rs_pc s t = Pop_clear low ret" and False: "u \<noteq> t"
  shows "rb_local (rb_goto s t RB_idle\<lparr>rs_rb := (rs_rb s)
    \<lparr>rb_buffer := (rb_buffer (rs_rb s))[unat low mod rs_n s := NULL]\<rparr>\<rparr>) (rs_pc s u)" (is "rb_local ?s _")
proof -
  note D = rb_invD [OF inv]
  let ?n = "rs_n s" and ?l = "unat low"
  have own: "?l < rs_L s" "rs_H s \<le> ?l + ?n"
    using D(8) [of t] pc by simp_all
  have cell: "rb_cell (rs_rb ?s) q = (if q mod ?n = ?l mod ?n then NULL else rb_cell (rs_rb s) q)" for q
    using rb_cell_update [OF D(1)] by simp
  have store: "store_pos (rs_pc ?s u) = store_pos (rs_pc s u)" for u
    using pc by simp
  have clear: "clear_pos (rs_pc ?s u) = (if u = t then None else clear_pos (rs_pc s u))" for u
    by simp
  have loc: "rb_local s (rs_pc s u)" by (rule D(8))
  show ?thesis
  proof (cases "rs_pc s u")
    case (Push_store x hi)
    then show ?thesis
      using loc cell [of "unat hi"] by simp
  next
    case (Pop_clear lo r)
    then have "unat lo \<noteq> ?l" "unat lo < rs_L s" "rs_H s \<le> unat lo + ?n"
      using rb_inv_clear_unique [OF inv, of u ?l t] pc False loc by auto
    then have "unat lo mod ?n \<noteq> ?l mod ?n"
      using mod_neq_window [of "unat lo" ?l ?n] mod_neq_window [of ?l "unat lo" ?n] own D(4)
      by (cases "unat lo" ?l rule: linorder_cases) auto
    then show ?thesis
      using loc Pop_clear cell [of "unat lo"] by simp
  next
    case (Push_cas x lo hi)
    then have "c + ?n \<noteq> unat hi" if "unat hi = rs_H s" "clear_pos (rs_pc ?s v) = Some c" for v c
      using loc clear [of v] that by (cases "v = t") auto
    then show ?thesis
      using loc Push_cas by simp
  next
    case (Pop_cas hi lo r)
    then show ?thesis
      using loc store by (simp del: fun_upd_apply)
  qed (use loc in simp_all)
qed

lemma rb_inv_pop_clear:
  assumes inv: "rb_inv s" and pc: "rs_pc s t = Pop_clear low ret"
  shows "rb_inv (rb_goto s t RB_idle\<lparr>rs_rb := (rs_rb s)
    \<lparr>rb_buffer := (rb_buffer (rs_rb s))[unat low mod rs_n s := NULL]\<rparr>\<rparr>)" (is "rb_inv ?s")
proof -
  note D = rb_invD [OF inv]
  let ?n = "rs_n s" and ?l = "unat low"
  have own: "?l < rs_L s" "rs_H s \<le> ?l + ?n"
    using D(8) [of t] pc by simp_all
  have cell: "rb_cell (rs_rb ?s) q = (if q mod ?n = ?l mod ?n then NULL else rb_cell (rs_rb s) q)" for q
    using rb_cell_update [OF D(1)] by simp
  have store: "store_pos (rs_pc ?s u) = store_pos (rs_pc s u)" for u
    using pc by simp
  have clear: "clear_pos (rs_pc ?s u) = (if u = t then None else clear_pos (rs_pc s u))" for u
    by simp
  have loc: "rb_local ?s (rs_pc ?s u)" for u
  proof (cases "u = t")
    case True
    then show ?thesis by simp
  next
    case False
    then show ?thesis
      using rb_local_pop_clear [OF inv pc False] by simp
  qed
  have full: "rb_cell (rs_rb ?s) q = rs_pushed s ! q"
    if "rs_L s \<le> q" "q < rs_H s" "\<forall>u. store_pos (rs_pc ?s u) \<noteq> Some q" for q
    using rb_inv_full_cell [OF inv that(1,2)] that cell [of q] mod_neq_window [of ?l q ?n] own
    unfolding store by simp
  have free: "rb_cell (rs_rb ?s) q = NULL"
    if "rs_H s \<le> q" "q < rs_L s + ?n"
      "\<forall>u c. clear_pos (rs_pc ?s u) = Some c \<longrightarrow> c + ?n \<noteq> q" for q
  proof (cases "q mod ?n = ?l mod ?n")
    case True
    then show ?thesis using cell by simp
  next
    case False
    have "c + ?n \<noteq> q" if "clear_pos (rs_pc s u) = Some c" for u c
    proof (cases "u = t")
      case True
      then show ?thesis using that pc False by auto
    next
      case u: False
      then show ?thesis
        using \<open>\<forall>u c. clear_pos (rs_pc ?s u) = Some c \<longrightarrow> c + ?n \<noteq> q\<close> clear [of u] that
        by (metis (full_types))
    qed
    then show ?thesis
      using rb_inv_free_cell [OF inv that(1,2)] cell False by simp
  qed
  show ?thesis
  proof (rule rb_invI)
    show "u = v" if "store_pos (rs_pc ?s u) = Some q" "store_pos (rs_pc ?s v) = Some q" for u v q
      using that unfolding store by (rule rb_inv_store_unique [OF inv])
    show "u = v" if "clear_pos (rs_pc ?s u) = Some q" "clear_pos (rs_pc ?s v) = Some q" for u v q
      using that clear rb_inv_clear_unique [OF inv] by (metis option.distinct(1))
    show "rb_local ?s (rs_pc ?s u)" for u
      by (rule loc)
  qed (use D full free in simp_all)
qed

lemma rb_step_inv:
  assumes inv: "rb_inv s" and bound: "rb_bound s'" and step: "rb_step s s'"
  shows "rb_inv s'"
  using step
proof cases
  case (push_call t p)
  then show ?thesis using rb_inv_quiet [OF inv, of t "Push_low p"] by simp
next
  case (push_low t p)
  then show ?thesis
    using rb_inv_quiet [OF inv, of t "Push_high p (rb_low (rs_rb s))"] rb_invD(8) [OF inv, of t] rb_invD(1-5) [OF inv] by simp
next
  case (push_high t p low)
  then show ?thesis
    using rb_inv_quiet [OF inv, of t "Push_cell p low (rb_high (rs_rb s))"] rb_invD(8) [OF inv, of t] rb_invD(1-5) [OF inv]
    by simp
next
  case (push_tests t p low high cell)
  then have "cell = rb_cell (rs_rb s) (unat high)"
    using rb_invD(1) [OF inv] by (simp add: tests_cell)
  with push_tests show ?thesis
    using rb_inv_quiet [OF inv, of t "Push_cas p low high"] rb_inv_quiet [OF inv, of t RB_idle]
      rb_inv_push_tests [OF inv push_tests(2)] by (simp del: rb_local.simps(5))
next
  case (push_won t p low high high')
  then have "rb_high (rs_rb s) = high" "high' = high + 1"
    by (simp_all add: sync_bool_compare_and_swap_def split: if_splits)
  moreover have "Suc (rs_H s) < 2 ^ 64"
    using bound push_won(1) by (simp add: rb_bound_def)
  ultimately show ?thesis
    using rb_inv_push_won [OF inv push_won(2)] push_won(1) by simp
next
  case (push_lost t p low high high')
  then show ?thesis using rb_inv_quiet [OF inv, of t RB_idle] by simp
next
  case (push_store t p high b)
  then show ?thesis
    using rb_inv_push_store [OF inv push_store(2)] rb_invD(1) [OF inv]
    by (simp add: buf_set_index)
next
  case (pop_call t)
  then show ?thesis using rb_inv_quiet [OF inv, of t Pop_high] by simp
next
  case (pop_high t)
  then show ?thesis
    using rb_inv_quiet [OF inv, of t "Pop_low (rb_high (rs_rb s))"] rb_invD(8) [OF inv, of t] rb_invD(1-5) [OF inv] by simp
next
  case (pop_low t high)
  then show ?thesis
    using rb_inv_quiet [OF inv, of t "Pop_cell high (rb_low (rs_rb s))"] rb_invD(8) [OF inv, of t] rb_invD(1-5) [OF inv]
    by simp
next
  case (pop_tests t high low ret)
  then have "ret = rb_cell (rs_rb s) (unat low)"
    using rb_invD(1) [OF inv] by (simp add: tests_cell)
  with pop_tests show ?thesis
    using rb_inv_quiet [OF inv, of t "Pop_cas high low ret"] rb_inv_quiet [OF inv, of t RB_idle]
      rb_inv_pop_tests [OF inv pop_tests(2)] by (simp del: rb_local.simps(10))
next
  case (pop_won t high low ret low')
  then have "rb_low (rs_rb s) = low" "low' = low + 1"
    by (simp_all add: sync_bool_compare_and_swap_def split: if_splits)
  moreover have "rs_H s < 2 ^ 64"
    using bound pop_won(1) by (simp add: rb_bound_def)
  ultimately show ?thesis
    using rb_inv_pop_won [OF inv pop_won(2)] pop_won(1) by simp
next
  case (pop_lost t high low ret low')
  then show ?thesis using rb_inv_quiet [OF inv, of t RB_idle] by simp
next
  case (pop_clear t low ret b)
  then show ?thesis
    using rb_inv_pop_clear [OF inv pop_clear(2)] rb_invD(1) [OF inv]
    by (simp add: buf_set_index)
qed

lemma rb_step_size: "rb_step s s' \<Longrightarrow> rs_n s' = rs_n s"
  by (erule rb_step.cases) simp_all

lemma rb_step_pushed: "rb_step s s' \<Longrightarrow> rs_H s \<le> rs_H s'"
  by (erule rb_step.cases) simp_all

lemma rb_inv_quiescent:
  assumes inv: "rb_inv s" and idle: "\<forall>t. rs_pc s t = RB_idle"
  shows "rb_ok (rs_rb s) \<and> rb_items (rs_rb s) = drop (length (rs_popped s)) (rs_pushed s)"
proof -
  note D = rb_invD [OF inv]
  have full: "rb_cell (rs_rb s) p = rs_pushed s ! p" if "rs_L s \<le> p" "p < rs_H s" for p
    using rb_inv_full_cell [OF inv that] idle by simp
  have free: "rb_cell (rs_rb s) p = NULL" if "rs_H s \<le> p" "p < rs_L s + rs_n s" for p
    using rb_inv_free_cell [OF inv that] idle by simp
  have "rs_pushed s ! p \<noteq> NULL" if "p < rs_H s" for p
    using D(7) that by (metis nth_mem)
  then have "rb_ok (rs_rb s)"
    using D full free by (simp add: rb_ok_def)
  moreover have "rb_items (rs_rb s) = drop (rs_L s) (rs_pushed s)"
    using D(2-4) full by (intro nth_equalityI) (simp_all add: rb_items_def)
  ultimately show ?thesis ..
qed

lemma rb_init_inv:
  assumes "rb_init k s"
  shows "rb_inv s \<and> rs_n s = 2 ^ unat k"
  using assms lockfree_ring_buffer_create_ok [of k "rs_rb s"]
  by (auto simp: rb_init_def rb_inv_def rb_ok_def rb_items_def)

interpretation rbc: bounded_invariant "rb_init k" rb_step rb_bound
  "\<lambda>s. rb_inv s \<and> rs_n s = 2 ^ unat k" for k
proof (unfold_locales, goal_cases)
  case (1 s)
  then show ?case by (rule rb_init_inv)
next
  case (2 s t)
  then show ?case using rb_step_pushed [of s t] by (simp add: rb_bound_def)
next
  case (3 s t)
  then show ?case using rb_step_inv rb_step_size by metis
qed

section \<open>The sequential operations are runs of one thread\<close>

text \<open>A step of thread \<open>t\<close> inside an operation; every step moves the thread that makes it.\<close>

definition rb_solo :: "tid \<Rightarrow> rb_sys \<Rightarrow> rb_sys \<Rightarrow> bool" where
  "rb_solo t s s' \<longleftrightarrow> rb_step s s' \<and> rs_pc s t \<noteq> RB_idle \<and> rs_pc s' t \<noteq> rs_pc s t"

lemma rb_solo_idle: "rs_pc s t = RB_idle \<Longrightarrow> \<not> rb_solo t s s'"
  by (simp add: rb_solo_def)

text \<open>Alone, a thread has at most one next step.\<close>

definition rb_next :: "tid \<Rightarrow> rb_sys \<Rightarrow> rb_sys" where
  "rb_next t s = (case rs_pc s t of
     RB_idle \<Rightarrow> s
   | Push_low p \<Rightarrow> rb_goto s t (Push_high p (rb_low (rs_rb s)))
   | Push_high p low \<Rightarrow> rb_goto s t (Push_cell p low (rb_high (rs_rb s)))
   | Push_cell p low high \<Rightarrow> rb_goto s t
       (if buf_get (rb_buffer (rs_rb s)) (rb_idx s high) = Some NULL \<and> high - low < ucast (rb_size (rs_rb s))
        then Push_cas p low high else RB_idle)
   | Push_cas p low high \<Rightarrow>
       (if rb_high (rs_rb s) = high
        then rb_goto s t (Push_store p high)\<lparr>rs_rb := (rs_rb s)\<lparr>rb_high := high + 1\<rparr>, rs_pushed := rs_pushed s @ [p]\<rparr>
        else rb_goto s t RB_idle)
   | Push_store p high \<Rightarrow> rb_goto s t RB_idle
       \<lparr>rs_rb := (rs_rb s)\<lparr>rb_buffer := the (buf_set (rb_buffer (rs_rb s)) (rb_idx s high) p)\<rparr>\<rparr>
   | Pop_high \<Rightarrow> rb_goto s t (Pop_low (rb_high (rs_rb s)))
   | Pop_low high \<Rightarrow> rb_goto s t (Pop_cell high (rb_low (rs_rb s)))
   | Pop_cell high low \<Rightarrow> rb_goto s t
       (let ret = the (buf_get (rb_buffer (rs_rb s)) (rb_idx s low))
        in if ret \<noteq> NULL \<and> high > low then Pop_cas high low ret else RB_idle)
   | Pop_cas high low ret \<Rightarrow>
       (if rb_low (rs_rb s) = low
        then rb_goto s t (Pop_clear low ret)\<lparr>rs_rb := (rs_rb s)\<lparr>rb_low := low + 1\<rparr>, rs_popped := rs_popped s @ [ret]\<rparr>
        else rb_goto s t RB_idle)
   | Pop_clear low ret \<Rightarrow> rb_goto s t RB_idle
       \<lparr>rs_rb := (rs_rb s)\<lparr>rb_buffer := the (buf_set (rb_buffer (rs_rb s)) (rb_idx s low) NULL)\<rparr>\<rparr>)"

lemma rb_solo_next:
  assumes "rb_solo t s s'"
  shows "s' = rb_next t s"
proof -
  have "rb_step s s'" and t: "rs_pc s t \<noteq> RB_idle" "rs_pc s' t \<noteq> rs_pc s t"
    using assms by (simp_all add: rb_solo_def)
  then show ?thesis
    by cases (auto simp: rb_next_def sync_bool_compare_and_swap_def split: if_splits)
qed

lemma rb_solo_deterministic: "rb_solo t s a \<Longrightarrow> rb_solo t s b \<Longrightarrow> a = b"
  using rb_solo_next by metis

lemma rb_solo_into:
  "(rb_solo t)\<^sup>*\<^sup>* a s \<Longrightarrow> rb_step s s' \<Longrightarrow> rs_pc s t \<noteq> RB_idle \<Longrightarrow> rs_pc s' t \<noteq> rs_pc s t \<Longrightarrow>
     (rb_solo t)\<^sup>*\<^sup>* a s'"
  by (auto simp: rb_solo_def intro: rtranclp.rtrancl_into_rtrancl)

lemma reach_solo: "(rb_solo t)\<^sup>*\<^sup>* s s' \<Longrightarrow> reach I rb_step s \<Longrightarrow> reach I rb_step s'"
  by (induction rule: rtranclp_induct) (auto simp: rb_solo_def intro: reach_step)

text \<open>The state after a call of thread \<open>t\<close> that returned \<open>r\<close>, of a pop \<open>ret\<close>.\<close>

definition push_returns :: "rb_sys \<Rightarrow> tid \<Rightarrow> ptr \<Rightarrow> int \<times> lockfree_ring_buffer \<Rightarrow> rb_sys" where
  "push_returns s t p = (\<lambda>(r, rb').
     (rb_goto (s\<lparr>rs_pushed := rs_pushed s @ (if r = 1 then [p] else [])\<rparr>) t RB_idle)\<lparr>rs_rb := rb'\<rparr>)"

definition pop_returns :: "rb_sys \<Rightarrow> tid \<Rightarrow> ptr \<times> lockfree_ring_buffer \<Rightarrow> rb_sys" where
  "pop_returns s t = (\<lambda>(ret, rb').
     (rb_goto (s\<lparr>rs_popped := rs_popped s @ (if ret \<noteq> NULL then [ret] else [])\<rparr>) t RB_idle)\<lparr>rs_rb := rb'\<rparr>)"

lemma push_returns_fields [simp]:
  "rs_pc (push_returns s t p res) t = RB_idle" "rs_pc (pop_returns s t res') t = RB_idle"
  by (simp_all add: push_returns_def pop_returns_def split: prod.split)

lemma trypush_solo:
  assumes p: "p \<noteq> NULL" and wf: "rb_wf (rs_rb s)" and res: "lockfree_ring_buffer_trypush (rs_rb s) p = Some res"
  shows "(rb_solo t)\<^sup>*\<^sup>* (rb_goto s t (Push_low p)) (push_returns s t p res)" (is "_\<^sup>*\<^sup>* ?start _")
proof -
  let ?low = "rb_low (rs_rb s)" and ?high = "rb_high (rs_rb s)"
  let ?cell = "rb_cell (rs_rb s) (unat ?high)"
  have 2: "(rb_solo t)\<^sup>*\<^sup>* ?start (rb_goto s t (Push_high p ?low))"
    using rb_solo_into [OF rtranclp.rtrancl_refl [of _ ?start] rb_step.push_low [of ?start t p]] by simp
  have 3: "(rb_solo t)\<^sup>*\<^sup>* ?start (rb_goto s t (Push_cell p ?low ?high))"
    using rb_solo_into [OF 2 rb_step.push_high [where t = t and p = p and low = ?low]] by simp
  have 4: "(rb_solo t)\<^sup>*\<^sup>* ?start (rb_goto s t
      (if ?cell = NULL \<and> ?high - ?low < ucast (rb_size (rs_rb s)) then Push_cas p ?low ?high else RB_idle))"
    using rb_solo_into [OF 3 rb_step.push_tests [where t = t and p = p and low = ?low and high = ?high and cell = ?cell]]
    by (simp add: buf_get_index wf)
  show ?thesis
  proof (cases "?cell = NULL \<and> ?high - ?low < ucast (rb_size (rs_rb s))")
    case False
    with res 4 show ?thesis
      by (auto simp: trypush_unfold [OF wf p] push_returns_def)
  next
    case True
    let ?s = "rb_goto s t (Push_store p ?high)
      \<lparr>rs_rb := (rs_rb s)\<lparr>rb_high := ?high + 1\<rparr>, rs_pushed := rs_pushed s @ [p]\<rparr>"
    have 5: "(rb_solo t)\<^sup>*\<^sup>* ?start ?s"
      using rb_solo_into [OF 4 rb_step.push_won [where t = t and p = p and low = ?low and high = ?high
        and high' = "?high + 1"]] True
      by (simp add: sync_bool_compare_and_swap_def)
    have "buf_set (rb_buffer (rs_rb ?s)) (rb_idx ?s ?high) p =
        Some ((rb_buffer (rs_rb s))[unat ?high mod rs_n s := p])"
      using buf_set_index [OF wf] by simp
    from rb_solo_into [OF 5 rb_step.push_store [OF _ this, where t = t]] show ?thesis
      using res True by (auto simp: trypush_unfold [OF wf p] push_returns_def)
  qed
qed

lemma trypop_solo:
  assumes wf: "rb_wf (rs_rb s)" and res: "lockfree_ring_buffer_trypop (rs_rb s) = Some res"
  shows "(rb_solo t)\<^sup>*\<^sup>* (rb_goto s t Pop_high) (pop_returns s t res)" (is "_\<^sup>*\<^sup>* ?start _")
proof -
  let ?low = "rb_low (rs_rb s)" and ?high = "rb_high (rs_rb s)"
  let ?cell = "rb_cell (rs_rb s) (unat ?low)"
  have 2: "(rb_solo t)\<^sup>*\<^sup>* ?start (rb_goto s t (Pop_low ?high))"
    using rb_solo_into [OF rtranclp.rtrancl_refl [of _ ?start] rb_step.pop_high [of ?start t]] by simp
  have 3: "(rb_solo t)\<^sup>*\<^sup>* ?start (rb_goto s t (Pop_cell ?high ?low))"
    using rb_solo_into [OF 2 rb_step.pop_low [where t = t and high = ?high]] by simp
  have 4: "(rb_solo t)\<^sup>*\<^sup>* ?start (rb_goto s t
      (if ?cell \<noteq> NULL \<and> ?high > ?low then Pop_cas ?high ?low ?cell else RB_idle))"
    using rb_solo_into [OF 3 rb_step.pop_tests [where t = t and high = ?high and low = ?low and ret = ?cell]]
    by (simp add: buf_get_index wf)
  show ?thesis
  proof (cases "?cell \<noteq> NULL \<and> ?high > ?low")
    case False
    with res 4 show ?thesis
      by (auto simp: trypop_unfold [OF wf] pop_returns_def)
  next
    case True
    let ?s = "rb_goto s t (Pop_clear ?low ?cell)
      \<lparr>rs_rb := (rs_rb s)\<lparr>rb_low := ?low + 1\<rparr>, rs_popped := rs_popped s @ [?cell]\<rparr>"
    have 5: "(rb_solo t)\<^sup>*\<^sup>* ?start ?s"
      using rb_solo_into [OF 4 rb_step.pop_won [where t = t and high = ?high and low = ?low and ret = ?cell
        and low' = "?low + 1"]] True
      by (simp add: sync_bool_compare_and_swap_def)
    have "buf_set (rb_buffer (rs_rb ?s)) (rb_idx ?s ?low) NULL =
        Some ((rb_buffer (rs_rb s))[unat ?low mod rs_n s := NULL])"
      using buf_set_index [OF wf] by simp
    from rb_solo_into [OF 5 rb_step.pop_clear [OF _ this, where t = t]] show ?thesis
      using res True by (auto simp: trypop_unfold [OF wf] pop_returns_def)
  qed
qed

text \<open>The run of a call is the only one the thread can make alone.\<close>

lemma rb_solo_unique:
  assumes run: "(rb_solo t)\<^sup>*\<^sup>* start s" and idle: "rs_pc s t = RB_idle"
  shows "(rb_solo t)\<^sup>*\<^sup>* start s' \<and> rs_pc s' t = RB_idle \<longleftrightarrow> s' = s"
proof
  assume s': "(rb_solo t)\<^sup>*\<^sup>* start s' \<and> rs_pc s' t = RB_idle"
  show "s' = s"
    by (rule rtranclp_deterministic [of "rb_solo t" start])
      (use run idle s' rb_solo_idle in \<open>auto intro: rb_solo_deterministic\<close>)
qed (use assms in simp)

lemma trypush_run:
  assumes "reach I rb_step s" and "rs_pc s t = RB_idle" and "p \<noteq> NULL"
    and "rb_wf (rs_rb s)" and "lockfree_ring_buffer_trypush (rs_rb s) p = Some res"
  shows "reach I rb_step (push_returns s t p res)"
  using reach_solo [OF trypush_solo [OF assms(3-5)]] reach_step [OF assms(1) rb_step.push_call [OF assms(2,3)]] .

lemma trypop_run:
  assumes "reach I rb_step s" and "rs_pc s t = RB_idle"
    and "rb_wf (rs_rb s)" and "lockfree_ring_buffer_trypop (rs_rb s) = Some res"
  shows "reach I rb_step (pop_returns s t res)"
  using reach_solo [OF trypop_solo [OF assms(3,4)]] reach_step [OF assms(1) rb_step.pop_call [OF assms(2)]] .

lemma reach_eqI:
  "reach I rb_step s \<Longrightarrow> rs_rb s = rs_rb s' \<Longrightarrow> rs_pc s = rs_pc s' \<Longrightarrow>
     rs_pushed s = rs_pushed s' \<Longrightarrow> rs_popped s = rs_popped s' \<Longrightarrow>
     reach I rb_step (s' :: rb_sys)"
  by (metis rb_sys.equality old.unit.exhaust)

section \<open>Properties\<close>

text \<open>
  The ring buffer is a FIFO under any interleaving of any number of threads: the values whose
  pop won are the values whose push won, in the same order and none twice, and the pushes are
  never more than the capacity ahead (as long as fewer than \<open>2 ^ 64\<close> pushes have won).
\<close>

theorem ring_buffer_fifo:
  assumes "reach (rb_init k) rb_step s" and "length (rs_pushed s) < 2 ^ 64"
  shows "rs_popped s = take (length (rs_popped s)) (rs_pushed s)
    \<and> length (rs_popped s) \<le> length (rs_pushed s)
    \<and> length (rs_pushed s) \<le> length (rs_popped s) + 2 ^ unat k"
proof -
  have "rb_inv s \<and> rs_n s = 2 ^ unat k"
    using rbc.reach_inv [OF assms(1)] assms(2) by (simp add: rb_bound_def)
  then show ?thesis
    using rb_invD [of s] by auto
qed

text \<open>
  Nothing is lost and nothing is made up: whenever no operation is in progress, the struct is
  in its representation invariant and holds exactly the pushed values that have not been popped,
  in order.
\<close>

theorem ring_buffer_quiescent:
  assumes "reach (rb_init k) rb_step s" and "length (rs_pushed s) < 2 ^ 64"
    and "\<forall>t. rs_pc s t = RB_idle"
  shows "rb_ok (rs_rb s) \<and> rb_items (rs_rb s) = drop (length (rs_popped s)) (rs_pushed s)"
proof -
  have inv: "rb_inv s"
    using rbc.reach_inv [OF assms(1)] assms(2) by (simp add: rb_bound_def)
  then show ?thesis
    using rb_inv_quiescent [OF _ assms(3)] by simp
qed

text \<open>A concrete run: one thread pushes 7, another pops it.\<close>

definition rb_run :: "ptr list \<Rightarrow> ptr list \<Rightarrow> lockfree_ring_buffer \<Rightarrow> rb_sys" where
  "rb_run pushed popped rb =
     \<lparr>rs_rb = rb, rs_pc = (\<lambda>_. RB_idle), rs_pushed = pushed, rs_popped = popped\<rparr>"

lemma rb_run_start: "reach (rb_init 1) rb_step (rb_run [] [] rb_demo)"
  by (rule reach_init) (simp add: rb_init_def rb_run_def rb_demo_create)

lemma rb_run_pushed: "reach (rb_init 1) rb_step
  (rb_run [7] [] (rb_demo\<lparr>rb_high := 1, rb_buffer := [7, 0]\<rparr>))"
proof -
  have "lockfree_ring_buffer_trypush rb_demo 7 = Some (1, rb_demo\<lparr>rb_high := 1, rb_buffer := [7, 0]\<rparr>)"
    by code_simp
  moreover have "rb_wf rb_demo"
    using rb_demo_ok(1) by (simp add: rb_ok_def)
  ultimately show ?thesis
    by (intro reach_eqI [OF trypush_run [OF rb_run_start, of 0 7 "(1, rb_demo\<lparr>rb_high := 1, rb_buffer := [7, 0]\<rparr>)"]]) (simp_all add: rb_run_def push_returns_def fun_eq_iff)
qed

lemma rb_run_popped: "reach (rb_init 1) rb_step
  (rb_run [7] [7] (rb_demo\<lparr>rb_high := 1, rb_low := 1, rb_buffer := [0, 0]\<rparr>))"
proof -
  let ?rb = "rb_demo\<lparr>rb_high := 1, rb_buffer := [7, 0]\<rparr>"
  have "lockfree_ring_buffer_trypop ?rb = Some (7, rb_demo\<lparr>rb_high := 1, rb_low := 1, rb_buffer := [0, 0]\<rparr>)"
    by code_simp
  moreover have "rb_wf ?rb"
    using rb_demo_ok(1) by (simp add: rb_ok_def rb_wf_def rb_demo_def)
  ultimately show ?thesis
    by (intro reach_eqI [OF trypop_run [OF rb_run_pushed, of 1 "(7, rb_demo\<lparr>rb_high := 1, rb_low := 1, rb_buffer := [0, 0]\<rparr>)"]])
      (simp_all add: rb_run_def pop_returns_def fun_eq_iff)
qed

theorem ring_buffer_fifo_witness:
  "\<exists>s. reach (rb_init 1) rb_step s \<and> rs_popped s = [7] \<and> rs_popped s = take 1 (rs_pushed s)"
  using ring_buffer_fifo [OF rb_run_popped] rb_run_popped
  by (intro exI [of _ "rb_run [7] [7] (rb_demo\<lparr>rb_high := 1, rb_low := 1, rb_buffer := [0, 0]\<rparr>)"])
    (simp add: rb_run_def)

theorem ring_buffer_quiescent_witness:
  "\<exists>s. reach (rb_init 1) rb_step s \<and> rb_ok (rs_rb s) \<and> rb_items (rs_rb s) = [7]"
  using ring_buffer_quiescent [OF rb_run_pushed] rb_run_pushed
  by (intro exI [of _ "rb_run [7] [] (rb_demo\<lparr>rb_high := 1, rb_buffer := [7, 0]\<rparr>)"])
    (simp add: rb_run_def)

text \<open>
  C39. A call that no other thread interrupts computes what the sequential function computes. From
  any reachable state, the only state in which a thread that runs alone can end a call of
  \<open>trypush\<close> (it begins with the read of \<open>low\<close> and takes every access of the step relation in turn)
  is the one with the struct that the function \<open>trypush\<close> returns on the struct of that moment, with
  the item pushed exactly when the function returns 1; and it does get there. The same for \<open>trypop\<close>,
  where the item popped is the one the function returns.
\<close>

theorem solo_calls_are_runs:
  assumes "reach (rb_init k) rb_step s" and "length (rs_pushed s) < 2 ^ 64"
    and "rs_pc s t = RB_idle" and "p \<noteq> NULL"
  shows "(\<exists>res. lockfree_ring_buffer_trypush (rs_rb s) p = Some res \<and> rb_step s (rb_goto s t (Push_low p))
      \<and> (\<forall>s'. (rb_solo t)\<^sup>*\<^sup>* (rb_goto s t (Push_low p)) s' \<and> rs_pc s' t = RB_idle \<longleftrightarrow> s' = push_returns s t p res))
    \<and> (\<exists>res. lockfree_ring_buffer_trypop (rs_rb s) = Some res \<and> rb_step s (rb_goto s t Pop_high)
      \<and> (\<forall>s'. (rb_solo t)\<^sup>*\<^sup>* (rb_goto s t Pop_high) s' \<and> rs_pc s' t = RB_idle \<longleftrightarrow> s' = pop_returns s t res))"
proof -
  have wf: "rb_wf (rs_rb s)"
    using rbc.reach_inv [OF assms(1)] assms(2) rb_invD(1) by (simp add: rb_bound_def)
  obtain push where push: "lockfree_ring_buffer_trypush (rs_rb s) p = Some push"
    using trypush_unfold [OF wf assms(4)] by blast
  obtain pop where pop: "lockfree_ring_buffer_trypop (rs_rb s) = Some pop"
    using trypop_unfold [OF wf] by blast
  show ?thesis
    using push pop rb_step.push_call [OF assms(3,4)] rb_step.pop_call [OF assms(3)]
      rb_solo_unique [OF trypush_solo [OF assms(4) wf push]] rb_solo_unique [OF trypop_solo [OF wf pop]] by simp
qed

theorem solo_calls_are_runs_witness:
  "\<exists>rb'. lockfree_ring_buffer_trypush rb_demo 7 = Some (1, rb')
    \<and> (\<forall>s'. (rb_solo 0)\<^sup>*\<^sup>* (rb_goto (rb_run [] [] rb_demo) 0 (Push_low 7)) s' \<and> rs_pc s' 0 = RB_idle
         \<longrightarrow> rs_rb s' = rb' \<and> rs_pushed s' = [7])"
proof -
  have "lockfree_ring_buffer_trypush rb_demo 7 = Some (1, rb_demo\<lparr>rb_high := 1, rb_buffer := [7, 0]\<rparr>)"
    by code_simp
  then show ?thesis
    using solo_calls_are_runs [OF rb_run_start, of 0 7] by (auto simp: rb_run_def push_returns_def)
qed

end
