(* ===== verification/Ring_Buffer_Tso.thy ===== *)
theory Ring_Buffer_Tso
  imports Ring_Buffer_Conc
begin

text \<open>
  \<open>lockfree_ring_buffer.h\<close> under any number of threads on x86-TSO. The only plain stores are those
  of a cell, the last access of \<open>trypush\<close> and of \<open>trypop\<close>; they wait in the storing thread's buffer
  until they are flushed, and that thread reads its own latest store. A compare-and-swap acts on
  memory and waits until the thread's buffer is empty. \<open>load_load_barrier\<close> emits no instruction on
  x86.

  The invariant is that of Ring\_Buffer\_Conc, of a system where a waiting store is a thread of its
  own that has yet to write: thread \<open>t\<close> is \<open>2 * t\<close> there and its waiting store is \<open>2 * t + 1\<close>.
\<close>

section \<open>The threads' steps\<close>

datatype rb_write = RW_cell u64 ptr

fun rb_write_do :: "rb_write \<Rightarrow> ptr list \<Rightarrow> ptr list" where
  "rb_write_do (RW_cell i x) b = (case buf_set b i x of None \<Rightarrow> b | Some b' \<Rightarrow> b')"

text \<open>
  \<open>rt_sys\<close> has the memory, the threads and the logs; \<open>rt_buf\<close> the stores not flushed yet, the oldest
  first. \<open>rt_pend\<close> is not the program's: where the thread was when it made the store that waits.
\<close>

record rb_tso =
  rt_sys :: rb_sys
  rt_buf :: "tid \<Rightarrow> rb_write list"
  rt_pend :: "tid \<Rightarrow> rb_pc"

abbreviation rt_pc :: "rb_tso \<Rightarrow> tid \<Rightarrow> rb_pc" where "rt_pc s \<equiv> rs_pc (rt_sys s)"
abbreviation rt_mem :: "rb_tso \<Rightarrow> lockfree_ring_buffer" where "rt_mem s \<equiv> rs_rb (rt_sys s)"
abbreviation rt_idx :: "rb_tso \<Rightarrow> u64 \<Rightarrow> u64" where "rt_idx s \<equiv> rb_idx (rt_sys s)"

definition rt_load :: "rb_tso \<Rightarrow> tid \<Rightarrow> u64 \<Rightarrow> ptr option" where
  "rt_load s t i = buf_get (fold rb_write_do (rt_buf s t) (rb_buffer (rt_mem s))) i"

abbreviation rt_goto :: "rb_tso \<Rightarrow> tid \<Rightarrow> rb_pc \<Rightarrow> rb_tso" where
  "rt_goto s t c \<equiv> s\<lparr>rt_sys := rb_goto (rt_sys s) t c\<rparr>"

definition rt_store :: "rb_tso \<Rightarrow> tid \<Rightarrow> rb_write \<Rightarrow> rb_tso" where
  "rt_store s t w = (rt_goto s t RB_idle)
     \<lparr>rt_buf := (rt_buf s)(t := rt_buf s t @ [w]), rt_pend := (rt_pend s)(t := rt_pc s t)\<rparr>"

fun at_cell :: "rb_pc \<Rightarrow> bool" where
  "at_cell (Push_cell p low high) = True"
| "at_cell (Push_store p high) = True"
| "at_cell (Pop_cell high low) = True"
| "at_cell (Pop_clear low ret) = True"
| "at_cell _ = False"

fun at_cas :: "rb_pc \<Rightarrow> bool" where
  "at_cas (Push_cas p low high) = True"
| "at_cas (Pop_cas high low ret) = True"
| "at_cas _ = False"

text \<open>Steps that touch no cell are those of Ring\_Buffer\_Conc, on memory.\<close>

inductive rt_step :: "rb_tso \<Rightarrow> rb_tso \<Rightarrow> bool" where
  flush: "rt_buf s t = w # ws \<Longrightarrow>
    rt_step s (s\<lparr>rt_buf := (rt_buf s)(t := ws), rt_pend := (rt_pend s)(t := RB_idle),
      rt_sys := (rt_sys s)\<lparr>rs_rb := (rt_mem s)\<lparr>rb_buffer := rb_write_do w (rb_buffer (rt_mem s))\<rparr>\<rparr>\<rparr>)"
| other: "rb_step (rt_sys s) v' \<Longrightarrow> rs_pc v' t \<noteq> rt_pc s t \<Longrightarrow> \<not> at_cell (rt_pc s t) \<Longrightarrow>
    at_cas (rt_pc s t) \<longrightarrow> rt_buf s t = [] \<Longrightarrow> rt_step s (s\<lparr>rt_sys := v'\<rparr>)"
| push_tests: "rt_pc s t = Push_cell p low high \<Longrightarrow> rt_load s t (rt_idx s high) = Some cell \<Longrightarrow>
    rt_step s (rt_goto s t
      (if cell = NULL \<and> high - low < ucast (rb_size (rt_mem s)) then Push_cas p low high else RB_idle))"
| push_store: "rt_pc s t = Push_store p high \<Longrightarrow> unat (rt_idx s high) < length (rb_buffer (rt_mem s)) \<Longrightarrow>
    rt_step s (rt_store s t (RW_cell (rt_idx s high) p))"
| pop_tests: "rt_pc s t = Pop_cell high low \<Longrightarrow> rt_load s t (rt_idx s low) = Some ret \<Longrightarrow>
    rt_step s (rt_goto s t (if ret \<noteq> NULL \<and> high > low then Pop_cas high low ret else RB_idle))"
| pop_clear: "rt_pc s t = Pop_clear low ret \<Longrightarrow> unat (rt_idx s low) < length (rb_buffer (rt_mem s)) \<Longrightarrow>
    rt_step s (rt_store s t (RW_cell (rt_idx s low) NULL))"

definition rt_init :: "u32 \<Rightarrow> rb_tso \<Rightarrow> bool" where
  "rt_init k s \<longleftrightarrow> rb_init k (rt_sys s) \<and> rt_buf s = (\<lambda>_. []) \<and> rt_pend s = (\<lambda>_. RB_idle)"

section \<open>Waiting stores as threads\<close>

text \<open>
  A thread that has tested a cell on its own waiting store has, in the other system, not tested
  it yet; it will when the store is flushed.
\<close>

definition waits :: "rb_tso \<Rightarrow> tid \<Rightarrow> u64 \<Rightarrow> bool" where
  "waits s t i \<longleftrightarrow> (\<exists>x. RW_cell (rt_idx s i) x \<in> set (rt_buf s t))"

fun main_of :: "rb_tso \<Rightarrow> tid \<Rightarrow> rb_pc \<Rightarrow> rb_pc" where
  "main_of s t (Push_cas p low high) = (if waits s t high then Push_cell p low high else Push_cas p low high)"
| "main_of s t (Pop_cas high low ret) = (if waits s t low then Pop_cell high low else Pop_cas high low ret)"
| "main_of s t c = c"

abbreviation main_pc :: "rb_tso \<Rightarrow> tid \<Rightarrow> rb_pc" where
  "main_pc s t \<equiv> main_of s t (rt_pc s t)"

definition rt_abs :: "rb_tso \<Rightarrow> rb_sys" where
  "rt_abs s = (rt_sys s)\<lparr>rs_pc := (\<lambda>u. if even u then main_pc s (u div 2) else rt_pend s (u div 2))\<rparr>"

fun pend_ok :: "rb_tso \<Rightarrow> tid \<Rightarrow> rb_pc \<Rightarrow> bool" where
  "pend_ok s t (Push_store p high) \<longleftrightarrow> rt_buf s t = [RW_cell (rt_idx s high) p]"
| "pend_ok s t (Pop_clear low ret) \<longleftrightarrow> rt_buf s t = [RW_cell (rt_idx s low) NULL]"
| "pend_ok s t RB_idle \<longleftrightarrow> rt_buf s t = []"
| "pend_ok s t _ \<longleftrightarrow> False"

fun forward_ok :: "rb_tso \<Rightarrow> tid \<Rightarrow> rb_pc \<Rightarrow> bool" where
  "forward_ok s t (Push_cas p low high) \<longleftrightarrow> (waits s t high \<longrightarrow>
     rt_buf s t = [RW_cell (rt_idx s high) NULL] \<and> high - low < ucast (rb_size (rt_mem s)))"
| "forward_ok s t (Pop_cas high low ret) \<longleftrightarrow> (waits s t low \<longrightarrow>
     rt_buf s t = [RW_cell (rt_idx s low) ret] \<and> ret \<noteq> NULL \<and> low < high)"
| "forward_ok s t (Push_store p high) \<longleftrightarrow> rt_buf s t = []"
| "forward_ok s t (Pop_clear low ret) \<longleftrightarrow> rt_buf s t = []"
| "forward_ok s t _ \<longleftrightarrow> True"

definition rt_inv :: "rb_tso \<Rightarrow> bool" where
  [inv_defs]: "rt_inv s \<longleftrightarrow> rb_inv (rt_abs s) \<and> (\<forall>t. pend_ok s t (rt_pend s t) \<and> forward_ok s t (rt_pc s t))"

lemma rt_invD:
  assumes "rt_inv s"
  shows "rb_inv (rt_abs s)" "pend_ok s t (rt_pend s t)" "forward_ok s t (rt_pc s t)" "rb_wf (rt_mem s)"
  using assms rb_invD(1) [of "rt_abs s"] by (simp_all add: rt_inv_def rt_abs_def)

lemma rt_abs_fields [simp]:
  "rs_rb (rt_abs s) = rt_mem s" "rs_pushed (rt_abs s) = rs_pushed (rt_sys s)" "rs_popped (rt_abs s) = rs_popped (rt_sys s)"
  "rs_pc (rt_abs s) (2 * t) = main_pc s t" "rs_pc (rt_abs s) (2 * t + 1) = rt_pend s t" "rs_pc (rt_abs s) (Suc (2 * t)) = rt_pend s t"
  by (simp_all add: rt_abs_def)

text \<open>The invariant does not depend on which thread is where.\<close>

lemma rb_inv_rename:
  assumes inv: "rb_inv s" and \<pi>: "bij \<pi>"
  shows "rb_inv (s\<lparr>rs_pc := (\<lambda>u. rs_pc s (\<pi> u))\<rparr>)" (is "rb_inv ?s")
proof -
  have all: "(\<forall>u. P (rs_pc s (\<pi> u))) = (\<forall>u. P (rs_pc s u))" for P
    using \<pi> by (metis bij_pointE)
  have ex: "(\<forall>u c. clear_pos (rs_pc s (\<pi> u)) = Some c \<longrightarrow> c + rs_n s \<noteq> q) =
      (\<forall>u c. clear_pos (rs_pc s u) = Some c \<longrightarrow> c + rs_n s \<noteq> q)"
    "(\<forall>u. store_pos (rs_pc s (\<pi> u)) \<noteq> Some q) = (\<forall>u. store_pos (rs_pc s u) \<noteq> Some q)" for q
    using all [of "\<lambda>d. \<forall>c. clear_pos d = Some c \<longrightarrow> c + rs_n s \<noteq> q"] all [of "\<lambda>d. store_pos d \<noteq> Some q"] by simp_all
  have local: "rb_local ?s c = rb_local s c" for c
    by (cases c) (simp_all add: ex)
  show ?thesis
  proof (rule rb_invI)
    show "u = v" if "store_pos (rs_pc ?s u) = Some q" "store_pos (rs_pc ?s v) = Some q" for u v q
      using rb_inv_store_unique [OF inv, of "\<pi> u" q "\<pi> v"] that \<pi> by (auto simp: bij_def dest: injD)
    show "u = v" if "clear_pos (rs_pc ?s u) = Some q" "clear_pos (rs_pc ?s v) = Some q" for u v q
      using rb_inv_clear_unique [OF inv, of "\<pi> u" q "\<pi> v"] that \<pi> by (auto simp: bij_def dest: injD)
    show "rb_local ?s (rs_pc ?s u)" for u
      using rb_invD(8) [OF inv] by (simp add: local)
    show "rb_cell (rs_rb ?s) q = rs_pushed ?s ! q"
      if "rs_L ?s \<le> q" "q < rs_H ?s" "\<forall>u. store_pos (rs_pc ?s u) \<noteq> Some q" for q
      using rb_inv_full_cell [OF inv, of q] that ex(2) [of q] by simp
    show "rb_cell (rs_rb ?s) q = NULL"
      if "rs_H ?s \<le> q" "q < rs_L ?s + rs_n ?s" "\<forall>u c. clear_pos (rs_pc ?s u) = Some c \<longrightarrow> c + rs_n ?s \<noteq> q" for q
      using rb_inv_free_cell [OF inv, of q] that ex(1) [of q] by simp
  qed (use rb_invD [OF inv] in simp_all)
qed

section \<open>Every step keeps it\<close>

lemma double_neq [simp]: "2 * a \<noteq> Suc (2 * b)" "Suc (2 * b) \<noteq> 2 * a" for a b :: nat
  by presburger+

lemma rt_abs_pc:
  assumes off: "\<And>u. u \<noteq> t \<Longrightarrow> rt_pc s' u = rt_pc s u" "\<And>u. u \<noteq> t \<Longrightarrow> rt_buf s' u = rt_buf s u"
      "\<And>u. u \<noteq> t \<Longrightarrow> rt_pend s' u = rt_pend s u"
    and mem: "rb_power_of_2_mod (rt_mem s') = rb_power_of_2_mod (rt_mem s)"
  shows "rs_pc (rt_abs s') = (rs_pc (rt_abs s))(2 * t := main_pc s' t, 2 * t + 1 := rt_pend s' t)"
proof
  fix u :: tid
  have same: "main_pc s' v = main_pc s v" if "v \<noteq> t" for v
    using off [OF that] mem by (cases "rt_pc s v") (simp_all add: waits_def)
  obtain v where "u = 2 * v \<or> u = 2 * v + 1"
    by (metis evenE oddE)
  then show "rs_pc (rt_abs s') u = ((rs_pc (rt_abs s))(2 * t := main_pc s' t, 2 * t + 1 := rt_pend s' t)) u"
    using same [of v] off(3) [of v] by (cases "v = t") auto
qed

lemma rt_invI:
  assumes inv: "rt_inv s" and abs: "rb_inv (rt_abs s')"
    and t: "pend_ok s' t (rt_pend s' t)" "forward_ok s' t (rt_pc s' t)"
    and off: "\<And>u. u \<noteq> t \<Longrightarrow> rt_pc s' u = rt_pc s u" "\<And>u. u \<noteq> t \<Longrightarrow> rt_buf s' u = rt_buf s u"
      "\<And>u. u \<noteq> t \<Longrightarrow> rt_pend s' u = rt_pend s u"
    and mem: "rb_power_of_2_mod (rt_mem s') = rb_power_of_2_mod (rt_mem s)" "rb_size (rt_mem s') = rb_size (rt_mem s)"
  shows "rt_inv s'"
proof -
  have "pend_ok s' u (rt_pend s' u) \<and> forward_ok s' u (rt_pc s' u)" for u
  proof (cases "u = t")
    case False
    have "pend_ok s' u c = pend_ok s u c" "forward_ok s' u c = forward_ok s u c" for c
      using off(2) [OF False] mem by (cases c; simp add: waits_def)+
    then show ?thesis
      using rt_invD(2,3) [OF inv] off(1,3) [OF False] by simp
  qed (use t in simp)
  with abs show ?thesis
    by (simp add: rt_inv_def)
qed

lemma rt_abs_goto:
  "rt_abs (rt_goto s t c) = rb_goto (rt_abs s) (2 * t) (main_of s t c)"
proof -
  have "main_of (rt_goto s t c) t c = main_of s t c"
    by (cases c) (simp_all add: waits_def)
  moreover have "rt_pend s t = rs_pc (rt_abs s) (2 * t + 1)"
    by (simp add: rt_abs_def)
  ultimately have "rs_pc (rt_abs (rt_goto s t c)) = (rs_pc (rt_abs s))(2 * t := main_of s t c)"
    using rt_abs_pc [of t "rt_goto s t c" s] by (simp add: fun_eq_iff)
  then show ?thesis
    by (intro rb_sys.equality) simp_all
qed

lemma rt_inv_goto:
  assumes inv: "rt_inv s" and abs: "rb_inv (rb_goto (rt_abs s) (2 * t) (main_of s t c))" and ok: "forward_ok s t c"
  shows "rt_inv (rt_goto s t c)"
proof (rule rt_invI [OF inv, where t = t])
  show "rb_inv (rt_abs (rt_goto s t c))"
    using abs by (simp add: rt_abs_goto)
  show "pend_ok (rt_goto s t c) t (rt_pend (rt_goto s t c) t)"
    using rt_invD(2) [OF inv, of t] by (cases "rt_pend s t") simp_all
  show "forward_ok (rt_goto s t c) t (rt_pc (rt_goto s t c) t)"
    using ok by (cases c) (simp_all add: waits_def)
qed simp_all

text \<open>What a thread reads from a cell: its waiting store, or memory.\<close>

lemma rt_load_waits:
  assumes inv: "rt_inv s" and waits: "waits s t i" and load: "rt_load s t (rt_idx s i) = Some x"
  shows "rt_buf s t = [RW_cell (rt_idx s i) x]"
proof -
  obtain y where "rt_buf s t = [RW_cell (rt_idx s i) y]"
    using waits rt_invD(2) [OF inv, of t] by (cases "rt_pend s t") (auto simp: waits_def)
  moreover have "y = x"
    using load buf_set_index [OF rt_invD(4) [OF inv], of i y] rb_index_less [of "rt_mem s" i] rt_invD(4) [OF inv]
    by (auto simp: rt_load_def calculation buf_get_def buf_set_def split: if_splits)
  ultimately show ?thesis by simp
qed

lemma rt_load_memory:
  assumes inv: "rt_inv s" and free: "\<not> waits s t i"
  shows "rt_load s t (rt_idx s i) = buf_get (rb_buffer (rt_mem s)) (rt_idx s i)"
proof -
  consider "rt_buf s t = []" | j y where "rt_buf s t = [RW_cell j y]"
    using rt_invD(2) [OF inv, of t] by (cases "rt_pend s t") auto
  then show ?thesis
  proof cases
    case 2
    then have "unat j \<noteq> unat (rt_idx s i)"
      using free by (auto simp: waits_def simp flip: word_unat_eq_iff)
    then show ?thesis
      using 2 by (simp add: rt_load_def buf_get_def buf_set_def split: option.split)
  qed (simp add: rt_load_def)
qed

lemma rt_inv_push_tests:
  assumes inv: "rt_inv s" and pc: "rt_pc s t = Push_cell p low high" and load: "rt_load s t (rt_idx s high) = Some cell"
  shows "rt_inv (rt_goto s t
    (if cell = NULL \<and> high - low < ucast (rb_size (rt_mem s)) then Push_cas p low high else RB_idle))"
proof (cases "cell = NULL \<and> high - low < ucast (rb_size (rt_mem s))")
  case False
  then show ?thesis
    using rb_inv_quiet [OF rt_invD(1) [OF inv], of "2 * t" RB_idle] pc by (auto intro!: rt_inv_goto [OF inv])
next
  case True
  let ?c = "Push_cas p low high"
  have "rt_inv (rt_goto s t ?c)"
  proof (cases "waits s t high")
    case waits: True
    have "rb_goto (rt_abs s) (2 * t) (main_of s t ?c) = rt_abs s"
      using waits pc by (simp add: fun_upd_idem)
    then show ?thesis
      using rt_invD(1) [OF inv] rt_load_waits [OF inv waits load] True by (intro rt_inv_goto [OF inv]) simp_all
  next
    case free: False
    have "cell = rb_cell (rt_mem s) (unat high)"
      using load rt_load_memory [OF inv free] tests_cell [OF rt_invD(4) [OF inv], of high cell] by simp
    then have "rb_local (rt_abs s) ?c"
      using rb_inv_push_tests [OF rt_invD(1) [OF inv], of "2 * t" p low high] pc True by simp
    then show ?thesis
      using rb_inv_quiet [OF rt_invD(1) [OF inv], of "2 * t" ?c] pc free by (intro rt_inv_goto [OF inv]) simp_all
  qed
  with True show ?thesis by simp
qed

lemma rt_inv_pop_tests:
  assumes inv: "rt_inv s" and pc: "rt_pc s t = Pop_cell high low" and load: "rt_load s t (rt_idx s low) = Some ret"
  shows "rt_inv (rt_goto s t (if ret \<noteq> NULL \<and> high > low then Pop_cas high low ret else RB_idle))"
proof (cases "ret \<noteq> NULL \<and> high > low")
  case False
  then show ?thesis
    using rb_inv_quiet [OF rt_invD(1) [OF inv], of "2 * t" RB_idle] pc by (auto intro!: rt_inv_goto [OF inv])
next
  case True
  let ?c = "Pop_cas high low ret"
  have "rt_inv (rt_goto s t ?c)"
  proof (cases "waits s t low")
    case waits: True
    have "rb_goto (rt_abs s) (2 * t) (main_of s t ?c) = rt_abs s"
      using waits pc by (simp add: fun_upd_idem)
    then show ?thesis
      using rt_invD(1) [OF inv] rt_load_waits [OF inv waits load] True by (intro rt_inv_goto [OF inv]) simp_all
  next
    case free: False
    have "ret = rb_cell (rt_mem s) (unat low)"
      using load rt_load_memory [OF inv free] tests_cell [OF rt_invD(4) [OF inv], of low ret] by simp
    then have "rb_local (rt_abs s) ?c"
      using rb_inv_pop_tests [OF rt_invD(1) [OF inv], of "2 * t" high low] pc True by simp
    then show ?thesis
      using rb_inv_quiet [OF rt_invD(1) [OF inv], of "2 * t" ?c] pc free by (intro rt_inv_goto [OF inv]) simp_all
  qed
  with True show ?thesis by simp
qed

text \<open>A store that goes into the buffer passes the position on to the thread that stands for it.\<close>

lemma rt_inv_store:
  assumes inv: "rt_inv s" and ok: "pend_ok (rt_store s t w) t (rt_pc s t)" and empty: "rt_buf s t = []"
  shows "rt_inv (rt_store s t w)"
proof (rule rt_invI [OF inv, where t = t])
  let ?s = "rt_store s t w" and ?\<pi> = "\<lambda>u. if u = 2 * t then 2 * t + 1 else if u = 2 * t + 1 then 2 * t else u"
  have pend: "rt_pend s t = RB_idle"
    using rt_invD(2) [OF inv, of t] empty by (cases "rt_pend s t") simp_all
  have main: "main_pc s t = rt_pc s t"
    using ok by (cases "rt_pc s t") simp_all
  have "bij ?\<pi>"
    by (rule involuntory_imp_bij) simp
  from rb_inv_rename [OF rt_invD(1) [OF inv] this]
  have "rb_inv ((rt_abs s)\<lparr>rs_pc := (\<lambda>u. rs_pc (rt_abs s) (?\<pi> u))\<rparr>)" .
  moreover have "rs_pc (rt_abs ?s) = (\<lambda>u. rs_pc (rt_abs s) (?\<pi> u))"
    using rt_abs_pc [of t ?s s] pend main by (simp add: rt_store_def fun_eq_iff)
  then have "rt_abs ?s = (rt_abs s)\<lparr>rs_pc := (\<lambda>u. rs_pc (rt_abs s) (?\<pi> u))\<rparr>"
    by (intro rb_sys.equality) (simp_all add: rt_store_def)
  ultimately show "rb_inv (rt_abs ?s)"
    by simp
  show "pend_ok ?s t (rt_pend ?s t)"
    using ok by (simp add: rt_store_def)
qed (simp_all add: rt_store_def)

text \<open>A flush is the step of that thread, and then the test the main thread has made already.\<close>

abbreviation rt_flushed :: "rb_tso \<Rightarrow> tid \<Rightarrow> rb_write \<Rightarrow> rb_tso" where
  "rt_flushed s t w \<equiv> s\<lparr>rt_buf := (rt_buf s)(t := []), rt_pend := (rt_pend s)(t := RB_idle),
     rt_sys := (rt_sys s)\<lparr>rs_rb := (rt_mem s)\<lparr>rb_buffer := rb_write_do w (rb_buffer (rt_mem s))\<rparr>\<rparr>\<rparr>"

abbreviation abs_flushed :: "rb_tso \<Rightarrow> tid \<Rightarrow> rb_write \<Rightarrow> rb_sys" where
  "abs_flushed s t w \<equiv> rb_goto (rt_abs s) (2 * t + 1) RB_idle
     \<lparr>rs_rb := (rt_mem s)\<lparr>rb_buffer := rb_write_do w (rb_buffer (rt_mem s))\<rparr>\<rparr>"

lemma abs_flushed_inv:
  assumes inv: "rt_inv s" and buf: "rt_buf s t = [w]"
  shows "rb_inv (abs_flushed s t w)"
proof (cases "rt_pend s t")
  case (Push_store p high)
  have "rb_write_do w (rb_buffer (rt_mem s)) = (rb_buffer (rt_mem s))[unat high mod rs_n (rt_abs s) := p]"
    using rt_invD(2) [OF inv, of t] buf Push_store buf_set_index [OF rt_invD(4) [OF inv], of high p] by auto
  then show ?thesis
    using rb_inv_push_store [OF rt_invD(1) [OF inv], of "2 * t + 1" p high] Push_store by simp
next
  case (Pop_clear low ret)
  have "rb_write_do w (rb_buffer (rt_mem s)) = (rb_buffer (rt_mem s))[unat low mod rs_n (rt_abs s) := NULL]"
    using rt_invD(2) [OF inv, of t] buf Pop_clear buf_set_index [OF rt_invD(4) [OF inv], of low NULL] by auto
  then show ?thesis
    using rb_inv_pop_clear [OF rt_invD(1) [OF inv], of "2 * t + 1" low ret] Pop_clear by simp
qed (use rt_invD(2) [OF inv, of t] buf in simp_all)

lemma flushed_cell:
  assumes "rt_inv s"
  shows "rb_cell ((rt_mem s)\<lparr>rb_buffer := rb_write_do (RW_cell (rt_idx s i) x) (rb_buffer (rt_mem s))\<rparr>) (unat i) = x"
  using rb_cell_update [OF rt_invD(4) [OF assms], of "unat i" x "unat i"] buf_set_index [OF rt_invD(4) [OF assms], of i x]
  by simp

lemma rt_inv_flush:
  assumes inv: "rt_inv s" and buf: "rt_buf s t = w # ws"
  shows "ws = []" and "rt_inv (rt_flushed s t w)"
proof -
  show ws: "ws = []"
    using rt_invD(2) [OF inv, of t] buf by (cases "rt_pend s t") simp_all
  let ?s = "rt_flushed s t w" and ?A = "abs_flushed s t w"
  have A: "rb_inv ?A"
    using abs_flushed_inv [OF inv] buf ws by simp
  have main: "main_pc ?s t = rt_pc s t"
    by (cases "rt_pc s t") (simp_all add: waits_def)
  have goto: "rb_inv (rb_goto ?A (2 * t) (rt_pc s t))"
  proof (cases "main_pc s t = rt_pc s t")
    case True
    then have "rb_goto ?A (2 * t) (rt_pc s t) = ?A"
      by (simp add: fun_eq_iff)
    with A show ?thesis by simp
  next
    case False
    then consider p low high where "rt_pc s t = Push_cas p low high" "waits s t high"
      | high low ret where "rt_pc s t = Pop_cas high low ret" "waits s t low"
      by (cases "rt_pc s t") (auto split: if_splits)
    then show ?thesis
    proof cases
      case 1
      then have w: "w = RW_cell (rt_idx s high) NULL" "high - low < ucast (rb_size (rt_mem s))"
        using rt_invD(3) [OF inv, of t] buf by simp_all
      have "rb_local ?A (Push_cas p low high)"
        using rb_inv_push_tests [OF A, of "2 * t" p low high] 1 w flushed_cell [OF inv, of high NULL] by simp
      then show ?thesis
        using rb_inv_quiet [OF A, of "2 * t" "Push_cas p low high"] 1 by simp
    next
      case 2
      then have w: "w = RW_cell (rt_idx s low) ret" "ret \<noteq> NULL" "low < high"
        using rt_invD(3) [OF inv, of t] buf by simp_all
      have c: "rb_cell (rs_rb ?A) (unat low) = ret"
        using flushed_cell [OF inv, of low ret] w(1) by simp
      have "rb_local ?A (Pop_cas high low (rb_cell (rs_rb ?A) (unat low)))"
        by (rule rb_inv_pop_tests [OF A, of "2 * t"]) (use 2 w c in simp_all)
      then have "rb_local ?A (Pop_cas high low ret)"
        unfolding c .
      then show ?thesis
        using rb_inv_quiet [OF A, of "2 * t" "Pop_cas high low ret"] 2 by simp
    qed
  qed
  show "rt_inv ?s"
  proof (rule rt_invI [OF inv, where t = t])
    have "rs_pc (rt_abs ?s) = (rs_pc (rt_abs s))(2 * t + 1 := RB_idle, 2 * t := rt_pc s t)"
      using rt_abs_pc [of t ?s s] main by (simp add: fun_upd_twist)
    then have "rt_abs ?s = rb_goto ?A (2 * t) (rt_pc s t)"
      by (intro rb_sys.equality) simp_all
    with goto show "rb_inv (rt_abs ?s)"
      by simp
    show "forward_ok ?s t (rt_pc ?s t)"
      using rt_invD(3) [OF inv, of t] by (cases "rt_pc s t") (simp_all add: waits_def)
  qed simp_all
qed

text \<open>A compare-and-swap that succeeds; nothing of the thread's waits then.\<close>

lemma rt_inv_won:
  assumes inv: "rt_inv s" and empty: "rt_buf s t = []"
    and s': "s' = s\<lparr>rt_sys := rb_goto (rt_sys s) t c\<lparr>rs_rb := rb', rs_pushed := ps, rs_popped := qs\<rparr>\<rparr>"
    and abs: "rb_inv (rb_goto (rt_abs s) (2 * t) c\<lparr>rs_rb := rb', rs_pushed := ps, rs_popped := qs\<rparr>)"
    and mem: "rb_power_of_2_mod rb' = rb_power_of_2_mod (rt_mem s)" "rb_size rb' = rb_size (rt_mem s)"
    and c: "\<not> at_cas c"
  shows "rt_inv s'"
proof (rule rt_invI [OF inv, where t = t])
  have "main_of s' t c = c"
    using c by (cases c) simp_all
  then have "rs_pc (rt_abs s') = (rs_pc (rt_abs s))(2 * t := c)"
    using rt_abs_pc [of t s' s] mem s' by (simp add: fun_eq_iff)
  then have "rt_abs s' = rb_goto (rt_abs s) (2 * t) c\<lparr>rs_rb := rb', rs_pushed := ps, rs_popped := qs\<rparr>"
    by (intro rb_sys.equality) (simp_all add: s')
  with abs show "rb_inv (rt_abs s')"
    by simp
  show "pend_ok s' t (rt_pend s' t)"
    using rt_invD(2) [OF inv, of t] empty by (cases "rt_pend s t") (simp_all add: s')
  show "forward_ok s' t (rt_pc s' t)"
    using c empty by (cases c) (simp_all add: s')
qed (simp_all add: s' mem)

lemma rs_logs_same:
  "rs_pushed v = ps \<Longrightarrow> v\<lparr>rs_pushed := ps\<rparr> = v" "rs_popped v = qs \<Longrightarrow> v\<lparr>rs_popped := qs\<rparr> = v"
  for v :: rb_sys
  by (auto intro: rb_sys.equality)

lemma rt_inv_other:
  assumes inv: "rt_inv s" and bound: "rs_H v' < 2 ^ 64" and step: "rb_step (rt_sys s) v'"
    and t: "rs_pc v' t \<noteq> rt_pc s t" "\<not> at_cell (rt_pc s t)" "at_cas (rt_pc s t) \<longrightarrow> rt_buf s t = []"
  shows "rt_inv (s\<lparr>rt_sys := v'\<rparr>)"
proof -
  have goto: "rt_inv (rt_goto s t c)"
    if "rb_step (rt_abs s) (rb_goto (rt_abs s) (2 * t) (main_of s t c))" "forward_ok s t c" "rs_H (rt_sys s) < 2 ^ 64" for c
    using rb_step_inv [OF rt_invD(1) [OF inv] _ that(1)] that(2,3) by (intro rt_inv_goto [OF inv]) (simp_all add: rb_bound_def)
  have free: "\<not> waits s t i" if "at_cas (rt_pc s t)" for i
    using t(3) that by (simp add: waits_def)
  show ?thesis
    using step
  proof cases
    case (push_call u p)
    then have "u = t"
      using t(1) by (auto split: if_splits)
    with push_call show ?thesis
      using goto [of "Push_low p"] rb_step.push_call [of "rt_abs s" "2 * t" p] bound by simp
  next
    case (push_low u p)
    then have "u = t"
      using t(1) by (auto split: if_splits)
    with push_low show ?thesis
      using goto [of "Push_high p (rb_low (rt_mem s))"] rb_step.push_low [of "rt_abs s" "2 * t" p] bound by simp
  next
    case (push_high u p low)
    then have "u = t"
      using t(1) by (auto split: if_splits)
    with push_high show ?thesis
      using goto [of "Push_cell p low (rb_high (rt_mem s))"] rb_step.push_high [of "rt_abs s" "2 * t" p low] bound by simp
  next
    case (push_lost u p low high high')
    then have "u = t"
      using t(1) by (auto split: if_splits)
    with push_lost show ?thesis
      using goto [of RB_idle] rb_step.push_lost [of "rt_abs s" "2 * t" p low high high'] bound free by simp
  next
    case (pop_call u)
    then have "u = t"
      using t(1) by (auto split: if_splits)
    with pop_call show ?thesis
      using goto [of Pop_high] rb_step.pop_call [of "rt_abs s" "2 * t"] bound by simp
  next
    case (pop_high u)
    then have "u = t"
      using t(1) by (auto split: if_splits)
    with pop_high show ?thesis
      using goto [of "Pop_low (rb_high (rt_mem s))"] rb_step.pop_high [of "rt_abs s" "2 * t"] bound by simp
  next
    case (pop_low u high)
    then have "u = t"
      using t(1) by (auto split: if_splits)
    with pop_low show ?thesis
      using goto [of "Pop_cell high (rb_low (rt_mem s))"] rb_step.pop_low [of "rt_abs s" "2 * t" high] bound by simp
  next
    case (pop_lost u high low ret low')
    then have "u = t"
      using t(1) by (auto split: if_splits)
    with pop_lost show ?thesis
      using goto [of RB_idle] rb_step.pop_lost [of "rt_abs s" "2 * t" high low ret low'] bound free by simp
  next
    case (push_won u p low high high')
    then have u: "u = t"
      using t(1) by (auto split: if_splits)
    have pc: "rs_pc (rt_abs s) (2 * t) = Push_cas p low high"
      using push_won(2) free u by simp
    have "rb_inv (rb_goto (rt_abs s) (2 * t) (Push_store p high)
        \<lparr>rs_rb := (rt_mem s)\<lparr>rb_high := high'\<rparr>, rs_pushed := rs_pushed (rt_sys s) @ [p],
          rs_popped := rs_popped (rt_sys s)\<rparr>)"
      using rb_step_inv [OF rt_invD(1) [OF inv] _ rb_step.push_won [OF pc, of high']] push_won(1,3) bound
      by (simp add: rb_bound_def rs_logs_same)
    then show ?thesis
      using t(3) push_won(1,2) u
      by (intro rt_inv_won [OF inv, where t = t and c = "Push_store p high"
          and rb' = "(rt_mem s)\<lparr>rb_high := high'\<rparr>" and ps = "rs_pushed (rt_sys s) @ [p]" and qs = "rs_popped (rt_sys s)"]) simp_all
  next
    case (pop_won u high low ret low')
    then have u: "u = t"
      using t(1) by (auto split: if_splits)
    have pc: "rs_pc (rt_abs s) (2 * t) = Pop_cas high low ret"
      using pop_won(2) free u by simp
    have "rb_inv (rb_goto (rt_abs s) (2 * t) (Pop_clear low ret)
        \<lparr>rs_rb := (rt_mem s)\<lparr>rb_low := low'\<rparr>, rs_pushed := rs_pushed (rt_sys s),
          rs_popped := rs_popped (rt_sys s) @ [ret]\<rparr>)"
      using rb_step_inv [OF rt_invD(1) [OF inv] _ rb_step.pop_won [OF pc, of low']] pop_won(1,3) bound
      by (simp add: rb_bound_def rs_logs_same)
    then show ?thesis
      using t(3) pop_won(1,2) u
      by (intro rt_inv_won [OF inv, where t = t and c = "Pop_clear low ret"
          and rb' = "(rt_mem s)\<lparr>rb_low := low'\<rparr>" and ps = "rs_pushed (rt_sys s)" and qs = "rs_popped (rt_sys s) @ [ret]"]) simp_all
  qed (use t in \<open>auto split: if_splits\<close>)
qed

lemma rt_step_inv:
  assumes step: "rt_step s s'" and inv: "rt_inv s" and bound: "rs_H (rt_sys s') < 2 ^ 64"
  shows "rt_inv s'"
  using step
proof cases
  case (flush t w ws)
  then show ?thesis using rt_inv_flush [OF inv flush(2)] by simp
next
  case (other v' t)
  then show ?thesis using rt_inv_other [OF inv _ other(2)] bound by simp
next
  case (push_tests t p low high cell)
  then show ?thesis using rt_inv_push_tests [OF inv push_tests(2,3)] by simp
next
  case (push_store t p high)
  then have "rt_buf s t = []"
    using rt_invD(3) [OF inv, of t] by simp
  with push_store(2) have "rt_inv (rt_store s t (RW_cell (rt_idx s high) p))"
    by (intro rt_inv_store [OF inv]) (simp_all add: rt_store_def)
  with push_store(1) show ?thesis by simp
next
  case (pop_tests t high low ret)
  then show ?thesis using rt_inv_pop_tests [OF inv pop_tests(2,3)] by simp
next
  case (pop_clear t low ret)
  then have "rt_buf s t = []"
    using rt_invD(3) [OF inv, of t] by simp
  with pop_clear(2) have "rt_inv (rt_store s t (RW_cell (rt_idx s low) NULL))"
    by (intro rt_inv_store [OF inv]) (simp_all add: rt_store_def)
  with pop_clear(1) show ?thesis by simp
qed

lemma rt_step_size: "rt_step s s' \<Longrightarrow> rs_n (rt_sys s') = rs_n (rt_sys s)"
  by (erule rt_step.cases) (simp_all add: rt_store_def rb_step_size)

lemma rt_step_pushed: "rt_step s s' \<Longrightarrow> rs_H (rt_sys s) \<le> rs_H (rt_sys s')"
  by (erule rt_step.cases) (simp_all add: rt_store_def rb_step_pushed)

lemma rt_init_inv:
  assumes "rt_init k s"
  shows "rt_inv s \<and> rs_n (rt_sys s) = 2 ^ unat k"
proof -
  have init: "rb_init k (rt_sys s)" "rt_buf s t = []" "rt_pend s t = RB_idle" "rt_pc s t = RB_idle" for t
    using assms by (simp_all add: rt_init_def rb_init_def)
  then have "rt_abs s = rt_sys s"
    by (intro rb_sys.equality) (auto simp: rt_abs_def)
  with init rb_init_inv [OF init(1)] show ?thesis
    by (simp add: rt_inv_def)
qed

interpretation rtb: bounded_invariant "rt_init k" rt_step "\<lambda>s. rs_H (rt_sys s) < 2 ^ 64"
  "\<lambda>s. rt_inv s \<and> rs_n (rt_sys s) = 2 ^ unat k" for k
proof (unfold_locales, goal_cases)
  case (1 s)
  then show ?case by (rule rt_init_inv)
next
  case (2 s t)
  then show ?case using rt_step_pushed [of s t] by simp
next
  case (3 s t)
  then show ?case using rt_step_inv rt_step_size by metis
qed

section \<open>A concrete run\<close>

text \<open>
  Two cells. Thread 0 pushes 7, its store waits and is flushed; thread 1 pops it. \<open>rt_demo\<close> shows
  the position where the two sides are, cell 0, and each thread's waiting store, its place and the
  place of its store.
\<close>

definition rt_demo :: "u64 \<Rightarrow> u64 \<Rightarrow> u64 \<Rightarrow> rb_pc \<Rightarrow> rb_write list \<Rightarrow> rb_pc \<Rightarrow> rb_pc \<Rightarrow> rb_write list \<Rightarrow> rb_pc
    \<Rightarrow> ptr list \<Rightarrow> ptr list \<Rightarrow> rb_tso" where
  "rt_demo h l x c0 b0 d0 c1 b1 d1 pushed popped =
     \<lparr>rt_sys = \<lparr>rs_rb = \<lparr>rb_high = h, rb_low = l, rb_size = 2, rb_power_of_2_mod = 1, rb_buffer = [x, 0]\<rparr>,
        rs_pc = (\<lambda>_. RB_idle)(0 := c0, 1 := c1), rs_pushed = pushed, rs_popped = popped\<rparr>,
      rt_buf = (\<lambda>_. [])(0 := b0, 1 := b1), rt_pend = (\<lambda>_. RB_idle)(0 := d0, 1 := d1)\<rparr>"

lemma rt_demo_start: "reach (rt_init 1) rt_step (rt_demo 0 0 0 RB_idle [] RB_idle RB_idle [] RB_idle [] [])"
  using rb_demo_create by (intro reach_init) (simp add: rt_init_def rb_init_def rt_demo_def rb_demo_def fun_eq_iff)

lemma rt_demo_step:
  "reach (rt_init 1) rt_step s \<Longrightarrow> rt_step s s' \<Longrightarrow> s' = s'' \<Longrightarrow> reach (rt_init 1) rt_step s''"
  by (blast intro: reach_step)

lemma rt_demo_other:
  "reach (rt_init 1) rt_step s \<Longrightarrow> rb_step (rt_sys s) v' \<Longrightarrow>
     rs_pc v' t \<noteq> rt_pc s t \<and> \<not> at_cell (rt_pc s t) \<and> (at_cas (rt_pc s t) \<longrightarrow> rt_buf s t = []) \<Longrightarrow>
     s\<lparr>rt_sys := v'\<rparr> = s'' \<Longrightarrow> reach (rt_init 1) rt_step s''"
  by (blast intro: reach_step rt_step.other)

lemmas rt_demo_simps = rt_demo_def rt_load_def rt_store_def buf_set_def buf_get_def
  sync_bool_compare_and_swap_def fun_upd_twist

lemma rt_demo_pushed:
  "reach (rt_init 1) rt_step (rt_demo 1 0 0 RB_idle [RW_cell 0 7] (Push_store 7 0) RB_idle [] RB_idle [7] [])"
proof -
  let ?s = "\<lambda>c. rt_demo 0 0 0 c [] RB_idle RB_idle [] RB_idle [] []"
  from rt_demo_other [OF rt_demo_start rb_step.push_call [of _ 0 7], where t = 0]
  have "reach (rt_init 1) rt_step (?s (Push_low 7))"
    by (simp add: rt_demo_simps)
  from rt_demo_other [OF this rb_step.push_low [of _ 0 7], where t = 0]
  have "reach (rt_init 1) rt_step (?s (Push_high 7 0))"
    by (simp add: rt_demo_simps)
  from rt_demo_other [OF this rb_step.push_high [of _ 0 7 0], where t = 0]
  have "reach (rt_init 1) rt_step (?s (Push_cell 7 0 0))"
    by (simp add: rt_demo_simps)
  from rt_demo_step [OF this rt_step.push_tests [of _ 0 7 0 0 0]]
  have "reach (rt_init 1) rt_step (?s (Push_cas 7 0 0))"
    by (simp add: rt_demo_simps)
  from rt_demo_other [OF this rb_step.push_won [of _ 0 7 0 0 1], where t = 0]
  have "reach (rt_init 1) rt_step (rt_demo 1 0 0 (Push_store 7 0) [] RB_idle RB_idle [] RB_idle [7] [])"
    by (simp add: rt_demo_simps)
  from rt_demo_step [OF this rt_step.push_store [of _ 0 7 0]] show ?thesis
    by (simp add: rt_demo_simps)
qed

lemma rt_demo_popped:
  "reach (rt_init 1) rt_step (rt_demo 1 1 0 RB_idle [] RB_idle RB_idle [] RB_idle [7] [7])"
proof -
  let ?s = "\<lambda>c. rt_demo 1 0 7 RB_idle [] RB_idle c [] RB_idle [7] []"
  from rt_demo_step [OF rt_demo_pushed rt_step.flush [of _ 0 "RW_cell 0 7" "[]"]]
  have "reach (rt_init 1) rt_step (?s RB_idle)"
    by (simp add: rt_demo_simps)
  from rt_demo_other [OF this rb_step.pop_call [of _ 1], where t = 1]
  have "reach (rt_init 1) rt_step (?s Pop_high)"
    by (simp add: rt_demo_simps)
  from rt_demo_other [OF this rb_step.pop_high [of _ 1], where t = 1]
  have "reach (rt_init 1) rt_step (?s (Pop_low 1))"
    by (simp add: rt_demo_simps)
  from rt_demo_other [OF this rb_step.pop_low [of _ 1 1], where t = 1]
  have "reach (rt_init 1) rt_step (?s (Pop_cell 1 0))"
    by (simp add: rt_demo_simps)
  from rt_demo_step [OF this rt_step.pop_tests [of _ 1 1 0 7]]
  have "reach (rt_init 1) rt_step (?s (Pop_cas 1 0 7))"
    by (simp add: rt_demo_simps)
  from rt_demo_other [OF this rb_step.pop_won [of _ 1 1 0 7 1], where t = 1]
  have "reach (rt_init 1) rt_step (rt_demo 1 1 7 RB_idle [] RB_idle (Pop_clear 0 7) [] RB_idle [7] [7])"
    by (simp add: rt_demo_simps)
  from rt_demo_step [OF this rt_step.pop_clear [of _ 1 0 7]]
  have "reach (rt_init 1) rt_step
      (rt_demo 1 1 7 RB_idle [] RB_idle RB_idle [RW_cell 0 0] (Pop_clear 0 7) [7] [7])"
    by (simp add: rt_demo_simps)
  from rt_demo_step [OF this rt_step.flush [of _ 1 "RW_cell 0 0" "[]"]] show ?thesis
    by (simp add: rt_demo_simps)
qed

section \<open>Properties\<close>

text \<open>A thread in an operation has a next step, or a store of its own to flush.\<close>

lemma ring_buffer_tso_progress:
  assumes inv: "rt_inv s" and busy: "rt_pc s t \<noteq> RB_idle"
  shows "\<exists>s'. rt_step s s' \<and> (rt_pc s' t \<noteq> rt_pc s t \<or> length (rt_buf s' t) < length (rt_buf s t))"
proof -
  note wf = rt_invD(4) [OF inv]
  have other: ?thesis
    if "rb_step (rt_sys s) v'" "rs_pc v' t \<noteq> rt_pc s t" "\<not> at_cell (rt_pc s t)" "\<not> at_cas (rt_pc s t) \<or> rt_buf s t = []" for v'
    by (intro exI conjI, rule rt_step.other [OF that(1-3)]) (use that in auto)
  have load: "\<exists>x. rt_load s t (rt_idx s i) = Some x" for i
  proof (cases "waits s t i")
    case False
    then show ?thesis
      using rt_load_memory [OF inv False] buf_get_index [OF wf] by simp
  next
    case True
    then obtain x where "rt_buf s t = [RW_cell (rt_idx s i) x]"
      using rt_invD(2) [OF inv, of t] by (cases "rt_pend s t") (auto simp: waits_def)
    then show ?thesis
      using buf_set_index [OF wf, of i x] rb_index_less [OF wf, of i] rb_wf_length [OF wf]
      by (simp add: rt_load_def buf_get_def buf_set_def)
  qed
  have flush: ?thesis if "rt_buf s t = w # ws" for w ws
    by (intro exI conjI, rule rt_step.flush [OF that]) (simp add: that)
  show ?thesis
  proof (cases "rt_pc s t")
    case (Push_low p)
    then show ?thesis by (intro other [OF rb_step.push_low]) simp_all
  next
    case (Push_high p low)
    then show ?thesis by (intro other [OF rb_step.push_high]) simp_all
  next
    case (Push_cell p low high)
    obtain x where "rt_load s t (rt_idx s high) = Some x" using load by blast
    with Push_cell show ?thesis
      by (intro exI conjI, rule rt_step.push_tests) auto
  next
    case (Push_cas p low high)
    show ?thesis
    proof (cases "rt_buf s t")
      case Nil
      obtain won high' where cas: "sync_bool_compare_and_swap (rb_high (rt_mem s)) high (high + 1) = (won, high')"
        by (metis surj_pair)
      show ?thesis
      proof (cases won)
        case True
        show ?thesis
          by (rule other [OF rb_step.push_won [OF Push_cas cas [unfolded iffD2 [OF eq_True True]]]]) (simp_all add: Push_cas Nil)
      next
        case False
        show ?thesis
          by (rule other [OF rb_step.push_lost [OF Push_cas cas [unfolded iffD2 [OF eq_False False]]]]) (simp_all add: Push_cas Nil)
      qed
    qed (rule flush)
  next
    case (Push_store p high)
    have "unat (rt_idx s high) < length (rb_buffer (rt_mem s))"
      using rb_index_less [OF wf, of high] rb_wf_length [OF wf] by simp
    with Push_store show ?thesis
      by (intro exI conjI, rule rt_step.push_store) (simp_all add: rt_store_def)
  next
    case Pop_high
    then show ?thesis by (intro other [OF rb_step.pop_high]) simp_all
  next
    case (Pop_low high)
    then show ?thesis by (intro other [OF rb_step.pop_low]) simp_all
  next
    case (Pop_cell high low)
    obtain x where "rt_load s t (rt_idx s low) = Some x" using load by blast
    with Pop_cell show ?thesis
      by (intro exI conjI, rule rt_step.pop_tests) auto
  next
    case (Pop_cas high low ret)
    show ?thesis
    proof (cases "rt_buf s t")
      case Nil
      obtain won low' where cas: "sync_bool_compare_and_swap (rb_low (rt_mem s)) low (low + 1) = (won, low')"
        by (metis surj_pair)
      show ?thesis
      proof (cases won)
        case True
        show ?thesis
          by (rule other [OF rb_step.pop_won [OF Pop_cas cas [unfolded iffD2 [OF eq_True True]]]]) (simp_all add: Pop_cas Nil)
      next
        case False
        show ?thesis
          by (rule other [OF rb_step.pop_lost [OF Pop_cas cas [unfolded iffD2 [OF eq_False False]]]]) (simp_all add: Pop_cas Nil)
      qed
    qed (rule flush)
  next
    case (Pop_clear low ret)
    have "unat (rt_idx s low) < length (rb_buffer (rt_mem s))"
      using rb_index_less [OF wf, of low] rb_wf_length [OF wf] by simp
    with Pop_clear show ?thesis
      by (intro exI conjI, rule rt_step.pop_clear) (simp_all add: rt_store_def)
  qed (use busy in simp)
qed

text \<open>
  C1. On x86-TSO, where the stores of the cells wait in the storing thread's buffer, the ring
  buffer is a FIFO under any interleaving of any number of threads and any flushes: the values
  whose pop won are the values whose push won, in the same order and none twice, the pushes are
  never more than the capacity ahead, and once no operation is in progress and every store is
  flushed memory holds exactly the pushed values not popped yet (as long as fewer than \<open>2 ^ 64\<close>
  pushes have won).
\<close>

theorem ring_buffer_fifo_tso:
  assumes "reach (rt_init k) rt_step s" and "length (rs_pushed (rt_sys s)) < 2 ^ 64"
  shows "rs_popped (rt_sys s) = take (length (rs_popped (rt_sys s))) (rs_pushed (rt_sys s))
    \<and> length (rs_popped (rt_sys s)) \<le> length (rs_pushed (rt_sys s))
    \<and> length (rs_pushed (rt_sys s)) \<le> length (rs_popped (rt_sys s)) + 2 ^ unat k
    \<and> ((\<forall>t. rs_pc (rt_sys s) t = RB_idle \<and> rt_buf s t = []) \<longrightarrow>
         rb_items (rs_rb (rt_sys s)) = drop (length (rs_popped (rt_sys s))) (rs_pushed (rt_sys s)))"
proof -
  have inv: "rt_inv s" and n: "rs_n (rt_sys s) = 2 ^ unat k"
    using rtb.reach_inv [OF assms] by simp_all
  have "rs_pc (rt_abs s) u = RB_idle" if "\<forall>t. rt_pc s t = RB_idle \<and> rt_buf s t = []" for u
    using rt_invD(2) [OF inv, of "u div 2"] that by (cases "rt_pend s (u div 2)") (simp_all add: rt_abs_def)
  then have "rb_items (rt_mem s) = drop (rs_L (rt_sys s)) (rs_pushed (rt_sys s))"
    if "\<forall>t. rt_pc s t = RB_idle \<and> rt_buf s t = []"
    using rb_inv_quiescent [OF rt_invD(1) [OF inv]] that by simp
  then show ?thesis
    using rb_invD(4-6) [OF rt_invD(1) [OF inv]] n by simp
qed

theorem ring_buffer_fifo_tso_witness:
  "(\<exists>s. reach (rt_init 1) rt_step s \<and> rt_buf s 0 = [RW_cell 0 7] \<and> rs_pushed (rt_sys s) = [7])
   \<and> (\<exists>s. reach (rt_init 1) rt_step s \<and> rs_popped (rt_sys s) = [7] \<and> rb_items (rs_rb (rt_sys s)) = [])"
proof
  show "\<exists>s. reach (rt_init 1) rt_step s \<and> rt_buf s 0 = [RW_cell 0 7] \<and> rs_pushed (rt_sys s) = [7]"
    using rt_demo_pushed by (intro exI conjI) (assumption, simp_all add: rt_demo_def)
  let ?s = "rt_demo 1 1 0 RB_idle [] RB_idle RB_idle [] RB_idle [7] [7]"
  show "\<exists>s. reach (rt_init 1) rt_step s \<and> rs_popped (rt_sys s) = [7] \<and> rb_items (rs_rb (rt_sys s)) = []"
    using ring_buffer_fifo_tso [OF rt_demo_popped] rt_demo_popped
    by (intro exI [of _ ?s]) (simp add: rt_demo_def)
qed

end
