(* ===== verification/Fifo_Steal.thy ===== *)
theory Fifo_Steal
  imports Machine_Specific Fifo_Interface
begin

text \<open>
  \<open>fifo_steal_buffer\<close> of \<open>fifo_steal_buffer.h\<close> as one thread sees it: the struct, its
  creation and its operations. \<open>push\<close> and \<open>pop\<close> are for the master thread,
  \<open>steal\<close> for the others; Fifo\_Steal\_Conc interleaves them.

  An operation with an \<open>out\<close> parameter returns its \<open>int\<close> result and what it wrote to
  \<open>*out\<close>, \<open>None\<close> where it wrote nothing.
\<close>

section \<open>The struct and its operations\<close>

record fifo_steal_buffer =
  fs_high :: u64
  fs_low :: u64
  fs_size :: u32
  fs_power_of_2_mod :: u32
  fs_buffer :: "ptr list"

definition FIFO_STEAL_BUFFER_EMPTY :: int where "FIFO_STEAL_BUFFER_EMPTY = 0"
definition FIFO_STEAL_BUFFER_ABORT :: int where "FIFO_STEAL_BUFFER_ABORT = - 1"
definition FIFO_STEAL_BUFFER_SUCCESS :: int where "FIFO_STEAL_BUFFER_SUCCESS = 1"

lemmas fs_result_defs = FIFO_STEAL_BUFFER_EMPTY_def FIFO_STEAL_BUFFER_ABORT_def
  FIFO_STEAL_BUFFER_SUCCESS_def

text \<open>The initialisation writes the header and leaves the buffer as it finds it.\<close>

definition fifo_steal_buffer_init :: "fifo_steal_buffer \<Rightarrow> u32 \<Rightarrow> fifo_steal_buffer option" where
  "fifo_steal_buffer_init fifo power_of_2_size = do {
     c_assert (power_of_2_size \<noteq> 0 \<and> power_of_2_size < 32);
     Some (fifo\<lparr>fs_high := 0, fs_low := 0,
       fs_size := push_bit (unat power_of_2_size) 1,
       fs_power_of_2_mod := push_bit (unat power_of_2_size) 1 - 1\<rparr>)
   }"

text \<open>
  \<open>malloc n\<close> is the buffer (with whatever it holds) of an allocation that has room for
  \<open>n\<close> cells after the 24 bytes of the header, \<open>None\<close> a failed allocation. The size
  requested is computed in 64 bits and stored in 32.
\<close>

definition fifo_steal_buffer_cells :: "u32 \<Rightarrow> nat" where
  "fifo_steal_buffer_cells power_of_2_size =
     (let s = push_bit (unat power_of_2_size) 1 :: u32;
          required_size = ucast (24 + ucast s * 8 :: u64) :: u32
      in (unat required_size - 24) div 8)"

definition fifo_steal_buffer_create ::
  "(nat \<Rightarrow> ptr list option) \<Rightarrow> u32 \<Rightarrow> fifo_steal_buffer option option" where
  "fifo_steal_buffer_create malloc power_of_2_size = do {
     c_assert (power_of_2_size \<noteq> 0 \<and> power_of_2_size < 32);
     case malloc (fifo_steal_buffer_cells power_of_2_size) of
       None \<Rightarrow> Some None
     | Some b \<Rightarrow> map_option Some (fifo_steal_buffer_init
         \<lparr>fs_high = 0, fs_low = 0, fs_size = 0, fs_power_of_2_mod = 0, fs_buffer = b\<rparr>
         power_of_2_size)
   }"

text \<open>\<open>fifos\<close> are the buffers in memory, by address.\<close>

definition fifo_steal_buffer_destroy ::
  "(ptr \<Rightarrow> fifo_steal_buffer option) \<Rightarrow> ptr \<Rightarrow> (ptr \<Rightarrow> fifo_steal_buffer option) option" where
  "fifo_steal_buffer_destroy fifos fifo = free_block fifos fifo"

definition fifo_steal_buffer_push ::
  "fifo_steal_buffer \<Rightarrow> ptr \<Rightarrow> (int \<times> fifo_steal_buffer) option" where
  "fifo_steal_buffer_push fifo data =
     (let high = fs_high fifo; low = fs_low fifo
      in if high - low < ucast (fs_size fifo)
         then do {
           let index = high AND ucast (fs_power_of_2_mod fifo);
           b \<leftarrow> buf_set (fs_buffer fifo) index data;
           Some (1, fifo\<lparr>fs_buffer := b, fs_high := high + 1\<rparr>)
         }
         else Some (0, fifo))"

definition fifo_steal_buffer_pop ::
  "fifo_steal_buffer \<Rightarrow> (int \<times> ptr option \<times> fifo_steal_buffer) option" where
  "fifo_steal_buffer_pop fifo =
     (let high = fs_high fifo
      in if high > fs_low fifo
         then let (new_low, low') = sync_add_and_fetch (fs_low fifo) 1;
                  fifo = fifo\<lparr>fs_low := low'\<rparr>
              in if new_low \<ge> high
                 then Some (0, None, fifo\<lparr>fs_low := high\<rparr>)
                 else do {
                   let index = (new_low - 1) AND ucast (fs_power_of_2_mod fifo);
                   v \<leftarrow> buf_get (fs_buffer fifo) index;
                   Some (1, Some v, fifo)
                 }
         else Some (0, None, fifo))"

definition fifo_steal_buffer_steal ::
  "fifo_steal_buffer \<Rightarrow> (int \<times> ptr option \<times> fifo_steal_buffer) option" where
  "fifo_steal_buffer_steal fifo =
     (let high = fs_high fifo; low = fs_low fifo
      in if high > low
         then do {
           let index = low AND ucast (fs_power_of_2_mod fifo);
           v \<leftarrow> buf_get (fs_buffer fifo) index;
           case sync_bool_compare_and_swap (fs_low fifo) low (low + 1) of
             (True, low') \<Rightarrow> Some (FIFO_STEAL_BUFFER_SUCCESS, Some v, fifo\<lparr>fs_low := low'\<rparr>)
           | (False, _) \<Rightarrow> Some (FIFO_STEAL_BUFFER_ABORT, Some v, fifo)
         }
         else Some (FIFO_STEAL_BUFFER_EMPTY, None, fifo))"

section \<open>Representation\<close>

definition fs_wf :: "fifo_steal_buffer \<Rightarrow> bool" where
  [inv_defs]: "fs_wf f \<longleftrightarrow>
     (\<exists>k\<in>{1..<32}. fs_size f = push_bit k 1 \<and> fs_power_of_2_mod f = mask k
        \<and> 2 ^ k \<le> length (fs_buffer f))"

definition fs_cell :: "fifo_steal_buffer \<Rightarrow> nat \<Rightarrow> ptr" where
  "fs_cell f p = fs_buffer f ! (p mod unat (fs_size f))"

definition fs_items :: "fifo_steal_buffer \<Rightarrow> ptr list" where
  "fs_items f = map (fs_cell f) [unat (fs_low f)..<unat (fs_high f)]"

definition fs_ok :: "fifo_steal_buffer \<Rightarrow> bool" where
  [inv_defs]: "fs_ok f \<longleftrightarrow> fs_wf f \<and> unat (fs_low f) \<le> unat (fs_high f)
     \<and> unat (fs_high f) \<le> unat (fs_low f) + unat (fs_size f)"

definition fs_room :: "fifo_steal_buffer \<Rightarrow> nat" where
  "fs_room f = 2 ^ 64 - 1 - unat (fs_high f)"

lemma fs_wfE:
  assumes "fs_wf f"
  obtains k where "1 \<le> k" "k < 32" "unat (fs_size f) = 2 ^ k"
    "fs_power_of_2_mod f = mask k" "2 ^ k \<le> length (fs_buffer f)"
  using assms unat_push_bit_1 unfolding fs_wf_def by (metis atLeastLessThan_iff)

lemma fs_wf_length: "fs_wf f \<Longrightarrow> unat (fs_size f) \<le> length (fs_buffer f)"
  by (metis fs_wfE)

lemma fs_wf_pos: "fs_wf f \<Longrightarrow> 0 < unat (fs_size f)"
  by (metis fs_wfE zero_less_numeral zero_less_power)

lemma fs_index:
  fixes i :: u64
  assumes "fs_wf f"
  shows "unat (i AND ucast (fs_power_of_2_mod f)) = unat i mod unat (fs_size f)"
  using fs_wfE [OF assms] mask_index by metis

lemma fs_mod_less: "fs_wf f \<Longrightarrow> p mod unat (fs_size f) < length (fs_buffer f)"
  using fs_wf_length [of f] fs_wf_pos [of f] by (meson mod_less_divisor less_le_trans)

lemma fs_buf_get:
  "fs_wf f \<Longrightarrow> buf_get (fs_buffer f) (i AND ucast (fs_power_of_2_mod f)) = Some (fs_cell f (unat i))"
  by (simp add: buf_get_def fs_index fs_mod_less fs_cell_def)

lemma fs_buf_set:
  "fs_wf f \<Longrightarrow> buf_set (fs_buffer f) (i AND ucast (fs_power_of_2_mod f)) x =
     Some ((fs_buffer f)[unat i mod unat (fs_size f) := x])"
  by (simp add: buf_set_def fs_index fs_mod_less)

lemma fs_cell_update:
  assumes "fs_wf f"
  shows "fs_cell (f\<lparr>fs_buffer := (fs_buffer f)[p mod unat (fs_size f) := x]\<rparr>) q =
    (if q mod unat (fs_size f) = p mod unat (fs_size f) then x else fs_cell f q)"
  using fs_mod_less [OF assms] by (simp add: fs_cell_def nth_list_update)

lemma fs_fields [simp]:
  "fs_cell (f\<lparr>fs_high := h\<rparr>) p = fs_cell f p"
  "fs_cell (f\<lparr>fs_low := h\<rparr>) p = fs_cell f p"
  "fs_wf (f\<lparr>fs_high := h\<rparr>) = fs_wf f"
  "fs_wf (f\<lparr>fs_low := h\<rparr>) = fs_wf f"
  "fs_wf (f\<lparr>fs_buffer := (fs_buffer f)[i := x]\<rparr>) = fs_wf f"
  by (simp_all add: fs_cell_def fs_wf_def)

lemma length_fs_items [simp]: "length (fs_items f) = unat (fs_high f) - unat (fs_low f)"
  by (simp add: fs_items_def)

section \<open>What each operation does\<close>

lemma fs_room_iff:
  assumes "fs_ok f"
  shows "fs_high f - fs_low f < ucast (fs_size f) \<longleftrightarrow> length (fs_items f) < unat (fs_size f)"
proof -
  have "fs_low f \<le> fs_high f"
    using assms by (simp add: fs_ok_def word_le_nat_alt)
  then show ?thesis
    by (simp add: word_less_nat_alt unat_diff)
qed

lemma fs_push_law:
  assumes ok: "fs_ok f" and room: "0 < fs_room f"
  shows "\<exists>f'. fifo_steal_buffer_push f p =
      Some (if length (fs_items f) < unat (fs_size f) then 1 else 0, f')
    \<and> fs_ok f' \<and> fs_size f' = fs_size f \<and> fs_room f \<le> Suc (fs_room f')
    \<and> fs_items f' = (if length (fs_items f) < unat (fs_size f) then fs_items f @ [p] else fs_items f)"
proof (cases "length (fs_items f) < unat (fs_size f)")
  case False
  with ok show ?thesis
    by (simp add: fifo_steal_buffer_push_def fs_room_iff Let_def)
next
  case True
  let ?n = "unat (fs_size f)" and ?h = "unat (fs_high f)" and ?l = "unat (fs_low f)"
  let ?f = "f\<lparr>fs_buffer := (fs_buffer f)[?h mod ?n := p], fs_high := fs_high f + 1\<rparr>"
  have wf: "fs_wf f" and le: "?l \<le> ?h" "?h \<le> ?l + ?n"
    using ok by (simp_all add: fs_ok_def)
  have h': "unat (fs_high f + 1) = Suc ?h"
    using room by (intro unat_inc [where n = "2 ^ 64 - 1"]) (simp_all add: fs_room_def)
  have cell: "fs_cell ?f q = (if q mod ?n = ?h mod ?n then p else fs_cell f q)" for q
    using fs_cell_update [OF wf] by simp
  have "fs_cell ?f q = fs_cell f q" if "?l \<le> q" "q < ?h" for q
    using cell mod_neq_window [of q ?h ?n] that True le by simp
  then have "fs_items ?f = fs_items f @ [p]"
    using cell [of ?h] le by (simp add: fs_items_def h')
  moreover have "fs_ok ?f"
    using wf le True by (simp add: fs_ok_def h')
  moreover have "fifo_steal_buffer_push f p = Some (1, ?f)"
    using True by (simp add: fifo_steal_buffer_push_def fs_room_iff [OF ok] fs_buf_set [OF wf] Let_def)
  moreover have "fs_room f \<le> Suc (fs_room ?f)"
    by (simp add: fs_room_def h')
  ultimately show ?thesis using True by auto
qed

lemma fs_advance:
  assumes ok: "fs_ok f" and lt: "unat (fs_low f) < unat (fs_high f)"
  shows "fs_ok (f\<lparr>fs_low := fs_low f + 1\<rparr>)"
    and "unat (fs_low f + 1) = Suc (unat (fs_low f))"
    and "fs_items (f\<lparr>fs_low := fs_low f + 1\<rparr>) = tl (fs_items f)"
    and "fs_items f \<noteq> []" and "hd (fs_items f) = fs_cell f (unat (fs_low f))"
proof -
  show l': "unat (fs_low f + 1) = Suc (unat (fs_low f))"
    using lt unat_u64_less [of "fs_high f"] by (intro unat_inc [where n = "unat (fs_high f)"]) simp_all
  show "fs_ok (f\<lparr>fs_low := fs_low f + 1\<rparr>)"
    using ok lt by (simp add: fs_ok_def l')
  have items: "fs_items f = fs_cell f (unat (fs_low f)) # map (fs_cell f) [Suc (unat (fs_low f))..<unat (fs_high f)]"
    using lt by (simp add: fs_items_def upt_conv_Cons)
  then show "fs_items (f\<lparr>fs_low := fs_low f + 1\<rparr>) = tl (fs_items f)"
    by (simp only: list.sel) (simp add: fs_items_def l')
  show "fs_items f \<noteq> []" "hd (fs_items f) = fs_cell f (unat (fs_low f))"
    unfolding items by simp_all
qed

lemma fs_empty_iff: "fs_ok f \<Longrightarrow> fs_high f > fs_low f \<longleftrightarrow> fs_items f \<noteq> []"
  by (auto simp: fs_ok_def fs_items_def word_less_nat_alt)

lemma fs_steal_law:
  assumes ok: "fs_ok f"
  shows "\<exists>f'. fifo_steal_buffer_steal f = Some
      (case fs_items f of [] \<Rightarrow> (FIFO_STEAL_BUFFER_EMPTY, None, f')
        | x # _ \<Rightarrow> (FIFO_STEAL_BUFFER_SUCCESS, Some x, f'))
    \<and> fs_ok f' \<and> fs_size f' = fs_size f \<and> fs_room f' = fs_room f \<and> fs_items f' = tl (fs_items f)"
proof (cases "fs_items f")
  case Nil
  then show ?thesis
    using fs_empty_iff [OF ok] ok by (simp add: fifo_steal_buffer_steal_def Let_def)
next
  case (Cons x xs)
  then have lt: "fs_low f < fs_high f"
    using fs_empty_iff [OF ok] by simp
  have wf: "fs_wf f" using ok by (simp add: fs_ok_def)
  show ?thesis
    using fs_advance [OF ok] lt Cons
    by (auto simp: fifo_steal_buffer_steal_def Let_def fs_buf_get [OF wf] fs_room_def
        sync_bool_compare_and_swap_def word_less_nat_alt)
qed

lemma fs_pop_law:
  assumes ok: "fs_ok f"
  shows "\<exists>f'. fifo_steal_buffer_pop f = Some
      (if 2 \<le> length (fs_items f) then (1, Some (hd (fs_items f)), f') else (0, None, f'))
    \<and> fs_ok f' \<and> fs_size f' = fs_size f \<and> fs_room f' = fs_room f \<and> fs_items f' = tl (fs_items f)"
proof (cases "fs_items f")
  case Nil
  then show ?thesis
    using fs_empty_iff [OF ok] ok by (simp add: fifo_steal_buffer_pop_def Let_def)
next
  case (Cons x xs)
  then have lt: "fs_low f < fs_high f"
    using fs_empty_iff [OF ok] by simp
  then have lt': "unat (fs_low f) < unat (fs_high f)"
    by (simp add: word_less_nat_alt)
  note adv = fs_advance [OF ok lt']
  have wf: "fs_wf f" using ok by (simp add: fs_ok_def)
  have last: "fs_high f \<le> fs_low f + 1 \<longleftrightarrow> length (fs_items f) < 2"
    using lt' by (simp add: word_le_nat_alt adv(2)) linarith
  show ?thesis
  proof (cases "2 \<le> length (fs_items f)")
    case True
    with last have "\<not> fs_high f \<le> fs_low f + 1" by simp
    with lt True adv show ?thesis
      by (simp add: fifo_steal_buffer_pop_def sync_add_and_fetch_def Let_def fs_buf_get [OF wf]
          fs_room_def del: length_fs_items)
  next
    case False
    with last have h: "fs_high f \<le> fs_low f + 1" by simp
    with lt have "fs_high f = fs_low f + 1"
      using adv(2) lt' by (simp add: word_le_nat_alt word_unat_eq_iff)
    with lt False h adv show ?thesis
      by (simp add: fifo_steal_buffer_pop_def sync_add_and_fetch_def Let_def fs_room_def
          del: length_fs_items)
  qed
qed

text \<open>The push and the steal are the operations of a bounded queue; the pop is not one.\<close>

definition fs_push_op :: "fifo_steal_buffer \<Rightarrow> ptr \<Rightarrow> (bool \<times> fifo_steal_buffer) option" where
  "fs_push_op f p = map_option (\<lambda>(r, f'). (r \<noteq> 0, f')) (fifo_steal_buffer_push f p)"

definition fs_steal_op :: "fifo_steal_buffer \<Rightarrow> (ptr option \<times> fifo_steal_buffer) option" where
  "fs_steal_op f = map_option
     (\<lambda>(r, out, f'). (if r = FIFO_STEAL_BUFFER_SUCCESS then out else None, f'))
     (fifo_steal_buffer_steal f)"

interpretation fs: bounded_fifo fs_ok fs_items "\<lambda>f. unat (fs_size f)" fs_room "\<lambda>_. True"
  fs_push_op fs_steal_op
proof (unfold_locales, goal_cases)
  case (1 s x)
  then show ?case
    using fs_push_law [of s x] by (auto simp: fs_push_op_def split: if_splits)
next
  case (2 s)
  then obtain f' where f': "fifo_steal_buffer_steal s = Some
      (case fs_items s of [] \<Rightarrow> (FIFO_STEAL_BUFFER_EMPTY, None, f')
        | x # _ \<Rightarrow> (FIFO_STEAL_BUFFER_SUCCESS, Some x, f'))"
      "fs_ok f'" "fs_size f' = fs_size s" "fs_room f' = fs_room s" "fs_items f' = tl (fs_items s)"
    using fs_steal_law [of s] by blast
  then show ?case
    by (intro exI [of _ f']) (simp add: fs_steal_op_def fs_result_defs split: list.splits)
qed

section \<open>Creation\<close>

lemma required_size:
  assumes "k < 32"
  shows "unat (ucast (24 + ucast (push_bit k 1 :: u32) * 8 :: u64) :: u32) = (24 + 2 ^ k * 8) mod 2 ^ 32"
proof -
  have "(2::nat) ^ k \<le> 2 ^ 31"
    using assms by (intro power_increasing) simp_all
  then have "unat (24 + ucast (push_bit k 1 :: u32) * 8 :: u64) = 24 + 2 ^ k * 8"
    using unat_push_bit_1 [OF assms] by (simp add: unat_word_ariths del: push_bit_of_1)
  then show ?thesis
    by (simp only: unsigned_ucast_eq) (simp add: take_bit_eq_mod)
qed

lemma fifo_steal_buffer_cells_eq:
  assumes "k \<noteq> 0" and "k < 32"
  shows "fifo_steal_buffer_cells k = (if unat k \<le> 28 then 2 ^ unat k else 0)"
proof -
  have k: "unat k < 32"
    using assms by (simp add: word_less_nat_alt)
  have "(24 + 2 ^ unat k * 8) mod 2 ^ 32 = (if unat k \<le> 28 then 24 + 2 ^ unat k * 8 else (24 :: nat))"
  proof (cases "unat k \<le> 28")
    case True
    then have "(2::nat) ^ unat k \<le> 2 ^ 28"
      by (intro power_increasing) simp_all
    with True show ?thesis by simp
  next
    case False
    with k have "unat k \<in> {29, 30, 31}" by auto
    then show ?thesis by auto
  qed
  then show ?thesis
    using required_size [OF k] by (simp add: fifo_steal_buffer_cells_def Let_def del: push_bit_of_1)
qed

lemma init_wf:
  assumes "k \<noteq> 0" and "k < 32" and "2 ^ unat k \<le> length (fs_buffer f)"
    and "fifo_steal_buffer_init f k = Some f'"
  shows "fs_ok f' \<and> fs_items f' = [] \<and> unat (fs_size f') = 2 ^ unat k \<and> fs_room f' = 2 ^ 64 - 1
    \<and> fs_buffer f' = fs_buffer f \<and> fs_high f' = 0 \<and> fs_low f' = 0"
proof -
  have f': "f' = f\<lparr>fs_high := 0, fs_low := 0, fs_size := push_bit (unat k) 1,
      fs_power_of_2_mod := push_bit (unat k) 1 - 1\<rparr>"
    using assms by (simp add: fifo_steal_buffer_init_def split: if_splits)
  have kb: "1 \<le> unat k" "unat k < 32"
    using assms(1,2) unat_gt_0 [of k] by (auto simp: word_less_nat_alt Suc_le_eq)
  then have "fs_wf f'"
    using assms(3) by (auto simp: fs_wf_def f' mask_eq_exp_minus_1 intro!: bexI [of _ "unat k"])
  then show ?thesis
    using unat_push_bit_1 [OF kb(2)] by (auto simp: fs_ok_def fs_items_def fs_room_def f')
qed

lemma create_ok:
  assumes "k \<noteq> 0" and "unat k \<le> 28" and "malloc (2 ^ unat k) = Some b" and "length b = 2 ^ unat k"
  shows "\<exists>f. fifo_steal_buffer_create malloc k = Some (Some f)
    \<and> fs_ok f \<and> fs_items f = [] \<and> unat (fs_size f) = 2 ^ unat k \<and> fs_room f = 2 ^ 64 - 1"
proof -
  have k: "k < 32"
    using assms(2) by (simp add: word_less_nat_alt)
  let ?f = "\<lparr>fs_high = 0, fs_low = 0, fs_size = 0, fs_power_of_2_mod = 0, fs_buffer = b\<rparr>"
  obtain f where "fifo_steal_buffer_init ?f k = Some f"
    using assms(1) k by (simp add: fifo_steal_buffer_init_def)
  moreover from init_wf [OF assms(1) k _ this] assms(4) have "fs_ok f \<and> fs_items f = []
      \<and> unat (fs_size f) = 2 ^ unat k \<and> fs_room f = 2 ^ 64 - 1" by simp
  moreover have "fifo_steal_buffer_cells k = 2 ^ unat k"
    using fifo_steal_buffer_cells_eq [OF assms(1) k] assms(2) by simp
  ultimately show ?thesis
    using assms k by (simp add: fifo_steal_buffer_create_def)
qed

section \<open>Properties\<close>

text \<open>
  From a successful creation with a \<open>power_of_2_size\<close> of at most 28, every history of
  pushes and steals without interference returns what a queue of \<open>2 ^ power_of_2_size\<close> items
  returns, and no access leaves the buffer.
\<close>

theorem fifo_steal_history:
  assumes "k \<noteq> 0" and "unat k \<le> 28" and "malloc (2 ^ unat k) = Some b"
    and "length b = 2 ^ unat k" and "length ops < 2 ^ 64"
  shows "\<exists>f f'. fifo_steal_buffer_create malloc k = Some (Some f)
    \<and> run_fifo fs_push_op fs_steal_op f ops = Some (fst (spec_fifo (2 ^ unat k) [] ops), f')
    \<and> fs_items f' = snd (spec_fifo (2 ^ unat k) [] ops)"
proof -
  obtain f where f: "fifo_steal_buffer_create malloc k = Some (Some f)" "fs_ok f" "fs_items f = []"
      "unat (fs_size f) = 2 ^ unat k" "fs_room f = 2 ^ 64 - 1"
    using create_ok [of k malloc b] assms by blast
  have "legal_ops (\<lambda>_. True) ops"
    by (simp add: legal_ops_def list_all_iff split: fifo_op.split)
  then show ?thesis
    using fs.run_refines [OF f(2)] f assms(5) by fastforce
qed

theorem fifo_steal_history_witness:
  "\<exists>f f'. fifo_steal_buffer_create (\<lambda>n. Some (replicate n 99)) 1 = Some (Some f)
    \<and> run_fifo fs_push_op fs_steal_op f [Push 7, Push 8, Push 9, Pop, Pop, Pop] =
      Some ([Pushed True, Pushed True, Pushed False, Popped (Some 7), Popped (Some 8), Popped None], f')"
proof -
  let ?ops = "[Push 7, Push 8, Push 9, Pop, Pop, Pop] :: ptr fifo_op list"
  have "spec_fifo (2 ^ unat (1 :: u32)) [] ?ops =
      ([Pushed True, Pushed True, Pushed False, Popped (Some 7), Popped (Some 8), Popped None], [])"
    by simp
  moreover have "\<exists>f f'. fifo_steal_buffer_create (\<lambda>n. Some (replicate n 99)) 1 = Some (Some f)
      \<and> run_fifo fs_push_op fs_steal_op f ?ops = Some (fst (spec_fifo (2 ^ unat (1 :: u32)) [] ?ops), f')
      \<and> fs_items f' = snd (spec_fifo (2 ^ unat (1 :: u32)) [] ?ops)"
    by (rule fifo_steal_history [where b = "replicate (2 ^ unat (1 :: u32)) 99"]) simp_all
  ultimately show ?thesis
    by (simp only: fst_conv) blast
qed

text \<open>
  What the master's \<open>pop\<close> does, on every state between calls: with two items or more it
  returns the oldest; with exactly one item it removes the item and still answers 0, writing
  nothing to \<open>*out\<close>, because it takes \<open>new_low = high\<close> for another thread's steal. That item
  is lost.
\<close>

theorem fifo_steal_pop_correct:
  assumes "fs_ok f"
  shows "\<exists>f'. fifo_steal_buffer_pop f = Some
      (if 2 \<le> length (fs_items f) then (1, Some (hd (fs_items f)), f') else (0, None, f'))
    \<and> fs_ok f' \<and> fs_items f' = tl (fs_items f)"
  using fs_pop_law [OF assms] by blast

definition fs_demo :: "ptr list \<Rightarrow> fifo_steal_buffer" where
  "fs_demo xs = \<lparr>fs_high = word_of_nat (length xs), fs_low = 0, fs_size = 2, fs_power_of_2_mod = 1,
     fs_buffer = xs @ replicate (2 - length xs) 0\<rparr>"

lemma fs_demo_ok: "fs_ok (fs_demo [7])" "fs_items (fs_demo [7]) = [7]"
  "fs_ok (fs_demo [7, 8])" "fs_items (fs_demo [7, 8]) = [7, 8]"
proof -
  have "fs_wf (fs_demo [7])" and "fs_wf (fs_demo [7, 8])"
    by (auto simp: fs_wf_def fs_demo_def mask_eq_exp_minus_1 intro!: bexI [of _ 1])
  then show "fs_ok (fs_demo [7])" "fs_ok (fs_demo [7, 8])"
    by (simp_all add: fs_ok_def fs_demo_def)
  show "fs_items (fs_demo [7]) = [7]" "fs_items (fs_demo [7, 8]) = [7, 8]"
    by code_simp+
qed

theorem fifo_steal_pop_correct_witness:
  "\<exists>f'. fifo_steal_buffer_pop (fs_demo [7]) = Some (0, None, f') \<and> fs_items f' = []"
  using fifo_steal_pop_correct [OF fs_demo_ok(1)] fs_demo_ok(2) by auto

text \<open>
  For a \<open>power_of_2_size\<close> of 29, 30 or 31, which the assertion admits, the size of the
  allocation is cut to 32 bits and comes out as the header's 24 bytes: the buffer has no cell
  and the first push writes outside the allocation.
\<close>

theorem fifo_steal_create_truncates:
  assumes "29 \<le> unat k" and "k < 32" and "malloc 0 = Some []"
  shows "\<exists>f. fifo_steal_buffer_create malloc k = Some (Some f) \<and> fifo_steal_buffer_push f p = None"
proof -
  have k: "k \<noteq> 0" "unat k < 32"
    using assms(1,2) by (auto simp: word_less_nat_alt)
  have cells: "fifo_steal_buffer_cells k = 0"
    using fifo_steal_buffer_cells_eq [OF k(1) assms(2)] assms(1) by simp
  have pos: "0 < (ucast (push_bit (unat k) 1 :: u32) :: u64)"
    using unat_push_bit_1 [OF k(2)] by (simp add: word_less_nat_alt)
  then show ?thesis
    using k(1) assms(2,3) cells
    by (simp add: fifo_steal_buffer_create_def fifo_steal_buffer_init_def fifo_steal_buffer_push_def
        buf_set_def Let_def)
qed

theorem fifo_steal_create_truncates_witness:
  "\<exists>f. fifo_steal_buffer_create (\<lambda>n. Some (replicate n 99)) 29 = Some (Some f)
    \<and> fifo_steal_buffer_push f 7 = None"
  by (rule fifo_steal_create_truncates) simp_all

end
