(* ===== verification/Fifo_Steal_Conc.thy ===== *)
theory Fifo_Steal_Conc
  imports Fifo_Steal "HOL-Library.Sublist"
begin

text \<open>
  \<open>fifo_steal_buffer.h\<close> under one master thread and any number of thieves: the operations
  cut at each access to the shared struct. Beside the program's state the system keeps, in the
  order in which the items left the queue, what became of each, and the values the master's
  \<open>pop\<close> has returned.
\<close>

section \<open>The threads' steps\<close>

datatype fs_master =
    M_idle
  | M_push_high ptr              \<comment> \<open>about to read \<open>high\<close>\<close>
  | M_push_low ptr u64           \<comment> \<open>has \<open>high\<close>, about to read \<open>low\<close> and test for room\<close>
  | M_push_store ptr u64         \<comment> \<open>about to write the cell\<close>
  | M_push_publish ptr u64       \<comment> \<open>about to write \<open>high\<close>\<close>
  | M_pop_high                   \<comment> \<open>about to read \<open>high\<close>\<close>
  | M_pop_low u64                \<comment> \<open>has \<open>high\<close>, about to read and test \<open>low\<close>\<close>
  | M_pop_add u64                \<comment> \<open>about to add 1 to \<open>low\<close>\<close>
  | M_pop_reset u64              \<comment> \<open>\<open>new_low >= high\<close>: about to write \<open>low = high\<close>\<close>
  | M_pop_read u64               \<comment> \<open>has \<open>new_low\<close>, about to read the cell\<close>

datatype fs_thief =
    T_idle
  | T_high                       \<comment> \<open>about to read \<open>high\<close>\<close>
  | T_low u64                    \<comment> \<open>has \<open>high\<close>, about to read and test \<open>low\<close>\<close>
  | T_read u64                   \<comment> \<open>has \<open>low\<close>, about to read the cell\<close>
  | T_cas u64 ptr                \<comment> \<open>has the value, about to compare-and-swap \<open>low\<close>\<close>

datatype fate = Popped_by_master | Stolen_by tid | Dropped

record fs_sys =
  fq_f :: fifo_steal_buffer
  fq_master :: fs_master
  fq_thief :: "tid \<Rightarrow> fs_thief"
  fq_pushed :: "ptr list"
  fq_log :: "(fate \<times> ptr) list"
  fq_popped :: "ptr list"

definition fs_init :: "u32 \<Rightarrow> fs_sys \<Rightarrow> bool" where
  "fs_init k s \<longleftrightarrow>
     (\<exists>f. 2 ^ unat k \<le> length (fs_buffer f) \<and> fifo_steal_buffer_init f k = Some (fq_f s))
     \<and> fq_master s = M_idle \<and> fq_thief s = (\<lambda>_. T_idle)
     \<and> fq_pushed s = [] \<and> fq_log s = [] \<and> fq_popped s = []"

abbreviation fs_idx :: "fs_sys \<Rightarrow> u64 \<Rightarrow> u64" where
  "fs_idx s i \<equiv> i AND ucast (fs_power_of_2_mod (fq_f s))"

abbreviation thief_goto :: "fs_sys \<Rightarrow> tid \<Rightarrow> fs_thief \<Rightarrow> fs_sys" where
  "thief_goto s t c \<equiv> s\<lparr>fq_thief := (fq_thief s)(t := c)\<rparr>"

text \<open>
  The master's \<open>__sync_add_and_fetch\<close> takes the oldest item, if there is one; the log records
  its fate there, by the test the code makes next.
\<close>

definition pop_log :: "fs_sys \<Rightarrow> u64 \<Rightarrow> u64 \<Rightarrow> (fate \<times> ptr) list" where
  "pop_log s high new_low =
     (if length (fq_log s) < length (fq_pushed s)
      then [(if new_low \<ge> high then Dropped else Popped_by_master,
             fq_pushed s ! length (fq_log s))]
      else [])"

inductive fs_step :: "fs_sys \<Rightarrow> fs_sys \<Rightarrow> bool" where
  push_call: "fq_master s = M_idle \<Longrightarrow> fs_step s (s\<lparr>fq_master := M_push_high data\<rparr>)"
| push_high: "fq_master s = M_push_high data \<Longrightarrow>
    fs_step s (s\<lparr>fq_master := M_push_low data (fs_high (fq_f s))\<rparr>)"
| push_low: "fq_master s = M_push_low data high \<Longrightarrow>
    fs_step s (s\<lparr>fq_master :=
      (if high - fs_low (fq_f s) < ucast (fs_size (fq_f s)) then M_push_store data high
       else M_idle)\<rparr>)"
| push_store: "fq_master s = M_push_store data high \<Longrightarrow>
    buf_set (fs_buffer (fq_f s)) (fs_idx s high) data = Some b \<Longrightarrow>
    fs_step s (s\<lparr>fq_f := (fq_f s)\<lparr>fs_buffer := b\<rparr>, fq_master := M_push_publish data high\<rparr>)"
| push_publish: "fq_master s = M_push_publish data high \<Longrightarrow>
    fs_step s (s\<lparr>fq_f := (fq_f s)\<lparr>fs_high := high + 1\<rparr>, fq_master := M_idle,
      fq_pushed := fq_pushed s @ [data]\<rparr>)"
| pop_call: "fq_master s = M_idle \<Longrightarrow> fs_step s (s\<lparr>fq_master := M_pop_high\<rparr>)"
| pop_high: "fq_master s = M_pop_high \<Longrightarrow>
    fs_step s (s\<lparr>fq_master := M_pop_low (fs_high (fq_f s))\<rparr>)"
| pop_low: "fq_master s = M_pop_low high \<Longrightarrow>
    fs_step s (s\<lparr>fq_master := (if high > fs_low (fq_f s) then M_pop_add high else M_idle)\<rparr>)"
| pop_add: "fq_master s = M_pop_add high \<Longrightarrow>
    sync_add_and_fetch (fs_low (fq_f s)) 1 = (new_low, low') \<Longrightarrow>
    fs_step s (s\<lparr>fq_f := (fq_f s)\<lparr>fs_low := low'\<rparr>,
      fq_master := (if new_low \<ge> high then M_pop_reset high else M_pop_read new_low),
      fq_log := fq_log s @ pop_log s high new_low\<rparr>)"
| pop_reset: "fq_master s = M_pop_reset high \<Longrightarrow>
    fs_step s (s\<lparr>fq_f := (fq_f s)\<lparr>fs_low := high\<rparr>, fq_master := M_idle\<rparr>)"
| pop_read: "fq_master s = M_pop_read new_low \<Longrightarrow>
    buf_get (fs_buffer (fq_f s)) (fs_idx s (new_low - 1)) = Some v \<Longrightarrow>
    fs_step s (s\<lparr>fq_master := M_idle, fq_popped := fq_popped s @ [v]\<rparr>)"
| steal_call: "fq_thief s t = T_idle \<Longrightarrow> fs_step s (thief_goto s t T_high)"
| steal_high: "fq_thief s t = T_high \<Longrightarrow>
    fs_step s (thief_goto s t (T_low (fs_high (fq_f s))))"
| steal_low: "fq_thief s t = T_low high \<Longrightarrow>
    fs_step s (thief_goto s t
      (if high > fs_low (fq_f s) then T_read (fs_low (fq_f s)) else T_idle))"
| steal_read: "fq_thief s t = T_read low \<Longrightarrow>
    buf_get (fs_buffer (fq_f s)) (fs_idx s low) = Some v \<Longrightarrow>
    fs_step s (thief_goto s t (T_cas low v))"
| steal_won: "fq_thief s t = T_cas low v \<Longrightarrow>
    sync_bool_compare_and_swap (fs_low (fq_f s)) low (low + 1) = (True, low') \<Longrightarrow>
    fs_step s (thief_goto s t T_idle
      \<lparr>fq_f := (fq_f s)\<lparr>fs_low := low'\<rparr>, fq_log := fq_log s @ [(Stolen_by t, v)]\<rparr>)"
| steal_lost: "fq_thief s t = T_cas low v \<Longrightarrow>
    sync_bool_compare_and_swap (fs_low (fq_f s)) low (low + 1) = (False, low') \<Longrightarrow>
    fs_step s (thief_goto s t T_idle)"

section \<open>The invariant\<close>

abbreviation fq_H :: "fs_sys \<Rightarrow> nat" where "fq_H s \<equiv> length (fq_pushed s)"
abbreviation fq_L :: "fs_sys \<Rightarrow> nat" where "fq_L s \<equiv> length (fq_log s)"
abbreviation fq_n :: "fs_sys \<Rightarrow> nat" where "fq_n s \<equiv> unat (fs_size (fq_f s))"

fun master_ok :: "fs_sys \<Rightarrow> fs_master \<Rightarrow> bool" where
  "master_ok s (M_push_low data high) \<longleftrightarrow> unat high = fq_H s"
| "master_ok s (M_push_store data high) \<longleftrightarrow> unat high = fq_H s \<and> fq_H s < fq_L s + fq_n s"
| "master_ok s (M_push_publish data high) \<longleftrightarrow>
     unat high = fq_H s \<and> fq_H s < fq_L s + fq_n s \<and> fs_cell (fq_f s) (fq_H s) = data"
| "master_ok s (M_pop_low high) \<longleftrightarrow> unat high = fq_H s"
| "master_ok s (M_pop_add high) \<longleftrightarrow> unat high = fq_H s"
| "master_ok s (M_pop_reset high) \<longleftrightarrow> unat high = fq_H s \<and> fq_L s = fq_H s"
| "master_ok s (M_pop_read new_low) \<longleftrightarrow>
     0 < unat new_low \<and> unat new_low \<le> fq_L s \<and> fq_H s < unat new_low + fq_n s"
| "master_ok s _ \<longleftrightarrow> True"

text \<open>Only while the master is about to reset it may \<open>low\<close> stand above the items taken.\<close>

definition low_ok :: "fs_sys \<Rightarrow> bool" where
  "low_ok s \<longleftrightarrow>
     (case fq_master s of
        M_pop_reset high \<Rightarrow> unat (fs_low (fq_f s)) \<in> {fq_H s, Suc (fq_H s)}
      | _ \<Rightarrow> unat (fs_low (fq_f s)) = fq_L s)"

text \<open>The position whose old contents the master has overwritten without publishing it.\<close>

fun publishing :: "fs_master \<Rightarrow> bool" where
  "publishing (M_push_publish data high) = True"
| "publishing _ = False"

fun thief_ok :: "fs_sys \<Rightarrow> fs_thief \<Rightarrow> bool" where
  "thief_ok s (T_low high) \<longleftrightarrow> unat high \<le> fq_H s"
| "thief_ok s (T_read low) \<longleftrightarrow> unat low \<le> fq_L s \<and> unat low < fq_H s"
| "thief_ok s (T_cas low v) \<longleftrightarrow> unat low \<le> fq_L s \<and> unat low < fq_H s
     \<and> (unat low = fq_L s \<longrightarrow> v = fq_pushed s ! unat low)"
| "thief_ok s _ \<longleftrightarrow> True"

text \<open>What the master has returned, against the log; mid-read it lags by one.\<close>

definition popped_ok :: "fs_sys \<Rightarrow> bool" where
  "popped_ok s \<longleftrightarrow>
     (let ps = map snd (filter (\<lambda>(f, _). f = Popped_by_master) (fq_log s))
      in case fq_master s of
           M_pop_read new_low \<Rightarrow> ps = fq_popped s @ [fq_pushed s ! (unat new_low - 1)]
         | _ \<Rightarrow> ps = fq_popped s)"

lemma popped_prefix:
  "popped_ok s \<Longrightarrow> prefix (fq_popped s) (map snd (filter (\<lambda>(f, _). f = Popped_by_master) (fq_log s)))"
  by (cases "fq_master s") (simp_all add: popped_ok_def)

definition fs_inv :: "fs_sys \<Rightarrow> bool" where
  [inv_defs]: "fs_inv s \<longleftrightarrow> fs_wf (fq_f s)
     \<and> unat (fs_high (fq_f s)) = fq_H s
     \<and> fq_L s \<le> fq_H s \<and> fq_H s \<le> fq_L s + fq_n s
     \<and> low_ok s \<and> master_ok s (fq_master s) \<and> (\<forall>t. thief_ok s (fq_thief s t))
     \<and> map snd (fq_log s) = take (fq_L s) (fq_pushed s)
     \<and> popped_ok s
     \<and> (\<forall>p. p < fq_H s \<and> fq_H s \<le> p + fq_n s \<and> (publishing (fq_master s) \<longrightarrow> p + fq_n s \<noteq> fq_H s)
          \<longrightarrow> fs_cell (fq_f s) p = fq_pushed s ! p)"

definition fs_bound :: "fs_sys \<Rightarrow> bool" where
  "fs_bound s \<longleftrightarrow> fq_H s < 2 ^ 64 - 1"

section \<open>Every step keeps it\<close>

lemma fs_invD:
  assumes "fs_inv s"
  shows "fs_wf (fq_f s)" "unat (fs_high (fq_f s)) = fq_H s" "fq_L s \<le> fq_H s"
    "fq_H s \<le> fq_L s + fq_n s" "low_ok s" "master_ok s (fq_master s)" "thief_ok s (fq_thief s t)"
    "map snd (fq_log s) = take (fq_L s) (fq_pushed s)" "popped_ok s"
  using assms by (simp_all add: fs_inv_def)

lemma fs_inv_cell:
  "fs_inv s \<Longrightarrow> p < fq_H s \<Longrightarrow> fq_H s \<le> p + fq_n s \<Longrightarrow>
     publishing (fq_master s) \<longrightarrow> p + fq_n s \<noteq> fq_H s \<Longrightarrow> fs_cell (fq_f s) p = fq_pushed s ! p"
  by (simp add: fs_inv_def)

lemma fs_inv_thief:
  assumes inv: "fs_inv s" and ok: "thief_ok s c"
  shows "fs_inv (thief_goto s t c)"
proof -
  have m: "master_ok (thief_goto s t c) d = master_ok s d" for d
    by (cases d) simp_all
  have th: "thief_ok (thief_goto s t c) d = thief_ok s d" for d
    by (cases d) simp_all
  have "low_ok (thief_goto s t c) = low_ok s" "popped_ok (thief_goto s t c) = popped_ok s"
    by (simp_all add: low_ok_def popped_ok_def Let_def split: fs_master.split)
  then show ?thesis
    using inv ok by (simp add: fs_inv_def m th)
qed

text \<open>Master steps between program counters that make no exception in the invariant.\<close>

fun plain :: "fs_master \<Rightarrow> bool" where
  "plain (M_push_publish data high) = False"
| "plain (M_pop_reset high) = False"
| "plain (M_pop_read new_low) = False"
| "plain _ = True"

lemma plain_simps:
  assumes "plain (fq_master s)"
  shows "low_ok s \<longleftrightarrow> unat (fs_low (fq_f s)) = fq_L s"
    and "popped_ok s \<longleftrightarrow> map snd (filter (\<lambda>(f, _). f = Popped_by_master) (fq_log s)) = fq_popped s"
    and "\<not> publishing (fq_master s)"
  using assms by (cases "fq_master s"; simp add: low_ok_def popped_ok_def)+

lemma fs_inv_master:
  assumes inv: "fs_inv s" and plain: "plain (fq_master s)" "plain c" and ok: "master_ok s c"
  shows "fs_inv (s\<lparr>fq_master := c\<rparr>)"
proof -
  have m: "master_ok (s\<lparr>fq_master := c\<rparr>) d = master_ok s d" for d
    by (cases d) simp_all
  have th: "thief_ok (s\<lparr>fq_master := c\<rparr>) d = thief_ok s d" for d
    by (cases d) simp_all
  have "plain (fq_master (s\<lparr>fq_master := c\<rparr>))"
    using plain by simp
  from plain_simps [OF this] plain_simps [OF plain(1)] show ?thesis
    using inv ok by (simp add: fs_inv_def m th)
qed

lemma fs_inv_low:
  "fs_inv s \<Longrightarrow> plain (fq_master s) \<Longrightarrow> unat (fs_low (fq_f s)) = fq_L s"
  using fs_invD(5) plain_simps(1) by blast

lemma fs_inv_push_low:
  assumes inv: "fs_inv s" and pc: "fq_master s = M_push_low data high"
    and room: "high - fs_low (fq_f s) < ucast (fs_size (fq_f s))"
  shows "master_ok s (M_push_store data high)"
proof -
  have h: "unat high = fq_H s" and l: "unat (fs_low (fq_f s)) = fq_L s"
    using fs_invD(6) [OF inv] fs_inv_low [OF inv] pc by simp_all
  then have "fs_low (fq_f s) \<le> high"
    using fs_invD(3) [OF inv] by (simp add: word_le_nat_alt)
  with room h l show ?thesis
    using fs_invD(3) [OF inv] by (simp add: word_less_nat_alt unat_diff less_diff_conv2 add.commute)
qed

lemma fs_inv_push_store:
  assumes inv: "fs_inv s" and pc: "fq_master s = M_push_store data high"
  shows "fs_inv (s\<lparr>fq_f := (fq_f s)\<lparr>fs_buffer := (fs_buffer (fq_f s))[unat high mod fq_n s := data]\<rparr>,
    fq_master := M_push_publish data high\<rparr>)" (is "fs_inv ?s")
proof -
  note D = fs_invD [OF inv]
  have h: "unat high = fq_H s" "fq_H s < fq_L s + fq_n s"
    using D(6) pc by simp_all
  have plain: "plain (fq_master s)" using pc by simp
  have cell: "fs_cell (fq_f ?s) q = (if q mod fq_n s = fq_H s mod fq_n s then data else fs_cell (fq_f s) q)" for q
    using fs_cell_update [OF D(1)] h by simp
  have old: "fs_cell (fq_f ?s) q = fq_pushed s ! q" if "q < fq_H s" "fq_H s < q + fq_n s" for q
    using fs_inv_cell [OF inv, of q] plain_simps(3) [OF plain] cell mod_neq_window [of q "fq_H s"] that
    by simp
  have th: "thief_ok ?s (fq_thief s u)" for u
    using D(7) [of u] by (cases "fq_thief s u") simp_all
  have "low_ok ?s" "popped_ok ?s"
    using D(5,9) plain_simps [OF plain] by (simp_all add: low_ok_def popped_ok_def)
  then show ?thesis
    unfolding fs_inv_def using D(1-4,8) h old cell [of "fq_H s"] th by auto
qed

lemma fs_inv_push_publish:
  assumes inv: "fs_inv s" and pc: "fq_master s = M_push_publish data high"
    and bound: "Suc (fq_H s) < 2 ^ 64 - 1"
  shows "fs_inv (s\<lparr>fq_f := (fq_f s)\<lparr>fs_high := high + 1\<rparr>, fq_master := M_idle,
    fq_pushed := fq_pushed s @ [data]\<rparr>)" (is "fs_inv ?s")
proof -
  note D = fs_invD [OF inv]
  have h: "unat high = fq_H s" "fq_H s < fq_L s + fq_n s" "fs_cell (fq_f s) (fq_H s) = data"
    using D(6) pc by simp_all
  have h': "unat (high + 1) = Suc (fq_H s)"
    using bound h(1) by (simp add: unat_inc [where n = "2 ^ 64 - 1"])
  have th: "thief_ok ?s d" if "thief_ok s d" for d
    using that D(3) by (cases d) (auto simp: nth_append)
  have "low_ok ?s" "popped_ok ?s"
    using D(5,9) pc by (simp_all add: low_ok_def popped_ok_def)
  moreover have "fs_cell (fq_f s) q = (fq_pushed s @ [data]) ! q"
    if "q < Suc (fq_H s)" "Suc (fq_H s) \<le> q + fq_n s" for q
    using fs_inv_cell [OF inv, of q] h(3) that by (cases "q = fq_H s") (auto simp: nth_append)
  ultimately show ?thesis
    using D h h' th by (simp add: fs_inv_def)
qed

lemma fs_inv_pop_add:
  assumes inv: "fs_inv s" and pc: "fq_master s = M_pop_add high" and bound: "fq_H s < 2 ^ 64 - 1"
  shows "fs_inv (s\<lparr>fq_f := (fq_f s)\<lparr>fs_low := fs_low (fq_f s) + 1\<rparr>,
      fq_master := (if fs_low (fq_f s) + 1 \<ge> high then M_pop_reset high
        else M_pop_read (fs_low (fq_f s) + 1)),
      fq_log := fq_log s @ pop_log s high (fs_low (fq_f s) + 1)\<rparr>)" (is "fs_inv ?s")
proof -
  note D = fs_invD [OF inv]
  have plain: "plain (fq_master s)" using pc by simp
  have h: "unat high = fq_H s" and l: "unat (fs_low (fq_f s)) = fq_L s"
    using D(6) fs_inv_low [OF inv plain] pc by simp_all
  have l': "unat (fs_low (fq_f s) + 1) = Suc (fq_L s)"
    using bound l D(3) by (simp add: unat_inc [where n = "2 ^ 64 - 1"])
  have test: "fs_low (fq_f s) + 1 \<ge> high \<longleftrightarrow> fq_H s \<le> Suc (fq_L s)"
    by (simp add: word_le_nat_alt h l')
  have popped: "map snd (filter (\<lambda>(f, _). f = Popped_by_master) (fq_log s)) = fq_popped s"
    using D(9) plain_simps(2) [OF plain] by simp
  have take: "map snd (fq_log s) @ [fq_pushed s ! fq_L s] = take (Suc (fq_L s)) (fq_pushed s)"
    if "fq_L s < fq_H s"
    using D(8) that by (simp add: take_Suc_conv_app_nth)
  have th: "thief_ok ?s (fq_thief s u)" for u
    using D(7) [of u] D(3) by (cases "fq_thief s u") (auto simp: pop_log_def)
  have cells: "fs_cell (fq_f s) p = fq_pushed s ! p" if "p < fq_H s" "fq_H s \<le> p + fq_n s" for p
    using fs_inv_cell [OF inv that] plain_simps(3) [OF plain] by simp
  show ?thesis
  proof (cases "fq_L s < fq_H s")
    case True
    then show ?thesis
      unfolding fs_inv_def
      using D(1-4) h l' test popped take th cells
      by (simp add: low_ok_def popped_ok_def pop_log_def)
  next
    case False
    then show ?thesis
      unfolding fs_inv_def
      using D(1-4,8) h l' test popped th cells
      by (simp add: low_ok_def popped_ok_def pop_log_def)
  qed
qed

lemma fs_inv_pop_reset:
  assumes inv: "fs_inv s" and pc: "fq_master s = M_pop_reset high"
  shows "fs_inv (s\<lparr>fq_f := (fq_f s)\<lparr>fs_low := high\<rparr>, fq_master := M_idle\<rparr>)" (is "fs_inv ?s")
proof -
  note D = fs_invD [OF inv]
  have th: "thief_ok ?s (fq_thief s u)" for u
    using D(7) [of u] by (cases "fq_thief s u") simp_all
  have cells: "fs_cell (fq_f s) p = fq_pushed s ! p" if "p < fq_H s" "fq_H s \<le> p + fq_n s" for p
    using fs_inv_cell [OF inv that] pc by simp
  show ?thesis
    unfolding fs_inv_def
    using D(1-4,6,8,9) pc th cells by (simp add: low_ok_def popped_ok_def)
qed

lemma fs_inv_pop_read:
  assumes inv: "fs_inv s" and pc: "fq_master s = M_pop_read new_low"
  shows "fs_inv (s\<lparr>fq_master := M_idle,
      fq_popped := fq_popped s @ [fs_cell (fq_f s) (unat (new_low - 1))]\<rparr>)" (is "fs_inv ?s")
proof -
  note D = fs_invD [OF inv]
  have n: "0 < unat new_low" "unat new_low \<le> fq_L s" "fq_H s < unat new_low + fq_n s"
    using D(6) pc by simp_all
  have n': "unat (new_low - 1) = unat new_low - 1"
    using n(1) by (intro unat_minus_one) auto
  have cells: "fs_cell (fq_f s) p = fq_pushed s ! p" if "p < fq_H s" "fq_H s \<le> p + fq_n s" for p
    using fs_inv_cell [OF inv that] pc by simp
  have th: "thief_ok ?s (fq_thief s u)" for u
    using D(7) [of u] by (cases "fq_thief s u") simp_all
  have "fs_cell (fq_f s) (unat (new_low - 1)) = fq_pushed s ! (unat new_low - 1)"
    unfolding n' using n D(3) by (intro cells) simp_all
  then show ?thesis
    unfolding fs_inv_def
    using D(1-5,8,9) pc th cells by (simp add: low_ok_def popped_ok_def)
qed

lemma fs_inv_steal_read:
  assumes inv: "fs_inv s" and pc: "fq_thief s t = T_read low"
  shows "thief_ok s (T_cas low (fs_cell (fq_f s) (unat low)))"
proof -
  note D = fs_invD [OF inv]
  have l: "unat low \<le> fq_L s" "unat low < fq_H s"
    using D(7) [of t] pc by simp_all
  have "fs_cell (fq_f s) (unat low) = fq_pushed s ! unat low" if "unat low = fq_L s"
  proof (rule fs_inv_cell [OF inv])
    show "publishing (fq_master s) \<longrightarrow> unat low + fq_n s \<noteq> fq_H s"
      using D(6) that by (cases "fq_master s") simp_all
  qed (use l that D(4) in simp_all)
  with l show ?thesis by simp
qed

lemma fs_inv_steal_won:
  assumes inv: "fs_inv s" and pc: "fq_thief s t = T_cas low v" and eq: "fs_low (fq_f s) = low"
    and bound: "fq_H s < 2 ^ 64 - 1"
  shows "fs_inv (thief_goto s t T_idle
      \<lparr>fq_f := (fq_f s)\<lparr>fs_low := low + 1\<rparr>, fq_log := fq_log s @ [(Stolen_by t, v)]\<rparr>)"
    (is "fs_inv ?s")
proof -
  note D = fs_invD [OF inv]
  have l: "unat low \<le> fq_L s" "unat low < fq_H s" and v: "unat low = fq_L s \<longrightarrow> v = fq_pushed s ! unat low"
    using D(7) [of t] pc by simp_all
  have not_reset: "\<forall>high. fq_master s \<noteq> M_pop_reset high"
    using D(5) l(2) eq by (auto simp: low_ok_def)
  then have L: "unat low = fq_L s"
    using D(5) eq l(2) by (cases "fq_master s") (auto simp: low_ok_def)
  have l': "unat (low + 1) = Suc (fq_L s)"
    using bound l L by (simp add: unat_inc [where n = "2 ^ 64 - 1"])
  have "low_ok ?s"
    using D(5) not_reset l' by (cases "fq_master s") (simp_all add: low_ok_def)
  moreover have "popped_ok ?s"
    using D(9) by (cases "fq_master s") (simp_all add: popped_ok_def)
  moreover have "master_ok ?s (fq_master s)"
    using D(6) not_reset by (cases "fq_master s") simp_all
  moreover have "thief_ok ?s (fq_thief s u)" for u
    using D(7) [of u] by (cases "fq_thief s u") auto
  moreover have "map snd (fq_log s) @ [v] = take (Suc (fq_L s)) (fq_pushed s)"
    using D(8) v l(2) L by (simp add: take_Suc_conv_app_nth)
  moreover have "fs_cell (fq_f s) p = fq_pushed s ! p" if "p < fq_H s" "fq_H s \<le> p + fq_n s"
      "publishing (fq_master s) \<longrightarrow> p + fq_n s \<noteq> fq_H s" for p
    using fs_inv_cell [OF inv that] .
  ultimately show ?thesis
    unfolding fs_inv_def using D(1-4) l(2) L by simp
qed

lemma fs_step_inv:
  assumes inv: "fs_inv s" and bound: "fs_bound s'" and step: "fs_step s s'"
  shows "fs_inv s'"
  using step
proof cases
  case (push_call data)
  then show ?thesis using fs_inv_master [OF inv, of "M_push_high data"] by simp
next
  case (push_high data)
  then show ?thesis
    using fs_inv_master [OF inv, of "M_push_low data (fs_high (fq_f s))"] fs_invD(2) [OF inv] by simp
next
  case (push_low data high)
  then show ?thesis
    using fs_inv_master [OF inv, of "M_push_store data high"] fs_inv_master [OF inv, of M_idle]
      fs_inv_push_low [OF inv push_low(2)] by (simp del: master_ok.simps(2))
next
  case (push_store data high b)
  then show ?thesis
    using fs_inv_push_store [OF inv push_store(2)] fs_invD(1) [OF inv] by (simp add: fs_buf_set)
next
  case (push_publish data high)
  then show ?thesis
    using fs_inv_push_publish [OF inv push_publish(2)] bound by (simp add: fs_bound_def)
next
  case pop_call
  then show ?thesis using fs_inv_master [OF inv, of M_pop_high] by simp
next
  case pop_high
  then show ?thesis
    using fs_inv_master [OF inv, of "M_pop_low (fs_high (fq_f s))"] fs_invD(2) [OF inv] by simp
next
  case (pop_low high)
  then show ?thesis
    using fs_inv_master [OF inv, of "M_pop_add high"] fs_inv_master [OF inv, of M_idle]
      fs_invD(6) [OF inv] by simp
next
  case (pop_add high new_low low')
  then have "new_low = fs_low (fq_f s) + 1" "low' = fs_low (fq_f s) + 1" "fq_H s < 2 ^ 64 - 1"
    using bound by (auto simp: fs_bound_def sync_add_and_fetch_def)
  then show ?thesis
    using fs_inv_pop_add [OF inv pop_add(2)] pop_add(1) by blast
next
  case (pop_reset high)
  then show ?thesis using fs_inv_pop_reset [OF inv pop_reset(2)] by simp
next
  case (pop_read new_low v)
  then show ?thesis
    using fs_inv_pop_read [OF inv pop_read(2)] fs_invD(1) [OF inv] by (simp add: fs_buf_get)
next
  case (steal_call t)
  then show ?thesis using fs_inv_thief [OF inv, of T_high t] by simp
next
  case (steal_high t)
  then show ?thesis
    using fs_inv_thief [OF inv, of "T_low (fs_high (fq_f s))" t] fs_invD(2) [OF inv] by simp
next
  case (steal_low t high)
  have "thief_ok s (T_read (fs_low (fq_f s)))" if "fs_low (fq_f s) < high"
    using fs_invD(3,5) [OF inv] fs_invD(7) [OF inv, of t] steal_low(2) that
    by (cases "fq_master s") (auto simp: low_ok_def word_less_nat_alt)
  with steal_low show ?thesis
    using fs_inv_thief [OF inv, of "T_read (fs_low (fq_f s))" t] fs_inv_thief [OF inv, of T_idle t] by simp
next
  case (steal_read t low v)
  then show ?thesis
    using fs_inv_thief [OF inv fs_inv_steal_read [OF inv steal_read(2)], of t] fs_invD(1) [OF inv]
    by (simp add: fs_buf_get)
next
  case (steal_won t low v low')
  then have "fs_low (fq_f s) = low" "low' = low + 1"
    by (simp_all add: sync_bool_compare_and_swap_def split: if_splits)
  with steal_won show ?thesis
    using fs_inv_steal_won [OF inv steal_won(2)] bound by (simp add: fs_bound_def)
next
  case (steal_lost t low v low')
  then show ?thesis using fs_inv_thief [OF inv, of T_idle t] by simp
qed

lemma fs_step_size: "fs_step s s' \<Longrightarrow> fq_n s' = fq_n s"
  by (erule fs_step.cases) simp_all

lemma fs_step_pushed: "fs_step s s' \<Longrightarrow> fq_H s \<le> fq_H s'"
  by (erule fs_step.cases) simp_all

lemma fs_init_inv:
  assumes "fs_init k s"
  shows "fs_inv s \<and> fq_n s = 2 ^ unat k"
proof -
  obtain f where f: "2 ^ unat k \<le> length (fs_buffer f)" "fifo_steal_buffer_init f k = Some (fq_f s)"
    and s: "fq_master s = M_idle" "fq_thief s = (\<lambda>_. T_idle)" "fq_pushed s = []" "fq_log s = []"
      "fq_popped s = []"
    using assms by (auto simp: fs_init_def)
  have "k \<noteq> 0" "k < 32"
    using f(2) by (auto simp: fifo_steal_buffer_init_def split: if_splits)
  from init_wf [OF this f] have "fs_ok (fq_f s)" "fs_items (fq_f s) = []" "fq_n s = 2 ^ unat k"
    "fs_high (fq_f s) = 0" "fs_low (fq_f s) = 0"
    by simp_all
  then show ?thesis
    using s by (simp add: fs_inv_def fs_ok_def low_ok_def popped_ok_def)
qed

interpretation fsc: bounded_invariant "fs_init k" fs_step fs_bound
  "\<lambda>s. fs_inv s \<and> fq_n s = 2 ^ unat k" for k
proof (unfold_locales, goal_cases)
  case (1 s)
  then show ?case by (rule fs_init_inv)
next
  case (2 s t)
  then show ?case using fs_step_pushed [of s t] by (simp add: fs_bound_def)
next
  case (3 s t)
  then show ?case using fs_step_inv fs_step_size by metis
qed

section \<open>The sequential operations are runs of one thread\<close>

lemma fs_reach_step: "reach I fs_step s \<Longrightarrow> fs_step s s' \<Longrightarrow> reach I fs_step s'"
  by (rule reach_step)

lemma fs_reach_eqI:
  "reach I fs_step s \<Longrightarrow> fq_f s = fq_f s' \<Longrightarrow> fq_master s = fq_master s' \<Longrightarrow>
     fq_thief s = fq_thief s' \<Longrightarrow> fq_pushed s = fq_pushed s' \<Longrightarrow> fq_log s = fq_log s' \<Longrightarrow>
     fq_popped s = fq_popped s' \<Longrightarrow> reach I fs_step (s' :: fs_sys)"
  by (metis fs_sys.equality old.unit.exhaust)

lemma push_run:
  assumes r: "reach I fs_step s" and pc: "fq_master s = M_idle" and wf: "fs_wf (fq_f s)"
    and res: "fifo_steal_buffer_push (fq_f s) p = Some (r, f')"
  shows "reach I fs_step (s\<lparr>fq_f := f', fq_pushed := fq_pushed s @ (if r = 1 then [p] else [])\<rparr>)"
proof -
  let ?h = "fs_high (fq_f s)" and ?room = "fs_high (fq_f s) - fs_low (fq_f s) < ucast (fs_size (fq_f s))"
  have "reach I fs_step (s\<lparr>fq_master := M_push_high p\<rparr>)"
    by (rule fs_reach_step [OF r]) (rule fs_step.push_call [OF pc])
  from fs_reach_step [OF this fs_step.push_high] have "reach I fs_step (s\<lparr>fq_master := M_push_low p ?h\<rparr>)"
    by simp
  from fs_reach_step [OF this fs_step.push_low]
  have 1: "reach I fs_step (s\<lparr>fq_master := (if ?room then M_push_store p ?h else M_idle)\<rparr>)"
    by simp
  show ?thesis
  proof (cases ?room)
    case False
    with 1 res show ?thesis
      by (intro fs_reach_eqI [OF 1]) (simp_all add: fifo_steal_buffer_push_def Let_def pc)
  next
    case True
    let ?b = "(fs_buffer (fq_f s))[unat ?h mod fq_n s := p]"
    let ?s = "s\<lparr>fq_f := (fq_f s)\<lparr>fs_buffer := ?b\<rparr>, fq_master := M_push_publish p ?h\<rparr>"
    have 2: "reach I fs_step ?s"
      using fs_reach_step [OF 1 fs_step.push_store [where data = p and high = ?h and b = ?b]] True wf
      by (simp add: fs_buf_set)
    have "fs_step ?s (?s\<lparr>fq_f := (fq_f ?s)\<lparr>fs_high := ?h + 1\<rparr>, fq_master := M_idle,
        fq_pushed := fq_pushed ?s @ [p]\<rparr>)"
      by (rule fs_step.push_publish) simp
    from fs_reach_step [OF 2 this] show ?thesis
      by (rule fs_reach_eqI)
        (use True res pc in \<open>auto simp: fifo_steal_buffer_push_def Let_def fs_buf_set [OF wf]\<close>)
  qed
qed

lemma steal_run:
  assumes r: "reach I fs_step s" and pc: "fq_thief s t = T_idle" and wf: "fs_wf (fq_f s)"
    and res: "fifo_steal_buffer_steal (fq_f s) = Some (FIFO_STEAL_BUFFER_SUCCESS, Some v, f')"
  shows "reach I fs_step (s\<lparr>fq_f := f', fq_log := fq_log s @ [(Stolen_by t, v)]\<rparr>)"
proof -
  let ?h = "fs_high (fq_f s)" and ?l = "fs_low (fq_f s)"
  have lt: "?h > ?l" and v: "v = fs_cell (fq_f s) (unat ?l)" and f': "f' = (fq_f s)\<lparr>fs_low := ?l + 1\<rparr>"
    using res by (auto simp: fifo_steal_buffer_steal_def Let_def fs_buf_get [OF wf] fs_result_defs
        sync_bool_compare_and_swap_def split: if_splits)
  have 1: "reach I fs_step (thief_goto s t T_high)"
    by (rule fs_reach_step [OF r]) (rule fs_step.steal_call [OF pc])
  have 2: "reach I fs_step (thief_goto s t (T_low ?h))"
    using fs_reach_step [OF 1 fs_step.steal_high [where t = t]] by simp
  have 3: "reach I fs_step (thief_goto s t (T_read ?l))"
    using fs_reach_step [OF 2 fs_step.steal_low [where t = t and high = ?h]] lt by simp
  have 4: "reach I fs_step (thief_goto s t (T_cas ?l v))"
    using fs_reach_step [OF 3 fs_step.steal_read [where t = t and low = ?l and v = v]]
    by (simp add: fs_buf_get wf v)
  have "fs_step (thief_goto s t (T_cas ?l v)) (thief_goto (thief_goto s t (T_cas ?l v)) t T_idle
      \<lparr>fq_f := (fq_f s)\<lparr>fs_low := ?l + 1\<rparr>, fq_log := fq_log s @ [(Stolen_by t, v)]\<rparr>)"
    using fs_step.steal_won [of "thief_goto s t (T_cas ?l v)" t ?l v "?l + 1"]
    by (simp add: sync_bool_compare_and_swap_def)
  from fs_reach_step [OF 4 this] show ?thesis
    by (rule fs_reach_eqI) (use pc f' in \<open>simp_all add: fun_upd_idem\<close>)
qed

section \<open>Properties\<close>

text \<open>
  Under one master and any number of thieves every pushed item leaves the buffer at most
  once and in push order, whatever the interleaving: it is popped by the master, stolen by one
  thief, or dropped; the values the pops returned are the popped ones, in order; and the
  capacity is never exceeded (for fewer than \<open>2 ^ 64 - 1\<close> pushes).
\<close>

theorem fifo_steal_exactly_once:
  assumes "reach (fs_init k) fs_step s" and "length (fq_pushed s) < 2 ^ 64 - 1"
  shows "map snd (fq_log s) = take (length (fq_log s)) (fq_pushed s)
    \<and> length (fq_log s) \<le> length (fq_pushed s)
    \<and> length (fq_pushed s) \<le> length (fq_log s) + 2 ^ unat k
    \<and> prefix (fq_popped s) (map snd (filter (\<lambda>(f, _). f = Popped_by_master) (fq_log s)))"
proof -
  have inv: "fs_inv s" and n: "fq_n s = 2 ^ unat k"
    using fsc.reach_inv [OF assms(1)] assms(2) by (simp_all add: fs_bound_def)
  show ?thesis
    using fs_invD(3,4,8) [OF inv] popped_prefix [OF fs_invD(9) [OF inv]] n by simp
qed

text \<open>
  When no operation is in progress the struct satisfies its representation invariant, holds
  exactly the items with no fate yet, in order, and the master has returned exactly the items
  whose fate is to be popped: nothing is lost but what the log says was dropped.
\<close>

theorem fifo_steal_quiescent:
  assumes "reach (fs_init k) fs_step s" and "length (fq_pushed s) < 2 ^ 64 - 1"
    and "fq_master s = M_idle" and "\<forall>t. fq_thief s t = T_idle"
  shows "fs_ok (fq_f s) \<and> fs_items (fq_f s) = drop (length (fq_log s)) (fq_pushed s)
    \<and> fq_popped s = map snd (filter (\<lambda>(f, _). f = Popped_by_master) (fq_log s))"
proof -
  have inv: "fs_inv s"
    using fsc.reach_inv [OF assms(1)] assms(2) by (simp add: fs_bound_def)
  note D = fs_invD [OF inv]
  have low: "unat (fs_low (fq_f s)) = fq_L s"
    using fs_inv_low [OF inv] assms(3) by simp
  have "fs_cell (fq_f s) p = fq_pushed s ! p" if "fq_L s \<le> p" "p < fq_H s" for p
    using fs_inv_cell [OF inv, of p] that D(4) assms(3) by simp
  then have "fs_items (fq_f s) = drop (fq_L s) (fq_pushed s)"
    using D(2,3) low by (intro nth_equalityI) (simp_all add: fs_items_def)
  moreover have "fs_ok (fq_f s)"
    using D low by (simp add: fs_ok_def)
  ultimately show ?thesis
    using D(9) assms(3) by (simp add: popped_ok_def)
qed

text \<open>A concrete run: the master pushes 7 and 8, thief 3 steals 7.\<close>

definition fs_run :: "ptr list \<Rightarrow> (fate \<times> ptr) list \<Rightarrow> fifo_steal_buffer \<Rightarrow> fs_sys" where
  "fs_run pushed log f = \<lparr>fq_f = f, fq_master = M_idle, fq_thief = (\<lambda>_. T_idle),
     fq_pushed = pushed, fq_log = log, fq_popped = []\<rparr>"

lemma fs_run_start: "reach (fs_init 1) fs_step (fs_run [] [] (fs_demo []))"
proof (rule reach_init)
  have "fifo_steal_buffer_init (fs_demo []) 1 = Some (fs_demo [])"
    by code_simp
  then show "fs_init 1 (fs_run [] [] (fs_demo []))"
    unfolding fs_init_def by (intro conjI exI [of _ "fs_demo []"]) (simp_all add: fs_run_def fs_demo_def)
qed

lemma fs_demo_wf: "length xs \<le> 2 \<Longrightarrow> fs_wf (fs_demo xs)"
  by (auto simp: fs_wf_def fs_demo_def mask_eq_exp_minus_1 intro!: bexI [of _ 1])

lemma fs_run_pushed: "reach (fs_init 1) fs_step (fs_run [7, 8] [] (fs_demo [7, 8]))"
proof -
  have "fifo_steal_buffer_push (fs_demo []) 7 = Some (1, fs_demo [7])"
    and "fifo_steal_buffer_push (fs_demo [7]) 8 = Some (1, fs_demo [7, 8])"
    by code_simp+
  then have "reach (fs_init 1) fs_step (fs_run [7] [] (fs_demo [7]))"
    by (intro fs_reach_eqI [OF push_run [OF fs_run_start, of 7 1]]) (simp_all add: fs_run_def fs_demo_wf)
  from push_run [OF this, of 8 1] show ?thesis
    using \<open>fifo_steal_buffer_push (fs_demo [7]) 8 = Some (1, fs_demo [7, 8])\<close>
    by (intro fs_reach_eqI [OF push_run [OF \<open>reach (fs_init 1) fs_step (fs_run [7] [] (fs_demo [7]))\<close>, of 8 1]])
      (simp_all add: fs_run_def fs_demo_wf)
qed

lemma fs_run_stolen: "reach (fs_init 1) fs_step
  (fs_run [7, 8] [(Stolen_by 3, 7)] (fs_demo [7, 8]\<lparr>fs_low := 1\<rparr>))"
proof -
  have "fifo_steal_buffer_steal (fs_demo [7, 8]) =
      Some (FIFO_STEAL_BUFFER_SUCCESS, Some 7, fs_demo [7, 8]\<lparr>fs_low := 1\<rparr>)"
    by code_simp
  then show ?thesis
    by (intro fs_reach_eqI [OF steal_run [OF fs_run_pushed, where t = 3 and v = 7]])
      (simp_all add: fs_run_def fs_demo_wf)
qed

theorem fifo_steal_exactly_once_witness:
  "\<exists>s. reach (fs_init 1) fs_step s \<and> fq_log s = [(Stolen_by 3, 7)]
     \<and> map snd (fq_log s) = take 1 (fq_pushed s)"
  using fifo_steal_exactly_once [OF fs_run_stolen] fs_run_stolen
  by (intro exI [of _ "fs_run [7, 8] [(Stolen_by 3, 7)] (fs_demo [7, 8]\<lparr>fs_low := 1\<rparr>)"])
    (simp add: fs_run_def)

theorem fifo_steal_quiescent_witness:
  "\<exists>s. reach (fs_init 1) fs_step s \<and> fq_log s = [(Stolen_by 3, 7)] \<and> fs_items (fq_f s) = [8]"
  using fifo_steal_quiescent [OF fs_run_stolen] fs_run_stolen
  by (intro exI [of _ "fs_run [7, 8] [(Stolen_by 3, 7)] (fs_demo [7, 8]\<lparr>fs_low := 1\<rparr>)"])
    (simp add: fs_run_def)

end
