(* ===== verification/Fifo_Steal_Tso.thy ===== *)
theory Fifo_Steal_Tso
  imports Fifo_Steal_Conc
begin

text \<open>
  \<open>fifo_steal_buffer.h\<close> under one master thread and any number of thieves on x86-TSO. The master's
  plain stores, of a cell, of \<open>high\<close> and of \<open>low\<close>, wait in its store buffer until they are flushed, in
  order; it reads its own latest store, the thieves read memory. The thieves store with
  compare-and-swap alone, which acts on memory at once, and the master's add-and-fetch waits
  until its buffer is empty. \<open>write_barrier\<close> and \<open>load_load_barrier\<close> emit no instruction on x86.
\<close>

section \<open>Memory and the store buffer\<close>

datatype fs_write = FW_cell u64 ptr | FW_high u64 | FW_low u64

fun fs_write_do :: "fs_write \<Rightarrow> fifo_steal_buffer \<Rightarrow> fifo_steal_buffer" where
  "fs_write_do (FW_cell i p) f = (case buf_set (fs_buffer f) i p of None \<Rightarrow> f | Some b \<Rightarrow> f\<lparr>fs_buffer := b\<rparr>)"
| "fs_write_do (FW_high h) f = f\<lparr>fs_high := h\<rparr>"
| "fs_write_do (FW_low l) f = f\<lparr>fs_low := l\<rparr>"

declare fs_write_do.simps(1) [simp del]

text \<open>\<open>to_sys\<close> has the memory, the threads and the logs; \<open>to_buf\<close> the stores not flushed yet, the oldest first.\<close>

record fs_tso =
  to_sys :: fs_sys
  to_buf :: "fs_write list"

text \<open>Memory now, and after each further flush; the last is what the master sees.\<close>

fun fs_views :: "fifo_steal_buffer \<Rightarrow> fs_write list \<Rightarrow> fifo_steal_buffer list" where
  "fs_views f [] = [f]"
| "fs_views f (w # ws) = f # fs_views (fs_write_do w f) ws"

definition master_view :: "fs_tso \<Rightarrow> fifo_steal_buffer" where
  "master_view s = fold fs_write_do (to_buf s) (fq_f (to_sys s))"

section \<open>The threads' steps\<close>

abbreviation to_goto :: "fs_tso \<Rightarrow> fs_master \<Rightarrow> fs_tso" where
  "to_goto s c \<equiv> s\<lparr>to_sys := (to_sys s)\<lparr>fq_master := c\<rparr>\<rparr>"

abbreviation to_store :: "fs_tso \<Rightarrow> fs_write \<Rightarrow> fs_tso" where
  "to_store s w \<equiv> s\<lparr>to_buf := to_buf s @ [w]\<rparr>"

text \<open>A thief's steps are those of Fifo\_Steal\_Conc, on memory.\<close>

inductive ts_step :: "fs_tso \<Rightarrow> fs_tso \<Rightarrow> bool" where
  flush: "to_buf s = w # ws \<Longrightarrow>
    ts_step s (s\<lparr>to_buf := ws, to_sys := (to_sys s)\<lparr>fq_f := fs_write_do w (fq_f (to_sys s))\<rparr>\<rparr>)"
| thief: "fs_step (to_sys s) v' \<Longrightarrow> fq_thief v' t \<noteq> fq_thief (to_sys s) t \<Longrightarrow> ts_step s (s\<lparr>to_sys := v'\<rparr>)"
| push_call: "fq_master (to_sys s) = M_idle \<Longrightarrow> ts_step s (to_goto s (M_push_high data))"
| push_high: "fq_master (to_sys s) = M_push_high data \<Longrightarrow>
    ts_step s (to_goto s (M_push_low data (fs_high (master_view s))))"
| push_low: "fq_master (to_sys s) = M_push_low data high \<Longrightarrow>
    ts_step s (to_goto s (if high - fs_low (master_view s) < ucast (fs_size (master_view s))
      then M_push_store data high else M_idle))"
| push_store: "fq_master (to_sys s) = M_push_store data high \<Longrightarrow>
    index = high AND ucast (fs_power_of_2_mod (master_view s)) \<Longrightarrow>
    buf_set (fs_buffer (master_view s)) index data = Some b \<Longrightarrow>
    ts_step s (to_goto (to_store s (FW_cell index data)) (M_push_publish data high))"
| push_publish: "fq_master (to_sys s) = M_push_publish data high \<Longrightarrow>
    ts_step s ((to_store s (FW_high (high + 1)))
      \<lparr>to_sys := (to_sys s)\<lparr>fq_master := M_idle, fq_pushed := fq_pushed (to_sys s) @ [data]\<rparr>\<rparr>)"
| pop_call: "fq_master (to_sys s) = M_idle \<Longrightarrow> ts_step s (to_goto s M_pop_high)"
| pop_high: "fq_master (to_sys s) = M_pop_high \<Longrightarrow>
    ts_step s (to_goto s (M_pop_low (fs_high (master_view s))))"
| pop_low: "fq_master (to_sys s) = M_pop_low high \<Longrightarrow>
    ts_step s (to_goto s (if high > fs_low (master_view s) then M_pop_add high else M_idle))"
| pop_add: "fq_master (to_sys s) = M_pop_add high \<Longrightarrow> to_buf s = [] \<Longrightarrow>
    sync_add_and_fetch (fs_low (fq_f (to_sys s))) 1 = (new_low, low') \<Longrightarrow>
    ts_step s (s\<lparr>to_sys := (to_sys s)\<lparr>fq_f := (fq_f (to_sys s))\<lparr>fs_low := low'\<rparr>,
      fq_master := (if new_low \<ge> high then M_pop_reset high else M_pop_read new_low),
      fq_log := fq_log (to_sys s) @ pop_log (to_sys s) high new_low\<rparr>\<rparr>)"
| pop_reset: "fq_master (to_sys s) = M_pop_reset high \<Longrightarrow> ts_step s (to_goto (to_store s (FW_low high)) M_idle)"
| pop_read: "fq_master (to_sys s) = M_pop_read new_low \<Longrightarrow>
    buf_get (fs_buffer (master_view s)) ((new_low - 1) AND ucast (fs_power_of_2_mod (master_view s))) = Some v \<Longrightarrow>
    ts_step s (s\<lparr>to_sys := (to_sys s)\<lparr>fq_master := M_idle, fq_popped := fq_popped (to_sys s) @ [v]\<rparr>\<rparr>)"

definition ts_init :: "u32 \<Rightarrow> fs_tso \<Rightarrow> bool" where
  "ts_init k s \<longleftrightarrow> fs_init k (to_sys s) \<and> to_buf s = []"

section \<open>The invariant\<close>

abbreviation to_H :: "fs_tso \<Rightarrow> nat" where "to_H s \<equiv> length (fq_pushed (to_sys s))"
abbreviation to_L :: "fs_tso \<Rightarrow> nat" where "to_L s \<equiv> length (fq_log (to_sys s))"
abbreviation to_mem :: "fs_tso \<Rightarrow> fifo_steal_buffer" where "to_mem s \<equiv> fq_f (to_sys s)"

text \<open>The system as the master sees it.\<close>

definition view_sys :: "fs_tso \<Rightarrow> fs_sys" where
  "view_sys s = (to_sys s)\<lparr>fq_f := master_view s\<rparr>"

text \<open>
  What every state of memory from now on shows the thieves: of the items not taken yet, those
  below \<open>high\<close> are in their cells.
\<close>

definition view_ok :: "fs_tso \<Rightarrow> fifo_steal_buffer \<Rightarrow> bool" where
  "view_ok s g \<longleftrightarrow> fs_wf g \<and> fs_size g = fs_size (to_mem s) \<and> unat (fs_high g) \<le> to_H s
     \<and> (\<forall>p. to_L s \<le> p \<and> p < unat (fs_high g) \<longrightarrow> fs_cell g p = fq_pushed (to_sys s) ! p)"

text \<open>A store of \<open>low\<close> can only be the oldest one waiting; until it is flushed no thief takes an item.\<close>

fun stores_low :: "fs_write \<Rightarrow> bool" where
  "stores_low (FW_low l) = True"
| "stores_low _ = False"

definition reset_ok :: "fs_tso \<Rightarrow> bool" where
  "reset_ok s \<longleftrightarrow> (case to_buf s of
       FW_low l # ws \<Rightarrow> unat l = to_L s \<and> unat (fs_high (to_mem s)) \<le> unat l \<and> unat (fs_low (to_mem s)) \<in> {unat l, Suc (unat l)}
     | _ \<Rightarrow> True)
   \<and> (\<forall>w\<in>set (drop 1 (to_buf s)). \<not> stores_low w)"

fun to_thief_ok :: "fs_tso \<Rightarrow> fs_thief \<Rightarrow> bool" where
  "to_thief_ok s (T_low high) \<longleftrightarrow> unat high \<le> unat (fs_high (to_mem s))"
| "to_thief_ok s (T_read low) \<longleftrightarrow> unat low \<le> to_L s \<and> unat low < unat (fs_high (to_mem s))"
| "to_thief_ok s (T_cas low v) \<longleftrightarrow> unat low \<le> to_L s \<and> unat low < unat (fs_high (to_mem s))
     \<and> (unat low = to_L s \<longrightarrow> v = fq_pushed (to_sys s) ! unat low)"
| "to_thief_ok s _ \<longleftrightarrow> True"

text \<open>Between its add-and-fetch and the end of \<open>pop\<close> the master has nothing in its buffer.\<close>

fun pop_ok :: "fs_tso \<Rightarrow> fs_master \<Rightarrow> bool" where
  "pop_ok s (M_pop_reset high) \<longleftrightarrow> to_buf s = []"
| "pop_ok s (M_pop_read new_low) \<longleftrightarrow> to_buf s = [] \<and>
     fs_cell (to_mem s) (unat new_low - 1) = fq_pushed (to_sys s) ! (unat new_low - 1)"
| "pop_ok s _ \<longleftrightarrow> True"

definition ts_inv :: "fs_tso \<Rightarrow> bool" where
  [inv_defs]: "ts_inv s \<longleftrightarrow> (\<forall>g \<in> set (fs_views (to_mem s) (to_buf s)). view_ok s g)
     \<and> sorted (map (\<lambda>g. unat (fs_high g)) (fs_views (to_mem s) (to_buf s)))
     \<and> unat (fs_high (master_view s)) = to_H s
     \<and> to_L s \<le> to_H s \<and> to_H s \<le> to_L s + unat (fs_size (to_mem s))
     \<and> low_ok (view_sys s) \<and> master_ok (view_sys s) (fq_master (to_sys s)) \<and> pop_ok s (fq_master (to_sys s))
     \<and> reset_ok s \<and> (\<forall>t. to_thief_ok s (fq_thief (to_sys s) t))
     \<and> map snd (fq_log (to_sys s)) = take (to_L s) (fq_pushed (to_sys s)) \<and> popped_ok (to_sys s)"

lemma ts_invD:
  assumes "ts_inv s"
  shows "g \<in> set (fs_views (to_mem s) (to_buf s)) \<Longrightarrow> view_ok s g"
    "sorted (map (\<lambda>g. unat (fs_high g)) (fs_views (to_mem s) (to_buf s)))"
    "unat (fs_high (master_view s)) = to_H s" "to_L s \<le> to_H s" "to_H s \<le> to_L s + unat (fs_size (to_mem s))"
    "low_ok (view_sys s)" "master_ok (view_sys s) (fq_master (to_sys s))" "pop_ok s (fq_master (to_sys s))"
    "reset_ok s" "to_thief_ok s (fq_thief (to_sys s) t)"
    "map snd (fq_log (to_sys s)) = take (to_L s) (fq_pushed (to_sys s))" "popped_ok (to_sys s)"
  using assms by (simp_all add: ts_inv_def)

section \<open>Views\<close>

lemma fs_views_append: "fs_views f (ws @ [w]) = fs_views f ws @ [fs_write_do w (fold fs_write_do ws f)]"
  by (induction ws arbitrary: f) simp_all

lemma first_view: "f \<in> set (fs_views f ws)"
  by (cases ws) simp_all

lemma last_view: "fold fs_write_do ws f \<in> set (fs_views f ws)"
  by (induction ws arbitrary: f) simp_all

lemma master_view_put [simp]: "master_view (to_store s w) = fs_write_do w (master_view s)"
  by (simp add: master_view_def)

lemma master_view_sys [simp]: "fq_f v = to_mem s \<Longrightarrow> master_view (s\<lparr>to_sys := v\<rparr>) = master_view s"
  by (simp add: master_view_def)

lemma master_view_empty: "to_buf s = [] \<Longrightarrow> master_view s = to_mem s"
  by (simp add: master_view_def)

lemma master_view_in: "master_view s \<in> set (fs_views (to_mem s) (to_buf s))"
  by (simp add: master_view_def last_view)

lemma view_ok_cong:
  "fs_size (to_mem s') = fs_size (to_mem s) \<Longrightarrow> fq_pushed (to_sys s') = fq_pushed (to_sys s) \<Longrightarrow>
     to_L s' = to_L s \<Longrightarrow> view_ok s' g = view_ok s g"
  by (simp add: view_ok_def)

lemma to_thief_ok_cong:
  "fs_high (to_mem s') = fs_high (to_mem s) \<Longrightarrow> fq_pushed (to_sys s') = fq_pushed (to_sys s) \<Longrightarrow>
     to_L s' = to_L s \<Longrightarrow> to_thief_ok s' c = to_thief_ok s c"
  by (cases c) simp_all

lemma reset_ok_cong:
  "to_mem s' = to_mem s \<Longrightarrow> to_buf s' = to_buf s \<Longrightarrow> to_L s' = to_L s \<Longrightarrow> reset_ok s' = reset_ok s"
  by (simp add: reset_ok_def split: list.split fs_write.split)

lemma popped_ok_cong:
  "fq_log v' = fq_log v \<Longrightarrow> fq_popped v' = fq_popped v \<Longrightarrow> fq_pushed v' = fq_pushed v \<Longrightarrow>
     fq_master v' = fq_master v \<Longrightarrow> popped_ok v' = popped_ok v"
  by (cases "fq_master v") (simp_all add: popped_ok_def)

lemma master_ok_cong:
  "fq_pushed v' = fq_pushed v \<Longrightarrow> fq_L v' = fq_L v \<Longrightarrow> fq_f v' = fq_f v \<Longrightarrow> master_ok v' c = master_ok v c"
  by (cases c) simp_all

lemma low_ok_cong:
  "fq_master v' = fq_master v \<Longrightarrow> fq_H v' = fq_H v \<Longrightarrow> fq_L v' = fq_L v \<Longrightarrow> fq_f v' = fq_f v \<Longrightarrow> low_ok v' = low_ok v"
  by (simp add: low_ok_def split: fs_master.split)

lemma view_sys_fields [simp]:
  "fq_f (view_sys s) = master_view s" "fq_master (view_sys s) = fq_master (to_sys s)"
  "fq_thief (view_sys s) = fq_thief (to_sys s)" "fq_pushed (view_sys s) = fq_pushed (to_sys s)"
  "fq_log (view_sys s) = fq_log (to_sys s)" "fq_popped (view_sys s) = fq_popped (to_sys s)"
  by (simp_all add: view_sys_def)

lemma master_view_ok:
  assumes "ts_inv s"
  shows "fs_wf (master_view s)" "fs_size (master_view s) = fs_size (to_mem s)"
    "to_L s \<le> p \<Longrightarrow> p < to_H s \<Longrightarrow> fs_cell (master_view s) p = fq_pushed (to_sys s) ! p"
  using ts_invD(1) [OF assms master_view_in] ts_invD(3) [OF assms] by (simp_all add: view_ok_def)

lemma mem_ok:
  assumes "ts_inv s"
  shows "fs_wf (to_mem s)" "unat (fs_high (to_mem s)) \<le> to_H s"
    "to_L s \<le> p \<Longrightarrow> p < unat (fs_high (to_mem s)) \<Longrightarrow> fs_cell (to_mem s) p = fq_pushed (to_sys s) ! p"
  using ts_invD(1) [OF assms first_view] by (simp_all add: view_ok_def)

section \<open>Every step keeps it\<close>

lemma ts_inv_goto:
  assumes inv: "ts_inv s" and plain: "plain (fq_master (to_sys s))" "plain c" and ok: "master_ok (view_sys s) c"
  shows "ts_inv (to_goto s c)"
proof -
  let ?s = "to_goto s c"
  note D = ts_invD [OF inv]
  have view: "view_ok ?s g = view_ok s g" for g
    by (rule view_ok_cong) simp_all
  have reset: "reset_ok ?s = reset_ok s"
    by (rule reset_ok_cong) simp_all
  have thief: "to_thief_ok ?s d = to_thief_ok s d" for d
    by (rule to_thief_ok_cong) simp_all
  have "master_ok (view_sys ?s) c"
    using ok by (subst master_ok_cong [of _ "view_sys s"]) simp_all
  moreover have "plain (fq_master (view_sys s))" "plain (fq_master (view_sys ?s))"
      "plain (fq_master (to_sys ?s))"
    using plain by simp_all
  note plain_simps [OF this(1)] plain_simps [OF this(2)] plain_simps [OF this(3)] plain_simps [OF plain(1)]
  moreover have "pop_ok ?s c"
    using plain(2) by (cases c) simp_all
  ultimately show ?thesis
    using D by (simp add: ts_inv_def view reset thief)
qed

lemma ts_inv_thief:
  assumes inv: "ts_inv s" and ok: "to_thief_ok s c"
  shows "ts_inv (s\<lparr>to_sys := thief_goto (to_sys s) t c\<rparr>)" (is "ts_inv ?s")
proof -
  note D = ts_invD [OF inv]
  have view: "view_ok ?s g = view_ok s g" for g
    by (rule view_ok_cong) simp_all
  have reset: "reset_ok ?s = reset_ok s"
    by (rule reset_ok_cong) simp_all
  have thief: "to_thief_ok ?s d = to_thief_ok s d" for d
    by (rule to_thief_ok_cong) simp_all
  have low: "low_ok (view_sys ?s) = low_ok (view_sys s)"
    by (rule low_ok_cong) simp_all
  have master: "master_ok (view_sys ?s) e = master_ok (view_sys s) e" for e
    by (rule master_ok_cong) simp_all
  have popped: "popped_ok (thief_goto (to_sys s) t c) = popped_ok (to_sys s)"
    by (rule popped_ok_cong) simp_all
  have pop: "pop_ok ?s e = pop_ok s e" for e
    by (cases e) simp_all
  show ?thesis
    using D ok by (simp add: ts_inv_def view reset thief low master popped pop)
qed

lemma ts_inv_view_low:
  "ts_inv s \<Longrightarrow> plain (fq_master (to_sys s)) \<Longrightarrow> unat (fs_low (master_view s)) = to_L s"
  using ts_invD(6) [of s] plain_simps(1) [of "view_sys s"] by simp

lemma ts_inv_push_low:
  assumes inv: "ts_inv s" and pc: "fq_master (to_sys s) = M_push_low data high"
    and room: "high - fs_low (master_view s) < ucast (fs_size (master_view s))"
  shows "master_ok (view_sys s) (M_push_store data high)"
proof -
  have h: "unat high = to_H s" and l: "unat (fs_low (master_view s)) = to_L s"
    using ts_invD(7) [OF inv] ts_inv_view_low [OF inv] pc by simp_all
  then have "fs_low (master_view s) \<le> high"
    using ts_invD(4) [OF inv] by (simp add: word_le_nat_alt)
  with room h l show ?thesis
    using ts_invD(4) [OF inv] by (simp add: word_less_nat_alt unat_diff less_diff_conv2 add.commute)
qed

text \<open>A store of the master's adds one view, what the master sees.\<close>

lemma views_put:
  "fs_views (to_mem s) (to_buf s @ [w]) = fs_views (to_mem s) (to_buf s) @ [fs_write_do w (master_view s)]"
  by (simp add: fs_views_append master_view_def)

lemma reset_ok_put:
  assumes "reset_ok s" and "\<not> stores_low w"
    and "to_mem s' = to_mem s" "to_buf s' = to_buf s @ [w]" "to_L s' = to_L s"
  shows "reset_ok s'"
  using assms by (cases "to_buf s"; cases w) (auto simp: reset_ok_def split: fs_write.splits)

lemma ts_inv_push_store:
  assumes inv: "ts_inv s" and pc: "fq_master (to_sys s) = M_push_store data high"
    and i: "index = high AND ucast (fs_power_of_2_mod (master_view s))"
  shows "ts_inv (to_goto (to_store s (FW_cell index data)) (M_push_publish data high))" (is "ts_inv ?s")
proof -
  note D = ts_invD [OF inv] and V = master_view_ok [OF inv]
  let ?n = "unat (fs_size (master_view s))" and ?v = "fs_write_do (FW_cell index data) (master_view s)"
  have h: "unat high = to_H s" "to_H s < to_L s + ?n"
    using D(7) pc by simp_all
  have v: "?v = (master_view s)\<lparr>fs_buffer := (fs_buffer (master_view s))[to_H s mod ?n := data]\<rparr>"
    using fs_buf_set [OF V(1), of high data] h(1) by (simp add: i fs_write_do.simps(1))
  have cell: "fs_cell ?v q = (if q mod ?n = to_H s mod ?n then data else fs_cell (master_view s) q)" for q
    unfolding v using fs_cell_update [OF V(1)] h by simp
  have "fs_wf ?v"
    using V(1) by (simp add: v fs_wf_def)
  moreover have "fs_cell ?v q = fq_pushed (to_sys s) ! q" if "to_L s \<le> q" "q < to_H s" for q
    using V(3) [OF that] cell [of q] mod_neq_window [of q "to_H s"] that h(2) by simp
  ultimately have new: "view_ok ?s ?v"
    using D(3) V(2) by (simp add: view_ok_def v)
  have old: "view_ok ?s g = view_ok s g" for g
    by (rule view_ok_cong) simp_all
  have thief: "to_thief_ok ?s d = to_thief_ok s d" for d
    by (rule to_thief_ok_cong) simp_all
  have reset: "reset_ok ?s"
    by (rule reset_ok_put [OF D(9)]) simp_all
  have mv: "master_view ?s = ?v"
    by (simp add: master_view_def)
  have "low_ok (view_sys ?s)" "popped_ok (to_sys ?s)"
    using D(6,12) pc by (simp_all add: low_ok_def popped_ok_def mv v)
  moreover have "sorted (map (\<lambda>g. unat (fs_high g)) (fs_views (to_mem s) (to_buf s)) @ [unat (fs_high ?v)])"
    using D(1-3) by (auto simp: sorted_append v view_ok_def)
  moreover have "master_ok (view_sys ?s) (M_push_publish data high)"
    using h cell [of "to_H s"] by (simp add: mv v)
  ultimately show ?thesis
    unfolding ts_inv_def using D(1-5,10,11) old new thief reset mv
    by (simp add: views_put v)
qed

lemma ts_inv_push_publish:
  assumes inv: "ts_inv s" and pc: "fq_master (to_sys s) = M_push_publish data high" and bound: "Suc (to_H s) < 2 ^ 64 - 1"
  shows "ts_inv ((to_store s (FW_high (high + 1)))
    \<lparr>to_sys := (to_sys s)\<lparr>fq_master := M_idle, fq_pushed := fq_pushed (to_sys s) @ [data]\<rparr>\<rparr>)" (is "ts_inv ?s")
proof -
  note D = ts_invD [OF inv] and V = master_view_ok [OF inv]
  let ?v = "(master_view s)\<lparr>fs_high := high + 1\<rparr>"
  have h: "unat high = to_H s" "to_H s < to_L s + unat (fs_size (to_mem s))" "fs_cell (master_view s) (to_H s) = data"
    using D(7) pc V(2) by simp_all
  have h': "unat (high + 1) = Suc (to_H s)"
    using bound h(1) by (simp add: unat_inc [where n = "2 ^ 64 - 1"])
  have old: "view_ok ?s g" if "view_ok s g" for g
    using that by (auto simp: view_ok_def nth_append)
  have "fs_wf ?v"
    using V(1) by (simp add: fs_wf_def)
  then have new: "view_ok ?s ?v"
    using V(2,3) h h' by (auto simp: view_ok_def nth_append less_Suc_eq)
  have mv: "master_view ?s = ?v"
    by (simp add: master_view_def)
  have thief: "to_thief_ok ?s (fq_thief (to_sys s) t)" for t
    using D(10) [of t] mem_ok(2) [OF inv] D(4) by (cases "fq_thief (to_sys s) t") (auto simp: nth_append)
  have reset: "reset_ok ?s"
    by (rule reset_ok_put [OF D(9)]) simp_all
  have "low_ok (view_sys ?s)" "popped_ok (to_sys ?s)"
    using D(6,12) pc by (simp_all add: low_ok_def popped_ok_def mv)
  moreover have "sorted (map (\<lambda>g. unat (fs_high g)) (fs_views (to_mem s) (to_buf s)) @ [unat (fs_high ?v)])"
    using D(1,2) h' by (auto simp: sorted_append view_ok_def intro: le_SucI)
  moreover have "map snd (fq_log (to_sys s)) = take (to_L s) (fq_pushed (to_sys s) @ [data])"
    using D(4,11) by simp
  ultimately show ?thesis
    unfolding ts_inv_def using D(1,4) h(2) h' old new thief reset mv
    by (simp add: views_put)
qed

lemma ts_inv_pop_add:
  assumes inv: "ts_inv s" and pc: "fq_master (to_sys s) = M_pop_add high" and empty: "to_buf s = []"
    and bound: "to_H s < 2 ^ 64 - 1"
    and c: "c = (if fs_low (to_mem s) + 1 \<ge> high then M_pop_reset high else M_pop_read (fs_low (to_mem s) + 1))"
    and e: "e = pop_log (to_sys s) high (fs_low (to_mem s) + 1)"
  shows "ts_inv (s\<lparr>to_sys := (to_sys s)\<lparr>fq_f := (to_mem s)\<lparr>fs_low := fs_low (to_mem s) + 1\<rparr>,
      fq_master := c, fq_log := fq_log (to_sys s) @ e\<rparr>\<rparr>)" (is "ts_inv ?s")
proof -
  note D = ts_invD [OF inv]
  have mv: "master_view s = to_mem s" "master_view ?s = to_mem ?s"
    using empty by (simp_all add: master_view_def)
  have h: "unat high = to_H s" and l: "unat (fs_low (to_mem s)) = to_L s" and H: "unat (fs_high (to_mem s)) = to_H s"
    using D(3,7) ts_inv_view_low [OF inv] pc mv(1) by simp_all
  have l': "unat (fs_low (to_mem s) + 1) = Suc (to_L s)"
    using bound l D(4) by (simp add: unat_inc [where n = "2 ^ 64 - 1"])
  have test: "fs_low (to_mem s) + 1 \<ge> high \<longleftrightarrow> to_H s \<le> Suc (to_L s)"
    by (simp add: word_le_nat_alt h l')
  have popped: "map snd (filter (\<lambda>(f, _). f = Popped_by_master) (fq_log (to_sys s))) = fq_popped (to_sys s)"
    using D(12) plain_simps(2) [of "to_sys s"] pc by simp
  have take: "map snd (fq_log (to_sys s)) @ [fq_pushed (to_sys s) ! to_L s] = take (Suc (to_L s)) (fq_pushed (to_sys s))"
    if "to_L s < to_H s"
    using D(11) that by (simp add: take_Suc_conv_app_nth)
  have thief: "to_thief_ok ?s (fq_thief (to_sys s) t)" for t
    using D(10) [of t] D(4) H by (cases "fq_thief (to_sys s) t") (auto simp: e pop_log_def)
  have wf: "fs_wf (to_mem ?s)"
    using mem_ok(1) [OF inv] by (simp add: fs_wf_def)
  have reset: "reset_ok ?s"
    using empty by (simp add: reset_ok_def)
  have cells: "fs_cell (to_mem s) p = fq_pushed (to_sys s) ! p" if "to_L s \<le> p" "p < to_H s" for p
    using mem_ok(3) [OF inv] that H by simp
  have view: "view_ok ?s (to_mem ?s)"
    using wf H cells by (simp add: view_ok_def)
  have len: "length e = (if to_L s < to_H s then 1 else 0)"
    by (simp add: e pop_log_def)
  have pop: "low_ok (view_sys ?s)" "master_ok (view_sys ?s) c" "pop_ok ?s c" "popped_ok (to_sys ?s)"
    using D(4,5) h H l' test popped cells [of "to_L s"] empty len
    by (auto simp: low_ok_def popped_ok_def master_view_empty c e pop_log_def)
  have "map snd (fq_log (to_sys s) @ e) = take (to_L s + length e) (fq_pushed (to_sys s))"
    using D(4,11) take by (simp add: e pop_log_def)
  then show ?thesis
    unfolding ts_inv_def using D(4,5) H thief reset view pop mv(2) empty len by simp
qed

lemma ts_inv_pop_reset:
  assumes inv: "ts_inv s" and pc: "fq_master (to_sys s) = M_pop_reset high"
  shows "ts_inv (to_goto (to_store s (FW_low high)) M_idle)" (is "ts_inv ?s")
proof -
  note D = ts_invD [OF inv]
  have empty: "to_buf s = []"
    using D(8) pc by simp
  note mv = master_view_empty [OF empty]
  have l: "unat high = to_H s" "to_L s = to_H s" "unat (fs_low (to_mem s)) \<in> {to_H s, Suc (to_H s)}"
      "unat (fs_high (to_mem s)) = to_H s"
    using D(3,6,7) pc by (simp_all add: mv low_ok_def)
  let ?v = "(to_mem s)\<lparr>fs_low := high\<rparr>"
  have view: "view_ok ?s g = view_ok s g" for g
    by (rule view_ok_cong) simp_all
  have thief: "to_thief_ok ?s d = to_thief_ok s d" for d
    by (rule to_thief_ok_cong) simp_all
  have "fs_wf ?v"
    using mem_ok(1) [OF inv] by (simp add: fs_wf_def)
  then have new: "view_ok s ?v" "view_ok s (to_mem s)"
    using D(1) [OF first_view] l by (simp_all add: view_ok_def)
  have "reset_ok ?s" "master_view ?s = ?v"
    using l by (simp_all add: reset_ok_def empty master_view_def)
  then show ?thesis
    unfolding ts_inv_def using D(4,5,10-12) view thief new l pc empty
    by (simp add: low_ok_def popped_ok_def)
qed

lemma ts_inv_pop_read:
  assumes inv: "ts_inv s" and pc: "fq_master (to_sys s) = M_pop_read new_low"
  shows "ts_inv (s\<lparr>to_sys := (to_sys s)\<lparr>fq_master := M_idle,
    fq_popped := fq_popped (to_sys s) @ [fs_cell (master_view s) (unat (new_low - 1))]\<rparr>\<rparr>)" (is "ts_inv ?s")
proof -
  note D = ts_invD [OF inv]
  have n: "0 < unat new_low" and empty: "to_buf s = []"
      "fs_cell (to_mem s) (unat new_low - 1) = fq_pushed (to_sys s) ! (unat new_low - 1)"
    using D(7,8) pc by simp_all
  note mv = master_view_empty [OF empty(1)]
  have n': "unat (new_low - 1) = unat new_low - 1"
    using n by (intro unat_minus_one) auto
  have view: "view_ok ?s g = view_ok s g" for g
    by (rule view_ok_cong) simp_all
  have thief: "to_thief_ok ?s d = to_thief_ok s d" for d
    by (rule to_thief_ok_cong) simp_all
  have reset: "reset_ok ?s = reset_ok s"
    by (rule reset_ok_cong) simp_all
  have "low_ok (view_sys ?s)" "popped_ok (to_sys ?s)"
    using D(6,12) pc empty(2) by (simp_all add: low_ok_def popped_ok_def mv n')
  then show ?thesis
    unfolding ts_inv_def using D(1-5,9-11) view thief reset by simp
qed

text \<open>A flush takes the first view away.\<close>

lemma ts_inv_flush:
  assumes inv: "ts_inv s" and buf: "to_buf s = w # ws"
  shows "ts_inv (s\<lparr>to_buf := ws, to_sys := (to_sys s)\<lparr>fq_f := fs_write_do w (to_mem s)\<rparr>\<rparr>)" (is "ts_inv ?s")
proof -
  note D = ts_invD [OF inv]
  let ?f = "fs_write_do w (to_mem s)"
  have later: "view_ok s g" if "g \<in> set (fs_views ?f ws)" for g
    using D(1) [of g] that by (simp add: buf)
  have f: "view_ok s ?f"
    by (rule later [OF first_view])
  then have size: "fs_size ?f = fs_size (to_mem s)"
    by (simp add: view_ok_def)
  have view: "view_ok ?s g = view_ok s g" for g
    by (rule view_ok_cong) (simp_all add: size)
  have mv: "master_view ?s = master_view s"
    by (simp add: master_view_def buf)
  have "unat (fs_high (to_mem s)) \<le> unat (fs_high ?f)"
    using D(2) first_view [of ?f ws] by (simp add: buf)
  then have thief: "to_thief_ok ?s (fq_thief (to_sys s) t)" for t
    using D(10) [of t] by (cases "fq_thief (to_sys s) t") auto
  have low: "low_ok (view_sys ?s) = low_ok (view_sys s)"
    by (rule low_ok_cong) (simp_all add: mv)
  have master: "master_ok (view_sys ?s) c = master_ok (view_sys s) c" for c
    by (rule master_ok_cong) (simp_all add: mv)
  have popped: "popped_ok ((to_sys s)\<lparr>fq_f := ?f\<rparr>) = popped_ok (to_sys s)"
    by (rule popped_ok_cong) simp_all
  have "pop_ok ?s (fq_master (to_sys s))"
    using D(8) buf by (cases "fq_master (to_sys s)") simp_all
  moreover have "reset_ok ?s"
    using D(9) by (cases ws) (auto simp: reset_ok_def buf split: fs_write.splits)
  ultimately show ?thesis
    unfolding ts_inv_def using D(2-7,10-12) later view mv thief low master popped size
    by (simp add: buf)
qed

text \<open>A compare-and-swap that succeeds finds no store of \<open>low\<close> waiting, and changes \<open>low\<close> in every view.\<close>

lemma low_swap_views:
  assumes "\<forall>w\<in>set ws. \<not> stores_low w"
  shows "fs_views (f\<lparr>fs_low := l\<rparr>) ws = map (fs_low_update (\<lambda>_. l)) (fs_views f ws)"
    and "fold fs_write_do ws (f\<lparr>fs_low := l\<rparr>) = (fold fs_write_do ws f)\<lparr>fs_low := l\<rparr>"
    and "fs_low (fold fs_write_do ws f) = fs_low f"
proof -
  have do: "fs_write_do w (g\<lparr>fs_low := l\<rparr>) = (fs_write_do w g)\<lparr>fs_low := l\<rparr>" "fs_low (fs_write_do w g) = fs_low g"
    if "\<not> stores_low w" for w g
    using that by (cases w; simp add: fs_write_do.simps(1) split: option.split)+
  show "fs_views (f\<lparr>fs_low := l\<rparr>) ws = map (fs_low_update (\<lambda>_. l)) (fs_views f ws)"
    using assms by (induction ws arbitrary: f) (simp_all add: do)
  show "fold fs_write_do ws (f\<lparr>fs_low := l\<rparr>) = (fold fs_write_do ws f)\<lparr>fs_low := l\<rparr>"
    using assms by (induction ws arbitrary: f) (simp_all add: do)
  show "fs_low (fold fs_write_do ws f) = fs_low f"
    using assms by (induction ws arbitrary: f) (simp_all add: do)
qed

lemma ts_inv_steal_won:
  assumes inv: "ts_inv s" and pc: "fq_thief (to_sys s) t = T_cas low v" and eq: "fs_low (to_mem s) = low"
    and bound: "to_H s < 2 ^ 64 - 1"
  shows "ts_inv (s\<lparr>to_sys := thief_goto (to_sys s) t T_idle
      \<lparr>fq_f := (to_mem s)\<lparr>fs_low := low + 1\<rparr>, fq_log := fq_log (to_sys s) @ [(Stolen_by t, v)]\<rparr>\<rparr>)" (is "ts_inv ?s")
proof -
  note D = ts_invD [OF inv] and M = mem_ok [OF inv]
  have l: "unat low \<le> to_L s" "unat low < unat (fs_high (to_mem s))" and v: "unat low = to_L s \<longrightarrow> v = fq_pushed (to_sys s) ! unat low"
    using D(10) [of t] pc by simp_all
  then have lt: "unat low < to_H s"
    using M(2) by linarith
  have no_low: "\<forall>w\<in>set (to_buf s). \<not> stores_low w"
  proof (cases "to_buf s")
    case (Cons w ws)
    have "\<not> stores_low w"
      using D(9) l eq by (cases w) (auto simp: reset_ok_def Cons)
    then show ?thesis
      using D(9) by (auto simp: reset_ok_def Cons)
  qed simp
  note swap = low_swap_views(1,2) [OF no_low, where f = "to_mem s" and l = "low + 1"]
    low_swap_views(3) [OF no_low, of "to_mem s"]
  have mv: "master_view ?s = (master_view s)\<lparr>fs_low := low + 1\<rparr>" and low: "fs_low (master_view s) = low"
    using swap eq by (simp_all add: master_view_def)
  have not_reset: "\<forall>high. fq_master (to_sys s) \<noteq> M_pop_reset high"
    using D(6) lt low by (auto simp: low_ok_def)
  then have L: "unat low = to_L s"
    using D(6) low by (cases "fq_master (to_sys s)") (auto simp: low_ok_def)
  have l': "unat (low + 1) = Suc (to_L s)"
    using bound lt L by (simp add: unat_inc [where n = "2 ^ 64 - 1"])
  have view: "view_ok ?s (g\<lparr>fs_low := low + 1\<rparr>)" if "view_ok s g" for g
  proof -
    have "fs_wf (g\<lparr>fs_low := low + 1\<rparr>) = fs_wf g"
      by (simp add: fs_wf_def)
    with that show ?thesis
      by (simp add: view_ok_def)
  qed
  have thief: "to_thief_ok ?s (fq_thief (to_sys s) u)" for u
    using D(10) [of u] by (cases "fq_thief (to_sys s) u") auto
  have "low_ok (view_sys ?s)"
    using D(6) not_reset l' by (cases "fq_master (to_sys s)") (simp_all add: low_ok_def mv)
  moreover have "popped_ok (to_sys ?s)"
    using D(12) by (cases "fq_master (to_sys s)") (simp_all add: popped_ok_def)
  moreover have "master_ok (view_sys ?s) (fq_master (to_sys s))"
    using D(7) not_reset by (cases "fq_master (to_sys s)") (simp_all add: mv)
  moreover have "pop_ok ?s (fq_master (to_sys s))"
    using D(8) not_reset by (cases "fq_master (to_sys s)") simp_all
  moreover have "map snd (fq_log (to_sys s)) @ [v] = take (Suc (to_L s)) (fq_pushed (to_sys s))"
    using D(11) v lt L by (simp add: take_Suc_conv_app_nth)
  moreover have "reset_ok ?s"
    using no_low by (auto simp: reset_ok_def dest: in_set_dropD split: list.split fs_write.split)
  moreover have "map (\<lambda>g. unat (fs_high g)) (fs_views (to_mem ?s) (to_buf ?s)) = map (\<lambda>g. unat (fs_high g)) (fs_views (to_mem s) (to_buf s))"
    using swap(1) by simp
  moreover have "\<forall>g\<in>set (fs_views (to_mem ?s) (to_buf ?s)). view_ok ?s g"
    using swap(1) D(1) view by auto
  ultimately show ?thesis
    unfolding ts_inv_def using D(2-5) lt L mv thief by simp
qed

lemma ts_inv_steal_read:
  assumes inv: "ts_inv s" and pc: "fq_thief (to_sys s) t = T_read low"
  shows "to_thief_ok s (T_cas low (fs_cell (to_mem s) (unat low)))"
  using ts_invD(10) [OF inv, of t] mem_ok(3) [OF inv, of "unat low"] pc
  by (cases "unat low = to_L s") simp_all

lemma ts_inv_low_read:
  assumes inv: "ts_inv s" and pc: "fq_thief (to_sys s) t = T_low high" and lt: "fs_low (to_mem s) < high"
  shows "to_thief_ok s (T_read (fs_low (to_mem s)))"
proof -
  note D = ts_invD [OF inv]
  have low: "unat (fs_low (to_mem s)) < unat (fs_high (to_mem s))"
    using D(10) [of t] pc lt by (simp add: word_less_nat_alt)
  have "unat (fs_low (to_mem s)) \<le> to_L s"
  proof (cases "\<forall>w\<in>set (to_buf s). \<not> stores_low w")
    case True
    then have "fs_low (master_view s) = fs_low (to_mem s)"
      using low_swap_views(3) by (simp add: master_view_def)
    then show ?thesis
      using D(4,6,7) low mem_ok(2) [OF inv] by (cases "fq_master (to_sys s)") (auto simp: low_ok_def)
  next
    case False
    then obtain l ws where "to_buf s = FW_low l # ws"
      using D(9) by (cases "to_buf s") (auto simp: reset_ok_def elim: stores_low.elims(2))
    then show ?thesis
      using D(9) low by (auto simp: reset_ok_def)
  qed
  with low show ?thesis
    by simp
qed

lemma ts_inv_thief_step:
  assumes inv: "ts_inv s" and bound: "to_H s < 2 ^ 64 - 1" and step: "fs_step (to_sys s) v'" and moved: "fq_thief v' t \<noteq> fq_thief (to_sys s) t"
  shows "ts_inv (s\<lparr>to_sys := v'\<rparr>)"
  using step
proof cases
  case (steal_call u)
  then show ?thesis using ts_inv_thief [OF inv, of T_high u] by simp
next
  case (steal_high u)
  then show ?thesis using ts_inv_thief [OF inv, of "T_low (fs_high (to_mem s))" u] by simp
next
  case (steal_low u high)
  have "to_thief_ok s (T_read (fs_low (to_mem s)))" if "fs_low (to_mem s) < high"
    using ts_inv_low_read [OF inv steal_low(2) that] .
  with steal_low show ?thesis
    using ts_inv_thief [OF inv, of "T_read (fs_low (to_mem s))" u] ts_inv_thief [OF inv, of T_idle u] by simp
next
  case (steal_read u low v)
  then show ?thesis
    using ts_inv_thief [OF inv ts_inv_steal_read [OF inv steal_read(2)], of u] mem_ok(1) [OF inv]
    by (simp add: fs_buf_get)
next
  case (steal_won u low v low')
  then have "fs_low (to_mem s) = low" "low' = low + 1"
    by (simp_all add: sync_bool_compare_and_swap_def split: if_splits)
  with steal_won show ?thesis
    using ts_inv_steal_won [OF inv steal_won(2)] bound by simp
next
  case (steal_lost u low v low')
  then show ?thesis using ts_inv_thief [OF inv, of T_idle u] by simp
qed (use moved in simp_all)

lemma ts_step_inv:
  assumes inv: "ts_inv s" and bound: "to_H s' < 2 ^ 64 - 1" and step: "ts_step s s'"
  shows "ts_inv s'"
  using step
proof cases
  case (flush w ws)
  then show ?thesis using ts_inv_flush [OF inv] by simp
next
  case (thief v' t)
  have "fq_pushed v' = fq_pushed (to_sys s)"
    using thief(2,3) by cases simp_all
  then show ?thesis
    using ts_inv_thief_step [OF inv _ thief(2,3)] bound thief(1) by simp
next
  case (push_call data)
  then show ?thesis using ts_inv_goto [OF inv, of "M_push_high data"] by simp
next
  case (push_high data)
  then show ?thesis
    using ts_inv_goto [OF inv, of "M_push_low data (fs_high (master_view s))"] ts_invD(3) [OF inv] by simp
next
  case (push_low data high)
  then show ?thesis
    using ts_inv_goto [OF inv, of "M_push_store data high"] ts_inv_goto [OF inv, of M_idle]
      ts_inv_push_low [OF inv push_low(2)] by (simp del: master_ok.simps(2))
next
  case (push_store data high index b)
  then show ?thesis using ts_inv_push_store [OF inv push_store(2,3)] by simp
next
  case (push_publish data high)
  then show ?thesis using ts_inv_push_publish [OF inv push_publish(2)] bound by simp
next
  case pop_call
  then show ?thesis using ts_inv_goto [OF inv, of M_pop_high] by simp
next
  case pop_high
  then show ?thesis
    using ts_inv_goto [OF inv, of "M_pop_low (fs_high (master_view s))"] ts_invD(3) [OF inv] by simp
next
  case (pop_low high)
  then show ?thesis
    using ts_inv_goto [OF inv, of "M_pop_add high"] ts_inv_goto [OF inv, of M_idle] ts_invD(7) [OF inv] by simp
next
  case (pop_add high new_low low')
  then have n: "new_low = fs_low (to_mem s) + 1" "low' = fs_low (to_mem s) + 1" "to_H s < 2 ^ 64 - 1"
    using bound by (auto simp: sync_add_and_fetch_def)
  show ?thesis
    unfolding pop_add(1) n(1,2) by (rule ts_inv_pop_add [OF inv pop_add(2,3) n(3) refl refl])
next
  case (pop_reset high)
  then show ?thesis using ts_inv_pop_reset [OF inv pop_reset(2)] by simp
next
  case (pop_read new_low v)
  have "v = fs_cell (master_view s) (unat (new_low - 1))"
    using pop_read(3) master_view_ok(1) [OF inv] by (simp add: fs_buf_get)
  then show ?thesis
    using ts_inv_pop_read [OF inv pop_read(2)] pop_read(1) by simp
qed

lemma ts_step_pushed: "ts_step s s' \<Longrightarrow> to_H s \<le> to_H s'"
  by (erule ts_step.cases) (auto dest: fs_step_pushed)

lemma ts_step_size: "ts_step s s' \<Longrightarrow> fs_size (to_mem s') = fs_size (to_mem s)"
proof (erule ts_step.cases, goal_cases)
  case (1 s w ws)
  then show ?case
    by (cases w) (auto simp: fs_write_do.simps(1) split: option.split)
next
  case (2 s v' t)
  then show ?case
    using fs_step_size [of "to_sys s" v'] by (simp add: word_unat_eq_iff)
qed simp_all

lemma ts_init_inv:
  assumes "ts_init k s"
  shows "ts_inv s \<and> unat (fs_size (to_mem s)) = 2 ^ unat k"
proof -
  have init: "fs_init k (to_sys s)" and empty: "to_buf s = []"
    using assms by (simp_all add: ts_init_def)
  have inv: "fs_inv (to_sys s)" and n: "unat (fs_size (to_mem s)) = 2 ^ unat k"
    using fs_init_inv [OF init] by simp_all
  have s: "fq_master (to_sys s) = M_idle" "fq_thief (to_sys s) = (\<lambda>_. T_idle)" "fq_pushed (to_sys s) = []" "fq_log (to_sys s) = []"
    using init by (auto simp: fs_init_def)
  have "low_ok (view_sys s)"
    using fs_invD(5) [OF inv] by (simp add: low_ok_def s master_view_empty [OF empty])
  then show ?thesis
    using fs_invD(1-4,9) [OF inv] n by (simp add: ts_inv_def s empty master_view_empty view_ok_def reset_ok_def)
qed

interpretation tsb: bounded_invariant "ts_init k" ts_step "\<lambda>s. to_H s < 2 ^ 64 - 1"
  "\<lambda>s. ts_inv s \<and> unat (fs_size (to_mem s)) = 2 ^ unat k" for k
proof (unfold_locales, goal_cases)
  case (1 s)
  then show ?case by (rule ts_init_inv)
next
  case (2 s t)
  then show ?case using ts_step_pushed [of s t] by simp
next
  case (3 s t)
  then show ?case using ts_step_inv ts_step_size by metis
qed

section \<open>A run\<close>

text \<open>
  The master's push of 7 returns with both stores in its buffer; they are flushed, and thief 3
  steals 7. \<open>h\<close>, \<open>l\<close> and \<open>x\<close> are \<open>high\<close>, \<open>low\<close> and the first cell in memory.
\<close>

definition ts_demo :: "u64 \<Rightarrow> u64 \<Rightarrow> u64 \<Rightarrow> fs_write list \<Rightarrow> fs_master \<Rightarrow> fs_thief \<Rightarrow> ptr list \<Rightarrow> ptr list \<Rightarrow> fs_tso" where
  "ts_demo h l x ws m th pushed got =
     \<lparr>to_sys = \<lparr>fq_f = \<lparr>fs_high = h, fs_low = l, fs_size = 2, fs_power_of_2_mod = 1, fs_buffer = [x, 0]\<rparr>,
        fq_master = m, fq_thief = (\<lambda>_. T_idle)(3 := th), fq_pushed = pushed,
        fq_log = map (Pair (Stolen_by 3)) got, fq_popped = []\<rparr>, to_buf = ws\<rparr>"

lemma ts_demo_start: "reach (ts_init 1) ts_step (ts_demo 0 0 0 [] M_idle T_idle [] [])"
proof (rule reach_init)
  let ?f = "\<lparr>fs_high = 0, fs_low = 0, fs_size = 2, fs_power_of_2_mod = 1, fs_buffer = [0, 0]\<rparr>"
  have "fifo_steal_buffer_init ?f 1 = Some ?f"
    by (simp add: fifo_steal_buffer_init_def)
  then show "ts_init 1 (ts_demo 0 0 0 [] M_idle T_idle [] [])"
    unfolding ts_init_def fs_init_def
    by (intro conjI exI [of _ ?f]) (simp_all add: ts_demo_def fun_eq_iff)
qed

lemma ts_demo_step:
  "reach (ts_init 1) ts_step s \<Longrightarrow> ts_step s s' \<Longrightarrow> s' = s'' \<Longrightarrow> reach (ts_init 1) ts_step s''"
  by (blast intro: reach_step)

lemmas ts_demo_simps = ts_demo_def master_view_def fs_write_do.simps buf_set_def buf_get_def
  sync_bool_compare_and_swap_def fun_eq_iff

lemma ts_demo_pushed:
  "reach (ts_init 1) ts_step (ts_demo 0 0 0 [FW_cell 0 7, FW_high 1] M_idle T_idle [7] [])"
proof -
  have "reach (ts_init 1) ts_step (ts_demo 0 0 0 [] (M_push_high 7) T_idle [] [])"
    by (rule ts_demo_step [OF ts_demo_start ts_step.push_call [of _ 7]]) (simp_all add: ts_demo_simps)
  from ts_demo_step [OF this ts_step.push_high [of _ 7]]
  have "reach (ts_init 1) ts_step (ts_demo 0 0 0 [] (M_push_low 7 0) T_idle [] [])"
    by (simp add: ts_demo_simps)
  from ts_demo_step [OF this ts_step.push_low [of _ 7 0]]
  have "reach (ts_init 1) ts_step (ts_demo 0 0 0 [] (M_push_store 7 0) T_idle [] [])"
    by (simp add: ts_demo_simps word_less_nat_alt)
  from ts_demo_step [OF this ts_step.push_store [of _ 7 0 0 "[7, 0]"]]
  have "reach (ts_init 1) ts_step (ts_demo 0 0 0 [FW_cell 0 7] (M_push_publish 7 0) T_idle [] [])"
    by (simp add: ts_demo_simps)
  from ts_demo_step [OF this ts_step.push_publish [of _ 7 0]] show ?thesis
    by (simp add: ts_demo_simps)
qed

lemma ts_demo_stolen: "reach (ts_init 1) ts_step (ts_demo 1 1 7 [] M_idle T_idle [7] [7])"
proof -
  let ?s = "\<lambda>c. ts_demo 1 0 7 [] M_idle c [7] []"
  from ts_demo_step [OF ts_demo_pushed ts_step.flush [of _ "FW_cell 0 7" "[FW_high 1]"]]
  have "reach (ts_init 1) ts_step (ts_demo 0 0 7 [FW_high 1] M_idle T_idle [7] [])"
    by (simp add: ts_demo_simps)
  from ts_demo_step [OF this ts_step.flush [of _ "FW_high 1" "[]"]] have "reach (ts_init 1) ts_step (?s T_idle)"
    by (simp add: ts_demo_simps)
  from ts_demo_step [OF this ts_step.thief [where t = 3, OF fs_step.steal_call [of _ 3]]]
  have "reach (ts_init 1) ts_step (?s T_high)"
    by (simp add: ts_demo_simps)
  from ts_demo_step [OF this ts_step.thief [where t = 3, OF fs_step.steal_high [of _ 3]]]
  have "reach (ts_init 1) ts_step (?s (T_low 1))"
    by (simp add: ts_demo_simps)
  from ts_demo_step [OF this ts_step.thief [where t = 3, OF fs_step.steal_low [of _ 3 1]]]
  have "reach (ts_init 1) ts_step (?s (T_read 0))"
    by (simp add: ts_demo_simps)
  from ts_demo_step [OF this ts_step.thief [where t = 3, OF fs_step.steal_read [of _ 3 0 7]]]
  have "reach (ts_init 1) ts_step (?s (T_cas 0 7))"
    by (simp add: ts_demo_simps)
  from ts_demo_step [OF this ts_step.thief [where t = 3, OF fs_step.steal_won [of _ 3 0 7 1]]] show ?thesis
    by (simp add: ts_demo_simps)
qed

section \<open>Properties\<close>

text \<open>A thread in an operation has a next step, or the master has a store to flush.\<close>

lemma fifo_steal_tso_master_progress:
  assumes inv: "ts_inv s" and busy: "fq_master (to_sys s) \<noteq> M_idle"
  shows "\<exists>s'. ts_step s s' \<and> (fq_master (to_sys s') \<noteq> fq_master (to_sys s) \<or> length (to_buf s') < length (to_buf s))"
proof (cases "fq_master (to_sys s)")
  case (M_push_store data high)
  show ?thesis
    unfolding M_push_store
    by (intro exI conjI, rule ts_step.push_store [OF M_push_store refl fs_buf_set [OF master_view_ok(1) [OF inv]]]) simp
next
  case (M_pop_read new_low)
  show ?thesis
    unfolding M_pop_read
    by (intro exI conjI, rule ts_step.pop_read [OF M_pop_read fs_buf_get [OF master_view_ok(1) [OF inv]]]) simp
next
  case (M_push_low data high)
  show ?thesis
    unfolding M_push_low by (intro exI conjI, rule ts_step.push_low [OF M_push_low]) simp
next
  case (M_pop_low high)
  show ?thesis
    unfolding M_pop_low by (intro exI conjI, rule ts_step.pop_low [OF M_pop_low]) simp
next
  case (M_pop_add high)
  show ?thesis
  proof (cases "to_buf s")
    case Nil
    show ?thesis
      unfolding M_pop_add by (intro exI conjI, rule ts_step.pop_add [OF M_pop_add Nil surjective_pairing]) simp
  next
    case (Cons w ws)
    show ?thesis
      by (intro exI conjI, rule ts_step.flush [OF Cons]) (simp add: Cons)
  qed
qed (use busy ts_step.push_high ts_step.push_publish ts_step.pop_high ts_step.pop_reset in fastforce)+

text \<open>
  C4. On x86-TSO, under one master whose stores wait in its buffer and any number of thieves, every
  pushed item leaves the buffer at most once and in push order, whatever the interleaving and the
  flushes: it is popped by the master, stolen by one thief, or dropped; the values the pops
  returned are the popped ones, in order; the capacity is kept; and once the master is between
  operations and its stores are flushed, memory holds exactly the items with no fate yet (for
  fewer than \<open>2 ^ 64 - 1\<close> pushes).
\<close>

theorem fifo_steal_exactly_once_tso:
  assumes "reach (ts_init k) ts_step s" and "length (fq_pushed (to_sys s)) < 2 ^ 64 - 1"
  shows "map snd (fq_log (to_sys s)) = take (length (fq_log (to_sys s))) (fq_pushed (to_sys s))
    \<and> length (fq_log (to_sys s)) \<le> length (fq_pushed (to_sys s))
    \<and> length (fq_pushed (to_sys s)) \<le> length (fq_log (to_sys s)) + 2 ^ unat k
    \<and> prefix (fq_popped (to_sys s)) (map snd (filter (\<lambda>(f, _). f = Popped_by_master) (fq_log (to_sys s))))
    \<and> (fq_master (to_sys s) = M_idle \<and> to_buf s = [] \<longrightarrow>
         fs_items (fq_f (to_sys s)) = drop (length (fq_log (to_sys s))) (fq_pushed (to_sys s)))"
proof -
  have inv: "ts_inv s" and n: "unat (fs_size (to_mem s)) = 2 ^ unat k"
    using tsb.reach_inv [OF assms] by simp_all
  note D = ts_invD [OF inv]
  have "fs_items (to_mem s) = drop (to_L s) (fq_pushed (to_sys s))"
    if "fq_master (to_sys s) = M_idle" "to_buf s = []"
  proof -
    note mv = master_view_empty [OF that(2)]
    have low: "unat (fs_low (to_mem s)) = to_L s" and high: "unat (fs_high (to_mem s)) = to_H s"
      using ts_inv_view_low [OF inv] D(3) that(1) by (simp_all add: mv)
    then show ?thesis
      using mem_ok(3) [OF inv] D(4) by (intro nth_equalityI) (simp_all add: fs_items_def)
  qed
  then show ?thesis
    using D(4,5,11) popped_prefix [OF D(12)] n by simp
qed

theorem fifo_steal_exactly_once_tso_witness:
  "(\<exists>s. reach (ts_init 1) ts_step s \<and> to_buf s = [FW_cell 0 7, FW_high 1] \<and> fq_pushed (to_sys s) = [7])
   \<and> (\<exists>s. reach (ts_init 1) ts_step s \<and> fq_log (to_sys s) = [(Stolen_by 3, 7)] \<and> fs_items (fq_f (to_sys s)) = [])"
proof
  show "\<exists>s. reach (ts_init 1) ts_step s \<and> to_buf s = [FW_cell 0 7, FW_high 1] \<and> fq_pushed (to_sys s) = [7]"
    using ts_demo_pushed by (intro exI [of _ "ts_demo 0 0 0 [FW_cell 0 7, FW_high 1] M_idle T_idle [7] []"]) (simp add: ts_demo_def)
  let ?s = "ts_demo 1 1 7 [] M_idle T_idle [7] [7]"
  show "\<exists>s. reach (ts_init 1) ts_step s \<and> fq_log (to_sys s) = [(Stolen_by 3, 7)] \<and> fs_items (fq_f (to_sys s)) = []"
    using fifo_steal_exactly_once_tso [OF ts_demo_stolen] ts_demo_stolen
    by (intro exI [of _ ?s]) (simp add: ts_demo_def)
qed

end
