(* ===== verification/Fifo_Steal_Sharded.thy ===== *)
theory Fifo_Steal_Sharded
  imports Fifo_Steal
begin

text \<open>
  The sharded buffer of \<open>fifo_steal_buffer.h\<close>: several \<open>fifo_steal_buffer\<close> in one allocation, as
  one thread sees them (Fifo\_Steal\_Sharded\_Conc interleaves them). The memory from \<open>&shards[0]\<close> on is a list of 8-byte words, because the
  code addresses the shards by byte offsets: a shard's struct is read from and written to that
  memory, its buffer being all that follows its header, up to the end of the allocation.
\<close>

section \<open>The struct and its operations\<close>

record sharded_fifo_steal_buffer =
  sh_num_shards :: u32
  sh_memory_per_shard :: u64
  sh_next_shard_push :: u32
  sh_next_shard_pop :: u32
  sh_shards :: "u64 list"

text \<open>\<open>size\<close> and \<open>power_of_2_mod\<close> share the third word of a header (little endian).\<close>

definition pack32 :: "u32 \<Rightarrow> u32 \<Rightarrow> u64" where
  "pack32 a b = ucast a OR push_bit 32 (ucast b)"

definition load_shard :: "u64 list \<Rightarrow> u64 \<Rightarrow> fifo_steal_buffer option" where
  "load_shard mem offset =
     (let i = unat offset div 8
      in if i + 3 \<le> length mem
         then Some \<lparr>fs_high = mem ! i, fs_low = mem ! (i + 1), fs_size = ucast (mem ! (i + 2)),
           fs_power_of_2_mod = ucast (drop_bit 32 (mem ! (i + 2))), fs_buffer = drop (i + 3) mem\<rparr>
         else None)"

definition store_shard :: "u64 list \<Rightarrow> u64 \<Rightarrow> fifo_steal_buffer \<Rightarrow> u64 list" where
  "store_shard mem offset f =
     (let i = unat offset div 8
      in take i mem @ [fs_high f, fs_low f, pack32 (fs_size f) (fs_power_of_2_mod f)] @ fs_buffer f)"

text \<open>
  Creation initialises \<open>&ret->shards[i]\<close>, which is at \<open>i * sizeof(fifo_steal_buffer_t)\<close>, that is 24 bytes
  each. \<open>malloc n\<close> are the contents of an allocation with room for \<open>n\<close> words after the
  \<open>header\<close> bytes of the struct, \<open>None\<close> a failed allocation.
\<close>

fun init_shards :: "u64 list \<Rightarrow> u32 \<Rightarrow> nat \<Rightarrow> nat \<Rightarrow> u64 list option" where
  "init_shards mem k i 0 = Some mem"
| "init_shards mem k i (Suc n) = do {
     let offset = 24 * of_nat i;
     f \<leftarrow> load_shard mem offset;
     f' \<leftarrow> fifo_steal_buffer_init f k;
     init_shards (store_shard mem offset f') k (i + 1) n
   }"

definition sharded_fifo_steal_buffer_create ::
  "u64 \<Rightarrow> (nat \<Rightarrow> u64 list option) \<Rightarrow> u32 \<Rightarrow> u32 \<Rightarrow> sharded_fifo_steal_buffer option option" where
  "sharded_fifo_steal_buffer_create header malloc num_shards shard_power_of_2_size =
     (let shard_size = push_bit (unat shard_power_of_2_size) 1 :: u32;
          memory_per_shard = 24 + ucast shard_size * 8 :: u64;
          total_memory = header + ucast num_shards * memory_per_shard
      in case malloc ((unat total_memory - unat header) div 8) of
           None \<Rightarrow> Some None
         | Some mem \<Rightarrow> do {
             mem' \<leftarrow> init_shards mem shard_power_of_2_size 0 (unat num_shards);
             Some (Some \<lparr>sh_num_shards = num_shards, sh_memory_per_shard = memory_per_shard,
               sh_next_shard_push = 0, sh_next_shard_pop = 0, sh_shards = mem'\<rparr>)
           })"

text \<open>The shards are part of the one block.\<close>

definition sharded_fifo_steal_buffer_destroy ::
  "(ptr \<Rightarrow> sharded_fifo_steal_buffer option) \<Rightarrow> ptr \<Rightarrow> (ptr \<Rightarrow> sharded_fifo_steal_buffer option) option" where
  "sharded_fifo_steal_buffer_destroy fifos fifo = free_block fifos fifo"

text \<open>The shard to use and the new value of \<open>*which\<close>.\<close>

definition sharded_fifo_steal_buffer_next_shard :: "sharded_fifo_steal_buffer \<Rightarrow> u32 \<Rightarrow> u32 \<times> u32" where
  "sharded_fifo_steal_buffer_next_shard fifo which =
     (let ret = which; new_value = ret + 1
      in (ret, if new_value \<ge> sh_num_shards fifo then 0 else new_value))"

definition sharded_fifo_steal_buffer_get_shard :: "sharded_fifo_steal_buffer \<Rightarrow> u32 \<Rightarrow> u64" where
  "sharded_fifo_steal_buffer_get_shard fifo index = sh_memory_per_shard fifo * ucast index"

fun sharded_push_loop ::
  "nat \<Rightarrow> sharded_fifo_steal_buffer \<Rightarrow> ptr \<Rightarrow> (int \<times> sharded_fifo_steal_buffer) option" where
  "sharded_push_loop 0 fifo data = Some (0, fifo)"
| "sharded_push_loop (Suc n) fifo data = do {
     let (shard, next) = sharded_fifo_steal_buffer_next_shard fifo (sh_next_shard_push fifo);
     let offset = sharded_fifo_steal_buffer_get_shard fifo shard;
     f \<leftarrow> load_shard (sh_shards fifo) offset;
     (r, f') \<leftarrow> fifo_steal_buffer_push f data;
     let fifo' = fifo\<lparr>sh_next_shard_push := next, sh_shards := store_shard (sh_shards fifo) offset f'\<rparr>;
     if r \<noteq> 0 then Some (1, fifo') else sharded_push_loop n fifo' data
   }"

definition sharded_fifo_steal_buffer_push ::
  "sharded_fifo_steal_buffer \<Rightarrow> ptr \<Rightarrow> (int \<times> sharded_fifo_steal_buffer) option" where
  "sharded_fifo_steal_buffer_push fifo data = sharded_push_loop (unat (sh_num_shards fifo)) fifo data"

text \<open>\<open>pop\<close> and \<open>steal\<close> also return what they wrote to \<open>*out\<close>, \<open>None\<close> for nothing.\<close>

fun sharded_pop_loop ::
  "nat \<Rightarrow> sharded_fifo_steal_buffer \<Rightarrow> (int \<times> ptr option \<times> sharded_fifo_steal_buffer) option" where
  "sharded_pop_loop 0 fifo = Some (0, None, fifo)"
| "sharded_pop_loop (Suc n) fifo = do {
     let (shard, next) = sharded_fifo_steal_buffer_next_shard fifo (sh_next_shard_pop fifo);
     let offset = sharded_fifo_steal_buffer_get_shard fifo shard;
     f \<leftarrow> load_shard (sh_shards fifo) offset;
     (r, out, f') \<leftarrow> fifo_steal_buffer_pop f;
     let fifo' = fifo\<lparr>sh_next_shard_pop := next, sh_shards := store_shard (sh_shards fifo) offset f'\<rparr>;
     if r \<noteq> 0 then Some (1, out, fifo') else sharded_pop_loop n fifo'
   }"

definition sharded_fifo_steal_buffer_pop ::
  "sharded_fifo_steal_buffer \<Rightarrow> (int \<times> ptr option \<times> sharded_fifo_steal_buffer) option" where
  "sharded_fifo_steal_buffer_pop fifo = sharded_pop_loop (unat (sh_num_shards fifo)) fifo"

definition SHARDED_FIFO_STEAL_BUFFER_EMPTY :: int where "SHARDED_FIFO_STEAL_BUFFER_EMPTY = 0"
definition SHARDED_FIFO_STEAL_BUFFER_ABORT :: int where "SHARDED_FIFO_STEAL_BUFFER_ABORT = - 1"
definition SHARDED_FIFO_STEAL_BUFFER_SUCCESS :: int where "SHARDED_FIFO_STEAL_BUFFER_SUCCESS = 1"

lemmas sharded_result_defs = SHARDED_FIFO_STEAL_BUFFER_EMPTY_def SHARDED_FIFO_STEAL_BUFFER_ABORT_def
  SHARDED_FIFO_STEAL_BUFFER_SUCCESS_def

function sharded_steal_loop ::
  "u32 \<Rightarrow> u32 \<Rightarrow> int \<Rightarrow> ptr option \<Rightarrow> sharded_fifo_steal_buffer
     \<Rightarrow> (int \<times> ptr option \<times> sharded_fifo_steal_buffer) option" where
  "sharded_steal_loop i stop final_ret out fifo =
     (if i < stop then do {
        let offset = sharded_fifo_steal_buffer_get_shard fifo (i mod sh_num_shards fifo);
        f \<leftarrow> load_shard (sh_shards fifo) offset;
        (ret, out', f') \<leftarrow> fifo_steal_buffer_steal f;
        let fifo' = fifo\<lparr>sh_shards := store_shard (sh_shards fifo) offset f'\<rparr>;
        let out'' = (case out' of None \<Rightarrow> out | Some v \<Rightarrow> Some v);
        if ret = FIFO_STEAL_BUFFER_SUCCESS then Some (SHARDED_FIFO_STEAL_BUFFER_SUCCESS, out'', fifo')
        else sharded_steal_loop (i + 1) stop
          (if ret = FIFO_STEAL_BUFFER_ABORT then SHARDED_FIFO_STEAL_BUFFER_ABORT else final_ret) out'' fifo'
      }
      else Some (final_ret, out, fifo))"
  by pat_completeness auto
termination
  by (relation "measure (\<lambda>(i, e, _). unat e - unat i)") (auto simp: unat_Suc_less word_less_nat_alt)

definition sharded_fifo_steal_buffer_steal ::
  "sharded_fifo_steal_buffer \<Rightarrow> u32 \<Rightarrow> (int \<times> ptr option \<times> sharded_fifo_steal_buffer) option" where
  "sharded_fifo_steal_buffer_steal fifo hint =
     sharded_steal_loop hint (hint + sh_num_shards fifo) SHARDED_FIFO_STEAL_BUFFER_EMPTY None fifo"

section \<open>The memory\<close>

lemma unpack32:
  "(ucast (pack32 a b) :: u32) = a" "(ucast (drop_bit 32 (pack32 a b)) :: u32) = b"
  by (rule bit_word_eqI, auto simp: pack32_def bit_simps dest: bit_imp_le_length)+

lemma length_store:
  "unat off div 8 + 3 + length (fs_buffer f) = length mem \<Longrightarrow> length (store_shard mem off f) = length mem"
  by (simp add: store_shard_def Let_def)

text \<open>What is stored at an offset is loaded from it.\<close>

lemma load_store:
  assumes "unat off div 8 + 3 + length (fs_buffer f) = length mem"
  shows "load_shard (store_shard mem off f) off = Some f"
proof -
  let ?i = "unat off div 8" and ?m = "store_shard mem off f"
  have len: "length (take ?i mem) = ?i"
    using assms by simp
  have "?m ! ?i = fs_high f" "?m ! (?i + 1) = fs_low f" "?m ! (?i + 2) = pack32 (fs_size f) (fs_power_of_2_mod f)"
      "drop (?i + 3) ?m = fs_buffer f"
    using len by (simp_all add: store_shard_def Let_def nth_append)
  moreover have "?i + 3 \<le> length ?m"
    using assms by (simp add: length_store)
  ultimately show ?thesis
    by (simp add: load_shard_def Let_def unpack32)
qed

lemma load_buffer:
  "load_shard mem off = Some f \<Longrightarrow> unat off div 8 + 3 + length (fs_buffer f) = length mem"
  by (auto simp: load_shard_def Let_def split: if_splits)

text \<open>Storing changes the header and what the new buffer has different.\<close>

lemma store_other:
  assumes f: "load_shard mem off = Some f" and len: "length (fs_buffer f') = length (fs_buffer f)"
    and same: "\<And>p. sz \<le> p \<Longrightarrow> p < length (fs_buffer f) \<Longrightarrow> fs_buffer f' ! p = fs_buffer f ! p"
    and q: "q < length mem" "q < unat off div 8 \<or> unat off div 8 + 3 + sz \<le> q"
  shows "store_shard mem off f' ! q = mem ! q"
proof -
  let ?i = "unat off div 8"
  have L: "?i + 3 + length (fs_buffer f) = length mem" and b: "fs_buffer f = drop (?i + 3) mem"
    using f load_buffer [OF f] by (auto simp: load_shard_def Let_def split: if_splits)
  show ?thesis
  proof (cases "q < ?i")
    case True
    then show ?thesis
      using L by (simp add: store_shard_def Let_def nth_append)
  next
    case False
    then have ge: "?i + 3 + sz \<le> q"
      using q(2) by simp
    have "store_shard mem off f' ! q = fs_buffer f' ! (q - (?i + 3))"
      using ge L by (simp add: store_shard_def Let_def nth_append nth_Cons' numeral_3_eq_3)
    also have "\<dots> = fs_buffer f ! (q - (?i + 3))"
      using ge q(1) L by (intro same) linarith+
    also have "\<dots> = mem ! q"
      using ge q(1) L by (simp add: b)
    finally show ?thesis .
  qed
qed

section \<open>Well-formed sharded buffers\<close>

text \<open>Shard \<open>i\<close> has the words from \<open>(3 + sz) * i\<close> on: 3 of the header and \<open>sz\<close> of the buffer.\<close>

definition shard :: "sharded_fifo_steal_buffer \<Rightarrow> nat \<Rightarrow> fifo_steal_buffer" where
  "shard s i = the (load_shard (sh_shards s) (sh_memory_per_shard s * of_nat i))"

definition shard_items :: "sharded_fifo_steal_buffer \<Rightarrow> nat \<Rightarrow> ptr list" where
  "shard_items s i = fs_items (shard s i)"

definition sharded_layout :: "nat \<Rightarrow> nat \<Rightarrow> sharded_fifo_steal_buffer \<Rightarrow> bool" where
  [inv_defs]: "sharded_layout sz n s \<longleftrightarrow>
     0 < n \<and> unat (sh_num_shards s) = n \<and> unat (sh_memory_per_shard s) = 24 + 8 * sz
   \<and> n * (24 + 8 * sz) < 2 ^ 64 \<and> length (sh_shards s) = n * (3 + sz)
   \<and> (\<forall>i < n. fs_wf (shard s i) \<and> unat (fs_size (shard s i)) = sz)
   \<and> unat (sh_next_shard_push s) < n \<and> unat (sh_next_shard_pop s) < n"

text \<open>The block alone, whatever the headers in it say.\<close>

definition sharded_block :: "nat \<Rightarrow> nat \<Rightarrow> sharded_fifo_steal_buffer \<Rightarrow> bool" where
  [inv_defs]: "sharded_block sz n s \<longleftrightarrow>
     0 < n \<and> unat (sh_num_shards s) = n \<and> unat (sh_memory_per_shard s) = 24 + 8 * sz
   \<and> n * (24 + 8 * sz) < 2 ^ 64 \<and> length (sh_shards s) = n * (3 + sz)
   \<and> unat (sh_next_shard_push s) < n \<and> unat (sh_next_shard_pop s) < n"

lemma sharded_layout_iff:
  "sharded_layout sz n s \<longleftrightarrow>
     sharded_block sz n s \<and> (\<forall>i < n. fs_wf (shard s i) \<and> unat (fs_size (shard s i)) = sz)"
  by (auto simp: sharded_layout_def sharded_block_def)

lemma layout_block: "sharded_layout sz n s \<Longrightarrow> sharded_block sz n s"
  by (simp add: sharded_layout_iff)

definition sharded_ok :: "nat \<Rightarrow> nat \<Rightarrow> sharded_fifo_steal_buffer \<Rightarrow> bool" where
  [inv_defs]: "sharded_ok sz n s \<longleftrightarrow> sharded_layout sz n s \<and> (\<forall>i < n. fs_ok (shard s i))"

lemma offset_words:
  assumes M: "unat M = 24 + 8 * sz" and lt: "(24 + 8 * sz) * i < 2 ^ 64"
  shows "unat (M * of_nat i :: u64) div 8 = (3 + sz) * i"
proof -
  have "i \<le> (24 + 8 * sz) * i"
    by simp
  then have "unat (of_nat i :: u64) = i"
    using lt by (intro unat_of_nat_u64) linarith
  then have "unat (M * of_nat i) = (24 + 8 * sz) * i mod 2 ^ 64"
    using M by (simp add: unat_word_ariths)
  also have "\<dots> = 8 * ((3 + sz) * i)"
    using lt by (simp add: algebra_simps)
  finally show ?thesis
    by simp
qed

lemma offset_bound:
  fixes sz :: nat
  assumes "i < n"
  shows "(24 + 8 * sz) * i \<le> n * (24 + 8 * sz)" "(3 + sz) * i + 3 + sz \<le> n * (3 + sz)"
proof -
  show "(24 + 8 * sz) * i \<le> n * (24 + 8 * sz)"
    using assms by simp
  have "(3 + sz) * Suc i \<le> (3 + sz) * n"
    using assms by (intro mult_le_mono2) simp
  then show "(3 + sz) * i + 3 + sz \<le> n * (3 + sz)"
    by (simp add: algebra_simps)
qed

lemma block_offset:
  assumes "sharded_block sz n s" and "i < n"
  shows "unat (sh_memory_per_shard s * of_nat i) div 8 = (3 + sz) * i"
    "(3 + sz) * i + 3 + sz \<le> length (sh_shards s)"
  using assms offset_words [of "sh_memory_per_shard s" sz i] offset_bound [OF assms(2), of sz]
  by (simp_all add: sharded_block_def)

lemma block_loads:
  assumes "sharded_block sz n s" and "i < n"
  shows "load_shard (sh_shards s) (sh_memory_per_shard s * of_nat i) = Some (shard s i)"
  using block_offset [OF assms] by (simp add: shard_def load_shard_def Let_def)

lemmas layout_offset = block_offset [OF layout_block]
lemmas layout_loads = block_loads [OF layout_block]

lemma layout_shard:
  assumes "sharded_layout sz n s" and "i < n"
  shows "fs_wf (shard s i)" "unat (fs_size (shard s i)) = sz" "0 < sz"
  using assms fs_wf_pos [of "shard s i"] by (auto simp: sharded_layout_def)

lemma fs_ok_wf: "fs_ok f \<Longrightarrow> fs_wf f"
  by (simp add: fs_ok_def)

lemma sharded_ok_layout: "sharded_ok sz n s \<Longrightarrow> sharded_layout sz n s"
  by (simp add: sharded_ok_def)

lemmas shard_loads = layout_loads [OF sharded_ok_layout]

text \<open>The shard a 32-bit index stands for.\<close>

lemma get_shard_index: "sharded_fifo_steal_buffer_get_shard s i = sh_memory_per_shard s * of_nat (unat i)"
  by (simp add: sharded_fifo_steal_buffer_get_shard_def)

text \<open>An operation on shard \<open>i\<close> that stays within its \<open>sz\<close> cells leaves the other shards alone.\<close>

definition within :: "nat \<Rightarrow> fifo_steal_buffer \<Rightarrow> fifo_steal_buffer \<Rightarrow> bool" where
  "within sz f f' \<longleftrightarrow> fs_size f' = fs_size f \<and> length (fs_buffer f') = length (fs_buffer f)
     \<and> (\<forall>p. sz \<le> p \<and> p < length (fs_buffer f) \<longrightarrow> fs_buffer f' ! p = fs_buffer f ! p)"

definition with_shard :: "sharded_fifo_steal_buffer \<Rightarrow> nat \<Rightarrow> fifo_steal_buffer \<Rightarrow> sharded_fifo_steal_buffer" where
  "with_shard s i f = s\<lparr>sh_shards := store_shard (sh_shards s) (sh_memory_per_shard s * of_nat i) f\<rparr>"

lemma block_with_shard:
  assumes "sharded_block sz n s" and "i < n" and "within sz (shard s i) f"
  shows "shard (with_shard s i f) i = f" "length (sh_shards (with_shard s i f)) = length (sh_shards s)"
    "sharded_block sz n (with_shard s i f)"
proof -
  note L = load_buffer [OF block_loads [OF assms(1,2)]]
  show "shard (with_shard s i f) i = f"
    using load_store L assms(3) by (simp add: shard_def with_shard_def within_def)
  show len: "length (sh_shards (with_shard s i f)) = length (sh_shards s)"
    using L assms(3) by (simp add: with_shard_def within_def length_store)
  show "sharded_block sz n (with_shard s i f)"
    using assms(1) len by (simp add: sharded_block_def) (simp add: with_shard_def)
qed

lemmas with_shard_same = block_with_shard(1) [OF layout_block]
lemmas with_shard_length = block_with_shard(2) [OF layout_block]

text \<open>A shard without the words behind it.\<close>

definition clip :: "fifo_steal_buffer \<Rightarrow> fifo_steal_buffer" where
  "clip f = f\<lparr>fs_buffer := take (unat (fs_size f)) (fs_buffer f)\<rparr>"

lemma clip_fields [simp]:
  "fs_high (clip f) = fs_high f" "fs_low (clip f) = fs_low f" "fs_size (clip f) = fs_size f"
  "fs_power_of_2_mod (clip f) = fs_power_of_2_mod f"
  by (simp_all add: clip_def)

lemma clip_wf [simp]: "fs_wf (clip f) = fs_wf f"
  by (auto simp: fs_wf_def clip_def unat_push_bit_1 simp del: push_bit_of_1)

lemma clip_cell [simp]: "fs_wf f \<Longrightarrow> fs_cell (clip f) = fs_cell f"
  using fs_wf_pos [of f] by (simp add: fs_cell_def clip_def fun_eq_iff)

lemma clip_eqD:
  assumes "clip f' = clip f" and "fs_wf f"
  shows "fs_wf f'" "fs_ok f' = fs_ok f" "fs_items f' = fs_items f" "fs_size f' = fs_size f" "fs_room f' = fs_room f"
proof -
  note same = clip_fields [of f, folded assms(1), simplified]
  show wf: "fs_wf f'"
    using assms clip_wf by metis
  show "fs_size f' = fs_size f" "fs_room f' = fs_room f" "fs_ok f' = fs_ok f"
    using same wf assms(2) by (simp_all add: fs_room_def fs_ok_def)
  have "fs_cell f' = fs_cell f"
    using clip_cell [OF wf] clip_cell [OF assms(2)] assms(1) by simp
  then show "fs_items f' = fs_items f"
    using same by (simp add: fs_items_def)
qed

lemma block_with_shard_other:
  assumes ok: "sharded_block sz n s" and i: "i < n" and w: "within sz (shard s i) f" and j: "j < n" "j \<noteq> i"
    and sz: "unat (fs_size (shard s j)) \<le> sz"
  shows "clip (shard (with_shard s i f) j) = clip (shard s j)"
proof -
  let ?m = "sh_shards s" and ?off = "sh_memory_per_shard s * of_nat i" and ?w = "3 + sz"
  let ?m' = "store_shard ?m ?off f"
  note oi = block_offset [OF ok i] and oj = block_offset [OF ok j(1)]
  have len: "length ?m' = length ?m"
    using block_with_shard(2) [OF ok i w] by (simp add: with_shard_def)
  have agree: "?m' ! q = ?m ! q" if "?w * j \<le> q" "q < ?w * j + ?w" for q
  proof (rule store_other [OF block_loads [OF ok i]])
    show "length (fs_buffer f) = length (fs_buffer (shard s i))"
      using w by (simp add: within_def)
    show "fs_buffer f ! p = fs_buffer (shard s i) ! p" if "sz \<le> p" "p < length (fs_buffer (shard s i))" for p
      using w that by (simp add: within_def)
    show "q < length ?m"
      using that(2) oj(2) by linarith
    have "j < i \<or> i < j"
      using j(2) by auto
    then have "?w * j + ?w \<le> ?w * i \<or> ?w * i + ?w \<le> ?w * j"
      using mult_le_mono2 [of "Suc j" i ?w] mult_le_mono2 [of "Suc i" j ?w] by auto
    then show "q < unat ?off div 8 \<or> unat ?off div 8 + 3 + sz \<le> q"
      using that oi(1) by linarith
  qed
  have new: "shard (with_shard s i f) j = \<lparr>fs_high = fs_high (shard s j), fs_low = fs_low (shard s j),
      fs_size = fs_size (shard s j), fs_power_of_2_mod = fs_power_of_2_mod (shard s j), fs_buffer = drop (?w * j + 3) ?m'\<rparr>"
    using oj len agree [of "?w * j"] agree [of "?w * j + 1"] agree [of "?w * j + 2"]
    by (simp add: shard_def with_shard_def load_shard_def Let_def)
  have "take (unat (fs_size (shard s j))) (drop (?w * j + 3) ?m') = take (unat (fs_size (shard s j))) (drop (?w * j + 3) ?m)"
    using len oj(2) sz by (intro nth_equalityI) (auto intro!: agree)
  moreover have "fs_buffer (shard s j) = drop (?w * j + 3) ?m"
    using oj by (simp add: shard_def load_shard_def Let_def)
  ultimately show ?thesis
    by (simp add: new clip_def)
qed

lemma clip_with_shard_other:
  assumes "sharded_layout sz n s" and "i < n" and "within sz (shard s i) f" and "j < n" "j \<noteq> i"
  shows "clip (shard (with_shard s i f) j) = clip (shard s j)"
  using block_with_shard_other [OF layout_block [OF assms(1)] assms(2-5)] layout_shard(2) [OF assms(1,4)] by simp

lemma with_shard_layout:
  assumes ok: "sharded_layout sz n s" and i: "i < n" and w: "within sz (shard s i) f" and f: "fs_wf f"
  shows "sharded_layout sz n (with_shard s i f)"
proof -
  have "fs_wf (shard (with_shard s i f) j) \<and> unat (fs_size (shard (with_shard s i f) j)) = sz" if "j < n" for j
    using with_shard_same [OF ok i w] w f layout_shard(1,2) [OF ok that]
      clip_eqD(1,4) [OF clip_with_shard_other [OF ok i w that]] layout_shard(2) [OF ok i]
    by (cases "j = i") (simp_all add: within_def)
  then show ?thesis
    using block_with_shard(3) [OF layout_block [OF ok] i w] by (simp add: sharded_layout_iff)
qed

lemma with_shard_other:
  assumes ok: "sharded_ok sz n s" and i: "i < n" and w: "within sz (shard s i) f" and j: "j < n" "j \<noteq> i"
  shows "fs_items (shard (with_shard s i f) j) = fs_items (shard s j)"
    "fs_ok (shard (with_shard s i f) j)" "fs_size (shard (with_shard s i f) j) = fs_size (shard s j)"
    "fs_room (shard (with_shard s i f) j) = fs_room (shard s j)"
proof -
  note lay = sharded_ok_layout [OF ok]
  have "fs_ok (shard s j)"
    using ok j(1) by (simp add: sharded_ok_def)
  then show "fs_items (shard (with_shard s i f) j) = fs_items (shard s j)"
    "fs_ok (shard (with_shard s i f) j)" "fs_size (shard (with_shard s i f) j) = fs_size (shard s j)"
    "fs_room (shard (with_shard s i f) j) = fs_room (shard s j)"
    using clip_eqD [OF clip_with_shard_other [OF lay i w j]] layout_shard(1) [OF lay j(1)] by simp_all
qed

lemma with_shard_ok:
  assumes ok: "sharded_ok sz n s" and i: "i < n" and w: "within sz (shard s i) f" and f: "fs_ok f"
  shows "sharded_ok sz n (with_shard s i f)"
proof -
  note lay = sharded_ok_layout [OF ok]
  have "fs_ok (shard (with_shard s i f) j)" if "j < n" for j
    using with_shard_same [OF lay i w] f with_shard_other(2) [OF ok i w that] by (cases "j = i") simp_all
  moreover have "fs_wf f"
    using f by (simp add: fs_ok_def)
  ultimately show ?thesis
    using with_shard_layout [OF lay i w] by (simp add: sharded_ok_def)
qed

text \<open>Each operation of a shard stays within its cells.\<close>

lemma push_within:
  "fifo_steal_buffer_push f x = Some (r, f') \<Longrightarrow> fs_wf f \<Longrightarrow> within (unat (fs_size f)) f f'"
  using fs_wf_pos [of f] mod_less_divisor [of "unat (fs_size f)" "unat (fs_high f)"]
  by (auto simp: fifo_steal_buffer_push_def Let_def within_def fs_buf_set simp flip: not_less split: if_splits
      intro!: nth_list_update_neq)

lemma pop_within: "fifo_steal_buffer_pop f = Some (r, out, f') \<Longrightarrow> within sz f f'"
  by (auto simp: fifo_steal_buffer_pop_def Let_def within_def sync_add_and_fetch_def
      split: if_splits option.splits bind_splits)

lemma steal_within: "fifo_steal_buffer_steal f = Some (r, out, f') \<Longrightarrow> within sz f f'"
  by (auto simp: fifo_steal_buffer_steal_def Let_def within_def sync_bool_compare_and_swap_def
      split: if_splits option.splits bind_splits)

section \<open>What the operations do\<close>

text \<open>
  The first of the \<open>m\<close> shards from \<open>p\<close> on, round the end, that satisfies \<open>P\<close>: how many
  shards come before it.
\<close>

definition first_from :: "nat \<Rightarrow> nat \<Rightarrow> nat \<Rightarrow> (nat \<Rightarrow> bool) \<Rightarrow> nat option" where
  "first_from n m p P = List.find (\<lambda>t. P ((p + t) mod n)) [0..<m]"

lemma first_from_0 [simp]: "first_from n 0 p P = None"
  by (simp add: first_from_def)

lemma first_from_Suc:
  assumes "p < n"
  shows "first_from n (Suc m) p P = (if P p then Some 0 else map_option Suc (first_from n m (Suc p mod n) P))"
proof -
  have map: "List.find Q (map Suc xs) = map_option Suc (List.find (\<lambda>t. Q (Suc t)) xs)" for Q xs
    by (induction xs) simp_all
  have "[0..<Suc m] = 0 # map Suc [0..<m]"
    by (simp add: map_Suc_upt upt_conv_Cons del: upt_Suc)
  then show ?thesis
    using assms by (simp add: first_from_def map mod_add_left_eq del: upt_Suc)
qed

lemma first_from_cong:
  assumes "0 < n" and "\<And>j. j < n \<Longrightarrow> P j = Q j"
  shows "first_from n m p P = first_from n m p Q"
  using assms by (simp add: first_from_def)

lemma first_from_less: "first_from n m p P = Some t \<Longrightarrow> t < m"
  by (auto simp: first_from_def find_Some_iff)

text \<open>How many shards the search visits.\<close>

definition visited :: "nat \<Rightarrow> nat \<Rightarrow> nat \<Rightarrow> (nat \<Rightarrow> bool) \<Rightarrow> nat" where
  "visited n m p P = (case first_from n m p P of None \<Rightarrow> m | Some t \<Rightarrow> Suc t)"

lemma visited_le: "visited n m p P \<le> m"
  using first_from_less by (auto simp: visited_def Suc_le_eq split: option.splits)

lemma block_next_shard:
  assumes "sharded_block sz n s" and "unat w < n"
  shows "\<exists>w'. sharded_fifo_steal_buffer_next_shard s w = (w, w') \<and> unat w' = Suc (unat w) mod n"
proof -
  have n: "unat (sh_num_shards s) = n"
    using assms(1) by (simp add: sharded_block_def)
  then have "n < 2 ^ 32"
    using unsigned_less [of "sh_num_shards s", where 'a = nat] by simp
  then have "unat (w + 1) = Suc (unat w)"
    using assms(2) by (simp add: unat_word_ariths)
  then show ?thesis
    using assms(2) n by (cases "Suc (unat w) = n")
      (auto simp: sharded_fifo_steal_buffer_next_shard_def Let_def word_le_nat_alt)
qed

lemmas next_shard = block_next_shard [OF layout_block]

lemma shard_fields [simp]:
  "shard (s\<lparr>sh_next_shard_push := w\<rparr>) = shard s" "shard (s\<lparr>sh_next_shard_pop := w\<rparr>) = shard s"
  "shard_items (s\<lparr>sh_next_shard_push := w\<rparr>) = shard_items s"
  "shard_items (s\<lparr>sh_next_shard_pop := w\<rparr>) = shard_items s"
  by (simp_all add: shard_def shard_items_def fun_eq_iff)

lemma with_shard_fields [simp]:
  "sh_num_shards (with_shard s i f) = sh_num_shards s"
  "sh_next_shard_push (with_shard s i f) = sh_next_shard_push s"
  "sh_next_shard_pop (with_shard s i f) = sh_next_shard_pop s"
  by (simp_all add: with_shard_def)

lemma shard_step:
  assumes ok: "sharded_ok sz n s" and i: "i < n" and w: "within sz (shard s i) f" and f: "fs_ok f"
  shows "sharded_ok sz n (with_shard s i f)"
    and "\<forall>j<n. shard_items (with_shard s i f) j = (if j = i then fs_items f else shard_items s j)"
    and "\<forall>j<n. fs_room (shard (with_shard s i f) j) = (if j = i then fs_room f else fs_room (shard s j))"
  using with_shard_ok [OF ok i w f] with_shard_same [OF sharded_ok_layout [OF ok] i w] with_shard_other [OF ok i w]
  by (auto simp: shard_items_def)

lemma sharded_ok_next:
  "sharded_ok sz n s \<Longrightarrow> unat w < n \<Longrightarrow> sharded_ok sz n (s\<lparr>sh_next_shard_push := w\<rparr>)"
  "sharded_ok sz n s \<Longrightarrow> unat w < n \<Longrightarrow> sharded_ok sz n (s\<lparr>sh_next_shard_pop := w\<rparr>)"
  by (simp_all add: sharded_ok_def sharded_layout_def)

lemma shard_ok:
  assumes "sharded_ok sz n s" and "i < n"
  shows "fs_ok (shard s i)" "fs_wf (shard s i)" "unat (fs_size (shard s i)) = sz"
proof -
  show "fs_ok (shard s i)" "unat (fs_size (shard s i)) = sz"
    using assms by (simp_all add: sharded_ok_def sharded_layout_def)
  then show "fs_wf (shard s i)"
    by (simp add: fs_ok_def)
qed

lemma push_full:
  "fs_ok f \<Longrightarrow> \<not> length (fs_items f) < unat (fs_size f) \<Longrightarrow> fifo_steal_buffer_push f x = Some (0, f)"
  by (simp add: fifo_steal_buffer_push_def fs_room_iff Let_def del: length_fs_items)

lemma within_refl [simp]: "within sz f f"
  by (simp add: within_def)

text \<open>\<open>push\<close> takes the first shard with room.\<close>

lemma push_loop:
  assumes "sharded_ok sz n s" and "\<forall>j<n. 0 < fs_room (shard s j)"
  shows "\<exists>s'. sharded_push_loop m s x =
      Some (if first_from n m (unat (sh_next_shard_push s)) (\<lambda>j. length (shard_items s j) < sz) = None
        then 0 else 1, s')
    \<and> sharded_ok sz n s'
    \<and> (\<forall>j<n. shard_items s' j =
        (case first_from n m (unat (sh_next_shard_push s)) (\<lambda>j. length (shard_items s j) < sz) of
           None \<Rightarrow> shard_items s j
         | Some t \<Rightarrow> if j = (unat (sh_next_shard_push s) + t) mod n then shard_items s j @ [x]
             else shard_items s j))"
  using assms
proof (induction m arbitrary: s)
  case 0
  then show ?case by simp
next
  case (Suc m)
  let ?p = "unat (sh_next_shard_push s)" and ?P = "\<lambda>s j. length (shard_items s j) < sz"
  have ok: "sharded_ok sz n s" and p: "?p < n" and n: "0 < n"
    using Suc.prems(1) by (auto simp: sharded_ok_def sharded_layout_def)
  note sh = shard_ok [OF ok p]
  obtain w where w: "sharded_fifo_steal_buffer_next_shard s (sh_next_shard_push s) = (sh_next_shard_push s, w)"
      "unat w = Suc ?p mod n"
    using next_shard [OF sharded_ok_layout [OF ok] p] by blast
  let ?s = "\<lambda>f. with_shard (s\<lparr>sh_next_shard_push := w\<rparr>) ?p f"
  have "sharded_ok sz n (s\<lparr>sh_next_shard_push := w\<rparr>)"
    using sharded_ok_next(1) [OF ok] w(2) n by simp
  note step = shard_step [OF this p]
  show ?case
  proof (cases "?P s ?p")
    case True
    then obtain f where f: "fifo_steal_buffer_push (shard s ?p) x = Some (1, f)" "fs_ok f"
        "fs_items f = fs_items (shard s ?p) @ [x]"
      using fs_push_law [OF sh(1), of x] Suc.prems(2) p sh(3) by (auto simp: shard_items_def)
    then have within: "within sz (shard (s\<lparr>sh_next_shard_push := w\<rparr>) ?p) f"
      using push_within sh(2,3) by auto
    have "sharded_push_loop (Suc m) s x = Some (1, ?s f)"
      using w(1) f(1) shard_loads [OF ok p] by (simp add: get_shard_index with_shard_def)
    then show ?thesis
      using step [OF within f(2)] True p f(3) by (simp add: first_from_Suc shard_items_def)
  next
    case False
    then have f: "fifo_steal_buffer_push (shard s ?p) x = Some (0, shard s ?p)"
      using push_full [OF sh(1)] sh(3) by (simp add: shard_items_def)
    let ?t = "?s (shard s ?p)"
    have loop: "sharded_push_loop (Suc m) s x = sharded_push_loop m ?t x"
      using w(1) f shard_loads [OF ok p] by (simp add: get_shard_index with_shard_def)
    have same: "sharded_ok sz n ?t" "\<forall>j<n. shard_items ?t j = shard_items s j"
        "\<forall>j<n. fs_room (shard ?t j) = fs_room (shard s j)"
      using step [of "shard s ?p"] sh(1) by (auto simp: shard_items_def)
    have first: "first_from n m (unat w) (?P ?t) = first_from n m (unat w) (?P s)"
      using same(2) n by (intro first_from_cong) simp_all
    have "\<forall>j<n. 0 < fs_room (shard ?t j)"
      using same(3) Suc.prems(2) by simp
    with Suc.IH [OF same(1)] show ?thesis
      unfolding loop using first same(2) False p w(2)
      by (auto simp: first_from_Suc mod_add_left_eq split: option.splits)
  qed
qed

text \<open>
  \<open>pop\<close> takes the first item of the first shard with two items, and what it passes on the way
  loses its only item.
\<close>

lemma shift_neq:
  fixes n p u :: nat
  assumes "p < n" "0 < u" "u < n"
  shows "(p + u) mod n \<noteq> p"
  using assms by (cases "p + u < n") (auto simp: mod_if)

lemma pop_loop:
  assumes "sharded_ok sz n s" and "m \<le> n"
  shows "\<exists>s'. sharded_pop_loop m s =
      Some (case first_from n m (unat (sh_next_shard_pop s)) (\<lambda>j. 2 \<le> length (shard_items s j)) of
          None \<Rightarrow> (0, None, s')
        | Some t \<Rightarrow> (1, Some (hd (shard_items s ((unat (sh_next_shard_pop s) + t) mod n))), s'))
    \<and> sharded_ok sz n s'
    \<and> (\<forall>u<n. shard_items s' ((unat (sh_next_shard_pop s) + u) mod n) =
        (if u < visited n m (unat (sh_next_shard_pop s)) (\<lambda>j. 2 \<le> length (shard_items s j))
         then tl (shard_items s ((unat (sh_next_shard_pop s) + u) mod n))
         else shard_items s ((unat (sh_next_shard_pop s) + u) mod n)))"
  using assms
proof (induction m arbitrary: s)
  case 0
  then show ?case by (simp add: visited_def)
next
  case (Suc m)
  let ?p = "unat (sh_next_shard_pop s)" and ?P = "\<lambda>s j. 2 \<le> length (shard_items s j)"
  have ok: "sharded_ok sz n s" and p: "?p < n" and n: "0 < n"
    using Suc.prems(1) by (auto simp: sharded_ok_def sharded_layout_def)
  note sh = shard_ok [OF ok p]
  obtain w where w: "sharded_fifo_steal_buffer_next_shard s (sh_next_shard_pop s) = (sh_next_shard_pop s, w)"
      "unat w = Suc ?p mod n"
    using next_shard [OF sharded_ok_layout [OF ok] p] by blast
  let ?s = "\<lambda>f. with_shard (s\<lparr>sh_next_shard_pop := w\<rparr>) ?p f"
  have "sharded_ok sz n (s\<lparr>sh_next_shard_pop := w\<rparr>)"
    using sharded_ok_next(2) [OF ok] w(2) n by simp
  note step = shard_step [OF this p]
  obtain f where f: "fifo_steal_buffer_pop (shard s ?p) = Some
        (if ?P s ?p then (1, Some (hd (shard_items s ?p)), f) else (0, None, f))"
      "fs_ok f" "fs_items f = tl (shard_items s ?p)"
    using fs_pop_law [OF sh(1)] unfolding shard_items_def by blast
  then have within: "within sz (shard (s\<lparr>sh_next_shard_pop := w\<rparr>) ?p) f"
    using pop_within [where sz = sz] by (auto split: if_splits)
  have new: "sharded_ok sz n (?s f)" "\<forall>j<n. shard_items (?s f) j = (if j = ?p then tl (shard_items s ?p) else shard_items s j)"
    using step [OF within f(2)] f(3) by (simp_all add: shard_items_def)
  have not_p: "(?p + u) mod n \<noteq> ?p" if "0 < u" "u < n" for u
    using shift_neq p that by blast
  show ?case
  proof (cases "?P s ?p")
    case True
    then have "sharded_pop_loop (Suc m) s = Some (1, Some (hd (shard_items s ?p)), ?s f)"
      using w(1) f(1) shard_loads [OF ok p] by (simp add: get_shard_index with_shard_def)
    then show ?thesis
      using new True p not_p n by (simp add: first_from_Suc visited_def)
  next
    case False
    then have loop: "sharded_pop_loop (Suc m) s = sharded_pop_loop m (?s f)"
      using w(1) f(1) shard_loads [OF ok p] by (simp add: get_shard_index with_shard_def)
    have first: "first_from n m (unat w) (?P (?s f)) = first_from n m (unat w) (?P s)"
      using new(2) n False by (intro first_from_cong) auto
    then have vis: "visited n (Suc m) ?p (?P s) = Suc (visited n m (unat w) (?P (?s f)))"
      using False p w(2) by (simp add: visited_def first_from_Suc split: option.splits)
    have w_eq: "(unat w + u) mod n = (?p + Suc u) mod n" for u
      using w(2) by (simp add: mod_add_left_eq)
    have old: "shard_items (?s f) ((?p + Suc u) mod n) = shard_items s ((?p + Suc u) mod n)" if "Suc u < n" for u
      using new(2) not_p [of "Suc u"] that n by simp
    have next_w: "unat (sh_next_shard_pop (?s f)) = unat w"
      by simp
    obtain s' where s': "sharded_pop_loop m (?s f) = Some (case first_from n m (unat w) (?P (?s f)) of
          None \<Rightarrow> (0, None, s') | Some t \<Rightarrow> (1, Some (hd (shard_items (?s f) ((unat w + t) mod n))), s'))"
        "sharded_ok sz n s'"
        "\<forall>u<n. shard_items s' ((unat w + u) mod n) = (if u < visited n m (unat w) (?P (?s f))
           then tl (shard_items (?s f) ((unat w + u) mod n)) else shard_items (?s f) ((unat w + u) mod n))"
      using Suc.IH [OF new(1) Suc_leD [OF Suc.prems(2)], unfolded next_w] by blast
    have items: "shard_items s' ((?p + u) mod n) = (if u < visited n (Suc m) ?p (?P s)
        then tl (shard_items s ((?p + u) mod n)) else shard_items s ((?p + u) mod n))" if u: "u < n" for u
    proof (cases u)
      case 0
      have "(unat w + (n - 1)) mod n = ?p"
        using w_eq [of "n - 1"] n p by simp
      moreover have "\<not> n - 1 < visited n m (unat w) (?P (?s f))"
        using visited_le [of n m "unat w" "?P (?s f)"] Suc.prems(2) by linarith
      ultimately have "shard_items s' ?p = shard_items (?s f) ?p"
        using s'(3) [rule_format, of "n - 1"] n by simp
      then show ?thesis
        using 0 vis new(2) p by simp
    next
      case (Suc u')
      then show ?thesis
        using s'(3) [rule_format, of u'] u old [of u'] vis w_eq [of u'] by simp
    qed
    have "(case first_from n m (unat w) (?P (?s f)) of
          None \<Rightarrow> (0, None, s') | Some t \<Rightarrow> (1, Some (hd (shard_items (?s f) ((unat w + t) mod n))), s'))
        = (case first_from n (Suc m) ?p (?P s) of
          None \<Rightarrow> (0 :: int, None, s') | Some t \<Rightarrow> (1, Some (hd (shard_items s ((?p + t) mod n))), s'))"
      using first first_from_less [of n m "unat w" "?P s"] Suc.prems(2) old w_eq False p w(2)
      by (auto simp: first_from_Suc split: option.splits)
    then show ?thesis
      unfolding loop using s'(1,2) items by auto
  qed
qed


text \<open>\<open>steal\<close> takes the first item of the first shard that has one.\<close>

declare sharded_steal_loop.simps [simp del]

lemma steal_loop:
  assumes "sharded_ok sz n s" and "unat i + m = unat stop"
  shows "\<exists>s'. sharded_steal_loop i stop r out s =
      Some (case first_from n m (unat i mod n) (\<lambda>j. shard_items s j \<noteq> []) of
          None \<Rightarrow> (r, out, s')
        | Some t \<Rightarrow> (SHARDED_FIFO_STEAL_BUFFER_SUCCESS, Some (hd (shard_items s ((unat i + t) mod n))), s'))
    \<and> sharded_ok sz n s'
    \<and> (\<forall>j<n. shard_items s' j = (case first_from n m (unat i mod n) (\<lambda>j. shard_items s j \<noteq> []) of
          None \<Rightarrow> shard_items s j
        | Some t \<Rightarrow> if j = (unat i + t) mod n then tl (shard_items s j) else shard_items s j))"
  using assms
proof (induction m arbitrary: s i)
  case 0
  then show ?case by (simp add: sharded_steal_loop.simps word_less_nat_alt)
next
  case (Suc m)
  let ?p = "unat i mod n" and ?P = "\<lambda>s j. shard_items s j \<noteq> []"
  have ok: "sharded_ok sz n s" and n: "0 < n" "unat (sh_num_shards s) = n"
    using Suc.prems(1) by (auto simp: sharded_ok_def sharded_layout_def)
  then have p: "?p < n" by simp
  have lt: "i < stop" and i': "unat (i + 1) = Suc (unat i)"
    using Suc.prems(2) unsigned_less [of stop, where 'a = nat]
    by (simp_all add: word_less_nat_alt unat_word_ariths)
  note sh = shard_ok [OF ok p] and step = shard_step [OF ok p]
  obtain f where f: "fifo_steal_buffer_steal (shard s ?p) = Some (case shard_items s ?p of
        [] \<Rightarrow> (FIFO_STEAL_BUFFER_EMPTY, None, f) | x # _ \<Rightarrow> (FIFO_STEAL_BUFFER_SUCCESS, Some x, f))"
      "fs_ok f" "fs_items f = tl (shard_items s ?p)"
    using fs_steal_law [OF sh(1)] unfolding shard_items_def by blast
  then have within: "within sz (shard s ?p) f"
    using steal_within [where sz = sz] by (auto split: list.splits)
  have at: "load_shard (sh_shards s) (sharded_fifo_steal_buffer_get_shard s (i mod sh_num_shards s)) = Some (shard s ?p)"
      "s\<lparr>sh_shards := store_shard (sh_shards s) (sharded_fifo_steal_buffer_get_shard s (i mod sh_num_shards s)) f\<rparr>
        = with_shard s ?p f"
    using shard_loads [OF ok p] n(2) by (simp_all add: get_shard_index with_shard_def unat_mod)
  show ?case
  proof (cases "shard_items s ?p")
    case (Cons x xs)
    then have "sharded_steal_loop i stop r out s =
        Some (SHARDED_FIFO_STEAL_BUFFER_SUCCESS, Some x, with_shard s ?p f)"
      using lt at f(1) by (simp add: sharded_steal_loop.simps [of i] Let_def)
    then show ?thesis
      using step [OF within f(2)] Cons p f(3) by (simp add: first_from_Suc)
  next
    case Nil
    then have loop: "sharded_steal_loop i stop r out s = sharded_steal_loop (i + 1) stop r out (with_shard s ?p f)"
      using lt at f(1) by (simp add: sharded_steal_loop.simps [of i] Let_def fs_result_defs)
    have same: "sharded_ok sz n (with_shard s ?p f)" "\<forall>j<n. shard_items (with_shard s ?p f) j = shard_items s j"
      using step [OF within f(2)] f(3) Nil by auto
    have first: "first_from n m q (?P (with_shard s ?p f)) = first_from n m q (?P s)" for q
      using same(2) n by (intro first_from_cong) simp_all
    have next_i: "Suc ?p mod n = Suc (unat i) mod n"
      by (rule mod_Suc_eq)
    have "unat (i + 1) + m = unat stop"
      using i' Suc.prems(2) by simp
    from Suc.IH [OF same(1) this] show ?thesis
      unfolding loop first using i' same(2) Nil p next_i n(1)
      by (auto simp: first_from_Suc split: option.splits)
  qed
qed


section \<open>Creation\<close>

lemma nth_header:
  assumes "3 * i + 3 \<le> length mem" and "q < length mem"
  shows "(take (3 * i) mem @ [a, b, c] @ drop (3 * i + 3) mem) ! q =
    (if 3 * i \<le> q \<and> q < 3 * i + 3 then [a, b, c] ! (q mod 3) else mem ! q)"
proof (cases "3 * i \<le> q")
  case True
  then obtain r where "q = 3 * i + r"
    using le_Suc_ex by blast
  moreover have "r = 0 \<or> r = 1 \<or> r = 2 \<or> (\<exists>r'. r = Suc (Suc (Suc r')))"
    by presburger
  ultimately show ?thesis
    using assms by (auto simp: nth_append)
next
  case False
  then show ?thesis
    using assms by (simp add: nth_append)
qed

lemma init_shards_words:
  assumes k: "k \<noteq> 0" "k < 32" and "3 * (i + n) \<le> length mem" and "24 * (i + n) < 2 ^ 64"
  shows "\<exists>mem'. init_shards mem k i n = Some mem' \<and> length mem' = length mem
    \<and> (\<forall>q < length mem. mem' ! q = (if 3 * i \<le> q \<and> q < 3 * (i + n)
        then [0, 0, pack32 (push_bit (unat k) 1) (push_bit (unat k) 1 - 1)] ! (q mod 3) else mem ! q))"
  using assms(3,4)
proof (induction n arbitrary: i mem)
  case 0
  then show ?case by auto
next
  case (Suc n)
  let ?off = "24 * of_nat i :: u64" and ?sz = "push_bit (unat k) 1 :: u32"
  have "unat (of_nat i :: u64) = i"
    using Suc.prems(2) by (intro unat_of_nat_u64) simp
  then have off: "unat ?off div 8 = 3 * i"
    using Suc.prems(2) by (simp add: unat_word_ariths)
  obtain f where f: "load_shard mem ?off = Some f" "fs_buffer f = drop (3 * i + 3) mem"
    using off Suc.prems(1) by (auto simp: load_shard_def Let_def)
  let ?f = "f\<lparr>fs_high := 0, fs_low := 0, fs_size := ?sz, fs_power_of_2_mod := ?sz - 1\<rparr>"
  have init: "fifo_steal_buffer_init f k = Some ?f"
    using k by (simp add: fifo_steal_buffer_init_def)
  let ?m = "store_shard mem ?off ?f"
  have m: "?m = take (3 * i) mem @ [0, 0, pack32 ?sz (?sz - 1)] @ drop (3 * i + 3) mem"
    using off f(2) by (simp add: store_shard_def Let_def)
  have len: "length ?m = length mem"
    unfolding m using Suc.prems(1) by simp
  have word: "?m ! q = (if 3 * i \<le> q \<and> q < 3 * i + 3 then [0, 0, pack32 ?sz (?sz - 1)] ! (q mod 3) else mem ! q)"
    if "q < length mem" for q
    unfolding m using Suc.prems(1) by (intro nth_header that) simp
  obtain mem' where mem': "init_shards ?m k (i + 1) n = Some mem'" "length mem' = length ?m"
      "\<forall>q < length ?m. mem' ! q = (if 3 * (i + 1) \<le> q \<and> q < 3 * (i + 1 + n)
        then [0, 0, pack32 ?sz (?sz - 1)] ! (q mod 3) else ?m ! q)"
    using Suc.IH [of "i + 1" ?m] Suc.prems len by auto
  have "init_shards mem k i (Suc n) = Some mem'"
    using mem'(1) f(1) init by (simp add: Let_def)
  moreover have "\<forall>q < length mem. mem' ! q = (if 3 * i \<le> q \<and> q < 3 * (i + Suc n)
      then [0, 0, pack32 ?sz (?sz - 1)] ! (q mod 3) else mem ! q)"
    using mem'(3) len word by auto
  ultimately show ?case
    using mem'(2) len by auto
qed


lemma load_shard_cong:
  assumes "length mem' = length mem" and "\<forall>q < length mem. unat off div 8 \<le> q \<longrightarrow> mem' ! q = mem ! q"
  shows "load_shard mem' off = load_shard mem off"
proof -
  have "drop (unat off div 8 + 3) mem' = drop (unat off div 8 + 3) mem"
    using assms by (intro nth_equalityI) simp_all
  then show ?thesis
    using assms by (simp add: load_shard_def Let_def)
qed

text \<open>What \<open>create\<close> returns, word for word.\<close>

abbreviation header_words :: "u32 \<Rightarrow> u64 list" where
  "header_words k \<equiv> [0, 0, pack32 (push_bit (unat k) 1) (push_bit (unat k) 1 - 1)]"

lemma memory_per_shard:
  fixes k :: u32
  assumes "k < 32"
  shows "unat (24 + ucast (push_bit (unat k) 1 :: u32) * 8 :: u64) = 24 + 8 * 2 ^ unat k"
proof -
  have k: "unat k < 32"
    using assms by (simp add: word_less_nat_alt)
  then have "(2 :: nat) ^ unat k \<le> 2 ^ 31"
    by (intro power_increasing) simp_all
  then show ?thesis
    using unat_push_bit_1 [OF k] by (simp add: unat_word_ariths del: push_bit_of_1)
qed

lemma words_of_allocation:
  assumes M: "unat M = 24 + 8 * sz" and total: "unat header + unat num * (24 + 8 * sz) < 2 ^ 64"
  shows "(unat (header + ucast num * M :: u64) - unat header) div 8 = unat (num :: u32) * (3 + sz)"
proof -
  have "unat (ucast num * M) = unat num * unat M"
    using total by (simp add: unat_word_ariths M)
  then have "unat (header + ucast num * M) = unat header + unat num * unat M"
    using total M by (simp add: unat_word_ariths)
  then show ?thesis
    using M by (simp add: algebra_simps)
qed

lemma sharded_create_words:
  assumes k: "k \<noteq> 0" "k < 32" and n: "0 < unat num_shards"
    and total: "unat header + unat num_shards * (24 + 8 * 2 ^ unat k) < 2 ^ 64"
    and malloc: "malloc (unat num_shards * (3 + 2 ^ unat k)) = Some mem"
      "length mem = unat num_shards * (3 + 2 ^ unat k)"
  obtains s where "sharded_fifo_steal_buffer_create header malloc num_shards k = Some (Some s)"
    and "sharded_block (2 ^ unat k) (unat num_shards) s"
    and "\<forall>q < length mem. sh_shards s ! q = (if q < 3 * unat num_shards then header_words k ! (q mod 3) else mem ! q)"
    and "length (sh_shards s) = length mem" and "\<forall>q < 3. sh_shards s ! q = header_words k ! q"
proof -
  let ?n = "unat num_shards" and ?sz = "(2 :: nat) ^ unat k"
  define M where "M = (24 + ucast (push_bit (unat k) 1 :: u32) * 8 :: u64)"
  have M: "unat M = 24 + 8 * ?sz"
    unfolding M_def by (rule memory_per_shard [OF k(2)])
  have len: "3 * (0 + ?n) \<le> length mem" "24 * (0 + ?n) < 2 ^ 64"
    using total malloc(2) by (auto simp: algebra_simps)
  obtain mem' where mem': "init_shards mem k 0 ?n = Some mem'" "length mem' = length mem"
      "\<forall>q < length mem. mem' ! q = (if q < 3 * ?n then header_words k ! (q mod 3) else mem ! q)"
    using init_shards_words [OF k len] by auto
  let ?s = "\<lparr>sh_num_shards = num_shards, sh_memory_per_shard = M, sh_next_shard_push = 0,
    sh_next_shard_pop = 0, sh_shards = mem'\<rparr>"
  show thesis
  proof (rule that)
    show "sharded_fifo_steal_buffer_create header malloc num_shards k = Some (Some ?s)"
      using malloc(1) mem'(1) words_of_allocation [OF M total]
      by (simp add: sharded_fifo_steal_buffer_create_def Let_def M_def [symmetric] del: push_bit_of_1)
    show "sharded_block ?sz ?n ?s"
      using n total malloc(2) M mem'(2) by (simp add: sharded_block_def)
    have "1 * 3 \<le> ?n * (3 + ?sz)"
      using n by (intro mult_le_mono) simp_all
    then have "3 \<le> length mem"
      by (simp only: malloc(2) mult_1)
    then have "q < length mem \<and> q < 3 * ?n" if "q < 3" for q
      using that n by simp
    then show "\<forall>q<3. sh_shards ?s ! q = header_words k ! q"
      using mem'(3) by (simp del: push_bit_of_1)
  qed (use mem' in simp_all)
qed

text \<open>Shard 0 has its header.\<close>

lemma created_shard_0:
  assumes k: "k \<noteq> 0" "k < 32" and block: "sharded_block (2 ^ unat k) n s"
    and words: "\<forall>q < 3. sh_shards s ! q = header_words k ! q"
  shows "fifo_steal_buffer_init (shard s 0) k = Some (shard s 0)" "2 ^ unat k \<le> length (fs_buffer (shard s 0))"
proof -
  have "0 < n"
    using block by (simp add: sharded_block_def)
  then have long: "3 + 2 ^ unat k \<le> length (sh_shards s)"
    using block_offset(2) [OF block, of 0] by simp
  have "sh_shards s ! 0 = 0" "sh_shards s ! Suc 0 = 0" "sh_shards s ! 2 = header_words k ! 2"
    using words [rule_format, of 0] words [rule_format, of 1] words [rule_format, of 2]
    by (simp_all del: push_bit_of_1)
  then have s0: "shard s 0 = \<lparr>fs_high = 0, fs_low = 0, fs_size = push_bit (unat k) 1, fs_power_of_2_mod = push_bit (unat k) 1 - 1,
      fs_buffer = drop 3 (sh_shards s)\<rparr>"
    using long by (simp add: shard_def load_shard_def Let_def unpack32 numeral_2_eq_2 del: push_bit_of_1)
  show "fifo_steal_buffer_init (shard s 0) k = Some (shard s 0)"
    using k by (simp add: fifo_steal_buffer_init_def s0)
  show "2 ^ unat k \<le> length (fs_buffer (shard s 0))"
    using long by (simp add: s0)
qed

section \<open>Properties\<close>

text \<open>
  What \<open>sharded_fifo_steal_buffer_create\<close> initialises. It steps over the shards by
  \<open>sizeof(fifo_steal_buffer_t)\<close>, the operations by \<open>memory_per_shard\<close>: shard 0 is an empty buffer of
  \<open>2 ^ shard_power_of_2_size\<close> items, and a sole shard makes a well-formed sharded buffer, but of
  several shards every one that lies behind the \<open>24 * num_shards\<close> bytes written is, header and
  items, what \<open>malloc\<close> left there.
\<close>

theorem sharded_create_initialises_shard_0_only:
  assumes k: "k \<noteq> 0" "k < 32" and n: "0 < unat num_shards"
    and total: "unat header + unat num_shards * (24 + 8 * 2 ^ unat k) < 2 ^ 64"
    and malloc: "malloc (unat num_shards * (3 + 2 ^ unat k)) = Some mem"
      "length mem = unat num_shards * (3 + 2 ^ unat k)"
  shows "\<exists>s. sharded_fifo_steal_buffer_create header malloc num_shards k = Some (Some s)
    \<and> fs_ok (shard s 0) \<and> shard_items s 0 = [] \<and> unat (fs_size (shard s 0)) = 2 ^ unat k
    \<and> (unat num_shards = 1 \<longrightarrow> sharded_ok (2 ^ unat k) 1 s)
    \<and> (\<forall>i < unat num_shards. 3 * unat num_shards \<le> (3 + 2 ^ unat k) * i \<longrightarrow>
         load_shard (sh_shards s) (sharded_fifo_steal_buffer_get_shard s (of_nat i))
         = load_shard mem (sharded_fifo_steal_buffer_get_shard s (of_nat i)))"
proof -
  let ?n = "unat num_shards" and ?sz = "(2 :: nat) ^ unat k"
  obtain s where create: "sharded_fifo_steal_buffer_create header malloc num_shards k = Some (Some s)"
    and block: "sharded_block ?sz ?n s"
    and words: "\<forall>q < length mem. sh_shards s ! q = (if q < 3 * ?n then header_words k ! (q mod 3) else mem ! q)"
    and len: "length (sh_shards s) = length mem" and "\<forall>q < 3. sh_shards s ! q = header_words k ! q"
    using sharded_create_words [where malloc = malloc, OF k n total malloc] .
  then have zero: "fifo_steal_buffer_init (shard s 0) k = Some (shard s 0)" "?sz \<le> length (fs_buffer (shard s 0))"
    using created_shard_0 [OF k] by blast+
  note wf = init_wf [OF k zero(2,1)]
  have rest: "load_shard (sh_shards s) (sharded_fifo_steal_buffer_get_shard s (of_nat i))
      = load_shard mem (sharded_fifo_steal_buffer_get_shard s (of_nat i))"
    if "i < ?n" "3 * ?n \<le> (3 + ?sz) * i" for i
  proof -
    have "i < 2 ^ 32"
      using that(1) unsigned_less [of num_shards, where 'a = nat] by simp
    then have "sharded_fifo_steal_buffer_get_shard s (of_nat i) = sh_memory_per_shard s * of_nat i"
      by (simp add: get_shard_index unat_of_nat take_bit_eq_mod)
    then show ?thesis
      using block_offset(1) [OF block that(1)] len words that(2) by (intro load_shard_cong) simp_all
  qed
  have "sharded_ok ?sz 1 s" if "?n = 1"
    using wf block that by (simp add: sharded_ok_def sharded_layout_iff fs_ok_wf)
  then show ?thesis
    using create wf rest by (auto simp: shard_items_def)
qed

theorem sharded_create_initialises_shard_0_only_witness:
  "\<exists>s. sharded_fifo_steal_buffer_create 136 (\<lambda>n. Some (replicate n 0)) 2 2 = Some (Some s)
    \<and> fs_size (shard s 0) = 4 \<and> fs_size (shard s 1) = 0 \<and> fifo_steal_buffer_push (shard s 1) 7 = Some (0, shard s 1)"
proof -
  obtain s where s: "sharded_fifo_steal_buffer_create 136 (\<lambda>n. Some (replicate n 0)) 2 2 = Some (Some s)"
      "unat (fs_size (shard s 0)) = 4"
      "load_shard (sh_shards s) (sharded_fifo_steal_buffer_get_shard s (of_nat 1))
       = load_shard (replicate 14 0) (sharded_fifo_steal_buffer_get_shard s (of_nat 1))"
    using sharded_create_initialises_shard_0_only [of 2 2 136 "\<lambda>n. Some (replicate n 0)" "replicate 14 0"]
    by (auto dest: spec [where x = 1])
  have mps: "sh_memory_per_shard s = 56"
    using s(1) by (auto simp: sharded_fifo_steal_buffer_create_def Let_def bind_eq_Some_conv)
  have "shard s 1 = \<lparr>fs_high = 0, fs_low = 0, fs_size = 0, fs_power_of_2_mod = 0, fs_buffer = replicate 4 0\<rparr>"
    using s(3) unfolding shard_def get_shard_index by (simp add: mps load_shard_def)
  moreover have "fs_size (shard s 0) = 4"
    using s(2) by (simp add: word_unat_eq_iff)
  ultimately show ?thesis
    using s(1) by (simp add: fifo_steal_buffer_push_def)
qed

text \<open>Two shards of two cells, holding \<open>[7]\<close> and \<open>[8, 9]\<close>.\<close>

definition sharded_demo :: sharded_fifo_steal_buffer where
  "sharded_demo = \<lparr>sh_num_shards = 2, sh_memory_per_shard = 40, sh_next_shard_push = 0, sh_next_shard_pop = 0,
     sh_shards = [1, 0, pack32 2 1, 7, 0, 2, 0, pack32 2 1, 8, 9]\<rparr>"

lemma sharded_demo_next: "sh_next_shard_push sharded_demo = 0" "sh_next_shard_pop sharded_demo = 0"
  by (simp_all add: sharded_demo_def)

lemma sharded_demo_shards:
  "shard sharded_demo 0 = \<lparr>fs_high = 1, fs_low = 0, fs_size = 2, fs_power_of_2_mod = 1,
     fs_buffer = [7, 0, 2, 0, pack32 2 1, 8, 9]\<rparr>"
  "shard sharded_demo 1 = \<lparr>fs_high = 2, fs_low = 0, fs_size = 2, fs_power_of_2_mod = 1, fs_buffer = [8, 9]\<rparr>"
  by (simp_all add: shard_def load_shard_def sharded_demo_def unpack32)

lemma upt_small: "[0..<1] = [0]" "[0..<Suc 0] = [0]" "[0..<2] = [0, 1]"
  by (simp_all add: upt_rec)

lemma all_below_2: "(\<forall>j<2. P j) \<longleftrightarrow> P 0 \<and> P (1 :: nat)"
  by (auto simp: less_2_cases_iff)

lemma sharded_demo_ok:
  "sharded_ok 2 2 sharded_demo" "shard_items sharded_demo 0 = [7]" "shard_items sharded_demo 1 = [8, 9]"
  "\<forall>j<2. 0 < fs_room (shard sharded_demo j)"
proof -
  have wf: "fs_wf (shard sharded_demo 0)" "fs_wf (shard sharded_demo 1)"
    unfolding sharded_demo_shards
    by (auto simp: fs_wf_def mask_eq_exp_minus_1 intro!: bexI [of _ 1])
  then have "fs_ok (shard sharded_demo 0)" "fs_ok (shard sharded_demo 1)"
    unfolding fs_ok_def sharded_demo_shards by simp_all
  with wf show "sharded_ok 2 2 sharded_demo"
    unfolding sharded_ok_def sharded_layout_def all_below_2 sharded_demo_shards by (simp add: sharded_demo_def)
  show "shard_items sharded_demo 0 = [7]" "shard_items sharded_demo 1 = [8, 9]"
    unfolding shard_items_def sharded_demo_shards fs_items_def fs_cell_def
    by (simp_all add: upt_small)
  show "\<forall>j<2. 0 < fs_room (shard sharded_demo j)"
    unfolding all_below_2 fs_room_def sharded_demo_shards by simp
qed

text \<open>
  \<open>push\<close> puts the item into the first shard with room, from \<open>next_shard_push\<close> on and round the
  end, as its newest item; it answers 0 exactly when every shard is full. Nothing else changes.
\<close>

theorem sharded_push_first_with_room:
  assumes "sharded_ok sz n s" and "\<forall>j<n. 0 < fs_room (shard s j)"
  shows "\<exists>s'. sharded_fifo_steal_buffer_push s x =
      Some (if \<forall>j<n. length (shard_items s j) = sz then 0 else 1, s')
    \<and> sharded_ok sz n s'
    \<and> (\<forall>j<n. shard_items s' j =
        (case first_from n n (unat (sh_next_shard_push s)) (\<lambda>j. length (shard_items s j) < sz) of
           None \<Rightarrow> shard_items s j
         | Some t \<Rightarrow> if j = (unat (sh_next_shard_push s) + t) mod n then shard_items s j @ [x]
             else shard_items s j))"
proof -
  have "first_from n n (unat (sh_next_shard_push s)) (\<lambda>j. length (shard_items s j) < sz) = None
      \<longleftrightarrow> (\<forall>j<n. length (shard_items s j) = sz)" (is "?none \<longleftrightarrow> ?full")
  proof
    assume ?full
    then show ?none
      using assms(1) by (simp add: first_from_def find_None_iff sharded_ok_def sharded_layout_def)
  next
    assume none: ?none
    have "length (shard_items s j) = sz" if j: "j < n" for j
    proof -
      let ?p = "unat (sh_next_shard_push s)"
      have p: "?p < n"
        using assms(1) by (simp add: sharded_ok_def sharded_layout_def)
      have "\<exists>t<n. (?p + t) mod n = j"
        using p j by (intro exI [of _ "if ?p \<le> j then j - ?p else j + n - ?p"]) auto
      then have "\<not> length (shard_items s j) < sz"
        using none by (auto simp: first_from_def find_None_iff)
      moreover have "length (shard_items s j) \<le> sz"
        using shard_ok [OF assms(1) j] by (auto simp: shard_items_def fs_ok_def)
      ultimately show ?thesis
        by simp
    qed
    then show ?full
      by blast
  qed
  then show ?thesis
    using push_loop [OF assms, of n x] assms(1)
    by (simp add: sharded_fifo_steal_buffer_push_def sharded_ok_def sharded_layout_def)
qed

theorem sharded_push_first_with_room_witness:
  "\<exists>s'. sharded_fifo_steal_buffer_push sharded_demo 5 = Some (1, s')
    \<and> shard_items s' 0 = [7, 5] \<and> shard_items s' 1 = [8, 9]"
proof -
  have "first_from 2 2 (unat (sh_next_shard_push sharded_demo)) (\<lambda>j. length (shard_items sharded_demo j) < 2) = Some 0"
    using sharded_demo_ok(2,3) by (simp add: first_from_def upt_small sharded_demo_next)
  then show ?thesis
    using sharded_push_first_with_room [OF sharded_demo_ok(1,4), of 5] sharded_demo_ok(2,3)
    unfolding all_below_2 by (auto simp: sharded_demo_next)
qed

text \<open>
  C26. \<open>pop\<close> answers with the oldest item of the first shard with at least two, from
  \<open>next_shard_pop\<close> on, and with 0 when there is none. Every shard it passes on the way that has one
  item loses that item: it is removed and handed to nobody.
\<close>

theorem sharded_pop_drops_passed_items:
  assumes "sharded_ok sz n s"
  shows "\<exists>s'. sharded_fifo_steal_buffer_pop s =
      Some (case first_from n n (unat (sh_next_shard_pop s)) (\<lambda>j. 2 \<le> length (shard_items s j)) of
          None \<Rightarrow> (0, None, s')
        | Some t \<Rightarrow> (1, Some (hd (shard_items s ((unat (sh_next_shard_pop s) + t) mod n))), s'))
    \<and> sharded_ok sz n s'
    \<and> (\<forall>u<n. shard_items s' ((unat (sh_next_shard_pop s) + u) mod n) =
        (if u < visited n n (unat (sh_next_shard_pop s)) (\<lambda>j. 2 \<le> length (shard_items s j))
         then tl (shard_items s ((unat (sh_next_shard_pop s) + u) mod n))
         else shard_items s ((unat (sh_next_shard_pop s) + u) mod n)))"
  using pop_loop [OF assms, of n] assms by (simp add: sharded_fifo_steal_buffer_pop_def sharded_ok_def sharded_layout_def)

theorem sharded_pop_drops_passed_items_witness:
  "\<exists>s'. sharded_fifo_steal_buffer_pop sharded_demo = Some (1, Some 8, s')
    \<and> shard_items s' 0 = [] \<and> shard_items s' 1 = [9]"
proof -
  have "first_from 2 2 (unat (sh_next_shard_pop sharded_demo)) (\<lambda>j. 2 \<le> length (shard_items sharded_demo j)) = Some 1"
    using sharded_demo_ok(2,3) by (simp add: first_from_def upt_small sharded_demo_next)
  then show ?thesis
    using sharded_pop_drops_passed_items [OF sharded_demo_ok(1)] sharded_demo_ok(2,3)
    unfolding all_below_2 visited_def by (auto simp: sharded_demo_next)
qed

text \<open>
  C27. \<open>steal\<close> takes the oldest item of the first shard that is not empty, from \<open>hint\<close> on. This holds
  only while \<open>hint + num_shards\<close> does not wrap round \<open>2 ^ 32\<close>; when it does, \<open>end\<close> is below
  \<open>hint\<close>, and the answer is EMPTY whatever the shards hold.
\<close>

theorem sharded_steal_correct:
  assumes "sharded_ok sz n s"
  shows "\<exists>s'. sharded_fifo_steal_buffer_steal s hint =
      Some (case (if unat hint + n < 2 ^ 32 then first_from n n (unat hint mod n) (\<lambda>j. shard_items s j \<noteq> []) else None) of
          None \<Rightarrow> (SHARDED_FIFO_STEAL_BUFFER_EMPTY, None, s')
        | Some t \<Rightarrow> (SHARDED_FIFO_STEAL_BUFFER_SUCCESS, Some (hd (shard_items s ((unat hint + t) mod n))), s'))
    \<and> sharded_ok sz n s'
    \<and> (\<forall>j<n. shard_items s' j =
        (case (if unat hint + n < 2 ^ 32 then first_from n n (unat hint mod n) (\<lambda>j. shard_items s j \<noteq> []) else None) of
          None \<Rightarrow> shard_items s j
        | Some t \<Rightarrow> if j = (unat hint + t) mod n then tl (shard_items s j) else shard_items s j))"
proof (cases "unat hint + n < 2 ^ 32")
  case True
  have "unat (hint + sh_num_shards s) = unat hint + n"
    using True assms by (simp add: unat_word_ariths sharded_ok_def sharded_layout_def)
  then show ?thesis
    using steal_loop [OF assms, of hint n "hint + sh_num_shards s"] True
    by (simp add: sharded_fifo_steal_buffer_steal_def)
next
  case False
  have n: "unat (sh_num_shards s) = n" "unat hint < 2 ^ 32" "n < 2 ^ 32"
    using assms unsigned_less [of hint, where 'a = nat] unsigned_less [of "sh_num_shards s", where 'a = nat]
    by (auto simp: sharded_ok_def sharded_layout_def)
  have "unat (hint + sh_num_shards s) = unat hint + n - 2 ^ 32"
    using n False by (simp add: unat_word_ariths mod_if)
  then have "\<not> hint < hint + sh_num_shards s"
    using n(3) by (simp add: word_less_nat_alt)
  then show ?thesis
    using assms False by (simp add: sharded_fifo_steal_buffer_steal_def sharded_steal_loop.simps)
qed


theorem sharded_steal_correct_witness:
  "(\<exists>s'. sharded_fifo_steal_buffer_steal sharded_demo 1 = Some (SHARDED_FIFO_STEAL_BUFFER_SUCCESS, Some 8, s')
      \<and> shard_items s' 0 = [7] \<and> shard_items s' 1 = [9])
   \<and> (\<exists>s'. sharded_fifo_steal_buffer_steal sharded_demo 4294967295 = Some (SHARDED_FIFO_STEAL_BUFFER_EMPTY, None, s'))"
proof
  have "first_from 2 2 (unat (1 :: u32) mod 2) (\<lambda>j. shard_items sharded_demo j \<noteq> []) = Some 0"
    using sharded_demo_ok(3) by (simp add: first_from_def upt_small)
  then show "\<exists>s'. sharded_fifo_steal_buffer_steal sharded_demo 1 = Some (SHARDED_FIFO_STEAL_BUFFER_SUCCESS, Some 8, s')
      \<and> shard_items s' 0 = [7] \<and> shard_items s' 1 = [9]"
    using sharded_steal_correct [OF sharded_demo_ok(1), of 1] sharded_demo_ok(2,3)
    unfolding all_below_2 by auto
  show "\<exists>s'. sharded_fifo_steal_buffer_steal sharded_demo 4294967295 = Some (SHARDED_FIFO_STEAL_BUFFER_EMPTY, None, s')"
    using sharded_steal_correct [OF sharded_demo_ok(1), of 4294967295] by auto
qed

end
