(* ===== verification/Fifo_Steal_Sharded_Create.thy ===== *)
theory Fifo_Steal_Sharded_Create
  imports Fifo_Steal_Sharded
begin

text \<open>
  The sharded buffer of \<open>fifo_steal_buffer.h\<close> as \<open>sharded_fifo_steal_buffer_create\<close> leaves it. Only
  shard 0 is sure to get its header; what the others start with is a matter of the memory that
  \<open>malloc\<close> returned. Here is what the theorems about several threads ask of it, and which memory
  meets that.
\<close>

section \<open>The struct after its creation\<close>

text \<open>
  \<open>f\<close> is what the creation of \<open>n\<close> shards of \<open>2 ^ k\<close> items returned, for some contents of the
  allocation. \<open>malloc\<close> returns a block of the size asked for, which fits the address space.
\<close>

definition sharded_created :: "u32 \<Rightarrow> nat \<Rightarrow> sharded_fifo_steal_buffer \<Rightarrow> bool" where
  "sharded_created k n f \<longleftrightarrow> 0 < n \<and> (\<exists>header malloc num.
     unat num = n \<and> (\<forall>w mem. malloc w = Some mem \<longrightarrow> length mem = w)
     \<and> unat header + n * (24 + 8 * 2 ^ unat k) < 2 ^ 64
     \<and> sharded_fifo_steal_buffer_create header malloc num k = Some (Some f))"

text \<open>
  A header that lets nothing in or out: \<open>push\<close> finds \<open>high - low < size\<close> false, and the others
  find \<open>high > low\<close> false. A header of zeros is one.
\<close>

definition fs_closed :: "fifo_steal_buffer \<Rightarrow> bool" where
  "fs_closed f \<longleftrightarrow> fs_size f = 0 \<and> fs_high f \<le> fs_low f"

text \<open>
  Every shard but shard 0 has happened to get, from the memory it lies in, the header of an empty
  buffer or a closed one. For a sole shard this says nothing.
\<close>

definition headers_settled :: "u32 \<Rightarrow> nat \<Rightarrow> sharded_fifo_steal_buffer \<Rightarrow> bool" where
  "headers_settled k n f \<longleftrightarrow> (\<forall>j. 0 < j \<and> j < n \<longrightarrow>
     fifo_steal_buffer_init (shard f j) k = Some (shard f j) \<or> fs_closed (shard f j))"

lemma headers_settled_sole: "headers_settled k 1 f"
  by (simp add: headers_settled_def)

lemma init_shards_k: "init_shards mem k i (Suc n) = Some mem' \<Longrightarrow> k \<noteq> 0 \<and> k < 32"
  by (auto simp: bind_eq_Some_conv fifo_steal_buffer_init_def Let_def split: if_splits)

lemma sharded_created_facts:
  assumes "sharded_created k n f"
  shows "k \<noteq> 0" "k < 32" "sharded_block (2 ^ unat k) n f"
    "fifo_steal_buffer_init (shard f 0) k = Some (shard f 0)" "2 ^ unat k \<le> length (fs_buffer (shard f 0))"
proof -
  obtain header malloc num where n: "0 < n" "unat num = n"
    and malloc: "\<And>w mem. malloc w = Some mem \<Longrightarrow> length mem = w"
    and total: "unat header + unat num * (24 + 8 * 2 ^ unat k) < 2 ^ 64"
    and create: "sharded_fifo_steal_buffer_create header malloc num k = Some (Some f)"
    using assms by (auto simp: sharded_created_def)
  let ?w = "(unat (header + ucast num * (24 + ucast (push_bit (unat k) 1 :: u32) * 8)) - unat header) div 8"
  obtain mem mem' where mem: "malloc ?w = Some mem" "init_shards mem k 0 n = Some mem'"
    using create n(2) by (auto simp: sharded_fifo_steal_buffer_create_def Let_def bind_eq_Some_conv split: option.splits)
  show k: "k \<noteq> 0" "k < 32"
    using init_shards_k [of mem k 0 "n - 1" mem'] mem(2) n(1) by simp_all
  have w: "?w = unat num * (3 + 2 ^ unat k)"
    using words_of_allocation [OF memory_per_shard [OF k(2)] total] by simp
  have "0 < unat num"
    using n by simp
  then obtain s where s: "sharded_fifo_steal_buffer_create header malloc num k = Some (Some s)"
      "sharded_block (2 ^ unat k) (unat num) s" "\<forall>q < 3. sh_shards s ! q = header_words k ! q"
    by (rule sharded_create_words [where malloc = malloc, OF k _ total mem(1) [unfolded w] malloc [OF mem(1), unfolded w]])
  then have "s = f"
    using create by simp
  then show "sharded_block (2 ^ unat k) n f" "fifo_steal_buffer_init (shard f 0) k = Some (shard f 0)"
      "2 ^ unat k \<le> length (fs_buffer (shard f 0))"
    using s(2,3) n(2) created_shard_0 [OF k s(2,3)] by simp_all
qed

lemma block_shard_length:
  assumes "sharded_block sz n f" and "j < n"
  shows "sz \<le> length (fs_buffer (shard f j))"
  using block_offset [OF assms] load_buffer [OF block_loads [OF assms]] by simp

text \<open>So every shard is an empty buffer or closed.\<close>

lemma settled_shard:
  assumes created: "sharded_created k n f" and settled: "headers_settled k n f" and j: "j < n"
  obtains (opened) "fifo_steal_buffer_init (shard f j) k = Some (shard f j)" "fs_wf (shard f j)"
      "unat (fs_size (shard f j)) = 2 ^ unat k" "2 ^ unat k \<le> length (fs_buffer (shard f j))"
    | (closed) "fs_closed (shard f j)"
proof (cases "fs_closed (shard f j)")
  case False
  note facts = sharded_created_facts [OF created]
  have len: "2 ^ unat k \<le> length (fs_buffer (shard f j))"
    by (rule block_shard_length [OF facts(3) j])
  have init: "fifo_steal_buffer_init (shard f j) k = Some (shard f j)"
    using settled False facts(4) j by (cases "j = 0") (auto simp: headers_settled_def)
  show thesis
    using opened init init_wf [OF facts(1,2) len init] len fs_ok_wf by blast
qed (rule closed)

section \<open>Zeroed memory\<close>

text \<open>
  A large block is fresh memory from the system, all zeros. When the \<open>24 * num_shards\<close> bytes that
  the creation writes end within shard 0, every other shard is closed.
\<close>

theorem zeroed_shards_are_closed:
  assumes k: "k \<noteq> 0" "k < 32" and n: "0 < unat num"
    and total: "unat header + unat num * (24 + 8 * 2 ^ unat k) < 2 ^ 64"
    and fits: "3 * unat num \<le> 3 + 2 ^ unat k"
  shows "\<exists>f. sharded_fifo_steal_buffer_create header (\<lambda>w. Some (replicate w 0)) num k = Some (Some f)
    \<and> sharded_created k (unat num) f \<and> headers_settled k (unat num) f
    \<and> (\<forall>j. 0 < j \<and> j < unat num \<longrightarrow> fs_closed (shard f j))"
proof -
  let ?n = "unat num" and ?w = "3 + (2 :: nat) ^ unat k" and ?malloc = "\<lambda>w. Some (replicate w (0 :: u64))"
  obtain f where f: "sharded_fifo_steal_buffer_create header ?malloc num k = Some (Some f)"
      "sharded_block (2 ^ unat k) ?n f" "length (sh_shards f) = ?n * ?w"
      "\<forall>q < ?n * ?w. sh_shards f ! q = (if q < 3 * ?n then header_words k ! (q mod 3) else replicate (?n * ?w) 0 ! q)"
    by (rule sharded_create_words [where malloc = ?malloc and mem = "replicate (?n * ?w) 0", OF k n total])
      (simp_all only: length_replicate)
  have "fs_closed (shard f j)" if j: "0 < j" "j < ?n" for j
  proof -
    have "?w * 1 \<le> ?w * j"
      using j(1) by (intro mult_le_mono2) simp
    then have "?w \<le> ?w * j"
      by (simp only: mult_1_right)
    with fits have behind: "3 * ?n \<le> ?w * j"
      by (rule order_trans)
    have inside: "?w * j + 3 + 2 ^ unat k \<le> ?n * ?w"
      by (rule offset_bound(2) [OF j(2)])
    have "sh_shards f ! q = 0" if "?w * j \<le> q" "q < ?w * j + 3" for q
    proof -
      have "q < ?w * j + 3 + 2 ^ unat k"
        using that(2) by simp
      then have q: "q < ?n * ?w"
        using inside by (rule less_le_trans)
      moreover have "\<not> q < 3 * ?n"
        using order_trans [OF behind that(1)] by simp
      ultimately show ?thesis
        using f(4) by simp
    qed
    then show ?thesis
      using block_offset [OF f(2) j(2)] by (simp add: fs_closed_def shard_def load_shard_def Let_def)
  qed
  moreover have "sharded_created k ?n f"
    unfolding sharded_created_def using f(1) n total by (auto intro!: exI [of _ header] exI [of _ ?malloc] exI [of _ num])
  ultimately show ?thesis
    using f(1) by (auto simp: headers_settled_def)
qed

theorem zeroed_shards_are_closed_witness:
  "\<exists>f. sharded_fifo_steal_buffer_create 136 (\<lambda>w. Some (replicate w 0)) 8 20 = Some (Some f) \<and> headers_settled 20 8 f"
  using zeroed_shards_are_closed [of 20 8 136] by auto

text \<open>
  With shards so small that the bytes written reach into the next shard it gets words of the
  wrong kind: two shards of two items in zeroed memory, and the first \<open>pop\<close> returns 1 although
  nothing has been pushed.
\<close>

theorem sharded_pop_before_any_push:
  "\<exists>f f'. sharded_fifo_steal_buffer_create 136 (\<lambda>w. Some (replicate w 0)) 2 1 = Some (Some f)
     \<and> sharded_fifo_steal_buffer_pop f = Some (1, Some 0, f')"
proof -
  let ?r = "do {
      f \<leftarrow> sharded_fifo_steal_buffer_create 136 (\<lambda>w. Some (replicate w 0)) 2 1;
      f \<leftarrow> f;
      (r, out, f') \<leftarrow> sharded_fifo_steal_buffer_pop f;
      Some (r, out)
    }"
  have "?r = Some (1, Some 0)"
    by code_simp
  then show ?thesis
    by (auto simp: bind_eq_Some_conv)
qed

end
