(* ===== verification/Fifo_Steal_Sharded_Conc.thy ===== *)
theory Fifo_Steal_Sharded_Conc
  imports Fifo_Steal_Sharded_Create Fifo_Steal_Conc "HOL-Library.Multiset"
begin

text \<open>
  The sharded buffer of \<open>fifo_steal_buffer.h\<close> under one master thread and any number of thieves.
  The loops over the shards are cut where they enter a shard; inside a shard a thread takes the
  steps of Fifo\_Steal\_Conc, one per access to the shard's struct, on the words the shard has in
  the one memory block. Beside the program's state the system keeps, for every shard, the logs of
  Fifo\_Steal\_Conc, and for every thread what its operations accepted and returned.
\<close>

section \<open>The threads' steps\<close>

datatype sh_master =
    SM_idle
  | SM_push ptr u32                    \<comment> \<open>at the test of the loop, with \<open>i\<close>\<close>
  | SM_in_push ptr u32 u32 fs_master   \<comment> \<open>with \<open>i\<close> in the \<open>push\<close> of the shard\<close>
  | SM_pop u32
  | SM_in_pop u32 u32 fs_master

datatype sh_thief =
    ST_idle
  | ST_loop u32 u32 int                \<comment> \<open>at the test of the loop, with \<open>i\<close>, \<open>end\<close>, \<open>final_ret\<close>\<close>
  | ST_in u32 u32 int fs_thief         \<comment> \<open>in the \<open>steal\<close> of shard \<open>i % num_shards\<close>\<close>

record sharded_sys =
  sg_fifo :: sharded_fifo_steal_buffer
  sg_master :: sh_master
  sg_thief :: "tid \<Rightarrow> sh_thief"
  sg_pushed :: "nat \<Rightarrow> ptr list"
  sg_log :: "nat \<Rightarrow> (fate \<times> ptr) list"
  sg_popped :: "nat \<Rightarrow> ptr list"
  sg_in :: "ptr list"                  \<comment> \<open>the data of the pushes that returned 1\<close>
  sg_out :: "ptr list"                 \<comment> \<open>what the pops that returned 1 wrote to \<open>*out\<close>\<close>
  sg_got :: "tid \<Rightarrow> ptr list"          \<comment> \<open>what the steals that returned SUCCESS wrote to \<open>*out\<close>\<close>
  sg_hint :: "tid \<Rightarrow> u32"              \<comment> \<open>the \<open>hint\<close> of the thief's last steal\<close>
  sg_mark :: "tid \<Rightarrow> nat \<Rightarrow> nat"       \<comment> \<open>how many items each shard had been given when that steal was called\<close>

abbreviation sg_num :: "sharded_sys \<Rightarrow> u32" where
  "sg_num s \<equiv> sh_num_shards (sg_fifo s)"

text \<open>Where a thread is in shard \<open>j\<close>.\<close>

fun master_at :: "sh_master \<Rightarrow> nat \<Rightarrow> fs_master" where
  "master_at (SM_in_push data i k c) j = (if j = unat k then c else M_idle)"
| "master_at (SM_in_pop i k c) j = (if j = unat k then c else M_idle)"
| "master_at _ j = M_idle"

fun thief_at :: "u32 \<Rightarrow> sh_thief \<Rightarrow> nat \<Rightarrow> fs_thief" where
  "thief_at n (ST_in i stop r c) j = (if j = unat (i mod n) then c else T_idle)"
| "thief_at n _ j = T_idle"

text \<open>A shard as a system of its own; taking it from the memory block and putting it back.\<close>

definition shard_view :: "sharded_sys \<Rightarrow> nat \<Rightarrow> fifo_steal_buffer \<Rightarrow> fs_sys" where
  "shard_view s j f = \<lparr>fq_f = f, fq_master = master_at (sg_master s) j,
     fq_thief = (\<lambda>t. thief_at (sg_num s) (sg_thief s t) j),
     fq_pushed = sg_pushed s j, fq_log = sg_log s j, fq_popped = sg_popped s j\<rparr>"

definition shard_load :: "sharded_sys \<Rightarrow> u32 \<Rightarrow> fs_sys option" where
  "shard_load s k = map_option (shard_view s (unat k))
     (load_shard (sh_shards (sg_fifo s)) (sharded_fifo_steal_buffer_get_shard (sg_fifo s) k))"

definition shard_put :: "sharded_sys \<Rightarrow> u32 \<Rightarrow> fs_sys \<Rightarrow> sharded_sys" where
  "shard_put s k v = s\<lparr>sg_fifo := (sg_fifo s)\<lparr>sh_shards := store_shard (sh_shards (sg_fifo s))
       (sharded_fifo_steal_buffer_get_shard (sg_fifo s) k) (fq_f v)\<rparr>,
     sg_pushed := (sg_pushed s)(unat k := fq_pushed v), sg_log := (sg_log s)(unat k := fq_log v),
     sg_popped := (sg_popped s)(unat k := fq_popped v)\<rparr>"

text \<open>What the operation of a shard returns whose last step starts at \<open>c\<close>.\<close>

fun master_result :: "fs_master \<Rightarrow> int" where
  "master_result (M_push_publish data high) = 1"
| "master_result (M_pop_read new_low) = 1"
| "master_result _ = 0"

fun thief_result :: "fs_thief \<Rightarrow> bool \<Rightarrow> int" where
  "thief_result (T_cas low v) taken = (if taken then FIFO_STEAL_BUFFER_SUCCESS else FIFO_STEAL_BUFFER_ABORT)"
| "thief_result _ taken = FIFO_STEAL_BUFFER_EMPTY"

fun thief_out :: "fs_thief \<Rightarrow> bool \<Rightarrow> ptr list" where
  "thief_out (T_cas low v) taken = (if taken then [v] else [])"
| "thief_out _ taken = []"

text \<open>Where the loops go on after a step of the shard's operation from \<open>c\<close> to \<open>c'\<close>.\<close>

definition push_goto :: "ptr \<Rightarrow> u32 \<Rightarrow> u32 \<Rightarrow> fs_master \<Rightarrow> fs_master \<Rightarrow> sh_master" where
  "push_goto data i k c c' =
     (if c' \<noteq> M_idle then SM_in_push data i k c'
      else if master_result c \<noteq> 0 then SM_idle else SM_push data (i + 1))"

definition pop_goto :: "u32 \<Rightarrow> u32 \<Rightarrow> fs_master \<Rightarrow> fs_master \<Rightarrow> sh_master" where
  "pop_goto i k c c' =
     (if c' \<noteq> M_idle then SM_in_pop i k c'
      else if master_result c \<noteq> 0 then SM_idle else SM_pop (i + 1))"

definition steal_goto :: "u32 \<Rightarrow> u32 \<Rightarrow> int \<Rightarrow> fs_thief \<Rightarrow> bool \<Rightarrow> fs_thief \<Rightarrow> sh_thief" where
  "steal_goto i stop final_ret c taken c' =
     (if c' \<noteq> T_idle then ST_in i stop final_ret c'
      else if thief_result c taken = FIFO_STEAL_BUFFER_SUCCESS then ST_idle
      else ST_loop (i + 1) stop
        (if thief_result c taken = FIFO_STEAL_BUFFER_ABORT then SHARDED_FIFO_STEAL_BUFFER_ABORT else final_ret))"

text \<open>
  A step \<open>fs_step v v'\<close> of a shard is the master's when it moves the master, and thief \<open>t\<close>'s when
  it moves \<open>t\<close>; every step of a thread moves it.
\<close>

inductive sg_step :: "sharded_sys \<Rightarrow> sharded_sys \<Rightarrow> bool" where
  push_call: "sg_master s = SM_idle \<Longrightarrow> sg_step s (s\<lparr>sg_master := SM_push data 0\<rparr>)"
| push_shard: "sg_master s = SM_push data i \<Longrightarrow> i < sg_num s \<Longrightarrow>
    sharded_fifo_steal_buffer_next_shard (sg_fifo s) (sh_next_shard_push (sg_fifo s)) = (k, new_value) \<Longrightarrow>
    sg_step s (s\<lparr>sg_fifo := (sg_fifo s)\<lparr>sh_next_shard_push := new_value\<rparr>,
      sg_master := SM_in_push data i k (M_push_high data)\<rparr>)"
| push_in: "sg_master s = SM_in_push data i k c \<Longrightarrow> shard_load s k = Some v \<Longrightarrow>
    fs_step v v' \<Longrightarrow> fq_master v' \<noteq> c \<Longrightarrow>
    sg_step s ((shard_put s k v')\<lparr>sg_master := push_goto data i k c (fq_master v'),
      sg_in := sg_in s @ (if fq_master v' = M_idle \<and> master_result c \<noteq> 0 then [data] else [])\<rparr>)"
| push_full: "sg_master s = SM_push data i \<Longrightarrow> \<not> i < sg_num s \<Longrightarrow> sg_step s (s\<lparr>sg_master := SM_idle\<rparr>)"
| pop_call: "sg_master s = SM_idle \<Longrightarrow> sg_step s (s\<lparr>sg_master := SM_pop 0\<rparr>)"
| pop_shard: "sg_master s = SM_pop i \<Longrightarrow> i < sg_num s \<Longrightarrow>
    sharded_fifo_steal_buffer_next_shard (sg_fifo s) (sh_next_shard_pop (sg_fifo s)) = (k, new_value) \<Longrightarrow>
    sg_step s (s\<lparr>sg_fifo := (sg_fifo s)\<lparr>sh_next_shard_pop := new_value\<rparr>, sg_master := SM_in_pop i k M_pop_high\<rparr>)"
| pop_in: "sg_master s = SM_in_pop i k c \<Longrightarrow> shard_load s k = Some v \<Longrightarrow>
    fs_step v v' \<Longrightarrow> fq_master v' \<noteq> c \<Longrightarrow>
    sg_step s ((shard_put s k v')\<lparr>sg_master := pop_goto i k c (fq_master v'),
      sg_out := sg_out s @ drop (length (fq_popped v)) (fq_popped v')\<rparr>)"
| pop_empty: "sg_master s = SM_pop i \<Longrightarrow> \<not> i < sg_num s \<Longrightarrow> sg_step s (s\<lparr>sg_master := SM_idle\<rparr>)"
| steal_call: "sg_thief s t = ST_idle \<Longrightarrow>
    sg_step s (s\<lparr>sg_thief := (sg_thief s)(t := ST_loop hint (hint + sg_num s) SHARDED_FIFO_STEAL_BUFFER_EMPTY),
      sg_hint := (sg_hint s)(t := hint), sg_mark := (sg_mark s)(t := (\<lambda>j. length (sg_pushed s j)))\<rparr>)"
| steal_shard: "sg_thief s t = ST_loop i stop r \<Longrightarrow> i < stop \<Longrightarrow>
    sg_step s (s\<lparr>sg_thief := (sg_thief s)(t := ST_in i stop r T_high)\<rparr>)"
| steal_in: "sg_thief s t = ST_in i stop r c \<Longrightarrow> shard_load s (i mod sg_num s) = Some v \<Longrightarrow>
    fs_step v v' \<Longrightarrow> fq_thief v' t \<noteq> c \<Longrightarrow> taken = (length (fq_log v) < length (fq_log v')) \<Longrightarrow>
    sg_step s ((shard_put s (i mod sg_num s) v')\<lparr>
      sg_thief := (sg_thief s)(t := steal_goto i stop r c taken (fq_thief v' t)),
      sg_got := (sg_got s)(t := sg_got s t @ thief_out c taken)\<rparr>)"
| steal_done: "sg_thief s t = ST_loop i stop r \<Longrightarrow> \<not> i < stop \<Longrightarrow>
    sg_step s (s\<lparr>sg_thief := (sg_thief s)(t := ST_idle)\<rparr>)"

text \<open>
  The start: the struct that the creation returned, no operation called yet. \<open>sg_start\<close> adds what
  the theorems ask of the memory that the creation got.
\<close>

definition sg_init :: "u32 \<Rightarrow> nat \<Rightarrow> sharded_sys \<Rightarrow> bool" where
  "sg_init k n s \<longleftrightarrow> sharded_created k n (sg_fifo s)
     \<and> sg_master s = SM_idle \<and> sg_thief s = (\<lambda>_. ST_idle)
     \<and> sg_pushed s = (\<lambda>_. []) \<and> sg_log s = (\<lambda>_. []) \<and> sg_popped s = (\<lambda>_. [])
     \<and> sg_in s = [] \<and> sg_out s = [] \<and> sg_got s = (\<lambda>_. [])"

definition sg_start :: "u32 \<Rightarrow> nat \<Rightarrow> sharded_sys \<Rightarrow> bool" where
  "sg_start k n s \<longleftrightarrow> sg_init k n s \<and> headers_settled k n (sg_fifo s)"

section \<open>The steps of a shard\<close>

text \<open>What a step of the master's leaves alone, and what a thief's.\<close>

lemma fs_master_step:
  assumes "fs_step v v'" and "fq_master v' \<noteq> fq_master v"
  shows "fq_thief v' = fq_thief v"
    and "fq_pushed v' = fq_pushed v @ (case fq_master v of M_push_publish data high \<Rightarrow> [data] | _ \<Rightarrow> [])"
    and "filter (\<lambda>(f, _). f = Stolen_by t) (fq_log v') = filter (\<lambda>(f, _). f = Stolen_by t) (fq_log v)"
    and "prefix (fq_popped v) (fq_popped v')"
  using assms by (cases; simp add: pop_log_def split: if_splits)+

text \<open>A thief's step is about its own pc, and takes an item exactly when it wins.\<close>

lemma fs_thief_step:
  assumes "fs_step v v'" and "fq_thief v' t \<noteq> fq_thief v t"
  shows "fq_master v' = fq_master v" and "fq_thief v' = (fq_thief v)(t := fq_thief v' t)"
    and "fq_pushed v' = fq_pushed v" and "fq_popped v' = fq_popped v"
    and "fq_log v' = fq_log v @ map (Pair (Stolen_by t))
      (thief_out (fq_thief v t) (length (fq_log v) < length (fq_log v')))"
  using assms by (cases; auto split: if_splits)+

lemma fs_step_within: "fs_step v v' \<Longrightarrow> fs_wf (fq_f v) \<Longrightarrow> within (fq_n v) (fq_f v) (fq_f v')"
  by (erule fs_step.cases)
    (auto simp: within_def fs_buf_set fs_wf_pos sync_add_and_fetch_def sync_bool_compare_and_swap_def
      simp flip: not_less intro!: nth_list_update_neq dest: fs_wf_pos split: if_splits)

lemma fs_step_wf: "fs_step v v' \<Longrightarrow> fs_wf (fq_f v) \<Longrightarrow> fs_wf (fq_f v')"
  by (erule fs_step.cases) (auto simp: fs_buf_set fs_wf_def)

lemma fs_step_grows: "fs_step v v' \<Longrightarrow> prefix (fq_pushed v) (fq_pushed v') \<and> prefix (fq_log v) (fq_log v')"
  by (erule fs_step.cases) simp_all

text \<open>In a closed shard every operation gives up at its test of \<open>high\<close> and \<open>low\<close>.\<close>

fun closed_master :: "u64 \<Rightarrow> fs_master \<Rightarrow> bool" where
  "closed_master h (M_push_low data high) = (high = h)"
| "closed_master h (M_pop_low high) = (high = h)"
| "closed_master h c = (c = M_idle \<or> c = M_pop_high \<or> (\<exists>data. c = M_push_high data))"

fun closed_thief :: "u64 \<Rightarrow> fs_thief \<Rightarrow> bool" where
  "closed_thief h (T_low high) = (high = h)"
| "closed_thief h c = (c = T_idle \<or> c = T_high)"

definition closed_sys :: "fs_sys \<Rightarrow> bool" where
  "closed_sys v \<longleftrightarrow> fs_closed (fq_f v) \<and> closed_master (fs_high (fq_f v)) (fq_master v)
     \<and> (\<forall>t. closed_thief (fs_high (fq_f v)) (fq_thief v t))
     \<and> fq_pushed v = [] \<and> fq_log v = [] \<and> fq_popped v = []"

lemma closed_sysD:
  assumes "closed_sys v"
  shows "fs_size (fq_f v) = 0" "\<not> fs_low (fq_f v) < fs_high (fq_f v)"
    "closed_master (fs_high (fq_f v)) (fq_master v)" "closed_thief (fs_high (fq_f v)) (fq_thief v t)"
    "fq_pushed v = []" "fq_log v = []" "fq_popped v = []"
  using assms by (simp_all add: closed_sys_def fs_closed_def not_less)

lemma closed_no_access:
  "closed_sys v \<Longrightarrow> fq_master v \<noteq> M_push_store data high" "closed_sys v \<Longrightarrow> fq_master v \<noteq> M_pop_read new_low"
  "closed_sys v \<Longrightarrow> fq_thief v t \<noteq> T_read low" "closed_sys v \<Longrightarrow> fq_thief v t \<noteq> T_cas low x"
  using closed_sysD(3,4) [of v] by (metis closed_master.simps closed_thief.simps fs_master.distinct fs_thief.distinct)+

lemma closed_step:
  assumes "fs_step v v'" and "closed_sys v"
  shows "closed_sys v' \<and> fq_f v' = fq_f v"
  using assms(1)
proof cases
  case (push_low data high)
  then show ?thesis
    using assms(2) by (simp add: closed_sys_def fs_closed_def)
next
  case (pop_low high)
  then show ?thesis
    using assms(2) by (auto simp: closed_sys_def fs_closed_def)
next
  case (steal_low t high)
  then show ?thesis
    using closed_sysD(2) [OF assms(2)] closed_sysD(4) [OF assms(2), of t] assms(2) by (auto simp: closed_sys_def)
next
  case (steal_read t low x)
  then show ?thesis
    using closed_no_access(3) [OF assms(2)] by blast
next
  case (steal_won t low x low')
  then show ?thesis
    using closed_no_access(4) [OF assms(2)] by blast
next
  case (steal_lost t low x low')
  then show ?thesis
    using closed_no_access(4) [OF assms(2)] by blast
qed (use assms(2) closed_sysD(4) [OF assms(2)] in \<open>auto simp: closed_sys_def\<close>)

text \<open>
  What the theorems need of a shard: it is a buffer of \<open>sz\<close> items, or closed. No step makes one
  of the other.
\<close>

definition fs_settled :: "nat \<Rightarrow> fs_sys \<Rightarrow> bool" where
  "fs_settled sz v \<longleftrightarrow> fs_wf (fq_f v) \<and> fq_n v = sz \<or> closed_sys v"

lemma fs_settled_cases:
  assumes "fs_settled sz v"
  obtains (opened) "fs_wf (fq_f v)" "fq_n v = sz" "fs_size (fq_f v) \<noteq> 0"
    | (closed) "closed_sys v" "fs_size (fq_f v) = 0" "\<not> fs_wf (fq_f v)"
proof -
  have "fs_size (fq_f v) \<noteq> 0" if "fs_wf (fq_f v)"
    using fs_wf_pos [OF that] by auto
  with assms that show thesis
    unfolding fs_settled_def using closed_sysD(1) by blast
qed

lemma fs_settled_step:
  assumes "fs_settled sz v" and "fs_step v v'"
  shows "fs_settled sz v'" "fs_size (fq_f v') = fs_size (fq_f v)"
  using assms(1)
  by (cases rule: fs_settled_cases;
      use fs_step_wf [OF assms(2)] fs_step_within [OF assms(2)] closed_step [OF assms(2)]
      in \<open>auto simp: fs_settled_def within_def\<close>)+

text \<open>The words behind a shard are not the shard's.\<close>

abbreviation clip_sys :: "fs_sys \<Rightarrow> fs_sys" where
  "clip_sys v \<equiv> v\<lparr>fq_f := clip (fq_f v)\<rparr>"

lemma clip_get: "fs_wf f \<Longrightarrow>
    buf_get (fs_buffer (clip f)) (i AND ucast (fs_power_of_2_mod f)) = buf_get (fs_buffer f) (i AND ucast (fs_power_of_2_mod f))"
  using fs_buf_get [of "clip f" i] fs_buf_get [of f i] by simp

lemma clip_set: "fs_wf f \<Longrightarrow> buf_set (fs_buffer f) (i AND ucast (fs_power_of_2_mod f)) x = Some b \<Longrightarrow>
    buf_set (fs_buffer (clip f)) (i AND ucast (fs_power_of_2_mod f)) x = Some (take (unat (fs_size f)) b)"
  using fs_buf_set [of "clip f" i x] fs_buf_set [of f i x] clip_wf [of f]
  by (auto simp: clip_def take_update_swap simp del: clip_wf)

lemma fs_step_eqI: "fs_step u w \<Longrightarrow> w = w' \<Longrightarrow> fs_step u w'"
  by simp

lemmas clip_fs_stepI = fs_step.intros [of "clip_sys v" for v, THEN fs_step_eqI]

lemma clip_settled [simp]: "fs_settled sz (clip_sys v) = fs_settled sz v"
  by (simp add: fs_settled_def closed_sys_def fs_closed_def)

lemma clip_step:
  assumes "fs_step v v'" and settled: "fs_settled sz v"
  shows "fs_step (clip_sys v) (clip_sys v')"
  using assms(1)
proof cases
  case (push_store data high b)
  then have wf: "fs_wf (fq_f v)"
    using settled closed_no_access(1) by (auto simp: fs_settled_def)
  show ?thesis
    by (rule clip_fs_stepI(4) [of v data high "take (fq_n v) b"])
      (use push_store clip_set [OF wf push_store(3)] in \<open>simp_all add: clip_def\<close>)
next
  case (pop_read new_low x)
  then have wf: "fs_wf (fq_f v)"
    using settled closed_no_access(2) by (auto simp: fs_settled_def)
  show ?thesis
    by (rule clip_fs_stepI(11) [of v new_low x]) (use pop_read clip_get [OF wf] in simp_all)
next
  case (steal_read t low x)
  then have wf: "fs_wf (fq_f v)"
    using settled closed_no_access(3) by (auto simp: fs_settled_def)
  show ?thesis
    by (rule clip_fs_stepI(15) [of v t low x]) (use steal_read clip_get [OF wf] in simp_all)
next
  case (push_publish data high)
  show ?thesis
    by (rule clip_fs_stepI(5) [of v data high]) (use push_publish in \<open>simp_all add: clip_def\<close>)
next
  case (pop_add high new_low low')
  show ?thesis
    by (rule clip_fs_stepI(9) [of v high new_low low']) (use pop_add in \<open>simp_all add: clip_def pop_log_def\<close>)
next
  case (steal_won t low x low')
  show ?thesis
    by (rule clip_fs_stepI(16) [of v t low x low']) (use steal_won in \<open>simp_all add: clip_def\<close>)
next
  case (pop_reset high)
  show ?thesis
    by (rule clip_fs_stepI(10) [of v high]) (use pop_reset in \<open>simp_all add: clip_def\<close>)
next
  case (push_call data)
  show ?thesis
    by (rule clip_fs_stepI(1) [of v data]) (use push_call in simp_all)
next
  case (push_high data)
  show ?thesis
    by (rule clip_fs_stepI(2) [of v data]) (use push_high in simp_all)
next
  case (push_low data high)
  show ?thesis
    by (rule clip_fs_stepI(3) [of v data high]) (use push_low in simp_all)
next
  case pop_call
  show ?thesis
    by (rule clip_fs_stepI(6) [of v]) (use pop_call in simp_all)
next
  case pop_high
  show ?thesis
    by (rule clip_fs_stepI(7) [of v]) (use pop_high in simp_all)
next
  case (pop_low high)
  show ?thesis
    by (rule clip_fs_stepI(8) [of v high]) (use pop_low in simp_all)
next
  case (steal_call t)
  show ?thesis
    by (rule clip_fs_stepI(12) [of v t]) (use steal_call in simp_all)
next
  case (steal_high t)
  show ?thesis
    by (rule clip_fs_stepI(13) [of v t]) (use steal_high in simp_all)
next
  case (steal_low t high)
  show ?thesis
    by (rule clip_fs_stepI(14) [of v t high]) (use steal_low in simp_all)
next
  case (steal_lost t low x low')
  show ?thesis
    by (rule clip_fs_stepI(17) [of v t low x low']) (use steal_lost in simp_all)
qed

text \<open>No access of a shard's step leaves its cells, so every thread in an operation has a next step.\<close>

lemma fs_master_progress:
  assumes settled: "fs_settled sz v" and busy: "fq_master v \<noteq> M_idle"
  shows "\<exists>v'. fs_step v v' \<and> fq_master v' \<noteq> fq_master v"
proof (cases "fq_master v")
  case (M_push_store data high)
  moreover have wf: "fs_wf (fq_f v)"
    using M_push_store settled closed_no_access(1) by (auto simp: fs_settled_def)
  ultimately show ?thesis
    using fs_step.push_store [OF M_push_store fs_buf_set [OF wf]] by fastforce
next
  case (M_pop_read new_low)
  moreover have wf: "fs_wf (fq_f v)"
    using M_pop_read settled closed_no_access(2) by (auto simp: fs_settled_def)
  ultimately show ?thesis
    using fs_step.pop_read [OF M_pop_read fs_buf_get [OF wf]] by fastforce
next
  case (M_pop_add high)
  show ?thesis
    unfolding M_pop_add
    by (intro exI conjI, rule fs_step.pop_add [OF M_pop_add surjective_pairing]) simp
next
  case (M_push_low data high)
  show ?thesis
    unfolding M_push_low
    by (intro exI conjI, rule fs_step.push_low [OF M_push_low]) simp
next
  case (M_pop_low high)
  show ?thesis
    unfolding M_pop_low
    by (intro exI conjI, rule fs_step.pop_low [OF M_pop_low]) simp
qed (use busy fs_step.push_high fs_step.push_publish fs_step.pop_high fs_step.pop_reset in fastforce)+

lemma fs_thief_progress:
  assumes settled: "fs_settled sz v" and busy: "fq_thief v t \<noteq> T_idle"
  shows "\<exists>v'. fs_step v v' \<and> fq_thief v' t \<noteq> fq_thief v t"
proof (cases "fq_thief v t")
  case (T_low high)
  show ?thesis
    unfolding T_low
    by (intro exI conjI, rule fs_step.steal_low [OF T_low]) simp
next
  case (T_read low)
  moreover have wf: "fs_wf (fq_f v)"
    using T_read settled closed_no_access(3) by (auto simp: fs_settled_def)
  ultimately show ?thesis
    using fs_step.steal_read [OF T_read fs_buf_get [OF wf]] by fastforce
next
  case (T_cas low x)
  then show ?thesis
    using fs_step.steal_won [OF T_cas] fs_step.steal_lost [OF T_cas]
    by (cases "fs_low (fq_f v) = low") (fastforce simp: sync_bool_compare_and_swap_def)+
qed (use busy fs_step.steal_high in fastforce)+

section \<open>The layout of the memory block\<close>

definition shard_sys :: "sharded_sys \<Rightarrow> nat \<Rightarrow> fs_sys" where
  "shard_sys s j = shard_view s j (shard (sg_fifo s) j)"

lemma shard_sys_fields [simp]:
  "fq_f (shard_sys s j) = shard (sg_fifo s) j" "fq_master (shard_sys s j) = master_at (sg_master s) j"
  "fq_thief (shard_sys s j) t = thief_at (sg_num s) (sg_thief s t) j" "fq_pushed (shard_sys s j) = sg_pushed s j"
  "fq_log (shard_sys s j) = sg_log s j" "fq_popped (shard_sys s j) = sg_popped s j"
  by (simp_all add: shard_sys_def shard_view_def)

lemma shard_load_sys:
  "sharded_block sz n (sg_fifo s) \<Longrightarrow> unat k < n \<Longrightarrow> shard_load s k = Some (shard_sys s (unat k))"
  using block_loads [of sz n "sg_fifo s" "unat k"] by (simp add: shard_load_def get_shard_index shard_sys_def)

lemma shard_put_fields [simp]:
  "sg_fifo (shard_put s k v) = with_shard (sg_fifo s) (unat k) (fq_f v)"
  "sg_master (shard_put s k v) = sg_master s" "sg_thief (shard_put s k v) = sg_thief s"
  "sg_pushed (shard_put s k v) = (sg_pushed s)(unat k := fq_pushed v)"
  "sg_log (shard_put s k v) = (sg_log s)(unat k := fq_log v)"
  "sg_popped (shard_put s k v) = (sg_popped s)(unat k := fq_popped v)"
  "sg_in (shard_put s k v) = sg_in s" "sg_out (shard_put s k v) = sg_out s"
  "sg_got (shard_put s k v) = sg_got s" "sg_hint (shard_put s k v) = sg_hint s" "sg_mark (shard_put s k v) = sg_mark s"
  by (simp_all add: shard_put_def with_shard_def get_shard_index)

lemma fs_settled_size: "fs_settled sz v \<Longrightarrow> fq_n v \<le> sz"
  by (auto simp: fs_settled_def closed_sysD(1))

lemma fs_settled_within: "fs_settled sz v \<Longrightarrow> fs_step v v' \<Longrightarrow> within sz (fq_f v) (fq_f v')"
  using fs_step_within closed_step by (auto simp: fs_settled_def)

lemma shard_put_block:
  assumes ok: "sharded_block sz n (sg_fifo s)" and settled: "\<And>j. j < n \<Longrightarrow> fs_settled sz (shard_sys s j)"
    and k: "unat k < n" and v: "shard_load s k = Some v" and step: "fs_step v v'"
  shows "sharded_block sz n (with_shard (sg_fifo s) (unat k) (fq_f v'))"
    and "shard (with_shard (sg_fifo s) (unat k) (fq_f v')) (unat k) = fq_f v'"
    and "j < n \<Longrightarrow> j \<noteq> unat k \<Longrightarrow>
      clip (shard (with_shard (sg_fifo s) (unat k) (fq_f v')) j) = clip (shard (sg_fifo s) j)"
proof -
  have v: "v = shard_sys s (unat k)"
    using v shard_load_sys [OF ok k] by simp
  have w: "within sz (shard (sg_fifo s) (unat k)) (fq_f v')"
    using fs_settled_within [OF _ step] settled [OF k] v by simp
  show "sharded_block sz n (with_shard (sg_fifo s) (unat k) (fq_f v'))"
    by (rule block_with_shard(3) [OF ok k w])
  show "shard (with_shard (sg_fifo s) (unat k) (fq_f v')) (unat k) = fq_f v'"
    by (rule block_with_shard(1) [OF ok k w])
  show "clip (shard (with_shard (sg_fifo s) (unat k) (fq_f v')) j) = clip (shard (sg_fifo s) j)"
    if "j < n" "j \<noteq> unat k"
    using block_with_shard_other [OF ok k w that] fs_settled_size [OF settled [OF that(1)]] by simp
qed

lemma block_next:
  "sharded_block sz n f \<Longrightarrow> unat w < n \<Longrightarrow> sharded_block sz n (f\<lparr>sh_next_shard_push := w\<rparr>)"
  "sharded_block sz n f \<Longrightarrow> unat w < n \<Longrightarrow> sharded_block sz n (f\<lparr>sh_next_shard_pop := w\<rparr>)"
  by (simp_all add: sharded_block_def)

section \<open>The invariant\<close>

text \<open>A shard as a buffer of its own, without the words behind it.\<close>

definition shard_abs :: "nat \<Rightarrow> sharded_sys \<Rightarrow> fs_sys" where
  "shard_abs j s = clip_sys (shard_sys s j)"

lemma shard_abs_fields [simp]:
  "fq_master (shard_abs j s) = master_at (sg_master s) j" "fq_thief (shard_abs j s) t = thief_at (sg_num s) (sg_thief s t) j"
  "fq_pushed (shard_abs j s) = sg_pushed s j" "fq_log (shard_abs j s) = sg_log s j"
  "fq_popped (shard_abs j s) = sg_popped s j" "fq_f (shard_abs j s) = clip (shard (sg_fifo s) j)"
  by (simp_all add: shard_abs_def)

fun pushing :: "ptr \<Rightarrow> fs_master \<Rightarrow> bool" where
  "pushing x (M_push_high data) = (data = x)"
| "pushing x (M_push_low data high) = (data = x)"
| "pushing x (M_push_store data high) = (data = x)"
| "pushing x (M_push_publish data high) = (data = x)"
| "pushing x _ = False"

fun popping :: "fs_master \<Rightarrow> bool" where
  "popping M_pop_high = True"
| "popping (M_pop_low high) = True"
| "popping (M_pop_add high) = True"
| "popping (M_pop_reset high) = True"
| "popping (M_pop_read new_low) = True"
| "popping _ = False"

fun sh_master_ok :: "nat \<Rightarrow> sh_master \<Rightarrow> bool" where
  "sh_master_ok n (SM_in_push data i k c) \<longleftrightarrow> unat k < n \<and> pushing data c"
| "sh_master_ok n (SM_in_pop i k c) \<longleftrightarrow> unat k < n \<and> popping c"
| "sh_master_ok n _ \<longleftrightarrow> True"

fun sh_thief_ok :: "sh_thief \<Rightarrow> bool" where
  "sh_thief_ok (ST_in i stop r c) \<longleftrightarrow> i < stop \<and> c \<noteq> T_idle"
| "sh_thief_ok _ \<longleftrightarrow> True"

lemma pushing_step:
  "fs_step v v' \<Longrightarrow> pushing x (fq_master v) \<Longrightarrow> fq_master v' = M_idle \<or> pushing x (fq_master v')"
  by (erule fs_step.cases) auto

lemma popping_step:
  "fs_step v v' \<Longrightarrow> popping (fq_master v) \<Longrightarrow> fq_master v' = M_idle \<or> popping (fq_master v')"
  by (erule fs_step.cases) auto

definition sg_inv :: "nat \<Rightarrow> nat \<Rightarrow> sharded_sys \<Rightarrow> bool" where
  [inv_defs]: "sg_inv sz n s \<longleftrightarrow> sharded_block sz n (sg_fifo s) \<and> (\<forall>j<n. fs_settled sz (shard_abs j s))
     \<and> sh_master_ok n (sg_master s) \<and> (\<forall>t. sh_thief_ok (sg_thief s t))"

lemma settled_abs: "fs_settled sz (shard_abs j s) = fs_settled sz (shard_sys s j)"
  by (simp only: shard_abs_def clip_settled)

lemma sg_invD:
  assumes "sg_inv sz n s"
  shows "sharded_block sz n (sg_fifo s)" "sh_master_ok n (sg_master s)" "sh_thief_ok (sg_thief s t)"
    "unat (sg_num s) = n" "unat (i mod sg_num s) < n" "unat (sh_next_shard_push (sg_fifo s)) < n"
    "unat (sh_next_shard_pop (sg_fifo s)) < n" "j < n \<Longrightarrow> fs_settled sz (shard_abs j s)"
    "j < n \<Longrightarrow> fs_settled sz (shard_sys s j)"
  using assms by (auto simp: sg_inv_def sharded_block_def unat_mod settled_abs)

lemma in_pushD:
  assumes "sg_inv sz n s" and "sg_master s = SM_in_push data i k c" and "shard_load s k = Some v"
  shows "unat k < n" "v = shard_sys s (unat k)" "pushing data c" "fq_master v = c"
  using assms shard_load_sys [of sz n s k] by (auto simp: sg_inv_def)

lemma in_popD:
  assumes "sg_inv sz n s" and "sg_master s = SM_in_pop i k c" and "shard_load s k = Some v"
  shows "unat k < n" "v = shard_sys s (unat k)" "popping c" "fq_master v = c"
  using assms shard_load_sys [of sz n s k] by (auto simp: sg_inv_def)

lemma in_stealD:
  assumes "sg_inv sz n s" and "sg_thief s t = ST_in i stop r c" and "shard_load s (i mod sg_num s) = Some v"
  shows "unat (i mod sg_num s) < n" "v = shard_sys s (unat (i mod sg_num s))" "fq_thief v t = c"
  using assms sg_invD(5) [OF assms(1), of i] shard_load_sys [of sz n s "i mod sg_num s"]
  by (auto simp: sg_inv_def)

lemma sg_next_shard:
  assumes "sg_inv sz n s" and "unat w < n"
    and "sharded_fifo_steal_buffer_next_shard (sg_fifo s) w = (k, new_value)"
  shows "k = w" "unat new_value < n"
  using block_next_shard [OF sg_invD(1) [OF assms(1)] assms(2)] assms(2,3) by auto

section \<open>Every shard is a single buffer\<close>

lemma shard_abs_eqI:
  assumes "clip (shard (sg_fifo s') j) = clip (shard (sg_fifo s) j)" and "master_at (sg_master s') j = master_at (sg_master s) j"
    and "\<And>t. thief_at (sg_num s') (sg_thief s' t) j = thief_at (sg_num s) (sg_thief s t) j"
    and "sg_pushed s' j = sg_pushed s j" and "sg_log s' j = sg_log s j" and "sg_popped s' j = sg_popped s j"
  shows "shard_abs j s' = shard_abs j s"
  using assms by (simp add: shard_abs_def shard_sys_def shard_view_def)

lemma shard_abs_in:
  assumes inv: "sg_inv sz n s" and k: "unat k < n" and v: "shard_load s k = Some v" and step: "fs_step v v'"
    and fifo: "sg_fifo s' = with_shard (sg_fifo s) (unat k) (fq_f v')"
    and logs: "sg_pushed s' = (sg_pushed s)(unat k := fq_pushed v')" "sg_log s' = (sg_log s)(unat k := fq_log v')"
      "sg_popped s' = (sg_popped s)(unat k := fq_popped v')"
    and master: "master_at (sg_master s') (unat k) = fq_master v'"
      "\<And>j. j \<noteq> unat k \<Longrightarrow> master_at (sg_master s') j = master_at (sg_master s) j"
    and thief: "\<And>t. thief_at (sg_num s) (sg_thief s' t) (unat k) = fq_thief v' t"
      "\<And>t j. j \<noteq> unat k \<Longrightarrow> thief_at (sg_num s) (sg_thief s' t) j = thief_at (sg_num s) (sg_thief s t) j"
    and j: "j < n"
  shows "shard_abs j s' = (if j = unat k then clip_sys v' else shard_abs j s)"
    and "shard_abs j s' = shard_abs j s \<or> fs_step (shard_abs j s) (shard_abs j s')"
proof -
  note lay = sg_invD(1) [OF inv]
  note put = shard_put_block [OF lay sg_invD(9) [OF inv] k v step]
  have num: "sg_num s' = sg_num s"
    by (simp add: fifo)
  have v': "v = shard_sys s (unat k)"
    using v shard_load_sys [OF lay k] by simp
  show eq: "shard_abs j s' = (if j = unat k then clip_sys v' else shard_abs j s)"
  proof (cases "j = unat k")
    case True
    have "shard_sys s' (unat k) = v'"
      by (rule fs_sys.equality) (simp_all add: put(2) fifo logs master thief num fun_eq_iff)
    with True show ?thesis
      by (simp add: shard_abs_def)
  next
    case False
    then show ?thesis
      using put(3) j by (auto intro!: shard_abs_eqI simp: fifo logs master thief num)
  qed
  have "fs_step (shard_abs (unat k) s) (clip_sys v')"
    using clip_step [OF step] sg_invD(9) [OF inv k] by (simp add: shard_abs_def v')
  then show "shard_abs j s' = shard_abs j s \<or> fs_step (shard_abs j s) (shard_abs j s')"
    by (simp add: eq)
qed

lemma sg_step_abs:
  assumes inv: "sg_inv sz n s" and j: "j < n" and step: "sg_step s s'"
  shows "shard_abs j s' = shard_abs j s \<or> fs_step (shard_abs j s) (shard_abs j s')"
  using step
proof cases
  case (push_shard data i k new_value)
  have "shard_abs j s' = (if j = unat k then shard_abs j s\<lparr>fq_master := M_push_high data\<rparr> else shard_abs j s)"
    using push_shard(1,2) by (simp add: shard_abs_def shard_sys_def shard_view_def)
  then show ?thesis
    using fs_step.push_call [of "shard_abs j s" data] push_shard(2) by (cases "j = unat k") simp_all
next
  case (pop_shard i k new_value)
  have "shard_abs j s' = (if j = unat k then shard_abs j s\<lparr>fq_master := M_pop_high\<rparr> else shard_abs j s)"
    using pop_shard(1,2) by (simp add: shard_abs_def shard_sys_def shard_view_def)
  then show ?thesis
    using fs_step.pop_call [of "shard_abs j s"] pop_shard(2) by (cases "j = unat k") simp_all
next
  case (steal_shard t i stop r)
  have "shard_abs j s' = (if j = unat (i mod sg_num s) then thief_goto (shard_abs j s) t T_high else shard_abs j s)"
    using steal_shard(1,2) by (simp add: shard_abs_def shard_sys_def shard_view_def fun_eq_iff)
  then show ?thesis
    using fs_step.steal_call [of "shard_abs j s" t] steal_shard(2) by (cases "j = unat (i mod sg_num s)") simp_all
next
  case (push_in data i k c v v')
  note D = in_pushD [OF inv push_in(2,3)]
  have thief: "fq_thief v' = fq_thief v"
    using fs_master_step(1) [OF push_in(4)] push_in(5) D(4) by simp
  show ?thesis
    by (rule shard_abs_in(2) [OF inv D(1) push_in(3,4) _ _ _ _ _ _ _ _ j])
      (use push_in(1,2) thief in \<open>simp_all add: push_goto_def D(2)\<close>)
next
  case (pop_in i k c v v')
  note D = in_popD [OF inv pop_in(2,3)]
  have thief: "fq_thief v' = fq_thief v"
    using fs_master_step(1) [OF pop_in(4)] pop_in(5) D(4) by simp
  show ?thesis
    by (rule shard_abs_in(2) [OF inv D(1) pop_in(3,4) _ _ _ _ _ _ _ _ j])
      (use pop_in(1,2) thief in \<open>simp_all add: pop_goto_def D(2)\<close>)
next
  case (steal_in t i stop r c v v' taken)
  note D = in_stealD [OF inv steal_in(2,3)]
  have moved: "fq_thief v' t \<noteq> fq_thief v t"
    using steal_in(5) D(3) by simp
  note other = fs_thief_step(1,2) [OF steal_in(4) moved]
  have "fq_thief v' u = fq_thief v u" if "u \<noteq> t" for u
    using other(2) that by (metis fun_upd_other)
  then show ?thesis
    by (intro shard_abs_in(2) [OF inv D(1) steal_in(3,4) _ _ _ _ _ _ _ _ j])
      (use steal_in(1,2) other(1) in \<open>auto simp: steal_goto_def D(2)\<close>)
qed (auto intro!: shard_abs_eqI)

lemma sg_step_block:
  assumes inv: "sg_inv sz n s" and step: "sg_step s s'"
  shows "sharded_block sz n (sg_fifo s') \<and> sh_master_ok n (sg_master s') \<and> (\<forall>t. sh_thief_ok (sg_thief s' t))"
proof -
  note I = sg_invD [OF inv]
  note put = shard_put_block(1) [OF I(1) I(9)]
  show ?thesis
    using step
  proof cases
    case (push_shard data i k new_value)
    then show ?thesis
      using I sg_next_shard [OF inv I(6) push_shard(4)] by (simp add: block_next)
  next
    case (pop_shard i k new_value)
    then show ?thesis
      using I sg_next_shard [OF inv I(7) pop_shard(4)] by (simp add: block_next)
  next
    case (push_in data i k c v v')
    note D = in_pushD [OF inv push_in(2,3)]
    have "sh_master_ok n (sg_master s')"
      using pushing_step [OF push_in(4), of data] D push_in(1) by (auto simp: push_goto_def)
    then show ?thesis
      using put [OF _ D(1) push_in(3,4)] I(3) by (simp add: push_in(1))
  next
    case (pop_in i k c v v')
    note D = in_popD [OF inv pop_in(2,3)]
    have "sh_master_ok n (sg_master s')"
      using popping_step [OF pop_in(4)] D pop_in(1) by (auto simp: pop_goto_def)
    then show ?thesis
      using put [OF _ D(1) pop_in(3,4)] I(3) by (simp add: pop_in(1))
  next
    case (steal_in t i stop r c v v' taken)
    have "sh_thief_ok (sg_thief s' u)" for u
      using I(3) [of u] I(3) [of t] steal_in(1,2) by (simp add: steal_goto_def)
    then show ?thesis
      using put [OF _ I(5) steal_in(3,4)] I(2) by (simp add: steal_in(1))
  qed (use I in simp_all)
qed

text \<open>A shard stays what it was at the start, a buffer or closed.\<close>

lemma sg_step_settled:
  assumes "sg_inv sz n s" and "j < n" and "sg_step s s'"
  shows "fs_settled sz (shard_abs j s')" "fs_size (shard (sg_fifo s') j) = fs_size (shard (sg_fifo s) j)"
proof -
  have "shard_abs j s' = shard_abs j s \<or> fs_step (shard_abs j s) (shard_abs j s')"
    by (rule sg_step_abs [OF assms])
  then have "fs_settled sz (shard_abs j s') \<and> fs_size (fq_f (shard_abs j s')) = fs_size (fq_f (shard_abs j s))"
    using fs_settled_step [OF sg_invD(8) [OF assms(1,2)]] sg_invD(8) [OF assms(1,2)] by metis
  then show "fs_settled sz (shard_abs j s')" "fs_size (shard (sg_fifo s') j) = fs_size (shard (sg_fifo s) j)"
    by simp_all
qed

lemma sg_step_inv: "sg_inv sz n s \<Longrightarrow> sg_step s s' \<Longrightarrow> sg_inv sz n s'"
  using sg_step_block [of sz n s s'] sg_step_settled(1) [of sz n s _ s'] by (simp add: sg_inv_def)

lemma sg_start_inv:
  assumes "sg_start k n s"
  shows "sg_inv (2 ^ unat k) n s"
proof -
  have s: "sharded_created k n (sg_fifo s)" "headers_settled k n (sg_fifo s)" "sg_master s = SM_idle"
      "sg_thief s = (\<lambda>_. ST_idle)" "sg_pushed s = (\<lambda>_. [])" "sg_log s = (\<lambda>_. [])" "sg_popped s = (\<lambda>_. [])"
    using assms by (simp_all add: sg_start_def sg_init_def)
  have "fs_settled (2 ^ unat k) (shard_sys s j)" if "j < n" for j
    using s(1,2) that by (rule settled_shard) (simp_all add: fs_settled_def closed_sys_def s(3-7))
  then show ?thesis
    using sharded_created_facts(3) [OF s(1)] s(3,4) by (simp add: sg_inv_def settled_abs)
qed

lemma init_clip: "fifo_steal_buffer_init f k = Some f \<Longrightarrow> fifo_steal_buffer_init (clip f) k = Some (clip f)"
  by (cases f) (auto simp: fifo_steal_buffer_init_def clip_def split: if_splits)

abbreviation shard_size :: "nat \<Rightarrow> sharded_sys \<Rightarrow> u32" where
  "shard_size j s \<equiv> fs_size (shard (sg_fifo s) j)"

interpretation sgs: simulation "\<lambda>s. sg_start k n s \<and> j < n \<and> shard_size j s \<noteq> 0" sg_step
  "\<lambda>s. sg_inv (2 ^ unat k) n s \<and> j < n" "fs_init k" fs_step "shard_abs j" for k n j
proof (unfold_locales, goal_cases)
  case (1 s)
  then show ?case by (simp add: sg_start_inv)
next
  case (2 s t)
  then show ?case by (auto intro: sg_step_inv)
next
  case (3 s)
  then have s: "sharded_created k n (sg_fifo s)" "headers_settled k n (sg_fifo s)" "j < n" "shard_size j s \<noteq> 0"
    by (simp_all add: sg_start_def sg_init_def)
  let ?f = "shard (sg_fifo s) j"
  have f: "fifo_steal_buffer_init ?f k = Some ?f" "unat (fs_size ?f) = 2 ^ unat k" "2 ^ unat k \<le> length (fs_buffer ?f)"
    using s(4) by (cases rule: settled_shard [OF s(1-3)]; simp add: fs_closed_def)+
  then have "fifo_steal_buffer_init (clip ?f) k = Some (clip ?f) \<and> 2 ^ unat k \<le> length (fs_buffer (clip ?f))"
    using init_clip [OF f(1)] f(2,3) by (simp add: clip_def)
  then show ?case
    using 3 by (auto simp: fs_init_def sg_start_def sg_init_def shard_abs_def shard_sys_def shard_view_def)
next
  case (4 s t)
  then show ?case using sg_step_abs by blast
qed

lemma sg_reach_inv: "reach (sg_start k n) sg_step s \<Longrightarrow> sg_inv (2 ^ unat k) n s"
  by (induction rule: reach.induct) (auto intro: sg_start_inv sg_step_inv)

lemma sg_reach_shard:
  assumes "reach (sg_start k n) sg_step s" and "j < n" and "shard_size j s \<noteq> 0"
  shows "reach (fs_init k) fs_step (shard_abs j s)"
proof (rule sgs.reach_abs)
  show "reach (\<lambda>s. sg_start k n s \<and> j < n \<and> shard_size j s \<noteq> 0) sg_step s"
    using assms
  proof (induction rule: reach.induct)
    case (reach_step s s')
    have "shard_size j s' = shard_size j s"
      by (rule sg_step_settled(2) [OF sg_reach_inv [OF reach_step(1)] reach_step(4,2)])
    with reach_step show ?case
      by (auto intro: reach.reach_step)
  qed (simp add: reach.reach_init)
qed

lemma sg_reach_shard_0: "reach (sg_start k n) sg_step s \<Longrightarrow> shard_size 0 s \<noteq> 0"
proof (induction rule: reach.induct)
  case (reach_init s)
  then have c: "sharded_created k n (sg_fifo s)"
    by (simp add: sg_start_def sg_init_def)
  note facts = sharded_created_facts [OF c]
  show ?case
    using fs_wf_pos [of "shard (sg_fifo s) 0"] init_wf [OF facts(1,2,5,4)] fs_ok_wf by auto
next
  case (reach_step s s')
  have "0 < n"
    using sg_invD(1) [OF sg_reach_inv [OF reach_step(1)]] by (simp add: sharded_block_def)
  then show ?case
    using sg_step_settled(2) [OF sg_reach_inv [OF reach_step(1)] _ reach_step(2)] reach_step(3) by simp
qed

lemma sg_reach_closed:
  assumes "reach (sg_start k n) sg_step s" and "j < n" and "shard_size j s = 0"
  shows "closed_sys (shard_abs j s)"
  using sg_invD(8) [OF sg_reach_inv [OF assms(1)] assms(2)]
  by (cases rule: fs_settled_cases) (simp_all add: assms(3))

lemma sg_reach_fs_inv:
  assumes "reach (sg_start k n) sg_step s" and "j < n" and "length (sg_pushed s j) < 2 ^ 64 - 1"
  shows "closed_sys (shard_abs j s) \<or> fs_inv (shard_abs j s)"
  using fsc.reach_inv [OF sg_reach_shard [OF assms(1,2)]] sg_reach_closed [OF assms(1,2)] assms(3)
  by (cases "shard_size j s = 0") (auto simp: fs_bound_def)

section \<open>What the operations return\<close>

lemma sum_upd:
  fixes d :: "'a :: comm_monoid_add" and k n :: nat
  assumes "k < n" and "f y = f (g k) + d"
  shows "(\<Sum>j<n. f ((g(k := y)) j)) = (\<Sum>j<n. f (g j)) + d"
proof -
  have "(\<Sum>j<n. f ((g(k := y)) j)) = f y + (\<Sum>j\<in>{..<n} - {k}. f ((g(k := y)) j))"
    using assms(1) sum.remove [of "{..<n}" k "\<lambda>j. f ((g(k := y)) j)"] by simp
  also have "\<dots> = f (g k) + d + (\<Sum>j\<in>{..<n} - {k}. f (g j))"
    using assms(2) by (intro arg_cong2 [where f = "(+)"] sum.cong) simp_all
  also have "\<dots> = (\<Sum>j<n. f (g j)) + d"
    using assms(1) sum.remove [of "{..<n}" k "\<lambda>j. f (g j)"] by (simp add: ac_simps)
  finally show ?thesis .
qed

lemma push_in_result:
  assumes "fs_step v v'" and "fq_master v' \<noteq> fq_master v" and "pushing x (fq_master v)"
  shows "fq_pushed v' = fq_pushed v @ (if fq_master v' = M_idle \<and> master_result (fq_master v) \<noteq> 0 then [x] else [])"
    and "fq_popped v' = fq_popped v"
  using assms by (cases; auto split: if_splits)+

lemma pop_in_result:
  assumes "fs_step v v'" and "fq_master v' \<noteq> fq_master v" and "popping (fq_master v)"
  shows "fq_pushed v' = fq_pushed v" and "fq_popped v' = fq_popped v @ drop (length (fq_popped v)) (fq_popped v')"
  using assms by (cases; auto split: if_splits)+

abbreviation stolen :: "tid \<Rightarrow> (fate \<times> ptr) list \<Rightarrow> ptr list" where
  "stolen t log \<equiv> map snd (filter (\<lambda>(f, _). f = Stolen_by t) log)"

definition sg_accounts :: "nat \<Rightarrow> sharded_sys \<Rightarrow> bool" where
  [inv_defs]: "sg_accounts n s \<longleftrightarrow>
     mset (sg_in s) = (\<Sum>j<n. mset (sg_pushed s j)) \<and> mset (sg_out s) = (\<Sum>j<n. mset (sg_popped s j))
     \<and> (\<forall>t. mset (sg_got s t) = (\<Sum>j<n. mset (stolen t (sg_log s j))))"

lemma sg_step_accounts:
  assumes inv: "sg_inv sz n s" and acc: "sg_accounts n s" and step: "sg_step s s'"
  shows "sg_accounts n s'"
  using step
proof cases
  case (push_in data i k c v v')
  note D = in_pushD [OF inv push_in(2,3)]
  have moved: "fq_master v' \<noteq> fq_master v"
    using push_in(5) D(4) by simp
  note res = push_in_result [OF push_in(4) moved, of data] fs_master_step(3) [OF push_in(4) moved]
  let ?d = "if fq_master v' = M_idle \<and> master_result c \<noteq> 0 then [data] else []"
  have "sg_pushed s' = (sg_pushed s)(unat k := fq_pushed v')"
    by (simp add: push_in(1))
  moreover have "mset (fq_pushed v') = mset (sg_pushed s (unat k)) + mset ?d"
    using res(1) D by simp
  ultimately have "(\<Sum>j<n. mset (sg_pushed s' j)) = (\<Sum>j<n. mset (sg_pushed s j)) + mset ?d"
    using D(1) by (simp only: sum_upd)
  moreover have "sg_popped s' = sg_popped s"
    using res(2) D by (auto simp: push_in(1))
  moreover have "stolen t (sg_log s' j) = stolen t (sg_log s j)" for t j
    using res(3) D(2) by (auto simp: push_in(1))
  ultimately show ?thesis
    using acc by (simp add: sg_accounts_def push_in(1))
next
  case (pop_in i k c v v')
  note D = in_popD [OF inv pop_in(2,3)]
  have moved: "fq_master v' \<noteq> fq_master v"
    using pop_in(5) D(4) by simp
  note res = pop_in_result [OF pop_in(4) moved] fs_master_step(3) [OF pop_in(4) moved]
  let ?d = "drop (length (fq_popped v)) (fq_popped v')"
  have "sg_popped s' = (sg_popped s)(unat k := fq_popped v')"
    by (simp add: pop_in(1))
  moreover have "mset (fq_popped v') = mset (sg_popped s (unat k)) + mset ?d"
    using res(2) D by (metis mset_append shard_sys_fields(6))
  ultimately have "(\<Sum>j<n. mset (sg_popped s' j)) = (\<Sum>j<n. mset (sg_popped s j)) + mset ?d"
    using D(1) by (simp only: sum_upd)
  moreover have "sg_pushed s' = sg_pushed s"
    using res(1) D by (auto simp: pop_in(1))
  moreover have "stolen t (sg_log s' j) = stolen t (sg_log s j)" for t j
    using res(3) D(2) by (auto simp: pop_in(1))
  ultimately show ?thesis
    using acc by (simp add: sg_accounts_def pop_in(1))
next
  case (steal_in t i stop r c v v' taken)
  note D = in_stealD [OF inv steal_in(2,3)]
  have moved: "fq_thief v' t \<noteq> fq_thief v t"
    using steal_in(5) D(3) by simp
  note res = fs_thief_step(3,4,5) [OF steal_in(4) moved, folded steal_in(6)]
  have "sg_log s' = (sg_log s)(unat (i mod sg_num s) := fq_log v')"
    by (simp add: steal_in(1))
  moreover have "mset (stolen u (fq_log v')) = mset (stolen u (sg_log s (unat (i mod sg_num s)))) + mset (if u = t then thief_out c taken else [])" for u
    using res(3) D(2,3) by (simp add: filter_map o_def)
  ultimately have "(\<Sum>j<n. mset (stolen u (sg_log s' j))) =
      (\<Sum>j<n. mset (stolen u (sg_log s j))) + mset (if u = t then thief_out c taken else [])" for u
    using sum_upd [OF D(1), where f = "\<lambda>log. mset (stolen u log)"] by simp
  moreover have "sg_pushed s' = sg_pushed s" "sg_popped s' = sg_popped s"
    using res(1,2) D by (auto simp: steal_in(1))
  ultimately show ?thesis
    using acc by (simp add: sg_accounts_def steal_in(1))
qed (use acc in \<open>simp_all add: sg_accounts_def\<close>)

lemma sg_reach_accounts: "reach (sg_start k n) sg_step s \<Longrightarrow> sg_accounts n s"
proof (induction rule: reach.induct)
  case (reach_init s)
  then show ?case by (simp add: sg_start_def sg_init_def sg_accounts_def)
next
  case (reach_step s s')
  then show ?case
    using sg_step_accounts sg_reach_inv by blast
qed

section \<open>What a thief has seen\<close>

definition all_gone :: "sharded_sys \<Rightarrow> tid \<Rightarrow> nat \<Rightarrow> nat \<Rightarrow> nat \<Rightarrow> bool" where
  "all_gone s t n a b \<longleftrightarrow> (\<forall>q. a \<le> q \<and> q < b \<longrightarrow> sg_mark s t (q mod n) \<le> length (sg_log s (q mod n)))"

text \<open>
  A thief that has met neither an item nor an abort so far: of the shards it has visited, every
  item that was there at its call is gone.
\<close>

fun sg_seen :: "nat \<Rightarrow> sharded_sys \<Rightarrow> tid \<Rightarrow> sh_thief \<Rightarrow> bool" where
  "sg_seen n s t (ST_loop i stop r) \<longleftrightarrow> stop = sg_hint s t + sg_num s
     \<and> (\<forall>j. sg_mark s t j \<le> length (sg_pushed s j))
     \<and> (r = SHARDED_FIFO_STEAL_BUFFER_EMPTY \<longrightarrow> unat (sg_hint s t) + n < 2 ^ 32 \<longrightarrow>
          unat i \<le> unat (sg_hint s t) + n \<and> all_gone s t n (unat (sg_hint s t)) (unat i))"
| "sg_seen n s t (ST_in i stop r c) \<longleftrightarrow> stop = sg_hint s t + sg_num s
     \<and> (\<forall>j. sg_mark s t j \<le> length (sg_pushed s j))
     \<and> (r = SHARDED_FIFO_STEAL_BUFFER_EMPTY \<longrightarrow> unat (sg_hint s t) + n < 2 ^ 32 \<longrightarrow>
          unat i < unat (sg_hint s t) + n \<and> all_gone s t n (unat (sg_hint s t)) (unat i)
          \<and> (case c of T_low high \<Rightarrow> sg_mark s t (unat i mod n) \<le> unat high | _ \<Rightarrow> True))"
| "sg_seen n s t ST_idle \<longleftrightarrow> True"

lemma shard_load_logs: "shard_load s k = Some v \<Longrightarrow> fq_pushed v = sg_pushed s (unat k) \<and> fq_log v = sg_log s (unat k)"
  by (auto simp: shard_load_def shard_view_def)

lemma sg_step_grows:
  assumes step: "sg_step s s'"
  shows "length (sg_pushed s j) \<le> length (sg_pushed s' j)" and "length (sg_log s j) \<le> length (sg_log s' j)"
    and "sg_num s' = sg_num s"
proof -
  have len: "length (fq_pushed v) \<le> length (fq_pushed v')" "length (fq_log v) \<le> length (fq_log v')" if "fs_step v v'" for v v'
    using fs_step_grows [OF that] by (auto dest: prefix_length_le)
  have "length (sg_pushed s j) \<le> length (sg_pushed s' j) \<and> length (sg_log s j) \<le> length (sg_log s' j) \<and> sg_num s' = sg_num s"
    using step
  proof cases
    case (push_in data i k c v v')
    then show ?thesis using len [OF push_in(4)] shard_load_logs [OF push_in(3)] by simp
  next
    case (pop_in i k c v v')
    then show ?thesis using len [OF pop_in(4)] shard_load_logs [OF pop_in(3)] by simp
  next
    case (steal_in t i stop r c v v' taken)
    then show ?thesis using len [OF steal_in(4)] shard_load_logs [OF steal_in(3)] by simp
  qed simp_all
  then show "length (sg_pushed s j) \<le> length (sg_pushed s' j)" and "length (sg_log s j) \<le> length (sg_log s' j)"
    and "sg_num s' = sg_num s"
    by simp_all
qed

lemma all_gone_mono:
  assumes "all_gone s t n a b" and "sg_mark s' t = sg_mark s t" and "\<And>j. length (sg_log s j) \<le> length (sg_log s' j)"
  shows "all_gone s' t n a b"
  using assms unfolding all_gone_def by (metis le_trans)

lemma sg_seen_mono:
  assumes "sg_seen n s t c" and "sg_mark s' t = sg_mark s t" "sg_hint s' t = sg_hint s t"
    and "\<And>j. length (sg_log s j) \<le> length (sg_log s' j)" "\<And>j. length (sg_pushed s j) \<le> length (sg_pushed s' j)"
    and "sg_num s' = sg_num s"
  shows "sg_seen n s' t c"
  using assms all_gone_mono [OF _ assms(2,4)] by (cases c) (auto intro: le_trans split: fs_thief.splits)

lemma thief_reads_high:
  assumes "fs_inv (clip_sys v)" and "fs_step v v'" and "fq_thief v' t \<noteq> fq_thief v t" and "fq_thief v' t = T_low high"
  shows "unat high = length (fq_pushed v)"
  using assms(2-4) fs_invD(2) [OF assms(1)] by (cases; auto split: if_splits)

lemma thief_finds_empty:
  assumes inv: "fs_inv (clip_sys v)" and step: "fs_step v v'" and "fq_thief v t \<noteq> T_idle" "fq_thief v' t = T_idle"
    and empty: "thief_result (fq_thief v t) taken = FIFO_STEAL_BUFFER_EMPTY"
  obtains high where "fq_thief v t = T_low high" "unat high \<le> length (fq_log v)"
proof -
  obtain high where t: "fq_thief v t = T_low high" and "\<not> fs_low (fq_f v) < high"
    using step assms(3,4) empty by (cases; auto simp: fs_result_defs split: if_splits)
  then have "unat high \<le> unat (fs_low (fq_f v))"
    by (simp add: word_less_nat_alt)
  then have "unat high \<le> length (fq_log v)"
    using fs_invD(3,5,6) [OF inv] fs_invD(7) [OF inv, of t] t
    by (auto simp: low_ok_def split: fs_master.splits)
  with t that show ?thesis
    by blast
qed

text \<open>A thief's own step inside a shard.\<close>

lemma sg_seen_steal_in:
  assumes inv: "sg_inv sz n s" and fs: "\<And>j. j < n \<Longrightarrow> closed_sys (shard_abs j s) \<or> fs_inv (shard_abs j s)"
    and pc: "sg_thief s t = ST_in i stop r c" and v: "shard_load s (i mod sg_num s) = Some v"
    and step: "fs_step v v'" and moved: "fq_thief v' t \<noteq> c"
    and seen: "sg_seen n s t (ST_in i stop r c)"
    and s': "sg_mark s' t = sg_mark s t" "sg_hint s' t = sg_hint s t" "sg_num s' = sg_num s"
      "\<And>j. length (sg_log s j) \<le> length (sg_log s' j)" "\<And>j. length (sg_pushed s j) \<le> length (sg_pushed s' j)"
  shows "sg_seen n s' t (steal_goto i stop r c taken (fq_thief v' t))"
proof -
  note D = in_stealD [OF inv pc v]
  let ?k = "unat (i mod sg_num s)" and ?c = "fq_thief v' t"
  have k: "?k = unat i mod n"
    using sg_invD(4) [OF inv] by (simp add: unat_mod)
  have seen': "sg_seen n s' t (ST_in i stop r c)"
    by (rule sg_seen_mono [OF seen s'(1,2,4,5,3)])
  have mark: "sg_mark s t ?k \<le> length (fq_pushed v)"
    using seen D(2) by simp
  have fsv: "fs_inv (clip_sys v)" if "sg_mark s t ?k \<noteq> 0"
    using fs [OF D(1)] D(2) mark that closed_sysD(5) [of "shard_abs ?k s"] by (auto simp: shard_abs_def)
  have lt: "i < stop" "c \<noteq> T_idle"
    using sg_invD(3) [OF inv, of t] pc by simp_all
  then have suc: "unat (i + 1) = Suc (unat i)"
    by (simp add: unat_Suc_less)
  show ?thesis
  proof (cases "?c = T_idle")
    case False
    have "case ?c of T_low high \<Rightarrow> sg_mark s' t (unat i mod n) \<le> unat high | _ \<Rightarrow> True"
      using thief_reads_high [OF fsv step] moved D(3) mark s'(1) k
      by (cases "sg_mark s t ?k = 0") (auto split: fs_thief.split)
    then show ?thesis
      using seen' False by (simp add: steal_goto_def)
  next
    case True
    have gone: "sg_mark s' t ?k \<le> length (sg_log s' ?k)"
      if "thief_result c taken = FIFO_STEAL_BUFFER_EMPTY" "r = SHARDED_FIFO_STEAL_BUFFER_EMPTY" "unat (sg_hint s t) + n < 2 ^ 32"
    proof (cases "sg_mark s t ?k = 0")
      case False
      have "fq_thief v t \<noteq> T_idle" "thief_result (fq_thief v t) taken = FIFO_STEAL_BUFFER_EMPTY"
        using that(1) D(3) lt(2) by simp_all
      then obtain high where high: "c = T_low high" "unat high \<le> length (fq_log v)"
        using thief_finds_empty [OF fsv [OF False] step _ True, of taken] D(3) by metis
      then show ?thesis
        using seen' that D(2) k s'(2) s'(4) [of ?k] by auto
    qed (use s'(1) in simp)
    have "all_gone s' t n (unat (sg_hint s t)) (Suc (unat i))"
      if "thief_result c taken = FIFO_STEAL_BUFFER_EMPTY" "r = SHARDED_FIFO_STEAL_BUFFER_EMPTY" "unat (sg_hint s t) + n < 2 ^ 32"
      using gone [OF that] seen' that k s'(2) by (auto simp: all_gone_def less_Suc_eq)
    then show ?thesis
      using seen' True suc s'(2)
      by (cases c) (auto simp: steal_goto_def fs_result_defs sharded_result_defs)
  qed
qed

lemma sg_step_seen:
  assumes inv: "sg_inv sz n s" and fs: "\<And>j. j < n \<Longrightarrow> closed_sys (shard_abs j s) \<or> fs_inv (shard_abs j s)"
    and seen: "\<And>t. sg_seen n s t (sg_thief s t)" and step: "sg_step s s'"
  shows "sg_seen n s' t (sg_thief s' t)"
proof -
  note grows = sg_step_grows [OF step]
  have same: "sg_seen n s' u (sg_thief s u)" if "sg_mark s' u = sg_mark s u" "sg_hint s' u = sg_hint s u" for u
    by (rule sg_seen_mono [OF seen that grows(2,1,3)])
  show ?thesis
    using step
  proof cases
    case (steal_call u hint)
    show ?thesis
    proof (cases "t = u")
      case True
      then show ?thesis
        using grows(1) by (simp add: steal_call(1) all_gone_def)
    next
      case False
      then show ?thesis
        using same [of t] by (simp add: steal_call(1))
    qed
  next
    case (steal_shard u i stop r)
    have "unat i < unat (sg_hint s u) + n" if "unat (sg_hint s u) + n < 2 ^ 32"
    proof -
      have "stop = sg_hint s u + sg_num s"
        using seen [of u] steal_shard(2) by simp
      then have "unat stop = unat (sg_hint s u) + n"
        using that sg_invD(4) [OF inv] by (simp add: unat_word_ariths)
      then show ?thesis
        using steal_shard(3) by (simp add: word_less_nat_alt)
    qed
    then show ?thesis
      using same [of t] same [of u] steal_shard(1,2) by (cases "t = u") simp_all
  next
    case (steal_in u i stop r c v v' taken)
    show ?thesis
    proof (cases "t = u")
      case True
      have "sg_seen n s' u (steal_goto i stop r c taken (fq_thief v' u))"
        using seen [of u] steal_in(2) grows
        by (intro sg_seen_steal_in [OF inv fs steal_in(2-5)]) (simp_all add: steal_in(1))
      with True show ?thesis
        by (simp add: steal_in(1))
    next
      case False
      then show ?thesis
        using same [of t] by (simp add: steal_in(1))
    qed
  next
    case (steal_done u i stop r)
    then show ?thesis
      using same [of t] by (cases "t = u") simp_all
  qed (use same [of t] in simp_all)
qed

interpretation sgb: bounded_invariant "sg_start k n" sg_step "\<lambda>s. \<forall>j<n. length (sg_pushed s j) < 2 ^ 64 - 1"
  "\<lambda>s. reach (sg_start k n) sg_step s \<and> (\<forall>t. sg_seen n s t (sg_thief s t))" for k n
proof (unfold_locales, goal_cases)
  case (1 s)
  then show ?case by (auto intro: reach_init simp: sg_start_def sg_init_def)
next
  case (2 s t)
  then show ?case
    using sg_step_grows(1) [OF 2(1)] by (meson le_less_trans)
next
  case (3 s t)
  have "\<forall>j<n. length (sg_pushed s j) < 2 ^ 64 - 1"
    using 3(2) sg_step_grows(1) [OF 3(3)] by (meson le_less_trans)
  then have fs: "closed_sys (shard_abs j s) \<or> fs_inv (shard_abs j s)" if "j < n" for j
    using sg_reach_fs_inv 3(1) that by blast
  have r: "reach (sg_start k n) sg_step s" and seen: "sg_seen n s u (sg_thief s u)" for u
    using 3(1) by simp_all
  show ?case
    using sg_step_seen [OF sg_reach_inv [OF r] fs seen 3(3)] reach_step [OF r 3(3)] by simp
qed

text \<open>What a thief has seen holds of every state reached before a counter wraps round.\<close>

lemma sg_reach_seen:
  assumes "reach (sg_start k n) sg_step s" and "\<forall>j<n. length (sg_pushed s j) < 2 ^ 64 - 1"
  shows "sg_seen n s t (sg_thief s t)"
  using sgb.reach_inv [OF assms] by blast

section \<open>What leaves the shards\<close>

lemma sum_fates:
  assumes "finite T"
  shows "mset (map snd (filter (\<lambda>(f, _). f = Popped_by_master) log)) + (\<Sum>t\<in>T. mset (stolen t log)) \<subseteq># mset (map snd log)"
proof (induction log)
  case Nil
  then show ?case by simp
next
  case (Cons e log)
  obtain f x where e: "e = (f, x)"
    by (cases e)
  have "(\<Sum>t\<in>T. mset (stolen t (e # log))) =
      (\<Sum>t\<in>T. mset (stolen t log)) + (case f of Stolen_by u \<Rightarrow> if u \<in> T then {#x#} else {#} | _ \<Rightarrow> {#})"
  proof (cases f)
    case (Stolen_by u)
    have "(\<Sum>t\<in>T. mset (stolen t (e # log))) = (\<Sum>t\<in>T. mset (stolen t log) + (if t = u then {#x#} else {#}))"
      by (rule sum.cong) (auto simp: e Stolen_by)
    then show ?thesis
      using assms by (simp add: sum.distrib Stolen_by)
  qed (simp_all add: e)
  then show ?case
    using Cons by (cases f) (auto simp: e intro: subset_mset.order_trans)
qed

lemma sum_subseteq_mset:
  fixes n :: nat
  assumes "\<And>j. j < n \<Longrightarrow> f j \<subseteq># (g j :: 'a multiset)"
  shows "(\<Sum>j<n. f j) \<subseteq># (\<Sum>j<n. g j)"
  using assms by (induction n) (auto intro: subset_mset.add_mono)

lemma covers_residues:
  fixes a n :: nat
  assumes "j < n"
  obtains q where "a \<le> q" "q < a + n" "q mod n = j"
proof
  let ?d = "(j + n - a mod n) mod n"
  show "a \<le> a + ?d" "a + ?d < a + n"
    using assms by simp_all
  have "(a + ?d) mod n = (a mod n + (j + n - a mod n)) mod n"
    by (metis mod_add_eq mod_mod_trivial)
  also have "a mod n + (j + n - a mod n) = j + n"
    using assms mod_less_divisor [of n a] by linarith
  finally show "(a + ?d) mod n = j"
    using assms by simp
qed

lemma sg_reach_fifo:
  assumes "reach (sg_start k n) sg_step s" and j: "j < n" and "length (sg_pushed s j) < 2 ^ 64 - 1"
  shows "map snd (sg_log s j) = take (length (sg_log s j)) (sg_pushed s j)
    \<and> length (sg_log s j) \<le> length (sg_pushed s j) \<and> length (sg_pushed s j) \<le> length (sg_log s j) + 2 ^ unat k
    \<and> prefix (sg_popped s j) (map snd (filter (\<lambda>(f, _). f = Popped_by_master) (sg_log s j)))"
  using sg_invD(8) [OF sg_reach_inv [OF assms(1)] j]
proof (cases rule: fs_settled_cases)
  case closed
  then show ?thesis
    using closed_sysD(5-7) [OF closed(1)] by simp
next
  case opened
  then have "fs_inv (shard_abs j s)"
    using sg_reach_fs_inv [OF assms] closed_sysD(1) by blast
  note D = fs_invD [OF this]
  show ?thesis
    using D(3,4,8) popped_prefix [OF D(9)] opened(2) by simp
qed

text \<open>Every thread in an operation has a next step.\<close>

lemma sg_master_progress:
  assumes inv: "sg_inv sz n s" and busy: "sg_master s \<noteq> SM_idle"
  shows "\<exists>s'. sg_step s s' \<and> sg_master s' \<noteq> sg_master s"
proof (cases "sg_master s")
  case (SM_push data i)
  obtain k w where "sharded_fifo_steal_buffer_next_shard (sg_fifo s) (sh_next_shard_push (sg_fifo s)) = (k, w)"
    by fastforce
  then show ?thesis
    using sg_step.push_shard [OF SM_push] sg_step.push_full [OF SM_push] SM_push by (cases "i < sg_num s") fastforce+
next
  case (SM_pop i)
  obtain k w where "sharded_fifo_steal_buffer_next_shard (sg_fifo s) (sh_next_shard_pop (sg_fifo s)) = (k, w)"
    by fastforce
  then show ?thesis
    using sg_step.pop_shard [OF SM_pop] sg_step.pop_empty [OF SM_pop] SM_pop by (cases "i < sg_num s") fastforce+
next
  case (SM_in_push data i k c)
  have k: "unat k < n" and "pushing data c"
    using sg_invD(2) [OF inv] SM_in_push by simp_all
  then have c: "c \<noteq> M_idle"
    by auto
  have "\<exists>v'. fs_step (shard_sys s (unat k)) v' \<and> fq_master v' \<noteq> c"
    using fs_master_progress [OF sg_invD(9) [OF inv k]] c SM_in_push by auto
  then obtain v' where v': "fs_step (shard_sys s (unat k)) v'" "fq_master v' \<noteq> c"
    by blast
  have "push_goto data i k c (fq_master v') \<noteq> SM_in_push data i k c"
    using v'(2) by (simp add: push_goto_def)
  then show ?thesis
    using sg_step.push_in [OF SM_in_push shard_load_sys [OF sg_invD(1) [OF inv] k] v'] SM_in_push by fastforce
next
  case (SM_in_pop i k c)
  have k: "unat k < n" and "popping c"
    using sg_invD(2) [OF inv] SM_in_pop by simp_all
  then have c: "c \<noteq> M_idle"
    by auto
  have "\<exists>v'. fs_step (shard_sys s (unat k)) v' \<and> fq_master v' \<noteq> c"
    using fs_master_progress [OF sg_invD(9) [OF inv k]] c SM_in_pop by auto
  then obtain v' where v': "fs_step (shard_sys s (unat k)) v'" "fq_master v' \<noteq> c"
    by blast
  have "pop_goto i k c (fq_master v') \<noteq> SM_in_pop i k c"
    using v'(2) by (simp add: pop_goto_def)
  then show ?thesis
    using sg_step.pop_in [OF SM_in_pop shard_load_sys [OF sg_invD(1) [OF inv] k] v'] SM_in_pop by fastforce
qed (use busy in simp)

lemma sg_thief_progress:
  assumes inv: "sg_inv sz n s" and busy: "sg_thief s t \<noteq> ST_idle"
  shows "\<exists>s'. sg_step s s' \<and> sg_thief s' t \<noteq> sg_thief s t"
proof (cases "sg_thief s t")
  case (ST_loop i stop r)
  then show ?thesis
    using sg_step.steal_shard [OF ST_loop] sg_step.steal_done [OF ST_loop] by (cases "i < stop") fastforce+
next
  case (ST_in i stop r c)
  let ?k = "i mod sg_num s"
  note k = sg_invD(5) [OF inv, of i]
  have c: "c \<noteq> T_idle"
    using sg_invD(3) [OF inv, of t] ST_in by simp
  have "\<exists>v'. fs_step (shard_sys s (unat ?k)) v' \<and> fq_thief v' t \<noteq> c"
    using fs_thief_progress [OF sg_invD(9) [OF inv k], of t] c ST_in by auto
  then obtain v' where v': "fs_step (shard_sys s (unat ?k)) v'" "fq_thief v' t \<noteq> c"
    by blast
  have "steal_goto i stop r c taken (fq_thief v' t) \<noteq> ST_in i stop r c" for taken
    using v'(2) by (simp add: steal_goto_def)
  then show ?thesis
    using sg_step.steal_in [OF ST_in shard_load_sys [OF sg_invD(1) [OF inv] k] v' refl] ST_in by fastforce
qed (use busy in simp)

section \<open>A run\<close>

text \<open>
  Two shards of four cells, created in zeroed memory: the master pushes 7, thief 3 steals it with
  hint 0, and steals again. \<open>h\<close>, \<open>l\<close> and \<open>x\<close> are \<open>high\<close>, \<open>low\<close> and the first cell of shard 0, whose
  other cells have the second header that the creation wrote; shard 1 is closed.
\<close>

definition sg_demo :: "u64 \<Rightarrow> u64 \<Rightarrow> u64 \<Rightarrow> sh_master \<Rightarrow> sh_thief \<Rightarrow> u32 \<Rightarrow> ptr list \<Rightarrow> ptr list \<Rightarrow> nat \<Rightarrow> sharded_sys" where
  "sg_demo h l x m th p pushed got mark =
     \<lparr>sg_fifo = \<lparr>sh_num_shards = 2, sh_memory_per_shard = 56, sh_next_shard_push = p, sh_next_shard_pop = 0,
        sh_shards = [h, l, pack32 4 3, x, 0, pack32 4 3, 0, 0, 0, 0, 0, 0, 0, 0]\<rparr>,
      sg_master = m, sg_thief = (\<lambda>_. ST_idle)(3 := th), sg_pushed = (\<lambda>_. [])(0 := pushed),
      sg_log = (\<lambda>_. [])(0 := map (Pair (Stolen_by 3)) got), sg_popped = (\<lambda>_. []), sg_in = pushed, sg_out = [],
      sg_got = (\<lambda>_. [])(3 := got), sg_hint = (\<lambda>_. 0), sg_mark = (\<lambda>_ _. 0)(3 := (\<lambda>_. 0)(0 := mark))\<rparr>"

abbreviation demo_0 :: "u64 \<Rightarrow> u64 \<Rightarrow> u64 \<Rightarrow> fifo_steal_buffer" where
  "demo_0 h l x \<equiv> \<lparr>fs_high = h, fs_low = l, fs_size = 4, fs_power_of_2_mod = 3,
     fs_buffer = [x, 0, pack32 4 3, 0, 0, 0, 0, 0, 0, 0, 0]\<rparr>"

abbreviation demo_1 :: fifo_steal_buffer where
  "demo_1 \<equiv> \<lparr>fs_high = 0, fs_low = 0, fs_size = 0, fs_power_of_2_mod = 0, fs_buffer = [0, 0, 0, 0]\<rparr>"

lemma demo_load:
  "shard_load (sg_demo h l x m th p pushed got mark) 0 =
     Some (shard_view (sg_demo h l x m th p pushed got mark) 0 (demo_0 h l x))"
  "shard_load (sg_demo h l x m th p pushed got mark) 1 =
     Some (shard_view (sg_demo h l x m th p pushed got mark) 1 demo_1)"
  by (simp_all add: shard_load_def sg_demo_def load_shard_def get_shard_index unpack32)

lemma pack_0 [simp]: "pack32 0 0 = 0"
  by (simp add: pack32_def)

lemma demo_shards:
  "shard (sg_fifo (sg_demo h l x m th p pushed got mark)) 0 = demo_0 h l x"
  "shard (sg_fifo (sg_demo h l x m th p pushed got mark)) 1 = demo_1"
  by (simp_all add: shard_def sg_demo_def load_shard_def unpack32)

lemma demo_start: "reach (sg_start 2 2) sg_step (sg_demo 0 0 0 SM_idle ST_idle 0 [] [] 0)"
proof (rule reach_init)
  let ?s = "sg_demo 0 0 0 SM_idle ST_idle 0 [] [] 0"
  have "sharded_fifo_steal_buffer_create 136 (\<lambda>w. Some (replicate w 0)) 2 2 = Some (Some
      \<lparr>sh_num_shards = 2, sh_memory_per_shard = 56, sh_next_shard_push = 0, sh_next_shard_pop = 0,
        sh_shards = [0, 0, pack32 4 3, 0, 0, pack32 4 3, 0, 0, 0, 0, 0, 0, 0, 0]\<rparr>)"
    by code_simp
  then have "sharded_created 2 2 (sg_fifo ?s)"
    unfolding sharded_created_def
    by (intro conjI exI [of _ 136] exI [of _ "\<lambda>w. Some (replicate w 0)"] exI [of _ 2]) (simp_all add: sg_demo_def)
  moreover have "headers_settled 2 2 (sg_fifo ?s)"
    using demo_shards(2) [of 0 0 0 SM_idle ST_idle 0 "[]" "[]" 0]
    by (auto simp: headers_settled_def less_2_cases_iff fs_closed_def)
  ultimately show "sg_start 2 2 ?s"
    by (simp add: sg_start_def sg_init_def) (simp add: sg_demo_def fun_eq_iff)
qed

lemma demo_step:
  "reach (sg_start 2 2) sg_step s \<Longrightarrow> sg_step s s' \<Longrightarrow> s' = s'' \<Longrightarrow> reach (sg_start 2 2) sg_step s''"
  by (blast intro: reach_step)

lemma demo_push_call: "reach (sg_start 2 2) sg_step (sg_demo 0 0 0 (SM_push 7 0) ST_idle 0 [] [] 0)"
  by (rule demo_step [OF demo_start sg_step.push_call [of _ 7]]) (simp_all add: sg_demo_def)

lemma demo_push_shard:
  "reach (sg_start 2 2) sg_step (sg_demo 0 0 0 (SM_in_push 7 0 0 (M_push_high 7)) ST_idle 1 [] [] 0)"
  by (rule demo_step [OF demo_push_call sg_step.push_shard [of _ 7 0 0 1]])
    (simp_all add: sg_demo_def sharded_fifo_steal_buffer_next_shard_def word_le_nat_alt)

text \<open>A step of the master's, and of the thief's, inside shard 0.\<close>

lemma demo_push_in:
  assumes r: "reach (sg_start 2 2) sg_step (sg_demo h l x (SM_in_push 7 0 0 c) th p pushed got mark)"
    and step: "fs_step (shard_view (sg_demo h l x (SM_in_push 7 0 0 c) th p pushed got mark) 0 (demo_0 h l x)) v'"
    and v': "fq_f v' = demo_0 h' l' x'" "fq_log v' = map (Pair (Stolen_by 3)) got" "fq_popped v' = []"
      "fq_master v' \<noteq> c" "fq_pushed v' = pushed @ (if fq_master v' = M_idle \<and> master_result c \<noteq> 0 then [7] else [])"
    and m: "m = push_goto 7 0 0 c (fq_master v')"
  shows "reach (sg_start 2 2) sg_step (sg_demo h' l' x' m th p (fq_pushed v') got mark)"
  by (rule demo_step [OF r sg_step.push_in [where data = 7 and i = 0 and k = 0 and c = c, OF _ demo_load(1) step v'(4)]])
    (simp_all add: sg_demo_def shard_put_def store_shard_def get_shard_index v' m fun_eq_iff)

lemma demo_num: "sg_num (sg_demo h l x m th p pushed got mark) = 2"
  by (simp add: sg_demo_def)

lemma demo_steal_load:
  "shard_load (sg_demo h l x m th p pushed got mark) (0 mod sg_num (sg_demo h l x m th p pushed got mark)) =
     Some (shard_view (sg_demo h l x m th p pushed got mark) 0 (demo_0 h l x))"
  "shard_load (sg_demo h l x m th p pushed got mark) (1 mod sg_num (sg_demo h l x m th p pushed got mark)) =
     Some (shard_view (sg_demo h l x m th p pushed got mark) 1 demo_1)"
  unfolding demo_num by (simp_all add: demo_load)

lemma demo_steal_in:
  assumes r: "reach (sg_start 2 2) sg_step (sg_demo h l x m (ST_in 0 2 0 c) p pushed got mark)"
    and step: "fs_step (shard_view (sg_demo h l x m (ST_in 0 2 0 c) p pushed got mark) 0 (demo_0 h l x)) v'"
    and v': "fq_f v' = demo_0 h' l' x'" "fq_thief v' 3 \<noteq> c" "fq_pushed v' = pushed" "fq_popped v' = []"
      "fq_log v' = map (Pair (Stolen_by 3)) got'" "got' = got @ thief_out c (length got < length got')"
    and th: "th = steal_goto 0 2 0 c (length got < length got') (fq_thief v' 3)"
  shows "reach (sg_start 2 2) sg_step (sg_demo h' l' x' m th p pushed got' mark)"
proof (rule demo_step [OF r sg_step.steal_in [where t = 3 and i = 0 and stop = 2 and r = 0 and c = c
    and taken = "length got < length got'", OF _ demo_steal_load(1) step v'(2)]])
  show "(length got < length got') = (length (fq_log (shard_view (sg_demo h l x m (ST_in 0 2 0 c) p pushed got mark) 0 (demo_0 h l x))) < length (fq_log v'))"
    by (simp add: v'(5) shard_view_def sg_demo_def)
qed (use v'(6) in \<open>simp_all add: sg_demo_def shard_put_def store_shard_def get_shard_index v'(1,3-5) th fun_eq_iff\<close>)

lemma demo_steal_in_1:
  assumes r: "reach (sg_start 2 2) sg_step (sg_demo h l x m (ST_in 1 2 0 c) p pushed got mark)"
    and step: "fs_step (shard_view (sg_demo h l x m (ST_in 1 2 0 c) p pushed got mark) 1 demo_1) v'"
    and v': "fq_f v' = demo_1" "fq_thief v' 3 \<noteq> c" "fq_pushed v' = []" "fq_popped v' = []" "fq_log v' = []"
    and out: "thief_out c False = []" and th: "th = steal_goto 1 2 0 c False (fq_thief v' 3)"
  shows "reach (sg_start 2 2) sg_step (sg_demo h l x m th p pushed got mark)"
proof (rule demo_step [OF r sg_step.steal_in [where t = 3 and i = 1 and stop = 2 and r = 0 and c = c
    and taken = False, OF _ demo_steal_load(2) step v'(2)]])
  show "False = (length (fq_log (shard_view (sg_demo h l x m (ST_in 1 2 0 c) p pushed got mark) 1 demo_1)) < length (fq_log v'))"
    by (simp add: v'(5) shard_view_def sg_demo_def)
qed (use out in \<open>simp_all add: pack_0 sg_demo_def shard_put_def store_shard_def get_shard_index v' th fun_eq_iff\<close>)

lemmas demo_simps = sg_demo_def shard_view_def push_goto_def steal_goto_def pop_log_def buf_set_def buf_get_def
  sync_bool_compare_and_swap_def fs_result_defs sharded_result_defs

lemma demo_pushed: "reach (sg_start 2 2) sg_step (sg_demo 1 0 7 SM_idle ST_idle 1 [7] [] 0)"
proof -
  let ?s = "\<lambda>h x c pushed. sg_demo h 0 x (SM_in_push 7 0 0 c) ST_idle 1 pushed [] 0"
  have "reach (sg_start 2 2) sg_step (?s 0 0 (M_push_low 7 0) [])"
    using demo_push_in [OF demo_push_shard fs_step.push_high [of _ 7]] by (simp add: demo_simps)
  from demo_push_in [OF this fs_step.push_low [of _ 7 0]]
  have "reach (sg_start 2 2) sg_step (?s 0 0 (M_push_store 7 0) [])"
    by (simp add: demo_simps word_less_nat_alt)
  from demo_push_in [OF this fs_step.push_store [of _ 7 0 "[7, 0, pack32 4 3, 0, 0, 0, 0, 0, 0, 0, 0]"]]
  have "reach (sg_start 2 2) sg_step (?s 0 7 (M_push_publish 7 0) [])"
    by (simp add: demo_simps)
  from demo_push_in [OF this fs_step.push_publish [of _ 7 0]] show ?thesis
    by (simp add: demo_simps)
qed

lemma demo_steal_call:
  assumes r: "reach (sg_start 2 2) sg_step (sg_demo h l x m ST_idle p pushed got mark)"
  shows "reach (sg_start 2 2) sg_step (sg_demo h l x m (ST_in 0 2 0 T_high) p pushed got (length pushed))"
proof -
  have "reach (sg_start 2 2) sg_step (sg_demo h l x m (ST_loop 0 2 0) p pushed got (length pushed))"
    by (rule demo_step [OF r sg_step.steal_call [of _ 3 0]]) (simp_all add: demo_simps fun_eq_iff)
  from demo_step [OF this sg_step.steal_shard [of _ 3 0 2 0]] show ?thesis
    by (simp add: demo_simps)
qed

lemma demo_stolen: "reach (sg_start 2 2) sg_step (sg_demo 1 1 7 SM_idle ST_idle 1 [7] [7] 1)"
proof -
  let ?s = "\<lambda>c. sg_demo 1 0 7 SM_idle (ST_in 0 2 0 c) 1 [7] [] 1"
  have "reach (sg_start 2 2) sg_step (?s T_high)"
    using demo_steal_call [OF demo_pushed] by simp
  from demo_steal_in [OF this fs_step.steal_high [of _ 3]] have "reach (sg_start 2 2) sg_step (?s (T_low 1))"
    by (simp add: demo_simps)
  from demo_steal_in [OF this fs_step.steal_low [of _ 3 1]] have "reach (sg_start 2 2) sg_step (?s (T_read 0))"
    by (simp add: demo_simps)
  from demo_steal_in [OF this fs_step.steal_read [of _ 3 0 7]] have "reach (sg_start 2 2) sg_step (?s (T_cas 0 7))"
    by (simp add: demo_simps)
  from demo_steal_in [OF this fs_step.steal_won [of _ 3 0 7 1], of 1 1 7 "[7]" ST_idle] show ?thesis
    by (simp add: demo_simps)
qed

lemma demo_empty: "reach (sg_start 2 2) sg_step (sg_demo 1 1 7 SM_idle (ST_loop 2 2 0) 1 [7] [7] 1)"
proof -
  let ?s = "\<lambda>i c. sg_demo 1 1 7 SM_idle (ST_in i 2 0 c) 1 [7] [7] 1"
  have "reach (sg_start 2 2) sg_step (?s 0 T_high)"
    using demo_steal_call [OF demo_stolen] by simp
  from demo_steal_in [OF this fs_step.steal_high [of _ 3], where got' = "[7]"] have "reach (sg_start 2 2) sg_step (?s 0 (T_low 1))"
    by (simp add: demo_simps)
  from demo_steal_in [OF this fs_step.steal_low [of _ 3 1], where got' = "[7]"]
  have "reach (sg_start 2 2) sg_step (sg_demo 1 1 7 SM_idle (ST_loop 1 2 0) 1 [7] [7] 1)"
    by (simp add: demo_simps)
  from demo_step [OF this sg_step.steal_shard [of _ 3 1 2 0]] have "reach (sg_start 2 2) sg_step (?s 1 T_high)"
    by (simp add: demo_simps word_less_nat_alt)
  from demo_steal_in_1 [OF this fs_step.steal_high [of _ 3]] have "reach (sg_start 2 2) sg_step (?s 1 (T_low 0))"
    by (simp add: demo_simps)
  from demo_steal_in_1 [OF this fs_step.steal_low [of _ 3 0]] show ?thesis
    by (simp add: demo_simps)
qed

section \<open>Properties\<close>

text \<open>
  C24. Seen through any one shard the sharded buffer is a \<open>fifo_steal_buffer\<close>: the words the shard
  has in the memory block, where the threads are in it and its logs are at every moment a state
  that a buffer of its own reaches, whatever happens to the other shards in the same block. This
  holds of shard 0 and of every shard that the creation's memory gave the header of a buffer; a
  closed one (of size 0, as in zeroed memory) stays empty. (If every shard started as one or the
  other, which a sole shard does, and any number in zeroed memory when \<open>24 * num_shards\<close> bytes
  do not reach shard 1.)
\<close>

theorem sharded_conc_refines_single_buffer:
  assumes "reach (sg_start k n) sg_step s" and "j < n"
  shows "if 0 < j \<and> fs_size (shard (sg_fifo s) j) = 0 then sg_pushed s j = [] \<and> sg_log s j = [] \<and> sg_popped s j = []
    else reach (fs_init k) fs_step (shard_abs j s)"
proof (cases "0 < j \<and> shard_size j s = 0")
  case True
  then show ?thesis
    using closed_sysD(5-7) [OF sg_reach_closed [OF assms]] by simp
next
  case False
  then have "shard_size j s \<noteq> 0"
    using sg_reach_shard_0 [OF assms(1)] by auto
  then show ?thesis
    unfolding if_not_P [OF False] by (rule sg_reach_shard [OF assms])
qed

text \<open>
  C5. Under one master and any number of thieves, whatever the interleaving: in every shard the
  items leave in the order they came and the capacity is kept; the pushes that returned 1 are
  exactly what the shards took; and what the pops and the steals of any threads have returned,
  taken together, was pushed, no item twice (for fewer than \<open>2 ^ 64 - 1\<close> pushes to a shard). The
  buffer is as its creation left it, in memory where every shard but shard 0 got the header of an
  empty buffer or of a closed one (\<open>headers_settled\<close>; for a sole shard no condition).
\<close>

theorem sharded_conc_exactly_once:
  assumes "reach (sg_start k n) sg_step s" and "\<forall>j<n. length (sg_pushed s j) < 2 ^ 64 - 1" and "finite T"
  shows "(\<forall>j<n. map snd (sg_log s j) = take (length (sg_log s j)) (sg_pushed s j)
      \<and> length (sg_log s j) \<le> length (sg_pushed s j) \<and> length (sg_pushed s j) \<le> length (sg_log s j) + 2 ^ unat k)
    \<and> mset (sg_in s) = (\<Sum>j<n. mset (sg_pushed s j))
    \<and> mset (sg_out s) + (\<Sum>t\<in>T. mset (sg_got s t)) \<subseteq># mset (sg_in s)"
proof -
  have acc: "mset (sg_in s) = (\<Sum>j<n. mset (sg_pushed s j))" "mset (sg_out s) = (\<Sum>j<n. mset (sg_popped s j))"
      "mset (sg_got s t) = (\<Sum>j<n. mset (stolen t (sg_log s j)))" for t
    using sg_reach_accounts [OF assms(1)] by (simp_all add: sg_accounts_def)
  have fifo: "map snd (sg_log s j) = take (length (sg_log s j)) (sg_pushed s j)"
      "length (sg_log s j) \<le> length (sg_pushed s j)" "length (sg_pushed s j) \<le> length (sg_log s j) + 2 ^ unat k"
      "prefix (sg_popped s j) (map snd (filter (\<lambda>(f, _). f = Popped_by_master) (sg_log s j)))"
    if "j < n" for j
    using sg_reach_fifo [OF assms(1) that] assms(2) that by simp_all
  have left: "mset (sg_popped s j) + (\<Sum>t\<in>T. mset (stolen t (sg_log s j))) \<subseteq># mset (sg_pushed s j)" if "j < n" for j
  proof -
    have "mset (sg_popped s j) \<subseteq># mset (map snd (filter (\<lambda>(f, _). f = Popped_by_master) (sg_log s j)))"
      using fifo(4) [OF that] by (auto simp: prefix_def simp del: mset_map)
    moreover have "mset (map snd (sg_log s j)) \<subseteq># mset (sg_pushed s j)"
      unfolding fifo(1) [OF that] by (metis append_take_drop_id mset_append mset_subset_eq_add_left)
    ultimately show ?thesis
      using sum_fates [OF assms(3), of "sg_log s j"]
      by (meson subset_mset.add_right_mono subset_mset.order_trans)
  qed
  have "mset (sg_out s) + (\<Sum>t\<in>T. mset (sg_got s t)) =
      (\<Sum>j<n. mset (sg_popped s j) + (\<Sum>t\<in>T. mset (stolen t (sg_log s j))))"
    by (simp add: acc(2,3) sum.distrib sum.swap [of _ "{..<n}" T])
  also have "\<dots> \<subseteq># mset (sg_in s)"
    unfolding acc(1) by (rule sum_subseteq_mset [OF left])
  finally show ?thesis
    using fifo(1-3) acc(1) by blast
qed

theorem sharded_conc_exactly_once_witness:
  "\<exists>s. reach (sg_start 2 2) sg_step s \<and> sg_got s 3 = [7] \<and> {#7#} \<subseteq># mset (sg_in s)"
proof -
  let ?s = "sg_demo 1 1 7 SM_idle ST_idle 1 [7] [7] 1"
  have "\<forall>j<2. length (sg_pushed ?s j) < 2 ^ 64 - 1" and "sg_got ?s 3 = [7]" "sg_out ?s = []"
    by (simp_all add: sg_demo_def)
  then show ?thesis
    using sharded_conc_exactly_once [OF demo_stolen, of "{3}"] demo_stolen by auto
qed

theorem sharded_conc_refines_single_buffer_witness:
  "\<exists>v. reach (fs_init 2) fs_step v \<and> fq_log v = [(Stolen_by 3, 7)]"
  using sharded_conc_refines_single_buffer [OF demo_stolen, of 0]
  by (intro exI [of _ "shard_abs 0 (sg_demo 1 1 7 SM_idle ST_idle 1 [7] [7] 1)"]) (simp add: sg_demo_def)

text \<open>
  C6. A steal that is about to answer EMPTY has gone round all the shards, if \<open>hint + num_shards\<close>
  does not wrap round \<open>2 ^ 32\<close>, and every item that was in some shard when it was called has left the
  buffer: it misses at most items that were pushed after its call (from a creation as in C5).
\<close>

theorem sharded_conc_steal_empty:
  assumes "reach (sg_start k n) sg_step s" and "\<forall>j<n. length (sg_pushed s j) < 2 ^ 64 - 1"
    and "sg_thief s t = ST_loop i stop SHARDED_FIFO_STEAL_BUFFER_EMPTY" and "\<not> i < stop"
    and "unat (sg_hint s t) + n < 2 ^ 32" and "j < n"
  shows "sg_mark s t j \<le> length (sg_log s j)"
proof -
  have seen: "sg_seen n s t (sg_thief s t)"
    using sg_reach_seen [OF assms(1,2)] .
  have "unat stop = unat (sg_hint s t) + n"
    using seen assms(3,5) sg_invD(4) [OF sg_reach_inv [OF assms(1)]] by (simp add: unat_word_ariths)
  then have i: "unat (sg_hint s t) + n \<le> unat i"
    using assms(4) by (simp add: word_less_nat_alt)
  obtain q where "unat (sg_hint s t) \<le> q" "q < unat (sg_hint s t) + n" "q mod n = j"
    using covers_residues [OF assms(6)] .
  then show ?thesis
    using seen assms(3,5) i by (auto simp: all_gone_def)
qed

theorem sharded_conc_steal_empty_witness:
  "\<exists>s. reach (sg_start 2 2) sg_step s \<and> sg_thief s 3 = ST_loop 2 2 SHARDED_FIFO_STEAL_BUFFER_EMPTY
     \<and> sg_mark s 3 0 = 1 \<and> 1 \<le> length (sg_log s 0)"
proof -
  let ?s = "sg_demo 1 1 7 SM_idle (ST_loop 2 2 0) 1 [7] [7] 1"
  have s: "\<forall>j<2. length (sg_pushed ?s j) < 2 ^ 64 - 1" "sg_thief ?s 3 = ST_loop 2 2 SHARDED_FIFO_STEAL_BUFFER_EMPTY"
      "\<not> (2 :: u32) < 2" "unat (sg_hint ?s 3) + 2 < 2 ^ 32" "sg_mark ?s 3 0 = 1"
    by (simp_all add: sg_demo_def sharded_result_defs)
  have "sg_mark ?s 3 0 \<le> length (sg_log ?s 0)"
    by (rule sharded_conc_steal_empty [OF demo_empty s(1-4)]) simp
  then show ?thesis
    using demo_empty s(2,5) by metis
qed

text \<open>
  C25. The memory block stays well-typed and no thread gets stuck, whatever the interleaving: the
  header of shard 0 describes a power of two of cells that lie in the shard's own words, that of
  every other shard too, or it is closed; the next shards to use are shards there are; and a
  thread in an operation always has a next step, none of its accesses falling outside the block.
  (From a creation in memory that gave every other shard the header of an empty or a closed
  buffer; elsewhere a pop takes an item that nobody pushed.)
\<close>

theorem sharded_conc_well_typed:
  assumes "reach (sg_start k n) sg_step s"
  shows "sharded_block (2 ^ unat k) n (sg_fifo s)
    \<and> (\<forall>j<n. fs_wf (shard (sg_fifo s) j) \<and> unat (fs_size (shard (sg_fifo s) j)) = 2 ^ unat k
         \<or> 0 < j \<and> fs_closed (shard (sg_fifo s) j))
    \<and> (sg_master s \<noteq> SM_idle \<longrightarrow> (\<exists>s'. sg_step s s' \<and> sg_master s' \<noteq> sg_master s))
    \<and> (\<forall>t. sg_thief s t \<noteq> ST_idle \<longrightarrow> (\<exists>s'. sg_step s s' \<and> sg_thief s' t \<noteq> sg_thief s t))"
proof -
  note inv = sg_reach_inv [OF assms]
  have "fs_wf (shard (sg_fifo s) j) \<and> unat (fs_size (shard (sg_fifo s) j)) = 2 ^ unat k
      \<or> 0 < j \<and> fs_closed (shard (sg_fifo s) j)" if "j < n" for j
    using sg_invD(9) [OF inv that] sg_reach_shard_0 [OF assms]
    by (cases rule: fs_settled_cases) (auto simp: closed_sys_def intro: gr0I)
  then show ?thesis
    using sg_invD(1) [OF inv] sg_master_progress [OF inv] sg_thief_progress [OF inv] by blast
qed

theorem sharded_conc_well_typed_witness:
  "\<exists>s s'. reach (sg_start 2 2) sg_step s \<and> sg_thief s 3 = ST_loop 2 2 SHARDED_FIFO_STEAL_BUFFER_EMPTY
     \<and> sg_step s s' \<and> sg_thief s' 3 \<noteq> sg_thief s 3"
proof -
  let ?s = "sg_demo 1 1 7 SM_idle (ST_loop 2 2 0) 1 [7] [7] 1"
  have "sg_thief ?s 3 = ST_loop 2 2 SHARDED_FIFO_STEAL_BUFFER_EMPTY"
    by (simp add: sg_demo_def sharded_result_defs)
  then show ?thesis
    using sharded_conc_well_typed [OF demo_empty] demo_empty by (metis sh_thief.distinct(1))
qed

end
