(* ===== verification/Node_Heap.thy ===== *)
theory Node_Heap
  imports Fib_Prelude
begin

text \<open>
  The heap of the linked containers. Every node type of the library (\<open>spsc_node_t\<close>,
  \<open>mpsc_fifo_node_t\<close>, \<open>mpmc_lifo_node_t\<close>, \<open>mpmc_stack_node_t\<close>) has the two
  members \<open>data\<close> and \<open>next\<close>. An address with no node is not allocated, and reading or
  writing through it is \<open>None\<close>, as is freeing it.
\<close>

record node =
  n_data :: ptr
  n_next :: ptr

type_synonym heap = "ptr \<Rightarrow> node option"

definition node_of :: "ptr \<Rightarrow> ptr \<Rightarrow> node" where
  "node_of d q = \<lparr>n_data = d, n_next = q\<rparr>"

definition rd_next :: "heap \<Rightarrow> ptr \<Rightarrow> ptr option" where
  [c_ops]: "rd_next h p = map_option n_next (h p)"

definition rd_data :: "heap \<Rightarrow> ptr \<Rightarrow> ptr option" where
  [c_ops]: "rd_data h p = map_option n_data (h p)"

definition wr_next :: "heap \<Rightarrow> ptr \<Rightarrow> ptr \<Rightarrow> heap option" where
  [c_ops]: "wr_next h p q =
     (case h p of None \<Rightarrow> None | Some nd \<Rightarrow> Some (h(p \<mapsto> nd\<lparr>n_next := q\<rparr>)))"

definition wr_data :: "heap \<Rightarrow> ptr \<Rightarrow> ptr \<Rightarrow> heap option" where
  [c_ops]: "wr_data h p d =
     (case h p of None \<Rightarrow> None | Some nd \<Rightarrow> Some (h(p \<mapsto> nd\<lparr>n_data := d\<rparr>)))"

text \<open>
  \<open>calloc(1, sizeof(node))\<close>, given the address it returns (\<open>NULL\<close> when it fails), and
  \<open>free\<close>, which accepts \<open>NULL\<close>.
\<close>

definition calloc_node :: "heap \<Rightarrow> ptr \<Rightarrow> heap" where
  [c_ops]: "calloc_node h p = (if p = NULL then h else h(p \<mapsto> node_of 0 NULL))"

definition free_node :: "heap \<Rightarrow> ptr \<Rightarrow> heap option" where
  [c_ops]: "free_node h p =
     (if p = NULL then Some h else case h p of None \<Rightarrow> None | Some _ \<Rightarrow> Some (h(p := None)))"

lemma node_of_sel [simp]: "n_data (node_of d q) = d" "n_next (node_of d q) = q"
  by (simp_all add: node_of_def)

lemma node_upd [simp]:
  "(node_of d q)\<lparr>n_data := d'\<rparr> = node_of d' q" "(node_of d q)\<lparr>n_next := q'\<rparr> = node_of d q'"
  by (simp_all add: node_of_def)

lemma heap_simps [simp]:
  assumes "h p = Some nd"
  shows "rd_next h p = Some (n_next nd)" "rd_data h p = Some (n_data nd)"
    "wr_next h p q = Some (h(p \<mapsto> nd\<lparr>n_next := q\<rparr>))"
    "wr_data h p d = Some (h(p \<mapsto> nd\<lparr>n_data := d\<rparr>))"
  using assms by (simp_all add: c_ops)

lemma rd_next_SomeD: "rd_next h p = Some q \<Longrightarrow> \<exists>nd. h p = Some nd \<and> n_next nd = q"
  by (auto simp: rd_next_def)

section \<open>Chains\<close>

text \<open>
  \<open>chain h ps q\<close>: the nodes \<open>ps\<close> are allocated and each one's \<open>next\<close> is its successor
  in the list, the last one's is \<open>q\<close>.
\<close>

fun chain :: "heap \<Rightarrow> ptr list \<Rightarrow> ptr \<Rightarrow> bool" where
  "chain h [] q \<longleftrightarrow> True"
| "chain h (p # ps) q \<longleftrightarrow> p \<noteq> NULL \<and> rd_next h p = Some (case ps of [] \<Rightarrow> q | p' # _ \<Rightarrow> p') \<and> chain h ps q"

text \<open>The first node of a chain, or where it leads when it has none.\<close>

fun chain_start :: "ptr list \<Rightarrow> ptr \<Rightarrow> ptr" where
  "chain_start [] q = q"
| "chain_start (p # _) q = p"

lemma chain_Cons: "chain h (p # ps) q \<longleftrightarrow>
    p \<noteq> NULL \<and> rd_next h p = Some (chain_start ps q) \<and> chain h ps q"
  by (cases ps) simp_all

declare chain.simps(2) [simp del]
declare chain_Cons [simp]

lemma chain_start_append [simp]:
  "chain_start (ps @ qs) q = chain_start ps (chain_start qs q)"
  by (cases ps) simp_all

lemma chain_append [simp]:
  "chain h (ps @ qs) q \<longleftrightarrow> chain h ps (chain_start qs q) \<and> chain h qs q"
  by (induction ps) auto

lemma chain_allocated: "chain h ps q \<Longrightarrow> p \<in> set ps \<Longrightarrow> p \<noteq> NULL \<and> (\<exists>nd. h p = Some nd)"
  by (induction ps) (auto dest: rd_next_SomeD)

lemma chain_frame:
  "\<forall>p \<in> set ps. rd_next h' p = rd_next h p \<Longrightarrow> chain h' ps q = chain h ps q"
  by (induction ps) auto

lemma chain_upd_other [simp]:
  "p \<notin> set ps \<Longrightarrow> chain (h(p := x)) ps q = chain h ps q"
  by (rule chain_frame) (auto simp: rd_next_def)

lemma chain_upd_data:
  assumes "h p = Some nd"
  shows "chain (h(p \<mapsto> nd\<lparr>n_data := d\<rparr>)) ps q = chain h ps q"
  by (rule chain_frame) (auto simp: rd_next_def assms)

lemma chain_start_NULL: "chain h ps NULL \<Longrightarrow> chain_start ps NULL = NULL \<longleftrightarrow> ps = []"
  by (cases ps) simp_all

text \<open>The data of a list of nodes.\<close>

definition datas :: "heap \<Rightarrow> ptr list \<Rightarrow> ptr list" where
  "datas h ps = List.map (\<lambda>p. n_data (the (h p))) ps"

lemma datas_simps [simp]:
  "datas h [] = []" "datas h (p # ps) = n_data (the (h p)) # datas h ps"
  "datas h (ps @ qs) = datas h ps @ datas h qs" "length (datas h ps) = length ps"
  by (simp_all add: datas_def)

lemma datas_frame: "\<forall>p \<in> set ps. rd_data h' p = rd_data h p \<and> h p \<noteq> None \<Longrightarrow> datas h' ps = datas h ps"
  by (induction ps) (auto simp: rd_data_def)

lemma datas_upd_other [simp]: "p \<notin> set ps \<Longrightarrow> datas (h(p := x)) ps = datas h ps"
  by (induction ps) auto

lemma datas_upd_next:
  assumes "h p = Some nd"
  shows "datas (h(p \<mapsto> nd\<lparr>n_next := q\<rparr>)) ps = datas h ps"
  by (simp add: datas_def assms)

section \<open>Freeing a list\<close>

text \<open>
  \<open>while(head != NULL) { tmp = head; head = tmp->next; free(tmp); }\<close>, the loop of every
  \<open>destroy\<close>. Running for ever and an invalid access are both \<open>None\<close>.
\<close>

partial_function (option) free_list :: "heap \<Rightarrow> ptr \<Rightarrow> heap option" where
  [code]: "free_list h head =
     (if head \<noteq> NULL then do {
        next \<leftarrow> rd_next h head;
        h' \<leftarrow> free_node h head;
        free_list h' next
      } else Some h)"

lemma free_list_chain:
  "chain h ps NULL \<Longrightarrow> distinct ps \<Longrightarrow>
     free_list h (chain_start ps NULL) = Some (\<lambda>p. if p \<in> set ps then None else h p)"
proof (induction ps arbitrary: h)
  case Nil
  then show ?case by (subst free_list.simps) simp
next
  case (Cons p ps)
  obtain nd where nd: "h p = Some nd" "n_next nd = chain_start ps NULL"
    using Cons.prems(1) by (auto dest: rd_next_SomeD)
  then have "free_list h p = free_list (h(p := None)) (chain_start ps NULL)"
    using Cons.prems(1) by (subst free_list.simps) (simp add: free_node_def)
  also have "\<dots> = Some (\<lambda>a. if a \<in> set ps then None else (h(p := None)) a)"
    using Cons.prems Cons.IH [of "h(p := None)"] by (simp del: fun_upd_apply)
  finally show ?case by (auto simp: fun_eq_iff)
qed

end
