(* ===== verification/Node_Queue.thy ===== *)
theory Node_Queue
  imports Node_Heap
begin

text \<open>
  What the three linked FIFOs have in common: a queue is a nonempty chain of nodes, the first
  of which is a dummy whose data has been consumed. A push appends the caller's node; a trypop
  moves the data of the second node into the dummy and hands the dummy to the caller. The
  interface is the locale \<open>node_queue\<close>, interpreted in Spsc\_Fifo, Mpsc\_Fifo and Dist\_Fifo.
\<close>

section \<open>The representation\<close>

definition queue_rep :: "heap \<Rightarrow> ptr \<Rightarrow> ptr \<Rightarrow> ptr list \<Rightarrow> bool" where
  "queue_rep h head tail ns \<longleftrightarrow>
     ns \<noteq> [] \<and> head = List.hd ns \<and> tail = List.last ns \<and> chain h ns NULL \<and> distinct ns"

lemma queue_repD:
  assumes "queue_rep h head tail ns"
  shows "ns \<noteq> []" "head = List.hd ns" "tail = List.last ns" "chain h ns NULL" "distinct ns"
  using assms by (simp_all add: queue_rep_def)

lemma queue_rep_init: "p \<noteq> NULL \<Longrightarrow> queue_rep (calloc_node h p) p p [p]"
  by (simp add: queue_rep_def calloc_node_def rd_next_def)

lemma queue_rep_ends:
  assumes "queue_rep h head tail ns"
  shows "\<exists>nd. h head = Some nd" "\<exists>nd. h tail = Some nd" "head \<noteq> NULL" "tail \<noteq> NULL"
    "head \<in> set ns" "tail \<in> set ns"
  using assms chain_allocated [of h ns NULL] by (auto simp: queue_rep_def)

text \<open>The heap after the two writes of a push.\<close>

definition linked :: "heap \<Rightarrow> ptr \<Rightarrow> ptr \<Rightarrow> heap" where
  "linked h tail p = h(p \<mapsto> (the (h p))\<lparr>n_next := NULL\<rparr>, tail \<mapsto> (the (h tail))\<lparr>n_next := p\<rparr>)"

lemma linked_data:
  assumes "h p \<noteq> None" and "h tail \<noteq> None" and "p \<noteq> tail"
  shows "rd_data (linked h tail p) a = rd_data h a"
  using assms by (auto simp: linked_def rd_data_def)

lemma linked_other: "a \<noteq> p \<Longrightarrow> a \<noteq> tail \<Longrightarrow> linked h tail p a = h a"
  by (simp add: linked_def)

lemma chain_linked:
  assumes "chain h (ns @ [tail]) NULL" and "distinct (ns @ [tail])" and "p \<notin> set (ns @ [tail])"
    and "p \<noteq> NULL" and "h p = Some nd"
  shows "chain (linked h tail p) (ns @ [tail, p]) NULL"
proof -
  obtain nt where nt: "h tail = Some nt"
    using assms(1) by (auto dest: rd_next_SomeD)
  then show ?thesis
    using assms by (simp add: linked_def rd_next_def)
qed

lemma queue_rep_push:
  assumes rep: "queue_rep h head tail ns"
    and p: "p \<notin> set ns" "p \<noteq> NULL" "h p = Some nd"
  shows "queue_rep (linked h tail p) head p (ns @ [p])"
proof -
  note D = queue_repD [OF rep]
  have ns: "ns = butlast ns @ [tail]"
    using D(1,3) by simp
  have "chain (linked h tail p) (butlast ns @ [tail, p]) NULL"
    by (rule chain_linked) (use D(4,5) p ns in \<open>auto simp flip: ns\<close>)
  then have "chain (linked h tail p) (ns @ [p]) NULL"
    using ns by (metis append.assoc append_Cons append_Nil)
  then show ?thesis
    using D p(1) by (simp add: queue_rep_def)
qed

lemma datas_linked:
  assumes rep: "queue_rep h head tail ns" and p: "p \<notin> set ns" "h p \<noteq> None"
  shows "datas (linked h (List.last ns) p) (tl (ns @ [p])) = datas h (tl ns) @ [n_data (the (h p))]"
proof -
  note R = queue_repD [OF rep]
  have t: "h (List.last ns) \<noteq> None" "List.last ns \<noteq> p"
    using chain_allocated [OF R(4), of "List.last ns"] p(1) R(1) by auto
  have "p \<notin> set (tl ns)"
    using p(1) R(1) by (meson list.set_sel(2))
  then have "datas (linked h (List.last ns) p) (tl ns) = datas h (tl ns)"
    using t by (auto simp: linked_def datas_def)
  then show ?thesis
    using t(2) R(1) by (simp add: linked_def)
qed

text \<open>The heap after the one write of a trypop.\<close>

definition took :: "heap \<Rightarrow> ptr \<Rightarrow> ptr \<Rightarrow> heap" where
  "took h a b = h(a \<mapsto> (the (h a))\<lparr>n_data := n_data (the (h b))\<rparr>)"

lemma queue_rep_pop:
  assumes rep: "queue_rep h a tail (a # b # ns)"
  shows "queue_rep (took h a b) b tail (b # ns)" "rd_next h a = Some b"
    "rd_data h b = Some (n_data (the (h b)))" "b \<noteq> NULL"
    "wr_data h a (n_data (the (h b))) = Some (took h a b)"
proof -
  note D = queue_repD [OF rep]
  obtain na nb where "h a = Some na" "h b = Some nb"
    using chain_allocated [OF D(4)] by (meson list.set_intros)
  then show "queue_rep (took h a b) b tail (b # ns)" "rd_next h a = Some b"
      "rd_data h b = Some (n_data (the (h b)))" "b \<noteq> NULL"
      "wr_data h a (n_data (the (h b))) = Some (took h a b)"
    using D by (auto simp: queue_rep_def took_def rd_next_def)
qed

lemma queue_rep_empty: "queue_rep h a tail [a] \<Longrightarrow> rd_next h a = Some NULL"
  by (simp add: queue_rep_def)

lemma queue_rep_frame:
  assumes "queue_rep h head tail ns" and "\<forall>p \<in> set ns. h' p = h p"
  shows "queue_rep h' head tail ns"
  using assms chain_frame [of ns h' h NULL] by (simp add: queue_rep_def rd_next_def)

lemma queue_rep_free:
  assumes "queue_rep h head tail ns"
  shows "free_list h head = Some (\<lambda>p. if p \<in> set ns then None else h p)"
proof -
  have "chain_start ns NULL = head"
    using queue_repD(1,2) [OF assms] by (cases ns) simp_all
  with free_list_chain [of h ns] queue_repD(4,5) [OF assms] show ?thesis by simp
qed

section \<open>A client's history\<close>

text \<open>
  The use the library's tests make of a queue: a new node is allocated (at the given address),
  its data set and the node pushed; a popped node's data is read and the node freed.
\<close>

datatype client_op = Enq ptr ptr | Deq
datatype client_out = Enqueued | Dequeued "ptr option"

definition enq_client ::
  "(heap \<Rightarrow> 'q \<Rightarrow> ptr \<Rightarrow> (heap \<times> 'q) option) \<Rightarrow> heap \<Rightarrow> 'q \<Rightarrow> ptr \<Rightarrow> ptr \<Rightarrow> (heap \<times> 'q) option" where
  "enq_client push h q p d = do {
     h' \<leftarrow> wr_data (calloc_node h p) p d;
     push h' q p
   }"

definition deq_client ::
  "(heap \<Rightarrow> 'q \<Rightarrow> (ptr \<times> heap \<times> 'q) option) \<Rightarrow> heap \<Rightarrow> 'q \<Rightarrow> (ptr option \<times> heap \<times> 'q) option" where
  "deq_client trypop h q = do {
     (n, h', q') \<leftarrow> trypop h q;
     if n = NULL then Some (None, h', q')
     else do {
       d \<leftarrow> rd_data h' n;
       h'' \<leftarrow> free_node h' n;
       Some (Some d, h'', q')
     }
   }"

fun run_client ::
  "(heap \<Rightarrow> 'q \<Rightarrow> ptr \<Rightarrow> (heap \<times> 'q) option) \<Rightarrow> (heap \<Rightarrow> 'q \<Rightarrow> (ptr \<times> heap \<times> 'q) option) \<Rightarrow>
     heap \<Rightarrow> 'q \<Rightarrow> client_op list \<Rightarrow> (client_out list \<times> heap \<times> 'q) option" where
  "run_client push trypop h q [] = Some ([], h, q)"
| "run_client push trypop h q (Enq p d # ops) = do {
     (h', q') \<leftarrow> enq_client push h q p d;
     (outs, r) \<leftarrow> run_client push trypop h' q' ops;
     Some (Enqueued # outs, r)
   }"
| "run_client push trypop h q (Deq # ops) = do {
     (d, h', q') \<leftarrow> deq_client trypop h q;
     (outs, r) \<leftarrow> run_client push trypop h' q' ops;
     Some (Dequeued d # outs, r)
   }"

text \<open>The same history on a list of values.\<close>

fun spec_client :: "ptr list \<Rightarrow> client_op list \<Rightarrow> client_out list" where
  "spec_client ds [] = []"
| "spec_client ds (Enq p d # ops) = Enqueued # spec_client (ds @ [d]) ops"
| "spec_client ds (Deq # ops) =
     Dequeued (case ds of [] \<Rightarrow> None | d # _ \<Rightarrow> Some d) # spec_client (tl ds) ops"

text \<open>The allocator's contract: not \<open>NULL\<close>, and no address that is still in use.\<close>

fun legal_client :: "ptr list \<Rightarrow> client_op list \<Rightarrow> bool" where
  "legal_client ns [] = True"
| "legal_client ns (Enq p d # ops) \<longleftrightarrow> p \<noteq> NULL \<and> p \<notin> set ns \<and> legal_client (ns @ [p]) ops"
| "legal_client ns (Deq # ops) = legal_client (if length ns = 1 then ns else tl ns) ops"

section \<open>The interface\<close>

locale node_queue =
  fixes ok :: "heap \<Rightarrow> 'q \<Rightarrow> ptr list \<Rightarrow> bool"
    and push :: "heap \<Rightarrow> 'q \<Rightarrow> ptr \<Rightarrow> (heap \<times> 'q) option"
    and trypop :: "heap \<Rightarrow> 'q \<Rightarrow> (ptr \<times> heap \<times> 'q) option"
    and destroy :: "heap \<Rightarrow> 'q \<Rightarrow> heap option"
  assumes ok_rep: "ok h q ns \<Longrightarrow> ns \<noteq> [] \<and> distinct ns \<and> chain h ns NULL"
    and push_law: "ok h q ns \<Longrightarrow> p \<notin> set ns \<Longrightarrow> p \<noteq> NULL \<Longrightarrow> h p = Some nd \<Longrightarrow>
      \<exists>q'. push h q p = Some (linked h (List.last ns) p, q')
        \<and> ok (linked h (List.last ns) p) q' (ns @ [p])"
    and pop_empty: "ok h q [a] \<Longrightarrow> trypop h q = Some (NULL, h, q)"
    and pop_law: "ok h q (a # b # ns) \<Longrightarrow>
      \<exists>q'. trypop h q = Some (a, took h a b, q') \<and> ok (took h a b) q' (b # ns)"
    and ok_frame: "ok h q ns \<Longrightarrow> \<forall>p \<in> set ns. h' p = h p \<Longrightarrow> ok h' q ns"
    and destroy_law: "ok h q ns \<Longrightarrow> destroy h q = Some (\<lambda>p. if p \<in> set ns then None else h p)"
begin

lemma ok_alloc: "ok h q ns \<Longrightarrow> p \<in> set ns \<Longrightarrow> p \<noteq> NULL \<and> (\<exists>nd. h p = Some nd)"
  using ok_rep chain_allocated by blast

text \<open>A client's push appends its value, a client's pop takes the oldest.\<close>

lemma enq_law:
  assumes ok: "ok h q ns" and dom: "dom h = set ns" and p: "p \<noteq> NULL" "p \<notin> set ns"
  shows "\<exists>h' q'. enq_client push h q p d = Some (h', q') \<and> ok h' q' (ns @ [p])
    \<and> dom h' = set (ns @ [p]) \<and> datas h' (tl (ns @ [p])) = datas h (tl ns) @ [d]"
proof -
  note R = ok_rep [OF ok]
  let ?h = "h(p \<mapsto> node_of d NULL)" and ?t = "List.last ns"
  have ok1: "ok ?h q ns"
    using ok_frame [OF ok] p(2) by auto
  have t: "?t \<in> set ns" "?t \<noteq> p" and at: "\<exists>nt. h ?t = Some nt"
    using R p(2) ok_alloc [OF ok] by auto
  obtain q' where q': "push ?h q p = Some (linked ?h ?t p, q')" "ok (linked ?h ?t p) q' (ns @ [p])"
    using push_law [OF ok1 p(2,1)] by auto
  have "dom (linked ?h ?t p) = set (ns @ [p])"
    using dom t by (auto simp: linked_def)
  moreover have "p \<notin> set (tl ns)"
    using p(2) R by (meson list.set_sel(2))
  then have "datas (linked ?h ?t p) (tl (ns @ [p])) = datas h (tl ns) @ [d]"
    using datas_linked [of ?h "List.hd ns" ?t ns p] R p by (simp add: queue_rep_def)
  ultimately show ?thesis
    using q' R p(1) by (simp add: enq_client_def calloc_node_def)
qed

lemma deq_law:
  assumes ok: "ok h q (a # b # ns)" and dom: "dom h = set (a # b # ns)"
  shows "\<exists>h' q'. deq_client trypop h q = Some (Some (n_data (the (h b))), h', q')
    \<and> ok h' q' (b # ns) \<and> dom h' = set (b # ns) \<and> datas h' ns = datas h ns"
proof -
  obtain q' where q': "trypop h q = Some (a, took h a b, q')" "ok (took h a b) q' (b # ns)"
    using pop_law [OF ok] by blast
  note R = ok_rep [OF ok]
  have "took h a b a = Some ((the (h a))\<lparr>n_data := n_data (the (h b))\<rparr>)"
    by (simp add: took_def)
  moreover have "ok ((took h a b)(a := None)) q' (b # ns)"
    using R by (intro ok_frame [OF q'(2)]) auto
  moreover have "dom ((took h a b)(a := None)) = set (b # ns)"
    using dom R by (auto simp: took_def)
  moreover have "datas ((took h a b)(a := None)) ns = datas h ns"
    using R by (simp add: took_def)
  ultimately show ?thesis
    using q' R by (auto simp: deq_client_def free_node_def)
qed

text \<open>Whole histories behave as on a list of values.\<close>

lemma client_refines:
  assumes "ok h q ns" and "dom h = set ns" and "legal_client ns ops"
  shows "\<exists>h' q' ns'. run_client push trypop h q ops = Some (spec_client (datas h (tl ns)) ops, h', q')
    \<and> ok h' q' ns' \<and> dom h' = set ns'"
  using assms
proof (induction ops arbitrary: h q ns)
  case Nil
  then show ?case by auto
next
  case (Cons op ops)
  show ?case
  proof (cases op)
    case (Enq p d)
    then obtain h' q' where e: "enq_client push h q p d = Some (h', q')" "ok h' q' (ns @ [p])"
        "dom h' = set (ns @ [p])" "datas h' (tl (ns @ [p])) = datas h (tl ns) @ [d]"
      using enq_law [OF Cons.prems(1,2), of p d] Cons.prems(3) by auto
    have "legal_client (ns @ [p]) ops"
      using Cons.prems(3) Enq by simp
    from Cons.IH [OF e(2,3) this] show ?thesis
      unfolding e(4) using Enq e(1) by auto
  next
    case Deq
    consider a where "ns = [a]" | a b ms where "ns = a # b # ms"
      using ok_rep [OF Cons.prems(1)] by (metis neq_Nil_conv)
    then show ?thesis
    proof cases
      case 1
      have "deq_client trypop h q = Some (None, h, q)"
        using pop_empty [of h q a] Cons.prems(1) 1 by (simp add: deq_client_def)
      then show ?thesis
        using Cons.IH [OF Cons.prems(1,2)] Cons.prems(3) Deq 1 by auto
    next
      case 2
      then obtain h' q' where e: "deq_client trypop h q = Some (Some (n_data (the (h b))), h', q')"
          "ok h' q' (b # ms)" "dom h' = set (b # ms)" "datas h' ms = datas h ms"
        using deq_law [of h q a b ms] Cons.prems(1,2) by auto
      have "legal_client (b # ms) ops"
        using Cons.prems(3) Deq 2 by simp
      from Cons.IH [OF e(2,3) this] show ?thesis
        using Deq 2 e(1,4) by auto
    qed
  qed
qed

text \<open>After any history \<open>destroy\<close> leaves nothing allocated.\<close>

lemma client_no_leak:
  assumes "ok h q ns" and "dom h = set ns" and "legal_client ns ops"
  shows "\<exists>h' q'. run_client push trypop h q ops = Some (spec_client (datas h (tl ns)) ops, h', q')
    \<and> destroy h' q' = Some Map.empty"
proof -
  from client_refines [OF assms] obtain h' q' ns' where
    r: "run_client push trypop h q ops = Some (spec_client (datas h (tl ns)) ops, h', q')"
      "ok h' q' ns'" "dom h' = set ns'" by blast
  have "(\<lambda>p. if p \<in> set ns' then None else h' p) = Map.empty"
    using r(3) by (auto simp: fun_eq_iff dom_def)
  with r destroy_law show ?thesis by fastforce
qed

end

end
