(* ===== verification/Spsc_Fifo.thy ===== *)
theory Spsc_Fifo
  imports Node_Queue
begin

text \<open>
  \<open>spsc_fifo.h\<close>: the single-producer single-consumer queue, each operation as a function on
  the heap and the struct. A struct argument stands for a pointer that passed the
  \<open>assert(f)\<close>; \<open>spsc_fifo_destroy\<close> also accepts \<open>NULL\<close>, here \<open>None\<close>.
\<close>

section \<open>The struct and its operations\<close>

record spsc_fifo =
  sq_head :: ptr
  sq_tail :: ptr

text \<open>\<open>p\<close> is what \<open>calloc\<close> returned; both members are set to it before it is tested.\<close>

definition spsc_fifo_init :: "heap \<Rightarrow> ptr \<Rightarrow> int \<times> heap \<times> spsc_fifo" where
  "spsc_fifo_init h p =
     (let h' = calloc_node h p; tail = p; head = tail
      in (if tail = NULL then 0 else 1, h', \<lparr>sq_head = head, sq_tail = tail\<rparr>))"

definition spsc_fifo_destroy :: "heap \<Rightarrow> spsc_fifo option \<Rightarrow> heap option" where
  "spsc_fifo_destroy h f = (case f of None \<Rightarrow> Some h | Some f \<Rightarrow> free_list h (sq_head f))"

definition spsc_fifo_push :: "heap \<Rightarrow> spsc_fifo \<Rightarrow> ptr \<Rightarrow> (heap \<times> spsc_fifo) option" where
  "spsc_fifo_push h f new_node = do {
     c_assert (new_node \<noteq> NULL);
     h1 \<leftarrow> wr_next h new_node NULL;
     let prev_tail = sq_tail f;
     let f' = f\<lparr>sq_tail := new_node\<rparr>;
     h2 \<leftarrow> wr_next h1 prev_tail new_node;
     Some (h2, f')
   }"

definition spsc_fifo_trypop :: "heap \<Rightarrow> spsc_fifo \<Rightarrow> (ptr \<times> heap \<times> spsc_fifo) option" where
  "spsc_fifo_trypop h f = do {
     let prev_head = sq_head f;
     prev_head_next \<leftarrow> rd_next h prev_head;
     if prev_head_next \<noteq> NULL then do {
       let f' = f\<lparr>sq_head := prev_head_next\<rparr>;
       d \<leftarrow> rd_data h prev_head_next;
       h' \<leftarrow> wr_data h prev_head d;
       Some (prev_head, h', f')
     }
     else Some (NULL, h, f)
   }"

section \<open>The queue laws\<close>

definition spsc_ok :: "heap \<Rightarrow> spsc_fifo \<Rightarrow> ptr list \<Rightarrow> bool" where
  [inv_defs]: "spsc_ok h f ns = queue_rep h (sq_head f) (sq_tail f) ns"

lemma spsc_push_law:
  assumes "spsc_ok h f ns" and "p \<notin> set ns" and "p \<noteq> NULL" and "h p = Some nd"
  shows "\<exists>f'. spsc_fifo_push h f p = Some (linked h (List.last ns) p, f')
    \<and> spsc_ok (linked h (List.last ns) p) f' (ns @ [p])"
proof -
  have rep: "queue_rep h (sq_head f) (sq_tail f) ns"
    using assms(1) by (simp add: spsc_ok_def)
  obtain nt where "h (sq_tail f) = Some nt" "sq_tail f \<noteq> p" "sq_tail f = List.last ns"
    using queue_rep_ends [OF rep] queue_repD(3) [OF rep] assms(2) by auto
  then show ?thesis
    using assms queue_rep_push [OF rep assms(2-4)]
    by (simp add: spsc_fifo_push_def linked_def spsc_ok_def)
qed

lemma spsc_pop_empty: "spsc_ok h f [a] \<Longrightarrow> spsc_fifo_trypop h f = Some (NULL, h, f)"
  using queue_repD(2) queue_rep_empty by (fastforce simp: spsc_ok_def spsc_fifo_trypop_def)

lemma spsc_pop_law:
  assumes "spsc_ok h f (a # b # ns)"
  shows "\<exists>f'. spsc_fifo_trypop h f = Some (a, took h a b, f') \<and> spsc_ok (took h a b) f' (b # ns)"
proof -
  have rep: "queue_rep h a (sq_tail f) (a # b # ns)" and head: "sq_head f = a"
    using assms queue_repD(2) by (fastforce simp: spsc_ok_def)+
  from queue_rep_pop [OF rep] show ?thesis
    by (simp add: spsc_fifo_trypop_def spsc_ok_def head)
qed

interpretation spsc: node_queue spsc_ok spsc_fifo_push spsc_fifo_trypop
  "\<lambda>h f. spsc_fifo_destroy h (Some f)"
proof
  fix h f ns
  assume "spsc_ok h f ns"
  then have rep: "queue_rep h (sq_head f) (sq_tail f) ns"
    by (simp add: spsc_ok_def)
  then show "ns \<noteq> [] \<and> distinct ns \<and> chain h ns NULL"
    by (simp add: queue_rep_def)
  show "spsc_fifo_destroy h (Some f) = Some (\<lambda>p. if p \<in> set ns then None else h p)"
    using queue_rep_free [OF rep] by (simp add: spsc_fifo_destroy_def)
  show "spsc_ok h' f ns" if "\<forall>p \<in> set ns. h' p = h p" for h'
    using queue_rep_frame [OF rep that] by (simp add: spsc_ok_def)
qed (blast intro: spsc_push_law spsc_pop_empty spsc_pop_law)+

lemma spsc_init_ok:
  assumes "p \<noteq> NULL"
  shows "spsc_fifo_init h p = (1, calloc_node h p, \<lparr>sq_head = p, sq_tail = p\<rparr>)"
    "spsc_ok (calloc_node h p) \<lparr>sq_head = p, sq_tail = p\<rparr> [p]"
  using assms queue_rep_init [of p h] by (simp_all add: spsc_fifo_init_def spsc_ok_def)

section \<open>Properties\<close>

text \<open>
  C32. Strict FIFO: a queue initialised with an allocated node answers every history of pushes
  and pops as a list of values does, whatever (fresh) addresses the allocator returns; no
  access is invalid, and the destroy afterwards frees every node the queue still holds, each
  once, so that nothing is left allocated.
\<close>

theorem spsc_fifo_history:
  assumes "p \<noteq> NULL" and "legal_client [p] ops"
  shows "\<exists>h f. run_client spsc_fifo_push spsc_fifo_trypop
        (calloc_node Map.empty p) (snd (snd (spsc_fifo_init Map.empty p))) ops
      = Some (spec_client [] ops, h, f)
    \<and> spsc_fifo_destroy h (Some f) = Some Map.empty"
  using spsc.client_no_leak [OF spsc_init_ok(2) [OF assms(1)] _ assms(2)] assms(1)
  by (simp add: spsc_init_ok(1) calloc_node_def)

theorem spsc_fifo_history_witness:
  "\<exists>h f. run_client spsc_fifo_push spsc_fifo_trypop
        (calloc_node Map.empty 64) (snd (snd (spsc_fifo_init Map.empty 64)))
        [Deq, Enq 96 7, Enq 128 8, Deq, Enq 64 9, Deq]
      = Some ([Dequeued None, Enqueued, Enqueued, Dequeued (Some 7), Enqueued, Dequeued (Some 8)], h, f)
    \<and> spsc_fifo_destroy h (Some f) = Some Map.empty"
  using spsc_fifo_history [of 64 "[Deq, Enq 96 7, Enq 128 8, Deq, Enq 64 9, Deq]"] by simp

end
