(* ===== verification/Mpscr_Fifo.thy ===== *)
theory Mpscr_Fifo
  imports Spsc_Fifo
begin

text \<open>
  \<open>mpsc_relaxed_fifo.h\<close>: one single-producer queue for each producer, polled in turn by one
  consumer. Every fact about the queues is the interface's, from the interpretation
  \<open>spsc\<close>; what is added is that the queues share one heap and that the consumer goes
  round them.
\<close>

section \<open>The struct and its operations\<close>

record mpscr_fifo =
  mr_counter :: u64
  mr_num_producers :: u64
  mr_fifos :: "spsc_fifo list"

definition fifo_at :: "mpscr_fifo \<Rightarrow> u64 \<Rightarrow> spsc_fifo option" where
  [c_ops]: "fifo_at f i = (if unat i < length (mr_fifos f) then Some (mr_fifos f ! unat i) else None)"

definition set_fifo :: "mpscr_fifo \<Rightarrow> u64 \<Rightarrow> spsc_fifo \<Rightarrow> mpscr_fifo" where
  [c_ops]: "set_fifo f i q = f\<lparr>mr_fifos := (mr_fifos f)[unat i := q]\<rparr>"

text \<open>
  The size asked of \<open>malloc\<close>, in \<open>size_t\<close>, and the number of queues that fit it;
  \<open>line\<close> is \<open>CACHE_LINE_SIZE\<close>, so the struct has \<open>2 * line\<close> bytes and a queue \<open>line + 8\<close>.
\<close>

definition mpscr_fifo_bytes :: "u64 \<Rightarrow> u64 \<Rightarrow> u64" where
  "mpscr_fifo_bytes line num_producers = 2 * line + num_producers * (line + 8)"

definition mpscr_fifo_cells :: "u64 \<Rightarrow> u64 \<Rightarrow> nat" where
  "mpscr_fifo_cells line bytes = (unat bytes - unat (2 * line)) div unat (line + 8)"

text \<open>
  The loop of \<open>mpscr_fifo_create\<close> from index \<open>i\<close> on, with the queues initialised so far:
  \<open>alloc i\<close> is what \<open>calloc\<close> returns for queue \<open>i\<close>, \<open>cells\<close> how many queues the memory
  holds. When a queue cannot be initialised those before it are destroyed, in order.
\<close>

fun destroy_fifos :: "heap \<Rightarrow> spsc_fifo list \<Rightarrow> heap option" where
  "destroy_fifos h [] = Some h"
| "destroy_fifos h (q # qs) = do {
     h' \<leftarrow> spsc_fifo_destroy h (Some q);
     destroy_fifos h' qs
   }"

function mpscr_create_loop ::
  "(nat \<Rightarrow> ptr) \<Rightarrow> nat \<Rightarrow> nat \<Rightarrow> nat \<Rightarrow> heap \<Rightarrow> spsc_fifo list \<Rightarrow> (spsc_fifo list option \<times> heap) option" where
  "mpscr_create_loop alloc cells n i h qs =
     (if i < n then
        if i < cells then
          case spsc_fifo_init h (alloc i) of
            (r, h', q) \<Rightarrow>
              if r = 0 then do {
                h'' \<leftarrow> destroy_fifos h' qs;
                Some (None, h'')
              }
              else mpscr_create_loop alloc cells n (Suc i) h' (qs @ [q])
        else None
      else Some (Some qs, h))"
  by pat_completeness auto
termination by (relation "measure (\<lambda>(_, _, n, i, _, _). n - i)") auto

declare mpscr_create_loop.simps [simp del]

text \<open>\<open>malloc_ok\<close>: whether the struct could be allocated; \<open>Some (None, h)\<close> is the NULL result.\<close>

definition mpscr_fifo_create ::
  "u64 \<Rightarrow> bool \<Rightarrow> (nat \<Rightarrow> ptr) \<Rightarrow> heap \<Rightarrow> u64 \<Rightarrow> (mpscr_fifo option \<times> heap) option" where
  "mpscr_fifo_create line malloc_ok alloc h num_producers = do {
     c_assert (num_producers > 0);
     if \<not> malloc_ok then Some (None, h)
     else do {
       (qs, h') \<leftarrow> mpscr_create_loop alloc
         (mpscr_fifo_cells line (mpscr_fifo_bytes line num_producers)) (unat num_producers) 0 h [];
       Some (map_option (\<lambda>qs. \<lparr>mr_counter = 0, mr_num_producers = num_producers, mr_fifos = qs\<rparr>) qs, h')
     }
   }"

definition mpscr_fifo_destroy :: "heap \<Rightarrow> mpscr_fifo option \<Rightarrow> heap option" where
  "mpscr_fifo_destroy h f =
     (case f of
        None \<Rightarrow> Some h
      | Some f \<Rightarrow>
          if length (mr_fifos f) < unat (mr_num_producers f) then None
          else destroy_fifos h (take (unat (mr_num_producers f)) (mr_fifos f)))"

definition mpscr_fifo_push ::
  "heap \<Rightarrow> mpscr_fifo \<Rightarrow> u64 \<Rightarrow> ptr \<Rightarrow> (heap \<times> mpscr_fifo) option" where
  "mpscr_fifo_push h f producer_number new_node = do {
     c_assert (producer_number < mr_num_producers f);
     c_assert (new_node \<noteq> NULL);
     let index = producer_number mod mr_num_producers f;
     fifo \<leftarrow> fifo_at f index;
     (h', fifo') \<leftarrow> spsc_fifo_push h fifo new_node;
     Some (h', set_fifo f index fifo')
   }"

text \<open>The loop of \<open>mpscr_fifo_trypop\<close> with \<open>k\<close> rounds left.\<close>

fun mpscr_trypop_loop :: "nat \<Rightarrow> heap \<Rightarrow> mpscr_fifo \<Rightarrow> (ptr \<times> heap \<times> mpscr_fifo) option" where
  "mpscr_trypop_loop 0 h f = Some (NULL, h, f)"
| "mpscr_trypop_loop (Suc k) h f = (
     let index = mr_counter f mod mr_num_producers f;
         f1 = f\<lparr>mr_counter := mr_counter f + 1\<rparr>
     in do {
       fifo \<leftarrow> fifo_at f1 index;
       (out, h', fifo') \<leftarrow> spsc_fifo_trypop h fifo;
       let f2 = set_fifo f1 index fifo';
       if out \<noteq> NULL then Some (out, h', f2) else mpscr_trypop_loop k h' f2
     })"

definition mpscr_fifo_trypop :: "heap \<Rightarrow> mpscr_fifo \<Rightarrow> (ptr \<times> heap \<times> mpscr_fifo) option" where
  "mpscr_fifo_trypop h f = mpscr_trypop_loop (unat (mr_num_producers f)) h f"

section \<open>The representation\<close>

text \<open>Queue \<open>i\<close> has the nodes \<open>nss ! i\<close>; no node belongs to two queues.\<close>

definition queues_ok :: "heap \<Rightarrow> spsc_fifo list \<Rightarrow> ptr list list \<Rightarrow> bool" where
  [inv_defs]: "queues_ok h qs nss \<longleftrightarrow>
     length qs = length nss \<and> (\<forall>i < length nss. spsc_ok h (qs ! i) (nss ! i))
     \<and> (\<forall>i < length nss. \<forall>j < length nss. i \<noteq> j \<longrightarrow> set (nss ! i) \<inter> set (nss ! j) = {})"

definition mpscr_ok :: "heap \<Rightarrow> mpscr_fifo \<Rightarrow> ptr list list \<Rightarrow> bool" where
  [inv_defs]: "mpscr_ok h f nss \<longleftrightarrow>
     mr_num_producers f \<noteq> 0 \<and> length nss = unat (mr_num_producers f) \<and> queues_ok h (mr_fifos f) nss"

lemma mpscr_okD:
  assumes "mpscr_ok h f nss"
  shows "0 < unat (mr_num_producers f)" "length nss = unat (mr_num_producers f)"
    "length (mr_fifos f) = length nss" "queues_ok h (mr_fifos f) nss"
  using assms by (auto simp: mpscr_ok_def queues_ok_def unat_gt_0)

text \<open>An operation on one queue leaves the others as they are.\<close>

lemma queues_ok_update:
  assumes ok: "queues_ok h qs nss" and i: "i < length nss" and q: "spsc_ok h' q ms"
    and new: "\<forall>p \<in> set ms. p \<notin> set (nss ! i) \<longrightarrow> (\<forall>j < length nss. p \<notin> set (nss ! j))"
    and other: "\<forall>p. p \<notin> set (nss ! i) \<union> set ms \<longrightarrow> h' p = h p"
  shows "queues_ok h' (qs[i := q]) (nss[i := ms])"
proof -
  have apart: "p \<notin> set (nss ! i) \<union> set ms" if "p \<in> set (nss ! j)" "j < length nss" "j \<noteq> i" for p j
  proof -
    have "set (nss ! i) \<inter> set (nss ! j) = {}"
      using ok i that(2,3) unfolding queues_ok_def by metis
    then show ?thesis using new that by blast
  qed
  have "spsc_ok h' (qs ! j) (nss ! j)" if j: "j < length nss" "j \<noteq> i" for j
  proof (rule spsc.ok_frame)
    show "spsc_ok h (qs ! j) (nss ! j)"
      using ok j by (simp add: queues_ok_def)
    show "\<forall>p \<in> set (nss ! j). h' p = h p"
      using apart [OF _ j] other by blast
  qed
  with q ok i apart show ?thesis
    by (fastforce simp: queues_ok_def nth_list_update)
qed

lemma queues_ok_at:
  "queues_ok h qs nss \<Longrightarrow> i < length nss \<Longrightarrow> spsc_ok h (qs ! i) (nss ! i)"
  by (simp add: queues_ok_def)

section \<open>The operations\<close>

lemma mpscr_push_law:
  assumes ok: "mpscr_ok h f nss" and i: "i < mr_num_producers f"
    and p: "p \<noteq> NULL" "h p = Some nd" "\<forall>ns \<in> set nss. p \<notin> set ns"
  shows "\<exists>h' f'. mpscr_fifo_push h f i p = Some (h', f')
    \<and> mpscr_ok h' f' (nss[unat i := nss ! unat i @ [p]]) \<and> mr_counter f' = mr_counter f
    \<and> (\<forall>a. rd_data h' a = rd_data h a)"
proof -
  note D = mpscr_okD [OF ok]
  have il: "unat i < length nss"
    using i D(2) by (simp add: word_less_nat_alt)
  let ?q = "mr_fifos f ! unat i" and ?ns = "nss ! unat i"
  have q: "spsc_ok h ?q ?ns" and pn: "p \<notin> set ?ns"
    using queues_ok_at [OF D(4) il] p(3) il by auto
  obtain q' where q': "spsc_fifo_push h ?q p = Some (linked h (List.last ?ns) p, q')"
      "spsc_ok (linked h (List.last ?ns) p) q' (?ns @ [p])"
    using spsc_push_law [OF q pn p(1,2)] by blast
  have last: "List.last ?ns \<in> set ?ns" "h (List.last ?ns) \<noteq> None" "List.last ?ns \<noteq> p"
    using spsc.ok_rep [OF q] spsc.ok_alloc [OF q] pn by auto
  have "queues_ok (linked h (List.last ?ns) p) ((mr_fifos f)[unat i := q']) (nss[unat i := ?ns @ [p]])"
    using D(4) il q'(2) 
    by (rule queues_ok_update) (use p(3) last(1) in \<open>auto intro!: linked_other\<close>)
  then have "mpscr_ok (linked h (List.last ?ns) p) (set_fifo f i q') (nss[unat i := ?ns @ [p]])"
    using ok by (simp add: mpscr_ok_def set_fifo_def)
  moreover have "i mod mr_num_producers f = i"
    using i by (simp add: word_mod_less_divisor mod_word_less)
  ultimately show ?thesis
    using i p(1,2) q'(1) il D(3) linked_data [of h p] last
    by (simp add: mpscr_fifo_push_def fifo_at_def set_fifo_def)
qed

text \<open>The first position from \<open>c\<close> on, of \<open>k\<close>, whose queue has something to pop.\<close>

fun first_ready :: "ptr list list \<Rightarrow> nat \<Rightarrow> nat \<Rightarrow> nat option" where
  "first_ready nss c 0 = None"
| "first_ready nss c (Suc k) =
     (if length (nss ! (c mod length nss)) > 1 then Some c else first_ready nss (Suc c) k)"

lemma first_ready_None:
  "first_ready nss c k = None \<longleftrightarrow> (\<forall>j < k. length (nss ! ((c + j) mod length nss)) \<le> 1)"
proof (induction k arbitrary: c)
  case (Suc k)
  then show ?case
    by (auto simp: All_less_Suc2)
qed simp

lemma window_covers:
  fixes n :: nat
  assumes "i < n"
  shows "\<exists>j < n. (c + j) mod n = i"
proof (intro exI conjI)
  show "(i + (n - c mod n)) mod n < n"
    using assms by simp
  have "(c + (i + (n - c mod n)) mod n) mod n = (c mod n + (i + (n - c mod n))) mod n"
    by (simp add: mod_simps)
  also have "c mod n < n"
    using assms by simp
  then have "c mod n + (i + (n - c mod n)) = i + n"
    by linarith
  finally show "(c + (i + (n - c mod n)) mod n) mod n = i"
    using assms by simp
qed

text \<open>All rounds together visit every queue.\<close>

lemma first_ready_all:
  "first_ready nss c (length nss) = None \<longleftrightarrow> (\<forall>ns \<in> set nss. length ns \<le> 1)"
  unfolding first_ready_None by (metis in_set_conv_nth length_pos_if_in_set mod_less_divisor window_covers)

lemma mpscr_trypop_loop_law:
  assumes "mpscr_ok h f nss" and "unat (mr_counter f) + k < 2 ^ 64"
  shows "case first_ready nss (unat (mr_counter f)) k of
      None \<Rightarrow> mpscr_trypop_loop k h f = Some (NULL, h, f\<lparr>mr_counter := mr_counter f + of_nat k\<rparr>)
    | Some c \<Rightarrow> \<exists>a b ns f'. nss ! (c mod length nss) = a # b # ns
        \<and> mpscr_trypop_loop k h f = Some (a, took h a b, f')
        \<and> mpscr_ok (took h a b) f' (nss[c mod length nss := b # ns])
        \<and> unat (mr_counter f') = Suc c"
  using assms
proof (induction k arbitrary: f)
  case 0
  then show ?case by simp
next
  case (Suc k)
  note D = mpscr_okD [OF Suc.prems(1)]
  let ?c = "unat (mr_counter f)" and ?i = "mr_counter f mod mr_num_producers f"
  let ?f1 = "f\<lparr>mr_counter := mr_counter f + 1\<rparr>" and ?q = "mr_fifos f ! unat ?i"
  have i: "unat ?i = ?c mod length nss"
    using D(2) by (simp add: unat_mod)
  then have il: "unat ?i < length nss"
    using D(1,2) by simp
  have c1: "unat (mr_counter f + 1) = Suc ?c"
    using Suc.prems(2) by (intro unat_inc [where n = "2 ^ 64 - 1"]) auto
  have q: "spsc_ok h ?q (nss ! unat ?i)" and at: "fifo_at ?f1 ?i = Some ?q"
    using queues_ok_at [OF D(4) il] il D(3) by (auto simp: fifo_at_def)
  consider a where "nss ! unat ?i = [a]" | a b ns where "nss ! unat ?i = a # b # ns"
    using spsc.ok_rep [OF q] by (metis neq_Nil_conv)
  then show ?case
  proof cases
    case 1
    have "mpscr_trypop_loop (Suc k) h f = mpscr_trypop_loop k h ?f1"
      using spsc.pop_empty [of h ?q a] q 1 at by (simp add: set_fifo_def Let_def)
    moreover have "first_ready nss ?c (Suc k) = first_ready nss (Suc ?c) k"
      using 1 i by simp
    moreover have "mpscr_ok h ?f1 nss"
      using Suc.prems(1) by (simp add: mpscr_ok_def)
    ultimately show ?thesis
      using Suc.IH [of ?f1] Suc.prems(2) c1
      by (simp add: add.assoc split: option.split_asm option.split)
  next
    case 2
    from q [unfolded 2] have "spsc_ok h ?q (a # b # ns)" .
    from spsc.pop_law [OF this] obtain q' where q': "spsc_fifo_trypop h ?q = Some (a, took h a b, q')"
        "spsc_ok (took h a b) q' (b # ns)" by blast
    have "a \<noteq> NULL"
      using spsc.ok_alloc [OF q, of a] 2 by simp
    moreover have "queues_ok (took h a b) ((mr_fifos f)[unat ?i := q']) (nss[unat ?i := b # ns])"
      using D(4) il q'(2) by (rule queues_ok_update) (auto simp: 2 took_def)
    ultimately show ?thesis
      using Suc.prems(1) 2 q'(1) at i c1 by (simp add: mpscr_ok_def set_fifo_def)
  qed
qed

section \<open>Creation and destruction\<close>

lemma queues_ok_Cons:
  assumes "queues_ok h (q # qs) (ns # nss)"
  shows "spsc_ok h q ns" "queues_ok h qs nss" "\<forall>ms \<in> set nss. set ns \<inter> set ms = {}"
proof -
  have len: "length qs = length nss"
    and ok: "\<And>i. i < Suc (length nss) \<Longrightarrow> spsc_ok h ((q # qs) ! i) ((ns # nss) ! i)"
    and apart: "\<And>i j. i < Suc (length nss) \<Longrightarrow> j < Suc (length nss) \<Longrightarrow> i \<noteq> j \<Longrightarrow>
      set ((ns # nss) ! i) \<inter> set ((ns # nss) ! j) = {}"
    using assms by (simp_all add: queues_ok_def)
  show "spsc_ok h q ns"
    using ok [of 0] by simp
  show "queues_ok h qs nss"
    unfolding queues_ok_def using len ok [of "Suc _"] apart [of "Suc _" "Suc _"] by simp
  show "\<forall>ms \<in> set nss. set ns \<inter> set ms = {}"
    using apart [of 0 "Suc _"] by (simp add: all_set_conv_all_nth)
qed

lemma queues_ok_frame:
  assumes "queues_ok h qs nss" and "\<forall>ns \<in> set nss. \<forall>p \<in> set ns. h' p = h p"
  shows "queues_ok h' qs nss"
  using assms spsc.ok_frame by (fastforce simp: queues_ok_def)

lemma destroy_fifos_law:
  "queues_ok h qs nss \<Longrightarrow>
     destroy_fifos h qs = Some (\<lambda>p. if p \<in> \<Union> (set ` set nss) then None else h p)"
proof (induction qs arbitrary: h nss)
  case Nil
  then show ?case by (simp add: queues_ok_def)
next
  case (Cons q qs)
  then obtain ns nss' where nss: "nss = ns # nss'"
    by (cases nss) (simp_all add: queues_ok_def)
  note q = queues_ok_Cons(1) [OF Cons.prems [unfolded nss]]
    and qs = queues_ok_Cons(2) [OF Cons.prems [unfolded nss]]
    and apart = queues_ok_Cons(3) [OF Cons.prems [unfolded nss]]
  let ?h = "\<lambda>p. if p \<in> set ns then None else h p"
  have "queues_ok ?h qs nss'"
    using qs apart by (intro queues_ok_frame [OF qs]) auto
  from Cons.IH [OF this] show ?case
    using spsc.destroy_law [OF q] by (auto simp: nss fun_eq_iff)
qed

text \<open>What the allocator returns: addresses not in use, none of them twice.\<close>

definition fresh_allocs :: "heap \<Rightarrow> (nat \<Rightarrow> ptr) \<Rightarrow> nat \<Rightarrow> bool" where
  "fresh_allocs h alloc n \<longleftrightarrow>
     (\<forall>i < n. alloc i \<noteq> NULL \<longrightarrow> h (alloc i) = None \<and> (\<forall>j < i. alloc j \<noteq> alloc i))"

definition dummies :: "(nat \<Rightarrow> ptr) \<Rightarrow> nat \<Rightarrow> ptr list list" where
  "dummies alloc n = List.map (\<lambda>i. [alloc i]) [0..<n]"

lemma dummies_set: "p \<in> \<Union> (set ` set (dummies alloc n)) \<longleftrightarrow> p \<in> alloc ` {..<n}"
  by (auto simp: dummies_def)

lemma queues_ok_snoc_dummy:
  assumes ok: "queues_ok h qs (dummies alloc i)" and p: "alloc i \<noteq> NULL" "\<forall>j < i. alloc j \<noteq> alloc i"
  shows "queues_ok (calloc_node h (alloc i)) (qs @ [\<lparr>sq_head = alloc i, sq_tail = alloc i\<rparr>])
    (dummies alloc (Suc i))"
proof -
  have "queues_ok (calloc_node h (alloc i)) qs (dummies alloc i)"
    using p by (intro queues_ok_frame [OF ok]) (auto simp: dummies_def calloc_node_def)
  then show ?thesis
    using spsc_init_ok(2) [OF p(1)] p(2)
    by (auto simp: queues_ok_def dummies_def nth_append less_Suc_eq)
qed

lemma mpscr_create_loop_law:
  assumes "queues_ok h qs (dummies alloc i)" and "i \<le> n" and "n \<le> cells"
    and "fresh_allocs h0 alloc n" and "\<forall>j < i. alloc j \<noteq> NULL"
    and "\<forall>p. h p = (if p \<in> alloc ` {..<i} then Some (node_of 0 NULL) else h0 p)"
  shows "if \<forall>j < n. alloc j \<noteq> NULL
    then \<exists>qs' h'. mpscr_create_loop alloc cells n i h qs = Some (Some qs', h')
      \<and> queues_ok h' qs' (dummies alloc n)
    else mpscr_create_loop alloc cells n i h qs = Some (None, h0)"
  using assms
proof (induction "n - i" arbitrary: i h qs)
  case 0
  then have "n = i" by simp
  moreover have "mpscr_create_loop alloc cells i i h qs = Some (Some qs, h)"
    by (subst mpscr_create_loop.simps) simp
  ultimately show ?case
    using 0(2,6) by simp
next
  case (Suc d)
  have i: "i < n" "i < cells"
    using Suc.hyps(2) Suc.prems(3) by linarith+
  have fresh: "h0 (alloc j) = None" if "j < i" for j
    using Suc.prems(4,5) that i(1) by (auto simp: fresh_allocs_def)
  show ?case
  proof (cases "alloc i = NULL")
    case True
    have "(\<lambda>p. if p \<in> \<Union> (set ` set (dummies alloc i)) then None else h p) = h0"
      unfolding fun_eq_iff dummies_set using Suc.prems(6) fresh by auto
    then have "mpscr_create_loop alloc cells n i h qs = Some (None, h0)"
      using destroy_fifos_law [OF Suc.prems(1)] i True
      by (subst mpscr_create_loop.simps) (simp add: spsc_fifo_init_def calloc_node_def)
    with True i(1) show ?thesis by auto
  next
    case False
    let ?h = "calloc_node h (alloc i)" and ?qs = "qs @ [\<lparr>sq_head = alloc i, sq_tail = alloc i\<rparr>]"
    have apart: "\<forall>j < i. alloc j \<noteq> alloc i"
      using Suc.prems(4) False i(1) by (simp add: fresh_allocs_def)
    have "mpscr_create_loop alloc cells n i h qs = mpscr_create_loop alloc cells n (Suc i) ?h ?qs"
      using i False by (subst mpscr_create_loop.simps) (simp add: spsc_init_ok(1))
    moreover have "if \<forall>j < n. alloc j \<noteq> NULL
      then \<exists>qs' h'. mpscr_create_loop alloc cells n (Suc i) ?h ?qs = Some (Some qs', h')
        \<and> queues_ok h' qs' (dummies alloc n)
      else mpscr_create_loop alloc cells n (Suc i) ?h ?qs = Some (None, h0)"
    proof (rule Suc.hyps(1))
      show "queues_ok ?h ?qs (dummies alloc (Suc i))"
        using queues_ok_snoc_dummy [OF Suc.prems(1) False apart] .
      show "\<forall>p. ?h p = (if p \<in> alloc ` {..<Suc i} then Some (node_of 0 NULL) else h0 p)"
        using Suc.prems(6) False by (auto simp: calloc_node_def lessThan_Suc)
    qed (use Suc i False in \<open>auto simp: less_Suc_eq\<close>)
    ultimately show ?thesis by presburger
  qed
qed

text \<open>The size computation does not wrap around for the numbers of producers that can exist.\<close>

lemma mpscr_cells_enough:
  assumes "2 * unat line + unat n * (unat line + 8) < 2 ^ 64" and "n \<noteq> 0"
  shows "unat n \<le> mpscr_fifo_cells line (mpscr_fifo_bytes line n)"
proof -
  have n: "0 < unat n"
    using assms(2) by (simp add: unat_gt_0)
  then have "unat line + 8 \<le> unat n * (unat line + 8)"
    by simp
  then have l8: "unat (line + 8) = unat line + 8"
    using assms by (simp add: unat_word_ariths)
  have l2: "unat (2 * line) = 2 * unat line"
    using assms by (simp add: unat_word_ariths)
  have ml: "unat (n * (line + 8)) = unat n * (unat line + 8)"
    using assms l8 by (simp add: unat_word_ariths(2) l8)
  have "unat (mpscr_fifo_bytes line n) = 2 * unat line + unat n * (unat line + 8)"
    using assms l2 ml unfolding mpscr_fifo_bytes_def by (simp add: unat_word_ariths(1) l2 ml)
  then show ?thesis
    by (simp add: mpscr_fifo_cells_def l2 l8)
qed

section \<open>Properties\<close>

text \<open>
  C37. Pops go round the producers: as long as the counter does not wrap around, \<open>trypop\<close>
  takes the oldest node of the first nonempty queue from the counter's on, leaves the counter
  just past that queue and every other queue untouched; with no such queue it returns NULL and
  only the counter has moved.
\<close>

theorem mpscr_trypop_round_robin:
  assumes "mpscr_ok h f nss" and "unat (mr_counter f) + length nss < 2 ^ 64"
  shows "case first_ready nss (unat (mr_counter f)) (length nss) of
      None \<Rightarrow> mpscr_fifo_trypop h f
        = Some (NULL, h, f\<lparr>mr_counter := mr_counter f + mr_num_producers f\<rparr>)
    | Some c \<Rightarrow> \<exists>a b ns f'. nss ! (c mod length nss) = a # b # ns
        \<and> mpscr_fifo_trypop h f = Some (a, took h a b, f')
        \<and> mpscr_ok (took h a b) f' (nss[c mod length nss := b # ns])
        \<and> unat (mr_counter f') = Suc c"
  using mpscr_trypop_loop_law [OF assms] mpscr_okD(2) [OF assms(1)]
  by (simp add: mpscr_fifo_trypop_def split: option.splits)

text \<open>
  A consumer that is told there is nothing has been told the truth: while the counter does
  not wrap around, \<open>trypop\<close> returns NULL if and only if every producer's queue is empty.
\<close>

theorem mpscr_trypop_NULL_iff:
  assumes "mpscr_ok h f nss" and "unat (mr_counter f) + length nss < 2 ^ 64"
  shows "\<exists>n h' f'. mpscr_fifo_trypop h f = Some (n, h', f')
    \<and> (n = NULL \<longleftrightarrow> (\<forall>ns \<in> set nss. length ns = 1))"
proof -
  note D = mpscr_okD [OF assms(1)]
  have nonempty: "ns \<noteq> []" "NULL \<notin> set ns" if "ns \<in> set nss" for ns
  proof -
    obtain i where "i < length nss" "ns = nss ! i"
      using \<open>ns \<in> set nss\<close> by (metis in_set_conv_nth)
    then have "spsc_ok h (mr_fifos f ! i) ns"
      using queues_ok_at [OF D(4)] by simp
    then show "ns \<noteq> []" "NULL \<notin> set ns"
      using spsc.ok_rep spsc.ok_alloc by blast+
  qed
  have iff: "first_ready nss (unat (mr_counter f)) (length nss) = None
      \<longleftrightarrow> (\<forall>ns \<in> set nss. length ns = 1)"
    unfolding first_ready_all using nonempty(1)
    by (metis One_nat_def dual_order.refl le_antisym length_0_conv not_less_eq_eq not_less_zero linorder_not_le)
  show ?thesis
  proof (cases "first_ready nss (unat (mr_counter f)) (length nss)")
    case None
    with mpscr_trypop_loop_law [OF assms] iff D(2) show ?thesis
      by (simp add: mpscr_fifo_trypop_def)
  next
    case (Some c)
    with mpscr_trypop_loop_law [OF assms] D(2) obtain a b ns f' where
      r: "nss ! (c mod length nss) = a # b # ns" "mpscr_fifo_trypop h f = Some (a, took h a b, f')"
      by (auto simp: mpscr_fifo_trypop_def)
    have "nss ! (c mod length nss) \<in> set nss"
      using D(1,2) by (intro nth_mem) simp
    then have "a \<noteq> NULL"
      using nonempty(2) [of "a # b # ns"] r(1) by auto
    with r(2) iff Some show ?thesis by auto
  qed
qed

text \<open>
  When the counter does wrap around, a consumer of three producers can be told that there
  is nothing although the third queue has a node: the rounds poll queue 0, queue 0 again, and
  queue 1.
\<close>

theorem mpscr_trypop_misses_at_wrap:
  assumes "mpscr_ok h f [[a], [b], ns]" and "mr_counter f = - 1"
  shows "mpscr_fifo_trypop h f = Some (NULL, h, f\<lparr>mr_counter := 2\<rparr>)"
proof -
  note D = mpscr_okD [OF assms(1)]
  have "unat (mr_num_producers f) = unat (3 :: u64)"
    using D(2) by simp
  then have n: "mr_num_producers f = 3"
    by (rule word_unat_eq_iff [THEN iffD2])
  have n3: "unat (mr_num_producers f) = Suc (Suc (Suc 0))"
    using D(2) by simp
  have q: "spsc_ok h (mr_fifos f ! 0) [a]" "spsc_ok h (mr_fifos f ! 1) [b]"
    using queues_ok_at [OF D(4), of 0] queues_ok_at [OF D(4), of 1] by simp_all
  have m: "(- 1 :: u64) mod 3 = 0" "(0 :: u64) mod 3 = 0" "(1 :: u64) mod 3 = 1"
    by code_simp+
  show ?thesis
    using spsc.pop_empty [OF q(1)] spsc.pop_empty [OF q(2)] D(3)
    unfolding mpscr_fifo_trypop_def n3
    by (simp add: n assms(2) m fifo_at_def set_fifo_def Let_def)
qed

text \<open>
  A push goes to the end of its own producer's queue and touches no other, so every
  producer's nodes are delivered in the order of its pushes; no pop position changes.
\<close>

theorem mpscr_push_per_producer:
  assumes "mpscr_ok h f nss" and "i < mr_num_producers f"
    and "p \<noteq> NULL" and "h p = Some nd" and "\<forall>ns \<in> set nss. p \<notin> set ns"
  shows "\<exists>h' f'. mpscr_fifo_push h f i p = Some (h', f')
    \<and> mpscr_ok h' f' (nss[unat i := nss ! unat i @ [p]]) \<and> mr_counter f' = mr_counter f
    \<and> (\<forall>a. rd_data h' a = rd_data h a)"
  by (rule mpscr_push_law [OF assms])

text \<open>
  Creation is all or nothing: with every allocation granted it returns a queue of the given
  number of empty producers' queues; when one of them is refused it returns NULL and has freed
  every node it had allocated, so that the heap is what it was.
\<close>

theorem mpscr_create_all_or_nothing:
  assumes "n \<noteq> 0" and "fresh_allocs h alloc (unat n)"
    and "2 * unat line + unat n * (unat line + 8) < 2 ^ 64"
  shows "if malloc_ok \<and> (\<forall>j < unat n. alloc j \<noteq> NULL)
    then \<exists>f h'. mpscr_fifo_create line malloc_ok alloc h n = Some (Some f, h')
      \<and> mpscr_ok h' f (dummies alloc (unat n)) \<and> mr_counter f = 0
    else mpscr_fifo_create line malloc_ok alloc h n = Some (None, h)"
proof -
  have pos: "0 < n"
    using assms(1) by (simp add: word_gt_0)
  have "queues_ok h [] (dummies alloc 0)"
    by (simp add: queues_ok_def dummies_def)
  from mpscr_create_loop_law [OF this le0 mpscr_cells_enough [OF assms(3,1)] assms(2)]
  show ?thesis
    using assms(1) pos
    by (auto simp: mpscr_fifo_create_def mpscr_ok_def dummies_def split: if_splits)
qed

text \<open>
  Destruction frees every node of every queue, each once.
\<close>

theorem mpscr_destroy_frees_all:
  assumes "mpscr_ok h f nss"
  shows "mpscr_fifo_destroy h (Some f) = Some (\<lambda>p. if \<exists>ns \<in> set nss. p \<in> set ns then None else h p)"
  using destroy_fifos_law [OF mpscr_okD(4) [OF assms]] mpscr_okD(2,3) [OF assms]
  by (simp add: mpscr_fifo_destroy_def)

section \<open>Witnesses\<close>

text \<open>Three producers; the second has pushed 7.\<close>

definition mpscr_demo :: "u64 \<Rightarrow> mpscr_fifo" where
  "mpscr_demo c = \<lparr>mr_counter = c, mr_num_producers = 3, mr_fifos =
     [\<lparr>sq_head = 16, sq_tail = 16\<rparr>, \<lparr>sq_head = 32, sq_tail = 64\<rparr>, \<lparr>sq_head = 48, sq_tail = 48\<rparr>]\<rparr>"

definition mpscr_demo_heap :: heap where
  "mpscr_demo_heap = [16 \<mapsto> node_of 0 NULL, 32 \<mapsto> node_of 0 64, 64 \<mapsto> node_of 7 NULL, 48 \<mapsto> node_of 0 NULL]"

lemma mpscr_demo_ok: "mpscr_ok mpscr_demo_heap (mpscr_demo c) [[16], [32, 64], [48]]"
  by (simp add: mpscr_ok_def queues_ok_def spsc_ok_def queue_rep_def mpscr_demo_def mpscr_demo_heap_def
    rd_next_def All_less_Suc)

theorem mpscr_trypop_round_robin_witness:
  "\<exists>f'. mpscr_fifo_trypop mpscr_demo_heap (mpscr_demo 3) = Some (32, took mpscr_demo_heap 32 64, f')
     \<and> unat (mr_counter f') = 5"
  using mpscr_trypop_round_robin [OF mpscr_demo_ok, of 3]
  by (simp add: mpscr_demo_def) blast

theorem mpscr_trypop_NULL_iff_witness:
  "\<exists>n h' f'. mpscr_fifo_trypop mpscr_demo_heap (mpscr_demo 3) = Some (n, h', f') \<and> n \<noteq> NULL"
  using mpscr_trypop_NULL_iff [OF mpscr_demo_ok, of 3] by (auto simp: mpscr_demo_def)

theorem mpscr_trypop_misses_at_wrap_witness:
  "mpscr_fifo_trypop [16 \<mapsto> node_of 0 NULL, 32 \<mapsto> node_of 0 NULL, 48 \<mapsto> node_of 0 64, 64 \<mapsto> node_of 7 NULL]
     \<lparr>mr_counter = - 1, mr_num_producers = 3, mr_fifos = [\<lparr>sq_head = 16, sq_tail = 16\<rparr>,
        \<lparr>sq_head = 32, sq_tail = 32\<rparr>, \<lparr>sq_head = 48, sq_tail = 64\<rparr>]\<rparr> = Some (NULL,
     [16 \<mapsto> node_of 0 NULL, 32 \<mapsto> node_of 0 NULL, 48 \<mapsto> node_of 0 64, 64 \<mapsto> node_of 7 NULL],
     \<lparr>mr_counter = 2, mr_num_producers = 3, mr_fifos = [\<lparr>sq_head = 16, sq_tail = 16\<rparr>,
        \<lparr>sq_head = 32, sq_tail = 32\<rparr>, \<lparr>sq_head = 48, sq_tail = 64\<rparr>]\<rparr>)"
proof -
  have "mpscr_ok [16 \<mapsto> node_of 0 NULL, 32 \<mapsto> node_of 0 NULL, 48 \<mapsto> node_of 0 64, 64 \<mapsto> node_of 7 NULL]
     \<lparr>mr_counter = - 1, mr_num_producers = 3, mr_fifos = [\<lparr>sq_head = 16, sq_tail = 16\<rparr>,
        \<lparr>sq_head = 32, sq_tail = 32\<rparr>, \<lparr>sq_head = 48, sq_tail = 64\<rparr>]\<rparr> [[16], [32], [48, 64]]"
    by (simp add: mpscr_ok_def queues_ok_def spsc_ok_def queue_rep_def rd_next_def All_less_Suc)
  from mpscr_trypop_misses_at_wrap [OF this] show ?thesis by simp
qed

theorem mpscr_push_per_producer_witness:
  "\<exists>h' f'. mpscr_fifo_push (mpscr_demo_heap(80 \<mapsto> node_of 9 0)) (mpscr_demo 3) 2 80 = Some (h', f')
     \<and> mpscr_ok h' f' [[16], [32, 64], [48, 80]]"
proof -
  have "mpscr_ok (mpscr_demo_heap(80 \<mapsto> node_of 9 0)) (mpscr_demo 3) [[16], [32, 64], [48]]"
    by (simp add: mpscr_ok_def queues_ok_def spsc_ok_def queue_rep_def mpscr_demo_def mpscr_demo_heap_def
      rd_next_def All_less_Suc)
  from mpscr_push_per_producer [OF this, of 2 80] show ?thesis
    by (simp add: mpscr_demo_def) blast
qed

theorem mpscr_create_all_or_nothing_witness:
  "mpscr_fifo_create 64 True (\<lambda>i. if i = 0 then 16 else NULL) Map.empty 2 = Some (None, Map.empty)"
  using mpscr_create_all_or_nothing [of 2 Map.empty "\<lambda>i. if i = 0 then 16 else NULL" 64 True]
  by (auto simp: fresh_allocs_def less_2_cases_iff split: if_splits)

theorem mpscr_destroy_frees_all_witness:
  "mpscr_fifo_destroy mpscr_demo_heap (Some (mpscr_demo 0)) = Some Map.empty"
  using mpscr_destroy_frees_all [OF mpscr_demo_ok, of 0]
  by (simp add: mpscr_demo_heap_def fun_eq_iff)

end
