(* ===== verification/Mpscr_Tso.thy ===== *)
theory Mpscr_Tso
  imports Mpscr_Fifo
begin

text \<open>
  \<open>mpsc_relaxed_fifo.h\<close>, and with it the queue of \<open>spsc_fifo.h\<close>, with every producer on a thread of its own and one
  consumer, under x86-TSO: the stores to the members of nodes wait in the store buffer of their thread and reach memory in
  order, later. \<open>write_barrier\<close> emits no instruction there, and none of the operations has a locked one. The members of the
  struct itself are private: \<open>tail\<close> to the producer of the queue, \<open>head\<close> and \<open>counter\<close> to the consumer. Thread \<open>i\<close> is producer
  \<open>i\<close> and the consumer is the thread after the last producer; other threads may own nodes. \<open>mx_nodes\<close>, \<open>mx_vals\<close>, \<open>mx_pushed\<close>,
  \<open>mx_flight\<close> and \<open>mx_popped\<close> are ghost variables: the nodes of each queue, the data in them, those of the pushes, the
  one whose node has been taken but whose data has not been read, and those the consumer has read.
\<close>

section \<open>Store buffers\<close>

datatype node_store = St_next ptr ptr | St_data ptr ptr

fun st_addr :: "node_store \<Rightarrow> ptr" where
  "st_addr (St_next p _) = p"
| "st_addr (St_data p _) = p"

fun st_node :: "node_store \<Rightarrow> node \<Rightarrow> node" where
  "st_node (St_next _ q) nd = nd\<lparr>n_next := q\<rparr>"
| "st_node (St_data _ d) nd = nd\<lparr>n_data := d\<rparr>"

text \<open>A store reaches memory; and all stores of a buffer do, oldest first, which is what its thread sees.\<close>

definition st_write :: "node_store \<Rightarrow> heap \<Rightarrow> heap" where
  "st_write w h = h(st_addr w := map_option (st_node w) (h (st_addr w)))"

abbreviation view :: "heap \<Rightarrow> node_store list \<Rightarrow> heap" where
  "view h b \<equiv> fold st_write b h"

section \<open>Steps\<close>

datatype mr_pc =
    M_idle
  | P_clear ptr
  | P_link ptr
  | C_poll u64
  | C_next u64 u64
  | C_data u64 ptr ptr
  | C_store u64 ptr ptr
  | C_none
  | C_got u64 ptr

record mr_sys =
  mx_mem :: heap
  mx_f :: mpscr_fifo
  mx_pc :: "tid \<Rightarrow> mr_pc"
  mx_buf :: "tid \<Rightarrow> node_store list"
  mx_own :: "tid \<Rightarrow> ptr set"
  mx_nodes :: "tid \<Rightarrow> ptr list"
  mx_vals :: "tid \<Rightarrow> ptr list"
  mx_pushed :: "tid \<Rightarrow> ptr list"
  mx_flight :: "tid \<Rightarrow> ptr list"
  mx_popped :: "tid \<Rightarrow> ptr list"

abbreviation mx_goto :: "mr_sys \<Rightarrow> tid \<Rightarrow> mr_pc \<Rightarrow> mr_sys" where
  "mx_goto s t c \<equiv> s\<lparr>mx_pc := (mx_pc s)(t := c)\<rparr>"

abbreviation mx_put :: "mr_sys \<Rightarrow> tid \<Rightarrow> node_store \<Rightarrow> mr_sys" where
  "mx_put s t w \<equiv> s\<lparr>mx_buf := (mx_buf s)(t := mx_buf s t @ [w])\<rparr>"

abbreviation mx_view :: "mr_sys \<Rightarrow> tid \<Rightarrow> heap" where
  "mx_view s t \<equiv> view (mx_mem s) (mx_buf s t)"

definition mx_next :: "tid \<Rightarrow> mr_sys \<Rightarrow> mr_sys option" where
  "mx_next t s =
     (case mx_pc s t of
        M_idle \<Rightarrow> None
      | P_clear new_node \<Rightarrow> do {
          c_assert (mx_mem s new_node \<noteq> None);
          Some (mx_goto (mx_put s t (St_next new_node NULL)) t (P_link new_node))
        }
      | P_link new_node \<Rightarrow> do {
          let index = of_nat t mod mr_num_producers (mx_f s);
          fifo \<leftarrow> fifo_at (mx_f s) index;
          let prev_tail = sq_tail fifo;
          let f' = set_fifo (mx_f s) index (fifo\<lparr>sq_tail := new_node\<rparr>);
          c_assert (mx_mem s prev_tail \<noteq> None);
          d \<leftarrow> rd_data (mx_view s t) new_node;
          Some ((mx_goto (mx_put s t (St_next prev_tail new_node)) t M_idle)\<lparr>mx_f := f',
            mx_nodes := (mx_nodes s)(t := mx_nodes s t @ [new_node]), mx_vals := (mx_vals s)(t := mx_vals s t @ [d]),
            mx_pushed := (mx_pushed s)(t := mx_pushed s t @ [d])\<rparr>)
        }
      | C_poll i \<Rightarrow>
          if i < mr_num_producers (mx_f s) then
            let index = mr_counter (mx_f s) mod mr_num_producers (mx_f s)
            in Some ((mx_goto s t (C_next i index))\<lparr>mx_f := (mx_f s)\<lparr>mr_counter := mr_counter (mx_f s) + 1\<rparr>\<rparr>)
          else Some (mx_goto s t C_none)
      | C_next i index \<Rightarrow> do {
          fifo \<leftarrow> fifo_at (mx_f s) index;
          let prev_head = sq_head fifo;
          prev_head_next \<leftarrow> rd_next (mx_view s t) prev_head;
          if prev_head_next \<noteq> NULL then
            let f' = set_fifo (mx_f s) index (fifo\<lparr>sq_head := prev_head_next\<rparr>); q = unat index
            in Some ((mx_goto s t (C_data index prev_head prev_head_next))\<lparr>mx_f := f',
                 mx_nodes := (mx_nodes s)(q := tl (mx_nodes s q)), mx_vals := (mx_vals s)(q := tl (mx_vals s q)),
                 mx_flight := (mx_flight s)(q := take 1 (mx_vals s q))\<rparr>)
          else Some (mx_goto s t (C_poll (i + 1)))
        }
      | C_data index prev_head prev_head_next \<Rightarrow> do {
          d \<leftarrow> rd_data (mx_view s t) prev_head_next;
          let q = unat index;
          Some ((mx_goto s t (C_store index prev_head d))\<lparr>mx_flight := (mx_flight s)(q := []),
            mx_popped := (mx_popped s)(q := mx_popped s q @ [d])\<rparr>)
        }
      | C_store index prev_head d \<Rightarrow> do {
          c_assert (mx_mem s prev_head \<noteq> None);
          Some ((mx_goto (mx_put s t (St_data prev_head d)) t (C_got index prev_head))\<lparr>
            mx_own := (mx_own s)(t := insert prev_head (mx_own s t))\<rparr>)
        }
      | C_none \<Rightarrow> None
      | C_got _ _ \<Rightarrow> None)"

text \<open>
  What can happen next: a call, a step, the return of a pop, the oldest store of a buffer reaching memory, a store
  to the data of a node the thread owns, or a node passing to another owner, which is for the client to
  synchronise: no store to it may be on the way.
\<close>

datatype mr_act = Call_mpush tid ptr | Call_mpop | Mgo tid | Mret | Mflush tid | Mwrite tid ptr ptr | Mhand tid tid ptr

abbreviation consumer :: "mr_sys \<Rightarrow> tid" where
  "consumer s \<equiv> unat (mr_num_producers (mx_f s))"

fun mx_do :: "mr_act \<Rightarrow> mr_sys \<Rightarrow> mr_sys option" where
  "mx_do (Call_mpush t n) s =
     (if t < consumer s \<and> mx_pc s t = M_idle \<and> n \<in> mx_own s t
      then Some ((mx_goto s t (P_clear n))\<lparr>mx_own := (mx_own s)(t := mx_own s t - {n})\<rparr>) else None)"
| "mx_do Call_mpop s =
     (if mx_pc s (consumer s) = M_idle then Some (mx_goto s (consumer s) (C_poll 0)) else None)"
| "mx_do (Mgo t) s = mx_next t s"
| "mx_do Mret s =
     (case mx_pc s (consumer s) of
        C_none \<Rightarrow> Some (mx_goto s (consumer s) M_idle)
      | C_got _ _ \<Rightarrow> Some (mx_goto s (consumer s) M_idle)
      | _ \<Rightarrow> None)"
| "mx_do (Mflush t) s =
     (case mx_buf s t of
        [] \<Rightarrow> None
      | w # ws \<Rightarrow> Some (s\<lparr>mx_mem := st_write w (mx_mem s), mx_buf := (mx_buf s)(t := ws)\<rparr>))"
| "mx_do (Mwrite t n d) s =
     (if mx_pc s t = M_idle \<and> n \<in> mx_own s t then Some (mx_put s t (St_data n d)) else None)"
| "mx_do (Mhand t u n) s =
     (if t \<noteq> u \<and> mx_pc s t = M_idle \<and> n \<in> mx_own s t \<and> n \<notin> st_addr ` set (mx_buf s t)
      then Some (s\<lparr>mx_own := (mx_own s)(t := mx_own s t - {n}, u := insert n (mx_own s u))\<rparr>) else None)"

inductive mx_step :: "mr_sys \<Rightarrow> mr_sys \<Rightarrow> bool" where
  mx_stepI: "mx_do a s = Some s' \<Longrightarrow> mx_step s s'"

inductive_cases mx_stepE: "mx_step s s'"

fun mx_run :: "mr_act list \<Rightarrow> mr_sys \<Rightarrow> mr_sys option" where
  "mx_run [] s = Some s"
| "mx_run (a # as) s = Option.bind (mx_do a s) (mx_run as)"

lemma mx_run_reach:
  "mx_run as s = Some s' \<Longrightarrow> reach init mx_step s \<Longrightarrow> reach init mx_step s'"
proof (induction as arbitrary: s)
  case (Cons a as)
  then obtain s1 where "mx_do a s = Some s1" "mx_run as s1 = Some s'"
    by (auto split: bind_splits)
  then show ?case
    using Cons reach_step mx_stepI by metis
qed simp

text \<open>The start: queues as the sequential operations leave them, and allocated nodes of at most one owner.\<close>

definition mx_start :: "heap \<Rightarrow> mpscr_fifo \<Rightarrow> ptr list list \<Rightarrow> (tid \<Rightarrow> ptr set) \<Rightarrow> mr_sys" where
  "mx_start h f nss own = (let ns = (\<lambda>i. if i < length nss then nss ! i else []); vs = (\<lambda>i. datas h (tl (ns i)))
     in \<lparr>mx_mem = h, mx_f = f, mx_pc = (\<lambda>_. M_idle), mx_buf = (\<lambda>_. []), mx_own = own, mx_nodes = ns, mx_vals = vs,
        mx_pushed = vs, mx_flight = (\<lambda>_. []), mx_popped = (\<lambda>_. [])\<rparr>)"

definition nodes_owned :: "heap \<Rightarrow> ptr list list \<Rightarrow> (tid \<Rightarrow> ptr set) \<Rightarrow> bool" where
  "nodes_owned h nss own \<longleftrightarrow> (\<forall>t. \<forall>n \<in> own t. n \<noteq> NULL \<and> h n \<noteq> None \<and> (\<forall>ns \<in> set nss. n \<notin> set ns))
     \<and> (\<forall>t u. t \<noteq> u \<longrightarrow> own t \<inter> own u = {})"

definition mx_init :: "mr_sys \<Rightarrow> bool" where
  "mx_init s \<longleftrightarrow> (\<exists>h f nss own. mpscr_ok h f nss \<and> nodes_owned h nss own \<and> s = mx_start h f nss own)"

section \<open>What memory shows of a queue\<close>

lemma view_at: "h q = h' q \<Longrightarrow> view h b q = view h' b q"
proof (induction b arbitrary: h h')
  case (Cons w b)
  from Cons.prems have "st_write w h q = st_write w h' q"
    by (auto simp: st_write_def)
  then show ?case
    using Cons.IH [of "st_write w h" "st_write w h'"] by simp
qed simp

text \<open>A buffer without a store to node \<open>a\<close>.\<close>

definition quiet :: "node_store list \<Rightarrow> ptr \<Rightarrow> bool" where
  "quiet b a \<longleftrightarrow> a \<notin> st_addr ` set b"

lemma quiet_simps [simp]:
  "quiet [] a" "quiet (w # b) a \<longleftrightarrow> a \<noteq> st_addr w \<and> quiet b a" "quiet (b @ c) a \<longleftrightarrow> quiet b a \<and> quiet c a"
  by (auto simp: quiet_def)

lemma quiet_store: "quiet b a \<Longrightarrow> St_data a d \<notin> set b" "quiet b a \<Longrightarrow> St_next a n \<notin> set b"
  by (force simp: quiet_def)+

lemma view_quiet: "quiet b a \<Longrightarrow> view h b a = h a"
  by (induction b arbitrary: h) (simp_all add: st_write_def)

lemma st_write_other [simp]: "a \<noteq> st_addr w \<Longrightarrow> st_write w h a = h a"
  by (simp add: st_write_def)

lemma st_write_next [simp]:
  "rd_data (st_write (St_next a q) h) x = rd_data h x"
  "rd_next (st_write (St_next a q) h) x = (if x = a then map_option (\<lambda>_. q) (h a) else rd_next h x)"
  by (auto simp: st_write_def rd_data_def rd_next_def option.map_comp o_def split: option.splits)

lemma st_write_data [simp]:
  "rd_next (st_write (St_data a d) h) x = rd_next h x"
  "rd_data (st_write (St_data a d) h) x = (if x = a then map_option (\<lambda>_. d) (h a) else rd_data h x)"
  by (auto simp: st_write_def rd_data_def rd_next_def option.map_comp o_def split: option.splits)

lemma rd_other: "h' a = h a \<Longrightarrow> rd_next h' a = rd_next h a" "h' a = h a \<Longrightarrow> rd_data h' a = rd_data h a"
  by (simp_all add: rd_next_def rd_data_def)

lemma st_write_alloc [simp]: "st_write w h a = None \<longleftrightarrow> h a = None"
  by (simp add: st_write_def)

lemma view_alloc [simp]: "view h b a = None \<longleftrightarrow> h a = None"
  by (induction b arbitrary: h) simp_all

text \<open>
  With the buffer \<open>b\<close> of its producer, memory \<open>h\<close> shows a prefix of the queue with the nodes \<open>ns\<close> and the data \<open>vs\<close>: no
  store to a node the prefix has passed is on the way, and where the next link is in the buffer, all that the
  node behind it needs is before it.
\<close>

inductive shown :: "heap \<Rightarrow> node_store list \<Rightarrow> ptr list \<Rightarrow> ptr list \<Rightarrow> bool" where
  shown_last: "rd_next h a = Some NULL \<Longrightarrow> quiet b a \<Longrightarrow> shown h b [a] []"
| shown_link: "rd_next h a = Some n \<Longrightarrow> quiet b a \<Longrightarrow> rd_data h n = Some v \<Longrightarrow> shown h b (n # ns) vs \<Longrightarrow>
    shown h b (a # n # ns) (v # vs)"
| shown_pending: "rd_next h a = Some NULL \<Longrightarrow> quiet xs a \<Longrightarrow> quiet ys a \<Longrightarrow> rd_data (view h xs) n = Some v \<Longrightarrow>
    shown (view h (xs @ [St_next a n])) ys (n # ns) vs \<Longrightarrow> shown h (xs @ St_next a n # ys) (a # n # ns) (v # vs)"

inductive_cases shown_ConsE: "shown h b (a # ns) vs"

lemma shown_head_data: "shown h b (a # ns) vs \<Longrightarrow> St_data a d \<notin> set b"
  by (erule shown_ConsE) (auto simp: quiet_store)

lemma shown_head_flush: "shown h (w # b) (a # ns) vs \<Longrightarrow> rd_data (st_write w h) a = rd_data h a"
  using shown_head_data [of h "w # b" a ns vs] by (cases w) auto

lemma shown_flush: "shown h (w # b) ns vs \<Longrightarrow> shown (st_write w h) b ns vs"
proof (induction h "w # b" ns vs rule: shown.induct)
  case (shown_last h a)
  then show ?case by (auto intro!: shown.shown_last simp: rd_next_def)
next
  case (shown_link h a n v ns vs)
  then show ?case
    using shown_head_flush by (auto intro!: shown.shown_link simp: rd_next_def)
next
  case (shown_pending h a xs ys n v ns vs)
  show ?case
  proof (cases xs)
    case Nil
    then have w: "w = St_next a n" "b = ys"
      using shown_pending by auto
    obtain nd where "h a = Some nd"
      using shown_pending(1) by (auto simp: rd_next_def)
    then show ?thesis
      using shown_pending Nil unfolding w by (intro shown.shown_link) auto
  next
    case (Cons x xs')
    then have b: "b = xs' @ St_next a n # ys" "x = w"
      using shown_pending by auto
    show ?thesis
      unfolding b using shown_pending Cons b(2) by (intro shown.shown_pending) (auto simp: rd_next_def)
  qed
qed

lemma shown_frame: "shown h b ns vs \<Longrightarrow> (\<And>q. q \<in> set ns \<Longrightarrow> h' q = h q) \<Longrightarrow> shown h' b ns vs"
proof (induction arbitrary: h' rule: shown.induct)
  case (shown_pending h a xs ys n v ns vs)
  have "view h' xs n = view h xs n"
    using shown_pending.prems by (intro view_at) simp
  moreover have "shown (view h' (xs @ [St_next a n])) ys (n # ns) vs"
    using shown_pending.prems by (intro shown_pending.IH view_at) simp
  moreover have "h' a = h a"
    using shown_pending.prems by simp
  ultimately show ?case
    using shown_pending.hyps(1-4) by (intro shown.shown_pending) (simp_all add: rd_next_def rd_data_def)
qed (auto intro!: shown.intros simp: rd_next_def rd_data_def)

lemma shown_issue: "shown h b ns vs \<Longrightarrow> st_addr w \<notin> set ns \<Longrightarrow> shown h (b @ [w]) ns vs"
proof (induction rule: shown.induct)
  case (shown_pending h a xs ys n v ns vs)
  then have "shown h (xs @ St_next a n # (ys @ [w])) (a # n # ns) (v # vs)"
    by (intro shown.shown_pending) auto
  then show ?case by simp
qed (auto intro!: shown.intros)

lemma shown_push:
  assumes "shown h b ns vs" and "distinct ns" and "n \<notin> set ns" and "rd_next (view h b) n = Some NULL"
    and "rd_data (view h b) n = Some v"
  shows "shown h (b @ [St_next (List.last ns) n]) (ns @ [n]) (vs @ [v])"
  using assms
proof (induction rule: shown.induct)
  case (shown_last h a b)
  then have "shown (view h (b @ [St_next a n])) [] [n] []"
    by (intro shown.shown_last) auto
  then show ?case
    using shown_last by (auto intro!: shown.shown_pending)
next
  case (shown_link h a m b v' ns vs)
  then show ?case by (auto intro!: shown.shown_link)
next
  case (shown_pending h a xs ys m v' ns vs)
  let ?l = "St_next (List.last (a # m # ns)) n"
  have "shown (view h (xs @ [St_next a m])) (ys @ [?l]) (m # ns @ [n]) (vs @ [v])"
    using shown_pending by simp
  then have "shown h (xs @ St_next a m # (ys @ [?l])) (a # m # (ns @ [n])) (v' # (vs @ [v]))"
    using shown_pending by (intro shown.shown_pending) auto
  then show ?case by simp
qed

lemma shown_pop:
  assumes "shown h b (a # ns) vs" and "rd_next h a = Some m" and "m \<noteq> NULL"
  obtains ms v us where "ns = m # ms" "vs = v # us" "quiet b a" "rd_data h m = Some v" "shown h b (m # ms) us"
proof -
  have "\<exists>ms v us. ns = m # ms \<and> vs = v # us \<and> quiet b a \<and> rd_data h m = Some v \<and> shown h b (m # ms) us"
    using assms by cases auto
  then show ?thesis
    using that by blast
qed

lemma shown_flushed: "shown h b ns vs \<Longrightarrow> b = [] \<Longrightarrow> NULL \<notin> set ns \<Longrightarrow> chain h ns NULL \<and> datas h (tl ns) = vs"
  by (induction rule: shown.induct) (auto simp: rd_data_def)

lemma shown_chain: "chain h ns NULL \<Longrightarrow> ns \<noteq> [] \<Longrightarrow> shown h [] ns (datas h (tl ns))"
proof (induction ns rule: induct_list012)
  case (3 a n ns)
  then show ?case
    using chain_allocated [of h "n # ns" NULL n] by (auto intro!: shown.shown_link)
qed (auto intro: shown.shown_last)

section \<open>The invariant\<close>

text \<open>Nodes of a thread that are neither in a queue nor owned.\<close>

fun mx_transit :: "mr_pc \<Rightarrow> ptr set" where
  "mx_transit (P_clear n) = {n}"
| "mx_transit (P_link n) = {n}"
| "mx_transit (C_data _ a _) = {a}"
| "mx_transit (C_store _ a _) = {a}"
| "mx_transit _ = {}"

definition mx_holds :: "mr_sys \<Rightarrow> tid \<Rightarrow> ptr set" where
  "mx_holds s t = mx_own s t \<union> mx_transit (mx_pc s t)"

fun mpc_ok :: "mr_sys \<Rightarrow> tid \<Rightarrow> mr_pc \<Rightarrow> bool" where
  "mpc_ok s t M_idle \<longleftrightarrow> True"
| "mpc_ok s t (P_clear n) \<longleftrightarrow> t < consumer s"
| "mpc_ok s t (P_link n) \<longleftrightarrow> t < consumer s \<and> rd_next (mx_view s t) n = Some NULL"
| "mpc_ok s t (C_poll i) \<longleftrightarrow> t = consumer s"
| "mpc_ok s t (C_next i q) \<longleftrightarrow> t = consumer s \<and> i < mr_num_producers (mx_f s) \<and> q < mr_num_producers (mx_f s)"
| "mpc_ok s t (C_data q a n) \<longleftrightarrow> t = consumer s \<and> q < mr_num_producers (mx_f s) \<and> n = List.hd (mx_nodes s (unat q))
     \<and> (\<exists>v. mx_flight s (unat q) = [v] \<and> rd_data (mx_mem s) n = Some v)"
| "mpc_ok s t (C_store q a d) \<longleftrightarrow> t = consumer s \<and> q < mr_num_producers (mx_f s) \<and> mx_popped s (unat q) \<noteq> []
     \<and> d = List.last (mx_popped s (unat q))"
| "mpc_ok s t C_none \<longleftrightarrow> t = consumer s"
| "mpc_ok s t (C_got q a) \<longleftrightarrow> t = consumer s \<and> q < mr_num_producers (mx_f s) \<and> mx_popped s (unat q) \<noteq> []
     \<and> a \<in> mx_own s t \<and> rd_data (mx_view s t) a = Some (List.last (mx_popped s (unat q)))"

definition mx_queue :: "mr_sys \<Rightarrow> tid \<Rightarrow> bool" where
  "mx_queue s i \<longleftrightarrow> mx_nodes s i \<noteq> [] \<and> distinct (mx_nodes s i)
     \<and> sq_head (mr_fifos (mx_f s) ! i) = List.hd (mx_nodes s i) \<and> sq_tail (mr_fifos (mx_f s) ! i) = List.last (mx_nodes s i)
     \<and> shown (mx_mem s) (mx_buf s i) (mx_nodes s i) (mx_vals s i)
     \<and> mx_pushed s i = mx_popped s i @ mx_flight s i @ mx_vals s i"

text \<open>The nodes of the queues and those of the threads: no node is in two of these sets.\<close>

definition mx_region :: "mr_sys \<Rightarrow> tid + tid \<Rightarrow> ptr set" where
  "mx_region s = case_sum (\<lambda>i. set (mx_nodes s i)) (mx_holds s)"

definition apart :: "('i \<Rightarrow> 'a set) \<Rightarrow> bool" where
  "apart R \<longleftrightarrow> (\<forall>x y. x \<noteq> y \<longrightarrow> R x \<inter> R y = {})"

lemma apart_move: "apart R \<Longrightarrow> n \<in> R x \<Longrightarrow> x \<noteq> y \<Longrightarrow> apart (R(x := R x - {n}, y := insert n (R y)))"
  unfolding apart_def by auto

definition mx_inv :: "mr_sys \<Rightarrow> bool" where
  "mx_inv s \<longleftrightarrow> 0 < consumer s \<and> length (mr_fifos (mx_f s)) = consumer s
     \<and> (\<forall>i < consumer s. mx_queue s i) \<and> (\<forall>i \<ge> consumer s. mx_nodes s i = [])
     \<and> apart (mx_region s) \<and> (\<forall>x. \<forall>n \<in> mx_region s x. n \<noteq> NULL \<and> mx_mem s n \<noteq> None)
     \<and> (\<forall>t. mx_own s t \<inter> mx_transit (mx_pc s t) = {})
     \<and> (\<forall>t. \<forall>w \<in> set (mx_buf s t). st_addr w \<in> mx_holds s t \<union> set (mx_nodes s t))
     \<and> (\<forall>t. mpc_ok s t (mx_pc s t)) \<and> (\<forall>i. mx_flight s i \<noteq> [] \<longrightarrow> (\<exists>q a n. mx_pc s (consumer s) = C_data q a n \<and> unat q = i))"

lemma mx_invD:
  assumes "mx_inv s"
  shows "0 < consumer s" "length (mr_fifos (mx_f s)) = consumer s" "i < consumer s \<Longrightarrow> mx_queue s i"
    "consumer s \<le> i \<Longrightarrow> mx_nodes s i = []" "i \<noteq> j \<Longrightarrow> set (mx_nodes s i) \<inter> set (mx_nodes s j) = {}"
    "n \<in> set (mx_nodes s i) \<Longrightarrow> n \<noteq> NULL \<and> mx_mem s n \<noteq> None"
    "n \<in> mx_holds s t \<Longrightarrow> n \<noteq> NULL \<and> mx_mem s n \<noteq> None \<and> n \<notin> set (mx_nodes s i)"
    "t \<noteq> u \<Longrightarrow> mx_holds s t \<inter> mx_holds s u = {}" "mx_own s t \<inter> mx_transit (mx_pc s t) = {}"
    "w \<in> set (mx_buf s t) \<Longrightarrow> st_addr w \<in> mx_holds s t \<union> set (mx_nodes s t)"
    "mpc_ok s t (mx_pc s t)" "mx_flight s i \<noteq> [] \<Longrightarrow> \<exists>q a n. mx_pc s (consumer s) = C_data q a n \<and> unat q = i"
proof -
  have sep: "mx_region s x \<inter> mx_region s y = {}" if "x \<noteq> y" for x y
    using assms that unfolding mx_inv_def apart_def by blast
  have alloc: "n \<noteq> NULL \<and> mx_mem s n \<noteq> None" if "n \<in> mx_region s x" for n x
    using assms that unfolding mx_inv_def by blast
  show "i \<noteq> j \<Longrightarrow> set (mx_nodes s i) \<inter> set (mx_nodes s j) = {}"
    using sep [of "Inl i" "Inl j"] by (simp add: mx_region_def)
  show "t \<noteq> u \<Longrightarrow> mx_holds s t \<inter> mx_holds s u = {}"
    using sep [of "Inr t" "Inr u"] by (simp add: mx_region_def)
  show "n \<in> set (mx_nodes s i) \<Longrightarrow> n \<noteq> NULL \<and> mx_mem s n \<noteq> None"
    using alloc [of n "Inl i"] by (simp add: mx_region_def)
  show "n \<in> mx_holds s t \<Longrightarrow> n \<noteq> NULL \<and> mx_mem s n \<noteq> None \<and> n \<notin> set (mx_nodes s i)"
    using alloc [of n "Inr t"] sep [of "Inr t" "Inl i"] by (auto simp: mx_region_def)
qed (use assms in \<open>auto simp: mx_inv_def\<close>)

text \<open>What a thread's buffer has no store to, it sees as it is in memory.\<close>

lemma mx_quiet:
  assumes "mx_inv s" and "n \<notin> mx_holds s t" and "n \<notin> set (mx_nodes s t)"
  shows "quiet (mx_buf s t) n"
  using mx_invD(10) [OF assms(1), of _ t] assms(2,3) by (auto simp: quiet_def)

lemma mpc_ok_same:
  assumes "mpc_ok s u c" and "mx_f s' = (mx_f s)\<lparr>mr_counter := k\<rparr>" and "mx_mem s' = mx_mem s"
    and "mx_buf s' u = mx_buf s u" and "mx_own s' u = mx_own s u" and "mx_nodes s' = mx_nodes s"
    and "mx_flight s' = mx_flight s" and "mx_popped s' = mx_popped s"
  shows "mpc_ok s' u c"
  using assms by (cases c) auto

text \<open>Steps of one thread that leave memory and the queues alone, and may add a store to a node of its own.\<close>

lemma mx_local:
  assumes inv: "mx_inv s"
    and s': "s' = s\<lparr>mx_f := (mx_f s)\<lparr>mr_counter := k\<rparr>, mx_pc := (mx_pc s)(t := c), mx_own := (mx_own s)(t := O'),
        mx_buf := (mx_buf s)(t := mx_buf s t @ ws)\<rparr>"
    and ws: "ws = [] \<or> (\<exists>w. ws = [w] \<and> st_addr w \<in> mx_holds s t)"
    and holds: "O' \<union> mx_transit c = mx_holds s t" "O' \<inter> mx_transit c = {}"
    and ok: "mpc_ok s' t c" and flight: "t = consumer s \<Longrightarrow> \<forall>q a n. mx_pc s t \<noteq> C_data q a n"
  shows "mx_inv s'"
proof -
  note D = mx_invD [OF inv]
  have h: "mx_holds s' u = mx_holds s u" for u
    using holds(1) by (simp add: s' mx_holds_def)
  have "mx_queue s' i" if "i < consumer s" for i
  proof -
    have "mx_queue s i"
      using D(3) that .
    moreover have "shown (mx_mem s) (mx_buf s t @ ws) (mx_nodes s t) (mx_vals s t)" if "i = t"
      using ws \<open>mx_queue s i\<close> D(7) that shown_issue by (auto simp: mx_queue_def)
    ultimately show ?thesis
      by (simp add: mx_queue_def s')
  qed
  moreover have "st_addr w \<in> mx_holds s u \<union> set (mx_nodes s u)" if "w \<in> set (mx_buf s' u)" for w u
    using that ws D(10) [of w u] by (auto simp: s' split: if_splits)
  moreover have "mpc_ok s' u (mx_pc s' u)" for u
  proof (cases "u = t")
    case False
    then show ?thesis
      using D(11) [of u] by (simp add: s' mpc_ok_same [where s = s and k = k])
  qed (use ok in \<open>simp add: s'\<close>)
  moreover have "\<exists>q a n. mx_pc s' (consumer s) = C_data q a n \<and> unat q = i" if "mx_flight s i \<noteq> []" for i
    using D(12) [OF that] flight by (auto simp: s')
  moreover have "mx_own s' u \<inter> mx_transit (mx_pc s' u) = {}" for u
    using D(9) [of u] holds(2) by (auto simp: s')
  moreover have "mx_region s' = mx_region s" "consumer s' = consumer s" "mx_mem s' = mx_mem s"
    using h by (simp_all add: mx_region_def s' fun_eq_iff split: sum.split)
  ultimately show ?thesis
    using inv D(1,2,4) unfolding mx_inv_def h by (simp add: s')
qed

text \<open>The steps that move a node take it out of one of the sets and put it into another.\<close>

lemma mx_move:
  assumes inv: "mx_inv s" and n: "n \<in> mx_region s x" "x \<noteq> y"
    and region: "mx_region s' = (mx_region s)(x := mx_region s x - {n}, y := insert n (mx_region s y))"
    and same: "mx_mem s' = mx_mem s" "consumer s' = consumer s" "length (mr_fifos (mx_f s')) = length (mr_fifos (mx_f s))"
    and "\<And>i. i < consumer s \<Longrightarrow> mx_queue s' i" and "\<And>i. consumer s \<le> i \<Longrightarrow> mx_nodes s' i = []"
    and "\<And>t. mx_own s' t \<inter> mx_transit (mx_pc s' t) = {}" and "\<And>t. mpc_ok s' t (mx_pc s' t)"
    and "\<And>t w. w \<in> set (mx_buf s' t) \<Longrightarrow> st_addr w \<in> mx_holds s' t \<union> set (mx_nodes s' t)"
    and "\<And>i. mx_flight s' i \<noteq> [] \<Longrightarrow> \<exists>q a n. mx_pc s' (consumer s) = C_data q a n \<and> unat q = i"
  shows "mx_inv s'"
proof -
  have "apart (mx_region s')"
    unfolding region using inv n by (intro apart_move) (simp_all add: mx_inv_def)
  moreover have "m \<noteq> NULL \<and> mx_mem s m \<noteq> None" if "m \<in> mx_region s' z" for m z
  proof -
    have "\<exists>v. m \<in> mx_region s v"
      using that n(1) unfolding region by (auto split: if_splits)
    then show ?thesis
      using inv unfolding mx_inv_def by blast
  qed
  ultimately show ?thesis
    using mx_invD(1,2) [OF inv] assms(5-) unfolding mx_inv_def by auto
qed

text \<open>The steps that change a queue, and stores that reach memory.\<close>

lemma producer_index: "t < unat (N :: u64) \<Longrightarrow> unat (of_nat t mod N) = t"
  using unat_u64_less [of N] unat_of_nat_u64 [of t] by (simp only: unat_mod) simp

lemma mx_push:
  assumes inv: "mx_inv s" and pc: "mx_pc s t = P_link n" and step: "mx_next t s = Some s'"
  shows "mx_inv s'"
proof -
  note D = mx_invD [OF inv]
  have t: "t < consumer s" "rd_next (mx_view s t) n = Some NULL"
    using D(11) [of t] pc by simp_all
  have n: "n \<in> mx_holds s t" "n \<notin> mx_own s t"
    using D(9) [of t] pc by (auto simp: mx_holds_def)
  let ?q = "mr_fifos (mx_f s) ! t"
  obtain d where d: "rd_data (mx_view s t) n = Some d"
      and s': "s' = s\<lparr>mx_f := (mx_f s)\<lparr>mr_fifos := (mr_fifos (mx_f s))[t := ?q\<lparr>sq_tail := n\<rparr>]\<rparr>, mx_pc := (mx_pc s)(t := M_idle),
        mx_buf := (mx_buf s)(t := mx_buf s t @ [St_next (sq_tail ?q) n]), mx_nodes := (mx_nodes s)(t := mx_nodes s t @ [n]),
        mx_vals := (mx_vals s)(t := mx_vals s t @ [d]), mx_pushed := (mx_pushed s)(t := mx_pushed s t @ [d])\<rparr>"
    using step pc producer_index [OF t(1)]
    by (auto simp: mx_next_def fifo_at_def set_fifo_def Let_def split: bind_splits if_splits)
  have Q: "mx_queue s t"
    using D(3) [OF t(1)] .
  then have tail: "sq_tail ?q = List.last (mx_nodes s t)" "sq_tail ?q \<in> set (mx_nodes s t)" "mx_nodes s t \<noteq> []"
    by (simp_all add: mx_queue_def)
  have "shown (mx_mem s) (mx_buf s t @ [St_next (sq_tail ?q) n]) (mx_nodes s t @ [n]) (mx_vals s t @ [d])"
    unfolding tail(1) using Q D(7) [OF n(1)] t(2) d by (intro shown_push) (auto simp: mx_queue_def)
  then have "mx_queue s' i" if "i < consumer s" for i
    using Q D(2) D(3) [OF that] D(7) [OF n(1)] t(1) by (auto simp: mx_queue_def s')
  moreover have holds: "mx_holds s' u = mx_holds s u - (if u = t then {n} else {})" for u
    using n(2) pc by (auto simp: mx_holds_def s')
  moreover have "mpc_ok s' u (mx_pc s' u)" for u
    using D(11) [of u] tail(3) by (cases "mx_pc s u") (auto simp: s' hd_append)
  moreover have nodes: "mx_nodes s' = (mx_nodes s)(t := mx_nodes s t @ [n])"
      and buf: "mx_buf s' = (mx_buf s)(t := mx_buf s t @ [St_next (sq_tail ?q) n])"
    by (simp_all add: s')
  moreover have "mx_region s' = (mx_region s)(Inr t := mx_region s (Inr t) - {n}, Inl t := insert n (mx_region s (Inl t)))"
    by (auto simp: fun_eq_iff mx_region_def holds nodes split: sum.split)
  moreover have "st_addr w \<in> mx_holds s' u \<union> set (mx_nodes s' u)" if "w \<in> set (mx_buf s' u)" for w u
    using that D(10) [of w u] tail(2) unfolding holds by (auto simp: nodes buf split: if_splits)
  moreover have "\<exists>q a m. mx_pc s' (consumer s) = C_data q a m \<and> unat q = i" if "mx_flight s' i \<noteq> []" for i
    using D(12) [of i] that t(1) by (simp add: s')
  moreover have "mx_own s' u \<inter> mx_transit (mx_pc s' u) = {}" for u
    using D(9) [of u] by (simp add: s')
  ultimately show ?thesis
    using n(1) t(1) D(4) by (intro mx_move [OF inv, of n "Inr t" "Inl t"]) (simp_all add: mx_region_def, simp_all add: s')
qed

lemma mx_take:
  assumes inv: "mx_inv s" and pc: "mx_pc s t = C_next i q" and m: "m \<noteq> NULL"
    and nx: "rd_next (mx_view s t) (sq_head (mr_fifos (mx_f s) ! unat q)) = Some m"
    and s': "s' = s\<lparr>mx_f := set_fifo (mx_f s) q ((mr_fifos (mx_f s) ! unat q)\<lparr>sq_head := m\<rparr>),
      mx_pc := (mx_pc s)(t := C_data q (sq_head (mr_fifos (mx_f s) ! unat q)) m),
      mx_nodes := (mx_nodes s)(unat q := tl (mx_nodes s (unat q))), mx_vals := (mx_vals s)(unat q := tl (mx_vals s (unat q))),
      mx_flight := (mx_flight s)(unat q := take 1 (mx_vals s (unat q)))\<rparr>"
  shows "mx_inv s'"
proof -
  note D = mx_invD [OF inv]
  have t: "t = consumer s" "q < mr_num_producers (mx_f s)"
    using D(11) [of t] pc by simp_all
  then have q: "unat q < consumer s"
    by (simp add: word_less_nat_alt)
  note Q = D(3) [OF q, unfolded mx_queue_def]
  obtain a ns where ns: "mx_nodes s (unat q) = a # ns" "sq_head (mr_fifos (mx_f s) ! unat q) = a"
    using Q by (cases "mx_nodes s (unat q)") auto
  have a: "a \<notin> mx_holds s u" for u
    using D(7) [of a u "unat q"] ns by auto
  have "quiet (mx_buf s t) a"
    using a D(4) [of t] t(1) by (intro mx_quiet [OF inv]) simp_all
  then have "rd_next (mx_mem s) a = Some m"
    using nx ns(2) rd_other(1) view_quiet by metis
  then obtain ms v us where V: "ns = m # ms" "mx_vals s (unat q) = v # us" "quiet (mx_buf s (unat q)) a"
      "rd_data (mx_mem s) m = Some v" "shown (mx_mem s) (mx_buf s (unat q)) (m # ms) us"
    using Q unfolding ns(1) by (elim conjE shown_pop [OF _ \<open>rd_next (mx_mem s) a = Some m\<close> m])
  have none: "mx_flight s i = []" for i
    using D(12) [of i] pc t(1) by auto
  have "mx_queue s' i" if "i < consumer s" for i
    using D(2) D(3) [OF that] V(2-) none q unfolding mx_queue_def s' set_fifo_def by (auto simp: ns(1) V(1))
  moreover have holds: "mx_holds s' u = mx_holds s u \<union> (if u = t then {a} else {})" for u
    using pc by (auto simp: mx_holds_def s' ns(2))
  moreover have "mpc_ok s' u (mx_pc s' u)" for u
    using D(11) [of u] V(2-4) ns V(1) t pc by (cases "mx_pc s u") (auto simp: s' set_fifo_def)
  moreover have nodes: "mx_nodes s' = (mx_nodes s)(unat q := m # ms)" and buf: "mx_buf s' = mx_buf s"
    by (simp_all add: s' ns(1) V(1))
  moreover have a': "a \<notin> set (m # ms)"
    using Q unfolding ns(1) V(1) by simp
  then have "mx_region s' = (mx_region s)(Inl (unat q) := mx_region s (Inl (unat q)) - {a}, Inr t := insert a (mx_region s (Inr t)))"
    by (auto simp: fun_eq_iff mx_region_def holds nodes ns(1) V(1) split: sum.split)
  moreover have "st_addr w \<in> mx_holds s' u \<union> set (mx_nodes s' u)" if "w \<in> set (mx_buf s' u)" for w u
  proof -
    have "st_addr w \<noteq> a" if "u = unat q"
      using V(3) that \<open>w \<in> set (mx_buf s' u)\<close> by (auto simp: quiet_def buf)
    then show ?thesis
      using that D(10) [of w u] unfolding holds by (auto simp: nodes buf ns(1) V(1))
  qed
  moreover have "\<exists>q a m. mx_pc s' (consumer s) = C_data q a m \<and> unat q = i" if "mx_flight s' i \<noteq> []" for i
    using that none t(1) by (auto simp: s' split: if_splits)
  moreover have "mx_own s' u \<inter> mx_transit (mx_pc s' u) = {}" for u
    using D(9) [of u] a [of t] by (auto simp: s' ns(2) mx_holds_def)
  ultimately show ?thesis
    using D(4) q by (intro mx_move [OF inv, of a "Inl (unat q)" "Inr t"]) (simp_all add: mx_region_def ns(1), simp_all add: s' set_fifo_def)
qed

lemma mx_read:
  assumes inv: "mx_inv s" and pc: "mx_pc s t = C_data q a n" and step: "mx_next t s = Some s'"
  shows "mx_inv s'"
proof -
  note D = mx_invD [OF inv]
  obtain v where t: "t = consumer s" "q < mr_num_producers (mx_f s)" "n = List.hd (mx_nodes s (unat q))"
      "mx_flight s (unat q) = [v]" "rd_data (mx_mem s) n = Some v"
    using D(11) [of t] pc by auto
  then have q: "unat q < consumer s"
    by (simp add: word_less_nat_alt)
  have "n \<in> set (mx_nodes s (unat q))"
    using D(3) [OF q] t(3) by (simp add: mx_queue_def)
  then have "n \<notin> mx_holds s t"
    using D(7) [of n t "unat q"] by blast
  then have "quiet (mx_buf s t) n"
    using D(4) [of t] t(1) by (intro mx_quiet [OF inv]) simp_all
  then have "rd_data (mx_view s t) n = Some v"
    using t(5) rd_other(2) view_quiet by metis
  then have s': "s' = s\<lparr>mx_pc := (mx_pc s)(t := C_store q a v), mx_flight := (mx_flight s)(unat q := []),
      mx_popped := (mx_popped s)(unat q := mx_popped s (unat q) @ [v])\<rparr>"
    using step pc by (simp add: mx_next_def Let_def)
  have "mx_queue s' i" if "i < consumer s" for i
    using D(3) [OF that] t(4) by (simp add: mx_queue_def s')
  moreover have "mx_region s' = mx_region s"
    using pc by (auto simp: fun_eq_iff mx_region_def mx_holds_def s' split: sum.split)
  moreover have "mpc_ok s' u (mx_pc s' u)" for u
    using D(11) [of u] t(1,2) pc by (cases "mx_pc s u") (auto simp: s')
  moreover have "mx_flight s i = []" if "i \<noteq> unat q" for i
    using D(12) [of i] that pc t(1) by auto
  moreover have "mx_own s u \<inter> mx_transit (mx_pc s' u) = {}" "mx_holds s' u = mx_holds s u" for u
    using D(9) [of u] pc by (auto simp: s' mx_holds_def)
  ultimately show ?thesis
    using inv D(10) unfolding mx_inv_def by (simp add: s')
qed

lemma mx_flush:
  assumes inv: "mx_inv s" and b: "mx_buf s t = w # ws"
  shows "mx_inv (s\<lparr>mx_mem := st_write w (mx_mem s), mx_buf := (mx_buf s)(t := ws)\<rparr>)" (is "mx_inv ?s")
proof -
  note D = mx_invD [OF inv]
  have w: "st_addr w \<in> mx_holds s t \<union> set (mx_nodes s t)"
    using D(10) [of w t] b by simp
  have other: "st_addr w \<notin> set (mx_nodes s i)" if "i \<noteq> t" for i
    using w D(5) [OF that] D(7) [of "st_addr w" t i] by blast
  have held: "st_addr w \<notin> mx_holds s u" if "u \<noteq> t" for u
    using w D(8) [OF that] D(7) [of "st_addr w" u t] by blast
  have view: "mx_view ?s u n = mx_view s u n" if "n \<in> mx_holds s u" for u n
  proof (cases "u = t")
    case False
    then have "st_write w (mx_mem s) n = mx_mem s n"
      using held that by (intro st_write_other) blast
    then show ?thesis
      using False view_at [of "st_write w (mx_mem s)" n "mx_mem s" "mx_buf s u"] by simp
  qed (simp add: b)
  have "mx_queue ?s i" if "i < consumer s" for i
  proof -
    have Q: "mx_queue s i"
      using D(3) [OF that] .
    then have sh: "shown (mx_mem s) (mx_buf s i) (mx_nodes s i) (mx_vals s i)"
      by (simp add: mx_queue_def)
    have "shown (st_write w (mx_mem s)) (mx_buf ?s i) (mx_nodes s i) (mx_vals s i)"
    proof (cases "i = t")
      case True
      then show ?thesis
        using sh b shown_flush by simp
    next
      case False
      then have "shown (st_write w (mx_mem s)) (mx_buf s i) (mx_nodes s i) (mx_vals s i)"
        using other by (intro shown_frame [OF sh] st_write_other) auto
      then show ?thesis
        using False by simp
    qed
    then show ?thesis
      using Q by (simp add: mx_queue_def)
  qed
  moreover have "mx_region ?s = mx_region s" "mx_holds ?s = mx_holds s"
    by (simp_all add: fun_eq_iff mx_region_def mx_holds_def split: sum.split)
  moreover have "mpc_ok ?s u (mx_pc s u)" for u
  proof -
    have "rd_data (st_write w (mx_mem s)) n = rd_data (mx_mem s) n" if "mx_pc s u = C_data q a n" for q a n
    proof -
      have q: "unat q < consumer s" "n = List.hd (mx_nodes s (unat q))"
        using D(11) [of u] that by (simp_all add: word_less_nat_alt)
      note Q = D(3) [OF q(1), unfolded mx_queue_def]
      then obtain ns where ns: "mx_nodes s (unat q) = n # ns"
        using q(2) by (cases "mx_nodes s (unat q)") auto
      show ?thesis
      proof (cases "unat q = t")
        case True
        then show ?thesis
          using Q shown_head_flush [of "mx_mem s" w ws n ns] ns b by metis
      next
        case False
        then have "st_write w (mx_mem s) n = mx_mem s n"
          using other [of "unat q"] ns by (intro st_write_other) auto
        then show ?thesis
          by (rule rd_other)
      qed
    qed
    moreover have "rd_next (mx_view ?s u) n = rd_next (mx_view s u) n" "rd_data (mx_view ?s u) n = rd_data (mx_view s u) n"
      if "n \<in> mx_holds s u" for n
      using view [OF that] by (rule rd_other)+
    ultimately show ?thesis
      using D(11) [of u] by (cases "mx_pc s u") (auto simp: mx_holds_def)
  qed
  moreover have "st_addr v \<in> mx_holds s u \<union> set (mx_nodes s u)" if "v \<in> set (mx_buf ?s u)" for v u
    using that D(10) [of v u] b by (auto split: if_splits)
  ultimately show ?thesis
    using inv unfolding mx_inv_def by simp
qed

lemma mx_hand:
  assumes inv: "mx_inv s" and t: "t \<noteq> u" "mx_pc s t = M_idle" "n \<in> mx_own s t" "quiet (mx_buf s t) n"
  shows "mx_inv (s\<lparr>mx_own := (mx_own s)(t := mx_own s t - {n}, u := insert n (mx_own s u))\<rparr>)" (is "mx_inv ?s")
proof -
  note D = mx_invD [OF inv]
  have n: "n \<in> mx_holds s t" "n \<notin> mx_holds s u"
    using t D(8) [OF t(1)] by (auto simp: mx_holds_def)
  have holds: "mx_holds ?s = (mx_holds s)(t := mx_holds s t - {n}, u := insert n (mx_holds s u))"
    using t(1,2) by (auto simp: fun_eq_iff mx_holds_def)
  then have "mx_region ?s = (mx_region s)(Inr t := mx_region s (Inr t) - {n}, Inr u := insert n (mx_region s (Inr u)))"
    by (simp add: fun_eq_iff mx_region_def split: sum.split)
  moreover have "mx_queue ?s i" if "i < consumer s" for i
    using D(3) [OF that] by (simp add: mx_queue_def)
  moreover have "mpc_ok ?s v (mx_pc ?s v)" for v
    using D(11) [of v] t(2) by (cases "mx_pc s v") auto
  moreover have "st_addr w \<in> mx_holds ?s v \<union> set (mx_nodes s v)" if "w \<in> set (mx_buf s v)" for v w
    using that D(10) [of w v] t(4) unfolding holds by (auto simp: quiet_def)
  moreover have "mx_own ?s v \<inter> mx_transit (mx_pc s v) = {}" for v
    using D(9) [of v] n(2) t(2) by (auto simp: mx_holds_def)
  ultimately show ?thesis
    using n(1) t(1) D(4,12) by (intro mx_move [OF inv, of n "Inr t" "Inr u"]) (simp_all add: mx_region_def)
qed

lemma mx_clear:
  assumes inv: "mx_inv s" and step: "mx_next t s = Some s'" and P_clear: "mx_pc s t = P_clear n"
  shows "mx_inv s'"
proof -
  note D = mx_invD [OF inv]
  note ok = D(11) [of t]
  let ?s = "\<lambda>k c O' ws. s\<lparr>mx_f := (mx_f s)\<lparr>mr_counter := k\<rparr>, mx_pc := (mx_pc s)(t := c), mx_own := (mx_own s)(t := O'),
        mx_buf := (mx_buf s)(t := mx_buf s t @ ws)\<rparr>"
  let ?k = "mr_counter (mx_f s)"
  have s': "s' = ?s ?k (P_link n) (mx_own s t) [St_next n NULL]"
    using step P_clear by (auto simp: mx_next_def intro!: mr_sys.equality split: if_splits)
  have n: "n \<in> mx_holds s t"
    using P_clear by (simp add: mx_holds_def)
  then obtain nd where "mx_view s t n = Some nd"
    using D(7) view_alloc [of "mx_buf s t" "mx_mem s" n] by blast
  then have "mpc_ok s' t (P_link n)"
    using P_clear ok by (simp add: s')
  then show ?thesis
    using P_clear n D(9) [of t] by (intro mx_local [OF inv s']) (simp_all add: mx_holds_def)
qed

lemma mx_poll:
  assumes inv: "mx_inv s" and step: "mx_next t s = Some s'" and C_next: "mx_pc s t = C_next i q"
  shows "mx_inv s'"
proof -
  note D = mx_invD [OF inv]
  note ok = D(11) [of t]
  let ?s = "\<lambda>k c O' ws. s\<lparr>mx_f := (mx_f s)\<lparr>mr_counter := k\<rparr>, mx_pc := (mx_pc s)(t := c), mx_own := (mx_own s)(t := O'),
        mx_buf := (mx_buf s)(t := mx_buf s t @ ws)\<rparr>"
  let ?k = "mr_counter (mx_f s)"
  have t: "t = consumer s" and q: "unat q < length (mr_fifos (mx_f s))"
    using ok C_next D(2) by (simp_all add: word_less_nat_alt)
  let ?a = "sq_head (mr_fifos (mx_f s) ! unat q)"
  obtain m where m: "rd_next (mx_view s t) ?a = Some m"
    using step C_next q by (auto simp: mx_next_def fifo_at_def Let_def split: bind_splits)
  show ?thesis
  proof (cases "m = NULL")
    case True
    have "s' = ?s ?k (C_poll (i + 1)) (mx_own s t) []"
      using step C_next m True q by (auto simp: mx_next_def fifo_at_def intro!: mr_sys.equality)
    then show ?thesis
      using C_next t by (intro mx_local [OF inv, where t = t and c = "C_poll (i + 1)" and O' = "mx_own s t" and ws = "[]" and k = ?k])
        (simp_all add: mx_holds_def)
  next
    case False
    then show ?thesis
      using step C_next m q by (intro mx_take [OF inv C_next False m]) (auto simp: mx_next_def fifo_at_def Let_def)
  qed
qed

lemma mx_inv_next:
  assumes inv: "mx_inv s" and step: "mx_next t s = Some s'"
  shows "mx_inv s'"
proof -
  note D = mx_invD [OF inv]
  note ok = D(11) [of t]
  let ?s = "\<lambda>k c O' ws. s\<lparr>mx_f := (mx_f s)\<lparr>mr_counter := k\<rparr>, mx_pc := (mx_pc s)(t := c), mx_own := (mx_own s)(t := O'),
        mx_buf := (mx_buf s)(t := mx_buf s t @ ws)\<rparr>"
  let ?k = "mr_counter (mx_f s)"
  show ?thesis
  proof (cases "mx_pc s t")
    case (P_clear n)
    then show ?thesis
      by (rule mx_clear [OF inv step])
  next
    case (P_link n)
    then show ?thesis
      using step by (rule mx_push [OF inv])
  next
    case (C_poll i)
    then have t: "t = consumer s"
      using ok by simp
    define c where "c = (if i < mr_num_producers (mx_f s) then C_next i (?k mod mr_num_producers (mx_f s)) else C_none)"
    define k where "k = (if i < mr_num_producers (mx_f s) then ?k + 1 else ?k)"
    have "s' = ?s k c (mx_own s t) []"
      using step C_poll by (auto simp: mx_next_def Let_def c_def k_def intro!: mr_sys.equality)
    moreover have "mx_transit c = {}" "mpc_ok (?s k c (mx_own s t) []) t c"
      using t D(1) by (auto simp: c_def word_less_nat_alt unat_mod)
    ultimately show ?thesis
      using C_poll by (intro mx_local [OF inv, where t = t and c = c and O' = "mx_own s t" and ws = "[]" and k = k]) (simp_all add: mx_holds_def)
  next
    case (C_next i q)
    then show ?thesis
      by (rule mx_poll [OF inv step])
  next
    case (C_data q a n)
    then show ?thesis
      using step by (rule mx_read [OF inv])
  next
    case (C_store q a d)
    have s': "s' = ?s ?k (C_got q a) (insert a (mx_own s t)) [St_data a d]"
      using step C_store by (auto simp: mx_next_def intro!: mr_sys.equality split: if_splits)
    have a: "a \<in> mx_holds s t"
      using C_store by (simp add: mx_holds_def)
    then obtain nd where "mx_view s t a = Some nd"
      using D(7) view_alloc [of "mx_buf s t" "mx_mem s" a] by blast
    then have got: "mpc_ok s' t (C_got q a)"
      using C_store ok by (simp add: s')
    show ?thesis
      by (rule mx_local [OF inv s' _ _ _ got]) (use C_store a in \<open>simp_all add: mx_holds_def\<close>)
  qed (use step in \<open>simp_all add: mx_next_def\<close>)
qed

lemma mx_inv_step:
  assumes inv: "mx_inv s" and "mx_step s s'"
  shows "mx_inv s'"
proof -
  note D = mx_invD [OF inv]
  obtain act where step: "mx_do act s = Some s'"
    using assms(2) by (elim mx_stepE)
  let ?s = "\<lambda>t c O' ws. s\<lparr>mx_f := (mx_f s)\<lparr>mr_counter := mr_counter (mx_f s)\<rparr>, mx_pc := (mx_pc s)(t := c),
        mx_own := (mx_own s)(t := O'), mx_buf := (mx_buf s)(t := mx_buf s t @ ws)\<rparr>"
  show ?thesis
  proof (cases act)
    case (Call_mpush t n)
    then have t: "t < consumer s" "mx_pc s t = M_idle" "n \<in> mx_own s t" and s': "s' = ?s t (P_clear n) (mx_own s t - {n}) []"
      using step by (auto intro!: mr_sys.equality split: if_splits)
    have "mpc_ok s' t (P_clear n)"
      using t by (simp add: s')
    then show ?thesis
      using t by (intro mx_local [OF inv s']) (auto simp: mx_holds_def)
  next
    case Call_mpop
    then have t: "mx_pc s (consumer s) = M_idle" and s': "s' = ?s (consumer s) (C_poll 0) (mx_own s (consumer s)) []"
      using step by (auto intro!: mr_sys.equality split: if_splits)
    have "mpc_ok s' (consumer s) (C_poll 0)"
      by (simp add: s')
    then show ?thesis
      using t by (intro mx_local [OF inv s']) (auto simp: mx_holds_def)
  next
    case (Mgo t)
    then show ?thesis
      using step mx_inv_next [OF inv] by simp
  next
    case Mret
    then have t: "mx_pc s (consumer s) = C_none \<or> (\<exists>q a. mx_pc s (consumer s) = C_got q a)"
        and s': "s' = ?s (consumer s) M_idle (mx_own s (consumer s)) []"
      using step by (auto intro!: mr_sys.equality split: mr_pc.splits)
    then show ?thesis
      by (intro mx_local [OF inv s']) (auto simp: mx_holds_def)
  next
    case (Mflush t)
    then show ?thesis
      using step mx_flush [OF inv] by (auto split: list.splits)
  next
    case (Mwrite t n d)
    then have t: "mx_pc s t = M_idle" "n \<in> mx_own s t" and s': "s' = ?s t M_idle (mx_own s t) [St_data n d]"
      using step by (auto intro!: mr_sys.equality split: if_splits)
    then show ?thesis
      by (intro mx_local [OF inv s']) (auto simp: mx_holds_def)
  next
    case (Mhand t u n)
    then show ?thesis
      using step mx_hand [OF inv, of t u n] by (auto simp: quiet_def split: if_splits)
  qed
qed

lemma mx_inv_start:
  assumes "mpscr_ok h f nss" and "nodes_owned h nss own"
  shows "mx_inv (mx_start h f nss own)"
proof -
  let ?s = "mx_start h f nss own"
  note M = mpscr_okD [OF assms(1)]
  have sel: "mx_f ?s = f" "mx_mem ?s = h" "mx_pc ?s = (\<lambda>_. M_idle)" "mx_buf ?s = (\<lambda>_. [])" "mx_own ?s = own"
      "mx_flight ?s = (\<lambda>_. [])" "mx_popped ?s = (\<lambda>_. [])" "mx_pushed ?s = mx_vals ?s"
      "mx_nodes ?s i = (if i < length nss then nss ! i else [])" "mx_vals ?s i = datas h (tl (mx_nodes ?s i))" for i
    by (simp_all add: mx_start_def Let_def)
  have rep: "queue_rep h (sq_head (mr_fifos f ! i)) (sq_tail (mr_fifos f ! i)) (nss ! i)" if "i < length nss" for i
    using M(4) that by (simp add: queues_ok_def spsc_ok_def)
  have queue: "mx_queue ?s i" if "i < consumer ?s" for i
    using queue_repD [OF rep [of i]] M(2) that shown_chain by (simp add: mx_queue_def sel)
  have nodes: "i = j" if "n \<in> set (nss ! i)" "n \<in> set (nss ! j)" "i < length nss" "j < length nss" for i j n
    using M(4) that unfolding queues_ok_def by blast
  have own: "t = u" if "n \<in> own t" "n \<in> own u" for t u n
    using assms(2) that unfolding nodes_owned_def by blast
  have cross: "n \<notin> set (nss ! i)" if "n \<in> own t" "i < length nss" for t i n
    using assms(2) that unfolding nodes_owned_def by (meson nth_mem)
  have "apart (mx_region ?s)"
    unfolding apart_def
  proof (intro allI impI)
    fix x y :: "tid + tid"
    assume "x \<noteq> y"
    then show "mx_region ?s x \<inter> mx_region ?s y = {}"
      by (cases x; cases y) (auto simp: mx_region_def mx_holds_def sel dest: nodes own cross split: if_splits)
  qed
  moreover have "n \<noteq> NULL \<and> h n \<noteq> None" if n: "n \<in> mx_region ?s x" for n x
  proof (cases x)
    case (Inl i)
    then have "i < length nss" "n \<in> set (nss ! i)"
      using n by (auto simp: mx_region_def sel split: if_splits)
    then show ?thesis
      using chain_allocated [OF queue_repD(4) [OF rep]] by auto
  next
    case (Inr t)
    then show ?thesis
      using n assms(2) by (auto simp: mx_region_def mx_holds_def sel nodes_owned_def)
  qed
  ultimately show ?thesis
    using M queue unfolding mx_inv_def by (simp add: sel)
qed

interpretation mpscr_tso: invariant mx_init mx_step mx_inv
  by unfold_locales (auto simp: mx_init_def mx_inv_start intro: mx_inv_step)

section \<open>Properties\<close>

lemma shown_length: "shown h b ns vs \<Longrightarrow> length ns = Suc (length vs)"
  by (induction rule: shown.induct) simp_all

text \<open>
  C16. On x86-TSO, under any interleaving of the producers, the consumer and the flushes of their store buffers: what
  was pushed by producer \<open>i\<close> is, in order, what the consumer has read from its queue, what it is about to read, and what the
  queue holds; the node that a pop returns has the data that was read, as the consumer sees it; and no node is in two
  queues, in a queue and with a thread, or with two threads.
\<close>

theorem mpscr_fifo_tso:
  assumes "reach mx_init mx_step s" and "i < consumer s"
  shows "mx_pushed s i = mx_popped s i @ mx_flight s i @ mx_vals s i \<and> length (mx_nodes s i) = Suc (length (mx_vals s i))
    \<and> (mx_pc s (consumer s) = M_idle \<longrightarrow> mx_flight s i = [])
    \<and> (\<forall>a. mx_pc s (consumer s) = C_got (of_nat i) a \<longrightarrow>
         mx_popped s i \<noteq> [] \<and> rd_data (mx_view s (consumer s)) a = Some (List.last (mx_popped s i)))
    \<and> apart (mx_region s)"
proof -
  have inv: "mx_inv s"
    by (rule mpscr_tso.reach_inv [OF assms(1)]) simp
  note D = mx_invD [OF inv]
  have "unat (of_nat i :: u64) = i"
    using assms(2) unat_u64_less [of "mr_num_producers (mx_f s)"] by (intro unat_of_nat_u64) linarith
  moreover have "apart (mx_region s)"
    using inv unfolding mx_inv_def by blast
  ultimately show ?thesis
    using D(3) [OF assms(2)] D(11) [of "consumer s"] D(12) [of i]
    by (cases "mx_flight s i = []") (auto simp: mx_queue_def dest: shown_length)
qed

text \<open>
  With no operation in progress and the buffers empty, the struct is as the sequential operations expect it: in
  memory each queue is the chain of its nodes and holds the data pushed and not yet read. So sequential and
  concurrent phases can follow each other.
\<close>

theorem mpscr_fifo_tso_quiescent:
  assumes "reach mx_init mx_step s" and "\<forall>t. mx_pc s t = M_idle \<and> mx_buf s t = []"
  shows "mpscr_ok (mx_mem s) (mx_f s) (List.map (mx_nodes s) [0..<consumer s])
    \<and> (\<forall>i < consumer s. mx_pushed s i = mx_popped s i @ datas (mx_mem s) (tl (mx_nodes s i)))"
proof -
  have inv: "mx_inv s"
    by (rule mpscr_tso.reach_inv [OF assms(1)]) simp
  note D = mx_invD [OF inv]
  have q: "spsc_ok (mx_mem s) (mr_fifos (mx_f s) ! i) (mx_nodes s i) \<and> datas (mx_mem s) (tl (mx_nodes s i)) = mx_vals s i"
    if "i < consumer s" for i
    using D(3) [OF that] D(6) [of NULL i] assms(2) shown_flushed [of "mx_mem s" "[]" "mx_nodes s i" "mx_vals s i"]
    by (auto simp: mx_queue_def spsc_ok_def queue_rep_def)
  moreover have "mx_flight s i = []" for i
    using D(12) [of i] assms(2) by auto
  moreover have "mx_pushed s i = mx_popped s i @ mx_flight s i @ mx_vals s i" if "i < consumer s" for i
    using D(3) [OF that] by (simp add: mx_queue_def)
  ultimately show ?thesis
    using D(1,2,5) by (simp add: mpscr_ok_def queues_ok_def unat_gt_0)
qed

text \<open>A poll that finds nothing has seen a queue that is empty, or whose producer's stores have not reached memory.\<close>

lemma mpscr_poll_empty:
  assumes "reach mx_init mx_step s" and "mx_pc s t = C_next i q" and "mx_buf s (unat q) = []"
    and "rd_next (mx_view s t) (sq_head (mr_fifos (mx_f s) ! unat q)) = Some NULL"
  shows "mx_vals s (unat q) = []"
proof -
  have inv: "mx_inv s"
    by (rule mpscr_tso.reach_inv [OF assms(1)]) simp
  note D = mx_invD [OF inv]
  have t: "t = consumer s" and q: "unat q < consumer s"
    using D(11) [of t] assms(2) by (simp_all add: word_less_nat_alt)
  note Q = D(3) [OF q, unfolded mx_queue_def]
  obtain a ns where ns: "mx_nodes s (unat q) = a # ns"
    using Q by (cases "mx_nodes s (unat q)") auto
  then have "a \<notin> mx_holds s t"
    using D(7) [of a t "unat q"] by auto
  then have "quiet (mx_buf s t) a"
    using D(4) [of t] t by (intro mx_quiet [OF inv]) simp_all
  moreover have "rd_next (mx_view s t) a = Some NULL"
    using assms(4) Q ns by simp
  ultimately have a: "rd_next (mx_mem s) a = Some NULL"
    using rd_other(1) view_quiet by metis
  have null: "NULL \<notin> set (a # ns)"
    using D(6) [of NULL "unat q"] ns by auto
  have "shown (mx_mem s) [] (a # ns) (mx_vals s (unat q))"
    using Q ns assms(3) by simp
  then show ?thesis
    by cases (use a null in auto)
qed

text \<open>How many steps of its own a thread needs at most to the end of its operation.\<close>

fun steps_left :: "u64 \<Rightarrow> mr_pc \<Rightarrow> nat" where
  "steps_left n (P_clear _) = 2"
| "steps_left n (P_link _) = 1"
| "steps_left n (C_poll i) = 2 * (unat n - unat i) + 3"
| "steps_left n (C_next i _) = 2 * (unat n - unat i) + 2"
| "steps_left n (C_data _ _ _) = 2"
| "steps_left n (C_store _ _ _) = 1"
| "steps_left n _ = 0"

text \<open>
  C17. The operations are wait-free: a thread in the middle of one can always take its next step, whatever the
  others do, and every step of its own brings the end nearer; \<open>push\<close> takes 2 steps, \<open>trypop\<close> at most
  \<open>2 * num_producers + 3\<close>.
\<close>

theorem mpscr_wait_free:
  assumes "reach mx_init mx_step s" and "0 < steps_left (mr_num_producers (mx_f s)) (mx_pc s t)"
  shows "\<exists>s'. mx_next t s = Some s'
    \<and> steps_left (mr_num_producers (mx_f s')) (mx_pc s' t) < steps_left (mr_num_producers (mx_f s)) (mx_pc s t)"
proof -
  have inv: "mx_inv s"
    by (rule mpscr_tso.reach_inv [OF assms(1)]) simp
  note D = mx_invD [OF inv] and ok = mx_invD(11) [OF inv, of t]
  have rd: "\<exists>x. rd_next (mx_view s u) n = Some x" "\<exists>x. rd_data (mx_view s u) n = Some x" "mx_mem s n \<noteq> None"
    if "n \<in> mx_holds s v \<or> n \<in> set (mx_nodes s i)" for u v n i
  proof -
    show m: "mx_mem s n \<noteq> None"
      using that D(6) [of n i] D(7) [of n v] by blast
    then obtain nd where "mx_view s u n = Some nd"
      using view_alloc [of "mx_buf s u" "mx_mem s" n] by (cases "mx_view s u n") simp_all
    then show "\<exists>x. rd_next (mx_view s u) n = Some x" "\<exists>x. rd_data (mx_view s u) n = Some x"
      by simp_all
  qed
  have ends: "List.hd (mx_nodes s i) \<in> set (mx_nodes s i)" "sq_head (mr_fifos (mx_f s) ! i) \<in> set (mx_nodes s i)"
      "sq_tail (mr_fifos (mx_f s) ! i) \<in> set (mx_nodes s i)" if "i < consumer s" for i
    using D(3) [OF that] by (auto simp: mx_queue_def)
  show ?thesis
  proof (cases "mx_pc s t")
    case (P_clear n)
    then show ?thesis
      using rd(3) [of n t] by (simp add: mx_next_def mx_holds_def)
  next
    case (P_link n)
    then show ?thesis
      using rd(2) [of n t _ t] rd(3) [of _ t t] ends(3) [of t] ok D(2)
      by (auto simp: mx_next_def mx_holds_def fifo_at_def set_fifo_def producer_index Let_def)
  next
    case (C_poll i)
    then show ?thesis
      by (auto simp: mx_next_def Let_def)
  next
    case (C_next i q)
    then have q: "unat q < consumer s" "i < mr_num_producers (mx_f s)"
      using ok by (simp_all add: word_less_nat_alt)
    then have "unat (i + 1) = Suc (unat i)" "unat i < consumer s"
      by (simp_all add: unat_Suc_less word_less_nat_alt)
    moreover obtain m where "rd_next (mx_view s t) (sq_head (mr_fifos (mx_f s) ! unat q)) = Some m"
      using rd(1) [of _ t "unat q" t] ends(2) [OF q(1)] by blast
    ultimately show ?thesis
      using C_next q(1) D(2) by (auto simp: mx_next_def fifo_at_def set_fifo_def Let_def)
  next
    case (C_data q a n)
    then have q: "unat q < consumer s" "n = List.hd (mx_nodes s (unat q))"
      using ok by (simp_all add: word_less_nat_alt)
    moreover obtain d where "rd_data (mx_view s t) n = Some d"
      using rd(2) [of n t "unat q" t] ends(1) [OF q(1)] q(2) by blast
    ultimately show ?thesis
      using C_data by (auto simp: mx_next_def Let_def)
  next
    case (C_store q a d)
    then show ?thesis
      using rd(3) [of a t] by (simp add: mx_next_def mx_holds_def)
  qed (use assms(2) in simp_all)
qed

text \<open>
  Two queues with their dummies at 10 and 20. The consumer polls while the stores of producer 0's push are in its
  buffer and finds nothing; once they are in memory it pops the item, and hands node 10 on.
\<close>

definition mpscr_demo_start :: mr_sys where
  "mpscr_demo_start = mx_start [10 \<mapsto> node_of 0 0, 20 \<mapsto> node_of 0 0, 11 \<mapsto> node_of 5 6, 21 \<mapsto> node_of 8 0]
     \<lparr>mr_counter = 0, mr_num_producers = 2, mr_fifos = [\<lparr>sq_head = 10, sq_tail = 10\<rparr>, \<lparr>sq_head = 20, sq_tail = 20\<rparr>]\<rparr>
     [[10], [20]] (\<lambda>t. if t = 0 then {11} else if t = 1 then {21} else {})"

definition mpscr_demo :: "mr_act list" where
  "mpscr_demo = [Mwrite 0 11 7, Call_mpush 0 11, Mgo 0, Mgo 0, Call_mpush 1 21, Call_mpop] @ replicate 5 (Mgo 2) @ [Mret]
     @ replicate 3 (Mflush 0) @ Call_mpop # replicate 4 (Mgo 2)"

lemma mpscr_demo_init: "mx_init mpscr_demo_start"
  unfolding mx_init_def mpscr_demo_start_def
  by (intro exI conjI, rule _ _ refl)
    (auto simp: mpscr_ok_def queues_ok_def spsc_ok_def queue_rep_def rd_next_def nodes_owned_def All_less_Suc)

lemma mpscr_demo_run:
  "\<exists>s. reach mx_init mx_step s \<and> mx_pc s 0 = M_idle \<and> mx_pc s 1 = P_clear 21 \<and> mx_pc s 2 = C_got 0 10
     \<and> mx_buf s 0 = [] \<and> mx_buf s 1 = [] \<and> mx_buf s 2 = [St_data 10 7] \<and> mx_popped s 0 = [7] \<and> mx_nodes s 0 = [11]
     \<and> mr_num_producers (mx_f s) = 2"
proof -
  have "map_option (\<lambda>s. (mx_pc s 0, mx_pc s 1, mx_pc s 2, mx_buf s 0, mx_buf s 1, mx_buf s 2, mx_popped s 0, mx_nodes s 0,
      mr_num_producers (mx_f s))) (mx_run mpscr_demo mpscr_demo_start)
    = Some (M_idle, P_clear 21, C_got 0 10, [], [], [St_data 10 7], [7], [11], 2)"
    by code_simp
  then obtain s where "mx_run mpscr_demo mpscr_demo_start = Some s" "mx_pc s 0 = M_idle" "mx_pc s 1 = P_clear 21"
      "mx_pc s 2 = C_got 0 10" "mx_buf s 0 = []" "mx_buf s 1 = []" "mx_buf s 2 = [St_data 10 7]" "mx_popped s 0 = [7]"
      "mx_nodes s 0 = [11]" "mr_num_producers (mx_f s) = 2"
    by auto
  moreover from this(1) have "reach mx_init mx_step s"
    by (rule mx_run_reach) (rule reach_init, rule mpscr_demo_init)
  ultimately show ?thesis by blast
qed

theorem mpscr_fifo_tso_witness:
  "\<exists>s. reach mx_init mx_step s \<and> mx_pc s 2 = C_got 0 10 \<and> mx_buf s 2 = [St_data 10 7]
     \<and> rd_data (view (mx_mem s) [St_data 10 7]) 10 = Some 7 \<and> mx_pushed s 0 = [7] @ mx_flight s 0 @ mx_vals s 0"
proof -
  from mpscr_demo_run obtain s where s: "reach mx_init mx_step s" "mx_pc s 2 = C_got 0 10" "mx_buf s 2 = [St_data 10 7]"
      "mx_popped s 0 = [7]" "mr_num_producers (mx_f s) = 2"
    by blast
  from mpscr_fifo_tso [OF s(1), of 0] s show ?thesis by auto
qed

theorem mpscr_fifo_tso_quiescent_witness:
  "reach mx_init mx_step mpscr_demo_start
    \<and> mpscr_ok (mx_mem mpscr_demo_start) (mx_f mpscr_demo_start) (List.map (mx_nodes mpscr_demo_start) [0..<2])"
proof -
  have r: "reach mx_init mx_step mpscr_demo_start"
    by (rule reach_init) (rule mpscr_demo_init)
  have idle: "\<forall>t. mx_pc mpscr_demo_start t = M_idle \<and> mx_buf mpscr_demo_start t = []" "consumer mpscr_demo_start = 2"
    by (simp_all add: mpscr_demo_start_def mx_start_def Let_def)
  from mpscr_fifo_tso_quiescent [OF r idle(1)] idle(2) r show ?thesis by simp
qed

theorem mpscr_wait_free_witness:
  "\<exists>s s'. reach mx_init mx_step s \<and> mx_pc s 1 = P_clear 21 \<and> mx_next 1 s = Some s' \<and> steps_left (mr_num_producers (mx_f s')) (mx_pc s' 1) < 2"
proof -
  from mpscr_demo_run obtain s where s: "reach mx_init mx_step s" "mx_pc s 1 = P_clear 21"
    by blast
  from mpscr_wait_free [OF s(1), of 1] s show ?thesis by auto
qed

end
