(* ===== verification/Dist_Fifo.thy ===== *)
theory Dist_Fifo
  imports Machine_Specific Node_Queue
begin

text \<open>
  \<open>dist_fifo.h\<close>: the queue with one distinguished pusher, as one thread sees it;
  Dist\_Fifo\_Conc interleaves the accesses. The head is the pair of a counter and a node
  pointer, read and swapped as a \<open>pointer_pair_t\<close> (\<open>low\<close> is the counter, \<open>high\<close> the node).
  The nodes are those of \<open>mpsc_fifo.h\<close>.
\<close>

section \<open>The struct and its operations\<close>

record dist_fifo =
  df_head :: pointer_pair
  df_tail :: ptr

definition DIST_FIFO_EMPTY :: ptr where "DIST_FIFO_EMPTY = 0"
definition DIST_FIFO_RETRY :: ptr where "DIST_FIFO_RETRY = - 1"

text \<open>
  \<open>addr\<close> is the struct's own address, \<open>p\<close> what \<open>calloc\<close> returned. The assertions on
  \<open>sizeof\<close> concern the struct layout alone and are not modelled, the one on alignment is.
\<close>

definition dist_fifo_init :: "nat \<Rightarrow> ptr \<Rightarrow> heap \<Rightarrow> ptr \<Rightarrow> (int \<times> heap \<times> dist_fifo) option" where
  "dist_fifo_init sizeof_ptr addr h p = do {
     c_assert (unat addr mod (2 * sizeof_ptr) = 0);
     let h' = calloc_node h p;
     let tail = p;
     let head = \<lparr>pp_low = 0, pp_high = tail\<rparr>;
     Some (if tail = NULL then 0 else 1, h', \<lparr>df_head = head, df_tail = tail\<rparr>)
   }"

definition dist_fifo_destroy :: "heap \<Rightarrow> dist_fifo option \<Rightarrow> heap option" where
  "dist_fifo_destroy h f =
     (case f of None \<Rightarrow> Some h | Some f \<Rightarrow> free_list h (pp_high (df_head f)))"

definition dist_fifo_push :: "heap \<Rightarrow> dist_fifo \<Rightarrow> ptr \<Rightarrow> (heap \<times> dist_fifo) option" where
  "dist_fifo_push h f new_node = do {
     let tail = df_tail f;
     c_assert (new_node \<noteq> NULL);
     h1 \<leftarrow> wr_next h new_node NULL;
     h2 \<leftarrow> wr_next h1 tail new_node;
     Some (h2, f\<lparr>df_tail := new_node\<rparr>)
   }"

text \<open>\<open>a\<close> and \<open>sizeof_ptr\<close> select the branch of \<open>compare_and_swap2\<close> that is compiled.\<close>

definition dist_fifo_trypop ::
  "arch option \<Rightarrow> nat \<Rightarrow> heap \<Rightarrow> dist_fifo \<Rightarrow> (ptr \<times> heap \<times> dist_fifo) option" where
  "dist_fifo_trypop a sizeof_ptr h f = do {
     let old_head = \<lparr>pp_low = pp_low (df_head f), pp_high = pp_high (df_head f)\<rparr>;
     let prev_head = pp_high old_head;
     prev_head_next \<leftarrow> rd_next h prev_head;
     if prev_head_next \<noteq> NULL then do {
       d \<leftarrow> rd_data h prev_head_next;
       let new_head = \<lparr>pp_low = pp_low old_head + 1, pp_high = prev_head_next\<rparr>;
       (case compare_and_swap2 a sizeof_ptr (df_head f) old_head new_head of
          (False, _) \<Rightarrow> Some (DIST_FIFO_RETRY, h, f)
        | (True, head') \<Rightarrow> do {
            h' \<leftarrow> wr_data h prev_head d;
            Some (prev_head, h', f\<lparr>df_head := head'\<rparr>)
          })
     }
     else Some (DIST_FIFO_EMPTY, h, f)
   }"

section \<open>The queue laws\<close>

definition dist_ok :: "heap \<Rightarrow> dist_fifo \<Rightarrow> ptr list \<Rightarrow> bool" where
  [inv_defs]: "dist_ok h f ns = queue_rep h (pp_high (df_head f)) (df_tail f) ns"

lemma dist_push_law:
  assumes "dist_ok h f ns" and "p \<notin> set ns" and "p \<noteq> NULL" and "h p = Some nd"
  shows "\<exists>f'. dist_fifo_push h f p = Some (linked h (List.last ns) p, f')
    \<and> dist_ok (linked h (List.last ns) p) f' (ns @ [p])"
proof -
  have rep: "queue_rep h (pp_high (df_head f)) (df_tail f) ns"
    using assms(1) by (simp add: dist_ok_def)
  obtain nt where "h (df_tail f) = Some nt" "df_tail f \<noteq> p" "df_tail f = List.last ns"
    using queue_rep_ends [OF rep] queue_repD(3) [OF rep] assms(2) by auto
  then show ?thesis
    using assms queue_rep_push [OF rep assms(2-4)]
    by (simp add: dist_fifo_push_def linked_def dist_ok_def)
qed

lemma dist_pop_empty: "dist_ok h f [a] \<Longrightarrow> dist_fifo_trypop ar sz h f = Some (NULL, h, f)"
  using queue_repD(2) queue_rep_empty
  by (fastforce simp: dist_ok_def dist_fifo_trypop_def DIST_FIFO_EMPTY_def)

lemma dist_pop_law:
  assumes "dist_ok h f (a # b # ns)" and "ar = Some ARCH_x86_64 \<or> sz = 4"
  shows "\<exists>f'. dist_fifo_trypop ar sz h f = Some (a, took h a b, f')
    \<and> dist_ok (took h a b) f' (b # ns)"
proof -
  have rep: "queue_rep h a (df_tail f) (a # b # ns)" and head: "pp_high (df_head f) = a"
    using assms queue_repD(2) by (fastforce simp: dist_ok_def)+
  have "\<lparr>pp_low = pp_low (df_head f), pp_high = a\<rparr> = df_head f"
    by (simp flip: head)
  with queue_rep_pop [OF rep] show ?thesis
    by (simp add: dist_fifo_trypop_def compare_and_swap2_x86 [OF assms(2)]
      sync_bool_compare_and_swap_def dist_ok_def head)
qed

interpretation dist: node_queue dist_ok dist_fifo_push
  "dist_fifo_trypop (Some ARCH_x86_64) 8" "\<lambda>h f. dist_fifo_destroy h (Some f)"
proof
  fix h f ns
  assume "dist_ok h f ns"
  then have rep: "queue_rep h (pp_high (df_head f)) (df_tail f) ns"
    by (simp add: dist_ok_def)
  then show "ns \<noteq> [] \<and> distinct ns \<and> chain h ns NULL"
    by (simp add: queue_rep_def)
  show "dist_fifo_destroy h (Some f) = Some (\<lambda>p. if p \<in> set ns then None else h p)"
    using queue_rep_free [OF rep] by (simp add: dist_fifo_destroy_def)
  show "dist_ok h' f ns" if "\<forall>p \<in> set ns. h' p = h p" for h'
    using queue_rep_frame [OF rep that] by (simp add: dist_ok_def)
qed (blast intro: dist_push_law dist_pop_empty dist_pop_law)+

lemma dist_init_ok:
  assumes "p \<noteq> NULL" and "unat addr mod (2 * sz) = 0"
  shows "dist_fifo_init sz addr h p =
      Some (1, calloc_node h p, \<lparr>df_head = \<lparr>pp_low = 0, pp_high = p\<rparr>, df_tail = p\<rparr>)"
    "dist_ok (calloc_node h p) \<lparr>df_head = \<lparr>pp_low = 0, pp_high = p\<rparr>, df_tail = p\<rparr> [p]"
  using assms queue_rep_init [of p h] by (simp_all add: dist_fifo_init_def dist_ok_def)

section \<open>Properties\<close>

text \<open>
  C33. On x86_64, one call after another, the distinguished queue answers every history of
  pushes and pops as a list of values does (a pop that is not disturbed is never told to
  retry), with no invalid access, and the destroy afterwards leaves nothing allocated.
\<close>

theorem dist_fifo_history:
  assumes "p \<noteq> NULL" and "unat addr mod 16 = 0" and "legal_client [p] ops"
  shows "\<exists>h0 f0 h f. dist_fifo_init 8 addr Map.empty p = Some (1, h0, f0)
    \<and> run_client dist_fifo_push (dist_fifo_trypop (Some ARCH_x86_64) 8) h0 f0 ops
        = Some (spec_client [] ops, h, f)
    \<and> dist_fifo_destroy h (Some f) = Some Map.empty"
  using dist.client_no_leak [OF dist_init_ok(2) [where sz = 8 and addr = addr, OF assms(1)] _ assms(3)]
    assms(1,2) by (simp add: dist_init_ok(1) calloc_node_def)

theorem dist_fifo_history_witness:
  "\<exists>h0 f0 h f. dist_fifo_init 8 32 Map.empty 64 = Some (1, h0, f0)
    \<and> run_client dist_fifo_push (dist_fifo_trypop (Some ARCH_x86_64) 8) h0 f0
          [Enq 96 7, Enq 128 8, Deq, Deq, Deq]
        = Some ([Enqueued, Enqueued, Dequeued (Some 7), Dequeued (Some 8), Dequeued None], h, f)
    \<and> dist_fifo_destroy h (Some f) = Some Map.empty"
  using dist_fifo_history [of 64 32 "[Enq 96 7, Enq 128 8, Deq, Deq, Deq]"] by simp

text \<open>
  Where \<open>compare_and_swap2\<close> falls back to a 64-bit compare-and-swap although pointers
  have 8 bytes, it swaps the counter alone: a trypop hands out the dummy node but leaves it the
  head of the queue, so that the next trypop hands out the same node and the same data again.
\<close>

theorem dist_fifo_pops_twice_off_x86_64:
  assumes "dist_ok h f (a # b # ns)" and "ar \<noteq> Some ARCH_x86_64"
  shows "\<exists>h' f' h'' f''. dist_fifo_trypop ar 8 h f = Some (a, h', f')
    \<and> dist_fifo_trypop ar 8 h' f' = Some (a, h'', f'') \<and> rd_data h' a = rd_data h b
    \<and> rd_data h'' a = rd_data h b"
proof -
  have rep: "queue_rep h a (df_tail f) (a # b # ns)" and head: "pp_high (df_head f) = a"
    using assms queue_repD(2) by (fastforce simp: dist_ok_def)+
  obtain na nb where "h a = Some na" "h b = Some nb" "a \<noteq> b" "n_next na = b" "b \<noteq> NULL"
    using queue_rep_ends(1) [OF rep] queue_rep_pop(2-4) [OF rep] queue_repD(5) [OF rep]
    by (auto simp: rd_next_def rd_data_def)
  then show ?thesis
    using assms(2) by (simp add: dist_fifo_trypop_def compare_and_swap2_def head)
qed

theorem dist_fifo_pops_twice_off_x86_64_witness:
  "\<exists>h' f' h'' f''. dist_fifo_trypop None 8 [64 \<mapsto> node_of 0 96, 96 \<mapsto> node_of 7 NULL]
       \<lparr>df_head = \<lparr>pp_low = 0, pp_high = 64\<rparr>, df_tail = 96\<rparr> = Some (64, h', f')
    \<and> dist_fifo_trypop None 8 h' f' = Some (64, h'', f'') \<and> rd_data h'' 64 = Some 7"
proof -
  have "dist_ok [64 \<mapsto> node_of 0 96, 96 \<mapsto> node_of 7 NULL]
      \<lparr>df_head = \<lparr>pp_low = 0, pp_high = 64\<rparr>, df_tail = 96\<rparr> [64, 96]"
    by (simp add: dist_ok_def queue_rep_def rd_next_def)
  from dist_fifo_pops_twice_off_x86_64 [OF this, of None] show ?thesis
    by (auto simp: rd_data_def)
qed

end
