(* ===== verification/Dist_Fifo_Conc.thy ===== *)
theory Dist_Fifo_Conc
  imports Dist_Fifo
begin

text \<open>
  \<open>dist_fifo.h\<close> under one pusher and any number of threads that pop, cut at each access to shared memory: a
  pop reads the counter, the head, its \<open>next\<close> and the next node's data one by one, and then swaps the
  pair. A thread owns the nodes it popped and may write their data, free them and get new ones from
  \<open>malloc\<close>, at addresses that were freed before too; a read of a freed node gives \<open>junk\<close>, and
  \<open>ds_freed_read\<close> remembers it. \<open>ds_nodes\<close>, \<open>ds_pops\<close>, \<open>ds_pushed\<close>, \<open>ds_popped\<close> and \<open>ds_used\<close> are ghost variables: the
  nodes from the head on, the number of pops that took effect, the data of the pushes and of those pops in
  order, and the nodes that have been in the queue. The pusher's stores go to memory at once and in order: on
  x86 they do, seen from the other threads, as if the push took place later.
\<close>

section \<open>Steps\<close>

datatype dist_pc =
    D_idle
  | D_clear ptr
  | D_link ptr
  | D_tail ptr
  | D_counter
  | D_node u64
  | D_next u64 ptr
  | D_data u64 ptr ptr
  | D_cas u64 ptr ptr ptr
  | D_store ptr ptr
  | D_returned ptr

record dist_sys =
  ds_heap :: heap
  ds_fifo :: dist_fifo
  ds_pc :: "tid \<Rightarrow> dist_pc"
  ds_own :: "tid \<Rightarrow> ptr set"
  ds_freed_read :: bool
  ds_nodes :: "ptr list"
  ds_pops :: nat
  ds_pushed :: "ptr list"
  ds_popped :: "ptr list"
  ds_used :: "ptr set"

abbreviation dist_goto :: "dist_sys \<Rightarrow> tid \<Rightarrow> dist_pc \<Rightarrow> dist_sys" where
  "dist_goto s t c \<equiv> s\<lparr>ds_pc := (ds_pc s)(t := c)\<rparr>"

definition read_or :: "ptr \<Rightarrow> ptr option \<Rightarrow> ptr" where
  "read_or junk r = (case r of None \<Rightarrow> junk | Some x \<Rightarrow> x)"

definition dist_next :: "arch option \<Rightarrow> tid \<Rightarrow> ptr \<Rightarrow> dist_sys \<Rightarrow> dist_sys option" where
  "dist_next ar t junk s =
     (case ds_pc s t of
        D_idle \<Rightarrow> None
      | D_clear new_node \<Rightarrow> do {
          h' \<leftarrow> wr_next (ds_heap s) new_node NULL;
          Some ((dist_goto s t (D_link new_node))\<lparr>ds_heap := h'\<rparr>)
        }
      | D_link new_node \<Rightarrow> do {
          h' \<leftarrow> wr_next (ds_heap s) (df_tail (ds_fifo s)) new_node;
          Some ((dist_goto s t (D_tail new_node))\<lparr>ds_heap := h', ds_nodes := ds_nodes s @ [new_node],
            ds_pushed := ds_pushed s @ [n_data (the (ds_heap s new_node))], ds_used := insert new_node (ds_used s)\<rparr>)
        }
      | D_tail new_node \<Rightarrow> Some ((dist_goto s t D_idle)\<lparr>ds_fifo := (ds_fifo s)\<lparr>df_tail := new_node\<rparr>\<rparr>)
      | D_counter \<Rightarrow> Some (dist_goto s t (D_node (pp_low (df_head (ds_fifo s)))))
      | D_node c \<Rightarrow> Some (dist_goto s t (D_next c (pp_high (df_head (ds_fifo s)))))
      | D_next c prev_head \<Rightarrow>
          (let r = rd_next (ds_heap s) prev_head; prev_head_next = read_or junk r
           in Some ((dist_goto s t (if prev_head_next \<noteq> NULL then D_data c prev_head prev_head_next
                else D_returned DIST_FIFO_EMPTY))\<lparr>ds_freed_read := ds_freed_read s \<or> r = None\<rparr>))
      | D_data c prev_head prev_head_next \<Rightarrow>
          (let r = rd_data (ds_heap s) prev_head_next
           in Some ((dist_goto s t (D_cas c prev_head prev_head_next (read_or junk r)))
                \<lparr>ds_freed_read := ds_freed_read s \<or> r = None\<rparr>))
      | D_cas c prev_head prev_head_next d \<Rightarrow>
          (case compare_and_swap2 ar 8 (df_head (ds_fifo s)) \<lparr>pp_low = c, pp_high = prev_head\<rparr>
               \<lparr>pp_low = c + 1, pp_high = prev_head_next\<rparr> of
             (True, head') \<Rightarrow> Some ((dist_goto s t (D_store prev_head d))\<lparr>ds_fifo := (ds_fifo s)\<lparr>df_head := head'\<rparr>,
               ds_nodes := tl (ds_nodes s), ds_pops := Suc (ds_pops s), ds_popped := ds_popped s @ [d]\<rparr>)
           | (False, _) \<Rightarrow> Some (dist_goto s t (D_returned DIST_FIFO_RETRY)))
      | D_store prev_head d \<Rightarrow> do {
          h' \<leftarrow> wr_data (ds_heap s) prev_head d;
          Some ((dist_goto s t (D_returned prev_head))\<lparr>ds_heap := h', ds_own := (ds_own s)(t := insert prev_head (ds_own s t))\<rparr>)
        }
      | D_returned r \<Rightarrow> Some (dist_goto s t D_idle))"

text \<open>
  What can happen next, when \<open>p\<close> is the distinguished thread; \<open>frees\<close> tells whether the program frees nodes
  while the queue is in use.
\<close>

datatype dist_act =
    Call_dpush tid ptr
  | Call_dpop tid
  | Dgo tid ptr
  | Dwrite tid ptr ptr
  | Dmalloc tid ptr node
  | Dfree tid ptr

fun dist_do :: "bool \<Rightarrow> arch option \<Rightarrow> tid \<Rightarrow> dist_act \<Rightarrow> dist_sys \<Rightarrow> dist_sys option" where
  "dist_do frees ar p (Call_dpush t n) s =
     (if t = p \<and> ds_pc s t = D_idle \<and> n \<in> ds_own s t
      then Some ((dist_goto s t (D_clear n))\<lparr>ds_own := (ds_own s)(t := ds_own s t - {n})\<rparr>)
      else None)"
| "dist_do frees ar p (Call_dpop t) s =
     (if ds_pc s t = D_idle then Some (dist_goto s t D_counter) else None)"
| "dist_do frees ar p (Dgo t junk) s = dist_next ar t junk s"
| "dist_do frees ar p (Dwrite t n d) s =
     (if n \<in> ds_own s t then map_option (\<lambda>h'. s\<lparr>ds_heap := h'\<rparr>) (wr_data (ds_heap s) n d) else None)"
| "dist_do frees ar p (Dmalloc t n nd) s =
     (if n \<noteq> NULL \<and> ds_heap s n = None
      then Some (s\<lparr>ds_heap := (ds_heap s)(n \<mapsto> nd), ds_own := (ds_own s)(t := insert n (ds_own s t))\<rparr>)
      else None)"
| "dist_do frees ar p (Dfree t n) s =
     (if frees \<and> n \<in> ds_own s t
      then Some (s\<lparr>ds_heap := (ds_heap s)(n := None), ds_own := (ds_own s)(t := ds_own s t - {n})\<rparr>)
      else None)"

inductive dist_step :: "bool \<Rightarrow> arch option \<Rightarrow> tid \<Rightarrow> dist_sys \<Rightarrow> dist_sys \<Rightarrow> bool" for frees ar p where
  dist_stepI: "dist_do frees ar p a s = Some s' \<Longrightarrow> dist_step frees ar p s s'"

inductive_cases dist_stepE: "dist_step frees ar p s s'"

text \<open>The start: \<open>dist_fifo_init\<close> with the node that \<open>calloc\<close> returned at \<open>d\<close>.\<close>

definition dist_start :: "ptr \<Rightarrow> dist_sys" where
  "dist_start d =
     (case dist_fifo_init 8 0 Map.empty d of
        Some (_, h, f) \<Rightarrow> \<lparr>ds_heap = h, ds_fifo = f, ds_pc = (\<lambda>_. D_idle), ds_own = (\<lambda>_. {}), ds_freed_read = False,
          ds_nodes = [d], ds_pops = 0, ds_pushed = [], ds_popped = [], ds_used = {d}\<rparr>)"

definition dist_init :: "dist_sys \<Rightarrow> bool" where
  "dist_init s \<longleftrightarrow> (\<exists>d. d \<noteq> NULL \<and> s = dist_start d)"

fun dist_run :: "bool \<Rightarrow> arch option \<Rightarrow> tid \<Rightarrow> dist_act list \<Rightarrow> dist_sys \<Rightarrow> dist_sys option" where
  "dist_run frees ar p [] s = Some s"
| "dist_run frees ar p (a # as) s = Option.bind (dist_do frees ar p a s) (dist_run frees ar p as)"

lemma dist_run_reach:
  "dist_run frees ar p as s = Some s' \<Longrightarrow> reach init (dist_step frees ar p) s \<Longrightarrow> reach init (dist_step frees ar p) s'"
proof (induction as arbitrary: s)
  case (Cons a as)
  then obtain s1 where "dist_do frees ar p a s = Some s1" "dist_run frees ar p as s1 = Some s'"
    by (auto split: bind_splits)
  then show ?case
    using Cons reach_step dist_stepI by metis
qed simp

section \<open>The invariant\<close>

fun dist_transit :: "dist_pc \<Rightarrow> ptr set" where
  "dist_transit (D_clear n) = {n}"
| "dist_transit (D_link n) = {n}"
| "dist_transit (D_store n _) = {n}"
| "dist_transit _ = {}"

definition ds_holds :: "dist_sys \<Rightarrow> tid \<Rightarrow> ptr set" where
  "ds_holds s t = ds_own s t \<union> dist_transit (ds_pc s t)"

fun pushing_pc :: "dist_pc \<Rightarrow> bool" where
  "pushing_pc (D_clear _) = True"
| "pushing_pc (D_link _) = True"
| "pushing_pc (D_tail _) = True"
| "pushing_pc _ = False"

fun dpc_ok :: "nat \<Rightarrow> ptr \<Rightarrow> heap \<Rightarrow> dist_pc \<Rightarrow> bool" where
  "dpc_ok m q h (D_link n) \<longleftrightarrow> rd_next h n = Some NULL"
| "dpc_ok m q h (D_node c) \<longleftrightarrow> since m c True"
| "dpc_ok m q h (D_next c hp) \<longleftrightarrow> since m c (q = hp)"
| "dpc_ok m q h (D_data c hp nx) \<longleftrightarrow> since m c (q = hp \<and> nx \<noteq> NULL \<and> rd_next h hp = Some nx)"
| "dpc_ok m q h (D_cas c hp nx d) \<longleftrightarrow> since m c (q = hp \<and> nx \<noteq> NULL \<and> rd_next h hp = Some nx \<and> rd_data h nx = Some d)"
| "dpc_ok m q h _ = True"

fun tail_ok :: "dist_pc \<Rightarrow> ptr \<Rightarrow> ptr \<Rightarrow> bool" where
  "tail_ok (D_tail n) tail l \<longleftrightarrow> n = l"
| "tail_ok _ tail l \<longleftrightarrow> tail = l"

definition dist_queue :: "dist_sys \<Rightarrow> bool" where
  "dist_queue s \<longleftrightarrow> ds_nodes s \<noteq> [] \<and> distinct (ds_nodes s) \<and> chain (ds_heap s) (ds_nodes s) NULL
     \<and> df_head (ds_fifo s) = \<lparr>pp_low = of_nat (ds_pops s), pp_high = List.hd (ds_nodes s)\<rparr>
     \<and> ds_pushed s = ds_popped s @ datas (ds_heap s) (tl (ds_nodes s))"

definition dist_inv :: "tid \<Rightarrow> dist_sys \<Rightarrow> bool" where
  "dist_inv p s \<longleftrightarrow> dist_queue s \<and> tail_ok (ds_pc s p) (df_tail (ds_fifo s)) (List.last (ds_nodes s))
     \<and> (\<forall>t. \<forall>n \<in> ds_holds s t. n \<noteq> NULL \<and> ds_heap s n \<noteq> None \<and> n \<notin> set (ds_nodes s))
     \<and> (\<forall>t u. t \<noteq> u \<longrightarrow> ds_holds s t \<inter> ds_holds s u = {})
     \<and> (\<forall>t. ds_own s t \<inter> dist_transit (ds_pc s t) = {})
     \<and> (\<forall>t. dpc_ok (ds_pops s) (List.hd (ds_nodes s)) (ds_heap s) (ds_pc s t))
     \<and> (\<forall>t. pushing_pc (ds_pc s t) \<longrightarrow> t = p)"

lemma dist_invD:
  assumes "dist_inv p s"
  shows "dist_queue s" "tail_ok (ds_pc s p) (df_tail (ds_fifo s)) (List.last (ds_nodes s))"
    "n \<in> ds_holds s t \<Longrightarrow> n \<noteq> NULL \<and> n \<notin> set (ds_nodes s) \<and> (\<exists>nd. ds_heap s n = Some nd)"
    "t \<noteq> u \<Longrightarrow> ds_holds s t \<inter> ds_holds s u = {}"
    "ds_own s t \<inter> dist_transit (ds_pc s t) = {}"
    "dpc_ok (ds_pops s) (List.hd (ds_nodes s)) (ds_heap s) (ds_pc s t)"
    "pushing_pc (ds_pc s t) \<Longrightarrow> t = p"
  using assms by (auto simp: dist_inv_def)

lemma dist_queueD:
  assumes "dist_queue s"
  shows "ds_nodes s \<noteq> []" "distinct (ds_nodes s)" "chain (ds_heap s) (ds_nodes s) NULL"
    "df_head (ds_fifo s) = \<lparr>pp_low = of_nat (ds_pops s), pp_high = List.hd (ds_nodes s)\<rparr>"
    "ds_pushed s = ds_popped s @ datas (ds_heap s) (tl (ds_nodes s))"
    "n \<in> set (ds_nodes s) \<Longrightarrow> n \<noteq> NULL \<and> (\<exists>nd. ds_heap s n = Some nd)"
  using assms chain_allocated [of "ds_heap s" "ds_nodes s" NULL n] by (auto simp: dist_queue_def)

lemma dpc_ok_swap:
  assumes "dpc_ok m q h c" and "\<forall>n \<in> dist_transit c. h' n = h n"
  shows "dpc_ok (Suc m) q' h' c"
  using assms by (cases c) (auto simp: rd_next_def intro: since_later)

lemma dpc_ok_frame:
  assumes "dpc_ok m q h c" and "\<forall>n \<in> dist_transit c. h' n = h n"
    and "\<forall>nx. nx \<noteq> NULL \<longrightarrow> rd_next h q = Some nx \<longrightarrow> rd_next h' q = Some nx \<and> rd_data h' nx = rd_data h nx"
  shows "dpc_ok m q h' c"
  using assms by (cases c) (auto simp: rd_next_def elim!: since_mono)

lemma chain_second: "chain h ns NULL \<Longrightarrow> ns \<noteq> [] \<Longrightarrow> rd_next h (List.hd ns) = Some q \<Longrightarrow> q \<noteq> NULL \<Longrightarrow> q \<in> set ns"
  by (cases ns; cases "tl ns") auto

text \<open>A write to a node that is not in the queue and not being pushed or popped says nothing new.\<close>

lemma dpc_ok_other:
  assumes inv: "dist_inv p s" and n: "n \<notin> set (ds_nodes s)" "n \<notin> dist_transit (ds_pc s t)"
  shows "dpc_ok (ds_pops s) (List.hd (ds_nodes s)) ((ds_heap s)(n := x)) (ds_pc s t)"
proof (rule dpc_ok_frame [OF dist_invD(6) [OF inv]])
  note Q = dist_queueD [OF dist_invD(1) [OF inv]]
  show "\<forall>nx. nx \<noteq> NULL \<longrightarrow> rd_next (ds_heap s) (List.hd (ds_nodes s)) = Some nx \<longrightarrow>
      rd_next ((ds_heap s)(n := x)) (List.hd (ds_nodes s)) = Some nx \<and> rd_data ((ds_heap s)(n := x)) nx = rd_data (ds_heap s) nx"
    using n(1) chain_second [OF Q(3,1)] Q(1) by (auto simp: rd_next_def rd_data_def)
qed (use n(2) in auto)

lemma dpc_ok_own:
  assumes "dist_inv p s" and "n \<in> ds_own s t"
  shows "dpc_ok (ds_pops s) (List.hd (ds_nodes s)) ((ds_heap s)(n := x)) (ds_pc s t)"
  using dist_invD(3) [OF assms(1), of n t] dist_invD(5) [OF assms(1), of t] assms(2)
  by (intro dpc_ok_other [OF assms(1)]) (auto simp: ds_holds_def)

lemma dpc_ok_new:
  assumes "dist_inv p s" and "ds_heap s n = None"
  shows "dpc_ok (ds_pops s) (List.hd (ds_nodes s)) ((ds_heap s)(n := x)) (ds_pc s t)"
  using dist_invD(3) [OF assms(1), of n t] dist_queueD(6) [OF dist_invD(1) [OF assms(1)], of n] assms(2)
  by (intro dpc_ok_other [OF assms(1)]) (auto simp: ds_holds_def)

text \<open>One thread moves.\<close>

lemma dist_move:
  assumes inv: "dist_inv p s"
    and others: "\<forall>u. u \<noteq> t \<longrightarrow> ds_own s' u = ds_own s u \<and> ds_pc s' u = ds_pc s u"
    and queue: "dist_queue s'" "tail_ok (ds_pc s' p) (df_tail (ds_fifo s')) (List.last (ds_nodes s'))"
    and heap: "\<forall>n. n \<notin> ds_holds s t \<longrightarrow> n \<notin> set (ds_nodes s) \<longrightarrow> ds_heap s n \<noteq> None \<longrightarrow> ds_heap s' n = ds_heap s n"
    and kept: "\<forall>n \<in> set (ds_nodes s). rd_data (ds_heap s') n = rd_data (ds_heap s) n
      \<and> (\<forall>q. q \<noteq> NULL \<longrightarrow> rd_next (ds_heap s) n = Some q \<longrightarrow> rd_next (ds_heap s') n = Some q)"
    and nodes: "ds_holds s' t \<union> set (ds_nodes s') \<subseteq> ds_holds s t \<union> set (ds_nodes s) \<union> {n. ds_heap s n = None}"
    and mine: "\<forall>n \<in> ds_holds s' t. n \<noteq> NULL \<and> ds_heap s' n \<noteq> None \<and> n \<notin> set (ds_nodes s')"
      "ds_own s' t \<inter> dist_transit (ds_pc s' t) = {}"
    and pc: "dpc_ok (ds_pops s') (List.hd (ds_nodes s')) (ds_heap s') (ds_pc s' t)" "pushing_pc (ds_pc s' t) \<Longrightarrow> t = p"
    and pops: "ds_pops s' = Suc (ds_pops s) \<or> ds_pops s' = ds_pops s \<and> List.hd (ds_nodes s') = List.hd (ds_nodes s)"
  shows "dist_inv p s'"
proof -
  note D = dist_invD [OF inv] and Q = dist_queueD [OF dist_invD(1) [OF inv]]
  have held: "ds_holds s' u = ds_holds s u" if "u \<noteq> t" for u
    using others that by (simp add: ds_holds_def)
  have away: "n \<notin> ds_holds s' t" "n \<notin> set (ds_nodes s')" "n \<noteq> NULL" "ds_heap s' n \<noteq> None" "ds_heap s' n = ds_heap s n"
    if "u \<noteq> t" "n \<in> ds_holds s u" for u n
  proof -
    have "n \<notin> ds_holds s t" "n \<notin> set (ds_nodes s)" "n \<noteq> NULL" "ds_heap s n \<noteq> None"
      using D(3) [OF that(2)] D(4) [OF that(1)] that(2) by auto
    then show "n \<notin> ds_holds s' t" "n \<notin> set (ds_nodes s')" "n \<noteq> NULL" "ds_heap s' n \<noteq> None" "ds_heap s' n = ds_heap s n"
      using nodes heap by auto
  qed
  show ?thesis
    unfolding dist_inv_def
  proof (intro conjI allI ballI impI)
    fix u n
    assume n: "n \<in> ds_holds s' u"
    then show "n \<noteq> NULL" "ds_heap s' n \<noteq> None" "n \<notin> set (ds_nodes s')"
      using away [of u n] mine held [of u] by (cases "u = t"; auto)+
  next
    fix u v :: tid
    assume "u \<noteq> v"
    then show "ds_holds s' u \<inter> ds_holds s' v = {}"
      using D(4) [of u v] held away(1) by (cases "u = t"; cases "v = t") auto
  next
    fix u
    show "ds_own s' u \<inter> dist_transit (ds_pc s' u) = {}"
      using D(5) [of u] others mine(2) by (cases "u = t") simp_all
    show "u = p" if "pushing_pc (ds_pc s' u)"
      using that D(7) [of u] others pc(2) by (cases "u = t") simp_all
    show "dpc_ok (ds_pops s') (List.hd (ds_nodes s')) (ds_heap s') (ds_pc s' u)"
    proof (cases "u = t")
      case False
      have same: "\<forall>n \<in> dist_transit (ds_pc s u). ds_heap s' n = ds_heap s n"
        using away(5) [OF False] by (simp add: ds_holds_def)
      have "rd_next (ds_heap s') q = Some nx \<and> rd_data (ds_heap s') nx = rd_data (ds_heap s) nx"
        if "q = List.hd (ds_nodes s)" "nx \<noteq> NULL" "rd_next (ds_heap s) q = Some nx" for q nx
        using kept that chain_second [OF Q(3,1)] Q(1) by auto
      then show ?thesis
        using pops dpc_ok_swap [OF D(6) same] dpc_ok_frame [OF D(6) same] others False by auto
    qed (simp add: pc)
  qed (use queue in simp_all)
qed

text \<open>The same when the queue stays as it is.\<close>

lemma dist_local:
  assumes inv: "dist_inv p s"
    and "\<forall>u. u \<noteq> t \<longrightarrow> ds_own s' u = ds_own s u \<and> ds_pc s' u = ds_pc s u"
    and heap: "\<forall>n. n \<notin> ds_holds s t \<longrightarrow> ds_heap s n \<noteq> None \<longrightarrow> ds_heap s' n = ds_heap s n"
    and holds: "ds_holds s' t \<subseteq> ds_holds s t \<union> {n. ds_heap s n = None}"
    and "\<forall>n \<in> ds_holds s' t. n \<noteq> NULL \<and> ds_heap s' n \<noteq> None"
    and "ds_own s' t \<inter> dist_transit (ds_pc s' t) = {}"
    and "dpc_ok (ds_pops s) (List.hd (ds_nodes s)) (ds_heap s') (ds_pc s' t)" "pushing_pc (ds_pc s' t) \<Longrightarrow> t = p"
    and tail: "tail_ok (ds_pc s' p) (df_tail (ds_fifo s')) (List.last (ds_nodes s))"
    and same: "df_head (ds_fifo s') = df_head (ds_fifo s)" "ds_nodes s' = ds_nodes s" "ds_pops s' = ds_pops s"
      "ds_pushed s' = ds_pushed s" "ds_popped s' = ds_popped s"
  shows "dist_inv p s'"
proof -
  note D = dist_invD [OF inv] and Q = dist_queueD [OF dist_invD(1) [OF inv]]
  have eq: "ds_heap s' n = ds_heap s n" if "n \<in> set (ds_nodes s)" for n
    using heap D(3) [of n t] Q(6) [OF that] that by auto
  have "chain (ds_heap s') (ds_nodes s) NULL"
    using Q(3) eq chain_frame [of "ds_nodes s" "ds_heap s'" "ds_heap s" NULL] by (simp add: rd_next_def)
  moreover have "datas (ds_heap s') (tl (ds_nodes s)) = datas (ds_heap s) (tl (ds_nodes s))"
    using eq Q(1) by (auto simp: datas_def dest: list.set_sel(2))
  ultimately have "dist_queue s'"
    using Q(1,2,4,5) same by (simp add: dist_queue_def)
  moreover have "\<forall>n \<in> ds_holds s' t. n \<notin> set (ds_nodes s)"
    using holds D(3) [of _ t] Q(6) by fastforce
  ultimately show ?thesis
    using assms eq by (intro dist_move [OF inv, of t]) (auto simp: rd_next_def rd_data_def)
qed


section \<open>The steps\<close>

lemma dist_inv_link:
  assumes inv: "dist_inv p s" and pc: "ds_pc s t = D_link n"
    and s': "s' = (dist_goto s t (D_tail n))\<lparr>ds_heap := h', ds_nodes := ds_nodes s @ [n],
      ds_pushed := ds_pushed s @ [n_data (the (ds_heap s n))], ds_used := insert n (ds_used s)\<rparr>"
    and h': "wr_next (ds_heap s) (df_tail (ds_fifo s)) n = Some h'"
  shows "dist_inv p s'"
proof (rule dist_move [OF inv, of t])
  note D = dist_invD [OF inv] and Q = dist_queueD [OF dist_invD(1) [OF inv]]
  have t: "t = p"
    using D(7) [of t] pc by simp
  have tail: "df_tail (ds_fifo s) = List.last (ds_nodes s)"
    using D(2) pc t by simp
  obtain ns where ns: "ds_nodes s = ns @ [List.last (ds_nodes s)]"
    using Q(1) by (metis append_butlast_last_id)
  define l where "l = List.last (ds_nodes s)"
  note ns = ns [folded l_def] and tail = tail [folded l_def]
  obtain nl where nl: "ds_heap s l = Some nl"
    using Q(6) [of l] ns by auto
  have heap: "ds_heap s' = (ds_heap s)(l \<mapsto> nl\<lparr>n_next := n\<rparr>)"
    using h' nl tail by (simp add: s')
  have hn: "n \<in> ds_holds s t"
    using pc by (simp add: ds_holds_def)
  have n: "n \<noteq> NULL" "n \<notin> set (ds_nodes s)" "ds_heap s n \<noteq> None" "rd_next (ds_heap s) n = Some NULL" "n \<notin> ds_own s t"
    using D(3) [OF hn] D(5,6) [of t] pc by auto
  have nl': "n \<noteq> l" "n \<notin> set ns" "l \<notin> set ns"
    using n(2) Q(2) ns by auto
  have st': "ds_nodes s' = ds_nodes s @ [n]" "ds_popped s' = ds_popped s" "ds_fifo s' = ds_fifo s" "ds_pops s' = ds_pops s"
      "ds_pushed s' = ds_pushed s @ [n_data (the (ds_heap s n))]"
    by (simp_all add: s')
  have "chain (ds_heap s') (ds_nodes s @ [n]) NULL"
    using Q(3) n nl' nl ns by (simp add: heap rd_next_def)
  moreover have "datas (ds_heap s') (tl (ds_nodes s @ [n])) = datas (ds_heap s) (tl (ds_nodes s)) @ [n_data (the (ds_heap s n))]"
    using Q(1) nl nl'(1) by (simp add: heap datas_def)
  ultimately show "dist_queue s'"
    using Q n(2) by (simp add: dist_queue_def st')
  show "tail_ok (ds_pc s' p) (df_tail (ds_fifo s')) (List.last (ds_nodes s'))"
    by (simp add: s' t)
  show "\<forall>m. m \<notin> ds_holds s t \<longrightarrow> m \<notin> set (ds_nodes s) \<longrightarrow> ds_heap s m \<noteq> None \<longrightarrow> ds_heap s' m = ds_heap s m"
    using ns unfolding heap by (metis fun_upd_other in_set_conv_decomp)
  show "\<forall>m \<in> set (ds_nodes s). rd_data (ds_heap s') m = rd_data (ds_heap s) m
      \<and> (\<forall>q. q \<noteq> NULL \<longrightarrow> rd_next (ds_heap s) m = Some q \<longrightarrow> rd_next (ds_heap s') m = Some q)"
    using nl Q(3) ns by (subst (asm) ns) (auto simp: heap rd_next_def rd_data_def)
  have own: "ds_holds s' t = ds_own s t"
    by (simp add: ds_holds_def s')
  then show "ds_holds s' t \<union> set (ds_nodes s') \<subseteq> ds_holds s t \<union> set (ds_nodes s) \<union> {n. ds_heap s n = None}"
    using hn by (auto simp: st' ds_holds_def)
  show "\<forall>m \<in> ds_holds s' t. m \<noteq> NULL \<and> ds_heap s' m \<noteq> None \<and> m \<notin> set (ds_nodes s')"
    unfolding own st' using D(3) [of _ t] n(5) by (auto simp: heap ds_holds_def)
  show "pushing_pc (ds_pc s' t) \<Longrightarrow> t = p"
    by (rule t)
  show "ds_pops s' = Suc (ds_pops s) \<or> ds_pops s' = ds_pops s \<and> List.hd (ds_nodes s') = List.hd (ds_nodes s)"
    using Q(1) by (simp add: st')
qed (simp_all add: s')

lemma dist_inv_take:
  assumes inv: "dist_inv p s" and pc: "ds_pc s t = D_cas c hp nx d" and bound: "ds_pops s < 2 ^ 64"
    and eq: "df_head (ds_fifo s) = \<lparr>pp_low = c, pp_high = hp\<rparr>"
    and s': "s' = (dist_goto s t (D_store hp d))\<lparr>ds_fifo := (ds_fifo s)\<lparr>df_head := \<lparr>pp_low = c + 1, pp_high = nx\<rparr>\<rparr>,
      ds_nodes := tl (ds_nodes s), ds_pops := Suc (ds_pops s), ds_popped := ds_popped s @ [d]\<rparr>"
  shows "dist_inv p s'"
proof (rule dist_move [OF inv, of t])
  note D = dist_invD [OF inv] and Q = dist_queueD [OF dist_invD(1) [OF inv]]
  have c: "c = of_nat (ds_pops s)" "List.hd (ds_nodes s) = hp"
    using eq Q(4) by simp_all
  have nxt: "nx \<noteq> NULL" "rd_next (ds_heap s) hp = Some nx" "rd_data (ds_heap s) nx = Some d"
    using D(6) [of t] pc since_now [OF bound] c by auto
  obtain ns where ns: "ds_nodes s = hp # nx # ns"
    using Q(1,3) c(2) nxt(1,2) by (cases "ds_nodes s"; cases "tl (ds_nodes s)") auto
  have st': "ds_nodes s' = nx # ns" "ds_heap s' = ds_heap s"
    by (simp_all add: s' ns)
  have "n_data (the (ds_heap s nx)) = d"
    using nxt(3) by (auto simp: rd_data_def)
  then show "dist_queue s'"
    using Q c ns unfolding dist_queue_def st' by (simp add: s')
  have pushed: "\<not> pushing_pc (ds_pc s t)" "ds_pc s' p = (if t = p then D_store hp d else ds_pc s p)"
    using pc by (simp_all add: s')
  show "tail_ok (ds_pc s' p) (df_tail (ds_fifo s')) (List.last (ds_nodes s'))"
    using D(2) ns pc by (cases "t = p") (simp_all add: s')
  have own: "ds_holds s' t = insert hp (ds_own s t)"
    by (simp add: ds_holds_def s')
  have hp: "hp \<noteq> NULL" "ds_heap s hp \<noteq> None" "hp \<noteq> nx" "hp \<notin> set ns"
    using Q(2,6) ns by auto
  have mine: "m \<noteq> NULL \<and> m \<notin> set (ds_nodes s) \<and> ds_heap s m \<noteq> None" if "m \<in> ds_own s t" for m
    using D(3) [of m t] that by (auto simp: ds_holds_def)
  show "ds_holds s' t \<union> set (ds_nodes s') \<subseteq> ds_holds s t \<union> set (ds_nodes s) \<union> {n. ds_heap s n = None}"
    unfolding own st' using ns by (auto simp: ds_holds_def)
  show "\<forall>m \<in> ds_holds s' t. m \<noteq> NULL \<and> ds_heap s' m \<noteq> None \<and> m \<notin> set (ds_nodes s')"
    unfolding own st' using mine hp ns by auto
  show "ds_own s' t \<inter> dist_transit (ds_pc s' t) = {}"
    using mine [of hp] ns by (auto simp: s')
qed (simp_all add: s')

text \<open>A step of a pop that moves on.\<close>

lemma dist_inv_goto:
  assumes inv: "dist_inv p s" and "dist_transit c = {}" "dist_transit (ds_pc s t) = {}"
    and "\<not> pushing_pc c" "\<not> pushing_pc (ds_pc s t)"
    and "dpc_ok (ds_pops s) (List.hd (ds_nodes s)) (ds_heap s) c"
  shows "dist_inv p ((dist_goto s t c)\<lparr>ds_freed_read := b\<rparr>)"
proof -
  note D = dist_invD [OF inv]
  have "tail_ok (if t = p then c else ds_pc s p) (df_tail (ds_fifo s)) (List.last (ds_nodes s))"
    using D(2) assms(4,5) by (cases c; cases "ds_pc s t") auto
  moreover have "\<forall>m \<in> ds_own s t. m \<noteq> NULL \<and> ds_heap s m \<noteq> None"
    using D(3) [of _ t] by (auto simp: ds_holds_def)
  ultimately show ?thesis
    using assms D(5) [of t] by (intro dist_local [OF inv, of t]) (auto simp: ds_holds_def)
qed

lemma dist_inv_read_next:
  assumes inv: "dist_inv p s" and step: "dist_next (Some ARCH_x86_64) t junk s = Some s'" and D_next: "ds_pc s t = D_next c hp"
  shows "dist_inv p s'"
proof -
  note D = dist_invD [OF inv] and Q = dist_queueD [OF dist_invD(1) [OF inv]]
  let ?nx = "read_or junk (rd_next (ds_heap s) hp)"
  have "rd_next (ds_heap s) (List.hd (ds_nodes s)) \<noteq> None"
    using Q(6) [of "List.hd (ds_nodes s)"] Q(1) by (auto simp: rd_next_def)
  then have ok: "dpc_ok (ds_pops s) (List.hd (ds_nodes s)) (ds_heap s) (D_data c hp ?nx)" if "?nx \<noteq> NULL"
    using D(6) [of t] D_next that by (auto simp: read_or_def elim!: since_mono)
  have "s' = (dist_goto s t (if ?nx \<noteq> NULL then D_data c hp ?nx else D_returned DIST_FIFO_EMPTY))
      \<lparr>ds_freed_read := ds_freed_read s \<or> rd_next (ds_heap s) hp = None\<rparr>"
    using step D_next by (simp add: dist_next_def Let_def)
  then show ?thesis
    using D_next ok by (auto simp del: dpc_ok.simps(4) intro!: dist_inv_goto [OF inv])
qed

lemma dist_inv_read_data:
  assumes inv: "dist_inv p s" and step: "dist_next (Some ARCH_x86_64) t junk s = Some s'" and D_data: "ds_pc s t = D_data c hp nx"
  shows "dist_inv p s'"
proof -
  note D = dist_invD [OF inv] and Q = dist_queueD [OF dist_invD(1) [OF inv]]
  let ?d = "read_or junk (rd_data (ds_heap s) nx)"
  have "rd_data (ds_heap s) nx = Some ?d" if "nx \<noteq> NULL" "rd_next (ds_heap s) (List.hd (ds_nodes s)) = Some nx"
    using Q(6) [OF chain_second [OF Q(3,1) that(2,1)]] by (auto simp: rd_data_def read_or_def)
  then have "dpc_ok (ds_pops s) (List.hd (ds_nodes s)) (ds_heap s) (D_cas c hp nx ?d)"
    using D(6) [of t] D_data by (auto elim!: since_mono)
  moreover have "s' = (dist_goto s t (D_cas c hp nx ?d))\<lparr>ds_freed_read := ds_freed_read s \<or> rd_data (ds_heap s) nx = None\<rparr>"
    using step D_data by (simp add: dist_next_def Let_def)
  ultimately show ?thesis
    using D_data by (auto simp del: dpc_ok.simps(5) intro!: dist_inv_goto [OF inv])
qed

lemma dist_inv_cas:
  assumes inv: "dist_inv p s" and step: "dist_next (Some ARCH_x86_64) t junk s = Some s'" and bound: "ds_pops s' < 2 ^ 64" and D_cas: "ds_pc s t = D_cas c hp nx d"
  shows "dist_inv p s'"
proof -
  note D = dist_invD [OF inv] and Q = dist_queueD [OF dist_invD(1) [OF inv]]
  show ?thesis
  proof (cases "df_head (ds_fifo s) = \<lparr>pp_low = c, pp_high = hp\<rparr>")
    case True
    show ?thesis
      by (rule dist_inv_take [OF inv D_cas _ True])
        (use step bound D_cas True in \<open>auto simp: dist_next_def compare_and_swap2_def\<close>)
  next
    case False
    have "dist_inv p ((dist_goto s t (D_returned DIST_FIFO_RETRY))\<lparr>ds_freed_read := ds_freed_read s\<rparr>)"
      using D_cas by (intro dist_inv_goto [OF inv]) simp_all
    then show ?thesis
      using step D_cas False by (auto simp: dist_next_def compare_and_swap2_def)
  qed
qed

lemma dist_inv_next:
  assumes inv: "dist_inv p s" and bound: "ds_pops s' < 2 ^ 64"
    and step: "dist_next (Some ARCH_x86_64) t junk s = Some s'"
  shows "dist_inv p s'"
proof -
  note D = dist_invD [OF inv] and Q = dist_queueD [OF dist_invD(1) [OF inv]]
  have held: "\<forall>m \<in> ds_own s t \<union> dist_transit (ds_pc s t). m \<noteq> NULL \<and> ds_heap s m \<noteq> None"
    using D(3) [of _ t] by (auto simp: ds_holds_def)
  have tail: "tail_ok (ds_pc s p) (df_tail (ds_fifo s)) (List.last (ds_nodes s))"
    by (rule D(2))
  show ?thesis
  proof (cases "ds_pc s t")
    case (D_clear n)
    then obtain nd where nd: "ds_heap s n = Some nd"
      using held by fastforce
    then have "s' = (dist_goto s t (D_link n))\<lparr>ds_heap := (ds_heap s)(n \<mapsto> nd\<lparr>n_next := NULL\<rparr>)\<rparr>"
      using step D_clear by (simp add: dist_next_def)
    then show ?thesis
      using D_clear held D(5,7) [of t] tail
      by (intro dist_local [OF inv, of t]) (auto simp: ds_holds_def rd_next_def)
  next
    case (D_link n)
    then show ?thesis
      using step by (auto simp: dist_next_def split: bind_splits intro: dist_inv_link [OF inv D_link])
  next
    case (D_tail n)
    have "t = p"
      using D(7) [of t] D_tail by simp
    then show ?thesis
      using step D_tail held D(5) [of t] tail
      by (intro dist_local [OF inv, of t]) (auto simp: dist_next_def ds_holds_def)
  next
    case D_counter
    have "dist_inv p ((dist_goto s t (D_node (of_nat (ds_pops s))))\<lparr>ds_freed_read := ds_freed_read s\<rparr>)"
      using D_counter since_new by (intro dist_inv_goto [OF inv]) simp_all
    then show ?thesis
      using step D_counter Q(4) by (auto simp: dist_next_def)
  next
    case (D_node c)
    have "dist_inv p ((dist_goto s t (D_next c (List.hd (ds_nodes s))))\<lparr>ds_freed_read := ds_freed_read s\<rparr>)"
      using D_node D(6) [of t] by (intro dist_inv_goto [OF inv]) simp_all
    then show ?thesis
      using step D_node Q(4) by (auto simp: dist_next_def)
  next
    case (D_next c hp)
    then show ?thesis
      by (rule dist_inv_read_next [OF inv step])
  next
    case (D_data c hp nx)
    then show ?thesis
      by (rule dist_inv_read_data [OF inv step])
  next
    case (D_cas c hp nx d)
    then show ?thesis
      by (rule dist_inv_cas [OF inv step bound])
  next
    case (D_store hp d)
    then obtain nd where nd: "ds_heap s hp = Some nd"
      using held by fastforce
    then have "s' = (dist_goto s t (D_returned hp))\<lparr>ds_heap := (ds_heap s)(hp \<mapsto> nd\<lparr>n_data := d\<rparr>),
        ds_own := (ds_own s)(t := insert hp (ds_own s t))\<rparr>"
      using step D_store by (simp add: dist_next_def)
    then show ?thesis
      using D_store held D(5) [of t] tail by (intro dist_local [OF inv, of t]) (auto simp: ds_holds_def)
  next
    case (D_returned r)
    have "dist_inv p ((dist_goto s t D_idle)\<lparr>ds_freed_read := ds_freed_read s\<rparr>)"
      using D_returned by (intro dist_inv_goto [OF inv]) simp_all
    then show ?thesis
      using step D_returned by (auto simp: dist_next_def)
  qed (use step in \<open>simp add: dist_next_def\<close>)
qed


lemma dist_inv_step:
  assumes inv: "dist_inv p s" and bound: "ds_pops s' < 2 ^ 64" and step: "dist_step frees (Some ARCH_x86_64) p s s'"
  shows "dist_inv p s'"
proof -
  note D = dist_invD [OF inv]
  obtain a where a: "dist_do frees (Some ARCH_x86_64) p a s = Some s'"
    using step by (auto elim: dist_stepE)
  have held: "\<forall>m \<in> ds_own s t \<union> dist_transit (ds_pc s t). m \<noteq> NULL \<and> ds_heap s m \<noteq> None" for t
    using D(3) [of _ t] by (auto simp: ds_holds_def)
  show ?thesis
  proof (cases a)
    case (Call_dpush t n)
    then show ?thesis
      using a held [of t] D(2) D(5) [of t]
      by (intro dist_local [OF inv, of t]) (auto simp: ds_holds_def split: if_splits)
  next
    case (Call_dpop t)
    then show ?thesis
      using a held [of t] D(2) by (intro dist_local [OF inv, of t]) (auto simp: ds_holds_def split: if_splits)
  next
    case (Dgo t junk)
    then show ?thesis
      using a dist_inv_next [OF inv bound] by simp
  next
    case (Dwrite t n d)
    then obtain nd where "n \<in> ds_own s t" "ds_heap s n = Some nd" "s' = s\<lparr>ds_heap := (ds_heap s)(n \<mapsto> nd\<lparr>n_data := d\<rparr>)\<rparr>"
      using a held [of t] by (auto simp: wr_data_def split: if_splits option.splits)
    moreover from this have "dpc_ok (ds_pops s) (List.hd (ds_nodes s)) ((ds_heap s)(n \<mapsto> nd\<lparr>n_data := d\<rparr>)) (ds_pc s t)"
      using dpc_ok_own [OF inv] by simp
    ultimately show ?thesis
      using Dwrite held [of t] D(2) D(5) [of t] D(7) [of t]
      by (intro dist_local [OF inv, of t]) (auto simp: ds_holds_def)
  next
    case (Dmalloc t n nd)
    then have n: "n \<noteq> NULL" "ds_heap s n = None"
        "s' = s\<lparr>ds_heap := (ds_heap s)(n \<mapsto> nd), ds_own := (ds_own s)(t := insert n (ds_own s t))\<rparr>"
      using a by (auto split: if_splits)
    moreover from this have "dpc_ok (ds_pops s) (List.hd (ds_nodes s)) ((ds_heap s)(n \<mapsto> nd)) (ds_pc s t)"
      using dpc_ok_new [OF inv] by simp
    moreover have "n \<notin> dist_transit (ds_pc s t)"
      using held [of t] n(2) by blast
    ultimately show ?thesis
      using Dmalloc held [of t] D(2) D(5) [of t] D(7) [of t]
      by (intro dist_local [OF inv, of t]) (auto simp: ds_holds_def)
  next
    case (Dfree t n)
    then have n: "n \<in> ds_own s t"
        "s' = s\<lparr>ds_heap := (ds_heap s)(n := None), ds_own := (ds_own s)(t := ds_own s t - {n})\<rparr>"
      using a by (auto split: if_splits)
    moreover from this have "dpc_ok (ds_pops s) (List.hd (ds_nodes s)) ((ds_heap s)(n := None)) (ds_pc s t)"
      using dpc_ok_own [OF inv] by simp
    ultimately show ?thesis
      using Dfree held [of t] D(2) D(5) [of t] D(7) [of t]
      by (intro dist_local [OF inv, of t]) (auto simp: ds_holds_def)
  qed
qed


lemma dist_pops_mono: "dist_step frees ar p s s' \<Longrightarrow> ds_pops s \<le> ds_pops s'"
proof (elim dist_stepE)
  fix a assume "dist_do frees ar p a s = Some s'"
  then show ?thesis
    by (cases a) (auto simp: dist_next_def Let_def split: if_splits dist_pc.splits prod.splits bool.splits bind_splits)
qed

lemma dist_start_eq: "d \<noteq> NULL \<Longrightarrow> dist_start d = \<lparr>ds_heap = [d \<mapsto> node_of 0 NULL],
    ds_fifo = \<lparr>df_head = \<lparr>pp_low = 0, pp_high = d\<rparr>, df_tail = d\<rparr>, ds_pc = (\<lambda>_. D_idle), ds_own = (\<lambda>_. {}),
    ds_freed_read = False, ds_nodes = [d], ds_pops = 0, ds_pushed = [], ds_popped = [], ds_used = {d}\<rparr>"
  by (simp add: dist_start_def dist_init_ok(1) calloc_node_def)

lemma dist_inv_start: "d \<noteq> NULL \<Longrightarrow> dist_inv p (dist_start d)"
  by (simp add: dist_start_eq dist_inv_def dist_queue_def ds_holds_def rd_next_def)

text \<open>Nodes that are only reused: what a pop reads is or was in the queue, and so does its \<open>next\<close> lead to such a node.\<close>

fun known :: "ptr set \<Rightarrow> dist_pc \<Rightarrow> bool" where
  "known U (D_next c hp) \<longleftrightarrow> hp \<in> U"
| "known U (D_data c hp nx) \<longleftrightarrow> nx \<in> U"
| "known U _ = True"

definition dist_kept :: "dist_sys \<Rightarrow> bool" where
  "dist_kept s \<longleftrightarrow> \<not> ds_freed_read s \<and> set (ds_nodes s) \<subseteq> ds_used s \<and> (\<forall>t. known (ds_used s) (ds_pc s t))
     \<and> (\<forall>n \<in> ds_used s. \<exists>nd. ds_heap s n = Some nd \<and> (n_next nd = NULL \<or> n_next nd \<in> ds_used s))"

lemma dist_keptD:
  assumes "dist_kept s"
  shows "\<not> ds_freed_read s" "set (ds_nodes s) \<subseteq> ds_used s" "known (ds_used s) (ds_pc s t)"
    "n \<in> ds_used s \<Longrightarrow> \<exists>nd. ds_heap s n = Some nd \<and> (n_next nd = NULL \<or> n_next nd \<in> ds_used s)"
  using assms by (auto simp: dist_kept_def)

lemma known_mono: "known U c \<Longrightarrow> U \<subseteq> V \<Longrightarrow> known V c"
  by (cases c) auto

lemma dist_kept_move:
  assumes kept: "dist_kept s" and "\<not> ds_freed_read s'" and "set (ds_nodes s') \<subseteq> ds_used s'" and used: "ds_used s \<subseteq> ds_used s'"
    and others: "\<forall>u. u \<noteq> t \<longrightarrow> ds_pc s' u = ds_pc s u" and pc: "known (ds_used s') (ds_pc s' t)"
    and "\<forall>n \<in> ds_used s'. \<exists>nd. ds_heap s' n = Some nd \<and> (n_next nd = NULL \<or> n_next nd \<in> ds_used s')"
  shows "dist_kept s'"
proof -
  have "known (ds_used s') (ds_pc s' u)" for u
    using dist_keptD(3) [OF kept, of u] known_mono [OF _ used] others pc by (cases "u = t") auto
  then show ?thesis
    using assms by (simp add: dist_kept_def)
qed

lemma dist_kept_next:
  assumes inv: "dist_inv p s" and kept: "dist_kept s" and step: "dist_next ar t junk s = Some s'"
  shows "dist_kept s'"
proof -
  note K = dist_keptD [OF kept] and Q = dist_queueD [OF dist_invD(1) [OF inv]]
  have head: "pp_high (df_head (ds_fifo s)) \<in> ds_used s"
    using K(2) Q(1,4) by auto
  have tl: "set (tl (ds_nodes s)) \<subseteq> ds_used s"
    using K(2) by (cases "ds_nodes s") auto
  note D = dist_invD [OF inv]
  show ?thesis
  proof (cases "ds_pc s t")
    case (D_clear n)
    then obtain nd where "ds_heap s n = Some nd" "s' = (dist_goto s t (D_link n))\<lparr>ds_heap := (ds_heap s)(n \<mapsto> nd\<lparr>n_next := NULL\<rparr>)\<rparr>"
      using step by (auto simp: dist_next_def wr_next_def split: bind_splits option.splits)
    then show ?thesis
      using K by (intro dist_kept_move [OF kept, of _ t]) auto
  next
    case (D_link n)
    let ?l = "df_tail (ds_fifo s)"
    obtain nl where s': "ds_heap s ?l = Some nl"
        "ds_heap s' = (ds_heap s)(?l \<mapsto> nl\<lparr>n_next := n\<rparr>)" "ds_nodes s' = ds_nodes s @ [n]" "ds_pc s' = (ds_pc s)(t := D_tail n)"
        "ds_used s' = insert n (ds_used s)" "ds_freed_read s' = ds_freed_read s"
      using step D_link by (auto simp: dist_next_def wr_next_def split: bind_splits option.splits)
    have n: "rd_next (ds_heap s) n = Some NULL"
      using D(6) [of t] D_link by simp
    have "\<exists>nd. ds_heap s' m = Some nd \<and> (n_next nd = NULL \<or> n_next nd \<in> ds_used s')" if "m \<in> ds_used s'" for m
      using K(4) [of m] n that s'(1) unfolding s'(2,5) by (auto simp: rd_next_def)
    then show ?thesis
      using K(1-3) s'(3-6) by (intro dist_kept_move [OF kept, of _ t]) auto
  next
    case (D_next c hp)
    then have "hp \<in> ds_used s"
      using K(3) [of t] by simp
    then obtain nd where "ds_heap s hp = Some nd" "n_next nd = NULL \<or> n_next nd \<in> ds_used s"
      using K(4) by blast
    then show ?thesis
      using step D_next K by (intro dist_kept_move [OF kept, of _ t]) (auto simp: dist_next_def Let_def read_or_def)
  next
    case (D_data c hp nx)
    then obtain nd where "ds_heap s nx = Some nd"
      using K(3) [of t] K(4) [of nx] by auto
    then show ?thesis
      using step D_data K by (intro dist_kept_move [OF kept, of _ t]) (auto simp: dist_next_def Let_def read_or_def)
  next
    case (D_cas c hp nx d)
    then show ?thesis
      using step K tl by (intro dist_kept_move [OF kept, of _ t]) (auto simp: dist_next_def split: prod.splits bool.splits)
  next
    case (D_store hp d)
    then obtain nd where "ds_heap s hp = Some nd" "ds_heap s' = (ds_heap s)(hp \<mapsto> nd\<lparr>n_data := d\<rparr>)"
        "ds_nodes s' = ds_nodes s" "ds_used s' = ds_used s" "ds_freed_read s' = ds_freed_read s" "ds_pc s' = (ds_pc s)(t := D_returned hp)"
      using step by (auto simp: dist_next_def wr_data_def split: bind_splits option.splits)
    then show ?thesis
      using K(1,2) K(4) [of hp] K(4) by (intro dist_kept_move [OF kept, of _ t]) auto
  qed (use step K head in \<open>auto simp: dist_next_def intro!: dist_kept_move [OF kept, of _ t]\<close>)
qed

lemma dist_kept_step:
  assumes inv: "dist_inv p s" and kept: "dist_kept s" and step: "dist_step False ar p s s'"
  shows "dist_kept s'"
proof -
  note K = dist_keptD [OF kept]
  obtain a where a: "dist_do False ar p a s = Some s'"
    using step by (auto elim: dist_stepE)
  show ?thesis
  proof (cases a)
    case (Dgo t junk)
    then show ?thesis
      using a dist_kept_next [OF inv kept] by simp
  next
    case (Dwrite t n d)
    then obtain nd where "ds_heap s n = Some nd" "s' = s\<lparr>ds_heap := (ds_heap s)(n \<mapsto> nd\<lparr>n_data := d\<rparr>)\<rparr>"
      using a by (auto simp: wr_data_def split: if_splits option.splits)
    then show ?thesis
      using K(1-3) K(4) [of n] K(4) by (intro dist_kept_move [OF kept, of _ t]) auto
  next
    case (Dmalloc t n nd)
    then have n: "ds_heap s n = None" "s' = s\<lparr>ds_heap := (ds_heap s)(n \<mapsto> nd), ds_own := (ds_own s)(t := insert n (ds_own s t))\<rparr>"
      using a by (auto split: if_splits)
    moreover have "n \<notin> ds_used s"
      using K(4) [of n] n(1) by auto
    ultimately show ?thesis
      using K by (intro dist_kept_move [OF kept, of _ t]) auto
  next
    case (Call_dpush t n)
    then show ?thesis
      using a K by (intro dist_kept_move [OF kept, of _ t]) (auto split: if_splits)
  next
    case (Call_dpop t)
    then show ?thesis
      using a K by (intro dist_kept_move [OF kept, of _ t]) (auto split: if_splits)
  qed (use a in simp)
qed


text \<open>The counter of the pair must not wrap around.\<close>

definition dist_bound :: "dist_sys \<Rightarrow> bool" where
  "dist_bound s \<longleftrightarrow> ds_pops s < 2 ^ 64"

lemma dist_bound_back: "dist_step frees ar p s s' \<Longrightarrow> dist_bound s' \<Longrightarrow> dist_bound s"
  using dist_pops_mono by (fastforce simp: dist_bound_def)

interpretation dist_conc: bounded_invariant dist_init "dist_step frees (Some ARCH_x86_64) p" dist_bound "dist_inv p" for frees p
proof unfold_locales
  show "dist_inv p s" if "dist_init s" for s
    using that dist_inv_start by (auto simp: dist_init_def)
  show "dist_bound s" if "dist_step frees (Some ARCH_x86_64) p s s'" "dist_bound s'" for s s'
    using that by (rule dist_bound_back)
  show "dist_inv p s'" if "dist_inv p s" "dist_bound s'" "dist_step frees (Some ARCH_x86_64) p s s'" for s s'
    using dist_inv_step [OF that(1) _ that(3)] that(2) by (simp add: dist_bound_def)
qed

interpretation dist_reuse: bounded_invariant dist_init "dist_step False (Some ARCH_x86_64) p" dist_bound
  "\<lambda>s. dist_inv p s \<and> dist_kept s" for p
proof unfold_locales
  show "dist_inv p s \<and> dist_kept s" if "dist_init s" for s
    using that dist_inv_start by (auto simp: dist_init_def dist_start_eq dist_kept_def)
  show "dist_bound s" if "dist_step False (Some ARCH_x86_64) p s s'" "dist_bound s'" for s s'
    using that by (rule dist_bound_back)
  show "dist_inv p s' \<and> dist_kept s'"
    if "dist_inv p s \<and> dist_kept s" "dist_bound s'" "dist_step False (Some ARCH_x86_64) p s s'" for s s'
    using that dist_inv_step [of p s s' False] dist_kept_step [of p s "Some ARCH_x86_64" s'] by (simp add: dist_bound_def)
qed

section \<open>Properties\<close>

text \<open>
  C9. Whatever the interleaving of the distinguished thread's pushes with any number of pops, and of the threads'
  writes to, frees and reallocations of the nodes they popped, for fewer than \<open>2 ^ 64\<close> pops: the values pushed are
  those popped, in that order, followed by those in the queue; the list is linked from the head; and no node is in
  the queue and in the hands of a thread, or with two threads.
\<close>

theorem dist_fifo_conc:
  assumes "reach dist_init (dist_step frees (Some ARCH_x86_64) p) s" and "ds_pops s < 2 ^ 64"
  shows "ds_pushed s = ds_popped s @ datas (ds_heap s) (tl (ds_nodes s))
    \<and> chain (ds_heap s) (ds_nodes s) NULL \<and> distinct (ds_nodes s)
    \<and> df_head (ds_fifo s) = \<lparr>pp_low = of_nat (ds_pops s), pp_high = List.hd (ds_nodes s)\<rparr>
    \<and> (\<forall>t. ds_holds s t \<inter> set (ds_nodes s) = {} \<and> (\<forall>u. t \<noteq> u \<longrightarrow> ds_holds s t \<inter> ds_holds s u = {}))"
proof -
  have inv: "dist_inv p s"
    using dist_conc.reach_inv [OF assms(1)] assms(2) by (simp add: dist_bound_def)
  note D = dist_invD [OF inv] and Q = dist_queueD [OF dist_invD(1) [OF inv]]
  show ?thesis
    using Q(2-5) D(3,4) by (intro conjI allI impI) (auto dest: D(3))
qed

text \<open>
  C21. As long as nodes are pushed again but not freed, no pop reads a freed node, although it reads the head, its
  \<open>next\<close> and the next node's data without protection.
\<close>

theorem dist_fifo_no_freed_read:
  assumes "reach dist_init (dist_step False (Some ARCH_x86_64) p) s" and "ds_pops s < 2 ^ 64"
  shows "\<not> ds_freed_read s"
  using dist_reuse.reach_inv [OF assms(1)] assms(2) by (simp add: dist_bound_def dist_kept_def)

text \<open>
  C20. What a pop's answers mean if no other pop took effect since it read the counter: it is told \<open>DIST_FIFO_EMPTY\<close> only
  when the queue is empty, and it is never told \<open>DIST_FIFO_RETRY\<close>. So every retry is due to a pop that took effect.
\<close>

theorem dist_fifo_answers:
  assumes "reach dist_init (dist_step frees (Some ARCH_x86_64) p) s" and "ds_pops s < 2 ^ 64"
    and "dist_next (Some ARCH_x86_64) t junk s = Some s'" and "c = of_nat (ds_pops s)"
  shows "(ds_pc s t = D_next c hp \<and> ds_pc s' t = D_returned DIST_FIFO_EMPTY \<longrightarrow> ds_nodes s = [hp] \<and> ds_pushed s = ds_popped s)
    \<and> (ds_pc s t = D_cas c hp nx d \<longrightarrow> ds_pc s' t = D_store hp d \<and> ds_popped s' = ds_popped s @ [d])"
proof (intro conjI impI)
  have inv: "dist_inv p s"
    using dist_conc.reach_inv [OF assms(1)] assms(2) by (simp add: dist_bound_def)
  note D = dist_invD [OF inv] and Q = dist_queueD [OF dist_invD(1) [OF inv]]
  {
    assume pc: "ds_pc s t = D_next c hp \<and> ds_pc s' t = D_returned DIST_FIFO_EMPTY"
    then have hp: "List.hd (ds_nodes s) = hp"
      using D(6) [of t] since_now [OF assms(2)] assms(4) by simp
    obtain ns where ns: "ds_nodes s = hp # ns"
      using Q(1) hp by (cases "ds_nodes s") auto
    have "rd_next (ds_heap s) hp = Some (chain_start ns NULL)"
      using Q(3) ns by simp
    then have "chain_start ns NULL = NULL"
      using pc assms(3) by (auto simp: dist_next_def Let_def read_or_def split: if_splits)
    then have "ns = []"
      using Q(3) ns chain_start_NULL by auto
    then show "ds_nodes s = [hp]" "ds_pushed s = ds_popped s"
      using ns Q(5) by simp_all
  }
  assume pc: "ds_pc s t = D_cas c hp nx d"
  then have "List.hd (ds_nodes s) = hp"
    using D(6) [of t] since_now [OF assms(2)] assms(4) by simp
  then show "ds_pc s' t = D_store hp d" "ds_popped s' = ds_popped s @ [d]"
    using assms(3,4) pc Q(4) by (auto simp: dist_next_def compare_and_swap2_def)
qed

text \<open>Runs to try the theorems on: thread 0 is the distinguished one.\<close>

definition dist_push_new :: "ptr \<Rightarrow> ptr \<Rightarrow> dist_act list" where
  "dist_push_new n v = [Dmalloc 0 n (node_of v 0), Call_dpush 0 n, Dgo 0 0, Dgo 0 0, Dgo 0 0]"

definition dist_pop :: "tid \<Rightarrow> dist_act list" where
  "dist_pop t = Call_dpop t # replicate 7 (Dgo t 0)"

lemma dist_run_append:
  "dist_run frees ar p (as @ bs) s = Option.bind (dist_run frees ar p as s) (dist_run frees ar p bs)"
  by (induction as arbitrary: s) (auto split: bind_splits)

lemma dist_run_start:
  assumes "map_option f (dist_run frees ar p as (dist_start 8)) = Some c"
  shows "\<exists>s. reach dist_init (dist_step frees ar p) s \<and> dist_run frees ar p as (dist_start 8) = Some s \<and> f s = c"
proof -
  have "dist_init (dist_start 8)"
    unfolding dist_init_def by (intro exI [of _ 8]) simp
  then have "reach dist_init (dist_step frees ar p) (dist_start 8)"
    by (rule reach_init)
  then show ?thesis
    using assms dist_run_reach by blast
qed

theorem dist_fifo_conc_witness:
  "\<exists>s. reach dist_init (dist_step True (Some ARCH_x86_64) 0) s \<and> ds_pushed s = [5, 6] \<and> ds_popped s = [5]
     \<and> ds_pushed s = ds_popped s @ datas (ds_heap s) [24] \<and> df_head (ds_fifo s) = \<lparr>pp_low = 1, pp_high = 16\<rparr>"
proof -
  have "map_option (\<lambda>s. (ds_pushed s, ds_popped s, ds_nodes s, ds_pops s))
      (dist_run True (Some ARCH_x86_64) 0 (dist_push_new 16 5 @ dist_push_new 24 6 @ dist_pop 1 @ [Dfree 1 8]) (dist_start 8))
      = Some ([5, 6], [5], [16, 24], 1)"
    by code_simp
  from dist_run_start [OF this] obtain s where s: "reach dist_init (dist_step True (Some ARCH_x86_64) 0) s"
      "ds_pushed s = [5, 6]" "ds_popped s = [5]" "ds_nodes s = [16, 24]" "ds_pops s = 1"
    by auto
  show ?thesis
    using dist_fifo_conc [OF s(1)] s by (intro exI [of _ s]) simp
qed

theorem dist_fifo_no_freed_read_witness:
  "\<exists>s. reach dist_init (dist_step False (Some ARCH_x86_64) 0) s \<and> ds_popped s = [5] \<and> \<not> ds_freed_read s"
proof -
  have "map_option (\<lambda>s. (ds_popped s, ds_pops s))
      (dist_run False (Some ARCH_x86_64) 0 (dist_push_new 16 5 @ dist_pop 1) (dist_start 8)) = Some ([5], 1)"
    by code_simp
  from dist_run_start [OF this] obtain s where s: "reach dist_init (dist_step False (Some ARCH_x86_64) 0) s"
      "ds_popped s = [5]" "ds_pops s = 1"
    by auto
  show ?thesis
    using dist_fifo_no_freed_read [OF s(1)] s by (intro exI [of _ s]) simp
qed

theorem dist_fifo_answers_witness:
  "\<exists>s s'. reach dist_init (dist_step True (Some ARCH_x86_64) 0) s \<and> dist_next (Some ARCH_x86_64) 1 0 s = Some s'
     \<and> ds_pc s 1 = D_cas 0 8 16 5 \<and> ds_pc s' 1 = D_store 8 5 \<and> ds_popped s' = [5]"
proof -
  have "map_option (\<lambda>s. (ds_pc s 1, ds_popped s, ds_pops s, dist_next (Some ARCH_x86_64) 1 0 s = None))
      (dist_run True (Some ARCH_x86_64) 0 (dist_push_new 16 5 @ take 5 (dist_pop 1)) (dist_start 8)) = Some (D_cas 0 8 16 5, [], 0, False)"
    by code_simp
  from dist_run_start [OF this] obtain s s' where s: "reach dist_init (dist_step True (Some ARCH_x86_64) 0) s"
      "ds_pc s 1 = D_cas 0 8 16 5" "ds_popped s = []" "ds_pops s = 0" "dist_next (Some ARCH_x86_64) 1 0 s = Some s'"
    by auto
  show ?thesis
    using dist_fifo_answers [OF s(1) _ s(5), of 0 8 16 5] s by auto
qed

text \<open>
  C10. The check is needed: a pop can be told \<open>DIST_FIFO_EMPTY\<close> although the queue held an item at every moment since
  its call. Thread 1 has read the head when thread 0 pops that node and pushes it again: its \<open>next\<close> is \<open>NULL\<close>
  because it is the last node now, and \<open>dist_fifo_trypop\<close> does not look at the counter again before it answers.
\<close>

definition dist_race :: "dist_act list" where
  "dist_race = [Call_dpop 1, Dgo 1 0, Dgo 1 0] @ dist_pop 0 @ [Call_dpush 0 8, Dgo 0 0, Dgo 0 0, Dgo 0 0, Dgo 1 0]"

theorem dist_fifo_empty_although_not:
  "\<exists>s. reach dist_init (dist_step False (Some ARCH_x86_64) 0) s \<and> ds_pc s 1 = D_idle
     \<and> list_all (\<lambda>k. map_option (\<lambda>s. tl (ds_nodes s) \<noteq> []) (dist_run False (Some ARCH_x86_64) 0 (take k dist_race) s) = Some True)
         [0..<Suc (length dist_race)]
     \<and> map_option (\<lambda>s. ds_pc s 1) (dist_run False (Some ARCH_x86_64) 0 dist_race s) = Some (D_returned DIST_FIFO_EMPTY)"
proof -
  let ?run = "dist_run False (Some ARCH_x86_64) 0" and ?before = "dist_push_new 16 5 @ dist_push_new 24 6"
  have "map_option (\<lambda>s. ds_pc s 1) (?run ?before (dist_start 8)) = Some D_idle"
    by code_simp
  from dist_run_start [OF this] obtain s where s: "reach dist_init (dist_step False (Some ARCH_x86_64) 0) s"
      "ds_pc s 1 = D_idle" "?run ?before (dist_start 8) = Some s"
    by auto
  have go: "?run as s = ?run (?before @ as) (dist_start 8)" for as
    by (subst dist_run_append) (simp add: s(3))
  have "list_all (\<lambda>k. map_option (\<lambda>s. tl (ds_nodes s) \<noteq> []) (?run (?before @ take k dist_race) (dist_start 8)) = Some True)
      [0..<Suc (length dist_race)]"
    by code_simp
  moreover have "map_option (\<lambda>s. ds_pc s 1) (?run (?before @ dist_race) (dist_start 8)) = Some (D_returned DIST_FIFO_EMPTY)"
    by code_simp
  ultimately show ?thesis
    using s(1,2) unfolding go [symmetric] by blast
qed

end
