(* ===== verification/Mpsc_Fifo.thy ===== *)
theory Mpsc_Fifo
  imports Machine_Specific Node_Queue
begin

text \<open>
  \<open>mpsc_fifo.h\<close>: the multi-producer single-consumer queue as one thread sees it;
  Mpsc\_Fifo\_Conc interleaves the same accesses. A struct argument stands for a pointer that
  passed the \<open>assert(f)\<close>; \<open>mpsc_fifo_destroy\<close> also accepts \<open>NULL\<close>, here \<open>None\<close>.
\<close>

section \<open>The struct and its operations\<close>

record mpsc_fifo =
  mq_head :: ptr
  mq_tail :: ptr

text \<open>\<open>p\<close> is what \<open>calloc\<close> returned; both members are set to it before it is tested.\<close>

definition mpsc_fifo_init :: "heap \<Rightarrow> ptr \<Rightarrow> int \<times> heap \<times> mpsc_fifo" where
  "mpsc_fifo_init h p =
     (let h' = calloc_node h p; tail = p; head = tail
      in (if tail = NULL then 0 else 1, h', \<lparr>mq_head = head, mq_tail = tail\<rparr>))"

definition mpsc_fifo_destroy :: "heap \<Rightarrow> mpsc_fifo option \<Rightarrow> heap option" where
  "mpsc_fifo_destroy h f = (case f of None \<Rightarrow> Some h | Some f \<Rightarrow> free_list h (mq_head f))"

definition mpsc_fifo_push :: "heap \<Rightarrow> mpsc_fifo \<Rightarrow> ptr \<Rightarrow> (heap \<times> mpsc_fifo) option" where
  "mpsc_fifo_push h f new_node = do {
     c_assert (new_node \<noteq> NULL);
     h1 \<leftarrow> wr_next h new_node NULL;
     let (prev_tail, tail') = atomic_exchange_pointer (mq_tail f) new_node;
     let f' = f\<lparr>mq_tail := tail'\<rparr>;
     h2 \<leftarrow> wr_next h1 prev_tail new_node;
     Some (h2, f')
   }"

text \<open>\<open>want\<close>: whether the caller passed a place for the data. \<open>Some\<close> of it is what is written there.\<close>

definition mpsc_fifo_peek :: "heap \<Rightarrow> mpsc_fifo \<Rightarrow> bool \<Rightarrow> (int \<times> ptr option) option" where
  "mpsc_fifo_peek h f want = do {
     let head = mq_head f;
     next \<leftarrow> rd_next h head;
     if next \<noteq> NULL then
       if want then do {
         d \<leftarrow> rd_data h next;
         Some (1, Some d)
       }
       else Some (1, None)
     else Some (0, None)
   }"

definition mpsc_fifo_trypop :: "heap \<Rightarrow> mpsc_fifo \<Rightarrow> (ptr \<times> heap \<times> mpsc_fifo) option" where
  "mpsc_fifo_trypop h f = do {
     let prev_head = mq_head f;
     prev_next \<leftarrow> rd_next h prev_head;
     if prev_next \<noteq> NULL then do {
       let f' = f\<lparr>mq_head := prev_next\<rparr>;
       d \<leftarrow> rd_data h prev_next;
       h' \<leftarrow> wr_data h prev_head d;
       Some (prev_head, h', f')
     }
     else Some (NULL, h, f)
   }"

section \<open>The queue laws\<close>

definition mpsc_ok :: "heap \<Rightarrow> mpsc_fifo \<Rightarrow> ptr list \<Rightarrow> bool" where
  [inv_defs]: "mpsc_ok h f ns = queue_rep h (mq_head f) (mq_tail f) ns"

lemma mpsc_push_law:
  assumes "mpsc_ok h f ns" and "p \<notin> set ns" and "p \<noteq> NULL" and "h p = Some nd"
  shows "\<exists>f'. mpsc_fifo_push h f p = Some (linked h (List.last ns) p, f')
    \<and> mpsc_ok (linked h (List.last ns) p) f' (ns @ [p])"
proof -
  have rep: "queue_rep h (mq_head f) (mq_tail f) ns"
    using assms(1) by (simp add: mpsc_ok_def)
  obtain nt where "h (mq_tail f) = Some nt" "mq_tail f \<noteq> p" "mq_tail f = List.last ns"
    using queue_rep_ends [OF rep] queue_repD(3) [OF rep] assms(2) by auto
  then show ?thesis
    using assms queue_rep_push [OF rep assms(2-4)]
    by (simp add: mpsc_fifo_push_def linked_def mpsc_ok_def atomic_defs)
qed

lemma mpsc_pop_empty: "mpsc_ok h f [a] \<Longrightarrow> mpsc_fifo_trypop h f = Some (NULL, h, f)"
  using queue_repD(2) queue_rep_empty by (fastforce simp: mpsc_ok_def mpsc_fifo_trypop_def)

lemma mpsc_pop_law:
  assumes "mpsc_ok h f (a # b # ns)"
  shows "\<exists>f'. mpsc_fifo_trypop h f = Some (a, took h a b, f') \<and> mpsc_ok (took h a b) f' (b # ns)"
proof -
  have rep: "queue_rep h a (mq_tail f) (a # b # ns)" and head: "mq_head f = a"
    using assms queue_repD(2) by (fastforce simp: mpsc_ok_def)+
  from queue_rep_pop [OF rep] show ?thesis
    by (simp add: mpsc_fifo_trypop_def mpsc_ok_def head)
qed

interpretation mpsc: node_queue mpsc_ok mpsc_fifo_push mpsc_fifo_trypop
  "\<lambda>h f. mpsc_fifo_destroy h (Some f)"
proof
  fix h f ns
  assume "mpsc_ok h f ns"
  then have rep: "queue_rep h (mq_head f) (mq_tail f) ns"
    by (simp add: mpsc_ok_def)
  then show "ns \<noteq> [] \<and> distinct ns \<and> chain h ns NULL"
    by (simp add: queue_rep_def)
  show "mpsc_fifo_destroy h (Some f) = Some (\<lambda>p. if p \<in> set ns then None else h p)"
    using queue_rep_free [OF rep] by (simp add: mpsc_fifo_destroy_def)
  show "mpsc_ok h' f ns" if "\<forall>p \<in> set ns. h' p = h p" for h'
    using queue_rep_frame [OF rep that] by (simp add: mpsc_ok_def)
qed (blast intro: mpsc_push_law mpsc_pop_empty mpsc_pop_law)+

lemma mpsc_init_ok:
  assumes "p \<noteq> NULL"
  shows "mpsc_fifo_init h p = (1, calloc_node h p, \<lparr>mq_head = p, mq_tail = p\<rparr>)"
    "mpsc_ok (calloc_node h p) \<lparr>mq_head = p, mq_tail = p\<rparr> [p]"
  using assms queue_rep_init [of p h] by (simp_all add: mpsc_fifo_init_def mpsc_ok_def)

section \<open>Properties\<close>

text \<open>
  One thread after another, the multi-producer queue answers every history of pushes and
  pops as a list of values does, with no invalid access, and the destroy afterwards leaves
  nothing allocated.
\<close>

theorem mpsc_fifo_history:
  assumes "p \<noteq> NULL" and "legal_client [p] ops"
  shows "\<exists>h f. run_client mpsc_fifo_push mpsc_fifo_trypop
        (calloc_node Map.empty p) (snd (snd (mpsc_fifo_init Map.empty p))) ops
      = Some (spec_client [] ops, h, f)
    \<and> mpsc_fifo_destroy h (Some f) = Some Map.empty"
  using mpsc.client_no_leak [OF mpsc_init_ok(2) [OF assms(1)] _ assms(2)] assms(1)
  by (simp add: mpsc_init_ok(1) calloc_node_def)

theorem mpsc_fifo_history_witness:
  "\<exists>h f. run_client mpsc_fifo_push mpsc_fifo_trypop
        (calloc_node Map.empty 64) (snd (snd (mpsc_fifo_init Map.empty 64)))
        [Enq 96 7, Deq, Deq, Enq 64 8, Deq]
      = Some ([Enqueued, Dequeued (Some 7), Dequeued None, Enqueued, Dequeued (Some 8)], h, f)
    \<and> mpsc_fifo_destroy h (Some f) = Some Map.empty"
  using mpsc_fifo_history [of 64 "[Enq 96 7, Deq, Deq, Enq 64 8, Deq]"] by simp

text \<open>
  \<open>peek\<close> reports what the next pop will return, and whether there is anything to pop, in
  every state of the queue: 1 and the data of the node that the next trypop fills in, or 0
  when the next trypop returns NULL. It changes nothing.
\<close>

theorem mpsc_fifo_peek_correct:
  assumes "mpsc_ok h f ns"
  shows "\<exists>n h' f'. mpsc_fifo_trypop h f = Some (n, h', f')
    \<and> mpsc_fifo_peek h f want =
        Some (if n = NULL then (0, None) else (1, if want then rd_data h' n else None))
    \<and> (n = NULL \<longleftrightarrow> length ns = 1)"
proof -
  consider a where "ns = [a]" | a b ms where "ns = a # b # ms"
    using mpsc.ok_rep [OF assms] by (metis neq_Nil_conv)
  then show ?thesis
  proof cases
    case 1
    then show ?thesis
      using mpsc.pop_empty [of h f a] assms queue_rep_empty [of h a] queue_repD(2) [of h "mq_head f"]
      by (fastforce simp: mpsc_ok_def mpsc_fifo_peek_def)
  next
    case 2
    then have rep: "queue_rep h a (mq_tail f) (a # b # ms)" and head: "mq_head f = a"
      using assms queue_repD(2) by (fastforce simp: mpsc_ok_def)+
    have "a \<noteq> NULL"
      using queue_rep_ends(3) [OF rep] .
    moreover have "rd_data (took h a b) a = Some (n_data (the (h b)))"
      by (simp add: took_def rd_data_def)
    ultimately show ?thesis
      using mpsc.pop_law [of h f a b ms] assms 2 queue_rep_pop(2-4) [OF rep]
      by (auto simp: mpsc_fifo_peek_def head)
  qed
qed

theorem mpsc_fifo_peek_correct_witness:
  "\<exists>n h' f'. mpsc_fifo_trypop [64 \<mapsto> node_of 0 96, 96 \<mapsto> node_of 7 NULL] \<lparr>mq_head = 64, mq_tail = 96\<rparr>
       = Some (n, h', f')
     \<and> mpsc_fifo_peek [64 \<mapsto> node_of 0 96, 96 \<mapsto> node_of 7 NULL] \<lparr>mq_head = 64, mq_tail = 96\<rparr> True
       = Some (1, rd_data h' n)"
proof -
  have "mpsc_ok [64 \<mapsto> node_of 0 96, 96 \<mapsto> node_of 7 NULL] \<lparr>mq_head = 64, mq_tail = 96\<rparr> [64, 96]"
    by (simp add: mpsc_ok_def queue_rep_def rd_next_def)
  from mpsc_fifo_peek_correct [OF this, of True] show ?thesis by auto
qed

end
