(* ===== verification/Work_Queue.thy ===== *)
theory Work_Queue
  imports Mpsc_Fifo
begin

text \<open>
  \<open>work_queue.c\<close>: a multi-producer FIFO with two counters that elect one of the pushing threads
  as the worker. Here are the operations as one thread sees them, where \<open>env i\<close> is what the other threads
  do in iteration \<open>i\<close> of the waiting loop; \<open>Work_Queue_Conc\<close> interleaves them. The \<open>int64_t\<close> counters
  are 64-bit words; they are only added to and compared for equality.
\<close>

section \<open>The struct and its operations\<close>

record work_queue =
  wq_fifo :: mpsc_fifo
  wq_in_count :: u64
  wq_out_count :: u64

definition WORK_QUEUE_START_WORKING :: int where "WORK_QUEUE_START_WORKING = 1"
definition WORK_QUEUE_QUEUED :: int where "WORK_QUEUE_QUEUED = 0"
definition WORK_QUEUE_MORE_WORK :: int where "WORK_QUEUE_MORE_WORK = 1"
definition WORK_QUEUE_EMPTY :: int where "WORK_QUEUE_EMPTY = 0"

lemmas work_queue_codes = WORK_QUEUE_START_WORKING_def WORK_QUEUE_QUEUED_def
  WORK_QUEUE_MORE_WORK_def WORK_QUEUE_EMPTY_def

text \<open>\<open>p\<close> is what \<open>calloc\<close> returned in \<open>mpsc_fifo_init\<close>.\<close>

definition work_queue_init :: "heap \<Rightarrow> ptr \<Rightarrow> int \<times> heap \<times> work_queue" where
  "work_queue_init h p =
     (let (ok, h', f) = mpsc_fifo_init h p;
          wq = \<lparr>wq_fifo = f, wq_in_count = 0, wq_out_count = 0\<rparr>
      in if ok = 0 then (0, h', wq) else (1, h', wq))"

definition work_queue_destroy :: "heap \<Rightarrow> work_queue option \<Rightarrow> heap option" where
  "work_queue_destroy h wq =
     (case wq of None \<Rightarrow> Some h | Some w \<Rightarrow> mpsc_fifo_destroy h (Some (wq_fifo w)))"

definition work_queue_push :: "heap \<Rightarrow> work_queue \<Rightarrow> ptr \<Rightarrow> (int \<times> heap \<times> work_queue) option" where
  "work_queue_push h wq item = do {
     c_assert (item \<noteq> NULL);
     let (in_count, loc) = sync_add_and_fetch (wq_in_count wq) 1;
     let ret = (if in_count = 1 then WORK_QUEUE_START_WORKING else WORK_QUEUE_QUEUED);
     (h', f') \<leftarrow> mpsc_fifo_push h (wq_fifo wq) item;
     Some (ret, h', wq\<lparr>wq_in_count := loc, wq_fifo := f'\<rparr>)
   }"

text \<open>The result has the code, what \<open>*out\<close> holds, the heap and the struct.\<close>

partial_function (option) get_work_loop ::
  "(nat \<Rightarrow> heap \<times> work_queue \<Rightarrow> heap \<times> work_queue) \<Rightarrow> nat \<Rightarrow> heap \<Rightarrow> work_queue
     \<Rightarrow> (int \<times> ptr \<times> heap \<times> work_queue) option" where
  "get_work_loop env i h wq = do {
     (out, h1, f) \<leftarrow> mpsc_fifo_trypop h (wq_fifo wq);
     let wq1 = wq\<lparr>wq_fifo := f\<rparr>;
     if out \<noteq> NULL then
       Some (WORK_QUEUE_MORE_WORK, out, h1, wq1\<lparr>wq_out_count := wq_out_count wq1 + 1\<rparr>)
     else if wq_out_count wq1 = wq_in_count wq1 then do {
       let old_out_count = wq_out_count wq1;
       let (new_in_count, loc) = sync_add_and_fetch (wq_in_count wq1) (- old_out_count);
       let wq2 = wq1\<lparr>wq_out_count := 0, wq_in_count := loc\<rparr>;
       if new_in_count = 0 then Some (WORK_QUEUE_EMPTY, NULL, h1, wq2)
       else let (h2, wq3) = env i (h1, wq2) in get_work_loop env (i + 1) h2 wq3
     }
     else let (h2, wq3) = env i (h1, wq1) in get_work_loop env (i + 1) h2 wq3
   }"

definition work_queue_get_work ::
  "(nat \<Rightarrow> heap \<times> work_queue \<Rightarrow> heap \<times> work_queue) \<Rightarrow> heap \<Rightarrow> work_queue
     \<Rightarrow> (int \<times> ptr \<times> heap \<times> work_queue) option" where
  "work_queue_get_work env h wq = get_work_loop env 0 h wq"

section \<open>The queue laws\<close>

text \<open>\<open>j\<close> items of the current batch have been handed out, the others are in the FIFO.\<close>

definition wq_ok :: "heap \<Rightarrow> work_queue \<Rightarrow> nat \<Rightarrow> ptr list \<Rightarrow> bool" where
  [inv_defs]: "wq_ok h wq j ns \<longleftrightarrow> mpsc_ok h (wq_fifo wq) ns
     \<and> wq_in_count wq = of_nat (j + length (tl ns)) \<and> wq_out_count wq = of_nat j
     \<and> j + length (tl ns) < 2 ^ 64"

lemma of_nat_u64_inj:
  "a < 2 ^ 64 \<Longrightarrow> b < 2 ^ 64 \<Longrightarrow> (of_nat a :: u64) = of_nat b \<longleftrightarrow> a = b"
  by (metis unat_of_nat_u64)

lemma wq_push_law:
  assumes ok: "wq_ok h wq j ns" and p: "p \<notin> set ns" "p \<noteq> NULL" "h p = Some nd"
    and bound: "j + length ns < 2 ^ 64"
  shows "\<exists>wq'. work_queue_push h wq p
      = Some (if j + length (tl ns) = 0 then WORK_QUEUE_START_WORKING else WORK_QUEUE_QUEUED,
          linked h (List.last ns) p, wq')
    \<and> wq_ok (linked h (List.last ns) p) wq' j (ns @ [p])"
proof -
  have fifo: "mpsc_ok h (wq_fifo wq) ns" and ns: "ns \<noteq> []"
    using ok mpsc.ok_rep by (auto simp: wq_ok_def)
  obtain f' where f': "mpsc_fifo_push h (wq_fifo wq) p = Some (linked h (List.last ns) p, f')"
      "mpsc_ok (linked h (List.last ns) p) f' (ns @ [p])"
    using mpsc_push_law [OF fifo p] by blast
  obtain m ms where len: "ns = m # ms"
    using ns by (cases ns) simp_all
  have count: "wq_in_count wq + 1 = of_nat (j + length ns)"
    using ok by (simp add: wq_ok_def len)
  have "(of_nat (j + length ns) :: u64) = of_nat 1 \<longleftrightarrow> j + length ns = 1"
    by (rule of_nat_u64_inj [OF bound]) simp
  then have one: "wq_in_count wq + 1 = 1 \<longleftrightarrow> j + length (tl ns) = 0"
    unfolding count len by simp
  let ?wq = "wq\<lparr>wq_in_count := wq_in_count wq + 1, wq_fifo := f'\<rparr>"
  have "work_queue_push h wq p
      = Some (if j + length (tl ns) = 0 then WORK_QUEUE_START_WORKING else WORK_QUEUE_QUEUED,
          linked h (List.last ns) p, ?wq)"
    using p(2) f'(1) one by (simp only: work_queue_push_def sync_add_and_fetch_def) simp
  moreover have "wq_ok (linked h (List.last ns) p) ?wq j (ns @ [p])"
    using f'(2) count ok bound by (simp add: wq_ok_def len)
  ultimately show ?thesis by blast
qed

lemma wq_get_law:
  assumes ok: "wq_ok h wq j (a # b # ns)"
  shows "\<exists>wq'. work_queue_get_work env h wq = Some (WORK_QUEUE_MORE_WORK, a, took h a b, wq')
    \<and> wq_ok (took h a b) wq' (Suc j) (b # ns)"
proof -
  have fifo: "mpsc_ok h (wq_fifo wq) (a # b # ns)"
    using ok by (simp add: wq_ok_def)
  then have "a \<noteq> NULL"
    using mpsc.ok_alloc [of h "wq_fifo wq" "a # b # ns" a] by simp
  moreover obtain f' where "mpsc_fifo_trypop h (wq_fifo wq) = Some (a, took h a b, f')"
      "mpsc_ok (took h a b) f' (b # ns)"
    using mpsc_pop_law [OF fifo] by blast
  ultimately show ?thesis
    using ok by (simp add: work_queue_get_work_def get_work_loop.simps [of env 0] wq_ok_def)
qed

lemma wq_get_empty:
  assumes ok: "wq_ok h wq j [a]"
  shows "\<exists>wq'. work_queue_get_work env h wq = Some (WORK_QUEUE_EMPTY, NULL, h, wq') \<and> wq_ok h wq' 0 [a]"
  using ok mpsc_pop_empty [of h "wq_fifo wq" a]
  by (simp add: work_queue_get_work_def get_work_loop.simps [of env 0] wq_ok_def sync_add_and_fetch_def)

lemma work_queue_init_ok:
  assumes "p \<noteq> NULL"
  shows "\<exists>h' wq. work_queue_init h p = (1, h', wq) \<and> h' = calloc_node h p \<and> wq_ok h' wq 0 [p]"
  using assms mpsc_init_ok [OF assms, of h] by (simp add: work_queue_init_def wq_ok_def)

section \<open>A client\<close>

datatype work_op = Work_push ptr ptr | Work_get
datatype work_out = Pushed_work int | Got_work "ptr option"

fun run_work :: "heap \<Rightarrow> work_queue \<Rightarrow> work_op list \<Rightarrow> (work_out list \<times> heap \<times> work_queue) option" where
  "run_work h wq [] = Some ([], h, wq)"
| "run_work h wq (Work_push p d # ops) = do {
     h1 \<leftarrow> wr_data (calloc_node h p) p d;
     (r, h2, wq2) \<leftarrow> work_queue_push h1 wq p;
     (outs, res) \<leftarrow> run_work h2 wq2 ops;
     Some (Pushed_work r # outs, res)
   }"
| "run_work h wq (Work_get # ops) = do {
     (r, n, h1, wq1) \<leftarrow> work_queue_get_work (\<lambda>_ s. s) h wq;
     if r = WORK_QUEUE_EMPTY then do {
       (outs, res) \<leftarrow> run_work h1 wq1 ops;
       Some (Got_work None # outs, res)
     }
     else do {
       d \<leftarrow> rd_data h1 n;
       h2 \<leftarrow> free_node h1 n;
       (outs, res) \<leftarrow> run_work h2 wq1 ops;
       Some (Got_work (Some d) # outs, res)
     }
   }"

text \<open>
  The specification: a list of values and the number of values handed out since the queue was
  last found empty. The pusher that finds both zero has to start working.
\<close>

fun spec_work :: "nat \<Rightarrow> ptr list \<Rightarrow> work_op list \<Rightarrow> work_out list" where
  "spec_work j ds [] = []"
| "spec_work j ds (Work_push p d # ops) =
     Pushed_work (if j + length ds = 0 then WORK_QUEUE_START_WORKING else WORK_QUEUE_QUEUED)
       # spec_work j (ds @ [d]) ops"
| "spec_work j [] (Work_get # ops) = Got_work None # spec_work 0 [] ops"
| "spec_work j (d # ds) (Work_get # ops) = Got_work (Some d) # spec_work (Suc j) ds ops"

fun legal_work :: "ptr list \<Rightarrow> work_op list \<Rightarrow> bool" where
  "legal_work ns [] = True"
| "legal_work ns (Work_push p d # ops) \<longleftrightarrow> p \<noteq> NULL \<and> p \<notin> set ns \<and> legal_work (ns @ [p]) ops"
| "legal_work ns (Work_get # ops) = legal_work (if length ns = 1 then ns else tl ns) ops"

lemma run_work_refines:
  assumes "wq_ok h wq j ns" and "dom h = set ns" and "legal_work ns ops" and "j + length ns + length ops < 2 ^ 64"
  shows "\<exists>h' wq' j' ns'. run_work h wq ops = Some (spec_work j (datas h (tl ns)) ops, h', wq')
    \<and> wq_ok h' wq' j' ns' \<and> dom h' = set ns'"
  using assms
proof (induction ops arbitrary: h wq j ns)
  case Nil
  then show ?case by auto
next
  case (Cons op ops)
  have fifo: "mpsc_ok h (wq_fifo wq) ns"
    using Cons.prems(1) by (simp add: wq_ok_def)
  note R = mpsc.ok_rep [OF fifo]
  show ?case
  proof (cases op)
    case (Work_push p d)
    then have p: "p \<noteq> NULL" "p \<notin> set ns" and rest: "legal_work (ns @ [p]) ops"
      using Cons.prems(3) by simp_all
    let ?h = "h(p \<mapsto> node_of d NULL)"
    have "mpsc_ok ?h (wq_fifo wq) ns"
      using mpsc.ok_frame [OF fifo] p(2) by auto
    then have ok1: "wq_ok ?h wq j ns"
      using Cons.prems(1) by (simp add: wq_ok_def)
    obtain wq' where wq': "work_queue_push ?h wq p
        = Some (if j + length (tl ns) = 0 then WORK_QUEUE_START_WORKING else WORK_QUEUE_QUEUED,
            linked ?h (List.last ns) p, wq')"
        "wq_ok (linked ?h (List.last ns) p) wq' j (ns @ [p])"
      using wq_push_law [OF ok1 p(2,1)] Cons.prems(4) by auto
    have enq: "enq_client mpsc_fifo_push h (wq_fifo wq) p d
        = map_option (\<lambda>(_, h', w). (h', wq_fifo w)) (work_queue_push ?h wq p)"
      using p(1) by (simp add: enq_client_def calloc_node_def work_queue_push_def sync_add_and_fetch_def
          split: option.splits) (auto split: option.splits bind_splits)
    obtain h2 q2 where e: "enq_client mpsc_fifo_push h (wq_fifo wq) p d = Some (h2, q2)"
        "dom h2 = set (ns @ [p])" "datas h2 (tl (ns @ [p])) = datas h (tl ns) @ [d]"
      using mpsc.enq_law [OF fifo Cons.prems(2) p] by blast
    have h2: "h2 = linked ?h (List.last ns) p"
      using enq e(1) wq'(1) by simp
    from Cons.IH [OF wq'(2) _ rest] e(2,3) Cons.prems(4) obtain h' w j' ns' where
      "run_work h2 wq' ops = Some (spec_work j (datas h (tl ns) @ [d]) ops, h', w)"
      "wq_ok h' w j' ns'" "dom h' = set ns'"
      unfolding h2 by auto
    then show ?thesis
      using Work_push wq'(1) p(1) unfolding h2 by (auto simp: calloc_node_def)
  next
    case Work_get
    consider a where "ns = [a]" | a b ms where "ns = a # b # ms"
      using R by (metis neq_Nil_conv)
    then show ?thesis
    proof cases
      case 1
      obtain wq' where wq': "work_queue_get_work (\<lambda>_ s. s) h wq = Some (WORK_QUEUE_EMPTY, NULL, h, wq')" "wq_ok h wq' 0 [a]"
        using wq_get_empty [of h wq j a] Cons.prems(1) 1 by blast
      show ?thesis
        using Cons.IH [OF wq'(2)] Cons.prems(2-4) wq'(1) Work_get 1 by fastforce
    next
      case 2
      obtain wq' where wq': "work_queue_get_work (\<lambda>_ s. s) h wq = Some (WORK_QUEUE_MORE_WORK, a, took h a b, wq')"
          "wq_ok (took h a b) wq' (Suc j) (b # ms)"
        using wq_get_law [of h wq j a b ms] Cons.prems(1) 2 by blast
      let ?h = "(took h a b)(a := None)"
      have dist: "a \<notin> set (b # ms)" "a \<noteq> NULL"
        using R 2 by (auto dest: chain_allocated)
      have "wq_ok ?h wq' (Suc j) (b # ms)"
        using wq'(2) dist mpsc.ok_frame [of "took h a b" "wq_fifo wq'" "b # ms" ?h] by (auto simp: wq_ok_def)
      moreover have "dom ?h = set (b # ms)"
        using Cons.prems(2) 2 dist by (auto simp: took_def)
      moreover have "legal_work (b # ms) ops" "Suc j + length (b # ms) + length ops < 2 ^ 64"
        using Cons.prems(3,4) Work_get 2 by simp_all
      ultimately obtain h' w j' ns' where 3: "run_work ?h wq' ops = Some (spec_work (Suc j) (datas ?h ms) ops, h', w)"
          "wq_ok h' w j' ns'" "dom h' = set ns'"
        using Cons.IH [of ?h wq' "Suc j" "b # ms"] unfolding list.sel by blast
      have "datas ?h ms = datas h ms"
        using dist by (simp add: took_def)
      moreover have "rd_data (took h a b) a = Some (n_data (the (h b)))" "free_node (took h a b) a = Some ?h"
        using dist by (simp_all add: took_def rd_data_def free_node_def)
      ultimately have "run_work h wq (op # ops) = Some (spec_work j (datas h (tl ns)) (op # ops), h', w)"
        using 3(1) wq'(1) Work_get 2 by (simp add: work_queue_codes del: fun_upd_apply)
      with 3(2,3) show ?thesis by blast
    qed
  qed
qed

section \<open>Properties\<close>

text \<open>
  C30. One thread after another, the work queue answers every history as its specification: items come out in the
  order of the pushes, \<open>WORK_QUEUE_EMPTY\<close> comes exactly when none is left, and a push returns
  \<open>WORK_QUEUE_START_WORKING\<close> exactly when it is the first since the queue was new or last reported
  empty. Destroying it afterwards leaves nothing allocated.
\<close>

theorem work_queue_history:
  assumes "p \<noteq> NULL" and "legal_work [p] ops" and "length ops < 2 ^ 64 - 1"
  shows "\<exists>h wq. run_work (calloc_node Map.empty p) (snd (snd (work_queue_init Map.empty p))) ops
      = Some (spec_work 0 [] ops, h, wq)
    \<and> work_queue_destroy h (Some wq) = Some Map.empty"
proof -
  obtain wq0 where wq0: "work_queue_init Map.empty p = (1, calloc_node Map.empty p, wq0)"
      "wq_ok (calloc_node Map.empty p) wq0 0 [p]"
    using work_queue_init_ok [OF assms(1)] by blast
  have "dom (calloc_node Map.empty p) = set [p]"
    using assms(1) by (simp add: calloc_node_def)
  from run_work_refines [OF wq0(2) this assms(2)] assms(3) obtain h wq j ns where
    r: "run_work (calloc_node Map.empty p) wq0 ops = Some (spec_work 0 [] ops, h, wq)"
      "wq_ok h wq j ns" "dom h = set ns"
    by auto
  have "mpsc_fifo_destroy h (Some (wq_fifo wq)) = Some (\<lambda>p. if p \<in> set ns then None else h p)"
    using r(2) mpsc.destroy_law by (simp add: wq_ok_def)
  moreover have "(\<lambda>p. if p \<in> set ns then None else h p) = Map.empty"
    using r(3) by (auto simp: fun_eq_iff dom_def)
  ultimately show ?thesis
    using r(1) wq0(1) by (simp add: work_queue_destroy_def)
qed

theorem work_queue_history_witness:
  "\<exists>h wq. run_work (calloc_node Map.empty 64) (snd (snd (work_queue_init Map.empty 64)))
        [Work_push 96 7, Work_push 128 8, Work_get, Work_get, Work_push 64 9, Work_get, Work_get, Work_push 128 5]
      = Some ([Pushed_work WORK_QUEUE_START_WORKING, Pushed_work WORK_QUEUE_QUEUED, Got_work (Some 7), Got_work (Some 8),
          Pushed_work WORK_QUEUE_QUEUED, Got_work (Some 9), Got_work None, Pushed_work WORK_QUEUE_START_WORKING], h, wq)
    \<and> work_queue_destroy h (Some wq) = Some Map.empty"
  using work_queue_history [of 64 "[Work_push 96 7, Work_push 128 8, Work_get, Work_get, Work_push 64 9, Work_get, Work_get, Work_push 128 5]"]
  by simp

end
