(* ===== verification/Mpsc_Fifo_Conc.thy ===== *)
theory Mpsc_Fifo_Conc
  imports Mpsc_Fifo
begin

text \<open>
  \<open>mpsc_fifo.h\<close> under any number of producers and one consumer, cut at each access to shared
  memory. A push swaps the tail and links the previous node afterwards, so the list has gaps
  while pushes are in progress. A thread pushes nodes it owns and owns the nodes it pops. \<open>ps_nodes\<close>,
  \<open>ps_pushed\<close> and \<open>ps_popped\<close> are ghost variables: the nodes of the queue in the order of the
  swaps, the data of the pushes in that order, and the data of the finished pops. The record is extensible:
  \<open>Work_Queue_Conc\<close> adds the counters of the work queue to it and uses the same steps.
\<close>

section \<open>Steps\<close>

datatype fifo_pc =
    F_idle
  | F_clear ptr
  | F_swap ptr
  | F_link ptr ptr
  | F_head
  | F_next ptr
  | F_advance ptr ptr
  | F_data ptr ptr
  | F_store ptr ptr
  | F_returned ptr
  | F_peek bool
  | F_peek_next bool ptr
  | F_peek_data ptr
  | F_peeked int "ptr option"

record mpsc_sys =
  ps_heap :: heap
  ps_head :: ptr
  ps_tail :: ptr
  ps_pc :: "tid \<Rightarrow> fifo_pc"
  ps_own :: "tid \<Rightarrow> ptr set"
  ps_nodes :: "ptr list"
  ps_pushed :: "ptr list"
  ps_popped :: "ptr list"

abbreviation fifo_goto :: "'a mpsc_sys_scheme \<Rightarrow> tid \<Rightarrow> fifo_pc \<Rightarrow> 'a mpsc_sys_scheme" where
  "fifo_goto s t pc \<equiv> s\<lparr>ps_pc := (ps_pc s)(t := pc)\<rparr>"

definition fifo_next :: "tid \<Rightarrow> 'a mpsc_sys_scheme \<Rightarrow> 'a mpsc_sys_scheme option" where
  "fifo_next t s =
     (case ps_pc s t of
        F_idle \<Rightarrow> None
      | F_clear n \<Rightarrow> do {
          h' \<leftarrow> wr_next (ps_heap s) n NULL;
          Some ((fifo_goto s t (F_swap n))\<lparr>ps_heap := h'\<rparr>)
        }
      | F_swap n \<Rightarrow>
          (let (prev_tail, tail') = atomic_exchange_pointer (ps_tail s) n
           in Some ((fifo_goto s t (F_link prev_tail n))\<lparr>ps_tail := tail', ps_nodes := ps_nodes s @ [n],
                ps_pushed := ps_pushed s @ [n_data (the (ps_heap s n))]\<rparr>))
      | F_link prev_tail n \<Rightarrow> do {
          h' \<leftarrow> wr_next (ps_heap s) prev_tail n;
          Some ((fifo_goto s t F_idle)\<lparr>ps_heap := h'\<rparr>)
        }
      | F_head \<Rightarrow> Some (fifo_goto s t (F_next (ps_head s)))
      | F_next prev_head \<Rightarrow> do {
          prev_next \<leftarrow> rd_next (ps_heap s) prev_head;
          if prev_next \<noteq> NULL then Some (fifo_goto s t (F_advance prev_head prev_next))
          else Some (fifo_goto s t (F_returned NULL))
        }
      | F_advance prev_head prev_next \<Rightarrow>
          Some ((fifo_goto s t (F_data prev_head prev_next))\<lparr>ps_head := prev_next, ps_nodes := tl (ps_nodes s)\<rparr>)
      | F_data prev_head prev_next \<Rightarrow> do {
          d \<leftarrow> rd_data (ps_heap s) prev_next;
          Some (fifo_goto s t (F_store prev_head d))
        }
      | F_store prev_head d \<Rightarrow> do {
          h' \<leftarrow> wr_data (ps_heap s) prev_head d;
          Some ((fifo_goto s t (F_returned prev_head))\<lparr>ps_heap := h',
            ps_own := (ps_own s)(t := insert prev_head (ps_own s t)), ps_popped := ps_popped s @ [d]\<rparr>)
        }
      | F_returned n \<Rightarrow> None
      | F_peek want \<Rightarrow> Some (fifo_goto s t (F_peek_next want (ps_head s)))
      | F_peek_next want head \<Rightarrow> do {
          nx \<leftarrow> rd_next (ps_heap s) head;
          Some (fifo_goto s t (if nx \<noteq> NULL then if want then F_peek_data nx else F_peeked 1 None else F_peeked 0 None))
        }
      | F_peek_data nx \<Rightarrow> do {
          d \<leftarrow> rd_data (ps_heap s) nx;
          Some (fifo_goto s t (F_peeked 1 (Some d)))
        }
      | F_peeked _ _ \<Rightarrow> None)"

text \<open>
  What can happen next, when \<open>c\<close> is the consumer: a call, a step, the return of a pop or a peek, or a
  write to a node the thread owns.
\<close>

datatype fifo_act = Call_fpush tid ptr | Call_fpop tid | Call_fpeek tid bool | Fgo tid | Fret tid | Fwrite tid ptr node

definition begin_push :: "tid \<Rightarrow> ptr \<Rightarrow> 'a mpsc_sys_scheme \<Rightarrow> 'a mpsc_sys_scheme option" where
  "begin_push t n s =
     (if ps_pc s t = F_idle \<and> n \<in> ps_own s t
      then Some ((fifo_goto s t (F_clear n))\<lparr>ps_own := (ps_own s)(t := ps_own s t - {n})\<rparr>)
      else None)"

definition own_write :: "tid \<Rightarrow> ptr \<Rightarrow> node \<Rightarrow> 'a mpsc_sys_scheme \<Rightarrow> 'a mpsc_sys_scheme option" where
  "own_write t n nd s =
     (if n \<in> ps_own s t then Some (s\<lparr>ps_heap := (ps_heap s)(n \<mapsto> nd)\<rparr>) else None)"

fun fifo_do :: "tid \<Rightarrow> fifo_act \<Rightarrow> mpsc_sys \<Rightarrow> mpsc_sys option" where
  "fifo_do c (Call_fpush t n) s = begin_push t n s"
| "fifo_do c (Call_fpop t) s =
     (if t = c \<and> ps_pc s t = F_idle then Some (fifo_goto s t F_head) else None)"
| "fifo_do c (Call_fpeek t want) s =
     (if t = c \<and> ps_pc s t = F_idle then Some (fifo_goto s t (F_peek want)) else None)"
| "fifo_do c (Fgo t) s = fifo_next t s"
| "fifo_do c (Fret t) s =
     (case ps_pc s t of
        F_returned n \<Rightarrow> Some (fifo_goto s t F_idle)
      | F_peeked r d \<Rightarrow> Some (fifo_goto s t F_idle)
      | _ \<Rightarrow> None)"
| "fifo_do c (Fwrite t n nd) s = own_write t n nd s"

inductive fifo_step :: "tid \<Rightarrow> mpsc_sys \<Rightarrow> mpsc_sys \<Rightarrow> bool" for c where
  fifo_stepI: "fifo_do c a s = Some s' \<Longrightarrow> fifo_step c s s'"

inductive_cases fifo_stepE: "fifo_step c s s'"

text \<open>The start: a new FIFO, with the dummy node at \<open>p\<close>, and allocated nodes of at most one owner.\<close>

definition fifo_start :: "ptr \<Rightarrow> heap \<Rightarrow> (tid \<Rightarrow> ptr set) \<Rightarrow> mpsc_sys" where
  "fifo_start p h own =
     (let (ok, h', f) = mpsc_fifo_init h p
      in \<lparr>ps_heap = h', ps_head = mq_head f, ps_tail = mq_tail f, ps_pc = (\<lambda>_. F_idle), ps_own = own,
          ps_nodes = [p], ps_pushed = [], ps_popped = []\<rparr>)"

definition own_ok :: "ptr \<Rightarrow> heap \<Rightarrow> (tid \<Rightarrow> ptr set) \<Rightarrow> bool" where
  "own_ok p h own \<longleftrightarrow> p \<noteq> NULL \<and> (\<forall>t. \<forall>n \<in> own t. n \<noteq> NULL \<and> h n \<noteq> None \<and> n \<noteq> p)
     \<and> (\<forall>t u. t \<noteq> u \<longrightarrow> own t \<inter> own u = {})"

definition fifo_init :: "mpsc_sys \<Rightarrow> bool" where
  "fifo_init s \<longleftrightarrow> (\<exists>p h own. own_ok p h own \<and> s = fifo_start p h own)"

fun fifo_run :: "tid \<Rightarrow> fifo_act list \<Rightarrow> mpsc_sys \<Rightarrow> mpsc_sys option" where
  "fifo_run c [] s = Some s"
| "fifo_run c (a # as) s = Option.bind (fifo_do c a s) (fifo_run c as)"

lemma fifo_run_reach:
  "fifo_run c as s = Some s' \<Longrightarrow> reach init (fifo_step c) s \<Longrightarrow> reach init (fifo_step c) s'"
proof (induction as arbitrary: s)
  case (Cons a as)
  then obtain s1 where "fifo_do c a s = Some s1" "fifo_run c as s1 = Some s'"
    by (auto split: bind_splits)
  then show ?case
    using Cons reach_step fifo_stepI by metis
qed simp

text \<open>A thread that does not act stays where it is.\<close>

fun fifo_tid :: "fifo_act \<Rightarrow> tid" where
  "fifo_tid (Call_fpush t _) = t"
| "fifo_tid (Call_fpop t) = t"
| "fifo_tid (Call_fpeek t _) = t"
| "fifo_tid (Fgo t) = t"
| "fifo_tid (Fret t) = t"
| "fifo_tid (Fwrite t _ _) = t"

lemma fifo_next_other: "fifo_next t s = Some s' \<Longrightarrow> u \<noteq> t \<Longrightarrow> ps_pc s' u = ps_pc s u"
  by (cases "ps_pc s t") (auto simp: fifo_next_def Let_def split: bind_splits if_splits prod.splits)

lemma fifo_run_other:
  "fifo_run c as s = Some s' \<Longrightarrow> t \<notin> fifo_tid ` set as \<Longrightarrow> ps_pc s' t = ps_pc s t"
proof (induction as arbitrary: s)
  case (Cons a as)
  then obtain s1 where "fifo_do c a s = Some s1" "fifo_run c as s1 = Some s'"
    by (auto split: bind_splits)
  moreover from this(1) have "ps_pc s1 t = ps_pc s t"
    using Cons.prems(2) by (cases a) (auto simp: fifo_next_other begin_push_def own_write_def split: if_splits fifo_pc.splits)
  ultimately show ?case
    using Cons by simp
qed simp

section \<open>The invariant\<close>

text \<open>Nodes of a thread that are neither in the queue nor owned.\<close>

fun fifo_transit :: "fifo_pc \<Rightarrow> ptr set" where
  "fifo_transit (F_clear n) = {n}"
| "fifo_transit (F_swap n) = {n}"
| "fifo_transit (F_data prev_head _) = {prev_head}"
| "fifo_transit (F_store prev_head _) = {prev_head}"
| "fifo_transit _ = {}"

definition ps_holds :: "'a mpsc_sys_scheme \<Rightarrow> tid \<Rightarrow> ptr set" where
  "ps_holds s t = ps_own s t \<union> fifo_transit (ps_pc s t)"

text \<open>A thread in a pop or a peek, and one that has advanced \<open>head\<close>.\<close>

fun popping :: "fifo_pc \<Rightarrow> bool" where
  "popping (F_clear _) = False"
| "popping (F_swap _) = False"
| "popping (F_link _ _) = False"
| "popping F_idle = False"
| "popping (F_returned _) = False"
| "popping _ = True"

fun advanced :: "fifo_pc \<Rightarrow> bool" where
  "advanced (F_data _ _) = True"
| "advanced (F_store _ _) = True"
| "advanced _ = False"

definition in_flight :: "'a mpsc_sys_scheme \<Rightarrow> ptr list" where
  "in_flight s = (if \<exists>t. advanced (ps_pc s t) then [n_data (the (ps_heap s (ps_head s)))] else [])"

definition gap :: "'a mpsc_sys_scheme \<Rightarrow> ptr \<Rightarrow> ptr \<Rightarrow> bool" where
  "gap s a b \<longleftrightarrow> (\<exists>t. ps_pc s t = F_link a b)"

fun fpc_ok :: "heap \<Rightarrow> ptr \<Rightarrow> ptr list \<Rightarrow> fifo_pc \<Rightarrow> bool" where
  "fpc_ok h q ns (F_swap n) \<longleftrightarrow> rd_next h n = Some NULL"
| "fpc_ok h q ns (F_link a b) \<longleftrightarrow> follows ns a b"
| "fpc_ok h q ns (F_next prev_head) \<longleftrightarrow> prev_head = q"
| "fpc_ok h q ns (F_advance prev_head prev_next) \<longleftrightarrow>
     prev_head = q \<and> prev_next \<noteq> NULL \<and> rd_next h q = Some prev_next"
| "fpc_ok h q ns (F_data _ prev_next) \<longleftrightarrow> prev_next = q"
| "fpc_ok h q ns (F_store _ d) \<longleftrightarrow> rd_data h q = Some d"
| "fpc_ok h q ns (F_peek_next _ p) \<longleftrightarrow> p = q"
| "fpc_ok h q ns (F_peek_data n) \<longleftrightarrow> n \<noteq> NULL \<and> rd_next h q = Some n"
| "fpc_ok h q ns (F_peeked r d) \<longleftrightarrow> (r = 0 \<and> d = None \<or>
     r = 1 \<and> (\<exists>n. n \<noteq> NULL \<and> rd_next h q = Some n \<and> (d = None \<or> d = rd_data h n)))"
| "fpc_ok h q ns _ = True"

definition mpsc_inv :: "'a mpsc_sys_scheme \<Rightarrow> bool" where
  "mpsc_inv s \<longleftrightarrow>
     ps_nodes s \<noteq> [] \<and> ps_head s = List.hd (ps_nodes s) \<and> ps_tail s = List.last (ps_nodes s)
   \<and> distinct (ps_nodes s) \<and> (\<forall>n \<in> set (ps_nodes s). n \<noteq> NULL \<and> ps_heap s n \<noteq> None)
   \<and> (\<forall>a b. follows (ps_nodes s) a b \<longrightarrow> rd_next (ps_heap s) a = Some (if gap s a b then NULL else b))
   \<and> rd_next (ps_heap s) (ps_tail s) = Some NULL
   \<and> (\<forall>t. \<forall>n \<in> ps_holds s t. n \<noteq> NULL \<and> ps_heap s n \<noteq> None \<and> n \<notin> set (ps_nodes s))
   \<and> (\<forall>t u. t \<noteq> u \<longrightarrow> ps_holds s t \<inter> ps_holds s u = {})
   \<and> (\<forall>t. ps_own s t \<inter> fifo_transit (ps_pc s t) = {})
   \<and> (\<forall>t. fpc_ok (ps_heap s) (ps_head s) (ps_nodes s) (ps_pc s t))
   \<and> (\<forall>t u a b. ps_pc s t = F_link a b \<longrightarrow> ps_pc s u = F_link a b \<longrightarrow> t = u)
   \<and> (\<forall>t u. popping (ps_pc s t) \<longrightarrow> popping (ps_pc s u) \<longrightarrow> t = u)
   \<and> ps_pushed s = ps_popped s @ in_flight s @ datas (ps_heap s) (tl (ps_nodes s))"

lemma mpsc_invD:
  assumes "mpsc_inv s"
  shows "ps_nodes s \<noteq> []" "ps_head s = List.hd (ps_nodes s)" "ps_tail s = List.last (ps_nodes s)"
    "distinct (ps_nodes s)" "n \<in> set (ps_nodes s) \<Longrightarrow> n \<noteq> NULL \<and> (\<exists>nd. ps_heap s n = Some nd)"
    "follows (ps_nodes s) a b \<Longrightarrow> rd_next (ps_heap s) a = Some (if gap s a b then NULL else b)"
    "rd_next (ps_heap s) (ps_tail s) = Some NULL"
    "n \<in> ps_holds s t \<Longrightarrow> n \<noteq> NULL \<and> n \<notin> set (ps_nodes s) \<and> (\<exists>nd. ps_heap s n = Some nd)"
    "t \<noteq> u \<Longrightarrow> ps_holds s t \<inter> ps_holds s u = {}"
    "ps_own s t \<inter> fifo_transit (ps_pc s t) = {}"
    "fpc_ok (ps_heap s) (ps_head s) (ps_nodes s) (ps_pc s t)"
    "ps_pc s t = F_link a b \<Longrightarrow> ps_pc s u = F_link a b \<Longrightarrow> t = u"
    "popping (ps_pc s t) \<Longrightarrow> popping (ps_pc s u) \<Longrightarrow> t = u"
    "ps_pushed s = ps_popped s @ in_flight s @ datas (ps_heap s) (tl (ps_nodes s))"
  using assms by (auto simp: mpsc_inv_def)

lemma mpsc_invI:
  assumes "ps_nodes s \<noteq> []" "ps_head s = List.hd (ps_nodes s)" "ps_tail s = List.last (ps_nodes s)"
    "distinct (ps_nodes s)" "\<forall>n \<in> set (ps_nodes s). n \<noteq> NULL \<and> ps_heap s n \<noteq> None"
    "\<forall>a b. follows (ps_nodes s) a b \<longrightarrow> rd_next (ps_heap s) a = Some (if gap s a b then NULL else b)"
    "rd_next (ps_heap s) (ps_tail s) = Some NULL"
    "\<forall>t. \<forall>n \<in> ps_holds s t. n \<noteq> NULL \<and> ps_heap s n \<noteq> None \<and> n \<notin> set (ps_nodes s)"
    "\<forall>t u. t \<noteq> u \<longrightarrow> ps_holds s t \<inter> ps_holds s u = {}"
    "\<forall>t. ps_own s t \<inter> fifo_transit (ps_pc s t) = {}"
    "\<forall>t. fpc_ok (ps_heap s) (ps_head s) (ps_nodes s) (ps_pc s t)"
    "\<forall>t u a b. ps_pc s t = F_link a b \<longrightarrow> ps_pc s u = F_link a b \<longrightarrow> t = u"
    "\<forall>t u. popping (ps_pc s t) \<longrightarrow> popping (ps_pc s u) \<longrightarrow> t = u"
    "ps_pushed s = ps_popped s @ in_flight s @ datas (ps_heap s) (tl (ps_nodes s))"
  shows "mpsc_inv s"
  unfolding mpsc_inv_def using assms by blast

lemma advanced_popping: "advanced pc \<Longrightarrow> popping pc"
  by (cases pc) simp_all

lemma gap_split: "gap s a b \<longleftrightarrow> ps_pc s t = F_link a b \<or> (\<exists>u. u \<noteq> t \<and> ps_pc s u = F_link a b)"
  by (auto simp: gap_def)

text \<open>What the threads know survives what others do to their own nodes and at the other end.\<close>

lemma fpc_ok_frame:
  assumes "fpc_ok h q ns pc" and "\<forall>n \<in> fifo_transit pc. h' n = h n"
    and "rd_data h' q = rd_data h q" and "\<And>b. b \<noteq> NULL \<Longrightarrow> rd_next h q = Some b \<Longrightarrow> rd_next h' q = Some b"
    and "\<And>b. b \<noteq> NULL \<Longrightarrow> rd_next h q = Some b \<Longrightarrow> rd_data h' b = rd_data h b"
    and "\<And>a b. follows ns a b \<Longrightarrow> follows ns' a b"
  shows "fpc_ok h' q ns' pc"
proof (cases pc)
  case (F_swap n)
  then show ?thesis
    using assms(1,2) by (simp add: rd_next_def)
next
  case (F_peeked r d)
  then show ?thesis
    using assms(1,4,5) by (cases "r = 0") (simp_all, metis)
qed (use assms in auto)

text \<open>The \<open>next\<close> of the head is \<open>NULL\<close> or the second node of the queue.\<close>

lemma mpsc_head_next:
  assumes inv: "mpsc_inv s" and "rd_next (ps_heap s) (ps_head s) = Some n" and "n \<noteq> NULL"
  obtains ms where "ps_nodes s = ps_head s # n # ms" "\<not> gap s (ps_head s) n"
proof -
  note D = mpsc_invD [OF inv]
  have "ps_nodes s \<noteq> [ps_head s]"
    using D(3,7) assms(2,3) by auto
  then obtain m ms where ns: "ps_nodes s = ps_head s # m # ms"
    using D(1,2) by (metis list.exhaust_sel)
  moreover have "m = n" "\<not> gap s (ps_head s) m"
    using D(6) [of "ps_head s" m] assms(2,3) ns by (auto split: if_splits)
  ultimately show ?thesis
    using that by blast
qed

lemma mpsc_second:
  assumes "mpsc_inv s" and "n \<noteq> NULL" and "rd_next (ps_heap s) (ps_head s) = Some n"
  shows "n \<in> set (ps_nodes s)"
  using mpsc_head_next [OF assms(1,3,2)] by (metis list.set_intros)

text \<open>The parts of the invariant on who has which node.\<close>

lemma mpsc_holds_move:
  assumes inv: "mpsc_inv s"
    and others: "\<forall>u. u \<noteq> t \<longrightarrow> ps_own s' u = ps_own s u \<and> ps_pc s' u = ps_pc s u"
    and heap: "\<forall>n. ps_heap s n \<noteq> None \<longrightarrow> ps_heap s' n \<noteq> None"
    and nodes: "ps_holds s' t \<union> set (ps_nodes s') \<subseteq> ps_holds s t \<union> set (ps_nodes s)"
    and sep: "ps_holds s' t \<inter> set (ps_nodes s') = {}" "ps_own s' t \<inter> fifo_transit (ps_pc s' t) = {}"
  shows "\<forall>u. \<forall>n \<in> ps_holds s' u. n \<noteq> NULL \<and> ps_heap s' n \<noteq> None \<and> n \<notin> set (ps_nodes s')"
    and "\<forall>u v. u \<noteq> v \<longrightarrow> ps_holds s' u \<inter> ps_holds s' v = {}"
    and "\<forall>u. ps_own s' u \<inter> fifo_transit (ps_pc s' u) = {}"
    and "\<forall>n \<in> set (ps_nodes s'). n \<noteq> NULL \<and> ps_heap s' n \<noteq> None"
proof -
  note D = mpsc_invD [OF inv]
  have held: "ps_holds s' u = ps_holds s u" if "u \<noteq> t" for u
    using others that by (simp add: ps_holds_def)
  have apart: "n \<notin> ps_holds s t \<and> n \<notin> ps_holds s' t \<and> n \<notin> set (ps_nodes s') \<and> n \<noteq> NULL \<and> ps_heap s' n \<noteq> None"
    if "u \<noteq> t" "n \<in> ps_holds s u" for u n
  proof -
    have "n \<notin> ps_holds s t" "n \<notin> set (ps_nodes s)" "n \<noteq> NULL" "ps_heap s n \<noteq> None"
      using D(8,9) that by fastforce+
    then show ?thesis
      using nodes heap by auto
  qed
  have mine: "n \<noteq> NULL \<and> ps_heap s' n \<noteq> None" if "n \<in> ps_holds s' t \<union> set (ps_nodes s')" for n
  proof -
    have "n \<in> ps_holds s t \<or> n \<in> set (ps_nodes s)"
      using nodes that by auto
    then have "n \<noteq> NULL \<and> ps_heap s n \<noteq> None"
      using D(5) [of n] D(8) [of n t] by auto
    then show ?thesis using heap by blast
  qed
  show "\<forall>u. \<forall>n \<in> ps_holds s' u. n \<noteq> NULL \<and> ps_heap s' n \<noteq> None \<and> n \<notin> set (ps_nodes s')"
    using apart mine sep(1) held by (metis disjoint_iff UnCI)
  show "\<forall>u v. u \<noteq> v \<longrightarrow> ps_holds s' u \<inter> ps_holds s' v = {}"
    using D(9) held apart by (metis disjoint_iff)
  show "\<forall>u. ps_own s' u \<inter> fifo_transit (ps_pc s' u) = {}"
    using D(10) others sep(2) by metis
  show "\<forall>n \<in> set (ps_nodes s'). n \<noteq> NULL \<and> ps_heap s' n \<noteq> None"
    using mine by blast
qed

text \<open>
  A step that leaves the queue as it is: the thread writes to nodes it holds, finishes a pop, or
  only moves on.
\<close>

lemma mpsc_inv_local:
  assumes inv: "mpsc_inv s"
    and others: "\<And>u. u \<noteq> t \<Longrightarrow> ps_own s' u = ps_own s u \<and> ps_pc s' u = ps_pc s u"
    and heap: "\<And>n. n \<notin> ps_holds s t \<Longrightarrow> ps_heap s' n = ps_heap s n"
    and alloc: "\<And>n. ps_heap s n \<noteq> None \<Longrightarrow> ps_heap s' n \<noteq> None"
    and nodes: "ps_holds s' t \<subseteq> ps_holds s t" "ps_own s' t \<inter> fifo_transit (ps_pc s' t) = {}"
    and same: "ps_nodes s' = ps_nodes s" "ps_head s' = ps_head s" "ps_tail s' = ps_tail s" "ps_pushed s' = ps_pushed s"
    and pc: "fpc_ok (ps_heap s') (ps_head s) (ps_nodes s) (ps_pc s' t)"
      "\<And>a b. ps_pc s' t = F_link a b \<longleftrightarrow> ps_pc s t = F_link a b"
      "popping (ps_pc s' t) \<Longrightarrow> popping (ps_pc s t) \<or> (\<forall>u. \<not> popping (ps_pc s u))"
    and popped: "ps_popped s' = ps_popped s \<and> advanced (ps_pc s' t) = advanced (ps_pc s t)
      \<or> advanced (ps_pc s t) \<and> \<not> advanced (ps_pc s' t)
        \<and> ps_popped s' = ps_popped s @ [n_data (the (ps_heap s (ps_head s)))]"
  shows "mpsc_inv s'"
proof -
  note D = mpsc_invD [OF inv]
  have in_nodes: "ps_heap s' n = ps_heap s n" if "n \<in> set (ps_nodes s)" for n
    using heap D(8) [of n t] that by blast
  have head: "ps_head s \<in> set (ps_nodes s)" and tail: "ps_tail s \<in> set (ps_nodes s)"
    using D(1-3) by simp_all
  have "ps_holds s' t \<inter> set (ps_nodes s) = {}"
    using D(8) nodes(1) by blast
  then have "ps_holds s' t \<union> set (ps_nodes s') \<subseteq> ps_holds s t \<union> set (ps_nodes s)"
      "ps_holds s' t \<inter> set (ps_nodes s') = {}"
    using nodes(1) same(1) by auto
  moreover have "\<forall>u. u \<noteq> t \<longrightarrow> ps_own s' u = ps_own s u \<and> ps_pc s' u = ps_pc s u"
      "\<forall>n. ps_heap s n \<noteq> None \<longrightarrow> ps_heap s' n \<noteq> None"
    using others alloc by blast+
  ultimately have H: "\<forall>u. \<forall>n \<in> ps_holds s' u. n \<noteq> NULL \<and> ps_heap s' n \<noteq> None \<and> n \<notin> set (ps_nodes s')"
      "\<forall>u v. u \<noteq> v \<longrightarrow> ps_holds s' u \<inter> ps_holds s' v = {}"
      "\<forall>u. ps_own s' u \<inter> fifo_transit (ps_pc s' u) = {}"
      "\<forall>n \<in> set (ps_nodes s'). n \<noteq> NULL \<and> ps_heap s' n \<noteq> None"
    using mpsc_holds_move [OF inv, of t s'] nodes(2) by blast+
  have gap: "gap s' a b = gap s a b" for a b
    using others pc(2) unfolding gap_def by metis
  have link: "rd_next (ps_heap s') a = Some (if gap s' a b then NULL else b)" if "follows (ps_nodes s) a b" for a b
    using D(6) [OF that] in_nodes [of a] follows_set [OF that] by (simp add: gap rd_next_def)
  have ok: "fpc_ok (ps_heap s') (ps_head s) (ps_nodes s) (ps_pc s' u)" for u
  proof (cases "u = t")
    case False
    have "n \<notin> ps_holds s t" if "n \<in> ps_holds s u" for n
      using D(9) [OF False] that by blast
    then have transit: "\<forall>n \<in> fifo_transit (ps_pc s u). ps_heap s' n = ps_heap s n"
      using heap by (simp add: ps_holds_def)
    have second: "rd_data (ps_heap s') b = rd_data (ps_heap s) b" if "b \<noteq> NULL" "rd_next (ps_heap s) (ps_head s) = Some b" for b
      using in_nodes [OF mpsc_second [OF inv that]] by (simp add: rd_data_def)
    have "rd_data (ps_heap s') (ps_head s) = rd_data (ps_heap s) (ps_head s)" "rd_next (ps_heap s') (ps_head s) = rd_next (ps_heap s) (ps_head s)"
      by (simp_all add: rd_data_def rd_next_def in_nodes [OF head])
    then have "fpc_ok (ps_heap s') (ps_head s) (ps_nodes s) (ps_pc s u)"
      using second by (intro fpc_ok_frame [OF D(11) transit]) simp_all
    then show ?thesis
      using others [OF False] by simp
  qed (simp add: pc(1))
  have one: "u = v" if "popping (ps_pc s' u)" "popping (ps_pc s' v)" for u v
    using that others pc(3) D(13) by metis
  have "in_flight s' = (if \<exists>u. advanced (ps_pc s' u) then [n_data (the (ps_heap s (ps_head s)))] else [])"
    by (simp add: in_flight_def same in_nodes [OF head])
  moreover have "(\<exists>u. advanced (ps_pc s' u)) = (\<exists>u. advanced (ps_pc s u))" if "advanced (ps_pc s' t) = advanced (ps_pc s t)"
    using that others by metis
  moreover have "\<not> advanced (ps_pc s' u)" if "advanced (ps_pc s t)" "\<not> advanced (ps_pc s' t)" for u
    using that others D(13) advanced_popping by metis
  ultimately have flight: "ps_popped s' @ in_flight s' = ps_popped s @ in_flight s"
    using popped by (auto simp: in_flight_def)
  have "datas (ps_heap s') (tl (ps_nodes s)) = datas (ps_heap s) (tl (ps_nodes s))"
    using in_nodes D(1) D(5) by (intro datas_frame) (auto simp: rd_data_def dest: list.set_sel(2))
  then have log: "ps_pushed s' = ps_popped s' @ in_flight s' @ datas (ps_heap s') (tl (ps_nodes s'))"
    using D(14) flight same by (metis append.assoc)
  have links: "t' = u" if "ps_pc s' t' = F_link a b" "ps_pc s' u = F_link a b" for t' u a b
    using that others pc(2) D(12) by metis
  show ?thesis
    unfolding mpsc_inv_def same(1-3)
    using D(1-4,7) H [unfolded same(1)] link ok one links log in_nodes [OF tail] same by (auto simp: rd_next_def)
qed

text \<open>The three steps that change the queue: the swap of the tail, the link and the advance of \<open>head\<close>.\<close>

lemma mpsc_inv_swap:
  assumes inv: "mpsc_inv s" and pc: "ps_pc s t = F_swap n"
    and s': "s' = (fifo_goto s t (F_link (ps_tail s) n))\<lparr>ps_tail := n, ps_nodes := ps_nodes s @ [n],
      ps_pushed := ps_pushed s @ [n_data (the (ps_heap s n))]\<rparr>"
  shows "mpsc_inv s'"
proof -
  note D = mpsc_invD [OF inv]
  have n: "n \<in> ps_holds s t" "n \<notin> ps_own s t" "rd_next (ps_heap s) n = Some NULL"
    using D(10) [of t] D(11) [of t] pc by (auto simp: ps_holds_def)
  have fresh: "n \<noteq> NULL" "n \<notin> set (ps_nodes s)" "\<exists>nd. ps_heap s n = Some nd"
    using D(8) [OF n(1)] by auto
  have hold: "ps_holds s' t = ps_own s t" and own: "\<And>m. m \<in> ps_own s t \<Longrightarrow> m \<in> ps_holds s t"
    by (simp_all add: s' ps_holds_def)
  have H: "ps_holds s' t \<union> set (ps_nodes s') \<subseteq> ps_holds s t \<union> set (ps_nodes s)"
    "ps_holds s' t \<inter> set (ps_nodes s') = {}" "ps_own s' t \<inter> fifo_transit (ps_pc s' t) = {}"
    using n own D(8) unfolding hold by (auto simp: s')
  have same: "\<forall>u. u \<noteq> t \<longrightarrow> ps_own s' u = ps_own s u \<and> ps_pc s' u = ps_pc s u"
      "\<forall>m. ps_heap s m \<noteq> None \<longrightarrow> ps_heap s' m \<noteq> None"
    by (auto simp: s')
  note H = mpsc_holds_move [OF inv same H]
  have gap: "gap s' a b \<longleftrightarrow> gap s a b \<or> a = ps_tail s \<and> b = n" for a b
    unfolding gap_split [of s' _ _ t] gap_split [of s _ _ t] using pc by (auto simp: s')
  have link: "rd_next (ps_heap s) a = Some (if gap s' a b then NULL else b)" if "follows (ps_nodes s') a b" for a b
  proof (cases "follows (ps_nodes s) a b")
    case True
    then have "b \<noteq> n"
      using fresh(2) follows_set [OF True] by (metis list.set_sel(2) D(1))
    then show ?thesis
      using D(6) [OF True] gap by simp
  next
    case False
    then have "a = ps_tail s" "b = n"
      using that D(3) by (simp_all add: s' follows_snoc)
    then show ?thesis
      using D(7) gap by simp
  qed
  have ok: "fpc_ok (ps_heap s) (ps_head s) (ps_nodes s') (ps_pc s' u)" for u
  proof (cases "u = t")
    case True
    then show ?thesis
      using D(1,3) by (simp add: s' follows_snoc)
  next
    case False
    have "fpc_ok (ps_heap s) (ps_head s) (ps_nodes s') (ps_pc s u)"
      by (rule fpc_ok_frame [OF D(11)]) (simp_all add: s' follows_snoc)
    with False show ?thesis by (simp add: s')
  qed
  have links: "v = u" if "ps_pc s' v = F_link a b" "ps_pc s' u = F_link a b" for v u a b
  proof -
    have "ps_pc s w \<noteq> F_link a n" for w a
      using D(11) [of w] fresh(2) follows_set [of "ps_nodes s" a n] by (metis D(1) fpc_ok.simps(2) list.set_sel(2))
    then show ?thesis
      using that D(12) by (auto simp: s' split: if_splits)
  qed
  have adv: "advanced (ps_pc s' u) = advanced (ps_pc s u)" for u
    using pc by (simp add: s')
  then have "in_flight s' = in_flight s"
    by (simp only: in_flight_def) (simp add: s')
  moreover have "datas (ps_heap s) (tl (ps_nodes s @ [n])) = datas (ps_heap s) (tl (ps_nodes s)) @ [n_data (the (ps_heap s n))]"
    using D(1) by simp
  ultimately have log: "ps_pushed s' = ps_popped s' @ in_flight s' @ datas (ps_heap s') (tl (ps_nodes s'))"
    using D(14) by (simp add: s')
  have one: "u = v" if "popping (ps_pc s' u)" "popping (ps_pc s' v)" for u v
    using that D(13) by (auto simp: s' split: if_splits)
  have heap: "ps_heap s' = ps_heap s" and head: "ps_head s' = ps_head s"
    by (simp_all add: s')
  have all: "\<forall>a b. follows (ps_nodes s') a b \<longrightarrow> rd_next (ps_heap s') a = Some (if gap s' a b then NULL else b)"
      "\<forall>u. fpc_ok (ps_heap s') (ps_head s') (ps_nodes s') (ps_pc s' u)"
      "\<forall>t u a b. ps_pc s' t = F_link a b \<longrightarrow> ps_pc s' u = F_link a b \<longrightarrow> t = u"
      "\<forall>t u. popping (ps_pc s' t) \<longrightarrow> popping (ps_pc s' u) \<longrightarrow> t = u"
    using link ok links one unfolding heap head by blast+
  show ?thesis
    by (rule mpsc_invI [OF _ _ _ _ H(4) all(1) _ H(1-3) all(2-4) log])
      (use D(1-4) fresh(2) n(3) in \<open>simp_all add: s'\<close>)
qed

lemma mpsc_inv_link:
  assumes inv: "mpsc_inv s" and pc: "ps_pc s t = F_link p n" and nd: "ps_heap s p = Some nd"
    and s': "s' = (fifo_goto s t F_idle)\<lparr>ps_heap := (ps_heap s)(p \<mapsto> nd\<lparr>n_next := n\<rparr>)\<rparr>"
  shows "mpsc_inv s'"
proof -
  note D = mpsc_invD [OF inv]
  have pn: "follows (ps_nodes s) p n"
    using D(11) [of t] pc by simp
  then have p: "p \<in> set (ps_nodes s)" "p \<noteq> ps_tail s"
    using follows_set follows_not_last D(3,4) by metis+
  have H: "ps_holds s' t \<union> set (ps_nodes s') \<subseteq> ps_holds s t \<union> set (ps_nodes s)"
    "ps_holds s' t \<inter> set (ps_nodes s') = {}" "ps_own s' t \<inter> fifo_transit (ps_pc s' t) = {}"
    using D(8) by (auto simp: s' ps_holds_def)
  have same: "\<forall>u. u \<noteq> t \<longrightarrow> ps_own s' u = ps_own s u \<and> ps_pc s' u = ps_pc s u"
      "\<forall>m. ps_heap s m \<noteq> None \<longrightarrow> ps_heap s' m \<noteq> None"
    by (auto simp: s')
  note H = mpsc_holds_move [OF inv same H]
  have other: "ps_pc s u \<noteq> F_link p n" if "u \<noteq> t" for u
    using D(12) [of t p n u] that pc by blast
  have gap: "gap s' a b \<longleftrightarrow> gap s a b \<and> \<not> (a = p \<and> b = n)" for a b
    unfolding gap_split [of s' _ _ t] gap_split [of s _ _ t] using pc other by (auto simp: s')
  have link: "rd_next (ps_heap s') a = Some (if gap s' a b then NULL else b)" if "follows (ps_nodes s) a b" for a b
  proof (cases "a = p")
    case True
    then have "b = n"
      using that follows_fun [OF D(4) _ pn] by blast
    with True gap nd show ?thesis by (simp add: s' rd_next_def)
  next
    case False
    then have "rd_next (ps_heap s') a = rd_next (ps_heap s) a" "gap s' a b = gap s a b"
      using gap by (simp_all add: s' rd_next_def)
    then show ?thesis
      using D(6) [OF that] by simp
  qed
  have gap_p: "rd_next (ps_heap s) p = Some NULL"
    using D(6) [OF pn] pc by (auto simp: gap_def)
  have data: "rd_data (ps_heap s') a = rd_data (ps_heap s) a" for a
    using nd by (simp add: s' rd_data_def)
  have ok: "fpc_ok (ps_heap s') (ps_head s) (ps_nodes s) (ps_pc s' u)" for u
  proof (cases "u = t")
    case False
    have "p \<notin> fifo_transit (ps_pc s u)"
      using D(8) [of p u] p by (auto simp: ps_holds_def)
    then have "fpc_ok (ps_heap s') (ps_head s) (ps_nodes s) (ps_pc s u)"
      using gap_p by (intro fpc_ok_frame [OF D(11)]) (simp_all add: data, auto simp: s' rd_next_def)
    with False show ?thesis by (simp add: s')
  qed (simp add: s')
  have adv: "advanced (ps_pc s' u) = advanced (ps_pc s u)" for u
    using pc by (simp add: s')
  have "n_data (the (ps_heap s' a)) = n_data (the (ps_heap s a))" for a
    using nd by (simp add: s')
  then have "in_flight s' = in_flight s"
    by (simp only: in_flight_def adv) (simp add: s')
  moreover have "datas (ps_heap s') (tl (ps_nodes s)) = datas (ps_heap s) (tl (ps_nodes s))"
    by (simp add: s' datas_upd_next [where nd = nd] nd)
  ultimately have log: "ps_pushed s' = ps_popped s' @ in_flight s' @ datas (ps_heap s') (tl (ps_nodes s'))"
    using D(14) by (simp add: s')
  have one: "u = v" if "popping (ps_pc s' u)" "popping (ps_pc s' v)" for u v
    using that D(13) by (auto simp: s' split: if_splits)
  have links: "v = u" if "ps_pc s' v = F_link a b" "ps_pc s' u = F_link a b" for v u a b
    using that D(12) by (auto simp: s' split: if_splits)
  have head: "ps_head s' = ps_head s" and nodes: "ps_nodes s' = ps_nodes s"
    by (simp_all add: s')
  have all: "\<forall>a b. follows (ps_nodes s') a b \<longrightarrow> rd_next (ps_heap s') a = Some (if gap s' a b then NULL else b)"
      "\<forall>u. fpc_ok (ps_heap s') (ps_head s') (ps_nodes s') (ps_pc s' u)"
      "\<forall>t u a b. ps_pc s' t = F_link a b \<longrightarrow> ps_pc s' u = F_link a b \<longrightarrow> t = u"
      "\<forall>t u. popping (ps_pc s' t) \<longrightarrow> popping (ps_pc s' u) \<longrightarrow> t = u"
    using link ok links one unfolding head nodes by blast+
  show ?thesis
    by (rule mpsc_invI [OF _ _ _ _ H(4) all(1) _ H(1-3) all(2-4) log])
      (use D(1-4,7) p in \<open>simp_all add: s' rd_next_def\<close>)
qed

lemma mpsc_inv_advance:
  assumes inv: "mpsc_inv s" and pc: "ps_pc s t = F_advance p n"
    and s': "s' = (fifo_goto s t (F_data p n))\<lparr>ps_head := n, ps_nodes := tl (ps_nodes s)\<rparr>"
  shows "mpsc_inv s'"
proof -
  note D = mpsc_invD [OF inv]
  have n: "p = ps_head s" "n \<noteq> NULL" "rd_next (ps_heap s) p = Some n"
    using D(11) [of t] pc by auto
  obtain ms where ns: "ps_nodes s = p # n # ms" and no_gap: "\<not> gap s p n"
    using mpsc_head_next [OF inv] n by metis
  have hold: "ps_holds s' t = insert p (ps_own s t)" and own: "\<And>m. m \<in> ps_own s t \<Longrightarrow> m \<notin> set (ps_nodes s)"
    using D(8) by (auto simp: s' ps_holds_def)
  have H: "ps_holds s' t \<union> set (ps_nodes s') \<subseteq> ps_holds s t \<union> set (ps_nodes s)"
    "ps_holds s' t \<inter> set (ps_nodes s') = {}" "ps_own s' t \<inter> fifo_transit (ps_pc s' t) = {}"
    using own D(4) ns unfolding hold by (auto simp: s' ps_holds_def)
  have same: "\<forall>u. u \<noteq> t \<longrightarrow> ps_own s' u = ps_own s u \<and> ps_pc s' u = ps_pc s u"
      "\<forall>m. ps_heap s m \<noteq> None \<longrightarrow> ps_heap s' m \<noteq> None"
    by (auto simp: s')
  note H = mpsc_holds_move [OF inv same H]
  have gap: "gap s' a b = gap s a b" for a b
    unfolding gap_split [of s' _ _ t] gap_split [of s _ _ t] using pc by (auto simp: s')
  have not_popping: "\<not> popping (ps_pc s u)" if "u \<noteq> t" for u
    using D(13) [of u t] pc that by auto
  have ok: "fpc_ok (ps_heap s) n (n # ms) (ps_pc s' u)" for u
  proof (cases "u = t")
    case False
    have "follows (n # ms) a b" if "ps_pc s u = F_link a b" for a b
    proof -
      have "follows (ps_nodes s) a b"
        using D(11) [of u] that by simp
      moreover have "gap s a b"
        using that by (auto simp: gap_def)
      ultimately show ?thesis
        using no_gap by (auto simp: ns)
    qed
    then show ?thesis
      using False not_popping [OF False] D(11) [of u] by (cases "ps_pc s u") (simp_all add: s')
  qed (simp add: s')
  have none: "\<not> advanced (ps_pc s u)" for u
    using not_popping [of u] pc advanced_popping by (cases "u = t") auto
  have "in_flight s = []" "in_flight s' = [n_data (the (ps_heap s n))]"
    using none by (auto simp: in_flight_def s' intro!: exI [of _ t])
  then have log: "ps_pushed s' = ps_popped s' @ in_flight s' @ datas (ps_heap s') (tl (ps_nodes s'))"
    using D(14) ns by (simp add: s')
  have one: "u = v" if "popping (ps_pc s' u)" "popping (ps_pc s' v)" for u v
    using that not_popping by (auto simp: s' split: if_splits)
  have links: "v = u" if "ps_pc s' v = F_link a b" "ps_pc s' u = F_link a b" for v u a b
    using that D(12) by (auto simp: s' split: if_splits)
  have heap: "ps_heap s' = ps_heap s" and head: "ps_head s' = n" and nodes: "ps_nodes s' = n # ms"
    by (simp_all add: s' ns)
  have link: "rd_next (ps_heap s') a = Some (if gap s' a b then NULL else b)" if "follows (ps_nodes s') a b" for a b
    using that D(6) [of a b] unfolding gap by (simp add: heap nodes ns)
  have all: "\<forall>a b. follows (ps_nodes s') a b \<longrightarrow> rd_next (ps_heap s') a = Some (if gap s' a b then NULL else b)"
      "\<forall>u. fpc_ok (ps_heap s') (ps_head s') (ps_nodes s') (ps_pc s' u)"
      "\<forall>t u a b. ps_pc s' t = F_link a b \<longrightarrow> ps_pc s' u = F_link a b \<longrightarrow> t = u"
      "\<forall>t u. popping (ps_pc s' t) \<longrightarrow> popping (ps_pc s' u) \<longrightarrow> t = u"
    using link ok links one unfolding heap head nodes by blast+
  show ?thesis
    by (rule mpsc_invI [OF _ _ _ _ H(4) all(1) _ H(1-3) all(2-4) log])
      (use D(1-4,7) ns in \<open>simp_all add: s'\<close>)
qed

lemma mpsc_inv_next:
  assumes inv: "mpsc_inv s" and step: "fifo_next t s = Some s'"
  shows "mpsc_inv s'"
proof -
  note D = mpsc_invD [OF inv]
  have head: "ps_head s \<in> set (ps_nodes s)" and last: "ps_tail s \<in> set (ps_nodes s)"
    using D(1-3) by simp_all
  show ?thesis
  proof (cases "ps_pc s t")
    case (F_clear n)
    obtain nd where nd: "ps_heap s n = Some nd"
      using D(8) [of n t] F_clear by (auto simp: ps_holds_def)
    then have "s' = (fifo_goto s t (F_swap n))\<lparr>ps_heap := (ps_heap s)(n \<mapsto> nd\<lparr>n_next := NULL\<rparr>)\<rparr>"
      using step F_clear by (simp add: fifo_next_def)
    then show ?thesis
      using F_clear D(10) [of t] by (intro mpsc_inv_local [OF inv, of t]) (auto simp: ps_holds_def rd_next_def)
  next
    case (F_swap n)
    show ?thesis
      by (rule mpsc_inv_swap [OF inv F_swap]) (use step F_swap in \<open>simp add: fifo_next_def atomic_exchange_pointer_def\<close>)
  next
    case (F_link p n)
    have "p \<in> set (ps_nodes s)"
      using D(11) [of t] F_link follows_set by fastforce
    then obtain nd where nd: "ps_heap s p = Some nd"
      using D(5) by blast
    show ?thesis
      by (rule mpsc_inv_link [OF inv F_link nd]) (use step F_link nd in \<open>simp add: fifo_next_def\<close>)
  next
    case F_head
    then show ?thesis
      using step by (intro mpsc_inv_local [OF inv, of t]) (auto simp: fifo_next_def ps_holds_def)
  next
    case (F_next p)
    then have p: "p = ps_head s"
      using D(11) [of t] by simp
    obtain b where "rd_next (ps_heap s) p = Some b"
      using D(5) [OF head] p by (auto simp: rd_next_def)
    then show ?thesis
      using step F_next p D(10) [of t]
      by (intro mpsc_inv_local [OF inv, of t]) (auto simp: fifo_next_def ps_holds_def split: if_splits)
  next
    case (F_advance p n)
    show ?thesis
      by (rule mpsc_inv_advance [OF inv F_advance]) (use step F_advance in \<open>simp add: fifo_next_def\<close>)
  next
    case (F_data p n)
    then have n: "n = ps_head s"
      using D(11) [of t] by simp
    obtain nd where nd: "ps_heap s (ps_head s) = Some nd"
      using D(5) [OF head] by blast
    then have "s' = fifo_goto s t (F_store p (n_data nd))"
      using step F_data n by (simp add: fifo_next_def)
    then show ?thesis
      using F_data nd D(10) [of t] by (intro mpsc_inv_local [OF inv, of t]) (auto simp: ps_holds_def)
  next
    case (F_store p d)
    then have d: "rd_data (ps_heap s) (ps_head s) = Some d"
      using D(11) [of t] by simp
    obtain nd where nd: "ps_heap s p = Some nd"
      using D(8) [of p t] F_store by (auto simp: ps_holds_def)
    then have "s' = (fifo_goto s t (F_returned p))\<lparr>ps_heap := (ps_heap s)(p \<mapsto> nd\<lparr>n_data := d\<rparr>),
        ps_own := (ps_own s)(t := insert p (ps_own s t)), ps_popped := ps_popped s @ [d]\<rparr>"
      using step F_store by (simp add: fifo_next_def)
    then show ?thesis
      using F_store d by (intro mpsc_inv_local [OF inv, of t]) (auto simp: ps_holds_def rd_data_def)
  next
    case (F_peek want)
    then show ?thesis
      using step by (intro mpsc_inv_local [OF inv, of t]) (auto simp: fifo_next_def ps_holds_def)
  next
    case (F_peek_next want p)
    then have p: "p = ps_head s"
      using D(11) [of t] by simp
    obtain b where b: "rd_next (ps_heap s) p = Some b"
      using D(5) [OF head] p by (auto simp: rd_next_def)
    then have "s' = fifo_goto s t (if b \<noteq> NULL then if want then F_peek_data b else F_peeked 1 None else F_peeked 0 None)"
      using step F_peek_next by (simp add: fifo_next_def)
    then show ?thesis
      using F_peek_next b p D(10) [of t] by (intro mpsc_inv_local [OF inv, of t]) (auto simp: ps_holds_def)
  next
    case (F_peek_data n)
    then have n: "n \<noteq> NULL" "rd_next (ps_heap s) (ps_head s) = Some n"
      using D(11) [of t] by simp_all
    then obtain nd where nd: "ps_heap s n = Some nd"
      using D(5) [OF mpsc_second [OF inv n]] by blast
    then have "s' = fifo_goto s t (F_peeked 1 (Some (n_data nd)))"
      using step F_peek_data by (simp add: fifo_next_def)
    then show ?thesis
      using F_peek_data n nd D(10) [of t] by (intro mpsc_inv_local [OF inv, of t]) (auto simp: ps_holds_def)
  qed (use step in \<open>simp_all add: fifo_next_def\<close>)
qed

lemma mpsc_inv_begin_push:
  assumes inv: "mpsc_inv s" and step: "begin_push t n s = Some s'"
  shows "mpsc_inv s'"
  using step mpsc_invD(10) [OF inv, of t]
  by (intro mpsc_inv_local [OF inv, of t]) (auto simp: begin_push_def ps_holds_def split: if_splits)

lemma mpsc_inv_begin_pop:
  assumes inv: "mpsc_inv s" and "ps_pc s t = F_idle" and "\<forall>u. \<not> popping (ps_pc s u)"
  shows "mpsc_inv (fifo_goto s t F_head)" "mpsc_inv (fifo_goto s t (F_peek want))"
  using assms(2,3) by (intro mpsc_inv_local [OF inv, of t]; auto simp: ps_holds_def)+

lemma mpsc_inv_return:
  assumes inv: "mpsc_inv s" and "ps_pc s t = F_returned n \<or> ps_pc s t = F_peeked r d"
  shows "mpsc_inv (fifo_goto s t F_idle)"
  using assms(2) by (intro mpsc_inv_local [OF inv, of t]) (auto simp: ps_holds_def)

lemma mpsc_inv_own_write:
  assumes inv: "mpsc_inv s" and step: "own_write t n nd s = Some s'"
  shows "mpsc_inv s'"
proof -
  note D = mpsc_invD [OF inv]
  have s': "s' = s\<lparr>ps_heap := (ps_heap s)(n \<mapsto> nd)\<rparr>" and n: "n \<in> ps_own s t"
    using step by (auto simp: own_write_def split: if_splits)
  have "n \<notin> set (ps_nodes s)"
    using D(8) [of n t] n by (simp add: ps_holds_def)
  then have head: "n \<noteq> ps_head s"
    using D(1,2) by auto
  have "b \<noteq> n" if "b \<noteq> NULL" "rd_next (ps_heap s) (ps_head s) = Some b" for b
    using mpsc_second [OF inv that] \<open>n \<notin> set (ps_nodes s)\<close> by blast
  then have "rd_data (ps_heap s') b = rd_data (ps_heap s) b" if "b \<noteq> NULL" "rd_next (ps_heap s) (ps_head s) = Some b" for b
    using that by (auto simp: s' rd_data_def)
  moreover have "rd_data (ps_heap s') (ps_head s) = rd_data (ps_heap s) (ps_head s)" "rd_next (ps_heap s') (ps_head s) = rd_next (ps_heap s) (ps_head s)"
    using head by (simp_all add: s' rd_data_def rd_next_def)
  moreover have "\<forall>m \<in> fifo_transit (ps_pc s t). ps_heap s' m = ps_heap s m"
    using n D(10) [of t] by (auto simp: s')
  ultimately have "fpc_ok (ps_heap s') (ps_head s) (ps_nodes s) (ps_pc s t)"
    by (intro fpc_ok_frame [OF D(11)]) simp_all
  then show ?thesis
    using n D(10) [of t] by (intro mpsc_inv_local [OF inv, of t]) (auto simp: s' ps_holds_def)
qed

lemma fifo_start_eq: "p \<noteq> NULL \<Longrightarrow> fifo_start p h own =
    \<lparr>ps_heap = calloc_node h p, ps_head = p, ps_tail = p, ps_pc = (\<lambda>_. F_idle),
     ps_own = own, ps_nodes = [p], ps_pushed = [], ps_popped = []\<rparr>"
  by (simp add: fifo_start_def mpsc_init_ok(1))

lemma mpsc_inv_start:
  assumes "own_ok p h own"
  shows "mpsc_inv (fifo_start p h own)"
proof -
  have p: "p \<noteq> NULL"
    using assms by (simp add: own_ok_def)
  then show ?thesis
    using assms by (auto simp: fifo_start_eq mpsc_inv_def ps_holds_def own_ok_def in_flight_def calloc_node_def rd_next_def)
qed

text \<open>Only the consumer ever pops.\<close>

definition one_consumer :: "tid \<Rightarrow> mpsc_sys \<Rightarrow> bool" where
  "one_consumer c s \<longleftrightarrow> (\<forall>t. popping (ps_pc s t) \<longrightarrow> t = c)"

lemma one_consumer_next:
  "one_consumer c s \<Longrightarrow> fifo_next t s = Some s' \<Longrightarrow> one_consumer c s'"
  by (cases "ps_pc s t") (auto simp: one_consumer_def fifo_next_def Let_def split: bind_splits if_splits prod.splits)

lemma one_consumer_step: "one_consumer c s \<Longrightarrow> fifo_step c s s' \<Longrightarrow> one_consumer c s'"
proof (elim fifo_stepE)
  fix a assume inv: "one_consumer c s" and step: "fifo_do c a s = Some s'"
  show "one_consumer c s'"
  proof (cases a)
    case (Fgo t)
    then show ?thesis
      using step one_consumer_next [OF inv] by simp
  qed (use inv step in \<open>auto simp: one_consumer_def begin_push_def own_write_def split: if_splits fifo_pc.splits\<close>)
qed

lemma mpsc_inv_step:
  assumes inv: "mpsc_inv s" and one: "one_consumer c s" and "fifo_step c s s'"
  shows "mpsc_inv s'"
proof -
  obtain a where step: "fifo_do c a s = Some s'"
    using assms(3) by (elim fifo_stepE)
  show ?thesis
  proof (cases a)
    case (Call_fpush t n)
    then show ?thesis
      using step mpsc_inv_begin_push [OF inv] by simp
  next
    case (Call_fpop t)
    then have t: "t = c" "ps_pc s t = F_idle" and s': "s' = fifo_goto s t F_head"
      using step by (auto split: if_splits)
    have "\<forall>u. \<not> popping (ps_pc s u)"
      using one t by (metis one_consumer_def popping.simps(4))
    then show ?thesis
      using mpsc_inv_begin_pop [OF inv t(2)] s' by simp
  next
    case (Call_fpeek t want)
    then have t: "t = c" "ps_pc s t = F_idle" and s': "s' = fifo_goto s t (F_peek want)"
      using step by (auto split: if_splits)
    have "\<forall>u. \<not> popping (ps_pc s u)"
      using one t by (metis one_consumer_def popping.simps(4))
    then show ?thesis
      using mpsc_inv_begin_pop [OF inv t(2)] s' by simp
  next
    case (Fgo t)
    then show ?thesis
      using step mpsc_inv_next [OF inv] by simp
  next
    case (Fret t)
    then show ?thesis
      using step mpsc_inv_return [OF inv, of t] by (auto split: fifo_pc.splits)
  next
    case (Fwrite t n nd)
    then show ?thesis
      using step mpsc_inv_own_write [OF inv] by simp
  qed
qed

interpretation mpsc_sys: invariant fifo_init "fifo_step c" "\<lambda>s. mpsc_inv s \<and> one_consumer c s" for c
proof unfold_locales
  show "mpsc_inv s \<and> one_consumer c s" if "fifo_init s" for s
  proof -
    obtain p h own where "own_ok p h own" and s: "s = fifo_start p h own"
      using \<open>fifo_init s\<close> by (auto simp: fifo_init_def)
    moreover from this have "p \<noteq> NULL"
      by (simp add: own_ok_def)
    ultimately show ?thesis
      using mpsc_inv_start [of p h own] by (simp add: one_consumer_def fifo_start_eq)
  qed
qed (blast intro: mpsc_inv_step one_consumer_step)

section \<open>Properties\<close>

text \<open>
  C13. Under any interleaving of any number of pushing threads and one popping thread the queue is
  FIFO and loses nothing: the data of the pushes, in the order of their swaps, are the data of
  the finished pops, in order, followed by the data of a pop in progress that has advanced \<open>head\<close> and the data in the
  queue. No node is in the queue and with a thread, or with two threads.
\<close>

theorem mpsc_fifo_conc:
  assumes "reach fifo_init (fifo_step c) s"
  shows "ps_pushed s = ps_popped s @ in_flight s @ datas (ps_heap s) (tl (ps_nodes s))
    \<and> (\<forall>t. ps_holds s t \<inter> set (ps_nodes s) = {} \<and> (\<forall>u. t \<noteq> u \<longrightarrow> ps_holds s t \<inter> ps_holds s u = {}))
    \<and> distinct (ps_nodes s) \<and> ps_head s = List.hd (ps_nodes s) \<and> ps_tail s = List.last (ps_nodes s)"
proof -
  have "mpsc_inv s"
    using mpsc_sys.reach_inv [OF assms] by blast
  note D = mpsc_invD [OF this]
  show ?thesis
    using D(2,3,4,8,9,14) by (auto simp: disjoint_iff)
qed

text \<open>
  While others push, \<open>peek\<close> answers 1 only if there is an item, and what it wrote to \<open>*data\<close> is the item that the
  consumer pops next.
\<close>

theorem mpsc_fifo_peek_conc:
  assumes "reach fifo_init (fifo_step c) s" and "ps_pc s c = F_peeked r d"
  shows "r = 0 \<and> d = None \<or> r = 1 \<and> (\<exists>v vs. ps_pushed s = ps_popped s @ v # vs \<and> (d = None \<or> d = Some v))"
proof (cases "r = 0")
  case False
  have inv: "mpsc_inv s" and one: "one_consumer c s"
    using mpsc_sys.reach_inv [OF assms(1)] by blast+
  note D = mpsc_invD [OF inv]
  obtain n where n: "r = 1" "n \<noteq> NULL" "rd_next (ps_heap s) (ps_head s) = Some n" "d = None \<or> d = rd_data (ps_heap s) n"
    using D(11) [of c] assms(2) False by auto
  then obtain ms where ns: "ps_nodes s = ps_head s # n # ms"
    using mpsc_head_next [OF inv] by metis
  then obtain nd where "ps_heap s n = Some nd"
    using D(5) [of n] by auto
  moreover have "\<not> advanced (ps_pc s t)" for t
    using one assms(2) advanced_popping [of "ps_pc s t"] by (auto simp: one_consumer_def)
  then have "in_flight s = []"
    by (simp add: in_flight_def)
  ultimately show ?thesis
    using n D(14) unfolding ns by simp
qed (use assms mpsc_sys.reach_inv [OF assms(1)] mpsc_invD(11) [of s c] in auto)

text \<open>
  With no operation in progress the list has no gaps: the queue is the chain of its nodes
  from \<open>head\<close> to \<open>tail\<close>, as the sequential operations expect it, and holds the data of the
  pushes that have not been popped.
\<close>

theorem mpsc_fifo_quiescent:
  assumes "reach fifo_init (fifo_step c) s" and "\<forall>t. ps_pc s t = F_idle"
  shows "mpsc_ok (ps_heap s) \<lparr>mq_head = ps_head s, mq_tail = ps_tail s\<rparr> (ps_nodes s)
    \<and> ps_pushed s = ps_popped s @ datas (ps_heap s) (tl (ps_nodes s))"
proof -
  have "mpsc_inv s"
    using mpsc_sys.reach_inv [OF assms(1)] by blast
  note D = mpsc_invD [OF this]
  have no_gap: "rd_next (ps_heap s) a = Some b" if "follows (ps_nodes s) a b" for a b
    using D(6) [OF that] assms(2) by (simp add: gap_def)
  have "chain (ps_heap s) ns NULL"
    if "ns \<noteq> []" "\<forall>n \<in> set ns. n \<noteq> NULL" "\<And>a b. follows ns a b \<Longrightarrow> rd_next (ps_heap s) a = Some b"
      "rd_next (ps_heap s) (List.last ns) = Some NULL" for ns
    using that
  proof (induction ns rule: induct_list012)
    case (3 x y zs)
    then show ?case by simp
  qed simp_all
  from this [OF D(1) _ no_gap] have "chain (ps_heap s) (ps_nodes s) NULL"
    using D(3,5,7) by auto
  moreover have "in_flight s = []"
    using assms(2) by (simp add: in_flight_def)
  ultimately show ?thesis
    using D(1-4,14) by (simp add: mpsc_ok_def queue_rep_def)
qed

text \<open>
  Producers 1 and 2 push; producer 1 has swapped the tail but not linked its node, so the
  consumer finds nothing, although producer 2 is done. After the link it pops both.
\<close>

definition mpsc_demo :: "fifo_act list" where
  "mpsc_demo = [Call_fpush 1 11, Fgo 1, Fgo 1, Call_fpush 2 12, Fgo 2, Fgo 2, Fgo 2,
     Call_fpop 0, Fgo 0, Fgo 0, Fret 0, Fgo 1]
     @ Call_fpop 0 # replicate 5 (Fgo 0) @ [Fret 0]"

definition mpsc_demo_start :: mpsc_sys where
  "mpsc_demo_start = fifo_start 10 [11 \<mapsto> node_of 7 0, 12 \<mapsto> node_of 8 0]
     (\<lambda>t. if t = 1 then {11} else if t = 2 then {12} else {})"

lemma mpsc_demo_run:
  "\<exists>s. fifo_run 0 mpsc_demo mpsc_demo_start = Some s \<and> reach fifo_init (fifo_step 0) s
     \<and> (\<forall>t. ps_pc s t = F_idle) \<and> ps_popped s = [7] \<and> ps_nodes s = [11, 12] \<and> ps_pushed s = [7, 8]"
proof -
  have start: "fifo_init mpsc_demo_start"
    unfolding fifo_init_def mpsc_demo_start_def by (intro exI conjI, rule _ refl) (auto simp: own_ok_def)
  obtain s where s: "fifo_run 0 mpsc_demo mpsc_demo_start = Some s"
      "ps_popped s = [7]" "ps_nodes s = [11, 12]" "ps_pushed s = [7, 8]"
  proof -
    have "map_option (\<lambda>s. (ps_popped s, ps_nodes s, ps_pushed s)) (fifo_run 0 mpsc_demo mpsc_demo_start) = Some ([7], [11, 12], [7, 8])"
      by code_simp
    then show ?thesis using that by auto
  qed
  have "map_option (\<lambda>s. (ps_pc s 0, ps_pc s 1, ps_pc s 2)) (fifo_run 0 mpsc_demo mpsc_demo_start) = Some (F_idle, F_idle, F_idle)"
    by code_simp
  then have acting: "ps_pc s 0 = F_idle" "ps_pc s 1 = F_idle" "ps_pc s 2 = F_idle"
    using s(1) by simp_all
  have "ps_pc s t = F_idle" for t
  proof (cases "t \<in> {0, 1, 2}")
    case False
    then have "t \<notin> fifo_tid ` set mpsc_demo"
      by (auto simp: mpsc_demo_def)
    then show ?thesis
      using fifo_run_other [OF s(1)] by (simp add: mpsc_demo_start_def fifo_start_eq)
  qed (use acting in auto)
  then show ?thesis
    using s fifo_run_reach [OF s(1) reach_init [where init = fifo_init, OF start]] by blast
qed

theorem mpsc_fifo_conc_witness:
  "\<exists>s. reach fifo_init (fifo_step 0) s \<and> ps_popped s = [7]
     \<and> [7, 8] = ps_popped s @ in_flight s @ datas (ps_heap s) (tl [11, 12])"
proof -
  obtain s where s: "reach fifo_init (fifo_step 0) s" "ps_popped s = [7]" "ps_nodes s = [11, 12]" "ps_pushed s = [7, 8]"
    using mpsc_demo_run by blast
  from mpsc_fifo_conc [OF s(1)] s show ?thesis by auto
qed

theorem mpsc_fifo_quiescent_witness:
  "\<exists>s. reach fifo_init (fifo_step 0) s \<and> ps_popped s = [7] \<and> datas (ps_heap s) [12] = [8]
     \<and> mpsc_ok (ps_heap s) \<lparr>mq_head = ps_head s, mq_tail = ps_tail s\<rparr> [11, 12]"
proof -
  obtain s where s: "reach fifo_init (fifo_step 0) s" "\<forall>t. ps_pc s t = F_idle" "ps_popped s = [7]" "ps_nodes s = [11, 12]" "ps_pushed s = [7, 8]"
    using mpsc_demo_run by blast
  from mpsc_fifo_quiescent [OF s(1,2)] s show ?thesis by auto
qed

end
