(* ===== verification/Work_Queue_Conc.thy ===== *)
theory Work_Queue_Conc
  imports Work_Queue Mpsc_Fifo_Conc "HOL-Library.Sublist"
begin

text \<open>
  \<open>work_queue.c\<close> under any number of threads. The state is that of the FIFO (\<open>Mpsc_Fifo_Conc\<close>),
  whose steps are used as they are, extended by the two counters and by what each thread is
  doing in \<open>work_queue_push\<close> or \<open>work_queue_get_work\<close>. A thread is the worker from the moment
  its increment of \<open>in_count\<close> returns 1 until \<open>work_queue_get_work\<close> returns \<open>WORK_QUEUE_EMPTY\<close> to it; only the
  worker calls \<open>work_queue_get_work\<close>, as the header demands. \<open>wk_added\<close>, \<open>wk_removed\<close> and
  \<open>wk_handed\<close> are ghost counters: the increments of \<open>in_count\<close>, what was subtracted from it, and the
  items handed out.
\<close>

section \<open>Steps\<close>

datatype wq_pc =
    K_idle
  | K_add ptr
  | K_pushing int
  | K_get
  | K_out ptr
  | K_cmp
  | K_reset
  | K_sub u64

record wq_sys = mpsc_sys +
  wk_in :: u64
  wk_out :: u64
  wk_pc :: "tid \<Rightarrow> wq_pc"
  wk_working :: "tid \<Rightarrow> bool"
  wk_added :: nat
  wk_removed :: nat
  wk_handed :: nat

abbreviation wq_goto :: "wq_sys \<Rightarrow> tid \<Rightarrow> wq_pc \<Rightarrow> wq_sys" where
  "wq_goto s t pc \<equiv> s\<lparr>wk_pc := (wk_pc s)(t := pc)\<rparr>"

text \<open>The head of the loop of \<open>work_queue_get_work\<close>: another \<open>mpsc_fifo_trypop\<close>.\<close>

definition pop_again :: "tid \<Rightarrow> wq_sys \<Rightarrow> wq_sys" where
  "pop_again t s = wq_goto (fifo_goto s t F_head) t K_get"

definition wq_next :: "tid \<Rightarrow> wq_sys \<Rightarrow> wq_sys option" where
  "wq_next t s =
     (case wk_pc s t of
        K_idle \<Rightarrow> None
      | K_add n \<Rightarrow>
          (let (in_count, loc) = sync_add_and_fetch (wk_in s) 1;
               ret = (if in_count = 1 then WORK_QUEUE_START_WORKING else WORK_QUEUE_QUEUED)
           in begin_push t n ((wq_goto s t (K_pushing ret))\<lparr>wk_in := loc, wk_added := wk_added s + 1,
                wk_working := (wk_working s)(t := wk_working s t \<or> ret = WORK_QUEUE_START_WORKING)\<rparr>))
      | K_pushing ret \<Rightarrow>
          if ps_pc s t = F_idle then Some (wq_goto s t K_idle) else fifo_next t s
      | K_get \<Rightarrow>
          (case ps_pc s t of
             F_returned n \<Rightarrow> Some (wq_goto (fifo_goto s t F_idle) t (if n \<noteq> NULL then K_out n else K_cmp))
           | _ \<Rightarrow> fifo_next t s)
      | K_out n \<Rightarrow> Some ((wq_goto s t K_idle)\<lparr>wk_out := wk_out s + 1, wk_handed := wk_handed s + 1\<rparr>)
      | K_cmp \<Rightarrow> if wk_out s = wk_in s then Some (wq_goto s t K_reset) else Some (pop_again t s)
      | K_reset \<Rightarrow> Some ((wq_goto s t (K_sub (wk_out s)))\<lparr>wk_out := 0\<rparr>)
      | K_sub old_out_count \<Rightarrow>
          (let (new_in_count, loc) = sync_add_and_fetch (wk_in s) (- old_out_count);
               s' = s\<lparr>wk_in := loc, wk_removed := wk_handed s\<rparr>
           in if new_in_count = 0 then Some ((wq_goto s' t K_idle)\<lparr>wk_working := (wk_working s)(t := False)\<rparr>)
              else Some (pop_again t s')))"

datatype wq_act = Call_wpush tid ptr | Call_wget tid | Wgo tid | Wwrite tid ptr node

fun wq_do :: "wq_act \<Rightarrow> wq_sys \<Rightarrow> wq_sys option" where
  "wq_do (Call_wpush t n) s =
     (if wk_pc s t = K_idle \<and> n \<in> ps_own s t then Some (wq_goto s t (K_add n)) else None)"
| "wq_do (Call_wget t) s =
     (if wk_pc s t = K_idle \<and> wk_working s t then Some (pop_again t s) else None)"
| "wq_do (Wgo t) s = wq_next t s"
| "wq_do (Wwrite t n nd) s = own_write t n nd s"

inductive wq_step :: "wq_sys \<Rightarrow> wq_sys \<Rightarrow> bool" where
  wq_stepI: "wq_do a s = Some s' \<Longrightarrow> wq_step s s'"

inductive_cases wq_stepE: "wq_step s s'"

text \<open>The start: an initialised work queue.\<close>

definition wq_start :: "ptr \<Rightarrow> heap \<Rightarrow> (tid \<Rightarrow> ptr set) \<Rightarrow> wq_sys" where
  "wq_start p h own =
     (let (ok, h', wq) = work_queue_init h p
      in \<lparr>ps_heap = h', ps_head = mq_head (wq_fifo wq), ps_tail = mq_tail (wq_fifo wq),
          ps_pc = (\<lambda>_. F_idle), ps_own = own, ps_nodes = [p], ps_pushed = [], ps_popped = [],
          wk_in = wq_in_count wq, wk_out = wq_out_count wq, wk_pc = (\<lambda>_. K_idle), wk_working = (\<lambda>_. False),
          wk_added = 0, wk_removed = 0, wk_handed = 0\<rparr>)"

definition wq_init :: "wq_sys \<Rightarrow> bool" where
  "wq_init s \<longleftrightarrow> (\<exists>p h own. own_ok p h own \<and> s = wq_start p h own)"

fun wq_run :: "wq_act list \<Rightarrow> wq_sys \<Rightarrow> wq_sys option" where
  "wq_run [] s = Some s"
| "wq_run (a # as) s = Option.bind (wq_do a s) (wq_run as)"

lemma wq_run_reach:
  "wq_run as s = Some s' \<Longrightarrow> reach init wq_step s \<Longrightarrow> reach init wq_step s'"
proof (induction as arbitrary: s)
  case (Cons a as)
  then obtain s1 where "wq_do a s = Some s1" "wq_run as s1 = Some s'"
    by (auto split: bind_splits)
  then show ?case
    using Cons reach_step wq_stepI by metis
qed simp

section \<open>The FIFO's steps on the larger state\<close>

lemma fifo_next_wk:
  assumes "fifo_next t s = Some s'"
  shows "wk_in s' = wk_in s" "wk_out s' = wk_out s" "wk_pc s' = wk_pc s" "wk_working s' = wk_working s"
    "wk_added s' = wk_added s" "wk_removed s' = wk_removed s" "wk_handed s' = wk_handed s"
  using assms by (cases "ps_pc s t"; auto simp: fifo_next_def Let_def split: bind_splits if_splits prod.splits)+

text \<open>Threads whose push has not swapped the tail yet.\<close>

fun unswapped :: "fifo_pc \<Rightarrow> bool" where
  "unswapped (F_clear _) = True"
| "unswapped (F_swap _) = True"
| "unswapped _ = False"

definition waiting :: "'a mpsc_sys_scheme \<Rightarrow> tid set" where
  "waiting s = {t. unswapped (ps_pc s t)}"

lemma waiting_move:
  assumes "\<forall>u. u \<noteq> t \<longrightarrow> ps_pc s' u = ps_pc s u"
  shows "waiting s' = (if unswapped (ps_pc s' t) then insert t (waiting s) else waiting s - {t})"
  using assms by (auto simp: waiting_def)

lemma fifo_next_effect:
  assumes "fifo_next t s = Some s'" and "finite (waiting s)"
  shows "finite (waiting s')" "length (ps_pushed s') + card (waiting s') = length (ps_pushed s) + card (waiting s)"
    "length (ps_popped s) \<le> length (ps_popped s')"
    "ps_pc s' t = F_returned n \<Longrightarrow> n \<noteq> NULL \<Longrightarrow> length (ps_popped s') = Suc (length (ps_popped s))"
proof -
  have W: "waiting s' = (if unswapped (ps_pc s' t) then insert t (waiting s) else waiting s - {t})"
    using assms(1) by (intro waiting_move) (auto dest: fifo_next_other)
  show "finite (waiting s')"
    using assms(2) unfolding W by simp
  have t: "t \<in> waiting s \<longleftrightarrow> unswapped (ps_pc s t)"
    by (simp add: waiting_def)
  have card: "card (waiting s - {t}) = card (waiting s) - 1" "0 < card (waiting s)" if "t \<in> waiting s"
    using that assms(2) by (auto simp: card_gt_0_iff)
  show "length (ps_pushed s') + card (waiting s') = length (ps_pushed s) + card (waiting s)"
    using assms(1) t card unfolding W
    by (cases "ps_pc s t") (auto simp: fifo_next_def Let_def insert_absorb split: bind_splits if_splits prod.splits)
  show "length (ps_popped s) \<le> length (ps_popped s')"
    using assms(1) by (cases "ps_pc s t") (auto simp: fifo_next_def Let_def split: bind_splits if_splits prod.splits)
  show "length (ps_popped s') = Suc (length (ps_popped s))" if "ps_pc s' t = F_returned n" "n \<noteq> NULL"
    using assms(1) that by (cases "ps_pc s t") (auto simp: fifo_next_def Let_def split: bind_splits if_splits prod.splits)
qed

section \<open>The invariant\<close>

text \<open>
  What a thread's two program counters say of each other, with the items handed out and
  subtracted so far and the finished pops.
\<close>

fun wpc_ok :: "bool \<Rightarrow> ptr set \<Rightarrow> nat \<Rightarrow> nat \<Rightarrow> nat \<Rightarrow> fifo_pc \<Rightarrow> wq_pc \<Rightarrow> bool" where
  "wpc_ok w own rem handed popped f K_idle \<longleftrightarrow> f = F_idle"
| "wpc_ok w own rem handed popped f (K_add n) \<longleftrightarrow> f = F_idle \<and> n \<in> own"
| "wpc_ok w own rem handed popped f (K_pushing _) \<longleftrightarrow> \<not> popping f \<and> (\<forall>n. f \<noteq> F_returned n)"
| "wpc_ok w own rem handed popped f K_get \<longleftrightarrow>
     w \<and> (popping f \<or> (\<exists>n. f = F_returned n \<and> (n \<noteq> NULL \<longrightarrow> handed < popped)))"
| "wpc_ok w own rem handed popped f (K_out n) \<longleftrightarrow> w \<and> f = F_idle \<and> handed < popped"
| "wpc_ok w own rem handed popped f (K_sub old) \<longleftrightarrow> w \<and> f = F_idle \<and> old = of_nat (handed - rem)"
| "wpc_ok w own rem handed popped f _ \<longleftrightarrow> w \<and> f = F_idle"

definition thread_ok :: "wq_sys \<Rightarrow> tid \<Rightarrow> bool" where
  "thread_ok s t = wpc_ok (wk_working s t) (ps_own s t) (wk_removed s) (wk_handed s)
     (length (ps_popped s)) (ps_pc s t) (wk_pc s t)"

definition resetting :: "wq_sys \<Rightarrow> bool" where
  "resetting s \<longleftrightarrow> (\<exists>t old. wk_pc s t = K_sub old)"

definition wq_inv :: "wq_sys \<Rightarrow> bool" where
  "wq_inv s \<longleftrightarrow> mpsc_inv s
   \<and> finite (waiting s) \<and> length (ps_pushed s) + card (waiting s) = wk_added s
   \<and> wk_removed s \<le> wk_handed s \<and> wk_handed s \<le> length (ps_popped s)
   \<and> wk_in s = of_nat (wk_added s - wk_removed s)
   \<and> wk_out s = (if resetting s then 0 else of_nat (wk_handed s - wk_removed s))
   \<and> (\<forall>t u. wk_working s t \<longrightarrow> wk_working s u \<longrightarrow> t = u)
   \<and> ((\<exists>t. wk_working s t) \<longleftrightarrow> wk_removed s < wk_added s)
   \<and> (\<forall>t. thread_ok s t)"

lemma wq_invD:
  assumes "wq_inv s"
  shows "mpsc_inv s" "finite (waiting s)" "length (ps_pushed s) + card (waiting s) = wk_added s"
    "wk_removed s \<le> wk_handed s" "wk_handed s \<le> length (ps_popped s)"
    "wk_in s = of_nat (wk_added s - wk_removed s)"
    "wk_out s = (if resetting s then 0 else of_nat (wk_handed s - wk_removed s))"
    "wk_working s t \<Longrightarrow> wk_working s u \<Longrightarrow> t = u"
    "(\<exists>t. wk_working s t) \<longleftrightarrow> wk_removed s < wk_added s" "thread_ok s t"
  using assms unfolding wq_inv_def by blast+

lemma mpsc_inv_cong:
  assumes "ps_heap s' = ps_heap s" "ps_head s' = ps_head s" "ps_tail s' = ps_tail s" "ps_pc s' = ps_pc s"
    "ps_own s' = ps_own s" "ps_nodes s' = ps_nodes s" "ps_pushed s' = ps_pushed s" "ps_popped s' = ps_popped s"
  shows "mpsc_inv s' = mpsc_inv s"
  using assms by (simp add: mpsc_inv_def ps_holds_def gap_def in_flight_def)

lemma popped_le_pushed: "mpsc_inv s \<Longrightarrow> length (ps_popped s) \<le> length (ps_pushed s)"
  using mpsc_invD(14) [of s] by simp

lemma handed_le_added: "wq_inv s \<Longrightarrow> wk_handed s \<le> wk_added s"
  using wq_invD(3,5) [of s] popped_le_pushed [OF wq_invD(1), of s] by linarith

lemma wpc_ok_idle_worker: "\<not> w \<Longrightarrow> wpc_ok w own rem handed popped f pc \<Longrightarrow> wpc_ok w own rem' handed' popped' f pc"
  by (cases pc) auto

lemma resetting_worker:
  assumes "wq_inv s" and "wk_working s t"
  shows "resetting s \<longleftrightarrow> (\<exists>old. wk_pc s t = K_sub old)"
proof -
  have "wk_working s u" if "wk_pc s u = K_sub old" for u old
    using wq_invD(10) [OF assms(1), of u] that by (simp add: thread_ok_def)
  then show ?thesis
    using wq_invD(8) [OF assms(1) assms(2)] unfolding resetting_def by metis
qed

lemma worker_alone:
  assumes inv: "wq_inv s" and w: "wk_working s t" and idle: "ps_pc s t = F_idle"
  shows "\<not> popping (ps_pc s u)"
proof (cases "u = t")
  case False
  have ok: "thread_ok s u"
    by (rule wq_invD(10) [OF inv])
  have "\<not> wk_working s u"
    using wq_invD(8) [OF inv w] False by blast
  with ok show ?thesis
    by (cases "wk_pc s u") (simp_all add: thread_ok_def)
qed (simp add: idle)

text \<open>One thread moves; only the worker pops, hands out and subtracts.\<close>

lemma wq_inv_move:
  assumes inv: "wq_inv s" and fifo: "mpsc_inv s'"
    and others: "\<forall>u. u \<noteq> t \<longrightarrow> ps_own s' u = ps_own s u \<and> ps_pc s' u = ps_pc s u
      \<and> wk_pc s' u = wk_pc s u \<and> wk_working s' u = wk_working s u"
    and wait: "finite (waiting s')" "length (ps_pushed s') + card (waiting s') = wk_added s'"
    and counts: "wk_removed s' \<le> wk_handed s'" "wk_handed s' \<le> length (ps_popped s')"
      "wk_in s' = of_nat (wk_added s' - wk_removed s')"
      "wk_out s' = (if resetting s' then 0 else of_nat (wk_handed s' - wk_removed s'))"
    and worker: "\<forall>u v. wk_working s' u \<longrightarrow> wk_working s' v \<longrightarrow> u = v"
      "(\<exists>u. wk_working s' u) \<longleftrightarrow> wk_removed s' < wk_added s'"
    and thread: "thread_ok s' t"
    and quiet: "wk_removed s' = wk_removed s \<and> wk_handed s' = wk_handed s \<and> ps_popped s' = ps_popped s
      \<or> wk_working s t"
  shows "wq_inv s'"
proof -
  have "thread_ok s' u" for u
  proof (cases "u = t")
    case False
    have same: "ps_own s' u = ps_own s u" "ps_pc s' u = ps_pc s u" "wk_pc s' u = wk_pc s u" "wk_working s' u = wk_working s u"
      using others False by blast+
    have ok: "thread_ok s u"
      by (rule wq_invD(10) [OF inv])
    show ?thesis
    proof (cases "wk_working s t")
      case True
      then have "\<not> wk_working s u"
        using wq_invD(8) [OF inv True] False by blast
      from wpc_ok_idle_worker [OF this] ok show ?thesis
        unfolding thread_ok_def same by blast
    next
      case not_worker: False
      with quiet ok show ?thesis
        by (simp add: thread_ok_def same)
    qed
  qed (simp add: thread)
  then show ?thesis
    unfolding wq_inv_def using fifo wait counts worker by blast
qed

lemma fifo_next_own: "fifo_next t s = Some s' \<Longrightarrow> u \<noteq> t \<Longrightarrow> ps_own s' u = ps_own s u"
  by (cases "ps_pc s t") (auto simp: fifo_next_def Let_def split: bind_splits if_splits prod.splits)

lemma fifo_next_push:
  assumes "fifo_next t s = Some s'" and "\<not> popping (ps_pc s t)"
  shows "ps_popped s' = ps_popped s" "\<not> popping (ps_pc s' t)" "ps_pc s' t \<noteq> F_returned n"
  using assms by (cases "ps_pc s t"; auto simp: fifo_next_def Let_def split: bind_splits if_splits prod.splits)+

lemma fifo_next_pop:
  assumes "fifo_next t s = Some s'" and "popping (ps_pc s t)"
  shows "popping (ps_pc s' t) \<or> (\<exists>n. ps_pc s' t = F_returned n)"
  using assms by (cases "ps_pc s t") (auto simp: fifo_next_def Let_def split: bind_splits if_splits prod.splits)

text \<open>A step of the FIFO, in a push or in a pop of the worker.\<close>

lemma wq_inv_fifo:
  assumes inv: "wq_inv s" and step: "fifo_next t s = Some s'"
    and pc: "wk_pc s t = K_get \<or> (\<exists>ret. wk_pc s t = K_pushing ret)"
  shows "wq_inv s'"
proof -
  note D = wq_invD [OF inv] and W = fifo_next_wk [OF step] and E = fifo_next_effect [OF step D(2)]
  have others: "\<forall>u. u \<noteq> t \<longrightarrow> ps_own s' u = ps_own s u \<and> ps_pc s' u = ps_pc s u
      \<and> wk_pc s' u = wk_pc s u \<and> wk_working s' u = wk_working s u"
    using W fifo_next_own [OF step] fifo_next_other [OF step] by simp
  have res: "resetting s' = resetting s"
    by (simp add: resetting_def W)
  have ok: "thread_ok s t"
    by (rule D(10))
  have "thread_ok s' t \<and> (ps_popped s' = ps_popped s \<or> wk_working s t)"
  proof (cases "wk_pc s t = K_get")
    case True
    have "\<not> (\<exists>n. ps_pc s t = F_returned n)"
      using step by (auto simp: fifo_next_def)
    then have pop: "popping (ps_pc s t)" "wk_working s t"
      using ok True by (simp_all add: thread_ok_def)
    have "n \<noteq> NULL \<longrightarrow> wk_handed s < length (ps_popped s')" if "ps_pc s' t = F_returned n" for n
      using E(4) [OF that] D(5) by linarith
    then show ?thesis
      using fifo_next_pop [OF step pop(1)] True pop(2) by (auto simp: thread_ok_def W)
  next
    case False
    then obtain ret where K: "wk_pc s t = K_pushing ret"
      using pc by blast
    then have "\<not> popping (ps_pc s t)"
      using ok by (simp add: thread_ok_def)
    from fifo_next_push [OF step this] K show ?thesis
      by (simp add: thread_ok_def W)
  qed
  then have thread: "thread_ok s' t" and quiet: "wk_removed s' = wk_removed s \<and> wk_handed s' = wk_handed s \<and> ps_popped s' = ps_popped s
      \<or> wk_working s t"
    by (auto simp: W)
  have worker: "\<forall>u v. wk_working s' u \<longrightarrow> wk_working s' v \<longrightarrow> u = v" "(\<exists>u. wk_working s' u) \<longleftrightarrow> wk_removed s' < wk_added s'"
    unfolding W using D(8,9) by blast+
  have counts: "length (ps_pushed s') + card (waiting s') = wk_added s'" "wk_removed s' \<le> wk_handed s'"
      "wk_handed s' \<le> length (ps_popped s')"
    unfolding W using E(2,3) D(3,4,5) by linarith+
  show ?thesis
    by (rule wq_inv_move [OF inv mpsc_inv_next [OF D(1) step] others E(1) counts _ _ worker thread quiet])
      (simp_all only: W res D(6,7))
qed

text \<open>A step that leaves the FIFO and the counters alone.\<close>

lemma wq_inv_goto:
  assumes inv: "wq_inv s" and s': "s' = s\<lparr>ps_pc := (ps_pc s)(t := f), wk_pc := (wk_pc s)(t := pc)\<rparr>"
    and f: "mpsc_inv s'" "unswapped f = unswapped (ps_pc s t)"
    and pc: "wpc_ok (wk_working s t) (ps_own s t) (wk_removed s) (wk_handed s) (length (ps_popped s)) f pc"
      "\<And>old. wk_pc s t \<noteq> K_sub old" "\<And>old. pc \<noteq> K_sub old"
  shows "wq_inv s'"
proof -
  note D = wq_invD [OF inv]
  have others: "\<forall>u. u \<noteq> t \<longrightarrow> ps_own s' u = ps_own s u \<and> ps_pc s' u = ps_pc s u
      \<and> wk_pc s' u = wk_pc s u \<and> wk_working s' u = wk_working s u"
    by (simp add: s')
  have wait: "waiting s' = waiting s"
    using f(2) by (auto simp: waiting_def s')
  have res: "resetting s' = resetting s"
    using pc(2,3) unfolding resetting_def s' by simp (metis fun_upd_apply)
  have thread: "thread_ok s' t"
    using pc(1) by (simp add: thread_ok_def s')
  have worker: "\<forall>u v. wk_working s' u \<longrightarrow> wk_working s' v \<longrightarrow> u = v" "(\<exists>u. wk_working s' u) \<longleftrightarrow> wk_removed s' < wk_added s'"
    using D(8,9) by (simp_all add: s')
  show ?thesis
    by (rule wq_inv_move [OF inv f(1) others _ _ _ _ _ _ worker thread])
      (use D(2-7) in \<open>simp_all only: wait res, simp_all add: s'\<close>)
qed

text \<open>The increment of \<open>in_count\<close>: it returns 1 exactly when there is no worker.\<close>

lemma wq_inv_add:
  assumes inv: "wq_inv s" and pc: "wk_pc s t = K_add n" and step: "wq_next t s = Some s'"
    and bound: "wk_added s' < 2 ^ 64"
  shows "wq_inv s'"
proof -
  note D = wq_invD [OF inv]
  define start where "start \<longleftrightarrow> wk_in s + 1 = 1"
  define s1 where "s1 = (wq_goto s t (K_pushing (if start then WORK_QUEUE_START_WORKING else WORK_QUEUE_QUEUED)))
      \<lparr>wk_in := wk_in s + 1, wk_added := wk_added s + 1, wk_working := (wk_working s)(t := wk_working s t \<or> start)\<rparr>"
  have push: "begin_push t n s1 = Some s'"
    using step pc by (cases start) (simp_all add: wq_next_def sync_add_and_fetch_def s1_def start_def work_queue_codes)
  have "mpsc_inv s1"
    using D(1) mpsc_inv_cong [of s1 s] by (simp add: s1_def)
  then have fifo: "mpsc_inv s'"
    using push by (rule mpsc_inv_begin_push)
  have s': "s' = (fifo_goto s1 t (F_clear n))\<lparr>ps_own := (ps_own s)(t := ps_own s t - {n})\<rparr>" and idle: "ps_pc s t = F_idle"
    using push by (auto simp: begin_push_def s1_def split: if_splits)
  have others: "\<forall>u. u \<noteq> t \<longrightarrow> ps_own s' u = ps_own s u \<and> ps_pc s' u = ps_pc s u
      \<and> wk_pc s' u = wk_pc s u \<and> wk_working s' u = wk_working s u"
    by (simp add: s' s1_def)
  have le: "wk_removed s \<le> wk_added s"
    using D(4) handed_le_added [OF inv] by linarith
  have wait: "waiting s' = insert t (waiting s)" "t \<notin> waiting s"
    using idle by (auto simp: waiting_def s' s1_def)
  have res: "resetting s' = resetting s"
    using pc unfolding resetting_def s' s1_def by simp (metis fun_upd_apply wq_pc.distinct)
  have count: "wk_in s + 1 = of_nat (wk_added s + 1 - wk_removed s)"
    using D(6) le by (simp add: Suc_diff_le)
  have "(of_nat (wk_added s + 1 - wk_removed s) :: u64) = of_nat 1 \<longleftrightarrow> wk_added s + 1 - wk_removed s = 1"
    using bound by (intro of_nat_u64_inj) (simp_all add: s' s1_def)
  then have start: "start \<longleftrightarrow> \<not> wk_removed s < wk_added s"
    using le unfolding start_def count by auto
  then have none: "\<not> wk_working s u" if start for u
    using that D(9) by blast
  have working: "wk_working s' u \<longleftrightarrow> wk_working s u \<or> start \<and> u = t" for u
    by (auto simp: s' s1_def)
  have worker: "\<forall>u v. wk_working s' u \<longrightarrow> wk_working s' v \<longrightarrow> u = v" "(\<exists>u. wk_working s' u) \<longleftrightarrow> wk_removed s' < wk_added s'"
  proof -
    show "\<forall>u v. wk_working s' u \<longrightarrow> wk_working s' v \<longrightarrow> u = v"
      using D(8) none working by blast
    have "\<exists>u. wk_working s' u"
      using D(9) start working by blast
    then show "(\<exists>u. wk_working s' u) \<longleftrightarrow> wk_removed s' < wk_added s'"
      using le by (simp add: s' s1_def)
  qed
  have thread: "thread_ok s' t"
    by (simp add: thread_ok_def s' s1_def)
  show ?thesis
  proof (rule wq_inv_move [OF inv fifo others _ _ _ _ _ _ worker thread])
    show "finite (waiting s')" "length (ps_pushed s') + card (waiting s') = wk_added s'"
      using D(2,3) wait by (simp_all add: s' s1_def)
    show "wk_in s' = of_nat (wk_added s' - wk_removed s')"
      using count by (simp add: s' s1_def)
    show "wk_out s' = (if resetting s' then 0 else of_nat (wk_handed s' - wk_removed s'))"
      using D(7) unfolding res by (simp add: s' s1_def)
  qed (use D(4,5) in \<open>simp_all add: s' s1_def\<close>)
qed

text \<open>The worker's steps on the counters.\<close>

lemma wq_inv_reset:
  assumes inv: "wq_inv s" and step: "wq_next t s = Some s'" and K: "wk_pc s t = K_reset"
  shows "wq_inv s'"
proof -
  note D = wq_invD [OF inv]
  have ok: "thread_ok s t"
    by (rule D(10))
  then have w: "wk_working s t" and idle: "ps_pc s t = F_idle"
    using K by (simp_all add: thread_ok_def)
  have only: "u = t" if "wk_working s u" for u
    by (rule D(8) [OF that w])
  have worker: "\<forall>u v. wk_working s u \<longrightarrow> wk_working s v \<longrightarrow> u = v" "(\<exists>u. wk_working s u) \<longleftrightarrow> wk_removed s < wk_added s"
    using D(8,9) by blast+
  have "\<nexists>old. wk_pc s t = K_sub old"
    using K by simp
  then have out: "wk_out s = of_nat (wk_handed s - wk_removed s)"
    using D(7) resetting_worker [OF inv w] by simp
  have s': "s' = (wq_goto s t (K_sub (wk_out s)))\<lparr>wk_out := 0\<rparr>"
    using step K by (simp add: wq_next_def)
  have "mpsc_inv s'"
    using D(1) mpsc_inv_cong [of s' s] by (simp add: s')
  moreover have "resetting s'" "waiting s' = waiting s"
    by (auto simp: resetting_def s' waiting_def)
  moreover have "thread_ok s' t"
    using w idle out by (simp add: thread_ok_def s')
  ultimately show ?thesis
    using D(2-6) worker by (intro wq_inv_move [OF inv, of s' t]) (simp_all, simp_all add: s')
qed

lemma wq_inv_out:
  assumes inv: "wq_inv s" and step: "wq_next t s = Some s'" and K: "wk_pc s t = K_out n"
  shows "wq_inv s'"
proof -
  note D = wq_invD [OF inv]
  have ok: "thread_ok s t"
    by (rule D(10))
  then have w: "wk_working s t" and idle: "ps_pc s t = F_idle"
    using K by (simp_all add: thread_ok_def)
  have only: "u = t" if "wk_working s u" for u
    by (rule D(8) [OF that w])
  have others_res: "wk_pc s u \<noteq> K_sub v" if "u \<noteq> t" for u v
    using D(10) [of u] only that by (auto simp: thread_ok_def)
  have worker: "\<forall>u v. wk_working s u \<longrightarrow> wk_working s v \<longrightarrow> u = v" "(\<exists>u. wk_working s u) \<longleftrightarrow> wk_removed s < wk_added s"
    using D(8,9) by blast+
  have "\<nexists>old. wk_pc s t = K_sub old"
    using K by simp
  then have out: "wk_out s = of_nat (wk_handed s - wk_removed s)"
    using D(7) resetting_worker [OF inv w] by simp
  have s': "s' = (wq_goto s t K_idle)\<lparr>wk_out := wk_out s + 1, wk_handed := wk_handed s + 1\<rparr>"
    using step K by (simp add: wq_next_def)
  have "mpsc_inv s'"
    using D(1) mpsc_inv_cong [of s' s] by (simp add: s')
  moreover have "\<not> resetting s'" "waiting s' = waiting s"
    using others_res by (auto simp: resetting_def s' waiting_def)
  moreover have "wk_out s' = of_nat (wk_handed s' - wk_removed s')"
    using D(4) out by (simp add: s' Suc_diff_le)
  moreover have "wk_handed s < length (ps_popped s)"
    using ok K by (simp add: thread_ok_def)
  moreover have "thread_ok s' t"
    using idle by (simp add: thread_ok_def s')
  ultimately show ?thesis
    using D(2-6) worker w by (intro wq_inv_move [OF inv, of s' t]) (simp_all, simp_all add: s')
qed

lemma wq_inv_sub:
  assumes inv: "wq_inv s" and step: "wq_next t s = Some s'" and bound: "wk_added s < 2 ^ 64" and K: "wk_pc s t = K_sub old"
  shows "wq_inv s'"
proof -
  note D = wq_invD [OF inv]
  have ok: "thread_ok s t"
    by (rule D(10))
  then have w: "wk_working s t" and idle: "ps_pc s t = F_idle"
    using K by (simp_all add: thread_ok_def)
  have only: "u = t" if "wk_working s u" for u
    by (rule D(8) [OF that w])
  have others_res: "wk_pc s u \<noteq> K_sub v" if "u \<noteq> t" for u v
    using D(10) [of u] only that by (auto simp: thread_ok_def)
  have le: "wk_handed s \<le> wk_added s"
    by (rule handed_le_added [OF inv])
  have old: "old = of_nat (wk_handed s - wk_removed s)"
    using ok K by (simp add: thread_ok_def)
  have new: "wk_in s + - old = of_nat (wk_added s - wk_handed s)"
    using D(4,6) le unfolding old by (simp add: of_nat_diff)
  have zero: "wk_in s + - old = 0 \<longleftrightarrow> wk_handed s = wk_added s"
  proof -
    have "(of_nat (wk_added s - wk_handed s) :: u64) = of_nat 0 \<longleftrightarrow> wk_added s - wk_handed s = 0"
      using bound by (intro of_nat_u64_inj) simp_all
    then show ?thesis
      using le unfolding new by auto
  qed
  have out: "wk_out s = 0"
    using D(7) K by (auto simp: resetting_def split: if_splits)
  let ?s = "s\<lparr>wk_in := wk_in s + - old, wk_removed := wk_handed s\<rparr>"
  show ?thesis
  proof (cases "wk_handed s = wk_added s")
    case True
    then have s': "s' = (wq_goto ?s t K_idle)\<lparr>wk_working := (wk_working s)(t := False)\<rparr>"
      using step K zero by (simp add: wq_next_def sync_add_and_fetch_def)
    have "mpsc_inv s'"
      using D(1) mpsc_inv_cong [of s' s] by (simp add: s')
    moreover have "\<not> resetting s'" "waiting s' = waiting s"
      using others_res by (auto simp: resetting_def s' waiting_def)
    moreover have "\<forall>u. u \<noteq> t \<longrightarrow> \<not> wk_working s u"
      using only by blast
    moreover have "thread_ok s' t"
      using idle by (simp add: thread_ok_def s')
    ultimately show ?thesis
      using D(2-6) w new out True by (intro wq_inv_move [OF inv, of s' t]) (simp_all, simp_all add: s')
  next
    case False
    then have s': "s' = pop_again t ?s"
      using step K zero by (simp add: wq_next_def sync_add_and_fetch_def)
    have "mpsc_inv ?s"
      using D(1) mpsc_inv_cong [of ?s s] by simp
    moreover have "\<not> popping (ps_pc s u)" for u
      by (rule worker_alone [OF inv w idle])
    ultimately have "mpsc_inv (fifo_goto ?s t F_head)"
      using idle by (intro mpsc_inv_begin_pop) simp_all
    then have "mpsc_inv s'"
      using mpsc_inv_cong [of s' "fifo_goto ?s t F_head"] by (simp add: s' pop_again_def)
    moreover have "\<not> resetting s'" "waiting s' = waiting s"
      using others_res idle by (auto simp: resetting_def s' waiting_def pop_again_def)
    moreover have "thread_ok s' t"
      using w by (simp add: thread_ok_def s' pop_again_def)
    moreover have "\<forall>u v. wk_working s u \<longrightarrow> wk_working s v \<longrightarrow> u = v" "\<exists>u. wk_working s u"
      using D(8) w by blast+
    ultimately show ?thesis
      using D(2-6) w new out False le by (intro wq_inv_move [OF inv, of s' t]) (simp_all, simp_all add: s' pop_again_def)
  qed
qed

lemma wq_inv_pop_again:
  assumes inv: "wq_inv s" and w: "wk_working s t" and idle: "ps_pc s t = F_idle" and pc: "\<And>old. wk_pc s t \<noteq> K_sub old"
  shows "wq_inv (pop_again t s)"
proof -
  note D = wq_invD [OF inv]
  have "\<not> popping (ps_pc s u)" for u
    by (rule worker_alone [OF inv w idle])
  then have "mpsc_inv (fifo_goto s t F_head)"
    using D(1) idle by (intro mpsc_inv_begin_pop) simp_all
  then have "mpsc_inv (pop_again t s)"
    using mpsc_inv_cong [of "pop_again t s" "fifo_goto s t F_head"] by (simp add: pop_again_def)
  then show ?thesis
    using w idle pc by (intro wq_inv_goto [OF inv, where s' = "pop_again t s" and t = t and f = F_head and pc = K_get]) (simp_all add: pop_again_def)
qed

lemma wq_inv_pushing:
  assumes inv: "wq_inv s" and step: "wq_next t s = Some s'" and K_pushing: "wk_pc s t = K_pushing ret"
  shows "wq_inv s'"
proof -
  note D = wq_invD [OF inv]
  have ok: "thread_ok s t"
    by (rule D(10))
  show ?thesis
  proof (cases "ps_pc s t = F_idle")
    case True
    then have s': "s' = wq_goto s t K_idle"
      using step K_pushing by (simp add: wq_next_def)
    then have "mpsc_inv s'"
      using D(1) mpsc_inv_cong [of s' s] by simp
    then show ?thesis
      using True K_pushing s' by (intro wq_inv_goto [OF inv, where s' = s' and t = t and f = F_idle and pc = K_idle]) (auto simp: fun_upd_idem)
  next
    case False
    then show ?thesis
      using step K_pushing wq_inv_fifo [OF inv, of t s'] by (simp add: wq_next_def)
  qed
qed

lemma wq_inv_get:
  assumes inv: "wq_inv s" and step: "wq_next t s = Some s'" and K_get: "wk_pc s t = K_get"
  shows "wq_inv s'"
proof -
  note D = wq_invD [OF inv]
  have ok: "thread_ok s t"
    by (rule D(10))
  show ?thesis
  proof (cases "\<exists>n. ps_pc s t = F_returned n")
    case True
    then obtain n where n: "ps_pc s t = F_returned n" by blast
    then have s': "s' = wq_goto (fifo_goto s t F_idle) t (if n \<noteq> NULL then K_out n else K_cmp)"
      using step K_get by (simp add: wq_next_def)
    then have "mpsc_inv s'"
      using mpsc_inv_return [OF D(1) disjI1 [OF n]] mpsc_inv_cong [of s' "fifo_goto s t F_idle"] by simp
    then show ?thesis
      using ok K_get n s'
      by (intro wq_inv_goto [OF inv, where s' = s' and t = t and f = F_idle and pc = "if n \<noteq> NULL then K_out n else K_cmp"]) (simp_all add: thread_ok_def)
  next
    case False
    then have "fifo_next t s = Some s'"
      using step K_get by (auto simp: wq_next_def split: fifo_pc.splits)
    then show ?thesis
      using wq_inv_fifo [OF inv] K_get by blast
  qed
qed

lemma wq_inv_cmp:
  assumes inv: "wq_inv s" and step: "wq_next t s = Some s'" and K_cmp: "wk_pc s t = K_cmp"
  shows "wq_inv s'"
proof -
  note D = wq_invD [OF inv]
  have ok: "thread_ok s t"
    by (rule D(10))
  from K_cmp have w: "wk_working s t" and idle: "ps_pc s t = F_idle"
    using ok by (simp_all add: thread_ok_def)
  show ?thesis
  proof (cases "wk_out s = wk_in s")
    case True
    then have s': "s' = wq_goto s t K_reset"
      using step K_cmp by (simp add: wq_next_def)
    then have "mpsc_inv s'"
      using D(1) mpsc_inv_cong [of s' s] by simp
    then show ?thesis
      using w idle K_cmp s' by (intro wq_inv_goto [OF inv, where s' = s' and t = t and f = F_idle and pc = K_reset]) (auto simp: fun_upd_idem)
  next
    case False
    then show ?thesis
      using step K_cmp wq_inv_pop_again [OF inv w idle] by (simp add: wq_next_def)
  qed
qed

lemma wq_inv_next:
  assumes inv: "wq_inv s" and step: "wq_next t s = Some s'" and bound: "wk_added s' < 2 ^ 64"
  shows "wq_inv s'"
proof -
  note D = wq_invD [OF inv]
  have ok: "thread_ok s t"
    by (rule D(10))
  show ?thesis
  proof (cases "wk_pc s t")
    case K_idle
    with step show ?thesis by (simp add: wq_next_def)
  next
    case (K_add n)
    then show ?thesis
      using wq_inv_add [OF inv _ step bound] by blast
  next
    case (K_pushing ret)
    then show ?thesis
      by (rule wq_inv_pushing [OF inv step])
  next
    case K_get
    then show ?thesis
      by (rule wq_inv_get [OF inv step])
  next
    case K_cmp
    then show ?thesis
      by (rule wq_inv_cmp [OF inv step])
  next
    case (K_out n)
    then show ?thesis
      by (rule wq_inv_out [OF inv step])
  next
    case K_reset
    then show ?thesis
      by (rule wq_inv_reset [OF inv step])
  next
    case (K_sub old)
    then have "wk_added s < 2 ^ 64"
      using step bound by (auto simp: wq_next_def Let_def pop_again_def split: if_splits prod.splits)
    then show ?thesis
      by (rule wq_inv_sub [OF inv step _ K_sub])
  qed
qed

lemma wq_inv_step:
  assumes inv: "wq_inv s" and bound: "wk_added s' < 2 ^ 64" and "wq_step s s'"
  shows "wq_inv s'"
proof -
  note D = wq_invD [OF inv]
  obtain a where step: "wq_do a s = Some s'"
    using assms(3) by (elim wq_stepE)
  show ?thesis
  proof (cases a)
    case (Call_wpush t n)
    then have s': "s' = wq_goto s t (K_add n)" and t: "wk_pc s t = K_idle" "n \<in> ps_own s t"
      using step by (auto split: if_splits)
    have "mpsc_inv s'"
      using D(1) mpsc_inv_cong [of s' s] s' by simp
    moreover have "ps_pc s t = F_idle"
      using D(10) [of t] t(1) by (simp add: thread_ok_def)
    ultimately show ?thesis
      using t s' by (intro wq_inv_goto [OF inv, where s' = s' and t = t and f = F_idle and pc = "K_add n"]) (auto simp: fun_upd_idem)
  next
    case (Call_wget t)
    then have s': "s' = pop_again t s" and t: "wk_pc s t = K_idle" "wk_working s t"
      using step by (auto split: if_splits)
    then show ?thesis
      using wq_inv_pop_again [OF inv t(2)] D(10) [of t] by (simp add: thread_ok_def)
  next
    case (Wgo t)
    then show ?thesis
      using step wq_inv_next [OF inv _ bound] by simp
  next
    case (Wwrite t n nd)
    then have push: "own_write t n nd s = Some s'"
      using step by simp
    then have s': "s' = s\<lparr>ps_heap := (ps_heap s)(n \<mapsto> nd)\<rparr>"
      by (auto simp: own_write_def split: if_splits)
    have "waiting s' = waiting s" "resetting s' = resetting s" "thread_ok s' t"
      using D(10) [of t] by (simp_all add: s' waiting_def resetting_def thread_ok_def)
    moreover have "\<forall>u v. wk_working s u \<longrightarrow> wk_working s v \<longrightarrow> u = v" "(\<exists>u. wk_working s u) \<longleftrightarrow> wk_removed s < wk_added s"
      using D(8,9) by blast+
    ultimately show ?thesis
      using D(2-7) mpsc_inv_own_write [OF D(1) push] by (intro wq_inv_move [OF inv, of s' t]) (simp_all, simp_all add: s')
  qed
qed

definition wq_bound :: "wq_sys \<Rightarrow> bool" where
  "wq_bound s \<longleftrightarrow> wk_added s < 2 ^ 64"

lemma wq_bound_back: "wq_step s s' \<Longrightarrow> wq_bound s' \<Longrightarrow> wq_bound s"
proof (elim wq_stepE)
  fix a assume step: "wq_do a s = Some s'" and "wq_bound s'"
  have "wk_added s \<le> wk_added s'"
  proof (cases a)
    case (Wgo t)
    then show ?thesis
      using step by (cases "wk_pc s t") (auto simp: wq_next_def Let_def begin_push_def pop_again_def
          split: if_splits fifo_pc.splits prod.splits dest: fifo_next_wk(5))
  qed (use step in \<open>auto simp: own_write_def pop_again_def split: if_splits\<close>)
  with \<open>wq_bound s'\<close> show "wq_bound s"
    by (simp add: wq_bound_def)
qed

lemma wq_inv_start:
  assumes "own_ok p h own"
  shows "wq_inv (wq_start p h own)"
proof -
  have p: "p \<noteq> NULL"
    using assms by (simp add: own_ok_def)
  have s: "wq_start p h own = \<lparr>ps_heap = calloc_node h p, ps_head = p, ps_tail = p, ps_pc = (\<lambda>_. F_idle),
      ps_own = own, ps_nodes = [p], ps_pushed = [], ps_popped = [], wk_in = 0, wk_out = 0, wk_pc = (\<lambda>_. K_idle),
      wk_working = (\<lambda>_. False), wk_added = 0, wk_removed = 0, wk_handed = 0\<rparr>"
    using p by (simp add: wq_start_def work_queue_init_def mpsc_init_ok(1))
  have "mpsc_inv (wq_start p h own)"
    using assms p unfolding s
    by (auto simp: mpsc_inv_def ps_holds_def own_ok_def in_flight_def calloc_node_def rd_next_def)
  then show ?thesis
    by (simp add: s wq_inv_def waiting_def resetting_def thread_ok_def)
qed

interpretation work: bounded_invariant wq_init wq_step wq_bound wq_inv
  by unfold_locales (auto simp: wq_init_def wq_bound_def
      intro: wq_inv_start wq_inv_step dest: wq_bound_back [unfolded wq_bound_def])

lemma wk_in_zero:
  assumes "wq_inv s" and "wk_added s < 2 ^ 64"
  shows "wk_in s = 0 \<longleftrightarrow> wk_removed s = wk_added s"
proof -
  have le: "wk_removed s \<le> wk_added s"
    using wq_invD(4) [OF assms(1)] handed_le_added [OF assms(1)] by linarith
  have "(of_nat (wk_added s - wk_removed s) :: u64) = of_nat 0 \<longleftrightarrow> wk_added s - wk_removed s = 0"
    using assms(2) by (intro of_nat_u64_inj) simp_all
  then show ?thesis
    using le unfolding wq_invD(6) [OF assms(1)] by auto
qed

section \<open>Properties\<close>

text \<open>
  C12. Mutual exclusion: whatever the interleaving, at most one thread is the worker at any time,
  and there is one exactly when \<open>in_count\<close> is not 0. So a push that returns
  \<open>WORK_QUEUE_QUEUED\<close> leaves its item to a worker, and one that returns
  \<open>WORK_QUEUE_START_WORKING\<close> becomes the only one. (For fewer than \<open>2 ^ 64\<close> pushes.)
\<close>

theorem work_queue_one_worker:
  assumes "reach wq_init wq_step s" and "wk_added s < 2 ^ 64"
  shows "(\<forall>t u. wk_working s t \<and> wk_working s u \<longrightarrow> t = u) \<and> ((\<exists>t. wk_working s t) \<longleftrightarrow> wk_in s \<noteq> 0)"
proof -
  have inv: "wq_inv s"
    using work.reach_inv [OF assms(1)] assms(2) by (simp add: wq_bound_def)
  have "wk_removed s \<le> wk_added s"
    using wq_invD(4) [OF inv] handed_le_added [OF inv] by linarith
  then have "(\<exists>t. wk_working s t) \<longleftrightarrow> wk_in s \<noteq> 0"
    using wq_invD(9) [OF inv] wk_in_zero [OF inv assms(2)] by auto
  with wq_invD(8) [OF inv] show ?thesis by blast
qed

text \<open>
  C19. No item is left behind: the items come out in the order of the pushes, and when
  \<open>in_count\<close> is 0 (the last worker has been told \<open>WORK_QUEUE_EMPTY\<close>) every push that has begun has put its item
  into the FIFO, every item has been handed out, and the FIFO has no node but its dummy.
\<close>

theorem work_queue_no_item_left:
  assumes "reach wq_init wq_step s" and "wk_added s < 2 ^ 64"
  shows "prefix (ps_popped s) (ps_pushed s)
    \<and> (wk_in s = 0 \<longrightarrow> ps_popped s = ps_pushed s \<and> length (ps_pushed s) = wk_added s
        \<and> wk_handed s = wk_added s \<and> ps_nodes s = [ps_head s] \<and> waiting s = {})"
proof -
  have inv: "wq_inv s"
    using work.reach_inv [OF assms(1)] assms(2) by (simp add: wq_bound_def)
  note D = wq_invD [OF inv] and M = mpsc_invD [OF wq_invD(1) [OF inv]]
  have pre: "prefix (ps_popped s) (ps_pushed s)"
    using M(14) by (simp add: prefix_def)
  have "ps_popped s = ps_pushed s \<and> length (ps_pushed s) = wk_added s
        \<and> wk_handed s = wk_added s \<and> ps_nodes s = [ps_head s] \<and> waiting s = {}" if "wk_in s = 0"
  proof -
    have "wk_removed s = wk_added s"
      using that wk_in_zero [OF inv assms(2)] by blast
    then have len: "wk_handed s = wk_added s" "length (ps_popped s) = wk_added s" "length (ps_pushed s) = wk_added s"
        "card (waiting s) = 0"
      using D(3,4,5) popped_le_pushed [OF D(1)] by linarith+
    then have "ps_popped s = ps_pushed s"
      using pre by (metis append_eq_conv_conj prefixE take_all_iff order_refl)
    moreover have "length (tl (ps_nodes s)) = 0"
      using arg_cong [OF M(14), of length] len by simp
    then have "ps_nodes s = [ps_head s]"
      using M(1,2) by (cases "ps_nodes s") auto
    ultimately show ?thesis
      using len D(2) by simp
  qed
  with pre show ?thesis by blast
qed

text \<open>
  Thread 1 becomes the worker; thread 2 increments \<open>in_count\<close> and is slow to push. The worker
  hands out its own item, finds the FIFO empty but \<open>out_count\<close> less than \<open>in_count\<close>, tries again
  until thread 2 is done, hands out its item and finishes.
\<close>

definition wq_demo :: "wq_act list" where
  "wq_demo = Call_wpush 1 11 # replicate 5 (Wgo 1) @ [Call_wpush 2 12, Wgo 2]
     @ Call_wget 1 # replicate 7 (Wgo 1) @ Call_wget 1 # replicate 4 (Wgo 1)"

definition wq_demo_end :: "wq_act list" where
  "wq_demo_end = replicate 4 (Wgo 2) @ replicate 7 (Wgo 1) @ Call_wget 1 # replicate 6 (Wgo 1)"

definition wq_demo_start :: wq_sys where
  "wq_demo_start = wq_start 10 [11 \<mapsto> node_of 7 0, 12 \<mapsto> node_of 8 0]
     (\<lambda>t. if t = 1 then {11} else if t = 2 then {12} else {})"

lemma wq_demo_reach: "wq_run as wq_demo_start = Some s \<Longrightarrow> reach wq_init wq_step s"
proof -
  have "wq_init wq_demo_start"
    unfolding wq_init_def wq_demo_start_def by (intro exI conjI, rule _ refl) (auto simp: own_ok_def)
  then show "wq_run as wq_demo_start = Some s \<Longrightarrow> reach wq_init wq_step s"
    using wq_run_reach reach_init by metis
qed

theorem work_queue_one_worker_witness:
  "\<exists>s. reach wq_init wq_step s \<and> wk_working s 1 \<and> wk_pc s 2 = K_pushing WORK_QUEUE_QUEUED
     \<and> (\<forall>t. wk_working s t \<longrightarrow> t = 1) \<and> wk_in s \<noteq> 0"
proof -
  have "map_option (\<lambda>s. (wk_working s 1, wk_pc s 2, wk_added s)) (wq_run wq_demo wq_demo_start)
      = Some (True, K_pushing WORK_QUEUE_QUEUED, 2)"
    by code_simp
  then obtain s where s: "wq_run wq_demo wq_demo_start = Some s" "wk_working s 1"
      "wk_pc s 2 = K_pushing WORK_QUEUE_QUEUED" "wk_added s = 2"
    by auto
  note r = wq_demo_reach [OF s(1)]
  from work_queue_one_worker [OF r] s(2-4) have "\<forall>t. wk_working s t \<longrightarrow> t = 1" "wk_in s \<noteq> 0"
    by auto
  with r s(2,3) show ?thesis by blast
qed

theorem work_queue_no_item_left_witness:
  "\<exists>s. reach wq_init wq_step s \<and> wk_in s = 0 \<and> ps_popped s = [7, 8] \<and> wk_handed s = 2 \<and> waiting s = {}"
proof -
  have "map_option (\<lambda>s. (wk_in s, ps_popped s, wk_added s)) (wq_run (wq_demo @ wq_demo_end) wq_demo_start)
      = Some (0, [7, 8], 2)"
    by code_simp
  then obtain s where s: "wq_run (wq_demo @ wq_demo_end) wq_demo_start = Some s" "wk_in s = 0" "ps_popped s = [7, 8]" "wk_added s = 2"
    by auto
  note r = wq_demo_reach [OF s(1)]
  from work_queue_no_item_left [OF r] s(2-4) have "wk_handed s = 2" "waiting s = {}"
    by auto
  with r s(2,3) show ?thesis by blast
qed

end
