(* ===== verification/Deque_Interface.thy ===== *)
theory Deque_Interface
  imports Fib_Prelude
begin

text \<open>
  The contract of a work-stealing deque as its owner and an undisturbed thief see it: pushes and
  pops work at the bottom end of a list, steals at the top. Wsd interprets the locale twice, on
  the bounded push and on the one that grows the array.
\<close>

datatype 'a deque_op = Push_bottom 'a | Pop_bottom | Steal
datatype 'a deque_out = Pushed_bottom bool | Popped_bottom "'a option" | Stolen "'a option"

fun run_deque ::
  "('s \<Rightarrow> 'a \<Rightarrow> (bool \<times> 's) option) \<Rightarrow> ('s \<Rightarrow> ('a option \<times> 's) option) \<Rightarrow>
     ('s \<Rightarrow> ('a option \<times> 's) option) \<Rightarrow> 's \<Rightarrow> 'a deque_op list \<Rightarrow> ('a deque_out list \<times> 's) option" where
  "run_deque push pop steal s [] = Some ([], s)"
| "run_deque push pop steal s (Push_bottom x # ops) = do {
     (b, s') \<leftarrow> push s x;
     (outs, s'') \<leftarrow> run_deque push pop steal s' ops;
     Some (Pushed_bottom b # outs, s'')
   }"
| "run_deque push pop steal s (Pop_bottom # ops) = do {
     (r, s') \<leftarrow> pop s;
     (outs, s'') \<leftarrow> run_deque push pop steal s' ops;
     Some (Popped_bottom r # outs, s'')
   }"
| "run_deque push pop steal s (Steal # ops) = do {
     (r, s') \<leftarrow> steal s;
     (outs, s'') \<leftarrow> run_deque push pop steal s' ops;
     Some (Stolen r # outs, s'')
   }"

text \<open>The same history on a list of at most \<open>n\<close> items, oldest first.\<close>

definition last_item :: "'a list \<Rightarrow> 'a option" where
  "last_item xs = (if xs = [] then None else Some (List.last xs))"

definition first_item :: "'a list \<Rightarrow> 'a option" where
  "first_item xs = (if xs = [] then None else Some (List.hd xs))"

fun spec_deque :: "nat \<Rightarrow> 'a list \<Rightarrow> 'a deque_op list \<Rightarrow> 'a deque_out list \<times> 'a list" where
  "spec_deque n xs [] = ([], xs)"
| "spec_deque n xs (Push_bottom x # ops) =
     apfst (Cons (Pushed_bottom (length xs < n))) (spec_deque n (if length xs < n then xs @ [x] else xs) ops)"
| "spec_deque n xs (Pop_bottom # ops) =
     apfst (Cons (Popped_bottom (last_item xs))) (spec_deque n (butlast xs) ops)"
| "spec_deque n xs (Steal # ops) =
     apfst (Cons (Stolen (first_item xs))) (spec_deque n (tl xs) ops)"

definition legal_deque_ops :: "('a \<Rightarrow> bool) \<Rightarrow> 'a deque_op list \<Rightarrow> bool" where
  "legal_deque_ops legal ops =
     list_all (\<lambda>op. case op of Push_bottom x \<Rightarrow> legal x | Pop_bottom \<Rightarrow> True | Steal \<Rightarrow> True) ops"

lemma legal_deque_ops_simps [simp]:
  "legal_deque_ops legal []"
  "legal_deque_ops legal (Push_bottom x # ops) \<longleftrightarrow> legal x \<and> legal_deque_ops legal ops"
  "legal_deque_ops legal (Pop_bottom # ops) \<longleftrightarrow> legal_deque_ops legal ops"
  "legal_deque_ops legal (Steal # ops) \<longleftrightarrow> legal_deque_ops legal ops"
  by (simp_all add: legal_deque_ops_def)

text \<open>\<open>legal\<close> are the values that are not taken for an answer; \<open>room\<close> is the number of pushes that are certain to be defined.\<close>

locale work_deque =
  fixes ok :: "'s \<Rightarrow> bool"
    and items :: "'s \<Rightarrow> 'a list"
    and cap :: "'s \<Rightarrow> nat"
    and room :: "'s \<Rightarrow> nat"
    and legal :: "'a \<Rightarrow> bool"
    and push :: "'s \<Rightarrow> 'a \<Rightarrow> (bool \<times> 's) option"
    and pop :: "'s \<Rightarrow> ('a option \<times> 's) option"
    and steal :: "'s \<Rightarrow> ('a option \<times> 's) option"
  assumes push_law: "ok s \<Longrightarrow> legal x \<Longrightarrow> 0 < room s \<Longrightarrow>
      \<exists>s'. push s x = Some (length (items s) < cap s, s')
        \<and> ok s' \<and> cap s' = cap s \<and> room s \<le> Suc (room s')
        \<and> items s' = (if length (items s) < cap s then items s @ [x] else items s)"
    and pop_law: "ok s \<Longrightarrow>
      \<exists>s'. pop s = Some (last_item (items s), s')
        \<and> ok s' \<and> cap s' = cap s \<and> room s \<le> room s' \<and> items s' = butlast (items s)"
    and steal_law: "ok s \<Longrightarrow>
      \<exists>s'. steal s = Some (first_item (items s), s')
        \<and> ok s' \<and> cap s' = cap s \<and> room s \<le> room s' \<and> items s' = tl (items s)"
begin

lemma run_refines:
  assumes "ok s" and "legal_deque_ops legal ops" and "length ops \<le> room s"
  shows "\<exists>s'. run_deque push pop steal s ops = Some (fst (spec_deque (cap s) (items s) ops), s')
    \<and> ok s' \<and> items s' = snd (spec_deque (cap s) (items s) ops)"
  using assms
proof (induction ops arbitrary: s)
  case Nil
  then show ?case by simp
next
  case (Cons op ops)
  show ?case
  proof (cases op)
    case (Push_bottom x)
    then obtain s' where s': "push s x = Some (length (items s) < cap s, s')" "ok s'"
        "cap s' = cap s" "room s \<le> Suc (room s')"
        "items s' = (if length (items s) < cap s then items s @ [x] else items s)"
      using push_law [of s x] Cons.prems by auto
    then show ?thesis
      using Cons.IH [of s'] Cons.prems Push_bottom by auto
  next
    case Pop_bottom
    then obtain s' where s': "pop s = Some (last_item (items s), s')"
        "ok s'" "cap s' = cap s" "room s \<le> room s'" "items s' = butlast (items s)"
      using pop_law [of s] Cons.prems by auto
    then show ?thesis
      using Cons.IH [of s'] Cons.prems Pop_bottom by auto
  next
    case Steal
    then obtain s' where s': "steal s = Some (first_item (items s), s')"
        "ok s'" "cap s' = cap s" "room s \<le> room s'" "items s' = tl (items s)"
      using steal_law [of s] Cons.prems by auto
    then show ?thesis
      using Cons.IH [of s'] Cons.prems Steal by auto
  qed
qed

end

end
