(* ===== verification/Wsd.thy ===== *)
theory Wsd
  imports Machine_Specific Deque_Interface
begin

text \<open>
  \<open>work_stealing_deque.h\<close> and \<open>work_stealing_deque.c\<close>: the circular array, the deque of Chase
  and Lev over it, and every operation as one thread sees it. Wsd\_Tso interleaves the owner
  with the thieves, with the owner's store buffer.

  \<open>top\<close> and \<open>bottom\<close> are \<open>int64_t\<close>: integers here, an operation that would leave the
  type's range (signed overflow) being undefined, \<open>None\<close>. Converted to \<open>size_t\<close> they wrap.
\<close>

section \<open>The circular array\<close>

definition int64 :: "int \<Rightarrow> int option" where
  [c_ops]: "int64 x = (if - (2 ^ 63) \<le> x \<and> x < 2 ^ 63 then Some x else None)"

record wsd_circular_array =
  wa_log_size :: u64
  wa_size :: u64
  wa_size_minus_one :: u64
  wa_data :: "ptr list"

text \<open>
  \<open>1 << log_size\<close> is computed in \<open>int\<close>: from 31 on it is undefined. The cells are not
  initialised: \<open>junk\<close> is what they happen to hold. \<open>Some None\<close> is the NULL result.
\<close>

definition wsd_circular_array_create ::
  "u64 \<Rightarrow> bool \<Rightarrow> (nat \<Rightarrow> ptr) \<Rightarrow> wsd_circular_array option option" where
  "wsd_circular_array_create log_size malloc_ok junk =
     (if log_size < 31 then
        let data_size = push_bit (unat log_size) 1 :: u64
        in Some (if malloc_ok
             then Some \<lparr>wa_log_size = log_size, wa_size = data_size, wa_size_minus_one = data_size - 1,
                        wa_data = List.map junk [0..<unat data_size]\<rparr>
             else None)
      else None)"

definition wsd_circular_array_size :: "wsd_circular_array \<Rightarrow> u64" where
  "wsd_circular_array_size a = wa_size a"

definition wsd_circular_array_get :: "wsd_circular_array \<Rightarrow> u64 \<Rightarrow> ptr option" where
  "wsd_circular_array_get a i = buf_get (wa_data a) (i AND wa_size_minus_one a)"

definition wsd_circular_array_put :: "wsd_circular_array \<Rightarrow> u64 \<Rightarrow> ptr \<Rightarrow> wsd_circular_array option" where
  "wsd_circular_array_put a i p = do {
     b \<leftarrow> buf_set (wa_data a) (i AND wa_size_minus_one a) p;
     Some (a\<lparr>wa_data := b\<rparr>)
   }"

text \<open>The copying loop of \<open>wsd_circular_array_grow\<close>, from \<open>i\<close> on.\<close>

function wsd_copy ::
  "wsd_circular_array \<Rightarrow> wsd_circular_array \<Rightarrow> u64 \<Rightarrow> u64 \<Rightarrow> wsd_circular_array option" where
  "wsd_copy a new_a i end' =
     (if i < end' then do {
        p \<leftarrow> wsd_circular_array_get a i;
        new_a' \<leftarrow> wsd_circular_array_put new_a i p;
        wsd_copy a new_a' (i + 1) end'
      } else Some new_a)"
  by pat_completeness auto
termination
proof (relation "measure (\<lambda>(_, _, i, e). unat e - unat i)")
  fix i end' :: u64
  assume "i < end'"
  then show "((a, n, i + 1, end'), a', n', i, end') \<in> measure (\<lambda>(_, _, i, e). unat e - unat i)"
    for a a' n n' :: wsd_circular_array
    by (simp add: unat_Suc_less word_less_nat_alt)
qed simp

declare wsd_copy.simps [simp del]

definition wsd_circular_array_grow ::
  "wsd_circular_array \<Rightarrow> u64 \<Rightarrow> u64 \<Rightarrow> bool \<Rightarrow> (nat \<Rightarrow> ptr) \<Rightarrow> wsd_circular_array option option" where
  "wsd_circular_array_grow a start end' malloc_ok junk = do {
     c_assert (start \<le> end');
     new_a \<leftarrow> wsd_circular_array_create (wa_log_size a + 1) malloc_ok junk;
     case new_a of
       None \<Rightarrow> Some None
     | Some new_a \<Rightarrow> do {
         new_a' \<leftarrow> wsd_copy a new_a start end';
         Some (Some new_a')
       }
   }"

section \<open>The deque\<close>

definition WSD_EMPTY :: ptr where "WSD_EMPTY = - 1"
definition WSD_ABORT :: ptr where "WSD_ABORT = - 2"

record wsd_deque =
  wd_top :: int
  wd_bottom :: int
  wd_array :: wsd_circular_array

text \<open>\<open>malloc_d\<close> and \<open>malloc_a\<close>: whether the two allocations succeed.\<close>

definition wsd_work_stealing_deque_create ::
  "u64 \<Rightarrow> bool \<Rightarrow> bool \<Rightarrow> (nat \<Rightarrow> ptr) \<Rightarrow> wsd_deque option option" where
  "wsd_work_stealing_deque_create log_size malloc_d malloc_a junk =
     (if \<not> malloc_d then Some None
      else let log_size = (if log_size < 8 then 8 else log_size) in
        map_option (map_option (\<lambda>a. \<lparr>wd_top = 0, wd_bottom = 0, wd_array = a\<rparr>))
          (wsd_circular_array_create log_size malloc_a junk))"

text \<open>
  In memory the deque has the address of its array: \<open>arrays\<close> are the arrays by address, \<open>deques\<close> the
  deques with the address of their current array. Arrays that were replaced when the deque grew are the caller's.
\<close>

definition wsd_circular_array_destroy ::
  "(ptr \<Rightarrow> wsd_circular_array option) \<Rightarrow> ptr \<Rightarrow> (ptr \<Rightarrow> wsd_circular_array option) option" where
  "wsd_circular_array_destroy arrays a = free_block arrays a"

definition wsd_work_stealing_deque_destroy ::
  "(ptr \<Rightarrow> wsd_circular_array option) \<Rightarrow> (ptr \<Rightarrow> ptr option) \<Rightarrow> ptr \<Rightarrow>
   ((ptr \<Rightarrow> wsd_circular_array option) \<times> (ptr \<Rightarrow> ptr option)) option" where
  "wsd_work_stealing_deque_destroy arrays deques d =
     (if d \<noteq> NULL then do {
        a \<leftarrow> deques d;
        arrays' \<leftarrow> wsd_circular_array_destroy arrays a;
        deques' \<leftarrow> free_block deques d;
        Some (arrays', deques')
      }
      else Some (arrays, deques))"

text \<open>The current array and the deque are freed, replaced arrays are not; a second call is an error.\<close>

lemma wsd_destroy_law:
  assumes "d \<noteq> NULL" and "a \<noteq> NULL" and "deques d = Some a" and "arrays a = Some arr"
  shows "wsd_work_stealing_deque_destroy arrays deques d = Some (arrays(a := None), deques(d := None))"
    and "wsd_work_stealing_deque_destroy (arrays(a := None)) (deques(d := None)) d = None"
  using assms by (simp_all add: wsd_work_stealing_deque_destroy_def wsd_circular_array_destroy_def)

definition wsd_work_stealing_deque_size :: "wsd_deque \<Rightarrow> u64 option" where
  "wsd_work_stealing_deque_size d = do {
     size \<leftarrow> int64 (wd_bottom d - wd_top d);
     Some (if size < 0 then 0 else word_of_int size)
   }"

text \<open>
  In \<open>grow\<close> the signed size is compared with a \<open>size_t\<close>, that is as an unsigned number.
  The result is the old array, or \<open>WSD_ABORT\<close> (nothing to do), or NULL (no memory).
\<close>

datatype grow_result = Grow_null | Grow_abort | Grow_old wsd_circular_array

definition wsd_work_stealing_grow ::
  "wsd_deque \<Rightarrow> bool \<Rightarrow> (nat \<Rightarrow> ptr) \<Rightarrow> (grow_result \<times> wsd_deque) option" where
  "wsd_work_stealing_grow d malloc_ok junk = do {
     let b = wd_bottom d;
     let t = wd_top d;
     let a = wd_array d;
     size \<leftarrow> int64 (b - t);
     if word_of_int size \<ge> wa_size_minus_one a then do {
       r \<leftarrow> wsd_circular_array_grow a (word_of_int t) (word_of_int b) malloc_ok junk;
       Some (case r of None \<Rightarrow> (Grow_null, d) | Some a' \<Rightarrow> (Grow_old a, d\<lparr>wd_array := a'\<rparr>))
     }
     else Some (Grow_abort, d)
   }"

definition wsd_work_stealing_deque_push_bottom :: "wsd_deque \<Rightarrow> ptr \<Rightarrow> (int \<times> wsd_deque) option" where
  "wsd_work_stealing_deque_push_bottom d p = do {
     let b = wd_bottom d;
     let t = wd_top d;
     let a = wd_array d;
     size \<leftarrow> int64 (b - t);
     if size \<ge> sint (wa_size_minus_one a) then Some (- 1, d)
     else do {
       a' \<leftarrow> wsd_circular_array_put a (word_of_int b) p;
       b' \<leftarrow> int64 (b + 1);
       Some (0, d\<lparr>wd_array := a', wd_bottom := b'\<rparr>)
     }
   }"

text \<open>The third result is what \<open>*old\<close> is set to; without memory it is left alone.\<close>

datatype old_array = Old_unset | Old_null | Old wsd_circular_array

definition wsd_work_stealing_deque_push_bottom_autogrow ::
  "wsd_deque \<Rightarrow> ptr \<Rightarrow> bool \<Rightarrow> (nat \<Rightarrow> ptr) \<Rightarrow> (int \<times> wsd_deque \<times> old_array) option" where
  "wsd_work_stealing_deque_push_bottom_autogrow d p malloc_ok junk = do {
     let b = wd_bottom d;
     let t = wd_top d;
     let a = wd_array d;
     size \<leftarrow> int64 (b - t);
     (d1, old) \<leftarrow>
       (if size \<ge> sint (wa_size_minus_one a) then do {
          r \<leftarrow> wsd_circular_array_grow a (word_of_int t) (word_of_int b) malloc_ok junk;
          Some (case r of None \<Rightarrow> (None, Old_unset) | Some a' \<Rightarrow> (Some (d\<lparr>wd_array := a'\<rparr>), Old a))
        }
        else Some (Some d, Old_null));
     case d1 of
       None \<Rightarrow> Some (- 1, d, old)
     | Some d1 \<Rightarrow> do {
         a' \<leftarrow> wsd_circular_array_put (wd_array d1) (word_of_int b) p;
         b' \<leftarrow> int64 (b + 1);
         Some (0, d1\<lparr>wd_array := a', wd_bottom := b'\<rparr>, old)
       }
   }"

definition wsd_work_stealing_deque_pop_bottom :: "wsd_deque \<Rightarrow> (ptr \<times> wsd_deque) option" where
  "wsd_work_stealing_deque_pop_bottom d = do {
     b \<leftarrow> int64 (wd_bottom d - 1);
     let a = wd_array d;
     let d1 = d\<lparr>wd_bottom := b\<rparr>;
     let t = wd_top d1;
     size \<leftarrow> int64 (b - t);
     if size < 0 then Some (WSD_EMPTY, d1\<lparr>wd_bottom := t\<rparr>)
     else do {
       ret \<leftarrow> wsd_circular_array_get a (word_of_int b);
       if size > 0 then Some (ret, d1)
       else do {
         t_plus_one \<leftarrow> int64 (t + 1);
         (case sync_bool_compare_and_swap (wd_top d1) t t_plus_one of
            (False, _) \<Rightarrow> Some (WSD_ABORT, d1\<lparr>wd_bottom := t_plus_one\<rparr>)
          | (True, top') \<Rightarrow> Some (ret, d1\<lparr>wd_top := top', wd_bottom := t_plus_one\<rparr>))
       }
     }
   }"

definition wsd_work_stealing_deque_steal :: "wsd_deque \<Rightarrow> (ptr \<times> wsd_deque) option" where
  "wsd_work_stealing_deque_steal d = do {
     let t = wd_top d;
     let b = wd_bottom d;
     let a = wd_array d;
     size \<leftarrow> int64 (b - t);
     if size \<le> 0 then Some (WSD_EMPTY, d)
     else do {
       ret \<leftarrow> wsd_circular_array_get a (word_of_int t);
       t' \<leftarrow> int64 (t + 1);
       (case sync_bool_compare_and_swap (wd_top d) t t' of
          (False, _) \<Rightarrow> Some (WSD_ABORT, d)
        | (True, top') \<Rightarrow> Some (ret, d\<lparr>wd_top := top'\<rparr>))
     }
   }"

section \<open>Representation\<close>

text \<open>The array has a power of two of cells; a position is in the cell it is congruent to.\<close>

definition wa_ok :: "wsd_circular_array \<Rightarrow> bool" where
  [inv_defs]: "wa_ok a \<longleftrightarrow> (\<exists>k < 31. wa_log_size a = of_nat k \<and> wa_size a = push_bit k 1
     \<and> wa_size_minus_one a = mask k \<and> length (wa_data a) = 2 ^ k)"

definition wa_cell :: "wsd_circular_array \<Rightarrow> int \<Rightarrow> ptr" where
  "wa_cell a i = wa_data a ! nat (i mod int (length (wa_data a)))"

definition wa_put :: "wsd_circular_array \<Rightarrow> int \<Rightarrow> ptr \<Rightarrow> wsd_circular_array" where
  "wa_put a i p = a\<lparr>wa_data := (wa_data a)[nat (i mod int (length (wa_data a))) := p]\<rparr>"

lemma wa_okE:
  assumes "wa_ok a"
  obtains k where "k < 31" "wa_log_size a = of_nat k" "wa_size a = push_bit k 1"
    "wa_size_minus_one a = mask k" "length (wa_data a) = 2 ^ k"
  using assms by (auto simp: wa_ok_def)

lemma wa_index:
  assumes "wa_ok a"
  shows "unat (word_of_int i AND wa_size_minus_one a) = nat (i mod int (length (wa_data a)))"
    "nat (i mod int (length (wa_data a))) < length (wa_data a)"
proof -
  obtain k where k: "k < 31" "wa_size_minus_one a = mask k" "length (wa_data a) = 2 ^ k"
    using assms by (rule wa_okE)
  then show "unat (word_of_int i AND wa_size_minus_one a) = nat (i mod int (length (wa_data a)))"
    by (simp add: unat_of_int_and_mask)
  have "i mod int (length (wa_data a)) < int (length (wa_data a))"
    using k(3) by (intro pos_mod_bound) simp
  then show "nat (i mod int (length (wa_data a))) < length (wa_data a)"
    by (simp add: nat_less_iff k(3))
qed

lemma wa_get: "wa_ok a \<Longrightarrow> wsd_circular_array_get a (word_of_int i) = Some (wa_cell a i)"
  by (simp add: wsd_circular_array_get_def buf_get_def wa_index wa_cell_def)

lemma wa_put: "wa_ok a \<Longrightarrow> wsd_circular_array_put a (word_of_int i) p = Some (wa_put a i p)"
  by (simp add: wsd_circular_array_put_def buf_set_def wa_index wa_put_def)

lemma wa_put_ok [simp]: "wa_ok (wa_put a i p) = wa_ok a" "length (wa_data (wa_put a i p)) = length (wa_data a)"
  by (simp_all add: wa_ok_def wa_put_def)

lemma wa_put_same [simp]: "wa_ok a \<Longrightarrow> wa_cell (wa_put a i p) i = p"
  by (simp add: wa_cell_def wa_put_def wa_index)

text \<open>Writing a position leaves the others of a window shorter than the array.\<close>

lemma wa_put_other:
  assumes "i \<noteq> j" and "\<bar>i - j\<bar> < int (length (wa_data a))"
  shows "wa_cell (wa_put a i p) j = wa_cell a j"
proof -
  let ?n = "int (length (wa_data a))"
  have "i mod ?n \<noteq> j mod ?n"
  proof
    assume "i mod ?n = j mod ?n"
    then have "?n dvd i - j"
      by (simp add: mod_eq_dvd_iff)
    then show False
      using assms zdvd_not_zless [of "\<bar>i - j\<bar>" ?n] by auto
  qed
  moreover have "0 < ?n"
    using assms(2) by linarith
  ultimately have "nat (i mod ?n) \<noteq> nat (j mod ?n)"
    by (simp add: eq_nat_nat_iff)
  then show ?thesis
    by (simp add: wa_cell_def wa_put_def)
qed

lemma wa_size_sint: "wa_ok a \<Longrightarrow> sint (wa_size_minus_one a) = int (length (wa_data a)) - 1"
  and wa_size_unat: "wa_ok a \<Longrightarrow> unat (wa_size_minus_one a) = length (wa_data a) - 1"
  and wa_length: "wa_ok a \<Longrightarrow> 0 < length (wa_data a)" "wa_ok a \<Longrightarrow> length (wa_data a) \<le> 2 ^ 30"
proof -
  assume "wa_ok a"
  then obtain k where k: "k < 31" "wa_size_minus_one a = mask k" "length (wa_data a) = 2 ^ k"
    by (rule wa_okE)
  then show "0 < length (wa_data a)" "length (wa_data a) \<le> 2 ^ 30"
    using power_increasing [of k 30 "2 :: nat"] by simp_all
  have u: "unat (mask k :: u64) = 2 ^ k - 1"
    using k(1) by (intro unat_mask_u64) simp
  then show "unat (wa_size_minus_one a) = length (wa_data a) - 1"
    by (simp add: k)
  have "(2 :: nat) ^ k \<le> 2 ^ 30"
    using k(1) by (intro power_increasing) simp_all
  then have "sint (mask k :: u64) = int (unat (mask k :: u64))"
    by (intro sint_eq_unat_u64) (simp add: u)
  then show "sint (wa_size_minus_one a) = int (length (wa_data a)) - 1"
    by (simp add: k u of_nat_diff)
qed

text \<open>A new array, and the copy of a window into it.\<close>

lemma wa_create:
  assumes "log_size < 31"
  shows "\<exists>a. wsd_circular_array_create log_size True junk = Some (Some a) \<and> wa_ok a
    \<and> length (wa_data a) = 2 ^ unat log_size \<and> wa_log_size a = log_size"
proof -
  have k: "unat log_size < 31"
    using assms by (simp add: word_less_nat_alt)
  then have "(2 :: nat) ^ unat log_size \<le> 2 ^ 30"
    by (intro power_increasing) simp_all
  then have "unat (push_bit (unat log_size) 1 :: u64) = 2 ^ unat log_size"
    by (simp only: unsigned_push_bit_eq) (use k in \<open>simp add: push_bit_eq_mult take_bit_nat_eq_self\<close>)
  then show ?thesis
    using assms k push_bit_1_minus_1 [of "unat log_size", where 'a = 64]
    by (auto simp: wsd_circular_array_create_def wa_ok_def Let_def intro!: exI [of _ "unat log_size"])
qed

lemma wsd_copy_law:
  assumes "wa_ok a" and "wa_ok na" and "s \<le> e" and "e < 2 ^ 63" and "0 \<le> s"
    and "e - s \<le> int (length (wa_data na))"
  shows "\<exists>na'. wsd_copy a na (word_of_int s) (word_of_int e) = Some na' \<and> wa_ok na'
    \<and> length (wa_data na') = length (wa_data na) \<and> wa_log_size na' = wa_log_size na
    \<and> (\<forall>i. s \<le> i \<and> i < e \<longrightarrow> wa_cell na' i = wa_cell a i)
    \<and> (\<forall>i. i < s \<and> e - i \<le> int (length (wa_data na)) \<longrightarrow> wa_cell na' i = wa_cell na i)"
  using assms
proof (induction "nat (e - s)" arbitrary: s na)
  case 0
  then show ?case
    by (subst wsd_copy.simps) auto
next
  case (Suc n)
  have less: "(word_of_int s :: u64) < word_of_int e"
    using Suc by (simp add: word_less_def uint_word_of_int)
  let ?na = "wa_put na s (wa_cell a s)"
  have "\<exists>na'. wsd_copy a ?na (word_of_int (s + 1)) (word_of_int e) = Some na' \<and> wa_ok na'
    \<and> length (wa_data na') = length (wa_data ?na) \<and> wa_log_size na' = wa_log_size ?na
    \<and> (\<forall>i. s + 1 \<le> i \<and> i < e \<longrightarrow> wa_cell na' i = wa_cell a i)
    \<and> (\<forall>i. i < s + 1 \<and> e - i \<le> int (length (wa_data ?na)) \<longrightarrow> wa_cell na' i = wa_cell ?na i)"
    using Suc by (intro Suc.hyps(1)) auto
  then obtain na' where na': "wsd_copy a ?na (word_of_int s + 1) (word_of_int e) = Some na'"
      "wa_ok na'" "length (wa_data na') = length (wa_data na)" "wa_log_size na' = wa_log_size na"
      "\<And>i. s + 1 \<le> i \<Longrightarrow> i < e \<Longrightarrow> wa_cell na' i = wa_cell a i"
      "\<And>i. i < s + 1 \<Longrightarrow> e - i \<le> int (length (wa_data na)) \<Longrightarrow> wa_cell na' i = wa_cell ?na i"
    by (auto simp: wa_put_def)
  have "wsd_copy a na (word_of_int s) (word_of_int e) = Some na'"
    using less Suc.prems na'(1) by (subst wsd_copy.simps) (simp add: wa_get wa_put)
  moreover have "wa_cell na' i = wa_cell a i" if "s \<le> i" "i < e" for i
    using na'(5,6) [of i] that Suc.prems by (cases "i = s") auto
  moreover have "wa_cell na' i = wa_cell na i" if "i < s" "e - i \<le> int (length (wa_data na))" for i
    using na'(6) [of i] that Suc.hyps(2) by (simp add: wa_put_other)
  ultimately show ?case
    using na' by blast
qed

text \<open>The deque between operations: at most one cell short of full.\<close>

definition wd_ok :: "wsd_deque \<Rightarrow> bool" where
  [inv_defs]: "wd_ok d \<longleftrightarrow> wa_ok (wd_array d) \<and> 0 \<le> wd_top d \<and> wd_top d \<le> wd_bottom d
     \<and> wd_bottom d < 2 ^ 63 \<and> wd_bottom d - wd_top d < int (length (wa_data (wd_array d)))"

definition wd_items :: "wsd_deque \<Rightarrow> ptr list" where
  "wd_items d = List.map (wa_cell (wd_array d)) [wd_top d..wd_bottom d - 1]"

definition wd_cap :: "wsd_deque \<Rightarrow> nat" where
  "wd_cap d = length (wa_data (wd_array d)) - 1"

text \<open>Pushes left before \<open>bottom\<close> overflows.\<close>

definition wd_room :: "wsd_deque \<Rightarrow> nat" where
  "wd_room d = nat (2 ^ 63 - 1 - wd_bottom d)"

lemma wd_items_length: "wd_ok d \<Longrightarrow> length (wd_items d) = nat (wd_bottom d - wd_top d)"
  by (simp add: wd_items_def wd_ok_def)

lemma wd_items_empty: "wd_ok d \<Longrightarrow> wd_items d = [] \<longleftrightarrow> wd_bottom d = wd_top d"
  by (auto simp: wd_items_def wd_ok_def)

lemma wd_okD:
  assumes "wd_ok d"
  shows "wa_ok (wd_array d)" "0 \<le> wd_top d" "wd_top d \<le> wd_bottom d" "wd_bottom d < 2 ^ 63"
    "wd_bottom d - wd_top d < int (length (wa_data (wd_array d)))"
    "int64 (wd_bottom d - wd_top d) = Some (wd_bottom d - wd_top d)"
  using assms by (simp_all add: wd_ok_def int64_def)

text \<open>The effect of writing the next cell and moving \<open>bottom\<close>.\<close>

lemma wd_push_cell:
  assumes ok: "wd_ok d" and room: "wd_bottom d + 1 < 2 ^ 63"
    and fits: "wd_bottom d - wd_top d < int (length (wa_data (wd_array d))) - 1"
  fixes p defines "d' \<equiv> d\<lparr>wd_array := wa_put (wd_array d) (wd_bottom d) p, wd_bottom := wd_bottom d + 1\<rparr>"
  shows "wd_ok d'" "wd_items d' = wd_items d @ [p]"
proof -
  note D = wd_okD [OF ok]
  show "wd_ok d'"
    using D room fits by (simp add: wd_ok_def d'_def)
  have "List.map (wa_cell (wa_put (wd_array d) (wd_bottom d) p)) [wd_top d..wd_bottom d - 1]
      = List.map (wa_cell (wd_array d)) [wd_top d..wd_bottom d - 1]"
    using D(5) by (intro map_cong refl wa_put_other) auto
  then show "wd_items d' = wd_items d @ [p]"
    using D(1,3) by (simp add: wd_items_def d'_def upto_rec2)
qed

lemma wd_push_law:
  assumes ok: "wd_ok d" and room: "0 < wd_room d"
  shows "\<exists>d'. wsd_work_stealing_deque_push_bottom d p =
      Some (if length (wd_items d) < wd_cap d then 0 else - 1, d')
    \<and> wd_ok d' \<and> wd_cap d' = wd_cap d \<and> wd_room d \<le> Suc (wd_room d')
    \<and> wd_items d' = (if length (wd_items d) < wd_cap d then wd_items d @ [p] else wd_items d)"
proof -
  note D = wd_okD [OF ok]
  note s = wa_size_sint [OF D(1)] wa_length [OF D(1)]
  have full: "length (wd_items d) < wd_cap d \<longleftrightarrow>
      \<not> sint (wa_size_minus_one (wd_array d)) \<le> wd_bottom d - wd_top d"
    using s D(3) by (auto simp: wd_items_length [OF ok] wd_cap_def)
  show ?thesis
  proof (cases "length (wd_items d) < wd_cap d")
    case False
    then show ?thesis
      using ok full D(6) by (simp add: wsd_work_stealing_deque_push_bottom_def Let_def)
  next
    case True
    have "wd_bottom d + 1 < 2 ^ 63"
      using room by (simp add: wd_room_def)
    moreover from this have "int64 (wd_bottom d + 1) = Some (wd_bottom d + 1)"
      using D by (simp add: int64_def)
    ultimately show ?thesis
      using True full D wd_push_cell [OF ok] s
      by (simp add: wsd_work_stealing_deque_push_bottom_def Let_def wa_put wd_cap_def wd_room_def)
  qed
qed

lemma wd_pop_law:
  assumes ok: "wd_ok d"
  shows "\<exists>d'. wsd_work_stealing_deque_pop_bottom d =
      Some (case last_item (wd_items d) of None \<Rightarrow> WSD_EMPTY | Some p \<Rightarrow> p, d')
    \<and> wd_ok d' \<and> wd_cap d' = wd_cap d \<and> wd_room d \<le> wd_room d' \<and> wd_items d' = butlast (wd_items d)
    \<and> wd_array d' = wd_array d"
proof -
  note D = wd_okD [OF ok]
  let ?b = "wd_bottom d - 1"
  have i: "int64 ?b = Some ?b" "int64 (?b - wd_top d) = Some (?b - wd_top d)"
    using D by (simp_all add: int64_def)
  consider "wd_bottom d = wd_top d" | "wd_bottom d = wd_top d + 1" | "wd_top d + 1 < wd_bottom d"
    using D(3) by linarith
  then show ?thesis
  proof cases
    case 1
    then have "d\<lparr>wd_bottom := wd_top d\<rparr> = d" by simp
    then show ?thesis
      using i ok 1 by (simp add: wsd_work_stealing_deque_pop_bottom_def last_item_def wd_items_def
        wd_ok_def wd_cap_def wd_room_def)
  next
    case 2
    then have "int64 (wd_top d + 1) = Some (wd_top d + 1)"
      using D by (simp add: int64_def)
    then show ?thesis
      using i ok 2 D wa_get [OF D(1)] wa_length [OF D(1)]
      by (simp add: wsd_work_stealing_deque_pop_bottom_def Let_def last_item_def wd_items_def wd_cap_def
        wd_room_def wd_ok_def sync_bool_compare_and_swap_def)
  next
    case 3
    then have "[wd_top d..?b] = [wd_top d..?b - 1] @ [?b]"
      by (intro upto_rec2) simp
    then show ?thesis
      using i ok 3 D wa_get [OF D(1), of ?b, simplified]
      by (simp add: wsd_work_stealing_deque_pop_bottom_def Let_def last_item_def wd_items_def wd_cap_def
        wd_room_def wd_ok_def)
  qed
qed

lemma wd_steal_law:
  assumes ok: "wd_ok d"
  shows "\<exists>d'. wsd_work_stealing_deque_steal d =
      Some (case first_item (wd_items d) of None \<Rightarrow> WSD_EMPTY | Some p \<Rightarrow> p, d')
    \<and> wd_ok d' \<and> wd_cap d' = wd_cap d \<and> wd_room d \<le> wd_room d' \<and> wd_items d' = tl (wd_items d)
    \<and> wd_array d' = wd_array d"
proof -
  note D = wd_okD [OF ok]
  show ?thesis
  proof (cases "wd_bottom d = wd_top d")
    case True
    then show ?thesis
      using ok D(6) by (simp add: wsd_work_stealing_deque_steal_def Let_def first_item_def wd_items_empty)
        (simp add: wd_items_def)
  next
    case False
    then have t: "int64 (wd_top d + 1) = Some (wd_top d + 1)"
      and u: "[wd_top d..wd_bottom d - 1] = wd_top d # [wd_top d + 1..wd_bottom d - 1]"
      using D by (simp_all add: int64_def upto_rec1)
    then show ?thesis
      using ok D False wa_get [OF D(1)]
      by (simp add: wsd_work_stealing_deque_steal_def Let_def first_item_def wd_items_def wd_cap_def
        wd_room_def wd_ok_def sync_bool_compare_and_swap_def)
  qed
qed

section \<open>Growing\<close>

text \<open>A full array below the largest size is copied into one of twice its size.\<close>

lemma wa_grow_law:
  assumes a: "wa_ok a" and log: "length (wa_data a) < 2 ^ 30"
    and w: "0 \<le> s" "s \<le> e" "e < 2 ^ 63" "e - s \<le> int (length (wa_data a))"
  shows "\<exists>a'. wsd_circular_array_grow a (word_of_int s) (word_of_int e) True junk = Some (Some a')
    \<and> wa_ok a' \<and> length (wa_data a') = 2 * length (wa_data a)
    \<and> (\<forall>i. s \<le> i \<and> i < e \<longrightarrow> wa_cell a' i = wa_cell a i)"
proof -
  obtain k where k: "k < 31" "wa_log_size a = of_nat k" "length (wa_data a) = 2 ^ k"
    using a by (rule wa_okE)
  then have k30: "k < 30"
    using log by (simp add: power_strict_increasing_iff [of 2 k 30, simplified])
  then have u: "unat (of_nat k :: u64) = k" "unat (of_nat k + 1 :: u64) = Suc k"
    by (simp_all add: unat_of_nat unat_word_ariths take_bit_nat_eq_self)
  then have "of_nat k + 1 < (31 :: u64)"
    using k30 by (simp add: word_less_nat_alt)
  from wa_create [OF this, of junk] obtain na where na:
    "wsd_circular_array_create (of_nat k + 1) True junk = Some (Some na)" "wa_ok na"
    "length (wa_data na) = 2 * 2 ^ k" by (auto simp: u)
  have "e - s \<le> int (length (wa_data na))"
    using w(4) k(3) na(3) wa_length(1) [OF a] by linarith
  from wsd_copy_law [OF a na(2) w(2,3,1) this] obtain na' where na':
    "wsd_copy a na (word_of_int s) (word_of_int e) = Some na'" "wa_ok na'"
    "length (wa_data na') = length (wa_data na)" "\<And>i. s \<le> i \<Longrightarrow> i < e \<Longrightarrow> wa_cell na' i = wa_cell a i"
    by blast
  have "(word_of_int s :: u64) \<le> word_of_int e"
    using w by (simp add: word_le_def uint_word_of_int)
  then show ?thesis
    using na na' k by (auto simp: wsd_circular_array_grow_def)
qed

text \<open>From the largest array the copy would need \<open>1 << 31\<close> cells.\<close>

lemma wa_grow_small:
  assumes a: "wa_ok a" and g: "wsd_circular_array_grow a s e ok junk = Some r"
  shows "length (wa_data a) < 2 ^ 30"
proof -
  obtain k where k: "k < 31" "wa_log_size a = of_nat k" "length (wa_data a) = 2 ^ k"
    using a by (rule wa_okE)
  have "k \<noteq> 30"
    using g k(2) by (auto simp: wsd_circular_array_grow_def wsd_circular_array_create_def split: if_splits)
  then show ?thesis
    using k by (simp add: power_strict_increasing_iff [of 2 k 30, simplified])
qed

lemma wa_grow_no_memory:
  assumes "wa_ok a" and "length (wa_data a) < 2 ^ 30" and "0 \<le> s" "s \<le> e" "e < 2 ^ 63"
  shows "wsd_circular_array_grow a (word_of_int s) (word_of_int e) False junk = Some None"
proof -
  obtain k where k: "k < 31" "wa_log_size a = of_nat k" "length (wa_data a) = 2 ^ k"
    using assms(1) by (rule wa_okE)
  then have k30: "k < 30"
    using assms(2) by (simp add: power_strict_increasing_iff [of 2 k 30, simplified])
  then have "unat (of_nat k + 1 :: u64) = Suc k"
    by (simp add: unat_of_nat unat_word_ariths take_bit_nat_eq_self)
  then have "of_nat k + 1 < (31 :: u64)"
    using k30 by (simp add: word_less_nat_alt)
  moreover have "(word_of_int s :: u64) \<le> word_of_int e"
    using assms(3-5) by (simp add: word_le_def uint_word_of_int)
  ultimately show ?thesis
    by (simp add: wsd_circular_array_grow_def wsd_circular_array_create_def k(2) Let_def)
qed

lemma wd_grow_array:
  assumes ok: "wd_ok d" and a': "wa_ok a'" "length (wa_data a') = 2 * length (wa_data (wd_array d))"
    and cells: "\<forall>i. wd_top d \<le> i \<and> i < wd_bottom d \<longrightarrow> wa_cell a' i = wa_cell (wd_array d) i"
  shows "wd_ok (d\<lparr>wd_array := a'\<rparr>)" "wd_items (d\<lparr>wd_array := a'\<rparr>) = wd_items d"
    "wd_cap (d\<lparr>wd_array := a'\<rparr>) = 2 * wd_cap d + 1"
  using assms wa_length(1) [OF wd_okD(1) [OF ok]]
  by (auto simp: wd_ok_def wd_items_def wd_cap_def intro!: map_cong)

lemma wd_push_autogrow_law:
  assumes ok: "wd_ok d" and bottom: "wd_bottom d + 1 < 2 ^ 63"
    and small: "length (wd_items d) < 2 ^ 30 - 1"
  shows "\<exists>d' old. wsd_work_stealing_deque_push_bottom_autogrow d p True junk = Some (0, d', old)
    \<and> wd_ok d' \<and> wd_items d' = wd_items d @ [p] \<and> wd_bottom d' = wd_bottom d + 1
    \<and> old = (if length (wd_items d) < wd_cap d then Old_null else Old (wd_array d))
    \<and> wd_cap d' = (if length (wd_items d) < wd_cap d then wd_cap d else 2 * wd_cap d + 1)"
proof -
  note D = wd_okD [OF ok]
  note s = wa_size_sint [OF D(1)] wa_length [OF D(1)]
  have len: "int (length (wd_items d)) = wd_bottom d - wd_top d"
    using D(3) by (simp add: wd_items_length [OF ok])
  have b: "int64 (wd_bottom d + 1) = Some (wd_bottom d + 1)"
    using D bottom by (simp add: int64_def)
  show ?thesis
  proof (cases "length (wd_items d) < wd_cap d")
    case True
    then have "\<not> sint (wa_size_minus_one (wd_array d)) \<le> wd_bottom d - wd_top d"
      using s len by (simp add: wd_cap_def)
    with True show ?thesis
      using D b wd_push_cell [OF ok bottom, of p] s len
      by (simp add: wsd_work_stealing_deque_push_bottom_autogrow_def Let_def wa_put wd_cap_def)
  next
    case False
    have full: "sint (wa_size_minus_one (wd_array d)) \<le> wd_bottom d - wd_top d"
      using False s len by (simp add: wd_cap_def)
    have "length (wa_data (wd_array d)) < 2 ^ 30"
      using False small s by (simp add: wd_cap_def)
    from wa_grow_law [OF D(1) this D(2,3,4)] D(5) obtain a' where a':
      "wsd_circular_array_grow (wd_array d) (word_of_int (wd_top d)) (word_of_int (wd_bottom d)) True junk
        = Some (Some a')" "wa_ok a'" "length (wa_data a') = 2 * length (wa_data (wd_array d))"
      "\<forall>i. wd_top d \<le> i \<and> i < wd_bottom d \<longrightarrow> wa_cell a' i = wa_cell (wd_array d) i"
      by fastforce
    note g = wd_grow_array [OF ok a'(2-4)]
    have "wd_bottom d - wd_top d < int (length (wa_data a')) - 1"
      using D(5) a'(3) wa_length(1) [OF D(1)] by linarith
    with wd_push_cell [OF g(1), of p] bottom have
      "wd_ok (d\<lparr>wd_array := wa_put a' (wd_bottom d) p, wd_bottom := wd_bottom d + 1\<rparr>)"
      "wd_items (d\<lparr>wd_array := wa_put a' (wd_bottom d) p, wd_bottom := wd_bottom d + 1\<rparr>) = wd_items d @ [p]"
      by (simp_all add: g(2))
    then show ?thesis
      using D a'(1,2,3) b False full g(3)
      by (simp add: wsd_work_stealing_deque_push_bottom_autogrow_def Let_def wa_put wd_cap_def)
  qed
qed

section \<open>The deque laws\<close>

text \<open>
  The interface speaks of optional values: \<open>WSD_EMPTY\<close> and \<open>WSD_ABORT\<close> are no value, so
  they cannot be items.
\<close>

definition wd_legal :: "ptr \<Rightarrow> bool" where
  "wd_legal p \<longleftrightarrow> p \<noteq> WSD_EMPTY \<and> p \<noteq> WSD_ABORT"

definition wd_result :: "ptr \<times> wsd_deque \<Rightarrow> ptr option \<times> wsd_deque" where
  "wd_result r = (if wd_legal (fst r) then Some (fst r) else None, snd r)"

definition wd_push :: "wsd_deque \<Rightarrow> ptr \<Rightarrow> (bool \<times> wsd_deque) option" where
  "wd_push d p = map_option (apfst (\<lambda>r. r = 0)) (wsd_work_stealing_deque_push_bottom d p)"

definition wd_push_grow :: "(nat \<Rightarrow> ptr) \<Rightarrow> wsd_deque \<Rightarrow> ptr \<Rightarrow> (bool \<times> wsd_deque) option" where
  "wd_push_grow junk d p = map_option (\<lambda>(r, d', _). (r = 0, d'))
     (wsd_work_stealing_deque_push_bottom_autogrow d p True junk)"

definition wd_pop :: "wsd_deque \<Rightarrow> (ptr option \<times> wsd_deque) option" where
  "wd_pop d = map_option wd_result (wsd_work_stealing_deque_pop_bottom d)"

definition wd_steal :: "wsd_deque \<Rightarrow> (ptr option \<times> wsd_deque) option" where
  "wd_steal d = map_option wd_result (wsd_work_stealing_deque_steal d)"

definition wd_legal_ok :: "wsd_deque \<Rightarrow> bool" where
  "wd_legal_ok d \<longleftrightarrow> wd_ok d \<and> (\<forall>p \<in> set (wd_items d). wd_legal p)"

lemma wd_result_item:
  assumes "\<forall>p. x = Some p \<longrightarrow> wd_legal p"
  shows "wd_result (case x of None \<Rightarrow> WSD_EMPTY | Some p \<Rightarrow> p, d) = (x, d)"
  using assms by (cases x) (simp_all add: wd_result_def wd_legal_def)

lemma wd_pop_legal:
  assumes "wd_legal_ok d"
  shows "\<exists>d'. wd_pop d = Some (last_item (wd_items d), d') \<and> wd_legal_ok d' \<and> wd_cap d' = wd_cap d
    \<and> wd_room d \<le> wd_room d' \<and> wd_items d' = butlast (wd_items d)"
proof -
  from assms wd_pop_law [of d] obtain d' where d': "wsd_work_stealing_deque_pop_bottom d =
      Some (case last_item (wd_items d) of None \<Rightarrow> WSD_EMPTY | Some p \<Rightarrow> p, d')" "wd_ok d'"
      "wd_cap d' = wd_cap d" "wd_room d \<le> wd_room d'" "wd_items d' = butlast (wd_items d)"
    by (auto simp: wd_legal_ok_def)
  moreover have "\<forall>p. last_item (wd_items d) = Some p \<longrightarrow> wd_legal p"
    using assms by (simp add: last_item_def wd_legal_ok_def)
  ultimately show ?thesis
    using assms by (auto simp: wd_pop_def wd_result_item wd_legal_ok_def dest: in_set_butlastD)
qed

lemma wd_steal_legal:
  assumes "wd_legal_ok d"
  shows "\<exists>d'. wd_steal d = Some (first_item (wd_items d), d') \<and> wd_legal_ok d' \<and> wd_cap d' = wd_cap d
    \<and> wd_room d \<le> wd_room d' \<and> wd_items d' = tl (wd_items d)"
proof -
  from assms wd_steal_law [of d] obtain d' where d': "wsd_work_stealing_deque_steal d =
      Some (case first_item (wd_items d) of None \<Rightarrow> WSD_EMPTY | Some p \<Rightarrow> p, d')" "wd_ok d'"
      "wd_cap d' = wd_cap d" "wd_room d \<le> wd_room d'" "wd_items d' = tl (wd_items d)"
    by (auto simp: wd_legal_ok_def)
  moreover have "\<forall>p. first_item (wd_items d) = Some p \<longrightarrow> wd_legal p"
    using assms by (simp add: first_item_def wd_legal_ok_def)
  ultimately show ?thesis
    using assms list.set_sel(2) [of "wd_items d"]
    by (cases "wd_items d") (auto simp: wd_steal_def wd_result_item wd_legal_ok_def)
qed

interpretation wsd: work_deque wd_legal_ok wd_items wd_cap wd_room wd_legal wd_push wd_pop wd_steal
proof
  fix d and p :: ptr
  assume d: "wd_legal_ok d"
  show "\<exists>d'. wd_push d p = Some (length (wd_items d) < wd_cap d, d')
      \<and> wd_legal_ok d' \<and> wd_cap d' = wd_cap d \<and> wd_room d \<le> Suc (wd_room d')
      \<and> wd_items d' = (if length (wd_items d) < wd_cap d then wd_items d @ [p] else wd_items d)"
    if "wd_legal p" "0 < wd_room d"
    using wd_push_law [of d p] d that by (auto simp: wd_push_def wd_legal_ok_def)
qed (rule wd_pop_legal wd_steal_legal, assumption)+

text \<open>With a push that grows, the capacity is that of the largest array.\<close>

definition wd_grow_room :: "wsd_deque \<Rightarrow> nat" where
  "wd_grow_room d = min (wd_room d) (2 ^ 30 - 1 - length (wd_items d))"

lemma wd_push_grow_legal:
  assumes "wd_legal_ok d" and "wd_legal p" and "0 < wd_grow_room d"
  shows "\<exists>d'. wd_push_grow junk d p = Some (length (wd_items d) < 2 ^ 30 - 1, d') \<and> wd_legal_ok d'
    \<and> wd_grow_room d \<le> Suc (wd_grow_room d') \<and> wd_items d' = wd_items d @ [p]"
proof -
  have "wd_bottom d + 1 < 2 ^ 63" "length (wd_items d) < 2 ^ 30 - 1"
    using assms(3) by (simp_all add: wd_grow_room_def wd_room_def)
  with wd_push_autogrow_law [of d p junk] assms(1) obtain d' old where
    "wsd_work_stealing_deque_push_bottom_autogrow d p True junk = Some (0, d', old)" "wd_ok d'"
    "wd_items d' = wd_items d @ [p]" "wd_bottom d' = wd_bottom d + 1"
    by (auto simp: wd_legal_ok_def)
  with assms \<open>length (wd_items d) < 2 ^ 30 - 1\<close> show ?thesis
    by (auto simp: wd_push_grow_def wd_legal_ok_def wd_grow_room_def wd_room_def)
qed

interpretation wsd_grow: work_deque wd_legal_ok wd_items "\<lambda>_. 2 ^ 30 - 1" wd_grow_room wd_legal
  "wd_push_grow junk" wd_pop wd_steal for junk
proof
  fix d and p :: ptr
  assume d: "wd_legal_ok d"
  show "\<exists>d'. wd_push_grow junk d p = Some (length (wd_items d) < 2 ^ 30 - 1, d')
      \<and> wd_legal_ok d' \<and> (2 :: nat) ^ 30 - 1 = 2 ^ 30 - 1 \<and> wd_grow_room d \<le> Suc (wd_grow_room d')
      \<and> wd_items d' = (if length (wd_items d) < 2 ^ 30 - 1 then wd_items d @ [p] else wd_items d)"
    if "wd_legal p" "0 < wd_grow_room d"
    using wd_push_grow_legal [OF d that] that by (auto simp: wd_grow_room_def)
  show "\<exists>d'. wd_pop d = Some (last_item (wd_items d), d') \<and> wd_legal_ok d'
      \<and> (2 :: nat) ^ 30 - 1 = 2 ^ 30 - 1 \<and> wd_grow_room d \<le> wd_grow_room d'
      \<and> wd_items d' = butlast (wd_items d)"
    using wd_pop_legal [OF d] by (fastforce simp: wd_grow_room_def)
  show "\<exists>d'. wd_steal d = Some (first_item (wd_items d), d') \<and> wd_legal_ok d'
      \<and> (2 :: nat) ^ 30 - 1 = 2 ^ 30 - 1 \<and> wd_grow_room d \<le> wd_grow_room d'
      \<and> wd_items d' = tl (wd_items d)"
    using wd_steal_legal [OF d] by (fastforce simp: wd_grow_room_def)
qed

section \<open>Properties\<close>

lemma wd_create:
  assumes "log_size < 31"
  shows "\<exists>d. wsd_work_stealing_deque_create log_size True True junk = Some (Some d) \<and> wd_legal_ok d
    \<and> wd_items d = [] \<and> wd_cap d = 2 ^ max 8 (unat log_size) - 1 \<and> wd_bottom d = 0"
proof -
  let ?l = "if log_size < 8 then 8 else log_size"
  have "?l < 31" and l: "unat ?l = max 8 (unat log_size)"
    using assms by (auto simp: word_less_nat_alt)
  from wa_create [OF this(1), of junk] obtain a where a:
    "wsd_circular_array_create ?l True junk = Some (Some a)" "wa_ok a"
    "length (wa_data a) = 2 ^ max 8 (unat log_size)" unfolding l by blast
  then show ?thesis
    by (simp add: wsd_work_stealing_deque_create_def wd_legal_ok_def wd_ok_def wd_items_def wd_cap_def)
qed

text \<open>
  C28. Undisturbed, a deque of the bounded push answers every history of pushes, pops and
  steals as a list does: pops take the youngest item, steals the oldest, a push is refused
  exactly when all cells but one are in use. No access is out of bounds and the counters do not
  overflow in fewer than \<open>2 ^ 63\<close> operations.
\<close>

theorem wsd_history:
  assumes "log_size < 31" and "legal_deque_ops wd_legal ops" and "length ops < 2 ^ 63"
  shows "\<exists>d d'. wsd_work_stealing_deque_create log_size True True junk = Some (Some d)
    \<and> run_deque wd_push wd_pop wd_steal d ops =
        Some (fst (spec_deque (2 ^ max 8 (unat log_size) - 1) [] ops), d')
    \<and> wd_items d' = snd (spec_deque (2 ^ max 8 (unat log_size) - 1) [] ops)"
proof -
  from wd_create [OF assms(1)] obtain d where d:
    "wsd_work_stealing_deque_create log_size True True junk = Some (Some d)" "wd_legal_ok d"
    "wd_items d = []" "wd_cap d = 2 ^ max 8 (unat log_size) - 1" "wd_bottom d = 0" by blast
  have "length ops \<le> wd_room d"
    using assms(3) d(5) by (simp add: wd_room_def)
  from wsd.run_refines [OF d(2) assms(2) this] d show ?thesis by auto
qed

theorem wsd_history_witness:
  "\<exists>d d'. wsd_work_stealing_deque_create 3 True True (\<lambda>_. 0) = Some (Some d)
    \<and> run_deque wd_push wd_pop wd_steal d
        [Push_bottom 7, Push_bottom 8, Push_bottom 9, Pop_bottom, Steal, Pop_bottom, Pop_bottom]
      = Some ([Pushed_bottom True, Pushed_bottom True, Pushed_bottom True, Popped_bottom (Some 9),
          Stolen (Some 7), Popped_bottom (Some 8), Popped_bottom None], d')"
  using wsd_history [of 3 "[Push_bottom 7, Push_bottom 8, Push_bottom 9, Pop_bottom, Steal, Pop_bottom, Pop_bottom]"
    "\<lambda>_. 0"]
  by (auto simp: wd_legal_def WSD_EMPTY_def WSD_ABORT_def last_item_def first_item_def)

text \<open>
  C29. With the push that grows the array no push is refused, and growing is invisible: every
  history of fewer than \<open>2 ^ 30\<close> operations answers as an unbounded list does, while memory
  lasts.
\<close>

theorem wsd_autogrow_history:
  assumes "log_size < 31" and "legal_deque_ops wd_legal ops" and "length ops < 2 ^ 30"
  shows "\<exists>d d'. wsd_work_stealing_deque_create log_size True True junk = Some (Some d)
    \<and> run_deque (wd_push_grow junk') wd_pop wd_steal d ops =
        Some (fst (spec_deque (2 ^ 30 - 1) [] ops), d')
    \<and> wd_items d' = snd (spec_deque (2 ^ 30 - 1) [] ops)"
proof -
  from wd_create [OF assms(1)] obtain d where d:
    "wsd_work_stealing_deque_create log_size True True junk = Some (Some d)" "wd_legal_ok d"
    "wd_items d = []" "wd_bottom d = 0" by blast
  have "length ops \<le> wd_grow_room d"
    using assms(3) d(3,4) by (simp add: wd_grow_room_def wd_room_def)
  from wsd_grow.run_refines [OF d(2) assms(2) this] d show ?thesis by auto
qed

theorem wsd_autogrow_history_witness:
  "\<exists>d d'. wsd_work_stealing_deque_create 3 True True (\<lambda>_. 0) = Some (Some d)
    \<and> run_deque (wd_push_grow (\<lambda>_. 1)) wd_pop wd_steal d [Push_bottom 7, Push_bottom 8, Steal, Pop_bottom, Steal]
      = Some ([Pushed_bottom True, Pushed_bottom True, Stolen (Some 7), Popped_bottom (Some 8), Stolen None], d')"
  using wsd_autogrow_history [of 3 "[Push_bottom 7, Push_bottom 8, Steal, Pop_bottom, Steal]" "\<lambda>_. 0" "\<lambda>_. 1"]
  by (auto simp: wd_legal_def WSD_EMPTY_def WSD_ABORT_def last_item_def first_item_def)

text \<open>
  Growing when the array is full returns the old array and leaves a deque of the same items
  and twice the cells, one of them more than before free for a push; when it is not full, or there
  is no memory, nothing changes and the result says which.
\<close>

theorem wsd_grow_correct:
  assumes ok: "wd_ok d" and log: "length (wa_data (wd_array d)) < 2 ^ 30"
  shows "if length (wd_items d) < wd_cap d
    then wsd_work_stealing_grow d malloc_ok junk = Some (Grow_abort, d)
    else if malloc_ok
    then \<exists>a'. wsd_work_stealing_grow d malloc_ok junk = Some (Grow_old (wd_array d), d\<lparr>wd_array := a'\<rparr>)
      \<and> wd_ok (d\<lparr>wd_array := a'\<rparr>) \<and> wd_items (d\<lparr>wd_array := a'\<rparr>) = wd_items d
      \<and> wd_cap (d\<lparr>wd_array := a'\<rparr>) = 2 * wd_cap d + 1
    else wsd_work_stealing_grow d malloc_ok junk = Some (Grow_null, d)"
proof -
  note D = wd_okD [OF ok]
  have "wa_size_minus_one (wd_array d) \<le> word_of_int (wd_bottom d - wd_top d)
      \<longleftrightarrow> int (length (wa_data (wd_array d))) - 1 \<le> wd_bottom d - wd_top d"
  proof -
    have "uint (word_of_int (wd_bottom d - wd_top d) :: u64) = wd_bottom d - wd_top d"
      using D(2-4) by (simp only: uint_word_of_int) simp
    moreover have "uint (wa_size_minus_one (wd_array d)) = int (length (wa_data (wd_array d))) - 1"
      using wa_size_unat [OF D(1)] wa_length(1) [OF D(1)]
      unfolding uint_nat by linarith
    ultimately show ?thesis
      by (simp only: word_le_def)
  qed
  then have full: "wa_size_minus_one (wd_array d) \<le> word_of_int (wd_bottom d - wd_top d)
      \<longleftrightarrow> \<not> length (wd_items d) < wd_cap d"
    using D(3) wa_length(1) [OF D(1)] unfolding wd_items_length [OF ok] wd_cap_def by linarith
  note g = wsd_work_stealing_grow_def [of d, simplified Let_def D(6) Option.bind.bind_lunit full]
  show ?thesis
  proof (cases "length (wd_items d) < wd_cap d")
    case True
    then show ?thesis by (simp add: g)
  next
    case False
    from wa_grow_law [OF D(1) log D(2,3,4)] D(5) obtain a' where
      "wsd_circular_array_grow (wd_array d) (word_of_int (wd_top d)) (word_of_int (wd_bottom d)) True junk
        = Some (Some a')" "wa_ok a'" "length (wa_data a') = 2 * length (wa_data (wd_array d))"
      "\<forall>i. wd_top d \<le> i \<and> i < wd_bottom d \<longrightarrow> wa_cell a' i = wa_cell (wd_array d) i"
      by fastforce
    then show ?thesis
      using False wa_grow_no_memory [OF D(1) log D(2,3,4)] wd_grow_array [OF ok]
      by (auto simp: g)
  qed
qed

text \<open>
  \<open>size\<close> is the number of items.
\<close>

theorem wsd_size_correct:
  assumes "wd_ok d"
  shows "\<exists>n. wsd_work_stealing_deque_size d = Some n \<and> unat n = length (wd_items d)"
proof -
  note D = wd_okD [OF assms]
  have "uint (word_of_int (wd_bottom d - wd_top d) :: u64) = wd_bottom d - wd_top d"
    using D(2-4) by (simp only: uint_word_of_int) simp
  then show ?thesis
    using D(3,6) by (simp add: wsd_work_stealing_deque_size_def wd_items_length [OF assms] flip: nat_uint_eq)
qed

section \<open>Witnesses\<close>

text \<open>A full deque of two cells.\<close>

definition wd_demo :: wsd_deque where
  "wd_demo = \<lparr>wd_top = 5, wd_bottom = 6, wd_array =
     \<lparr>wa_log_size = 1, wa_size = 2, wa_size_minus_one = 1, wa_data = [0, 7]\<rparr>\<rparr>"

lemma wd_demo_ok: "wd_ok wd_demo" "wd_items wd_demo = [7]" "wd_cap wd_demo = 1"
  by (auto simp: wd_ok_def wa_ok_def wd_demo_def wd_items_def wd_cap_def wa_cell_def mask_eq_exp_minus_1
    push_bit_eq_mult intro!: exI [of _ 1])

theorem wsd_grow_correct_witness:
  "\<exists>a'. wsd_work_stealing_grow wd_demo True (\<lambda>_. 0) = Some (Grow_old (wd_array wd_demo), wd_demo\<lparr>wd_array := a'\<rparr>)
     \<and> wd_items (wd_demo\<lparr>wd_array := a'\<rparr>) = [7] \<and> wd_cap (wd_demo\<lparr>wd_array := a'\<rparr>) = 3"
  using wsd_grow_correct [OF wd_demo_ok(1), of True "\<lambda>_. 0"] wd_demo_ok(2,3)
  by (auto simp: wd_demo_def)

theorem wsd_size_correct_witness:
  "wsd_work_stealing_deque_size wd_demo = Some 1"
  using wsd_size_correct [OF wd_demo_ok(1)] wd_demo_ok(2)
  by (auto simp: word_unat_eq_iff)

end
