(* ===== verification/Wsd_Tso.thy ===== *)
theory Wsd_Tso
  imports Wsd "HOL-Library.Multiset"
begin

text \<open>
  The work-stealing deque under one owner and any number of thieves, on a processor with a
  store buffer (x86-TSO). The operations of \<open>work_stealing_deque.c\<close> are cut at each access to
  the shared struct. The owner's stores wait in its buffer, in order, until they are flushed to
  memory, and the owner reads its own latest store. The thieves store nothing but by
  \<open>__sync_bool_compare_and_swap\<close>, which acts on memory at once; the owner's needs an
  empty buffer, as a barrier does that emits a draining instruction. \<open>top\<close> changes by
  compare-and-swap alone.

  The counters are integers here; the main theorem bounds them by the number of pushes, so
  that nothing overflows before the \<open>2 ^ 63\<close>th.
\<close>

section \<open>Memory and the store buffer\<close>

text \<open>Arrays are never freed while thieves run; \<open>underlying_array\<close> is the number of one.\<close>

record wsd_mem =
  wm_bottom :: int
  wm_cur :: nat
  wm_arrays :: "wsd_circular_array list"

datatype wsd_write = W_bottom int | W_cell nat int ptr | W_array nat

fun do_write :: "wsd_write \<Rightarrow> wsd_mem \<Rightarrow> wsd_mem" where
  "do_write (W_bottom b) m = m\<lparr>wm_bottom := b\<rparr>"
| "do_write (W_cell a i p) m =
     (case wsd_circular_array_put (wm_arrays m ! a) (word_of_int i) p of
        None \<Rightarrow> m
      | Some a' \<Rightarrow> m\<lparr>wm_arrays := (wm_arrays m)[a := a']\<rparr>)"
| "do_write (W_array a) m = m\<lparr>wm_cur := a\<rparr>"

text \<open>Memory now, and after each further flush; the last is what the owner sees.\<close>

fun views :: "wsd_mem \<Rightarrow> wsd_write list \<Rightarrow> wsd_mem list" where
  "views m [] = [m]"
| "views m (w # ws) = m # views (do_write w m) ws"

section \<open>The threads' steps\<close>

datatype wsd_owner =
    O_idle
  | O_push_bottom bool ptr        \<comment> \<open>about to read \<open>bottom\<close>; the flag: may grow\<close>
  | O_push_top bool ptr int       \<comment> \<open>about to read \<open>top\<close>\<close>
  | O_push_array bool ptr int int \<comment> \<open>about to read \<open>underlying_array\<close>\<close>
  | O_push_test bool ptr int int nat  \<comment> \<open>has \<open>b\<close>, \<open>t\<close>, \<open>a\<close>, about to test the size\<close>
  | O_push_cell ptr int nat       \<comment> \<open>about to write the cell\<close>
  | O_push_publish ptr int        \<comment> \<open>about to write \<open>bottom\<close>\<close>
  | O_pop_bottom                  \<comment> \<open>about to read \<open>bottom\<close>\<close>
  | O_pop_array int               \<comment> \<open>has \<open>b\<close>, about to read \<open>underlying_array\<close>\<close>
  | O_pop_store int nat           \<comment> \<open>about to write \<open>bottom = b\<close>\<close>
  | O_pop_fence int nat           \<comment> \<open>at the store-load barrier\<close>
  | O_pop_top int nat             \<comment> \<open>about to read \<open>top\<close> and test the size\<close>
  | O_pop_empty int               \<comment> \<open>about to write \<open>bottom = t\<close>\<close>
  | O_pop_get int nat int         \<comment> \<open>has \<open>b\<close>, \<open>a\<close>, \<open>t\<close>, about to read the cell\<close>
  | O_pop_cas int ptr             \<comment> \<open>about to compare-and-swap \<open>top\<close>\<close>
  | O_pop_reset int "ptr option"  \<comment> \<open>about to write \<open>bottom = t + 1\<close> and return\<close>

datatype wsd_thief =
    S_idle
  | S_top                         \<comment> \<open>about to read \<open>top\<close>\<close>
  | S_bottom int                  \<comment> \<open>has \<open>t\<close>, about to read \<open>bottom\<close>\<close>
  | S_array int int               \<comment> \<open>has \<open>t\<close>, \<open>b\<close>, about to read \<open>underlying_array\<close>\<close>
  | S_get int int nat             \<comment> \<open>about to test the size and read the cell\<close>
  | S_cas int ptr                 \<comment> \<open>about to compare-and-swap \<open>top\<close>\<close>

record wsd_sys =
  ws_top :: int
  ws_mem :: wsd_mem
  ws_buf :: "wsd_write list"
  ws_owner :: wsd_owner
  ws_thief :: "tid \<Rightarrow> wsd_thief"
  ws_pushed :: "ptr list"
  ws_popped :: "ptr list"
  ws_stolen :: "(tid \<times> ptr) list"

definition owner_view :: "wsd_sys \<Rightarrow> wsd_mem" where
  "owner_view s = fold do_write (ws_buf s) (ws_mem s)"

lemma owner_view_simps [simp]:
  "owner_view (s\<lparr>ws_owner := c\<rparr>) = owner_view s" "owner_view (s\<lparr>ws_thief := f\<rparr>) = owner_view s"
  "owner_view (s\<lparr>ws_top := t\<rparr>) = owner_view s" "owner_view (s\<lparr>ws_pushed := ps\<rparr>) = owner_view s"
  "owner_view (s\<lparr>ws_popped := ps\<rparr>) = owner_view s" "owner_view (s\<lparr>ws_stolen := qs\<rparr>) = owner_view s"
  by (simp_all add: owner_view_def)

lemma owner_view_write [simp]:
  "owner_view (s\<lparr>ws_buf := ws_buf s @ [w]\<rparr>) = do_write w (owner_view s)"
  by (simp add: owner_view_def)

abbreviation owner_goto :: "wsd_sys \<Rightarrow> wsd_owner \<Rightarrow> wsd_sys" where
  "owner_goto s c \<equiv> s\<lparr>ws_owner := c\<rparr>"

abbreviation owner_write :: "wsd_sys \<Rightarrow> wsd_write \<Rightarrow> wsd_sys" where
  "owner_write s w \<equiv> s\<lparr>ws_buf := ws_buf s @ [w]\<rparr>"

text \<open>
  The growing push fills the new array before it stores the pointer to it; no other thread can
  see that array before, so it is put into memory complete.
\<close>

definition owner_test ::
  "(nat \<Rightarrow> ptr) \<Rightarrow> wsd_sys \<Rightarrow> bool \<Rightarrow> ptr \<Rightarrow> int \<Rightarrow> int \<Rightarrow> nat \<Rightarrow> wsd_sys option" where
  "owner_test junk s grow p b t a =
     (let arr = wm_arrays (owner_view s) ! a
      in if b - t \<ge> sint (wa_size_minus_one arr) then
           if grow then
             case wsd_circular_array_grow arr (word_of_int t) (word_of_int b) True junk of
               Some (Some arr') \<Rightarrow>
                 let n = length (wm_arrays (ws_mem s))
                 in Some (s\<lparr>ws_mem := (ws_mem s)\<lparr>wm_arrays := wm_arrays (ws_mem s) @ [arr']\<rparr>,
                           ws_buf := ws_buf s @ [W_array n], ws_owner := O_push_cell p b n\<rparr>)
             | _ \<Rightarrow> None
           else Some (owner_goto s O_idle)
         else Some (owner_goto s (O_push_cell p b a)))"

definition owner_next :: "arch option \<Rightarrow> (nat \<Rightarrow> ptr) \<Rightarrow> wsd_sys \<Rightarrow> wsd_sys option" where
  "owner_next ar junk s =
     (case ws_owner s of
        O_idle \<Rightarrow> None
      | O_push_bottom g p \<Rightarrow> Some (owner_goto s (O_push_top g p (wm_bottom (owner_view s))))
      | O_push_top g p b \<Rightarrow> Some (owner_goto s (O_push_array g p b (ws_top s)))
      | O_push_array g p b t \<Rightarrow> Some (owner_goto s (O_push_test g p b t (wm_cur (owner_view s))))
      | O_push_test g p b t a \<Rightarrow> owner_test junk s g p b t a
      | O_push_cell p b a \<Rightarrow> Some (owner_goto (owner_write s (W_cell a b p)) (O_push_publish p b))
      | O_push_publish p b \<Rightarrow>
          Some (owner_goto (owner_write s (W_bottom (b + 1))) O_idle\<lparr>ws_pushed := ws_pushed s @ [p]\<rparr>)
      | O_pop_bottom \<Rightarrow> Some (owner_goto s (O_pop_array (wm_bottom (owner_view s) - 1)))
      | O_pop_array b \<Rightarrow> Some (owner_goto s (O_pop_store b (wm_cur (owner_view s))))
      | O_pop_store b a \<Rightarrow> Some (owner_goto (owner_write s (W_bottom b)) (O_pop_fence b a))
      | O_pop_fence b a \<Rightarrow>
          if drains_stores (store_load_barrier ar) \<and> ws_buf s \<noteq> [] then None
          else Some (owner_goto s (O_pop_top b a))
      | O_pop_top b a \<Rightarrow>
          Some (owner_goto s (if b - ws_top s < 0 then O_pop_empty (ws_top s)
                              else O_pop_get b a (ws_top s)))
      | O_pop_empty t \<Rightarrow> Some (owner_goto (owner_write s (W_bottom t)) O_idle)
      | O_pop_get b a t \<Rightarrow>
          (case wsd_circular_array_get (wm_arrays (owner_view s) ! a) (word_of_int b) of
             None \<Rightarrow> None
           | Some ret \<Rightarrow> Some (if b - t > 0 then owner_goto s O_idle\<lparr>ws_popped := ws_popped s @ [ret]\<rparr>
                              else owner_goto s (O_pop_cas t ret)))
      | O_pop_cas t ret \<Rightarrow>
          if ws_buf s \<noteq> [] then None
          else (case sync_bool_compare_and_swap (ws_top s) t (t + 1) of
                  (True, top') \<Rightarrow> Some (owner_goto s (O_pop_reset (t + 1) (Some ret))\<lparr>ws_top := top'\<rparr>)
                | (False, _) \<Rightarrow> Some (owner_goto s (O_pop_reset (t + 1) None)))
      | O_pop_reset t1 r \<Rightarrow>
          Some (owner_goto (owner_write s (W_bottom t1)) O_idle
            \<lparr>ws_popped := ws_popped s @ (case r of None \<Rightarrow> [] | Some ret \<Rightarrow> [ret])\<rparr>))"

definition thief_next :: "tid \<Rightarrow> wsd_sys \<Rightarrow> wsd_sys option" where
  "thief_next i s =
     (let goto = (\<lambda>c. s\<lparr>ws_thief := (ws_thief s)(i := c)\<rparr>)
      in case ws_thief s i of
        S_idle \<Rightarrow> None
      | S_top \<Rightarrow> Some (goto (S_bottom (ws_top s)))
      | S_bottom t \<Rightarrow> Some (goto (S_array t (wm_bottom (ws_mem s))))
      | S_array t b \<Rightarrow> Some (goto (S_get t b (wm_cur (ws_mem s))))
      | S_get t b a \<Rightarrow>
          if b - t \<le> 0 then Some (goto S_idle)
          else (case wsd_circular_array_get (wm_arrays (ws_mem s) ! a) (word_of_int t) of
                  None \<Rightarrow> None
                | Some ret \<Rightarrow> Some (goto (S_cas t ret)))
      | S_cas t ret \<Rightarrow>
          (case sync_bool_compare_and_swap (ws_top s) t (t + 1) of
             (True, top') \<Rightarrow>
               Some ((goto S_idle)\<lparr>ws_top := top', ws_stolen := ws_stolen s @ [(i, ret)]\<rparr>)
           | (False, _) \<Rightarrow> Some (goto S_idle)))"

text \<open>What can happen next: a call of the owner or of a thief, a step of one, a flush.\<close>

datatype wsd_act = Call_push bool ptr | Call_pop | Owner "nat \<Rightarrow> ptr" | Call_steal tid | Thief tid | Flush

fun wsd_do :: "arch option \<Rightarrow> wsd_act \<Rightarrow> wsd_sys \<Rightarrow> wsd_sys option" where
  "wsd_do ar (Call_push g p) s =
     (if ws_owner s = O_idle then Some (owner_goto s (O_push_bottom g p)) else None)"
| "wsd_do ar Call_pop s = (if ws_owner s = O_idle then Some (owner_goto s O_pop_bottom) else None)"
| "wsd_do ar (Owner junk) s = owner_next ar junk s"
| "wsd_do ar (Call_steal i) s =
     (if ws_thief s i = S_idle then Some (s\<lparr>ws_thief := (ws_thief s)(i := S_top)\<rparr>) else None)"
| "wsd_do ar (Thief i) s = thief_next i s"
| "wsd_do ar Flush s =
     (case ws_buf s of
        [] \<Rightarrow> None
      | w # ws \<Rightarrow> Some (s\<lparr>ws_mem := do_write w (ws_mem s), ws_buf := ws\<rparr>))"

inductive wsd_step :: "arch option \<Rightarrow> wsd_sys \<Rightarrow> wsd_sys \<Rightarrow> bool" for ar where
  wsd_stepI: "wsd_do ar a s = Some s' \<Longrightarrow> wsd_step ar s s'"

inductive_cases wsd_stepE: "wsd_step ar s s'"

text \<open>The start: a new deque that every thread can see.\<close>

definition wsd_start :: "wsd_deque \<Rightarrow> wsd_sys" where
  "wsd_start d = \<lparr>ws_top = wd_top d,
     ws_mem = \<lparr>wm_bottom = wd_bottom d, wm_cur = 0, wm_arrays = [wd_array d]\<rparr>, ws_buf = [],
     ws_owner = O_idle, ws_thief = (\<lambda>_. S_idle), ws_pushed = [], ws_popped = [], ws_stolen = []\<rparr>"

definition wsd_init :: "wsd_sys \<Rightarrow> bool" where
  "wsd_init s \<longleftrightarrow> (\<exists>log_size junk d.
     wsd_work_stealing_deque_create log_size True True junk = Some (Some d) \<and> s = wsd_start d)"

text \<open>A run of given acts, for the examples.\<close>

fun wsd_run :: "arch option \<Rightarrow> wsd_act list \<Rightarrow> wsd_sys \<Rightarrow> wsd_sys option" where
  "wsd_run ar [] s = Some s"
| "wsd_run ar (a # as) s = Option.bind (wsd_do ar a s) (wsd_run ar as)"

lemma wsd_run_reach:
  "wsd_run ar as s = Some s' \<Longrightarrow> reach init (wsd_step ar) s \<Longrightarrow> reach init (wsd_step ar) s'"
proof (induction as arbitrary: s)
  case (Cons a as)
  then obtain s1 where "wsd_do ar a s = Some s1" "wsd_run ar as s1 = Some s'"
    by (auto split: bind_splits)
  then show ?case
    using Cons reach_step wsd_stepI by metis
qed simp

section \<open>Views\<close>

lemma views_hd: "\<exists>vs. views m ws = m # vs"
  by (cases ws) simp_all

lemma views_0 [simp]: "views m ws ! 0 = m"
  by (cases ws) simp_all

lemma views_nonempty [simp]: "views m ws \<noteq> []" "0 < length (views m ws)"
  by (cases ws; simp)+

lemma views_last: "List.last (views m ws) = fold do_write ws m"
  by (induction ws arbitrary: m) simp_all

lemma views_snoc: "views m (ws @ [w]) = views m ws @ [do_write w (fold do_write ws m)]"
  by (induction ws arbitrary: m) simp_all

lemma views_tl: "views (do_write w m) ws = tl (views m (w # ws))"
  by simp

text \<open>All views have the same arrays, with other contents.\<close>

definition mem_ok :: "nat \<Rightarrow> wsd_mem \<Rightarrow> bool" where
  "mem_ok n v \<longleftrightarrow> length (wm_arrays v) = n \<and> wm_cur v < n \<and> (\<forall>a < n. wa_ok (wm_arrays v ! a))"

fun write_ok :: "nat \<Rightarrow> wsd_write \<Rightarrow> bool" where
  "write_ok n (W_bottom b) = True"
| "write_ok n (W_cell a i p) \<longleftrightarrow> a < n"
| "write_ok n (W_array a) \<longleftrightarrow> a < n"

lemma do_write_cell:
  "mem_ok n m \<Longrightarrow> a < n \<Longrightarrow>
     do_write (W_cell a i p) m = m\<lparr>wm_arrays := (wm_arrays m)[a := wa_put (wm_arrays m ! a) i p]\<rparr>"
  by (simp add: mem_ok_def wa_put)

lemma do_write_ok: "mem_ok n m \<Longrightarrow> write_ok n w \<Longrightarrow> mem_ok n (do_write w m)"
proof (cases w)
  case (W_cell a i p)
  assume "mem_ok n m" and "write_ok n w"
  with W_cell show ?thesis
    by (simp add: do_write_cell del: do_write.simps) (auto simp: mem_ok_def nth_list_update)
qed (auto simp: mem_ok_def)

lemma views_ok:
  "mem_ok n m \<Longrightarrow> list_all (write_ok n) ws \<Longrightarrow> v \<in> set (views m ws) \<Longrightarrow> mem_ok n v"
proof (induction ws arbitrary: m)
  case (Cons w ws)
  from Cons.IH [of "do_write w m"] Cons.prems show ?case
    by (auto simp: do_write_ok)
qed simp

lemma view_ok: "mem_ok n m \<Longrightarrow> list_all (write_ok n) ws \<Longrightarrow> mem_ok n (fold do_write ws m)"
  using views_ok [of n m ws "List.last (views m ws)"] by (simp add: views_last [symmetric])

text \<open>Cells of a view: of a given array, and of the current one.\<close>

definition vcell :: "wsd_mem \<Rightarrow> nat \<Rightarrow> int \<Rightarrow> ptr" where
  "vcell v a i = wa_cell (wm_arrays v ! a) i"

abbreviation vit :: "wsd_mem \<Rightarrow> int \<Rightarrow> ptr" where
  "vit v \<equiv> vcell v (wm_cur v)"

abbreviation vsize :: "wsd_mem \<Rightarrow> int" where
  "vsize v \<equiv> int (length (wa_data (wm_arrays v ! wm_cur v)))"

text \<open>
  What makes a stale view harmless: a position below a \<open>bottom\<close> that has been stored holds its
  item, in every view from there on and in every array that has been current from there on.
\<close>

definition settled :: "int \<Rightarrow> int \<Rightarrow> (int \<Rightarrow> ptr) \<Rightarrow> wsd_mem list \<Rightarrow> bool" where
  "settled T U it vs \<longleftrightarrow> (\<forall>j l k i. j \<le> l \<and> l \<le> k \<and> k < length vs \<and> T \<le> i \<and> i < wm_bottom (vs ! j)
     \<longrightarrow> i < U \<and> vcell (vs ! k) (wm_cur (vs ! l)) i = it i)"

lemma settledD:
  assumes "settled T U it vs" and "j \<le> l" "l \<le> k" "k < length vs" "T \<le> i" "i < wm_bottom (vs ! j)"
  shows "i < U" "vcell (vs ! k) (wm_cur (vs ! l)) i = it i"
  using assms unfolding settled_def by blast+

lemma settled_mono: "settled T U it vs \<Longrightarrow> T \<le> T' \<Longrightarrow> settled T' U it vs"
  unfolding settled_def by (meson order_trans)

lemma settled_single:
  "wm_bottom v \<le> U \<Longrightarrow> settled T U (vit v) [v]"
  by (auto simp: settled_def)

lemma settled_start: "wm_bottom v \<le> T \<Longrightarrow> settled T U it [v]"
  by (auto simp: settled_def)

lemma settled_tl:
  assumes "settled T U it (v # vs)"
  shows "settled T U it vs"
  unfolding settled_def
proof (intro allI impI, goal_cases)
  case (1 j l k i)
  then show ?case
    using settledD [OF assms, of "Suc j" "Suc l" "Suc k" i] by simp
qed

lemma settled_front:
  assumes "settled T U it (views m ws)" and "T < wm_bottom m"
  shows "T < U" "l \<le> k \<Longrightarrow> k < length (views m ws) \<Longrightarrow> vcell (views m ws ! k) (wm_cur (views m ws ! l)) T = it T"
  using assms settledD [OF assms(1), of 0 0 0 T] settledD [OF assms(1), of 0 l k T] by simp_all

lemma settled_snoc:
  assumes set: "settled T U it vs" and ne: "vs \<noteq> []"
    and old: "\<And>l i. l < length vs \<Longrightarrow> T \<le> i \<Longrightarrow> i < U \<Longrightarrow>
      vcell v (wm_cur (vs ! l)) i = vcell (List.last vs) (wm_cur (vs ! l)) i"
    and it: "\<And>i. T \<le> i \<Longrightarrow> i < U \<Longrightarrow> it' i = it i"
    and new: "\<And>i. T \<le> i \<Longrightarrow> i < U' \<Longrightarrow> vit v i = it' i"
    and U: "U \<le> U'" "wm_bottom v \<le> U'"
  shows "settled T U' it' (vs @ [v])"
  unfolding settled_def
proof (intro allI impI, goal_cases)
  case (1 j l k i)
  then have H: "j \<le> l" "l \<le> k" "k < Suc (length vs)" "T \<le> i" "i < wm_bottom ((vs @ [v]) ! j)"
    by simp_all
  let ?n = "length vs"
  consider "k < ?n" | "k = ?n" "l < ?n" | "l = ?n" "k = ?n" "j < ?n" | "l = ?n" "k = ?n" "j = ?n"
    using H(1-3) by linarith
  then show ?case
  proof cases
    case 1
    with H settledD [OF set, of j l k i] it U(1) show ?thesis
      by (simp add: nth_append)
  next
    case 2
    then have "l \<le> ?n - 1" "?n - 1 < ?n" "j < ?n"
      using H(1) by linarith+
    with 2 H settledD [OF set, of j l "?n - 1" i] it U(1) old [of l i] show ?thesis
      by (simp add: nth_append last_conv_nth [OF ne])
  next
    case 3
    with H settledD [OF set, of j j j i] U(1) new [of i] show ?thesis
      by (simp add: nth_append)
  next
    case 4
    with H U(2) new [of i] show ?thesis
      by (simp add: nth_append)
  qed
qed

section \<open>The invariant\<close>

text \<open>
  \<open>ws_U\<close>: the end of the items, where the owner stands. Between its store of the lower
  \<open>bottom\<close> and the read of \<open>top\<close> the last item still counts.
\<close>

fun end_at :: "wsd_owner \<Rightarrow> int \<Rightarrow> int" where
  "end_at (O_pop_fence b a) _ = b + 1"
| "end_at (O_pop_top b a) _ = b + 1"
| "end_at (O_pop_empty t) _ = t"
| "end_at (O_pop_get b a t) _ = (if t < b then b else b + 1)"
| "end_at (O_pop_cas t ret) _ = t + 1"
| "end_at (O_pop_reset t1 r) _ = t1"
| "end_at _ bottom = bottom"

text \<open>The item the owner has taken and not yet returned.\<close>

fun in_hand :: "wsd_mem \<Rightarrow> wsd_owner \<Rightarrow> ptr list" where
  "in_hand v (O_pop_get b a t) = (if t < b then [vit v b] else [])"
| "in_hand v (O_pop_reset t1 (Some ret)) = [ret]"
| "in_hand v _ = []"

fun owner_ok :: "int \<Rightarrow> wsd_mem \<Rightarrow> bool \<Rightarrow> wsd_owner \<Rightarrow> bool" where
  "owner_ok T v e (O_push_top g p b) \<longleftrightarrow> b = wm_bottom v"
| "owner_ok T v e (O_push_array g p b t) \<longleftrightarrow>
     b = wm_bottom v \<and> 0 \<le> t \<and> t \<le> T \<and> b - t < vsize v"
| "owner_ok T v e (O_push_test g p b t a) \<longleftrightarrow>
     b = wm_bottom v \<and> 0 \<le> t \<and> t \<le> T \<and> a = wm_cur v \<and> b - t < vsize v"
| "owner_ok T v e (O_push_cell p b a) \<longleftrightarrow> b = wm_bottom v \<and> a = wm_cur v \<and> b - T < vsize v - 1"
| "owner_ok T v e (O_push_publish p b) \<longleftrightarrow> b = wm_bottom v \<and> vit v b = p \<and> b - T < vsize v - 1"
| "owner_ok T v e (O_pop_array b) \<longleftrightarrow> wm_bottom v = b + 1"
| "owner_ok T v e (O_pop_store b a) \<longleftrightarrow> wm_bottom v = b + 1 \<and> a = wm_cur v"
| "owner_ok T v e (O_pop_fence b a) \<longleftrightarrow> wm_bottom v = b \<and> a = wm_cur v"
| "owner_ok T v e (O_pop_top b a) \<longleftrightarrow> wm_bottom v = b \<and> a = wm_cur v \<and> e"
| "owner_ok T v e (O_pop_empty t) \<longleftrightarrow> wm_bottom v = t - 1 \<and> T = t \<and> e"
| "owner_ok T v e (O_pop_get b a t) \<longleftrightarrow> wm_bottom v = b \<and> a = wm_cur v \<and> t \<le> T \<and> t \<le> b \<and> e"
| "owner_ok T v e (O_pop_cas t ret) \<longleftrightarrow> wm_bottom v = t \<and> t \<le> T \<and> ret = vit v t \<and> e"
| "owner_ok T v e (O_pop_reset t1 r) \<longleftrightarrow> wm_bottom v = t1 - 1 \<and> T = t1 \<and> e"
| "owner_ok T v e _ \<longleftrightarrow> True"

fun thief_ok :: "int \<Rightarrow> int \<Rightarrow> (int \<Rightarrow> ptr) \<Rightarrow> nat \<Rightarrow> wsd_mem list \<Rightarrow> wsd_thief \<Rightarrow> bool" where
  "thief_ok T U it n vs (S_bottom t) \<longleftrightarrow> t \<le> T"
| "thief_ok T U it n vs (S_array t b) \<longleftrightarrow> t \<le> T \<and> (t = T \<and> t < b \<longrightarrow> T < U
     \<and> (\<forall>l k. l \<le> k \<and> k < length vs \<longrightarrow> vcell (vs ! k) (wm_cur (vs ! l)) T = it T))"
| "thief_ok T U it n vs (S_get t b a) \<longleftrightarrow> t \<le> T \<and> a < n \<and> (t = T \<and> t < b \<longrightarrow> T < U
     \<and> (\<forall>k < length vs. vcell (vs ! k) a T = it T))"
| "thief_ok T U it n vs (S_cas t ret) \<longleftrightarrow> t \<le> T \<and> (t = T \<longrightarrow> T < U \<and> ret = it T)"
| "thief_ok T U it n vs _ \<longleftrightarrow> True"

abbreviation ws_views :: "wsd_sys \<Rightarrow> wsd_mem list" where
  "ws_views s \<equiv> views (ws_mem s) (ws_buf s)"

abbreviation ws_n :: "wsd_sys \<Rightarrow> nat" where
  "ws_n s \<equiv> length (wm_arrays (ws_mem s))"

definition ws_U :: "wsd_sys \<Rightarrow> int" where
  "ws_U s = end_at (ws_owner s) (wm_bottom (owner_view s))"

definition ws_items :: "wsd_sys \<Rightarrow> ptr list" where
  "ws_items s = List.map (vit (owner_view s)) [ws_top s..ws_U s - 1]"

definition wsd_inv :: "wsd_sys \<Rightarrow> bool" where
  [inv_defs]: "wsd_inv s \<longleftrightarrow> mem_ok (ws_n s) (ws_mem s) \<and> list_all (write_ok (ws_n s)) (ws_buf s)
     \<and> 0 \<le> ws_top s \<and> ws_top s \<le> ws_U s \<and> ws_U s \<le> int (length (ws_pushed s))
     \<and> ws_U s - ws_top s < vsize (owner_view s)
     \<and> owner_ok (ws_top s) (owner_view s) (ws_buf s = []) (ws_owner s)
     \<and> settled (ws_top s) (ws_U s) (vit (owner_view s)) (ws_views s)
     \<and> (\<forall>i. thief_ok (ws_top s) (ws_U s) (vit (owner_view s)) (ws_n s) (ws_views s) (ws_thief s i))
     \<and> mset (ws_pushed s) = mset (ws_popped s) + mset (List.map snd (ws_stolen s)) + mset (ws_items s)
         + mset (in_hand (owner_view s) (ws_owner s))"

lemma wsd_invD:
  assumes "wsd_inv s"
  shows "mem_ok (ws_n s) (ws_mem s)" "list_all (write_ok (ws_n s)) (ws_buf s)"
    "0 \<le> ws_top s" "ws_top s \<le> ws_U s" "ws_U s \<le> int (length (ws_pushed s))"
    "ws_U s - ws_top s < vsize (owner_view s)"
    "owner_ok (ws_top s) (owner_view s) (ws_buf s = []) (ws_owner s)"
    "settled (ws_top s) (ws_U s) (vit (owner_view s)) (ws_views s)"
    "thief_ok (ws_top s) (ws_U s) (vit (owner_view s)) (ws_n s) (ws_views s) (ws_thief s i)"
    "mset (ws_pushed s) = mset (ws_popped s) + mset (List.map snd (ws_stolen s)) + mset (ws_items s)
         + mset (in_hand (owner_view s) (ws_owner s))"
    "mem_ok (ws_n s) (owner_view s)"
  using assms view_ok by (simp_all add: wsd_inv_def owner_view_def)

section \<open>The owner keeps it\<close>

lemma inv_owner_goto:
  assumes inv: "wsd_inv s"
    and c: "owner_ok (ws_top s) (owner_view s) (ws_buf s = []) c"
    "end_at c (wm_bottom (owner_view s)) = ws_U s"
    "in_hand (owner_view s) c = in_hand (owner_view s) (ws_owner s)"
  shows "wsd_inv (owner_goto s c)"
proof -
  have "owner_view (owner_goto s c) = owner_view s"
    by (simp add: owner_view_def)
  moreover from this have "ws_U (owner_goto s c) = ws_U s"
    using c(2) by (simp add: ws_U_def)
  moreover from calculation have "ws_items (owner_goto s c) = ws_items s"
    by (simp add: ws_items_def)
  ultimately show ?thesis
    using inv c(1,3) by (simp add: wsd_inv_def)
qed

lemma thief_ok_snoc:
  assumes ok: "thief_ok T U it n vs c" and ne: "vs \<noteq> []"
    and cur: "\<And>l. l < length vs \<Longrightarrow> wm_cur (vs ! l) < n"
    and old: "\<And>a i. a < n \<Longrightarrow> T \<le> i \<Longrightarrow> i < U \<Longrightarrow> vcell v a i = vcell (List.last vs) a i"
    and it: "\<And>i. T \<le> i \<Longrightarrow> i < U \<Longrightarrow> it' i = it i \<and> vit v i = it i"
    and U: "U \<le> U'"
  shows "thief_ok T U' it' n (vs @ [v]) c"
proof -
  let ?n = "length vs"
  have last: "List.last vs = vs ! (?n - 1)" "?n - 1 < ?n"
    using ne by (simp_all add: last_conv_nth)
  have array: "vcell ((vs @ [v]) ! k) (wm_cur ((vs @ [v]) ! l)) T = it' T"
    if all: "\<And>l k. l \<le> k \<Longrightarrow> k < ?n \<Longrightarrow> vcell (vs ! k) (wm_cur (vs ! l)) T = it T"
      and T: "T < U" and lk: "l \<le> k" "k < Suc ?n" for l k
  proof -
    consider "k < ?n" | "k = ?n" "l < ?n" | "k = ?n" "l = ?n"
      using lk by linarith
    then show ?thesis
    proof cases
      case 1
      then show ?thesis using all [OF lk(1) 1] lk(1) it T by (simp add: nth_append)
    next
      case 2
      then have "l \<le> ?n - 1" by simp
      with 2 all [of l "?n - 1"] old [OF cur [of l]] it T last show ?thesis
        by (simp add: nth_append)
    next
      case 3
      then show ?thesis using it T by simp
    qed
  qed
  show ?thesis
  proof (cases c)
    case (S_array t b)
    with ok array U show ?thesis by auto
  next
    case (S_get t b a)
    with ok old [of a T] it last U show ?thesis
      by (auto simp: less_Suc_eq nth_append)
  next
    case (S_cas t ret)
    with ok it U show ?thesis by auto
  qed (use ok in auto)
qed

lemma inv_owner_write:
  fixes s w c ps qs
  defines "v \<equiv> do_write w (owner_view s)"
  defines "U' \<equiv> end_at c (wm_bottom v)"
  assumes inv: "wsd_inv s" and w: "write_ok (ws_n s) w"
    and old: "\<And>a i. a < ws_n s \<Longrightarrow> ws_top s \<le> i \<Longrightarrow> i < ws_U s \<Longrightarrow> vcell v a i = vcell (owner_view s) a i"
    and it: "\<And>i. ws_top s \<le> i \<Longrightarrow> i < ws_U s \<Longrightarrow> vit v i = vit (owner_view s) i"
    and U: "ws_U s \<le> U'" "wm_bottom v \<le> U'" "U' - ws_top s < vsize v" "U' \<le> int (length ps)"
    and c: "owner_ok (ws_top s) v False c"
    and cons: "mset ps = mset qs + mset (List.map snd (ws_stolen s))
      + mset (List.map (vit v) [ws_top s..U' - 1]) + mset (in_hand v c)"
  shows "wsd_inv (s\<lparr>ws_buf := ws_buf s @ [w], ws_owner := c, ws_pushed := ps, ws_popped := qs\<rparr>)"
    (is "wsd_inv ?s")
proof -
  note D = wsd_invD [OF inv]
  have v: "owner_view ?s = v"
    by (simp add: owner_view_def v_def)
  have vs: "views (ws_mem s) (ws_buf s @ [w]) = ws_views s @ [v]"
    by (simp add: views_snoc v_def owner_view_def)
  have last: "List.last (ws_views s) = owner_view s"
    by (simp add: views_last owner_view_def)
  have cur: "wm_cur (ws_views s ! l) < ws_n s" if "l < length (ws_views s)" for l
    using views_ok [OF D(1,2) nth_mem [OF that]] by (simp add: mem_ok_def)
  have "ws_U ?s = U'"
    by (simp add: ws_U_def U'_def v_def)
  moreover have "settled (ws_top s) U' (vit v) (ws_views s @ [v])"
    by (rule settled_snoc [OF D(8)]) (use old it U cur last in auto)
  moreover have "thief_ok (ws_top s) U' (vit v) (ws_n s) (ws_views s @ [v]) (ws_thief s i)" for i
    by (rule thief_ok_snoc [OF D(9)]) (use old it U cur last in auto)
  ultimately show ?thesis
    using D(1-4) w U c cons by (simp add: wsd_inv_def vs ws_items_def flip: v_def)
qed

lemma vcell_put:
  assumes "mem_ok n v" and "a < n"
  shows "vcell (do_write (W_cell a b p) v) a b = p"
    "wm_cur (do_write (W_cell a b p) v) = wm_cur v"
    "wm_bottom (do_write (W_cell a b p) v) = wm_bottom v"
    "vsize (do_write (W_cell a b p) v) = vsize v"
    "a' \<noteq> a \<Longrightarrow> vcell (do_write (W_cell a b p) v) a' i = vcell v a' i"
    "i \<noteq> b \<Longrightarrow> \<bar>b - i\<bar> < int (length (wa_data (wm_arrays v ! a))) \<Longrightarrow>
      vcell (do_write (W_cell a b p) v) a i = vcell v a i"
  using assms unfolding do_write_cell [OF assms]
  by (auto simp: vcell_def mem_ok_def wa_put_other nth_list_update)

lemma vcell_bottom [simp]:
  "vcell (v\<lparr>wm_bottom := b\<rparr>) a = vcell v a"
  by (simp add: vcell_def fun_eq_iff)

lemma inv_push_cell:
  assumes inv: "wsd_inv s" and pc: "ws_owner s = O_push_cell p b a"
  shows "wsd_inv (owner_goto (owner_write s (W_cell a b p)) (O_push_publish p b))"
proof -
  note D = wsd_invD [OF inv]
  let ?lv = "owner_view s" and ?v = "do_write (W_cell a b p) (owner_view s)"
  have o: "b = wm_bottom ?lv" "a = wm_cur ?lv" "b - ws_top s < vsize ?lv - 1" and U: "ws_U s = b"
    using D(7) pc by (simp_all add: ws_U_def)
  have a: "a < ws_n s"
    using D(11) o(2) by (simp add: mem_ok_def)
  note P = vcell_put [OF D(11) a, where b = b and p = p]
  have old: "vcell ?v a' i = vcell ?lv a' i" if "ws_top s \<le> i" "i < ws_U s" for a' i
  proof (cases "a' = a")
    case True
    have "i \<noteq> b" "\<bar>b - i\<bar> < int (length (wa_data (wm_arrays ?lv ! a)))"
      using that o(3) U unfolding o(2) by linarith+
    with P(6) True show ?thesis by blast
  qed (rule P(5))
  have items: "List.map (vit ?v) [ws_top s..b - 1] = ws_items s"
    unfolding ws_items_def U using old U P(2) by (intro map_cong refl) simp
  have "wsd_inv (s\<lparr>ws_buf := ws_buf s @ [W_cell a b p], ws_owner := O_push_publish p b,
      ws_pushed := ws_pushed s, ws_popped := ws_popped s\<rparr>)"
  proof (rule inv_owner_write [OF inv])
    show "owner_ok (ws_top s) ?v False (O_push_publish p b)"
      using o P(1-4) by simp
  qed (use a old o U P(2-4) D(4-6,10) items pc in simp_all)
  then show ?thesis by simp
qed

lemma inv_push_publish:
  assumes inv: "wsd_inv s" and pc: "ws_owner s = O_push_publish p b"
  shows "wsd_inv (owner_goto (owner_write s (W_bottom (b + 1))) O_idle\<lparr>ws_pushed := ws_pushed s @ [p]\<rparr>)"
proof -
  note D = wsd_invD [OF inv]
  have o: "b = wm_bottom (owner_view s)" "vit (owner_view s) b = p" "b - ws_top s < vsize (owner_view s) - 1"
    and U: "ws_U s = b"
    using D(7) unfolding ws_U_def pc by auto
  have items: "mset (List.map (vit (owner_view s)) [ws_top s..b]) = mset (ws_items s) + {#p#}"
    using D(4) U o(2) by (simp add: ws_items_def upto_rec2)
  have "wsd_inv (s\<lparr>ws_buf := ws_buf s @ [W_bottom (b + 1)], ws_owner := O_idle,
      ws_pushed := ws_pushed s @ [p], ws_popped := ws_popped s\<rparr>)"
    by (rule inv_owner_write [OF inv]) (use D(4-6,10) o U items pc in \<open>simp_all\<close>)
  then show ?thesis by simp
qed

lemma inv_pop_store:
  assumes inv: "wsd_inv s" and pc: "ws_owner s = O_pop_store b a"
  shows "wsd_inv (owner_goto (owner_write s (W_bottom b)) (O_pop_fence b a))"
proof -
  note D = wsd_invD [OF inv]
  have o: "wm_bottom (owner_view s) = b + 1" "a = wm_cur (owner_view s)" and U: "ws_U s = b + 1"
    using D(7) pc by (simp_all add: ws_U_def)
  have "wsd_inv (s\<lparr>ws_buf := ws_buf s @ [W_bottom b], ws_owner := O_pop_fence b a,
      ws_pushed := ws_pushed s, ws_popped := ws_popped s\<rparr>)"
    by (rule inv_owner_write [OF inv]) (use D(4-6,10) o U pc in \<open>simp_all add: ws_items_def\<close>)
  then show ?thesis by simp
qed

lemma inv_pop_empty:
  assumes inv: "wsd_inv s" and pc: "ws_owner s = O_pop_empty t"
  shows "wsd_inv (owner_goto (owner_write s (W_bottom t)) O_idle)"
proof -
  note D = wsd_invD [OF inv]
  have o: "wm_bottom (owner_view s) = t - 1" "ws_top s = t" and U: "ws_U s = t"
    using D(7) pc by (simp_all add: ws_U_def)
  have "wsd_inv (s\<lparr>ws_buf := ws_buf s @ [W_bottom t], ws_owner := O_idle,
      ws_pushed := ws_pushed s, ws_popped := ws_popped s\<rparr>)"
    by (rule inv_owner_write [OF inv]) (use D(4-6,10) o U pc in \<open>simp_all add: ws_items_def\<close>)
  then show ?thesis by simp
qed

lemma inv_pop_reset:
  assumes inv: "wsd_inv s" and pc: "ws_owner s = O_pop_reset t1 r"
  shows "wsd_inv (owner_goto (owner_write s (W_bottom t1)) O_idle
    \<lparr>ws_popped := ws_popped s @ (case r of None \<Rightarrow> [] | Some ret \<Rightarrow> [ret])\<rparr>)"
proof -
  note D = wsd_invD [OF inv]
  have o: "wm_bottom (owner_view s) = t1 - 1" "ws_top s = t1" and U: "ws_U s = t1"
    using D(7) pc by (simp_all add: ws_U_def)
  have "wsd_inv (s\<lparr>ws_buf := ws_buf s @ [W_bottom t1], ws_owner := O_idle, ws_pushed := ws_pushed s,
      ws_popped := ws_popped s @ (case r of None \<Rightarrow> [] | Some ret \<Rightarrow> [ret])\<rparr>)"
    by (rule inv_owner_write [OF inv])
      (use D(4-6,10) o U pc in \<open>simp_all add: ws_items_def split: option.split\<close>)
  then show ?thesis by simp
qed

text \<open>A new array, unreachable as yet, changes nothing; then the owner stores the pointer to it.\<close>

definition add_array :: "wsd_circular_array \<Rightarrow> wsd_mem \<Rightarrow> wsd_mem" where
  "add_array x v = v\<lparr>wm_arrays := wm_arrays v @ [x]\<rparr>"

lemma add_array_simps [simp]:
  "wm_bottom (add_array x v) = wm_bottom v" "wm_cur (add_array x v) = wm_cur v"
  "length (wm_arrays (add_array x v)) = Suc (length (wm_arrays v))"
  by (simp_all add: add_array_def)

lemma add_array_cells:
  assumes "mem_ok n v"
  shows "a < n \<Longrightarrow> vcell (add_array x v) a = vcell v a" "wm_arrays (add_array x v) ! wm_cur v = wm_arrays v ! wm_cur v"
    "vcell (add_array x v) (wm_cur v) = vit v" "vcell (add_array x v) n = wa_cell x"
    "wm_arrays (add_array x v) ! n = x"
  using assms by (auto simp: add_array_def mem_ok_def vcell_def nth_append fun_eq_iff)

lemma add_array_ok: "mem_ok n v \<Longrightarrow> wa_ok x \<Longrightarrow> mem_ok (Suc n) (add_array x v)"
  by (auto simp: mem_ok_def add_array_def nth_append less_Suc_eq)

lemma add_array_write:
  "mem_ok n v \<Longrightarrow> write_ok n w \<Longrightarrow> do_write w (add_array x v) = add_array x (do_write w v)"
  by (cases w) (auto simp: mem_ok_def add_array_def nth_append list_update_append split: option.split)

lemma views_add_array:
  "mem_ok n m \<Longrightarrow> list_all (write_ok n) ws \<Longrightarrow>
     views (add_array x m) ws = List.map (add_array x) (views m ws)"
proof (induction ws arbitrary: m)
  case (Cons w ws)
  then show ?case
    using Cons.IH [of "do_write w m"] by (simp add: add_array_write do_write_ok)
qed simp

lemma inv_new_array:
  assumes inv: "wsd_inv s" and x: "wa_ok x"
  shows "wsd_inv (s\<lparr>ws_mem := add_array x (ws_mem s)\<rparr>)" (is "wsd_inv ?s")
    "owner_view (s\<lparr>ws_mem := add_array x (ws_mem s)\<rparr>) = add_array x (owner_view s)"
proof -
  note D = wsd_invD [OF inv]
  have views: "views (add_array x (ws_mem s)) (ws_buf s) = List.map (add_array x) (ws_views s)"
    by (rule views_add_array [OF D(1,2)])
  then show v: "owner_view ?s = add_array x (owner_view s)"
    using views_last [of "ws_mem ?s" "ws_buf ?s"] views_last [of "ws_mem s" "ws_buf s"]
    by (simp add: owner_view_def last_map)
  have ok: "mem_ok (ws_n s) (ws_views s ! k)" if "k < length (ws_views s)" for k
    using views_ok [OF D(1,2) nth_mem [OF that]] .
  have cell: "vcell (ws_views ?s ! k) a = vcell (ws_views s ! k) a"
    if "k < length (ws_views s)" "a < ws_n s" for k a
    using add_array_cells(1) [OF ok [OF that(1)] that(2)] that(1) by (simp add: views)
  have cur: "wm_cur (ws_views ?s ! l) = wm_cur (ws_views s ! l)" "wm_cur (ws_views s ! l) < ws_n s"
    if "l < length (ws_views s)" for l
    using ok [OF that] that by (simp_all add: views mem_ok_def)
  note A = add_array_cells [OF D(11)]
  have U: "ws_U ?s = ws_U s"
    by (simp add: ws_U_def v)
  have own: "owner_ok T (add_array x (owner_view s)) e c = owner_ok T (owner_view s) e c" for T e c
    by (cases c) (simp_all add: A(2,3))
  have hand: "in_hand (add_array x (owner_view s)) c = in_hand (owner_view s) c" for c
    by (cases "(owner_view s, c)" rule: in_hand.cases) (simp_all add: A(3))
  have "settled (ws_top s) (ws_U s) (vit (owner_view s)) (ws_views ?s)"
    unfolding settled_def
  proof (intro allI impI, goal_cases)
    case (1 j l k i)
    then have "k < length (ws_views s)" "l < length (ws_views s)" "j < length (ws_views s)"
      by (simp_all add: views)
    with 1 show ?case
      using settledD [OF D(8), of j l k i] cell cur by (simp add: views)
  qed
  moreover have "thief_ok (ws_top s) (ws_U s) (vit (owner_view s)) (Suc (ws_n s)) (ws_views ?s) (ws_thief s i)" for i
  proof (cases "ws_thief s i")
    case (S_array t b)
    with D(9) [of i] show ?thesis
      using cell cur by (simp add: views)
  next
    case (S_get t b a)
    with D(9) [of i] show ?thesis
      using cell by (simp add: views)
  qed (use D(9) [of i] in simp_all)
  moreover have "list_all (write_ok (Suc (ws_n s))) (ws_buf s)"
    using D(2) by (rule list.pred_mono_strong) (auto elim!: write_ok.elims)
  ultimately show "wsd_inv ?s"
    using D(3-7,10) add_array_ok [OF D(1) x]
    by (simp add: wsd_inv_def U v own hand A(2,3) ws_items_def)
qed

lemma inv_push_grow:
  assumes inv: "wsd_inv s" and pc: "ws_owner s = O_push_test g p b t a"
    and bound: "length (ws_pushed s) < 2 ^ 63"
    and grow: "wsd_circular_array_grow (wm_arrays (owner_view s) ! a) (word_of_int t) (word_of_int b)
      True junk = Some (Some x)"
  shows "wsd_inv (s\<lparr>ws_mem := (ws_mem s)\<lparr>wm_arrays := wm_arrays (ws_mem s) @ [x]\<rparr>,
    ws_buf := ws_buf s @ [W_array (ws_n s)], ws_owner := O_push_cell p b (ws_n s)\<rparr>)"
proof -
  note D = wsd_invD [OF inv]
  let ?lv = "owner_view s" and ?n = "ws_n s"
  have o: "b = wm_bottom ?lv" "0 \<le> t" "t \<le> ws_top s" "b - t < vsize ?lv" and a: "a = wm_cur ?lv"
    and U: "ws_U s = b"
    using D(7) pc by (simp_all add: ws_U_def)
  have arr: "wa_ok (wm_arrays ?lv ! wm_cur ?lv)"
    using D(11) by (simp add: mem_ok_def)
  have "int (length (ws_pushed s)) < int (2 ^ 63)"
    using bound by (simp only: of_nat_less_iff)
  then have w: "t \<le> b" "b < 2 ^ 63" "b - t \<le> vsize ?lv"
    using o(3,4) D(4,5) U by simp_all
  from wa_grow_law [OF arr wa_grow_small [OF arr grow [unfolded a]] o(2) w, of junk] grow
  have x: "wa_ok x" "length (wa_data x) = 2 * length (wa_data (wm_arrays ?lv ! wm_cur ?lv))"
    and cells: "\<And>i. t \<le> i \<Longrightarrow> i < b \<Longrightarrow> wa_cell x i = vit ?lv i"
    by (auto simp: a vcell_def)
  let ?s1 = "s\<lparr>ws_mem := add_array x (ws_mem s)\<rparr>"
  note N = inv_new_array [OF inv x(1)] and A = add_array_cells [OF D(11), where x = x]
  have U1: "ws_U ?s1 = b"
    using U by (simp add: ws_U_def N(2))
  have [simp]: "vcell (v\<lparr>wm_cur := n\<rparr>) = vcell v" for v n
    by (simp add: vcell_def fun_eq_iff)
  have items: "List.map (wa_cell x) [ws_top s..b - 1] = ws_items s"
    unfolding ws_items_def U using cells o(3) by (intro map_cong) auto
  have "wsd_inv (?s1\<lparr>ws_buf := ws_buf ?s1 @ [W_array ?n], ws_owner := O_push_cell p b ?n,
      ws_pushed := ws_pushed ?s1, ws_popped := ws_popped ?s1\<rparr>)"
    by (rule inv_owner_write [OF N(1)])
      (use o cells U U1 D(4-6,10) x(2) A items pc in \<open>simp_all add: N(2) vcell_def [of "add_array x ?lv" ?n]\<close>)
  then show ?thesis by (simp add: add_array_def)
qed

text \<open>The reads of \<open>pop_bottom\<close>: of \<open>top\<close>, of the cell, and the compare-and-swap.\<close>

lemma inv_pop_top:
  assumes inv: "wsd_inv s" and pc: "ws_owner s = O_pop_top b a"
  shows "wsd_inv (owner_goto s (if b - ws_top s < 0 then O_pop_empty (ws_top s) else O_pop_get b a (ws_top s)))"
    (is "wsd_inv (owner_goto s ?c)")
proof -
  note D = wsd_invD [OF inv]
  let ?lv = "owner_view s"
  have o: "wm_bottom ?lv = b" "a = wm_cur ?lv" "ws_buf s = []" and U: "ws_U s = b + 1"
    using D(7) pc by (simp_all add: ws_U_def)
  show ?thesis
  proof (cases "ws_top s < b")
    case False
    then show ?thesis
      using D(4) o U pc by (intro inv_owner_goto [OF inv]) auto
  next
    case True
    let ?s = "owner_goto s (O_pop_get b a (ws_top s))"
    have lv: "?lv = ws_mem s"
      using o(3) by (simp add: owner_view_def)
    have "mset (ws_items s) = mset (List.map (vit ?lv) [ws_top s..b - 1]) + {#vit ?lv b#}"
      using D(4) U True by (simp add: ws_items_def upto_rec2)
    then have cons: "mset (ws_pushed s) = mset (ws_popped s) + mset (List.map snd (ws_stolen s))
        + mset (List.map (vit ?lv) [ws_top s..b - 1]) + {#vit ?lv b#}"
      using D(10) pc by simp
    have "thief_ok (ws_top s) b (vit ?lv) (ws_n s) (ws_views s) (ws_thief s i)" for i
      using D(9) [of i] True by (cases "ws_thief s i") simp_all
    moreover have "settled (ws_top s) b (vit ?lv) (ws_views s)"
      using o lv by (simp add: settled_single)
    moreover have "ws_U ?s = b" "ws_items ?s = List.map (vit ?lv) [ws_top s..b - 1]"
      using True by (simp_all add: ws_U_def ws_items_def)
    ultimately have "wsd_inv ?s"
      unfolding wsd_inv_def using D(1-6) o U True cons by simp
    with True show ?thesis by simp
  qed
qed

lemma inv_pop_get:
  assumes inv: "wsd_inv s" and pc: "ws_owner s = O_pop_get b a t"
    and get: "wsd_circular_array_get (wm_arrays (owner_view s) ! a) (word_of_int b) = Some ret"
  shows "wsd_inv (if b - t > 0 then owner_goto s O_idle\<lparr>ws_popped := ws_popped s @ [ret]\<rparr>
    else owner_goto s (O_pop_cas t ret))"
proof -
  note D = wsd_invD [OF inv]
  let ?lv = "owner_view s"
  have o: "wm_bottom ?lv = b" "a = wm_cur ?lv" "ws_buf s = []" "t \<le> ws_top s" "t \<le> b"
    using D(7) pc by simp_all
  have ret: "ret = vit ?lv b"
    using get D(11) o(2) by (simp add: mem_ok_def wa_get vcell_def)
  show ?thesis
  proof (cases "t < b")
    case True
    let ?s = "owner_goto s O_idle\<lparr>ws_popped := ws_popped s @ [ret]\<rparr>"
    have "ws_U ?s = ws_U s" "ws_items ?s = ws_items s"
      using True pc o(1) by (simp_all add: ws_U_def ws_items_def)
    then have "wsd_inv ?s"
      unfolding wsd_inv_def using D True pc ret by simp
    with True show ?thesis by simp
  next
    case False
    then show ?thesis
      using o ret pc by (auto simp: ws_U_def intro!: inv_owner_goto [OF inv])
  qed
qed

text \<open>A successful compare-and-swap of \<open>top\<close> takes the oldest item.\<close>

lemma thief_ok_mono:
  "thief_ok T U it n vs c \<Longrightarrow> thief_ok (T + 1) U it n vs c"
  by (cases c) auto

lemma inv_pop_cas:
  assumes inv: "wsd_inv s" and pc: "ws_owner s = O_pop_cas t ret"
  shows "t = ws_top s \<Longrightarrow> wsd_inv (owner_goto s (O_pop_reset (t + 1) (Some ret))\<lparr>ws_top := t + 1\<rparr>)"
    "t \<noteq> ws_top s \<Longrightarrow> wsd_inv (owner_goto s (O_pop_reset (t + 1) None))"
proof -
  note D = wsd_invD [OF inv]
  let ?lv = "owner_view s"
  have o: "wm_bottom ?lv = t" "t \<le> ws_top s" "ret = vit ?lv t" "ws_buf s = []" and U: "ws_U s = t + 1"
    using D(7) pc by (simp_all add: ws_U_def)
  show "wsd_inv (owner_goto s (O_pop_reset (t + 1) None))" if "t \<noteq> ws_top s"
    using that D(4) o U pc by (intro inv_owner_goto [OF inv]) auto
  assume t: "t = ws_top s"
  let ?s = "owner_goto s (O_pop_reset (t + 1) (Some ret))\<lparr>ws_top := t + 1\<rparr>"
  have "ws_U ?s = t + 1" "ws_items ?s = []"
    by (simp_all add: ws_U_def ws_items_def)
  moreover have "ws_items s = [ret]"
    using U t o(3) by (simp add: ws_items_def)
  ultimately show "wsd_inv ?s"
    unfolding wsd_inv_def
    using D(1,2,3,5,6,10) settled_mono [OF D(8), of "t + 1"] thief_ok_mono [OF D(9)] o U t pc
    by auto
qed

section \<open>The thieves and the flushes keep it\<close>

lemma inv_thief_goto:
  assumes inv: "wsd_inv s"
    and c: "thief_ok (ws_top s) (ws_U s) (vit (owner_view s)) (ws_n s) (ws_views s) c"
  shows "wsd_inv (s\<lparr>ws_thief := (ws_thief s)(i := c)\<rparr>)"
proof -
  have "ws_U (s\<lparr>ws_thief := f\<rparr>) = ws_U s" "ws_items (s\<lparr>ws_thief := f\<rparr>) = ws_items s" for f
    by (simp_all add: ws_U_def ws_items_def)
  with inv c show ?thesis
    by (simp add: wsd_inv_def)
qed

lemma inv_steal_won:
  assumes inv: "wsd_inv s" and pc: "ws_thief s i = S_cas (ws_top s) ret"
  shows "wsd_inv (s\<lparr>ws_thief := (ws_thief s)(i := S_idle), ws_top := ws_top s + 1,
    ws_stolen := ws_stolen s @ [(i, ret)]\<rparr>)" (is "wsd_inv ?s")
proof -
  note D = wsd_invD [OF inv]
  have t: "ws_top s < ws_U s" "ret = vit (owner_view s) (ws_top s)"
    using D(9) [of i] pc by simp_all
  have U: "ws_U ?s = ws_U s"
    by (simp add: ws_U_def)
  have "[ws_top s..ws_U s - 1] = ws_top s # [ws_top s + 1..ws_U s - 1]"
    using t(1) by (simp add: upto_rec1)
  then have "mset (ws_items s) = {#ret#} + mset (ws_items ?s)"
    using t(2) by (simp add: ws_items_def ws_U_def)
  then have cons: "mset (ws_pushed s) = mset (ws_popped s) + mset (List.map snd (ws_stolen s @ [(i, ret)]))
      + mset (ws_items ?s) + mset (in_hand (owner_view s) (ws_owner s))"
    using D(10) by simp
  have o: "owner_ok (ws_top s + 1) (owner_view s) (ws_buf s = []) (ws_owner s)"
    using D(7) t(1) by (cases "ws_owner s") (auto simp: ws_U_def)
  show ?thesis
    unfolding wsd_inv_def
    using D(1-6) o cons settled_mono [OF D(8), of "ws_top s + 1"] thief_ok_mono [OF D(9)] t(1) U
    by auto
qed

lemma inv_thief:
  assumes inv: "wsd_inv s" and step: "thief_next i s = Some s'"
  shows "wsd_inv s'"
proof (cases "ws_thief s i")
  case S_idle
  with step show ?thesis by (simp add: thief_next_def)
next
  case S_top
  with step inv show ?thesis
    by (auto simp: thief_next_def intro!: inv_thief_goto)
next
  case (S_bottom t)
  have "thief_ok (ws_top s) (ws_U s) (vit (owner_view s)) (ws_n s) (ws_views s) (S_array t (wm_bottom (ws_mem s)))"
    using wsd_invD(9) [OF inv, of i] S_bottom settled_front [OF wsd_invD(8) [OF inv]] by simp
  with S_bottom step inv show ?thesis
    by (auto simp: thief_next_def intro!: inv_thief_goto)
next
  case (S_array t b)
  have "thief_ok (ws_top s) (ws_U s) (vit (owner_view s)) (ws_n s) (ws_views s) (S_get t b (wm_cur (ws_mem s)))"
    using wsd_invD(1) [OF inv] wsd_invD(9) [OF inv, of i] S_array by (auto simp: mem_ok_def dest: spec [of _ 0])
  with S_array step inv show ?thesis
    by (auto simp: thief_next_def intro!: inv_thief_goto)
next
  case (S_get t b a)
  then have "t \<le> ws_top s" "a < ws_n s" and T: "t = ws_top s \<and> t < b \<longrightarrow> ws_top s < ws_U s
      \<and> vcell (ws_mem s) a (ws_top s) = vit (owner_view s) (ws_top s)"
    using wsd_invD(9) [OF inv, of i] views_0 [of "ws_mem s" "ws_buf s"] by (auto dest: spec [of _ 0])
  moreover from this have "wsd_circular_array_get (wm_arrays (ws_mem s) ! a) (word_of_int t) = Some (vcell (ws_mem s) a t)"
    using wsd_invD(1) [OF inv] by (simp add: mem_ok_def wa_get vcell_def)
  ultimately show ?thesis
    using S_get step inv by (auto simp: thief_next_def split: if_splits intro!: inv_thief_goto)
next
  case (S_cas t ret)
  with step inv inv_steal_won [OF inv, of i ret] show ?thesis
    by (auto simp: thief_next_def sync_bool_compare_and_swap_def split: if_splits intro!: inv_thief_goto)
qed

lemma thief_ok_tl:
  assumes "thief_ok T U it n (v # vs) c"
  shows "thief_ok T U it n vs c"
proof (cases c)
  case (S_array t b)
  have "vcell (vs ! k) (wm_cur (vs ! l)) T = it T"
    if "\<forall>l k. l \<le> k \<and> k < Suc (length vs) \<longrightarrow> vcell ((v # vs) ! k) (wm_cur ((v # vs) ! l)) T = it T"
      "l \<le> k" "k < length vs" for l k
    using that(1) [rule_format, of "Suc l" "Suc k"] that(2,3) by simp
  with assms S_array show ?thesis by simp
next
  case (S_get t b a)
  with assms show ?thesis by (auto dest: spec [of _ "Suc _"])
qed (use assms in simp_all)

lemma inv_flush:
  assumes inv: "wsd_inv s" and buf: "ws_buf s = w # ws"
  shows "wsd_inv (s\<lparr>ws_mem := do_write w (ws_mem s), ws_buf := ws\<rparr>)" (is "wsd_inv ?s")
proof -
  note D = wsd_invD [OF inv]
  have lv: "owner_view ?s = owner_view s"
    by (simp add: owner_view_def buf)
  have vs: "ws_views s = ws_mem s # ws_views ?s"
    by (simp add: buf)
  have m: "mem_ok (ws_n s) (do_write w (ws_mem s))" "list_all (write_ok (ws_n s)) ws"
    using D(1,2) by (simp_all add: buf do_write_ok)
  then have n: "ws_n ?s = ws_n s"
    by (simp add: mem_ok_def)
  have "settled (ws_top s) (ws_U s) (vit (owner_view s)) (ws_views ?s)"
    using D(8) unfolding vs by (rule settled_tl)
  moreover have "thief_ok (ws_top s) (ws_U s) (vit (owner_view s)) (ws_n s) (ws_views ?s) (ws_thief s i)" for i
    using D(9) [of i] unfolding vs by (rule thief_ok_tl)
  moreover have "owner_ok (ws_top s) (owner_view s) (ws = []) (ws_owner s)"
    using D(7) buf by (cases "ws_owner s") simp_all
  moreover have "ws_U ?s = ws_U s"
    by (simp add: ws_U_def lv)
  moreover from this have "ws_items ?s = ws_items s"
    by (simp add: ws_items_def lv)
  ultimately show ?thesis
    using D(3-6,10) m n by (simp add: wsd_inv_def lv)
qed

section \<open>Every step\<close>

lemma inv_owner_test:
  assumes inv: "wsd_inv s" and pc: "ws_owner s = O_push_test g p b t a"
    and bound: "length (ws_pushed s) < 2 ^ 63" and step: "owner_test junk s g p b t a = Some s'"
  shows "wsd_inv s'"
proof -
  let ?arr = "wm_arrays (owner_view s) ! a"
  have o: "b = wm_bottom (owner_view s)" "t \<le> ws_top s" "a = wm_cur (owner_view s)"
    using wsd_invD(7) [OF inv] pc by simp_all
  then have arr: "wa_ok ?arr"
    using wsd_invD(11) [OF inv] by (simp add: mem_ok_def)
  show ?thesis
  proof (cases "sint (wa_size_minus_one ?arr) \<le> b - t")
    case False
    then have "owner_ok (ws_top s) (owner_view s) (ws_buf s = []) (O_push_cell p b a)"
      using o wa_size_sint [OF arr] by simp
    then have "wsd_inv (owner_goto s (O_push_cell p b a))"
      using pc by (intro inv_owner_goto [OF inv]) (simp_all add: ws_U_def)
    with False step show ?thesis by (simp add: owner_test_def Let_def)
  next
    case True
    have "wsd_inv (owner_goto s O_idle)"
      using pc by (intro inv_owner_goto [OF inv]) (simp_all add: ws_U_def)
    with True step inv_push_grow [OF inv pc bound] show ?thesis
      by (auto simp: owner_test_def Let_def split: if_splits option.splits)
  qed
qed

lemma inv_owner:
  assumes inv: "wsd_inv s" and fence: "drains_stores (store_load_barrier ar)"
    and bound: "length (ws_pushed s) < 2 ^ 63" and step: "owner_next ar junk s = Some s'"
  shows "wsd_inv s'"
proof (cases "ws_owner s")
  case O_idle
  with step show ?thesis by (simp add: owner_next_def)
next
  case (O_push_bottom g p)
  with step inv show ?thesis by (auto simp: owner_next_def ws_U_def intro!: inv_owner_goto)
next
  case (O_push_top g p b)
  with step inv wsd_invD(3,4,6,7) [OF inv] show ?thesis
    by (auto simp: owner_next_def ws_U_def intro!: inv_owner_goto)
next
  case (O_push_array g p b t)
  with step inv wsd_invD(7) [OF inv] show ?thesis
    by (auto simp: owner_next_def ws_U_def intro!: inv_owner_goto)
next
  case (O_push_test g p b t a)
  with step inv_owner_test [OF inv _ bound] show ?thesis by (simp add: owner_next_def)
next
  case (O_push_cell p b a)
  with step inv_push_cell [OF inv] show ?thesis by (auto simp: owner_next_def)
next
  case (O_push_publish p b)
  with step inv_push_publish [OF inv] show ?thesis by (auto simp: owner_next_def)
next
  case O_pop_bottom
  with step inv show ?thesis by (auto simp: owner_next_def ws_U_def intro!: inv_owner_goto)
next
  case (O_pop_array b)
  with step inv wsd_invD(7) [OF inv] show ?thesis
    by (auto simp: owner_next_def ws_U_def intro!: inv_owner_goto)
next
  case (O_pop_store b a)
  with step inv_pop_store [OF inv] show ?thesis by (auto simp: owner_next_def)
next
  case (O_pop_fence b a)
  with step inv fence wsd_invD(7) [OF inv] show ?thesis
    by (auto simp: owner_next_def ws_U_def split: if_splits intro!: inv_owner_goto)
next
  case (O_pop_top b a)
  with step inv_pop_top [OF inv] show ?thesis by (auto simp: owner_next_def)
next
  case (O_pop_empty t)
  with step inv_pop_empty [OF inv] show ?thesis by (auto simp: owner_next_def)
next
  case (O_pop_get b a t)
  with step inv_pop_get [OF inv O_pop_get] show ?thesis
    by (auto simp: owner_next_def split: option.splits)
next
  case (O_pop_cas t ret)
  with step inv_pop_cas [OF inv O_pop_cas] show ?thesis
    by (auto simp: owner_next_def sync_bool_compare_and_swap_def split: if_splits)
next
  case (O_pop_reset t1 r)
  with step inv_pop_reset [OF inv O_pop_reset] show ?thesis by (auto simp: owner_next_def)
qed

lemma wsd_inv_init:
  assumes "wsd_init s"
  shows "wsd_inv s"
proof -
  obtain log_size junk d where
    c: "wsd_work_stealing_deque_create log_size True True junk = Some (Some d)" and s: "s = wsd_start d"
    using assms by (auto simp: wsd_init_def)
  have "log_size < 31"
    using c by (auto simp: wsd_work_stealing_deque_create_def wsd_circular_array_create_def
      word_less_nat_alt split: if_splits)
  from wd_create [OF this, of junk] c have d: "wd_ok d" "wd_bottom d = 0"
    by (auto simp: wd_legal_ok_def)
  note D = wd_okD [OF d(1)]
  have "wd_top d = 0"
    using D(2,3) d(2) by simp
  then show ?thesis
    using D(1,5) d(2) wa_length(1) [OF D(1)]
    by (simp add: wsd_inv_def wsd_start_def s mem_ok_def owner_view_def ws_U_def ws_items_def settled_start)
qed

lemma wsd_inv_step:
  assumes inv: "wsd_inv s" and fence: "drains_stores (store_load_barrier ar)"
    and bound: "length (ws_pushed s) < 2 ^ 63" and step: "wsd_step ar s s'"
  shows "wsd_inv s'"
proof -
  obtain a where 1: "wsd_do ar a s = Some s'"
    using step by (rule wsd_stepE)
  show ?thesis
  proof (cases a)
    case (Call_push g p)
    with 1 inv show ?thesis by (auto simp: ws_U_def split: if_splits intro!: inv_owner_goto)
  next
    case Call_pop
    with 1 inv show ?thesis by (auto simp: ws_U_def split: if_splits intro!: inv_owner_goto)
  next
    case (Owner junk)
    with 1 inv_owner [OF inv fence bound] show ?thesis by simp
  next
    case (Call_steal i)
    with 1 inv show ?thesis by (auto split: if_splits intro!: inv_thief_goto)
  next
    case (Thief i)
    with 1 inv_thief [OF inv] show ?thesis by simp
  next
    case Flush
    with 1 inv_flush [OF inv] show ?thesis by (auto split: list.splits)
  qed
qed

definition wsd_bound :: "wsd_sys \<Rightarrow> bool" where
  "wsd_bound s \<longleftrightarrow> length (ws_pushed s) < 2 ^ 63"

text \<open>Pushes are only ever added.\<close>

lemma wsd_pushed_mono:
  assumes "wsd_step ar s s'"
  shows "length (ws_pushed s) \<le> length (ws_pushed s')"
proof -
  obtain a where 1: "wsd_do ar a s = Some s'"
    using assms by (rule wsd_stepE)
  have "length (ws_pushed s) \<le> length (ws_pushed s')" if "owner_next ar junk s = Some s'" for junk
    using that by (auto simp: owner_next_def owner_test_def Let_def
      split: wsd_owner.splits if_splits option.splits prod.splits bool.splits)
  moreover have "length (ws_pushed s) \<le> length (ws_pushed s')" if "thief_next i s = Some s'" for i
    using that by (auto simp: thief_next_def Let_def
      split: wsd_thief.splits if_splits option.splits prod.splits bool.splits)
  ultimately show ?thesis
    using 1 by (cases a) (auto split: if_splits list.splits)
qed

lemma wsd_bounded_invariant:
  assumes "drains_stores (store_load_barrier ar)"
  shows "bounded_invariant wsd_init (wsd_step ar) wsd_bound wsd_inv"
proof
  fix s s'
  assume "wsd_step ar s s'" and b: "wsd_bound s'"
  then have "length (ws_pushed s) < 2 ^ 63"
    using wsd_pushed_mono [of ar s s'] unfolding wsd_bound_def by linarith
  then show "wsd_bound s"
    by (simp add: wsd_bound_def)
  show "wsd_inv s'" if "wsd_inv s"
    using wsd_inv_step [OF that assms] \<open>length (ws_pushed s) < 2 ^ 63\<close> \<open>wsd_step ar s s'\<close> .
qed (rule wsd_inv_init)

interpretation wsd_x86: bounded_invariant wsd_init "wsd_step (Some ARCH_x86)" wsd_bound wsd_inv
  by (rule wsd_bounded_invariant) (simp add: drains_stores_def store_load_barrier_def)

interpretation wsd_generic: bounded_invariant wsd_init "wsd_step None" wsd_bound wsd_inv
  by (rule wsd_bounded_invariant) (simp add: drains_stores_def store_load_barrier_def)

section \<open>Properties\<close>

text \<open>
  C2. With a store-load barrier that drains the store buffer, no item is lost, none is returned
  twice and none is invented, whatever the interleaving of the owner, any number of thieves
  and the flushes, growing included: at every moment what was popped or stolen is part of what
  was pushed, and between the owner's operations the rest is in the deque. The counters
  stay between 0 and the number of pushes (fewer than \<open>2 ^ 63\<close>).
\<close>

theorem wsd_exactly_once:
  assumes "drains_stores (store_load_barrier ar)" and "reach wsd_init (wsd_step ar) s"
    and "length (ws_pushed s) < 2 ^ 63"
  shows "mset (ws_popped s) + mset (List.map snd (ws_stolen s)) \<subseteq># mset (ws_pushed s)
    \<and> 0 \<le> ws_top s \<and> ws_top s \<le> int (length (ws_pushed s))
    \<and> (ws_owner s = O_idle \<longrightarrow>
        mset (ws_pushed s) = mset (ws_popped s) + mset (List.map snd (ws_stolen s)) + mset (ws_items s)
        \<and> ws_top s \<le> wm_bottom (owner_view s)
        \<and> wm_bottom (owner_view s) \<le> int (length (ws_pushed s)))"
proof -
  have "ar = Some ARCH_x86 \<or> ar = None"
    using assms(1) by (auto simp: drains_stores_def store_load_barrier_def split: option.splits arch.splits)
  then have "wsd_inv s"
    using wsd_x86.reach_inv wsd_generic.reach_inv assms(2,3) by (auto simp: wsd_bound_def)
  note D = wsd_invD [OF this]
  have "ws_top s \<le> int (length (ws_pushed s))"
    using D(4,5) by linarith
  then show ?thesis
    using D(3,4,5,10) by (auto simp: ws_U_def add.assoc)
qed

text \<open>
  C3. On x86_64, whose \<open>store_load_barrier\<close> is empty, there is a run in which an item is
  returned twice: two items are pushed; the owner's pop reads \<open>top\<close> while its store of
  \<open>bottom\<close> is still in the buffer and returns the second without a compare-and-swap; two
  thieves, who see the old \<open>bottom\<close>, steal both.
\<close>

theorem wsd_double_take_on_x86_64:
  "\<exists>s. reach wsd_init (wsd_step (Some ARCH_x86_64)) s \<and> ws_owner s = O_idle
     \<and> ws_pushed s = [7, 8] \<and> ws_popped s = [8] \<and> ws_stolen s = [(1, 7), (2, 8)]"
proof -
  define d where "d = \<lparr>wd_top = 0, wd_bottom = 0, wd_array = \<lparr>wa_log_size = 8, wa_size = 256,
    wa_size_minus_one = 255, wa_data = replicate 256 0\<rparr>\<rparr>"
  define owner where "owner = Owner (\<lambda>_. 0)"
  define acts where "acts = Call_push False 7 # replicate 6 owner @ Call_push False 8 # replicate 6 owner
    @ replicate 4 Flush @ Call_pop # replicate 5 owner
    @ Call_steal 1 # replicate 5 (Thief 1) @ Call_steal 2 # replicate 5 (Thief 2) @ [owner]"
  have "wsd_work_stealing_deque_create 8 True True (\<lambda>_. 0) = Some (Some d)"
    unfolding d_def by code_simp
  then have start: "reach wsd_init (wsd_step (Some ARCH_x86_64)) (wsd_start d)"
    by (intro reach_init) (auto simp: wsd_init_def)
  have "map_option (\<lambda>s. (ws_owner s, ws_pushed s, ws_popped s, ws_stolen s))
      (wsd_run (Some ARCH_x86_64) acts (wsd_start d)) = Some (O_idle, [7, 8], [8], [(1, 7), (2, 8)])"
    unfolding acts_def owner_def d_def by code_simp
  then obtain s where "wsd_run (Some ARCH_x86_64) acts (wsd_start d) = Some s"
      "ws_owner s = O_idle" "ws_pushed s = [7, 8]" "ws_popped s = [8]" "ws_stolen s = [(1, 7), (2, 8)]"
    by auto
  with wsd_run_reach [OF _ start] show ?thesis by blast
qed

text \<open>A run on x86, where the same pop has to wait for the flush: each item is taken once.\<close>

theorem wsd_exactly_once_witness:
  "\<exists>s. reach wsd_init (wsd_step (Some ARCH_x86)) s \<and> ws_popped s = [8] \<and> ws_stolen s = [(1, 7)]
     \<and> mset (ws_pushed s) = mset [7, 8] + mset (ws_items s)"
proof -
  define d where "d = \<lparr>wd_top = 0, wd_bottom = 0, wd_array = \<lparr>wa_log_size = 8, wa_size = 256,
    wa_size_minus_one = 255, wa_data = replicate 256 0\<rparr>\<rparr>"
  define owner where "owner = Owner (\<lambda>_. 0)"
  define acts where "acts = Call_push False 7 # replicate 6 owner @ Call_push False 8 # replicate 6 owner
    @ replicate 4 Flush @ Call_pop # replicate 3 owner @ Flush # replicate 2 owner
    @ Call_steal 1 # replicate 5 (Thief 1) @ [owner]"
  have "wsd_work_stealing_deque_create 8 True True (\<lambda>_. 0) = Some (Some d)"
    unfolding d_def by code_simp
  then have start: "reach wsd_init (wsd_step (Some ARCH_x86)) (wsd_start d)"
    by (intro reach_init) (auto simp: wsd_init_def)
  have "map_option (\<lambda>s. (ws_owner s, ws_pushed s, ws_popped s, ws_stolen s))
      (wsd_run (Some ARCH_x86) acts (wsd_start d)) = Some (O_idle, [7, 8], [8], [(1, 7)])"
    unfolding acts_def owner_def d_def by code_simp
  then obtain s where s: "wsd_run (Some ARCH_x86) acts (wsd_start d) = Some s"
      "ws_owner s = O_idle" "ws_pushed s = [7, 8]" "ws_popped s = [8]" "ws_stolen s = [(1, 7)]"
    by auto
  have r: "reach wsd_init (wsd_step (Some ARCH_x86)) s"
    by (rule wsd_run_reach [OF s(1) start])
  have "drains_stores (store_load_barrier (Some ARCH_x86))"
    by (simp add: drains_stores_def store_load_barrier_def)
  from wsd_exactly_once [OF this r] r s(2-) show ?thesis by auto
qed

end
