(* ===== verification/Hazard_Pointer.thy ===== *)
theory Hazard_Pointer
  imports Fib_Prelude Machine_Specific
begin

text \<open>
  \<open>hazard_pointer.h\<close> and \<open>hazard_pointer.c\<close>: the list of the threads' records, what retiring
  a node does, and the scan that hands to their \<open>gc_function\<close> the retired nodes no record
  points to. A node handed over belongs to the client, who may free it: it leaves the heap of
  this model, and the library must not touch it again.
\<close>

section \<open>State\<close>

record hazard_node =
  hn_next :: ptr
  hn_gc_data :: ptr
  hn_gc_function :: ptr

text \<open>\<open>plist\<close> is \<open>None\<close> when the member is NULL, else the contents of the array.\<close>

record hazard_record =
  hr_head :: ptr
  hr_next :: ptr
  hr_retire_threshold :: u64
  hr_retired_count :: u64
  hr_retired_list :: ptr
  hr_plist_size :: u64
  hr_plist :: "ptr list option"
  hr_hazard_pointers_count :: u64
  hr_hazard_pointers :: "ptr list"

text \<open>
  Nodes, records, and the variables a record's \<open>head\<close> points to; in \<open>hs_calls\<close> the calls of
  \<open>gc_function(gc_data, node)\<close> that have been made.
\<close>

record hazard_state =
  hs_nodes :: "ptr \<Rightarrow> hazard_node option"
  hs_recs :: "ptr \<Rightarrow> hazard_record option"
  hs_heads :: "ptr \<Rightarrow> ptr option"
  hs_calls :: "(ptr \<times> ptr \<times> ptr) list"

abbreviation set_rec :: "hazard_state \<Rightarrow> ptr \<Rightarrow> hazard_record \<Rightarrow> hazard_state" where
  "set_rec s p r \<equiv> s\<lparr>hs_recs := (hs_recs s)(p \<mapsto> r)\<rparr>"

section \<open>Searching\<close>

definition hazard_pointer_compare :: "ptr \<Rightarrow> ptr \<Rightarrow> int" where
  "hazard_pointer_compare one two = (if one = two then 0 else if one < two then - 1 else 1)"

text \<open>
  The C library's \<open>qsort\<close>: the permutation that the comparison function puts in order (the one
  used here calls no two different elements equal, so there is only one).
\<close>

fun insert_by :: "('a \<Rightarrow> 'a \<Rightarrow> int) \<Rightarrow> 'a \<Rightarrow> 'a list \<Rightarrow> 'a list" where
  "insert_by cmp x [] = [x]"
| "insert_by cmp x (y # ys) = (if cmp x y \<le> 0 then x # y # ys else y # insert_by cmp x ys)"

definition qsort :: "('a \<Rightarrow> 'a \<Rightarrow> int) \<Rightarrow> 'a list \<Rightarrow> 'a list" where
  "qsort cmp xs = foldr (insert_by cmp) xs []"

text \<open>\<open>ssize_t\<close> as integers; the loop of \<open>binary_search\<close> with its assertions.\<close>

function binary_search_loop :: "ptr list \<Rightarrow> int \<Rightarrow> ptr \<Rightarrow> int \<Rightarrow> int \<Rightarrow> int option" where
  "binary_search_loop haystack haystack_size needle start end' =
     (if start \<le> end' then
        if \<not> (start \<ge> 0 \<and> start < haystack_size) \<or> \<not> (end' \<ge> 0 \<and> end' < haystack_size) then None
        else let middle = (start + end') div 2 in
          if \<not> (middle \<ge> 0 \<and> middle < haystack_size) \<or> nat middle \<ge> length haystack then None
          else let middle_value = haystack ! nat middle in
            if middle_value > needle
            then binary_search_loop haystack haystack_size needle start (middle - 1)
            else if middle_value < needle
            then binary_search_loop haystack haystack_size needle (middle + 1) end'
            else Some 1
      else Some 0)"
  by pat_completeness auto
termination
  by (relation "measure (\<lambda>(_, _, _, s, e). nat (e - s + 1))") auto

declare binary_search_loop.simps [simp del]

definition binary_search :: "ptr list \<Rightarrow> int \<Rightarrow> ptr \<Rightarrow> int option" where
  "binary_search haystack haystack_size needle =
     (if haystack_size = 0 then Some 0
      else binary_search_loop haystack haystack_size needle 0 (haystack_size - 1))"

section \<open>Hazard pointers\<close>

definition hazard_pointer_using :: "hazard_state \<Rightarrow> ptr \<Rightarrow> ptr \<Rightarrow> u64 \<Rightarrow> hazard_state option" where
  "hazard_pointer_using s hptr node n = do {
     r \<leftarrow> hs_recs s hptr;
     c_assert (n < hr_hazard_pointers_count r);
     hps \<leftarrow> buf_set (hr_hazard_pointers r) n node;
     Some (set_rec s hptr (r\<lparr>hr_hazard_pointers := hps\<rparr>))
   }"

definition hazard_pointer_done_using :: "hazard_state \<Rightarrow> ptr \<Rightarrow> u64 \<Rightarrow> hazard_state option" where
  "hazard_pointer_done_using s hptr n = do {
     r \<leftarrow> hs_recs s hptr;
     c_assert (n < hr_hazard_pointers_count r);
     hps \<leftarrow> buf_set (hr_hazard_pointers r) n NULL;
     Some (set_rec s hptr (r\<lparr>hr_hazard_pointers := hps\<rparr>))
   }"

section \<open>The scan\<close>

text \<open>The inner loop: the non-null ones of a record's pointers, from \<open>i\<close> on, go to \<open>plist\<close>.\<close>

fun copy_pointers :: "ptr list \<Rightarrow> u64 \<Rightarrow> ptr list option \<Rightarrow> (u64 \<times> ptr list option) option" where
  "copy_pointers [] index plist = Some (index, plist)"
| "copy_pointers (h # hs) index plist =
     (if h \<noteq> NULL then do {
        pl \<leftarrow> plist;
        pl' \<leftarrow> buf_set pl index h;
        copy_pointers hs (index + 1) (Some pl')
      } else copy_pointers hs index plist)"

partial_function (option) collect_pointers ::
  "(ptr \<Rightarrow> hazard_record option) \<Rightarrow> u64 \<Rightarrow> ptr \<Rightarrow> u64 \<Rightarrow> ptr list option \<Rightarrow> (u64 \<times> ptr list option) option" where
  "collect_pointers recs max_pointers cur_record index plist =
     (if cur_record \<noteq> NULL then do {
        c_assert (index < max_pointers);
        r \<leftarrow> recs cur_record;
        c_assert (unat (hr_hazard_pointers_count r) \<le> length (hr_hazard_pointers r));
        (index', plist') \<leftarrow> copy_pointers
          (take (unat (hr_hazard_pointers_count r)) (hr_hazard_pointers r)) index plist;
        collect_pointers recs max_pointers (hr_next r) index' plist'
      } else Some (index, plist))"

text \<open>
  The second loop. A scan with nothing to look up may come with \<open>plist\<close> NULL only if no
  node is retired: \<open>binary_search\<close> asserts its haystack.
\<close>

partial_function (option) sweep_retired ::
  "ptr list option \<Rightarrow> int \<Rightarrow> ptr \<Rightarrow> ptr \<Rightarrow> hazard_record \<Rightarrow> hazard_state \<Rightarrow> (hazard_record \<times> hazard_state) option" where
  "sweep_retired plist index node hptr r s =
     (if node \<noteq> NULL then do {
        nd \<leftarrow> hs_nodes s node;
        pl \<leftarrow> plist;
        is_hazardous \<leftarrow> binary_search pl index node;
        if is_hazardous \<noteq> 0
        then sweep_retired plist index (hn_next nd) hptr
          (r\<lparr>hr_retired_list := node, hr_retired_count := hr_retired_count r + 1\<rparr>)
          (s\<lparr>hs_nodes := (hs_nodes s)(node \<mapsto> nd\<lparr>hn_next := hr_retired_list r\<rparr>)\<rparr>)
        else do {
          c_assert (hn_gc_function nd \<noteq> NULL);
          sweep_retired plist index (hn_next nd) hptr r
            (s\<lparr>hs_nodes := (hs_nodes s)(node := None),
               hs_calls := hs_calls s @ [(hn_gc_function nd, hn_gc_data nd, node)]\<rparr>)
        }
      } else Some (r, s))"

text \<open>\<open>malloc_ok\<close> and \<open>junk\<close>: whether the scratch area can be allocated, and its first contents.\<close>

definition hazard_pointer_scan ::
  "bool \<Rightarrow> (nat \<Rightarrow> ptr) \<Rightarrow> hazard_state \<Rightarrow> ptr \<Rightarrow> hazard_state option" where
  "hazard_pointer_scan malloc_ok junk s hptr = do {
     c_assert (hptr \<noteq> NULL);
     r \<leftarrow> hs_recs s hptr;
     head \<leftarrow> hs_heads s (hr_head r);
     c_assert (head \<noteq> NULL);
     head_rec \<leftarrow> hs_recs s head;
     let max_pointers = hr_retire_threshold head_rec div 2;
     let r1 = (if hr_plist r = None \<or> hr_plist_size r < max_pointers
               then r\<lparr>hr_plist_size := max_pointers, hr_plist :=
                 (if malloc_ok then Some (List.map junk [0..<unat (max_pointers * 8) div 8]) else None)\<rparr>
               else r);
     (index, plist) \<leftarrow> collect_pointers (hs_recs (set_rec s hptr r1)) max_pointers head 0 (hr_plist r1);
     let plist' = map_option (\<lambda>pl. qsort hazard_pointer_compare (take (unat index) pl)
       @ drop (unat index) pl) plist;
     let r2 = r1\<lparr>hr_plist := plist', hr_retired_list := NULL, hr_retired_count := 0\<rparr>;
     (r3, s') \<leftarrow> sweep_retired plist' (int (unat index)) (hr_retired_list r) hptr r2 s;
     Some (set_rec s' hptr r3)
   }"

definition hazard_pointer_free ::
  "bool \<Rightarrow> (nat \<Rightarrow> ptr) \<Rightarrow> hazard_state \<Rightarrow> ptr \<Rightarrow> ptr \<Rightarrow> hazard_state option" where
  "hazard_pointer_free malloc_ok junk s hptr node = do {
     r \<leftarrow> hs_recs s hptr;
     nd \<leftarrow> hs_nodes s node;
     let r' = r\<lparr>hr_retired_list := node, hr_retired_count := hr_retired_count r + 1\<rparr>;
     let s' = set_rec (s\<lparr>hs_nodes := (hs_nodes s)(node \<mapsto> nd\<lparr>hn_next := hr_retired_list r\<rparr>)\<rparr>) hptr r';
     if hr_retired_count r' \<ge> hr_retire_threshold r'
     then hazard_pointer_scan malloc_ok junk s' hptr
     else Some s'
   }"

section \<open>Records\<close>

text \<open>The loop that counts the records below the new one and checks that they agree on the number.\<close>

partial_function (option) count_threads ::
  "(ptr \<Rightarrow> hazard_record option) \<Rightarrow> u64 \<Rightarrow> ptr \<Rightarrow> u64 \<Rightarrow> u64 option" where
  "count_threads recs pointers_per_thread cur threads =
     (if cur \<noteq> NULL then do {
        r \<leftarrow> recs cur;
        c_assert (hr_hazard_pointers_count r = pointers_per_thread);
        count_threads recs pointers_per_thread (hr_next r) (threads + 1)
      } else Some threads)"

partial_function (option) raise_thresholds ::
  "(ptr \<Rightarrow> hazard_record option) \<Rightarrow> ptr \<Rightarrow> (ptr \<Rightarrow> hazard_record option) option" where
  "raise_thresholds recs cur =
     (if cur \<noteq> NULL then do {
        r \<leftarrow> recs cur;
        raise_thresholds
          (recs(cur \<mapsto> r\<lparr>hr_retire_threshold := hr_retire_threshold r + 2 * hr_hazard_pointers_count r\<rparr>))
          (hr_next r)
      } else Some recs)"

text \<open>
  \<open>ret\<close> is what \<open>calloc\<close> returned; a NULL is dereferenced at once. Nothing runs between the
  read of \<open>*head\<close> and the compare-and-swap here, which therefore succeeds the first time.
\<close>

definition hazard_pointer_thread_record_create_and_push ::
  "hazard_state \<Rightarrow> ptr \<Rightarrow> u64 \<Rightarrow> ptr \<Rightarrow> hazard_state option" where
  "hazard_pointer_thread_record_create_and_push s head pointers_per_thread ret = do {
     c_assert (head \<noteq> NULL);
     c_assert (pointers_per_thread \<noteq> 0);
     c_assert (ret \<noteq> NULL);
     cur_head \<leftarrow> hs_heads s head;
     threads \<leftarrow> count_threads (hs_recs s) pointers_per_thread cur_head 1;
     let r = \<lparr>hr_head = head, hr_next = cur_head, hr_retire_threshold = 2 * threads * pointers_per_thread,
              hr_retired_count = 0, hr_retired_list = NULL, hr_plist_size = 0, hr_plist = None,
              hr_hazard_pointers_count = pointers_per_thread,
              hr_hazard_pointers = replicate (unat pointers_per_thread) NULL\<rparr>;
     recs \<leftarrow> raise_thresholds ((hs_recs s)(ret \<mapsto> r)) cur_head;
     Some (s\<lparr>hs_recs := recs, hs_heads := (hs_heads s)(head \<mapsto> ret)\<rparr>)
   }"

definition hazard_pointer_thread_record_destroy ::
  "bool \<Rightarrow> (nat \<Rightarrow> ptr) \<Rightarrow> hazard_state \<Rightarrow> ptr \<Rightarrow> hazard_state option" where
  "hazard_pointer_thread_record_destroy malloc_ok junk s hptr =
     (if hptr \<noteq> NULL then do {
        s' \<leftarrow> hazard_pointer_scan malloc_ok junk s hptr;
        Some (s'\<lparr>hs_recs := (hs_recs s')(hptr := None)\<rparr>)
      } else Some s)"

text \<open>\<open>cur_addr\<close> is the address of the local variable that the records' \<open>head\<close> is set to.\<close>

partial_function (option) hazard_pointer_thread_record_destroy_all ::
  "bool \<Rightarrow> (nat \<Rightarrow> ptr) \<Rightarrow> ptr \<Rightarrow> hazard_state \<Rightarrow> ptr \<Rightarrow> hazard_state option" where
  "hazard_pointer_thread_record_destroy_all malloc_ok junk cur_addr s cur =
     (if cur \<noteq> NULL then do {
        r \<leftarrow> hs_recs s cur;
        s' \<leftarrow> hazard_pointer_thread_record_destroy malloc_ok junk
          (set_rec (s\<lparr>hs_heads := (hs_heads s)(cur_addr \<mapsto> cur)\<rparr>) cur (r\<lparr>hr_head := cur_addr\<rparr>)) cur;
        hazard_pointer_thread_record_destroy_all malloc_ok junk cur_addr s' (hr_next r)
      } else Some s)"

section \<open>Sorting and searching are right\<close>

lemma hazard_pointer_compare_le: "hazard_pointer_compare x y \<le> 0 \<longleftrightarrow> x \<le> y"
  by (auto simp: hazard_pointer_compare_def)

lemma qsort_compare: "qsort hazard_pointer_compare xs = sort xs"
proof -
  have "insert_by hazard_pointer_compare x ys = insort x ys" for x ys
    by (induction ys) (simp_all add: hazard_pointer_compare_le)
  then have "insert_by hazard_pointer_compare = insort"
    by (intro ext)
  then show ?thesis
    by (simp add: qsort_def sort_key_def)
qed

lemma binary_search_loop_correct:
  assumes "n \<le> length hay" and "sorted (take n hay)" and "0 \<le> a" and "b < int n"
    and "\<forall>i < n. hay ! i = x \<longrightarrow> a \<le> int i \<and> int i \<le> b"
  shows "binary_search_loop hay (int n) x a b = Some (if x \<in> set (take n hay) then 1 else 0)"
  using assms
proof (induction "nat (b - a + 1)" arbitrary: a b rule: less_induct)
  case less
  show ?case
  proof (cases "a \<le> b")
    case False
    then have "x \<notin> set (take n hay)"
      using less.prems by (auto simp: in_set_conv_nth)
    with False show ?thesis by (subst binary_search_loop.simps) simp
  next
    case True
    let ?m = "(a + b) div 2"
    have m: "a \<le> ?m" "?m \<le> b" "0 \<le> ?m" "?m < int n" "nat ?m < n" "nat ?m < length hay"
      using True less.prems by auto
    have mono: "hay ! i \<le> hay ! j" if "i \<le> j" "j < n" for i j
      using sorted_nth_mono [OF less.prems(2), of i j] that less.prems(1) by simp
    consider "hay ! nat ?m = x" | "x < hay ! nat ?m" | "hay ! nat ?m < x"
      by fastforce
    then show ?thesis
    proof cases
      case 1
      then have "x \<in> set (take n hay)"
        using m less.prems(1) by (auto simp: in_set_conv_nth)
      with 1 m True less.prems show ?thesis
        by (subst binary_search_loop.simps) (simp add: Let_def)
    next
      case 2
      have "a \<le> int i \<and> int i \<le> ?m - 1" if "i < n" "hay ! i = x" for i
      proof -
        have "\<not> nat ?m \<le> i"
          using mono [of "nat ?m" i] that 2 by auto
        then have "int i < ?m"
          by linarith
        then show ?thesis
          using less.prems(5) that by auto
      qed
      then have "binary_search_loop hay (int n) x a (?m - 1) = Some (if x \<in> set (take n hay) then 1 else 0)"
        using less.prems m by (intro less.hyps) auto
      with 2 m True less.prems show ?thesis
        by (subst binary_search_loop.simps) (simp add: Let_def)
    next
      case 3
      have "?m + 1 \<le> int i \<and> int i \<le> b" if "i < n" "hay ! i = x" for i
      proof -
        have "\<not> i \<le> nat ?m"
          using mono [of i "nat ?m"] that 3 m by auto
        then have "?m < int i"
          using m(3) by linarith
        then show ?thesis
          using less.prems(5) that by auto
      qed
      then have "binary_search_loop hay (int n) x (?m + 1) b = Some (if x \<in> set (take n hay) then 1 else 0)"
        using less.prems m by (intro less.hyps) auto
      moreover have "\<not> x < hay ! nat ?m"
        using 3 by simp
      ultimately show ?thesis
        using 3 m True less.prems by (subst binary_search_loop.simps) (simp add: Let_def)
    qed
  qed
qed

lemma binary_search_member:
  assumes "n \<le> length hay" and "sorted (take n hay)"
  shows "binary_search hay (int n) x = Some (if x \<in> set (take n hay) then 1 else 0)"
  using assms binary_search_loop_correct [of n hay 0 "int n - 1" x] by (simp add: binary_search_def)

section \<open>The lists\<close>

text \<open>The retired nodes from \<open>p\<close> on, and the records from \<open>p\<close> on.\<close>

fun retired :: "(ptr \<Rightarrow> hazard_node option) \<Rightarrow> ptr \<Rightarrow> ptr list \<Rightarrow> bool" where
  "retired nodes p [] \<longleftrightarrow> p = NULL"
| "retired nodes p (n # ns) \<longleftrightarrow> p = n \<and> n \<noteq> NULL
     \<and> (case nodes n of None \<Rightarrow> False | Some nd \<Rightarrow> retired nodes (hn_next nd) ns)"

fun records :: "(ptr \<Rightarrow> hazard_record option) \<Rightarrow> ptr \<Rightarrow> ptr list \<Rightarrow> bool" where
  "records recs p [] \<longleftrightarrow> p = NULL"
| "records recs p (q # qs) \<longleftrightarrow> p = q \<and> q \<noteq> NULL
     \<and> (case recs q of None \<Rightarrow> False | Some r \<Rightarrow> records recs (hr_next r) qs)"

lemma retired_alloc: "retired nodes p ns \<Longrightarrow> n \<in> set ns \<Longrightarrow> n \<noteq> NULL \<and> nodes n \<noteq> None"
  by (induction nodes p ns rule: retired.induct) (auto split: option.splits)

lemma retired_frame: "(\<And>n. n \<in> set ns \<Longrightarrow> nodes' n = nodes n) \<Longrightarrow> retired nodes' p ns = retired nodes p ns"
  by (induction nodes p ns rule: retired.induct) (auto split: option.splits)

lemma retired_upd [simp]: "n \<notin> set ns \<Longrightarrow> retired (nodes(n := x)) p ns = retired nodes p ns"
  by (rule retired_frame) auto

lemma records_frame:
  "(\<And>q. q \<in> set qs \<Longrightarrow> map_option hr_next (recs' q) = map_option hr_next (recs q)) \<Longrightarrow>
     records recs' p qs = records recs p qs"
proof (induction recs p qs rule: records.induct)
  case (2 recs p q qs)
  have "map_option hr_next (recs' q) = map_option hr_next (recs q)"
    using 2(2) by simp
  then show ?case
    using 2 by (cases "recs q"; cases "recs' q") auto
qed simp

lemma records_upd [simp]: "p \<notin> set qs \<Longrightarrow> records (recs(p := x)) q qs = records recs q qs"
  by (rule records_frame) auto

lemma records_alloc: "records recs p qs \<Longrightarrow> q \<in> set qs \<Longrightarrow> q \<noteq> NULL \<and> recs q \<noteq> None"
  by (induction recs p qs rule: records.induct) (auto split: option.splits)

text \<open>The pointers in use, in the order the scan meets them.\<close>

definition hazards :: "(ptr \<Rightarrow> hazard_record option) \<Rightarrow> ptr list \<Rightarrow> ptr list" where
  "hazards recs rs = concat (List.map (\<lambda>p. List.filter (\<lambda>h. h \<noteq> NULL) (hr_hazard_pointers (the (recs p)))) rs)"

lemma copy_pointers_law:
  assumes "unat index + length hs \<le> length pl" and "length pl < 2 ^ 64"
  shows "\<exists>index' pl'. copy_pointers hs index (Some pl) = Some (index', Some pl')
    \<and> unat index' = unat index + length (List.filter (\<lambda>h. h \<noteq> NULL) hs) \<and> length pl' = length pl
    \<and> take (unat index') pl' = take (unat index) pl @ List.filter (\<lambda>h. h \<noteq> NULL) hs"
  using assms
proof (induction hs arbitrary: index pl)
  case (Cons h hs)
  show ?case
  proof (cases "h = NULL")
    case True
    with Cons show ?thesis by fastforce
  next
    case False
    have lt: "unat index < length pl"
      using Cons.prems(1) by simp
    then have i1: "unat (index + 1) = Suc (unat index)"
      using Cons.prems(2) by (intro unat_inc [where n = "2 ^ 64 - 1"]) auto
    have "unat (index + 1) + length hs \<le> length (pl[unat index := h])"
      using Cons.prems(1) i1 by simp
    from Cons.IH [OF this] Cons.prems(2) obtain index' pl' where
      "copy_pointers hs (index + 1) (Some (pl[unat index := h])) = Some (index', Some pl')"
      "unat index' = Suc (unat index) + length (List.filter (\<lambda>h. h \<noteq> NULL) hs)" "length pl' = length pl"
      "take (unat index') pl' = take (Suc (unat index)) (pl[unat index := h]) @ List.filter (\<lambda>h. h \<noteq> NULL) hs"
      by (auto simp: i1)
    with False lt show ?thesis
      by (simp add: buf_set_def take_Suc_conv_app_nth)
  qed
qed simp

lemma collect_pointers_law:
  assumes "records recs cur rs" and "0 < K"
    and "\<forall>p \<in> set rs. unat (hr_hazard_pointers_count (the (recs p))) = K
      \<and> length (hr_hazard_pointers (the (recs p))) = K"
    and "unat index + length rs * K \<le> unat mx" and "unat mx \<le> length pl" and "length pl < 2 ^ 64"
  shows "\<exists>index' pl'. collect_pointers recs mx cur index (Some pl) = Some (index', Some pl')
    \<and> length pl' = length pl \<and> unat index' \<le> length pl
    \<and> take (unat index') pl' = take (unat index) pl @ hazards recs rs"
  using assms
proof (induction rs arbitrary: cur index pl)
  case Nil
  then show ?case by (subst collect_pointers.simps) (simp add: hazards_def)
next
  case (Cons p rs)
  obtain r where r: "recs p = Some r" "cur = p" "p \<noteq> NULL" "records recs (hr_next r) rs"
    using Cons.prems(1) by (auto split: option.splits)
  have k: "unat (hr_hazard_pointers_count r) = K" "length (hr_hazard_pointers r) = K"
    using Cons.prems(3) r by auto
  have idx: "index < mx"
    using Cons.prems(2,4) by (simp add: word_less_nat_alt)
  have room: "unat index + length (hr_hazard_pointers r) \<le> length pl"
    using Cons.prems(4,5) k by simp
  obtain index1 pl1 where 1: "copy_pointers (hr_hazard_pointers r) index (Some pl) = Some (index1, Some pl1)"
      "unat index1 = unat index + length (List.filter (\<lambda>h. h \<noteq> NULL) (hr_hazard_pointers r))"
      "length pl1 = length pl"
      "take (unat index1) pl1 = take (unat index) pl @ List.filter (\<lambda>h. h \<noteq> NULL) (hr_hazard_pointers r)"
    using copy_pointers_law [OF room Cons.prems(6)] by blast
  have "unat index1 + length rs * K \<le> unat mx"
    using Cons.prems(4) 1(2) k length_filter_le [of "\<lambda>h. h \<noteq> NULL" "hr_hazard_pointers r"] by simp
  moreover have "\<forall>q \<in> set rs. unat (hr_hazard_pointers_count (the (recs q))) = K
      \<and> length (hr_hazard_pointers (the (recs q))) = K"
    using Cons.prems(3) by simp
  ultimately obtain index' pl' where 2: "collect_pointers recs mx (hr_next r) index1 (Some pl1) = Some (index', Some pl')"
      "length pl' = length pl1" "unat index' \<le> length pl1"
      "take (unat index') pl' = take (unat index1) pl1 @ hazards recs rs"
    using Cons.IH [OF r(4) Cons.prems(2), of index1 pl1] Cons.prems(5,6) 1(3) by auto
  have "collect_pointers recs mx cur index (Some pl) = Some (index', Some pl')"
    using r k 1(1) 2(1) idx by (subst collect_pointers.simps) simp
  then show ?case
    using 1 2 r(1) by (simp add: hazards_def)
qed

section \<open>The sweep\<close>

definition gc_call :: "(ptr \<Rightarrow> hazard_node option) \<Rightarrow> ptr \<Rightarrow> ptr \<times> ptr \<times> ptr" where
  "gc_call nodes n = (hn_gc_function (the (nodes n)), hn_gc_data (the (nodes n)), n)"

text \<open>
  What the sweep of the nodes \<open>ns\<close> does to the heap, \<open>H\<close> being the nodes in use: those are
  relinked, the others handed over, all else is left alone.
\<close>

definition swept :: "(ptr \<Rightarrow> bool) \<Rightarrow> ptr list \<Rightarrow> (ptr \<Rightarrow> hazard_node option) \<Rightarrow> (ptr \<Rightarrow> hazard_node option) \<Rightarrow> bool" where
  "swept H ns nodes nodes' \<longleftrightarrow> (\<forall>n. if n \<notin> set ns then nodes' n = nodes n
     else if H n then \<exists>q. nodes' n = Some ((the (nodes n))\<lparr>hn_next := q\<rparr>) else nodes' n = None)"

lemma sweptD:
  assumes "swept H ns nodes nodes'"
  shows "n \<notin> set ns \<Longrightarrow> nodes' n = nodes n" "n \<in> set ns \<Longrightarrow> \<not> H n \<Longrightarrow> nodes' n = None"
    "n \<in> set ns \<Longrightarrow> H n \<Longrightarrow> \<exists>q. nodes' n = Some ((the (nodes n))\<lparr>hn_next := q\<rparr>)"
  using assms unfolding swept_def by metis+

lemma sweep_retired_law:
  assumes "retired (hs_nodes s) node ns" and "distinct ns" and "k \<le> length pl" and "sorted (take k pl)"
    and "\<forall>n \<in> set ns. n \<notin> set (take k pl) \<longrightarrow> hn_gc_function (the (hs_nodes s n)) \<noteq> NULL"
    and "retired (hs_nodes s) (hr_retired_list r) rl" and "set ns \<inter> set rl = {}"
    and "unat (hr_retired_count r) = length rl" and "length rl + length ns < 2 ^ 64"
  shows "\<exists>list count nodes'. sweep_retired (Some pl) (int k) node hptr r s =
      Some (r\<lparr>hr_retired_list := list, hr_retired_count := count\<rparr>,
        s\<lparr>hs_nodes := nodes', hs_calls := hs_calls s @
          List.map (gc_call (hs_nodes s)) (List.filter (\<lambda>n. n \<notin> set (take k pl)) ns)\<rparr>)
    \<and> retired nodes' list (rev (List.filter (\<lambda>n. n \<in> set (take k pl)) ns) @ rl)
    \<and> unat count = length rl + length (List.filter (\<lambda>n. n \<in> set (take k pl)) ns)
    \<and> swept (\<lambda>n. n \<in> set (take k pl)) ns (hs_nodes s) nodes'"
  using assms
proof (induction ns arbitrary: node r s rl)
  case Nil
  then have "sweep_retired (Some pl) (int k) node hptr r s = Some (r, s)"
    by (subst sweep_retired.simps) simp
  show ?case unfolding \<open>sweep_retired _ _ _ _ _ _ = _\<close>
    by (rule exI [of _ "hr_retired_list r"], rule exI [of _ "hr_retired_count r"],
      rule exI [of _ "hs_nodes s"]) (use Nil in \<open>simp add: swept_def\<close>)
next
  case (Cons n ns)
  let ?H = "\<lambda>n. n \<in> set (take k pl)"
  obtain nd where nd: "hs_nodes s n = Some nd" "node = n" "n \<noteq> NULL" "retired (hs_nodes s) (hn_next nd) ns"
    using Cons.prems(1) by (auto split: option.splits)
  note b = binary_search_member [OF Cons.prems(3,4), of n]
  show ?case
  proof (cases "?H n")
    case True
    let ?r = "r\<lparr>hr_retired_list := n, hr_retired_count := hr_retired_count r + 1\<rparr>"
      and ?s = "s\<lparr>hs_nodes := (hs_nodes s)(n \<mapsto> nd\<lparr>hn_next := hr_retired_list r\<rparr>)\<rparr>"
    have c1: "unat (hr_retired_count r + 1) = Suc (length rl)"
      using Cons.prems(8,9) by (subst unat_inc [where n = "2 ^ 64 - 1"]) auto
    have "sweep_retired (Some pl) (int k) node hptr r s = sweep_retired (Some pl) (int k) (hn_next nd) hptr ?r ?s"
      using nd b True by (subst sweep_retired.simps) simp
    moreover have ret: "retired (hs_nodes ?s) (hn_next nd) ns" "retired (hs_nodes ?s) (hr_retired_list ?r) (n # rl)"
      using nd Cons.prems(2,6,7) by simp_all
    moreover have gc: "\<forall>m \<in> set ns. \<not> ?H m \<longrightarrow> hn_gc_function (the (hs_nodes ?s m)) \<noteq> NULL"
      using Cons.prems(2,5) by auto
    moreover have rest: "distinct ns" "set ns \<inter> set (n # rl) = {}" "unat (hr_retired_count ?r) = length (n # rl)"
        "length (n # rl) + length ns < 2 ^ 64"
      using Cons.prems(2,7,9) c1 by auto
    ultimately obtain list count nodes' where 1:
      "sweep_retired (Some pl) (int k) node hptr r s = Some (?r\<lparr>hr_retired_list := list, hr_retired_count := count\<rparr>,
        ?s\<lparr>hs_nodes := nodes', hs_calls := hs_calls ?s @ List.map (gc_call (hs_nodes ?s)) (List.filter (\<lambda>n. \<not> ?H n) ns)\<rparr>)"
      "retired nodes' list (rev (List.filter ?H ns) @ n # rl)"
      "unat count = Suc (length rl) + length (List.filter ?H ns)" "swept ?H ns (hs_nodes ?s) nodes'"
      using Cons.IH [OF ret(1) rest(1) Cons.prems(3,4) gc ret(2) rest(2-4)] by (auto simp del: fun_upd_apply)
    have "List.map (gc_call (hs_nodes ?s)) (List.filter (\<lambda>n. \<not> ?H n) ns)
        = List.map (gc_call (hs_nodes s)) (List.filter (\<lambda>n. \<not> ?H n) ns)"
      using Cons.prems(2) by (intro map_cong) (auto simp: gc_call_def)
    moreover have "swept ?H (n # ns) (hs_nodes s) nodes'"
      using 1(4) Cons.prems(2) nd(1) True unfolding swept_def by (fastforce split: if_splits)
    ultimately show ?thesis
      using 1 True by (intro exI [of _ list] exI [of _ count] exI [of _ nodes']) simp
  next
    case False
    let ?s = "s\<lparr>hs_nodes := (hs_nodes s)(n := None),
      hs_calls := hs_calls s @ [(hn_gc_function nd, hn_gc_data nd, n)]\<rparr>"
    have "sweep_retired (Some pl) (int k) node hptr r s = sweep_retired (Some pl) (int k) (hn_next nd) hptr r ?s"
      using nd b False Cons.prems(5) by (subst sweep_retired.simps) simp
    moreover have ret: "retired (hs_nodes ?s) (hn_next nd) ns" "retired (hs_nodes ?s) (hr_retired_list r) rl"
      using nd Cons.prems(2,6,7) by simp_all
    moreover have gc: "\<forall>m \<in> set ns. \<not> ?H m \<longrightarrow> hn_gc_function (the (hs_nodes ?s m)) \<noteq> NULL"
      using Cons.prems(2,5) by auto
    moreover have rest: "distinct ns" "set ns \<inter> set rl = {}" "length rl + length ns < 2 ^ 64"
      using Cons.prems(2,7,9) by auto
    ultimately obtain list count nodes' where 1:
      "sweep_retired (Some pl) (int k) node hptr r s = Some (r\<lparr>hr_retired_list := list, hr_retired_count := count\<rparr>,
        ?s\<lparr>hs_nodes := nodes', hs_calls := hs_calls ?s @ List.map (gc_call (hs_nodes ?s)) (List.filter (\<lambda>n. \<not> ?H n) ns)\<rparr>)"
      "retired nodes' list (rev (List.filter ?H ns) @ rl)"
      "unat count = length rl + length (List.filter ?H ns)" "swept ?H ns (hs_nodes ?s) nodes'"
      using Cons.IH [OF ret(1) rest(1) Cons.prems(3,4) gc ret(2) rest(2) Cons.prems(8) rest(3)] by (auto simp del: fun_upd_apply)
    have "List.map (gc_call (hs_nodes ?s)) (List.filter (\<lambda>n. \<not> ?H n) ns)
        = List.map (gc_call (hs_nodes s)) (List.filter (\<lambda>n. \<not> ?H n) ns)"
      using Cons.prems(2) by (intro map_cong) (auto simp: gc_call_def)
    moreover have "swept ?H (n # ns) (hs_nodes s) nodes'"
      using 1(4) Cons.prems(2) nd(1) False unfolding swept_def by (fastforce split: if_splits)
    ultimately show ?thesis
      using 1 False nd(1) by (intro exI [of _ list] exI [of _ count] exI [of _ nodes']) (simp add: gc_call_def)
  qed
qed

section \<open>The invariant\<close>

text \<open>
  \<open>rs\<close> are the records from \<open>h\<close> on, each with \<open>K\<close> pointers and a threshold for \<open>N\<close>
  threads; \<open>ret p\<close> are the retired nodes of record \<open>p\<close>, each node of one record only, with
  a \<open>gc_function\<close>.
\<close>

definition rec_ok :: "nat \<Rightarrow> nat \<Rightarrow> hazard_record \<Rightarrow> bool" where
  "rec_ok K N r \<longleftrightarrow> unat (hr_hazard_pointers_count r) = K
     \<and> length (hr_hazard_pointers r) = K \<and> unat (hr_retire_threshold r) = 2 * N * K
     \<and> (case hr_plist r of None \<Rightarrow> True | Some pl \<Rightarrow> length pl = unat (hr_plist_size r))"

definition retired_ok :: "(ptr \<Rightarrow> hazard_node option) \<Rightarrow> hazard_record \<Rightarrow> ptr list \<Rightarrow> bool" where
  "retired_ok nodes r ns \<longleftrightarrow> retired nodes (hr_retired_list r) ns \<and> unat (hr_retired_count r) = length ns
     \<and> distinct ns \<and> (\<forall>n \<in> set ns. hn_gc_function (the (nodes n)) \<noteq> NULL)"

definition hp_list :: "hazard_state \<Rightarrow> nat \<Rightarrow> nat \<Rightarrow> ptr \<Rightarrow> ptr list \<Rightarrow> (ptr \<Rightarrow> ptr list) \<Rightarrow> bool" where
  [inv_defs]: "hp_list s K N h rs ret \<longleftrightarrow> 0 < K \<and> 16 * (N * K) < 2 ^ 64 \<and> length rs \<le> N
     \<and> records (hs_recs s) h rs \<and> distinct rs
     \<and> (\<forall>p \<in> set rs. rec_ok K N (the (hs_recs s p)) \<and> retired_ok (hs_nodes s) (the (hs_recs s p)) (ret p)
          \<and> length (ret p) \<le> 2 * (N * K))
     \<and> (\<forall>p \<in> set rs. \<forall>q \<in> set rs. p \<noteq> q \<longrightarrow> set (ret p) \<inter> set (ret q) = {})"

text \<open>The whole: the list hangs off \<open>*a\<close>, and every record knows it.\<close>

definition hp_ok :: "hazard_state \<Rightarrow> ptr \<Rightarrow> nat \<Rightarrow> ptr list \<Rightarrow> (ptr \<Rightarrow> ptr list) \<Rightarrow> bool" where
  [inv_defs]: "hp_ok s a K rs ret \<longleftrightarrow> a \<noteq> NULL \<and> hp_list s K (length rs) (the (hs_heads s a)) rs ret
     \<and> hs_heads s a \<noteq> None \<and> (\<forall>p \<in> set rs. hr_head (the (hs_recs s p)) = a)"

lemma retired_ok_frame:
  assumes "retired_ok nodes r ns" and "\<And>n. n \<in> set ns \<Longrightarrow> nodes' n = nodes n"
    and "hr_retired_list r' = hr_retired_list r" and "hr_retired_count r' = hr_retired_count r"
  shows "retired_ok nodes' r' ns"
  using assms retired_frame [of ns nodes' nodes] by (auto simp: retired_ok_def)

lemma hazards_le:
  assumes "\<forall>p \<in> set rs. length (hr_hazard_pointers (the (recs p))) = K"
  shows "length (hazards recs rs) \<le> length rs * K"
  using assms
proof (induction rs)
  case (Cons p rs)
  have "length (List.filter (\<lambda>h. h \<noteq> NULL) (hr_hazard_pointers (the (recs p)))) \<le> K"
    using Cons.prems length_filter_le [of "\<lambda>h. h \<noteq> NULL" "hr_hazard_pointers (the (recs p))"] by simp
  with Cons show ?case by (simp add: hazards_def)
qed (simp add: hazards_def)

lemma hazards_frame:
  "(\<And>p. p \<in> set rs \<Longrightarrow> hr_hazard_pointers (the (recs' p)) = hr_hazard_pointers (the (recs p))) \<Longrightarrow>
     hazards recs' rs = hazards recs rs"
  unfolding hazards_def by (metis (mono_tags, lifting) map_cong)

text \<open>The scratch area that the scan uses is large enough for all pointers.\<close>

lemma scratch_room:
  assumes r: "rec_ok K N r" and mx: "unat (max_pointers :: u64) = N * K" "16 * (N * K) < 2 ^ 64" "0 < N * K"
  shows "\<exists>pl size. (if hr_plist r = None \<or> hr_plist_size r < max_pointers
      then r\<lparr>hr_plist_size := max_pointers, hr_plist :=
        (if True then Some (List.map junk [0..<unat (max_pointers * 8) div 8]) else None)\<rparr>
      else r) = r\<lparr>hr_plist_size := size, hr_plist := Some pl\<rparr>
    \<and> length pl = unat size \<and> N * K \<le> length pl"
proof (cases "hr_plist r = None \<or> hr_plist_size r < max_pointers")
  case True
  have "unat (max_pointers * 8) = N * K * 8"
    using mx by (simp add: unat_word_ariths)
  with True mx(1) show ?thesis
    by (intro exI [of _ "List.map junk [0..<unat (max_pointers * 8) div 8]"] exI [of _ max_pointers]) simp
next
  case False
  then obtain pl where "hr_plist r = Some pl"
    by auto
  with False r mx(1) show ?thesis
    by (intro exI [of _ pl] exI [of _ "hr_plist_size r"]) (simp add: rec_ok_def word_less_nat_alt not_less)
qed

lemma hazard_pointer_scan_law:
  assumes ok: "hp_list s K N h rs ret" and p: "p \<in> set rs"
    and head: "hs_heads s (hr_head (the (hs_recs s p))) = Some h"
  defines "H \<equiv> set (hazards (hs_recs s) rs)"
  shows "\<exists>r' nodes'. hazard_pointer_scan True junk s p = Some (s\<lparr>hs_nodes := nodes',
        hs_calls := hs_calls s @ List.map (gc_call (hs_nodes s)) (List.filter (\<lambda>n. n \<notin> H) (ret p)),
        hs_recs := (hs_recs s)(p \<mapsto> r')\<rparr>)
    \<and> rec_ok K N r' \<and> hr_next r' = hr_next (the (hs_recs s p)) \<and> hr_head r' = hr_head (the (hs_recs s p))
    \<and> hr_hazard_pointers r' = hr_hazard_pointers (the (hs_recs s p))
    \<and> retired_ok nodes' r' (rev (List.filter (\<lambda>n. n \<in> H) (ret p)))
    \<and> swept (\<lambda>n. n \<in> H) (ret p) (hs_nodes s) nodes'"
proof -
  let ?r = "the (hs_recs s p)"
  have h: "records (hs_recs s) h rs" and K: "0 < K" "16 * (N * K) < 2 ^ 64" and N: "length rs \<le> N"
    using ok by (simp_all add: hp_list_def)
  have all: "rec_ok K N (the (hs_recs s q))" "hs_recs s q = Some (the (hs_recs s q))" "q \<noteq> NULL"
    if "q \<in> set rs" for q
    using ok records_alloc [OF h] that by (auto simp: hp_list_def)
  have ret: "retired_ok (hs_nodes s) ?r (ret p)" "length (ret p) \<le> 2 * (N * K)"
    using ok p by (auto simp: hp_list_def)
  have hd: "h \<in> set rs"
    using h p by (cases rs) auto
  let ?mx = "hr_retire_threshold (the (hs_recs s h)) div 2"
  have mx: "unat ?mx = N * K"
    using all(1) [OF hd] by (simp add: unat_div rec_ok_def)
  have NK: "0 < N * K"
    using K(1) N p by (cases rs) auto
  obtain pl size where r1: "(if hr_plist ?r = None \<or> hr_plist_size ?r < ?mx
      then ?r\<lparr>hr_plist_size := ?mx, hr_plist :=
        (if True then Some (List.map junk [0..<unat (?mx * 8) div 8]) else None)\<rparr>
      else ?r) = ?r\<lparr>hr_plist_size := size, hr_plist := Some pl\<rparr>" "length pl = unat size" "N * K \<le> length pl"
    using scratch_room [OF all(1) [OF p] mx K(2) NK] by blast
  let ?r1 = "?r\<lparr>hr_plist_size := size, hr_plist := Some pl\<rparr>"
  let ?recs = "(hs_recs s)(p \<mapsto> ?r1)"
  have "records ?recs h rs"
  proof -
    obtain r0 where "hs_recs s p = Some r0"
      using all(2) [OF p] by blast
    then have "map_option hr_next (?recs q) = map_option hr_next (hs_recs s q)" for q
      by simp
    then have "records ?recs h rs = records (hs_recs s) h rs"
      by (intro records_frame)
    with h show ?thesis by simp
  qed
  moreover have "\<forall>q \<in> set rs. unat (hr_hazard_pointers_count (the (?recs q))) = K
      \<and> length (hr_hazard_pointers (the (?recs q))) = K"
    using all(1) p by (auto simp: rec_ok_def)
  ultimately obtain index pl' where c: "collect_pointers ?recs ?mx h 0 (Some pl) = Some (index, Some pl')"
      "length pl' = length pl" "unat index \<le> length pl" "take (unat index) pl' = hazards ?recs rs"
    using collect_pointers_law [of ?recs h rs K 0 ?mx pl] K(1) mx r1(2,3) mult_le_mono1 [OF N, of K] by auto
  have hz: "hazards ?recs rs = hazards (hs_recs s) rs"
    by (rule hazards_frame) auto
  let ?pl = "sort (take (unat index) pl') @ drop (unat index) pl'"
  have len: "length (take (unat index) pl') = unat index"
    using c(2,3) by simp
  then have tk: "take (unat index) ?pl = sort (take (unat index) pl')" "unat index \<le> length ?pl"
      "length ?pl = length pl"
    using c(2,3) by simp_all
  have hS: "set (take (unat index) ?pl) = H"
    unfolding tk(1) by (simp add: c(4) hz H_def)
  let ?r2 = "?r1\<lparr>hr_plist := Some ?pl, hr_retired_list := NULL, hr_retired_count := 0\<rparr>"
  have P: "retired (hs_nodes s) (hr_retired_list ?r) (ret p)" "distinct (ret p)" "sorted (take (unat index) ?pl)"
    "\<forall>n \<in> set (ret p). n \<notin> set (take (unat index) ?pl) \<longrightarrow> hn_gc_function (the (hs_nodes s n)) \<noteq> NULL"
    "retired (hs_nodes s) (hr_retired_list ?r2) []" "set (ret p) \<inter> set [] = {}"
    "unat (hr_retired_count ?r2) = length ([] :: ptr list)"
    using ret(1) unfolding tk(1) by (simp_all add: retired_ok_def)
  have "length ([] :: ptr list) + length (ret p) < 2 ^ 64"
    using ret(2) K(2) by (auto simp: le_less_trans)
  from sweep_retired_law [OF P(1,2) tk(2) P(3-7) this, of p, unfolded hS] obtain list count nodes' where sw:
      "sweep_retired (Some ?pl) (int (unat index)) (hr_retired_list ?r) p ?r2 s =
        Some (?r2\<lparr>hr_retired_list := list, hr_retired_count := count\<rparr>,
          s\<lparr>hs_nodes := nodes', hs_calls := hs_calls s @
            List.map (gc_call (hs_nodes s)) (List.filter (\<lambda>n. n \<notin> H) (ret p))\<rparr>)"
      "retired nodes' list (rev (List.filter (\<lambda>n. n \<in> H) (ret p)))"
      "unat count = length (List.filter (\<lambda>n. n \<in> H) (ret p))" "swept (\<lambda>n. n \<in> H) (ret p) (hs_nodes s) nodes'"
    by auto
  have "hazard_pointer_scan True junk s p = Some (set_rec (s\<lparr>hs_nodes := nodes', hs_calls := hs_calls s @
      List.map (gc_call (hs_nodes s)) (List.filter (\<lambda>n. n \<notin> H) (ret p))\<rparr>) p
      (?r2\<lparr>hr_retired_list := list, hr_retired_count := count\<rparr>))"
  proof -
    obtain rp rh where rr: "hs_recs s p = Some rp" "hs_recs s h = Some rh"
      using all(2) [OF p] all(2) [OF hd] by blast
    show ?thesis
      using all(3) [OF p] all(3) [OF hd] head [unfolded rr option.sel] c(1) [unfolded rr option.sel]
        sw(1) [unfolded rr option.sel] r1(1) [unfolded rr option.sel, simplified]
      unfolding hazard_pointer_scan_def rr option.sel by (simp add: rr Let_def qsort_compare)
  qed
  moreover have "retired_ok nodes' (?r2\<lparr>hr_retired_list := list, hr_retired_count := count\<rparr>)
      (rev (List.filter (\<lambda>n. n \<in> H) (ret p)))"
    using sw(2,3) ret(1) sweptD(3) [OF sw(4)] by (fastforce simp: retired_ok_def)
  moreover have "rec_ok K N (?r2\<lparr>hr_retired_list := list, hr_retired_count := count\<rparr>)"
    using all(1) [OF p] tk(3) r1(2) by (simp add: rec_ok_def)
  ultimately show ?thesis
    using sw(4) by (intro exI [of _ "?r2\<lparr>hr_retired_list := list, hr_retired_count := count\<rparr>"] exI [of _ nodes']) simp
qed

text \<open>A change of one record and its retired nodes keeps the list.\<close>

lemma update_keeps_list:
  assumes ok: "hp_list s K N h rs ret" and p: "p \<in> set rs"
    and r': "rec_ok K N r'" "hr_next r' = hr_next (the (hs_recs s p))" "retired_ok nodes' r' ns"
    and other: "\<And>q n. q \<in> set rs \<Longrightarrow> q \<noteq> p \<Longrightarrow> n \<in> set (ret q) \<Longrightarrow> nodes' n = hs_nodes s n \<and> n \<notin> set ns"
    and len: "length ns \<le> 2 * (N * K)"
  shows "hp_list (s\<lparr>hs_nodes := nodes', hs_calls := cs, hs_recs := (hs_recs s)(p \<mapsto> r')\<rparr>) K N h rs (ret(p := ns))"
proof -
  obtain r where r: "hs_recs s p = Some r"
    using records_alloc [of "hs_recs s" h rs p] ok p by (auto simp: hp_list_def)
  have "records ((hs_recs s)(p \<mapsto> r')) h rs = records (hs_recs s) h rs"
    by (rule records_frame) (use r r'(2) in auto)
  moreover have "retired_ok nodes' (the (hs_recs s q)) (ret q)" if "q \<in> set rs" "q \<noteq> p" for q
  proof (rule retired_ok_frame)
    show "retired_ok (hs_nodes s) (the (hs_recs s q)) (ret q)"
      using ok that by (simp add: hp_list_def)
  qed (use other that in simp_all)
  moreover have "rec_ok K N (the (hs_recs s q))" "length (ret q) \<le> 2 * (N * K)" if "q \<in> set rs" for q
    using ok that by (simp_all add: hp_list_def)
  moreover have "set (ret q) \<inter> set (ret q') = {}" if "q \<in> set rs" "q' \<in> set rs" "q \<noteq> q'" for q q'
    using ok that unfolding hp_list_def by blast
  moreover have "set ns \<inter> set (ret q) = {}" "set (ret q) \<inter> set ns = {}" if "q \<in> set rs" "q \<noteq> p" for q
    using other that by blast+
  ultimately show ?thesis
    using ok r'(1,3) len unfolding hp_list_def by simp
qed

lemma scan_keeps_list:
  assumes ok: "hp_list s K N h rs ret" and p: "p \<in> set rs"
    and r': "rec_ok K N r'" "hr_next r' = hr_next (the (hs_recs s p))" "retired_ok nodes' r' ns"
    and sw: "swept H (ret p) (hs_nodes s) nodes'" and ns: "set ns \<subseteq> set (ret p)" "length ns \<le> 2 * (N * K)"
  shows "hp_list (s\<lparr>hs_nodes := nodes', hs_calls := cs, hs_recs := (hs_recs s)(p \<mapsto> r')\<rparr>) K N h rs (ret(p := ns))"
proof (rule update_keeps_list [OF ok p r'])
  fix q n
  assume "q \<in> set rs" "q \<noteq> p" "n \<in> set (ret q)"
  then have "n \<notin> set (ret p)"
    using ok p unfolding hp_list_def by blast
  then show "nodes' n = hs_nodes s n \<and> n \<notin> set ns"
    using sweptD(1) [OF sw] ns(1) by blast
qed (rule ns(2))

lemma hp_okD:
  assumes "hp_ok s a K rs ret"
  shows "hp_list s K (length rs) (the (hs_heads s a)) rs ret" "hs_heads s a = Some (the (hs_heads s a))"
    "p \<in> set rs \<Longrightarrow> hr_head (the (hs_recs s p)) = a" "0 < K"
    "p \<in> set rs \<Longrightarrow> hs_recs s p = Some (the (hs_recs s p))" "p \<in> set rs \<Longrightarrow> p \<noteq> NULL"
  using assms records_alloc [of "hs_recs s" _ rs p] by (auto simp: hp_ok_def hp_list_def)

section \<open>Properties\<close>

text \<open>
  The binary search of the scan is right and stays in bounds: on a sorted prefix it
  answers whether the needle is there, and none of its assertions can fail.
\<close>

theorem binary_search_correct:
  assumes "n \<le> length hay" and "sorted (take n hay)"
  shows "binary_search hay (int n) x = Some (if x \<in> set (take n hay) then 1 else 0)"
  by (rule binary_search_member [OF assms])

theorem binary_search_correct_witness:
  "binary_search [2, 3, 5, 7, 11, 1] (int 5) 7 = Some 1 \<and> binary_search [2, 3, 5, 7, 11, 1] (int 5) 1 = Some 0"
  using binary_search_correct [of 5 "[2, 3, 5, 7, 11, 1]" 7] binary_search_correct [of 5 "[2, 3, 5, 7, 11, 1]" 1]
  by simp

lemma hazard_pointer_scan_ok:
  assumes "hp_ok s a K rs ret" and "p \<in> set rs"
  shows "\<exists>s'. hazard_pointer_scan True junk s p = Some s'
    \<and> hs_calls s' = hs_calls s @ List.map (gc_call (hs_nodes s))
        (List.filter (\<lambda>n. n \<notin> set (hazards (hs_recs s) rs)) (ret p))
    \<and> hp_ok s' a K rs (ret(p := rev (List.filter (\<lambda>n. n \<in> set (hazards (hs_recs s) rs)) (ret p))))
    \<and> hazards (hs_recs s') rs = hazards (hs_recs s) rs
    \<and> (\<forall>m. m \<notin> set (ret p) \<longrightarrow> hs_nodes s' m = hs_nodes s m)"
proof -
  let ?H = "set (hazards (hs_recs s) rs)"
  note D = hp_okD [OF assms(1)]
  have "hs_heads s (hr_head (the (hs_recs s p))) = Some (the (hs_heads s a))"
    using D(2,3) assms(2) by simp
  from hazard_pointer_scan_law [OF D(1) assms(2) this] obtain r' nodes' where
    1: "hazard_pointer_scan True junk s p = Some (s\<lparr>hs_nodes := nodes',
        hs_calls := hs_calls s @ List.map (gc_call (hs_nodes s)) (List.filter (\<lambda>n. n \<notin> ?H) (ret p)),
        hs_recs := (hs_recs s)(p \<mapsto> r')\<rparr>)"
    and 2: "rec_ok K (length rs) r'" "hr_next r' = hr_next (the (hs_recs s p))" "hr_head r' = hr_head (the (hs_recs s p))"
      "hr_hazard_pointers r' = hr_hazard_pointers (the (hs_recs s p))"
      "retired_ok nodes' r' (rev (List.filter (\<lambda>n. n \<in> ?H) (ret p)))" "swept (\<lambda>n. n \<in> ?H) (ret p) (hs_nodes s) nodes'"
    by blast
  have "length (List.filter (\<lambda>n. n \<in> ?H) (ret p)) \<le> 2 * (length rs * K)"
    using D(1) assms(2) le_trans [OF length_filter_le] by (auto simp: hp_list_def)
  then have "hp_list (s\<lparr>hs_nodes := nodes', hs_calls := cs, hs_recs := (hs_recs s)(p \<mapsto> r')\<rparr>) K (length rs)
      (the (hs_heads s a)) rs (ret(p := rev (List.filter (\<lambda>n. n \<in> ?H) (ret p))))" for cs
    by (intro scan_keeps_list [OF D(1) assms(2) 2(1,2,5,6)]) auto
  moreover have "hazards ((hs_recs s)(p \<mapsto> r')) rs = hazards (hs_recs s) rs"
    by (rule hazards_frame) (simp add: 2(4))
  ultimately show ?thesis
    using 1 2(3) assms sweptD(1) [OF 2(6)] by (auto simp: hp_ok_def)
qed

text \<open>
  C18. A scan reclaims exactly the retired nodes that no record points to: they are handed to
  their \<open>gc_function\<close>, once, in order, while every node some record points to stays retired and
  allocated; the scan ends, no assertion fails and no access is invalid; the records and
  hazard pointers are as before.
\<close>

theorem hazard_pointer_scan_correct:
  assumes "hp_ok s a K rs ret" and "p \<in> set rs"
  shows "\<exists>s'. hazard_pointer_scan True junk s p = Some s'
    \<and> hs_calls s' = hs_calls s @ List.map (gc_call (hs_nodes s))
        (List.filter (\<lambda>n. n \<notin> set (hazards (hs_recs s) rs)) (ret p))
    \<and> hp_ok s' a K rs (ret(p := rev (List.filter (\<lambda>n. n \<in> set (hazards (hs_recs s) rs)) (ret p))))
    \<and> hazards (hs_recs s') rs = hazards (hs_recs s) rs
    \<and> (\<forall>m. m \<notin> set (ret p) \<longrightarrow> hs_nodes s' m = hs_nodes s m)"
  by (rule hazard_pointer_scan_ok [OF assms])

text \<open>Retiring a node, before the threshold is tested.\<close>

lemma retire_keeps_ok:
  assumes ok: "hp_ok s a K rs ret" and p: "p \<in> set rs" and len: "length (ret p) < 2 * (length rs * K)"
    and n: "n \<noteq> NULL" "hs_nodes s n = Some nd" "hn_gc_function nd \<noteq> NULL" "\<forall>q \<in> set rs. n \<notin> set (ret q)"
  defines "r \<equiv> the (hs_recs s p)"
  shows "hp_ok (set_rec (s\<lparr>hs_nodes := (hs_nodes s)(n \<mapsto> nd\<lparr>hn_next := hr_retired_list r\<rparr>)\<rparr>) p
      (r\<lparr>hr_retired_list := n, hr_retired_count := hr_retired_count r + 1\<rparr>)) a K rs (ret(p := n # ret p))"
    "unat (hr_retired_count r + 1) = Suc (length (ret p))" "unat (hr_retire_threshold r) = 2 * (length rs * K)"
proof -
  note D = hp_okD [OF ok]
  have r: "rec_ok K (length rs) r" "retired_ok (hs_nodes s) r (ret p)" and big: "16 * (length rs * K) < 2 ^ 64"
    using D(1) p by (auto simp: hp_list_def r_def)
  then show u: "unat (hr_retired_count r + 1) = Suc (length (ret p))"
    using len by (subst unat_inc [where n = "2 * (length rs * K)"]) (auto simp: retired_ok_def)
  show "unat (hr_retire_threshold r) = 2 * (length rs * K)"
    using r(1) by (simp add: rec_ok_def)
  let ?nodes = "(hs_nodes s)(n \<mapsto> nd\<lparr>hn_next := hr_retired_list r\<rparr>)"
    and ?r = "r\<lparr>hr_retired_list := n, hr_retired_count := hr_retired_count r + 1\<rparr>"
  have "hp_list (s\<lparr>hs_nodes := ?nodes, hs_calls := hs_calls s, hs_recs := (hs_recs s)(p \<mapsto> ?r)\<rparr>) K (length rs)
      (the (hs_heads s a)) rs (ret(p := n # ret p))"
  proof (rule update_keeps_list [OF D(1) p])
    show "retired_ok ?nodes ?r (n # ret p)"
      using r(2) n p u by (auto simp: retired_ok_def)
    show "?nodes m = hs_nodes s m \<and> m \<notin> set (n # ret p)" if "q \<in> set rs" "q \<noteq> p" "m \<in> set (ret q)" for q m
    proof -
      have "set (ret q) \<inter> set (ret p) = {}"
        using D(1) p that unfolding hp_list_def by blast
      with that n(4) show ?thesis by auto
    qed
  qed (use r(1) len in \<open>simp_all add: rec_ok_def r_def split: option.splits\<close>)
  then show "hp_ok (set_rec (s\<lparr>hs_nodes := ?nodes\<rparr>) p ?r) a K rs (ret(p := n # ret p))"
    using ok D(3) p by (auto simp: hp_ok_def r_def)
qed

lemma filter_hazards_le:
  assumes "hp_ok s a K rs ret" and "distinct ns"
  shows "length (List.filter (\<lambda>n. n \<in> set (hazards (hs_recs s) rs)) ns) \<le> length rs * K"
proof -
  have "length (List.filter (\<lambda>n. n \<in> set (hazards (hs_recs s) rs)) ns)
      = card (set (List.filter (\<lambda>n. n \<in> set (hazards (hs_recs s) rs)) ns))"
    using assms(2) by (simp add: distinct_card del: set_filter)
  also have "\<dots> \<le> card (set (hazards (hs_recs s) rs))"
    by (rule card_mono) auto
  also have "\<dots> \<le> length (hazards (hs_recs s) rs)"
    by (rule card_length)
  also have "\<dots> \<le> length rs * K"
    using hp_okD(1) [OF assms(1)] by (intro hazards_le) (auto simp: hp_list_def rec_ok_def)
  finally show ?thesis .
qed

lemma hazard_pointer_free_ok:
  assumes "hp_ok s a K rs ret" and "p \<in> set rs" and "length (ret p) < 2 * (length rs * K)"
    and "n \<noteq> NULL" and "hs_nodes s n = Some nd" and "hn_gc_function nd \<noteq> NULL" and "\<forall>q \<in> set rs. n \<notin> set (ret q)"
  shows "\<exists>s' calls ns. hazard_pointer_free True junk s p n = Some s'
    \<and> hs_calls s' = hs_calls s @ List.map (gc_call (hs_nodes s)) calls
    \<and> hp_ok s' a K rs (ret(p := ns)) \<and> length ns < 2 * (length rs * K)
    \<and> (\<forall>m. m \<notin> set (n # ret p) \<longrightarrow> hs_nodes s' m = hs_nodes s m)
    \<and> (if Suc (length (ret p)) < 2 * (length rs * K) then calls = [] \<and> ns = n # ret p
       else calls = List.filter (\<lambda>m. m \<notin> set (hazards (hs_recs s) rs)) (n # ret p)
         \<and> ns = rev (List.filter (\<lambda>m. m \<in> set (hazards (hs_recs s) rs)) (n # ret p))
         \<and> length rs * K \<le> length calls \<and> length ns \<le> length rs * K)"
proof -
  note D = hp_okD [OF assms(1)]
  let ?r = "the (hs_recs s p)" and ?H = "set (hazards (hs_recs s) rs)"
  let ?s1 = "set_rec (s\<lparr>hs_nodes := (hs_nodes s)(n \<mapsto> nd\<lparr>hn_next := hr_retired_list ?r\<rparr>)\<rparr>) p
      (?r\<lparr>hr_retired_list := n, hr_retired_count := hr_retired_count ?r + 1\<rparr>)"
  note R = retire_keeps_ok [OF assms]
  have test: "hr_retire_threshold ?r \<le> hr_retired_count ?r + 1 \<longleftrightarrow> \<not> Suc (length (ret p)) < 2 * (length rs * K)"
    by (simp add: word_le_nat_alt R(2,3) not_less)
  obtain rp where rp: "hs_recs s p = Some rp"
    using D(5) [OF assms(2)] by blast
  have free: "hazard_pointer_free True junk s p n =
      (if Suc (length (ret p)) < 2 * (length rs * K) then Some ?s1 else hazard_pointer_scan True junk ?s1 p)"
    using test assms(5) by (simp add: hazard_pointer_free_def rp Let_def)
  have pos: "0 < length rs * K"
    using D(4) assms(2) by (cases rs) auto
  show ?thesis
  proof (cases "Suc (length (ret p)) < 2 * (length rs * K)")
    case True
    with R(1) free show ?thesis
      by - (rule exI [of _ ?s1], rule exI [of _ "[]"], rule exI [of _ "n # ret p"], simp)
  next
    case False
    have hz: "hazards (hs_recs ?s1) rs = hazards (hs_recs s) rs"
      by (rule hazards_frame) simp
    define ns where "ns = rev (List.filter (\<lambda>m. m \<in> ?H) (n # ret p))"
    define cs where "cs = List.filter (\<lambda>m. m \<notin> ?H) (n # ret p)"
    obtain s' where s': "hazard_pointer_scan True junk ?s1 p = Some s'"
      "hs_calls s' = hs_calls s @ List.map (gc_call (hs_nodes ?s1)) cs" "hp_ok s' a K rs (ret(p := ns))"
      "\<forall>m. m \<notin> set (n # ret p) \<longrightarrow> hs_nodes s' m = hs_nodes s m"
      using hazard_pointer_scan_ok [OF R(1) assms(2), of junk, unfolded hz] unfolding ns_def cs_def
      by (auto simp del: filter.simps)
    have "List.map (gc_call (hs_nodes ?s1)) cs = List.map (gc_call (hs_nodes s)) cs"
      using assms(5) by (intro map_cong refl) (simp add: gc_call_def)
    moreover have "distinct (n # ret p)"
      using D(1) assms(2,7) by (auto simp: hp_list_def retired_ok_def)
    from filter_hazards_le [OF assms(1) this] have small: "length ns \<le> length rs * K"
      unfolding ns_def length_rev .
    moreover have "length rs * K \<le> length cs"
      using sum_length_filter_compl [of "\<lambda>m. m \<in> ?H" "n # ret p"] small False
      unfolding ns_def cs_def length_rev by auto
    moreover have "length ns < 2 * (length rs * K)"
      using small pos by linarith
    ultimately show ?thesis
      using s' free False unfolding cs_def [symmetric] ns_def [symmetric]
      by - (rule exI [of _ s'], rule exI [of _ cs], rule exI [of _ ns], simp)
  qed
qed

text \<open>
  C35. Retiring a node: below the threshold \<open>2 * N * K\<close> it is only queued; the retirement that
  reaches the threshold scans, hands over every queued node no record points to, at
  least \<open>N * K\<close> of them (half the threshold, as the header's note promises), and leaves
  at most \<open>N * K\<close> queued. Either way fewer than \<open>2 * N * K\<close> nodes stay queued per record.
\<close>

theorem hazard_pointer_free_correct:
  assumes "hp_ok s a K rs ret" and "p \<in> set rs" and "length (ret p) < 2 * (length rs * K)"
    and "n \<noteq> NULL" and "hs_nodes s n = Some nd" and "hn_gc_function nd \<noteq> NULL" and "\<forall>q \<in> set rs. n \<notin> set (ret q)"
  shows "\<exists>s' calls ns. hazard_pointer_free True junk s p n = Some s'
    \<and> hs_calls s' = hs_calls s @ List.map (gc_call (hs_nodes s)) calls
    \<and> hp_ok s' a K rs (ret(p := ns)) \<and> length ns < 2 * (length rs * K)
    \<and> (\<forall>m. m \<notin> set (n # ret p) \<longrightarrow> hs_nodes s' m = hs_nodes s m)
    \<and> (if Suc (length (ret p)) < 2 * (length rs * K) then calls = [] \<and> ns = n # ret p
       else calls = List.filter (\<lambda>m. m \<notin> set (hazards (hs_recs s) rs)) (n # ret p)
         \<and> ns = rev (List.filter (\<lambda>m. m \<in> set (hazards (hs_recs s) rs)) (n # ret p))
         \<and> length rs * K \<le> length calls \<and> length ns \<le> length rs * K)"
  by (rule hazard_pointer_free_ok [OF assms])

text \<open>Announcing and withdrawing a pointer changes nothing else.\<close>

lemma set_pointer_ok:
  assumes ok: "hp_ok s a K rs ret" and p: "p \<in> set rs" and i: "unat i < K"
  shows "hp_ok (set_rec s p (the (hs_recs s p)\<lparr>hr_hazard_pointers := (hr_hazard_pointers (the (hs_recs s p)))[unat i := n]\<rparr>))
    a K rs ret"
proof -
  note D = hp_okD [OF ok]
  let ?r = "the (hs_recs s p)"
  let ?r' = "?r\<lparr>hr_hazard_pointers := (hr_hazard_pointers ?r)[unat i := n]\<rparr>"
  have r: "rec_ok K (length rs) ?r" "retired_ok (hs_nodes s) ?r (ret p)" "length (ret p) \<le> 2 * (length rs * K)"
    using D(1) p by (auto simp: hp_list_def)
  have "hp_list (s\<lparr>hs_nodes := hs_nodes s, hs_calls := hs_calls s, hs_recs := (hs_recs s)(p \<mapsto> ?r')\<rparr>)
      K (length rs) (the (hs_heads s a)) rs (ret(p := ret p))"
  proof (rule update_keeps_list [OF D(1) p])
    show "rec_ok K (length rs) ?r'"
      using r(1) by (simp add: rec_ok_def split: option.splits)
    show "retired_ok (hs_nodes s) ?r' (ret p)"
      using r(2) by (simp add: retired_ok_def)
    show "hs_nodes s m = hs_nodes s m \<and> m \<notin> set (ret p)" if "q \<in> set rs" "q \<noteq> p" "m \<in> set (ret q)" for q m
      using D(1) p that unfolding hp_list_def by blast
  qed (use r(3) in simp_all)
  then show ?thesis
    using ok D(3) p by (simp add: hp_ok_def)
qed

lemma pointer_write_ok:
  assumes ok: "hp_ok s a K rs ret" and p: "p \<in> set rs" and i: "unat i < K"
  shows "\<exists>s'. hazard_pointer_using s p n i = Some s' \<and> hp_ok s' a K rs ret
    \<and> hs_nodes s' = hs_nodes s \<and> hs_calls s' = hs_calls s"
proof -
  note D = hp_okD [OF ok]
  obtain r where r: "hs_recs s p = Some r"
    using D(5) [OF p] by blast
  have "unat (hr_hazard_pointers_count r) = K" "length (hr_hazard_pointers r) = K"
    using D(1) p r by (auto simp: hp_list_def rec_ok_def)
  then show ?thesis
    using set_pointer_ok [OF assms, of n] i
    by (simp add: hazard_pointer_using_def r word_less_nat_alt buf_set_def)
qed

lemma done_using_is_using: "hazard_pointer_done_using s p i = hazard_pointer_using s p NULL i"
  by (simp add: hazard_pointer_done_using_def hazard_pointer_using_def)

lemma hazard_pointer_using_ok:
  assumes "hp_ok s a K rs ret" and "p \<in> set rs" and "unat i < K" and "n \<noteq> NULL"
  shows "\<exists>s'. hazard_pointer_using s p n i = Some s' \<and> hp_ok s' a K rs ret \<and> n \<in> set (hazards (hs_recs s') rs)
    \<and> (\<exists>s''. hazard_pointer_done_using s' p i = Some s'' \<and> hp_ok s'' a K rs ret)"
proof -
  note D = hp_okD [OF assms(1)]
  obtain r where r: "hs_recs s p = Some r"
    using D(5) [OF assms(2)] by blast
  have k: "unat (hr_hazard_pointers_count r) = K" "length (hr_hazard_pointers r) = K"
    using D(1) assms(2) r by (auto simp: hp_list_def rec_ok_def)
  let ?r' = "r\<lparr>hr_hazard_pointers := (hr_hazard_pointers r)[unat i := n]\<rparr>"
  have u: "hazard_pointer_using s p n i = Some (set_rec s p ?r')"
    using assms(3) k by (simp add: hazard_pointer_using_def r word_less_nat_alt buf_set_def)
  have ok: "hp_ok (set_rec s p ?r') a K rs ret"
    using set_pointer_ok [OF assms(1-3)] by (simp add: r)
  have "n \<in> set (hr_hazard_pointers ?r')"
    using assms(3) k by (simp add: set_update_memI)
  then have "n \<in> set (hazards (hs_recs (set_rec s p ?r')) rs)"
    using assms(2,4) by (auto simp: hazards_def)
  moreover have "\<exists>s''. hazard_pointer_done_using (set_rec s p ?r') p i = Some s'' \<and> hp_ok s'' a K rs ret"
    using set_pointer_ok [OF ok assms(2,3), of NULL] assms(3) k
    by (simp add: hazard_pointer_done_using_def word_less_nat_alt buf_set_def)
  ultimately show ?thesis
    using u ok by blast
qed

text \<open>
  \<open>hazard_pointer_using\<close> puts the node among the pointers in use, where every scan
  until \<open>done_using\<close> finds it; both keep the invariant.
\<close>

theorem hazard_pointer_using_protects:
  assumes "hp_ok s a K rs ret" and "p \<in> set rs" and "unat i < K" and "n \<noteq> NULL"
  shows "\<exists>s'. hazard_pointer_using s p n i = Some s' \<and> hp_ok s' a K rs ret \<and> n \<in> set (hazards (hs_recs s') rs)
    \<and> (\<exists>s''. hazard_pointer_done_using s' p i = Some s'' \<and> hp_ok s'' a K rs ret)"
  by (rule hazard_pointer_using_ok [OF assms])

section \<open>Joining\<close>

lemma count_threads_law:
  assumes "records recs cur rs" and "\<forall>p \<in> set rs. hr_hazard_pointers_count (the (recs p)) = k"
    and "unat threads + length rs < 2 ^ 64"
  shows "count_threads recs k cur threads = Some (threads + of_nat (length rs))"
  using assms
proof (induction rs arbitrary: cur threads)
  case Nil
  then show ?case by (subst count_threads.simps) simp
next
  case (Cons p rs)
  then obtain r where r: "recs p = Some r" "cur = p" "p \<noteq> NULL" "records recs (hr_next r) rs"
    by (auto split: option.splits)
  have "unat (threads + 1) = Suc (unat threads)"
    using Cons.prems(3) by (intro unat_inc [where n = "2 ^ 64 - 1"]) auto
  then have "count_threads recs k (hr_next r) (threads + 1) = Some (threads + 1 + of_nat (length rs))"
    using Cons.prems r by (intro Cons.IH) simp_all
  with r Cons.prems(2) show ?case
    by (subst count_threads.simps) (simp add: algebra_simps)
qed

lemma raise_thresholds_law:
  assumes "records recs cur rs" and "distinct rs"
  shows "raise_thresholds recs cur = Some (\<lambda>p. if p \<in> set rs
    then map_option (\<lambda>r. r\<lparr>hr_retire_threshold := hr_retire_threshold r + 2 * hr_hazard_pointers_count r\<rparr>) (recs p)
    else recs p)"
  using assms
proof (induction rs arbitrary: cur recs)
  case Nil
  then show ?case by (subst raise_thresholds.simps) simp
next
  case (Cons p rs)
  then obtain r where r: "recs p = Some r" "cur = p" "p \<noteq> NULL" "records recs (hr_next r) rs"
    by (auto split: option.splits)
  let ?recs = "recs(p \<mapsto> r\<lparr>hr_retire_threshold := hr_retire_threshold r + 2 * hr_hazard_pointers_count r\<rparr>)"
  have "records ?recs (hr_next r) rs"
    using r(4) Cons.prems(2) by simp
  with Cons.prems(2) have "raise_thresholds ?recs (hr_next r) = Some (\<lambda>q. if q \<in> set rs
    then map_option (\<lambda>r. r\<lparr>hr_retire_threshold := hr_retire_threshold r + 2 * hr_hazard_pointers_count r\<rparr>) (?recs q)
    else ?recs q)"
    by (intro Cons.IH) (simp_all del: fun_upd_apply)
  with r Cons.prems(2) show ?case
    by (subst raise_thresholds.simps) (auto simp: fun_eq_iff)
qed

text \<open>
  A thread that joins gets a record with \<open>K\<close> empty pointers at the head of the list, and
  every record's threshold becomes \<open>2 * N * K\<close> for the new number \<open>N\<close> of threads: what the
  scan relies on to size its scratch area.
\<close>

theorem hazard_pointer_create_correct:
  assumes "hp_ok s a K rs ret" and "unat k = K" and "16 * (Suc (length rs) * K) < 2 ^ 64"
    and "p \<noteq> NULL" and "hs_recs s p = None"
  shows "\<exists>s'. hazard_pointer_thread_record_create_and_push s a k p = Some s'
    \<and> hp_ok s' a K (p # rs) (ret(p := [])) \<and> hs_calls s' = hs_calls s"
proof -
  note D = hp_okD [OF assms(1)]
  have L: "records (hs_recs s) (the (hs_heads s a)) rs" "distinct rs"
    and rec: "\<And>q. q \<in> set rs \<Longrightarrow> rec_ok K (length rs) (the (hs_recs s q))"
    using D(1) by (auto simp: hp_list_def)
  have new: "p \<notin> set rs"
    using D(5) assms(5) by fastforce
  have N: "Suc (length rs) \<le> Suc (length rs) * K"
    using mult_le_mono2 [of 1 K "Suc (length rs)"] D(4) by simp
  then have "unat (1 :: u64) + length rs < 2 ^ 64"
    using assms(3) by simp
  moreover have "\<forall>q \<in> set rs. hr_hazard_pointers_count (the (hs_recs s q)) = k"
    using rec assms(2) by (auto simp: rec_ok_def word_unat_eq_iff)
  ultimately have c: "count_threads (hs_recs s) k (the (hs_heads s a)) 1 = Some (1 + of_nat (length rs))"
    using count_threads_law [OF L(1)] by blast
  define r where "r = \<lparr>hr_head = a, hr_next = the (hs_heads s a),
     hr_retire_threshold = 2 * (1 + of_nat (length rs)) * k, hr_retired_count = 0, hr_retired_list = NULL,
     hr_plist_size = 0, hr_plist = None, hr_hazard_pointers_count = k,
     hr_hazard_pointers = replicate (unat k) NULL\<rparr>"
  have "records ((hs_recs s)(p \<mapsto> r)) (the (hs_heads s a)) rs"
    using L(1) new by simp
  note rt = raise_thresholds_law [OF this L(2)]
  define recs' where "recs' = (\<lambda>q. if q \<in> set rs
    then map_option (\<lambda>r. r\<lparr>hr_retire_threshold := hr_retire_threshold r + 2 * hr_hazard_pointers_count r\<rparr>)
      (((hs_recs s)(p \<mapsto> r)) q)
    else ((hs_recs s)(p \<mapsto> r)) q)"
  let ?s = "s\<lparr>hs_recs := recs', hs_heads := (hs_heads s)(a \<mapsto> p)\<rparr>"
  have a: "a \<noteq> NULL" "k \<noteq> 0"
    using assms(1,2) D(4) by (auto simp: hp_ok_def)
  have "hazard_pointer_thread_record_create_and_push s a k p = Some ?s"
  proof -
    obtain h where h: "hs_heads s a = Some h"
      using D(2) by blast
    from rt have "raise_thresholds ((hs_recs s)(p \<mapsto> r)) h = Some recs'"
      unfolding h option.sel recs'_def .
    moreover from c have "count_threads (hs_recs s) k h 1 = Some (1 + of_nat (length rs))"
      unfolding h option.sel .
    ultimately show ?thesis
      using a assms(4) unfolding r_def h option.sel
      by (simp add: hazard_pointer_thread_record_create_and_push_def h)
  qed
  moreover have "hp_ok ?s a K (p # rs) (ret(p := []))"
  proof -
    have old: "recs' q = Some ((the (hs_recs s q))\<lparr>hr_retire_threshold :=
        hr_retire_threshold (the (hs_recs s q)) + 2 * hr_hazard_pointers_count (the (hs_recs s q))\<rparr>)"
      if q: "q \<in> set rs" for q
    proof -
      obtain r0 where "hs_recs s q = Some r0"
        using D(5) [OF q] by blast
      with q new show ?thesis by (auto simp: recs'_def)
    qed
    have new_rec: "recs' p = Some r"
      using new by (simp add: recs'_def)
    have "records recs' (the (hs_heads s a)) rs = records (hs_recs s) (the (hs_heads s a)) rs"
    proof (rule records_frame)
      fix q
      assume q: "q \<in> set rs"
      obtain r0 where "hs_recs s q = Some r0"
        using D(5) [OF q] by blast
      then show "map_option hr_next (recs' q) = map_option hr_next (hs_recs s q)"
        by (simp add: old [OF q])
    qed
    moreover have "rec_ok K (Suc (length rs)) (the (recs' q))" if "q \<in> set rs" for q
      using rec [OF that] D(4) assms(3) by (simp add: old [OF that] rec_ok_def unat_word_ariths split: option.splits)
    moreover have "rec_ok K (Suc (length rs)) r"
    proof -
      have "2 * (1 + of_nat (length rs)) * k = (of_nat (2 * Suc (length rs) * K) :: u64)"
        by (simp add: algebra_simps flip: assms(2))
      moreover have "2 * Suc (length rs) * K < 2 ^ 64"
        using assms(3) by simp
      ultimately have "unat (2 * (1 + of_nat (length rs)) * k) = 2 * Suc (length rs) * K"
        by (simp only: unat_of_nat len_of_numeral_defs) (simp add: take_bit_nat_eq_self)
      then show ?thesis
        using assms(2) by (simp add: r_def rec_ok_def)
    qed
    moreover have "retired_ok (hs_nodes s) (the (recs' q)) (ret q)" "length (ret q) \<le> 2 * (Suc (length rs) * K)"
      if "q \<in> set rs" for q
    proof -
      have "retired_ok (hs_nodes s) (the (hs_recs s q)) (ret q)" "length (ret q) \<le> 2 * (length rs * K)"
        using D(1) that by (simp_all add: hp_list_def)
      then show "retired_ok (hs_nodes s) (the (recs' q)) (ret q)" "length (ret q) \<le> 2 * (Suc (length rs) * K)"
        by (simp_all add: old [OF that] retired_ok_def)
    qed
    moreover have "retired_ok (hs_nodes s) r []"
      by (simp add: r_def retired_ok_def)
    moreover have "set (ret q) \<inter> set (ret q') = {}" if "q \<in> set rs" "q' \<in> set rs" "q \<noteq> q'" for q q'
      using D(1) that unfolding hp_list_def by blast
    moreover have "hr_head (the (recs' q)) = a" if "q \<in> set rs" for q
      using D(3) [OF that] by (simp add: old [OF that])
    moreover have "q \<noteq> p" if "q \<in> set rs" for q
      using new that by blast
    moreover have "hr_next r = the (hs_heads s a)" "hr_head r = a"
      by (simp_all add: r_def)
    ultimately show ?thesis
      using a(1) D(4) assms(3,4) new L new_rec
      by (simp add: hp_ok_def hp_list_def)
  qed
  ultimately show ?thesis by auto
qed

section \<open>Destruction\<close>

lemma hp_list_tail:
  assumes "hp_list s K N h (p # rs) ret" and "hs_recs s p = Some r"
  shows "hp_list (s\<lparr>hs_recs := (hs_recs s)(p := None)\<rparr>) K N (hr_next r) rs ret"
  using assms by (auto simp: hp_list_def)

lemma destroy_one:
  assumes ok: "hp_list s K N p (p # rs) ret" and hz: "hazards (hs_recs s) (p # rs) = []"
    and r: "hs_recs s p = Some r"
  shows "\<exists>nodes'. hazard_pointer_thread_record_destroy True junk
      (set_rec (s\<lparr>hs_heads := (hs_heads s)(c \<mapsto> p)\<rparr>) p (r\<lparr>hr_head := c\<rparr>)) p =
        Some (s\<lparr>hs_heads := (hs_heads s)(c \<mapsto> p), hs_nodes := nodes',
          hs_calls := hs_calls s @ List.map (gc_call (hs_nodes s)) (ret p), hs_recs := (hs_recs s)(p := None)\<rparr>)
    \<and> swept (\<lambda>_. False) (ret p) (hs_nodes s) nodes'
    \<and> hp_list (s\<lparr>hs_heads := (hs_heads s)(c \<mapsto> p), hs_nodes := nodes',
          hs_calls := hs_calls s @ List.map (gc_call (hs_nodes s)) (ret p), hs_recs := (hs_recs s)(p := None)\<rparr>)
        K N (hr_next r) rs ret"
proof -
  let ?s1 = "set_rec (s\<lparr>hs_heads := (hs_heads s)(c \<mapsto> p)\<rparr>) p (r\<lparr>hr_head := c\<rparr>)"
  have "hp_list (s\<lparr>hs_nodes := hs_nodes s, hs_calls := hs_calls s, hs_recs := (hs_recs s)(p \<mapsto> r\<lparr>hr_head := c\<rparr>)\<rparr>)
      K N p (p # rs) (ret(p := ret p))"
  proof (rule update_keeps_list [OF ok])
    show "rec_ok K N (r\<lparr>hr_head := c\<rparr>)"
      using ok r by (simp add: hp_list_def rec_ok_def split: option.splits)
    show "retired_ok (hs_nodes s) (r\<lparr>hr_head := c\<rparr>) (ret p)"
      using ok r by (simp add: hp_list_def retired_ok_def)
    show "hs_nodes s m = hs_nodes s m \<and> m \<notin> set (ret p)" if "q \<in> set (p # rs)" "q \<noteq> p" "m \<in> set (ret q)" for q m
      using ok that unfolding hp_list_def by (metis disjoint_iff list.set_intros(1))
  qed (use ok r in \<open>simp_all add: hp_list_def\<close>)
  then have ok1: "hp_list ?s1 K N p (p # rs) ret"
    by (simp add: hp_list_def)
  have "hazards (hs_recs ?s1) (p # rs) = hazards (hs_recs s) (p # rs)"
    by (rule hazards_frame) (simp add: r)
  with hz have hz1: "hazards (hs_recs ?s1) (p # rs) = []"
    by simp
  have "hs_heads ?s1 (hr_head (the (hs_recs ?s1 p))) = Some p"
    by simp
  from hazard_pointer_scan_law [OF ok1 list.set_intros(1) this, unfolded hz1, of junk] obtain r' nodes' where
    1: "hazard_pointer_scan True junk ?s1 p = Some (?s1\<lparr>hs_nodes := nodes',
        hs_calls := hs_calls s @ List.map (gc_call (hs_nodes s)) (ret p), hs_recs := (hs_recs s)(p \<mapsto> r')\<rparr>)"
    and 2: "rec_ok K N r'" "hr_next r' = hr_next r" "retired_ok nodes' r' []" "swept (\<lambda>_. False) (ret p) (hs_nodes s) nodes'"
    by auto
  have "p \<noteq> NULL"
    using ok by (simp add: hp_list_def)
  with 1 have d: "hazard_pointer_thread_record_destroy True junk ?s1 p =
        Some (s\<lparr>hs_heads := (hs_heads s)(c \<mapsto> p), hs_nodes := nodes',
          hs_calls := hs_calls s @ List.map (gc_call (hs_nodes s)) (ret p), hs_recs := (hs_recs s)(p := None)\<rparr>)"
    by (simp add: hazard_pointer_thread_record_destroy_def)
  have "hp_list (?s1\<lparr>hs_nodes := nodes', hs_calls := cs, hs_recs := (hs_recs ?s1)(p \<mapsto> r')\<rparr>) K N p (p # rs) (ret(p := []))" for cs
    by (rule scan_keeps_list [OF ok1 list.set_intros(1)]) (use 2 in simp_all)
  from hp_list_tail [OF this] have "hp_list (s\<lparr>hs_heads := (hs_heads s)(c \<mapsto> p), hs_nodes := nodes',
      hs_calls := cs, hs_recs := (hs_recs s)(p := None)\<rparr>) K N (hr_next r) rs (ret(p := []))" for cs
    using 2(2) by simp
  moreover have "p \<notin> set rs"
    using ok by (simp add: hp_list_def)
  ultimately have "hp_list (s\<lparr>hs_heads := (hs_heads s)(c \<mapsto> p), hs_nodes := nodes',
      hs_calls := cs, hs_recs := (hs_recs s)(p := None)\<rparr>) K N (hr_next r) rs ret" for cs
    unfolding hp_list_def by (simp split: if_splits) (metis fun_upd_other)
  with d 2(4) show ?thesis by blast
qed

lemma destroy_all_law:
  assumes "hp_list s K N h rs ret" and "hazards (hs_recs s) rs = []"
  shows "\<exists>s'. hazard_pointer_thread_record_destroy_all True junk c s h = Some s'
    \<and> hs_calls s' = hs_calls s @ concat (List.map (\<lambda>p. List.map (gc_call (hs_nodes s)) (ret p)) rs)
    \<and> (\<forall>p. hs_recs s' p = (if p \<in> set rs then None else hs_recs s p))
    \<and> (\<forall>n. hs_nodes s' n = (if \<exists>p \<in> set rs. n \<in> set (ret p) then None else hs_nodes s n))"
  using assms
proof (induction rs arbitrary: s h)
  case Nil
  then have "h = NULL"
    by (simp add: hp_list_def)
  then show ?case
    by (subst hazard_pointer_thread_record_destroy_all.simps) simp
next
  case (Cons p rs)
  from Cons.prems(1) obtain r where r: "hs_recs s p = Some r" and h: "h = p" "p \<noteq> NULL" and new: "p \<notin> set rs"
    by (auto simp: hp_list_def split: option.splits)
  let ?next = "\<lambda>nodes'. s\<lparr>hs_heads := (hs_heads s)(c \<mapsto> p), hs_nodes := nodes',
    hs_calls := hs_calls s @ List.map (gc_call (hs_nodes s)) (ret p), hs_recs := (hs_recs s)(p := None)\<rparr>"
  from destroy_one [OF Cons.prems(1) [unfolded h(1)] Cons.prems(2) r, of junk c] obtain nodes' where
    1: "hazard_pointer_thread_record_destroy True junk
      (set_rec (s\<lparr>hs_heads := (hs_heads s)(c \<mapsto> p)\<rparr>) p (r\<lparr>hr_head := c\<rparr>)) p =
        Some (?next nodes')"
    and sw: "swept (\<lambda>_. False) (ret p) (hs_nodes s) nodes'" and ok: "hp_list (?next nodes') K N (hr_next r) rs ret"
    by blast
  have "hazards (hs_recs (?next nodes')) rs = hazards (hs_recs s) rs"
    by (rule hazards_frame) (use new in auto)
  with Cons.prems(2) have "hazards (hs_recs (?next nodes')) rs = []"
    by (simp add: hazards_def)
  from Cons.IH [OF ok this] obtain s' where
    2: "hazard_pointer_thread_record_destroy_all True junk c (?next nodes') (hr_next r) = Some s'"
      "hs_calls s' = hs_calls (?next nodes') @ concat (List.map (\<lambda>p. List.map (gc_call (hs_nodes (?next nodes'))) (ret p)) rs)"
      "\<forall>q. hs_recs s' q = (if q \<in> set rs then None else hs_recs (?next nodes') q)"
      "\<forall>n. hs_nodes s' n = (if \<exists>q \<in> set rs. n \<in> set (ret q) then None else hs_nodes (?next nodes') n)"
    by blast
  have nodes': "nodes' n = (if n \<in> set (ret p) then None else hs_nodes s n)" for n
    using sweptD(1,2) [OF sw] by simp
  have "List.map (gc_call nodes') (ret q) = List.map (gc_call (hs_nodes s)) (ret q)" if "q \<in> set rs" for q
  proof (intro map_cong refl)
    fix n
    assume "n \<in> set (ret q)"
    then have "n \<notin> set (ret p)"
      using Cons.prems(1) new that unfolding hp_list_def by (metis disjoint_iff list.set_intros)
    then show "gc_call nodes' n = gc_call (hs_nodes s) n"
      by (simp add: gc_call_def nodes')
  qed
  note same = this
  have "concat (List.map (\<lambda>p. List.map (gc_call nodes') (ret p)) rs)
      = concat (List.map (\<lambda>p. List.map (gc_call (hs_nodes s)) (ret p)) rs)"
    by (rule arg_cong [of _ _ concat], rule map_cong [OF refl], rule same)
  moreover have "hazard_pointer_thread_record_destroy_all True junk c s h = Some s'"
    using 1 2(1) r h by (subst hazard_pointer_thread_record_destroy_all.simps) simp
  ultimately show ?case
    using 2(2-4) nodes' by (intro exI [of _ s']) auto
qed

text \<open>
  Once no thread uses a pointer any more, destroying all records hands every node still
  queued to its \<open>gc_function\<close>, once, and frees every record: nothing is lost.
\<close>

theorem hazard_pointer_destroy_all_correct:
  assumes "hp_ok s a K rs ret" and "hazards (hs_recs s) rs = []"
  shows "\<exists>s'. hazard_pointer_thread_record_destroy_all True junk c s (the (hs_heads s a)) = Some s'
    \<and> hs_calls s' = hs_calls s @ concat (List.map (\<lambda>p. List.map (gc_call (hs_nodes s)) (ret p)) rs)
    \<and> (\<forall>p. hs_recs s' p = (if p \<in> set rs then None else hs_recs s p))
    \<and> (\<forall>n. hs_nodes s' n = (if \<exists>p \<in> set rs. n \<in> set (ret p) then None else hs_nodes s n))"
  by (rule destroy_all_law [OF hp_okD(1) [OF assms(1)] assms(2)])

section \<open>Witnesses\<close>

text \<open>Two threads with one pointer each; the first has retired 96 and 112, the second uses 96.\<close>

definition hp_demo_rec :: "ptr \<Rightarrow> ptr list \<Rightarrow> ptr \<Rightarrow> u64 \<Rightarrow> hazard_record" where
  "hp_demo_rec next hps list count = \<lparr>hr_head = 8, hr_next = next, hr_retire_threshold = 4, hr_retired_count = count,
     hr_retired_list = list, hr_plist_size = 0, hr_plist = None, hr_hazard_pointers_count = 1, hr_hazard_pointers = hps\<rparr>"

definition hp_demo :: "ptr \<Rightarrow> hazard_state" where
  "hp_demo u = \<lparr>hs_nodes = [96 \<mapsto> \<lparr>hn_next = 112, hn_gc_data = 1, hn_gc_function = 2\<rparr>,
       112 \<mapsto> \<lparr>hn_next = NULL, hn_gc_data = 3, hn_gc_function = 2\<rparr>,
       120 \<mapsto> \<lparr>hn_next = NULL, hn_gc_data = 5, hn_gc_function = 2\<rparr>],
     hs_recs = [16 \<mapsto> hp_demo_rec 32 [NULL] 96 2, 32 \<mapsto> hp_demo_rec NULL [u] NULL 0],
     hs_heads = [8 \<mapsto> 16], hs_calls = []\<rparr>"

definition hp_demo_ret :: "ptr \<Rightarrow> ptr list" where
  "hp_demo_ret p = (if p = 16 then [96, 112] else [])"

lemma hp_demo_ok: "hp_ok (hp_demo u) 8 1 [16, 32] hp_demo_ret"
  by (simp add: hp_ok_def hp_list_def rec_ok_def retired_ok_def hp_demo_def hp_demo_rec_def hp_demo_ret_def)

lemma hp_demo_hazards:
  "hazards (hs_recs (hp_demo 96)) [16, 32] = [96]" "hazards (hs_recs (hp_demo NULL)) [16, 32] = []"
  by (simp_all add: hazards_def hp_demo_def hp_demo_rec_def)

theorem hazard_pointer_scan_correct_witness:
  "\<exists>s'. hazard_pointer_scan True (\<lambda>_. 0) (hp_demo 96) 16 = Some s' \<and> hs_calls s' = [(2, 3, 112)]
     \<and> hp_ok s' 8 1 [16, 32] (hp_demo_ret(16 := [96]))"
  using hazard_pointer_scan_correct [OF hp_demo_ok [of 96], of 16 "\<lambda>_. 0"]
  by (auto simp: hp_demo_hazards hp_demo_ret_def) (auto simp: gc_call_def hp_demo_def)

theorem hazard_pointer_free_correct_witness:
  "\<exists>s'. hazard_pointer_free True (\<lambda>_. 0) (hp_demo 96) 16 120 = Some s' \<and> hs_calls s' = []"
  using hazard_pointer_free_correct [OF hp_demo_ok [of 96], of 16 120 _ "\<lambda>_. 0"]
  by (auto simp: hp_demo_ret_def) (auto simp: hp_demo_def)

theorem hazard_pointer_using_protects_witness:
  "\<exists>s'. hazard_pointer_using (hp_demo NULL) 16 112 0 = Some s' \<and> 112 \<in> set (hazards (hs_recs s') [16, 32])"
  using hazard_pointer_using_protects [OF hp_demo_ok [of NULL], of 16 0 112] by auto

theorem hazard_pointer_create_correct_witness:
  "\<exists>s'. hazard_pointer_thread_record_create_and_push (hp_demo NULL) 8 1 48 = Some s'
     \<and> hp_ok s' 8 1 [48, 16, 32] (hp_demo_ret(48 := []))"
  using hazard_pointer_create_correct [OF hp_demo_ok [of NULL], of 1 48]
  by (auto simp: hp_demo_def)

theorem hazard_pointer_destroy_all_correct_witness:
  "\<exists>s'. hazard_pointer_thread_record_destroy_all True (\<lambda>_. 0) 24 (hp_demo NULL) 16 = Some s'
     \<and> hs_calls s' = [(2, 1, 96), (2, 3, 112)] \<and> hs_recs s' 16 = None \<and> hs_nodes s' 96 = None"
proof -
  have "the (hs_heads (hp_demo NULL) 8) = 16"
    by (simp add: hp_demo_def)
  with hazard_pointer_destroy_all_correct [OF hp_demo_ok hp_demo_hazards(2), of "\<lambda>_. 0" 24] show ?thesis
    by (auto simp: hp_demo_ret_def gc_call_def hp_demo_def)
qed

end
