(* ===== verification/Hazard_Conc.thy ===== *)
theory Hazard_Conc
  imports Hazard_Pointer
begin

text \<open>
  Threads that join the list of hazard pointer records while others join or scan: the shared accesses of
  \<open>hazard_pointer_thread_record_create_and_push\<close> (the list is counted, the new record is swapped in, and the
  thresholds of the records below it are raised one by one) and those of the first half of
  \<open>hazard_pointer_scan\<close> (the head and its threshold are read and the list is walked). How many pointers a scan finds in a
  record is up to the step; \<open>hz_bad\<close> records a failed assertion and a write outside the scratch array.
  \<open>hz_list\<close> is a ghost variable: the records from the head on.
\<close>

section \<open>Steps\<close>

datatype hz_pc =
    H_idle
  | H_head ptr
  | H_count ptr ptr ptr u64
  | H_cas ptr ptr
  | H_raise ptr ptr
  | S_head
  | S_max ptr
  | S_walk ptr u64 u64

record hz_sys =
  hz_recs :: "ptr \<Rightarrow> hazard_record option"
  hz_head :: ptr
  hz_pc :: "tid \<Rightarrow> hz_pc"
  hz_bad :: bool
  hz_list :: "ptr list"

abbreviation hz_goto :: "hz_sys \<Rightarrow> tid \<Rightarrow> hz_pc \<Rightarrow> hz_sys" where
  "hz_goto s t c \<equiv> s\<lparr>hz_pc := (hz_pc s)(t := c)\<rparr>"

abbreviation hz_set :: "hz_sys \<Rightarrow> ptr \<Rightarrow> hazard_record \<Rightarrow> hz_sys" where
  "hz_set s p r \<equiv> s\<lparr>hz_recs := (hz_recs s)(p \<mapsto> r)\<rparr>"

text \<open>\<open>m\<close> is the number of pointers a scan finds in the record it is at.\<close>

definition hz_next :: "u64 \<Rightarrow> tid \<Rightarrow> u64 \<Rightarrow> hz_sys \<Rightarrow> hz_sys option" where
  "hz_next K t m s =
     (case hz_pc s t of
        H_idle \<Rightarrow> None
      | H_head ret \<Rightarrow> do {
          let cur_head = hz_head s;
          r \<leftarrow> hz_recs s ret;
          Some (hz_set (hz_goto s t (H_count ret cur_head cur_head 1)) ret (r\<lparr>hr_next := cur_head\<rparr>))
        }
      | H_count ret cur_head cur threads \<Rightarrow> do {
          r \<leftarrow> hz_recs s ret;
          if cur \<noteq> NULL then do {
            c \<leftarrow> hz_recs s cur;
            Some ((hz_goto s t (H_count ret cur_head (hr_next c) (threads + 1)))
              \<lparr>hz_bad := hz_bad s \<or> hr_hazard_pointers_count c \<noteq> hr_hazard_pointers_count r\<rparr>)
          }
          else Some (hz_set (hz_goto s t (H_cas ret cur_head)) ret (r\<lparr>hr_retire_threshold := 2 * threads * K\<rparr>))
        }
      | H_cas ret cur_head \<Rightarrow>
          (case sync_bool_compare_and_swap (hz_head s) cur_head ret of
             (True, head') \<Rightarrow> do {
               r \<leftarrow> hz_recs s ret;
               Some ((hz_goto s t (H_raise ret (hr_next r)))\<lparr>hz_head := head', hz_list := ret # hz_list s\<rparr>)
             }
           | (False, _) \<Rightarrow> Some (hz_goto s t (H_head ret)))
      | H_raise ret cur \<Rightarrow>
          if cur \<noteq> NULL then do {
            c \<leftarrow> hz_recs s cur;
            Some (hz_set (hz_goto s t (H_raise ret (hr_next c))) cur
              (c\<lparr>hr_retire_threshold := hr_retire_threshold c + 2 * hr_hazard_pointers_count c\<rparr>))
          }
          else Some (hz_goto s t H_idle)
      | S_head \<Rightarrow> Some (hz_goto s t (S_max (hz_head s)))
      | S_max head \<Rightarrow> do {
          c \<leftarrow> hz_recs s head;
          Some (hz_goto s t (S_walk head 0 (hr_retire_threshold c div 2)))
        }
      | S_walk cur index max_pointers \<Rightarrow>
          if cur \<noteq> NULL then do {
            c \<leftarrow> hz_recs s cur;
            c_assert (m \<le> hr_hazard_pointers_count c);
            Some ((hz_goto s t (S_walk (hr_next c) (index + m) max_pointers))
              \<lparr>hz_bad := hz_bad s \<or> \<not> index < max_pointers \<or> unat index + unat m > unat max_pointers\<rparr>)
          }
          else Some (hz_goto s t H_idle))"

text \<open>What can happen next: a thread joins with the record \<open>calloc\<close> returned at \<open>ret\<close>, a scan starts, or a step.\<close>

datatype hz_act = Call_create tid ptr | Call_scan tid | Hgo tid u64

definition new_record :: "ptr \<Rightarrow> u64 \<Rightarrow> hazard_record" where
  "new_record head K = \<lparr>hr_head = head, hr_next = NULL, hr_retire_threshold = 0, hr_retired_count = 0,
     hr_retired_list = NULL, hr_plist_size = 0, hr_plist = None, hr_hazard_pointers_count = K,
     hr_hazard_pointers = replicate (unat K) NULL\<rparr>"

fun hz_do :: "ptr \<Rightarrow> u64 \<Rightarrow> hz_act \<Rightarrow> hz_sys \<Rightarrow> hz_sys option" where
  "hz_do a K (Call_create t ret) s =
     (if hz_pc s t = H_idle \<and> K \<noteq> 0 \<and> ret \<noteq> NULL \<and> hz_recs s ret = None
      then Some (hz_set (hz_goto s t (H_head ret)) ret (new_record a K)) else None)"
| "hz_do a K (Call_scan t) s =
     (if hz_pc s t = H_idle \<and> hz_head s \<noteq> NULL then Some (hz_goto s t S_head) else None)"
| "hz_do a K (Hgo t m) s = hz_next K t m s"

inductive hz_step :: "ptr \<Rightarrow> u64 \<Rightarrow> hz_sys \<Rightarrow> hz_sys \<Rightarrow> bool" for a K where
  hz_stepI: "hz_do a K act s = Some s' \<Longrightarrow> hz_step a K s s'"

inductive_cases hz_stepE: "hz_step a K s s'"

definition hz_start :: hz_sys where
  "hz_start = \<lparr>hz_recs = Map.empty, hz_head = NULL, hz_pc = (\<lambda>_. H_idle), hz_bad = False, hz_list = []\<rparr>"

definition hz_init :: "hz_sys \<Rightarrow> bool" where
  "hz_init s \<longleftrightarrow> s = hz_start"

fun hz_run :: "ptr \<Rightarrow> u64 \<Rightarrow> hz_act list \<Rightarrow> hz_sys \<Rightarrow> hz_sys option" where
  "hz_run a K [] s = Some s"
| "hz_run a K (x # xs) s = Option.bind (hz_do a K x s) (hz_run a K xs)"

lemma hz_run_reach:
  "hz_run a K xs s = Some s' \<Longrightarrow> reach init (hz_step a K) s \<Longrightarrow> reach init (hz_step a K) s'"
proof (induction xs arbitrary: s)
  case (Cons x xs)
  then obtain s1 where "hz_do a K x s = Some s1" "hz_run a K xs s1 = Some s'"
    by (auto split: bind_splits)
  then show ?case
    using Cons reach_step hz_stepI by metis
qed simp

section \<open>The invariant\<close>

fun joining :: "hz_pc \<Rightarrow> ptr set" where
  "joining (H_head r) = {r}"
| "joining (H_count r _ _ _) = {r}"
| "joining (H_cas r _) = {r}"
| "joining _ = {}"

text \<open>The records whose thresholds a thread that has joined has yet to raise.\<close>

fun to_raise :: "(ptr \<Rightarrow> hazard_record option) \<Rightarrow> hz_pc \<Rightarrow> ptr set" where
  "to_raise recs (H_raise r cur) = {x. \<exists>ys. records recs cur ys \<and> x \<in> set ys}"
| "to_raise recs _ = {}"

definition raisers :: "hz_sys \<Rightarrow> ptr \<Rightarrow> tid set" where
  "raisers s x = {t. x \<in> to_raise (hz_recs s) (hz_pc s t)}"

fun hpc_ok :: "(ptr \<Rightarrow> hazard_record option) \<Rightarrow> ptr list \<Rightarrow> u64 \<Rightarrow> hz_pc \<Rightarrow> bool" where
  "hpc_ok recs L K (H_count r h cur th) \<longleftrightarrow> hr_next (the (recs r)) = h \<and> (\<exists>ys zs. records recs h (ys @ zs)
     \<and> records recs cur zs \<and> set (ys @ zs) \<subseteq> set L \<and> th = 1 + of_nat (length ys))"
| "hpc_ok recs L K (H_cas r h) \<longleftrightarrow> hr_next (the (recs r)) = h \<and> (\<exists>ys. records recs h ys
     \<and> set ys \<subseteq> set L \<and> hr_retire_threshold (the (recs r)) = 2 * (1 + of_nat (length ys)) * K)"
| "hpc_ok recs L K (H_raise r cur) \<longleftrightarrow> (\<exists>xs ys. L = xs @ ys \<and> r \<in> set xs \<and> records recs cur ys)"
| "hpc_ok recs L K (S_max h) \<longleftrightarrow> (\<exists>xs ys. L = xs @ ys \<and> ys \<noteq> [] \<and> records recs h ys)"
| "hpc_ok recs L K (S_walk cur i mx) \<longleftrightarrow> (\<exists>ys. records recs cur ys \<and> set ys \<subseteq> set L
     \<and> unat i + length ys * unat K \<le> unat mx)"
| "hpc_ok recs L K _ \<longleftrightarrow> True"

text \<open>A threshold lacks what the threads that have joined since have not added yet.\<close>

definition thresholds :: "u64 \<Rightarrow> hz_sys \<Rightarrow> bool" where
  "thresholds K s \<longleftrightarrow> (\<forall>x \<in> set (hz_list s). hr_retire_threshold (the (hz_recs s x)) + of_nat (card (raisers s x)) * (2 * K)
     = of_nat (length (hz_list s)) * (2 * K))"

definition hz_inv :: "u64 \<Rightarrow> hz_sys \<Rightarrow> bool" where
  "hz_inv K s \<longleftrightarrow> records (hz_recs s) (hz_head s) (hz_list s) \<and> distinct (hz_list s) \<and> \<not> hz_bad s
     \<and> (\<forall>x. hz_recs s x \<noteq> None \<longrightarrow> hr_hazard_pointers_count (the (hz_recs s x)) = K)
     \<and> finite {t. hz_pc s t \<noteq> H_idle}
     \<and> (\<forall>t. \<forall>r \<in> joining (hz_pc s t). r \<noteq> NULL \<and> hz_recs s r \<noteq> None \<and> r \<notin> set (hz_list s))
     \<and> (\<forall>t u. t \<noteq> u \<longrightarrow> joining (hz_pc s t) \<inter> joining (hz_pc s u) = {})
     \<and> (\<forall>t u r a b. hz_pc s t = H_raise r a \<longrightarrow> hz_pc s u = H_raise r b \<longrightarrow> t = u)
     \<and> (\<forall>t. hpc_ok (hz_recs s) (hz_list s) K (hz_pc s t)) \<and> (hz_head s = NULL \<longrightarrow> (\<forall>t. hz_pc s t \<noteq> S_head))
     \<and> thresholds K s"

lemma hz_invD:
  assumes "hz_inv K s"
  shows "records (hz_recs s) (hz_head s) (hz_list s)" "distinct (hz_list s)" "\<not> hz_bad s"
    "hz_recs s x = Some r \<Longrightarrow> hr_hazard_pointers_count r = K" "finite {t. hz_pc s t \<noteq> H_idle}"
    "x \<in> joining (hz_pc s t) \<Longrightarrow> x \<noteq> NULL \<and> (\<exists>r. hz_recs s x = Some r) \<and> x \<notin> set (hz_list s)"
    "t \<noteq> u \<Longrightarrow> joining (hz_pc s t) \<inter> joining (hz_pc s u) = {}"
    "hz_pc s t = H_raise x a \<Longrightarrow> hz_pc s u = H_raise x b \<Longrightarrow> t = u"
    "hpc_ok (hz_recs s) (hz_list s) K (hz_pc s t)" "hz_pc s t = S_head \<Longrightarrow> hz_head s \<noteq> NULL"
    "thresholds K s"
  using assms unfolding hz_inv_def by (auto 0 3)

lemma records_unique: "records recs p xs \<Longrightarrow> records recs p ys \<Longrightarrow> xs = ys"
proof (induction xs arbitrary: p ys)
  case (Cons x xs)
  then show ?case by (cases ys) (auto split: option.splits)
next
  case Nil
  then show ?case by (cases ys) auto
qed

lemma records_suffix: "records recs p (xs @ ys) \<Longrightarrow> \<exists>q. records recs q ys"
  by (induction xs arbitrary: p) (auto split: option.splits)

lemma records_same:
  assumes "records recs p ys" and "\<forall>q \<in> set L. map_option hr_next (recs' q) = map_option hr_next (recs q)" and "set ys \<subseteq> set L"
  shows "records recs' p ys"
  using assms records_frame [of ys recs' recs p] by auto

lemma to_raise_eq: "records recs cur ys \<Longrightarrow> to_raise recs (H_raise r cur) = set ys"
  by (auto dest: records_unique)

lemma hpc_ok_frame:
  assumes ok: "hpc_ok recs L K c" and same: "\<forall>q \<in> set L. map_option hr_next (recs' q) = map_option hr_next (recs q)"
    and own: "\<forall>q \<in> joining c. recs' q = recs q" and L': "L' = L \<or> L' = x # L"
  shows "hpc_ok recs' L' K c"
proof (cases c)
  case (H_count r h cur th)
  then obtain ys zs where "records recs h (ys @ zs)" "records recs cur zs" "set (ys @ zs) \<subseteq> set L" "th = 1 + of_nat (length ys)"
      "hr_next (the (recs r)) = h"
    using ok by auto
  moreover from this have "records recs' h (ys @ zs)" "records recs' cur zs"
    using records_same [OF _ same] by auto
  ultimately show ?thesis
    unfolding H_count hpc_ok.simps using own L' H_count
    by (intro conjI exI [of _ ys] exI [of _ zs]) auto
next
  case (H_cas r h)
  then obtain ys where "records recs h ys" "set ys \<subseteq> set L" "hr_retire_threshold (the (recs r)) = 2 * (1 + of_nat (length ys)) * K"
      "hr_next (the (recs r)) = h"
    using ok by auto
  moreover from this have "records recs' h ys"
    using records_same [OF _ same] by auto
  ultimately show ?thesis
    unfolding H_cas hpc_ok.simps using own L' H_cas by (intro conjI exI [of _ ys]) auto
next
  case (H_raise r cur)
  then obtain xs ys where ys: "L = xs @ ys" "r \<in> set xs" "records recs cur ys"
    using ok by auto
  then have "records recs' cur ys"
    using records_same [OF _ same] by auto
  moreover have "L' = xs @ ys \<or> L' = (x # xs) @ ys"
    using ys(1) L' by auto
  ultimately show ?thesis
    using ys(2) H_raise by (metis hpc_ok.simps(3) list.set_intros(2))
next
  case (S_max h)
  then obtain xs ys where ys: "L = xs @ ys" "ys \<noteq> []" "records recs h ys"
    using ok by auto
  then have "records recs' h ys"
    using records_same [OF _ same] by auto
  moreover have "L' = xs @ ys \<or> L' = (x # xs) @ ys"
    using ys(1) L' by auto
  ultimately show ?thesis
    using ys(2) S_max by (metis hpc_ok.simps(4))
next
  case (S_walk cur i mx)
  then obtain ys where "records recs cur ys" "set ys \<subseteq> set L" "unat i + length ys * unat K \<le> unat mx"
    using ok by auto
  moreover from this have "records recs' cur ys"
    using records_same [OF _ same] by auto
  ultimately show ?thesis
    unfolding S_walk hpc_ok.simps using L' by (intro exI [of _ ys]) auto
qed simp_all

text \<open>One thread moves.\<close>

lemma raisers_move:
  assumes inv: "hz_inv K s" and others: "\<forall>u. u \<noteq> t \<longrightarrow> hz_pc s' u = hz_pc s u"
    and same: "\<forall>q \<in> set (hz_list s). map_option hr_next (hz_recs s' q) = map_option hr_next (hz_recs s q)"
  shows "raisers s' x = (raisers s x - {t}) \<union> (if x \<in> to_raise (hz_recs s') (hz_pc s' t) then {t} else {})"
proof -
  have "to_raise (hz_recs s') (hz_pc s u) = to_raise (hz_recs s) (hz_pc s u)" for u
  proof (cases "hz_pc s u")
    case (H_raise r cur)
    then obtain ys where ys: "records (hz_recs s) cur ys" "set ys \<subseteq> set (hz_list s)"
      using hz_invD(9) [OF inv, of u] by auto
    then have "records (hz_recs s') cur ys"
      using records_same [OF _ same] by auto
    with ys(1) show ?thesis
      by (simp only: H_raise to_raise_eq)
  qed simp_all
  then have "u \<in> raisers s' x \<longleftrightarrow> u \<in> (raisers s x - {t}) \<union> (if x \<in> to_raise (hz_recs s') (hz_pc s' t) then {t} else {})" for u
    using others unfolding raisers_def by (cases "u = t") simp_all
  then show ?thesis
    by blast
qed

lemma hz_move:
  assumes inv: "hz_inv K s" and others: "\<forall>u. u \<noteq> t \<longrightarrow> hz_pc s' u = hz_pc s u"
    and L: "hz_list s' = hz_list s \<or> (\<exists>x. hz_list s' = x # hz_list s \<and> x \<in> joining (hz_pc s t))"
    and head: "records (hz_recs s') (hz_head s') (hz_list s')"
    and same: "\<forall>q \<in> set (hz_list s). map_option hr_next (hz_recs s' q) = map_option hr_next (hz_recs s q)"
    and alloc: "\<forall>q. q \<notin> joining (hz_pc s t) \<longrightarrow> q \<notin> set (hz_list s) \<longrightarrow> hz_recs s q \<noteq> None \<longrightarrow> hz_recs s' q = hz_recs s q"
    and count: "\<forall>x r. hz_recs s' x = Some r \<longrightarrow> hr_hazard_pointers_count r = K"
    and join: "\<forall>r \<in> joining (hz_pc s' t). r \<noteq> NULL \<and> hz_recs s' r \<noteq> None \<and> r \<notin> set (hz_list s') \<and> (r \<in> joining (hz_pc s t) \<or> hz_recs s r = None)"
    and raise: "\<forall>r a. hz_pc s' t = H_raise r a \<longrightarrow> (\<exists>b. hz_pc s t = H_raise r b) \<or> r \<in> joining (hz_pc s t)"
    and ok: "hpc_ok (hz_recs s') (hz_list s') K (hz_pc s' t)" "\<not> hz_bad s'"
    and scan: "hz_pc s' t = S_head \<longrightarrow> hz_head s' \<noteq> NULL"
    and thr: "thresholds K s'"
  shows "hz_inv K s'"
proof -
  note D = hz_invD [OF inv]
  have away: "x \<notin> joining (hz_pc s' t)" "x \<notin> set (hz_list s')" "x \<noteq> NULL" "hz_recs s' x = hz_recs s x" "hz_recs s x \<noteq> None"
    if "u \<noteq> t" "x \<in> joining (hz_pc s u)" for u x
  proof -
    have "x \<notin> joining (hz_pc s t)" "x \<notin> set (hz_list s)" "x \<noteq> NULL" "hz_recs s x \<noteq> None"
      using D(6) [OF that(2)] D(7) [OF that(1)] that(2) by auto
    then show "x \<notin> joining (hz_pc s' t)" "x \<notin> set (hz_list s')" "x \<noteq> NULL" "hz_recs s' x = hz_recs s x" "hz_recs s x \<noteq> None"
      using join alloc L by auto
  qed
  have "{u. hz_pc s' u \<noteq> H_idle} \<subseteq> insert t {u. hz_pc s u \<noteq> H_idle}"
    using others by auto
  then have "finite {u. hz_pc s' u \<noteq> H_idle}"
    using D(5) finite_subset by blast
  moreover have "x \<noteq> NULL \<and> hz_recs s' x \<noteq> None \<and> x \<notin> set (hz_list s')" if "x \<in> joining (hz_pc s' u)" for u x
    using that join others away [of u x] by (cases "u = t") auto
  moreover have "joining (hz_pc s' u) \<inter> joining (hz_pc s' v) = {}" if "u \<noteq> v" for u v
    using that D(7) [OF that] others away(1) by (cases "u = t"; cases "v = t") auto
  moreover have "u = v" if "hz_pc s' u = H_raise r a" "hz_pc s' v = H_raise r b" for u v r a b
  proof (rule ccontr)
    assume "u \<noteq> v"
    have in_list: "r \<in> set (hz_list s)" if "hz_pc s w = H_raise r c" for w c
      using D(9) [of w] that by auto
    have mine: False if "w \<noteq> t" "hz_pc s' w = H_raise r c" "hz_pc s' t = H_raise r d" for w c d
    proof -
      have w: "hz_pc s w = H_raise r c"
        using that(1,2) others by simp
      then show False
        using raise that(1,3) D(8) [OF w] D(6) [of r t] in_list [OF w] by blast
    qed
    then show False
      using that others D(8) [of u r a v b] \<open>u \<noteq> v\<close> by (cases "u = t"; cases "v = t") auto
  qed
  moreover have "hpc_ok (hz_recs s') (hz_list s') K (hz_pc s' u)" for u
  proof (cases "u = t")
    case False
    then show ?thesis
      using hpc_ok_frame [OF D(9) [of u] same] away(4) [of u] L others by auto
  qed (simp add: ok)
  moreover have "distinct (hz_list s')"
    using D(2,6) L by auto
  moreover have "hz_head s' \<noteq> NULL" if "hz_pc s' u = S_head" for u
  proof (cases "u = t")
    case False
    then have "hz_list s \<noteq> []"
      using that others D(1,10) by (cases "hz_list s") auto
    then show ?thesis
      using L head by (cases "hz_list s'") auto
  qed (use scan that in simp)
  ultimately show ?thesis
    using ok head count thr unfolding hz_inv_def by auto
qed


section \<open>The steps\<close>

lemma raisers_finite: "hz_inv K s \<Longrightarrow> finite (raisers s x)"
  by (rule finite_subset [OF _ hz_invD(5)]) (auto simp: raisers_def)

lemma raisersE:
  assumes "t \<in> raisers s x"
  obtains r cur where "hz_pc s t = H_raise r cur" "x \<in> to_raise (hz_recs s) (H_raise r cur)"
  using assms by (cases "hz_pc s t") (auto simp: raisers_def simp del: to_raise.simps(1))

lemma raisers_listed:
  assumes "hz_inv K s" and "t \<in> raisers s x"
  shows "x \<in> set (hz_list s)"
proof -
  obtain r cur where pc: "hz_pc s t = H_raise r cur" "x \<in> to_raise (hz_recs s) (H_raise r cur)"
    using assms(2) by (rule raisersE)
  then obtain xs ys where "hz_list s = xs @ ys" "records (hz_recs s) cur ys"
    using hz_invD(9) [OF assms(1), of t] by auto
  with pc(2) show ?thesis
    by (simp only: to_raise_eq) simp
qed

lemma thresholds_keep:
  assumes inv: "hz_inv K s" and "\<forall>u. u \<noteq> t \<longrightarrow> hz_pc s' u = hz_pc s u"
    and "\<forall>q \<in> set (hz_list s). map_option hr_next (hz_recs s' q) = map_option hr_next (hz_recs s q)"
    and "hz_list s' = hz_list s" and "to_raise (hz_recs s) (hz_pc s t) = {}" and "to_raise (hz_recs s') (hz_pc s' t) = {}"
    and "\<forall>q \<in> set (hz_list s). hr_retire_threshold (the (hz_recs s' q)) = hr_retire_threshold (the (hz_recs s q))"
  shows "thresholds K s'"
proof -
  have "raisers s' x = raisers s x" for x
    using raisers_move [OF inv assms(2,3), of x] assms(5,6) by (auto simp: raisers_def)
  then show ?thesis
    using hz_invD(11) [OF inv] assms(4,7) by (simp add: thresholds_def)
qed

text \<open>A step that only moves on, or writes to the thread's own record.\<close>

lemma hz_local:
  assumes inv: "hz_inv K s" and s': "s' = (hz_goto s t c)\<lparr>hz_recs := recs', hz_bad := False\<rparr>"
    and recs: "\<forall>q. q \<notin> joining (hz_pc s t) \<longrightarrow> recs' q = hz_recs s q"
    and count: "\<forall>x r. recs' x = Some r \<longrightarrow> hr_hazard_pointers_count r = K"
    and own: "joining c \<subseteq> joining (hz_pc s t)" "\<forall>r \<in> joining c. recs' r \<noteq> None"
    and pcs: "case c of H_raise _ _ \<Rightarrow> False | S_head \<Rightarrow> hz_head s \<noteq> NULL | _ \<Rightarrow> True"
    and rs: "to_raise (hz_recs s) (hz_pc s t) = {}"
    and ok: "hpc_ok recs' (hz_list s) K c"
  shows "hz_inv K s'"
proof (rule hz_move [OF inv, of t])
  note D = hz_invD [OF inv]
  have in_list: "recs' q = hz_recs s q" if "q \<in> set (hz_list s)" for q
    using recs D(6) [of q t] that by blast
  then show same: "\<forall>q \<in> set (hz_list s). map_option hr_next (hz_recs s' q) = map_option hr_next (hz_recs s q)"
    by (simp add: s')
  show "records (hz_recs s') (hz_head s') (hz_list s')"
    using records_same [OF D(1) same] by (simp add: s')
  show "\<forall>r \<in> joining (hz_pc s' t). r \<noteq> NULL \<and> hz_recs s' r \<noteq> None \<and> r \<notin> set (hz_list s') \<and> (r \<in> joining (hz_pc s t) \<or> hz_recs s r = None)"
    using own D(6) [of _ t] by (auto simp: s')
  have "to_raise recs' c = {}" "c = S_head \<longrightarrow> hz_head s \<noteq> NULL" "\<And>r a. c \<noteq> H_raise r a"
    using pcs by (auto split: hz_pc.splits)
  then show "thresholds K s'" "hz_pc s' t = S_head \<longrightarrow> hz_head s' \<noteq> NULL"
      "\<forall>r a. hz_pc s' t = H_raise r a \<longrightarrow> (\<exists>b. hz_pc s t = H_raise r b) \<or> r \<in> joining (hz_pc s t)"
    using rs in_list by (auto simp: s' intro!: thresholds_keep [OF inv, of t])
  show "\<forall>q. q \<notin> joining (hz_pc s t) \<longrightarrow> q \<notin> set (hz_list s) \<longrightarrow> hz_recs s q \<noteq> None \<longrightarrow> hz_recs s' q = hz_recs s q"
    using recs by (simp add: s')
qed (use count ok in \<open>simp_all add: s'\<close>)

lemma hz_push:
  assumes inv: "hz_inv K s" and pc: "hz_pc s t = H_cas ret h" and h: "hz_head s = h" and r: "hz_recs s ret = Some r"
    and s': "s' = (hz_goto s t (H_raise ret (hr_next r)))\<lparr>hz_head := ret, hz_list := ret # hz_list s\<rparr>"
  shows "hz_inv K s'"
proof (rule hz_move [OF inv, of t])
  note D = hz_invD [OF inv]
  have ret: "ret \<noteq> NULL" "ret \<notin> set (hz_list s)"
    using D(6) [of ret t] pc by auto
  obtain ys where ys: "records (hz_recs s) h ys" "hr_retire_threshold r = 2 * (1 + of_nat (length ys)) * K" "hr_next r = h"
    using D(9) [of t] pc r by auto
  have L: "ys = hz_list s"
    using records_unique [OF ys(1)] D(1) h by simp
  show same: "\<forall>q \<in> set (hz_list s). map_option hr_next (hz_recs s' q) = map_option hr_next (hz_recs s q)"
    by (simp add: s')
  show "records (hz_recs s') (hz_head s') (hz_list s')"
    using D(1) r ret ys(3) h by (simp add: s')
  have raise: "to_raise (hz_recs s') (hz_pc s' t) = set (hz_list s)"
    using to_raise_eq [OF D(1), of ret] h ys(3) by (simp add: s')
  have "raisers s' x = (raisers s x - {t}) \<union> (if x \<in> to_raise (hz_recs s') (hz_pc s' t) then {t} else {})" for x
    using same by (intro raisers_move [OF inv]) (simp_all add: s')
  moreover have "t \<notin> raisers s x" for x
    using pc by (simp add: raisers_def)
  ultimately have rs: "raisers s' x = (if x \<in> set (hz_list s) then insert t (raisers s x) else raisers s x)" for x
    by (auto simp: raise)
  have "raisers s ret = {}"
    using raisers_listed [OF inv] ret(2) by blast
  show "thresholds K s'"
    unfolding thresholds_def
  proof
    fix x
    assume x: "x \<in> set (hz_list s')"
    show "hr_retire_threshold (the (hz_recs s' x)) + of_nat (card (raisers s' x)) * (2 * K) = of_nat (length (hz_list s')) * (2 * K)"
    proof (cases "x = ret")
      case True
      then show ?thesis
        using ret(2) \<open>raisers s ret = {}\<close> r ys(2) L by (simp add: rs) (simp add: s' algebra_simps)
    next
      case False
      then have "x \<in> set (hz_list s)"
        using x by (simp add: s')
      moreover have "card (insert t (raisers s x)) = Suc (card (raisers s x))"
        using raisers_finite [OF inv] \<open>t \<notin> raisers s x\<close> by simp
      ultimately show ?thesis
        using D(11) by (simp add: rs thresholds_def) (simp add: s' algebra_simps)
    qed
  qed
  show "hpc_ok (hz_recs s') (hz_list s') K (hz_pc s' t)"
  proof -
    have "hz_pc s' t = H_raise ret h" "hz_list s' = [ret] @ hz_list s" "hz_recs s' = hz_recs s"
      by (simp_all add: s' ys(3))
    then show ?thesis
      using D(1) h unfolding hpc_ok.simps by (metis hpc_ok.simps(3) list.set_intros(1))
  qed
  show "hz_list s' = hz_list s \<or> (\<exists>x. hz_list s' = x # hz_list s \<and> x \<in> joining (hz_pc s t))"
    using pc by (simp add: s')
  show "\<not> hz_bad s'" "\<forall>x r. hz_recs s' x = Some r \<longrightarrow> hr_hazard_pointers_count r = K"
    using D(3,4) by (simp_all add: s')
qed (use pc in \<open>simp_all add: s'\<close>)

lemma hz_raise:
  assumes inv: "hz_inv K s" and pc: "hz_pc s t = H_raise ret cur" and cur: "cur \<noteq> NULL" "hz_recs s cur = Some c"
    and s': "s' = hz_set (hz_goto s t (H_raise ret (hr_next c))) cur
      (c\<lparr>hr_retire_threshold := hr_retire_threshold c + 2 * hr_hazard_pointers_count c\<rparr>)"
  shows "hz_inv K s'"
proof (rule hz_move [OF inv, of t])
  note D = hz_invD [OF inv]
  have K: "hr_hazard_pointers_count c = K"
    by (rule D(4) [OF cur(2)])
  obtain xs ys0 where ys0: "hz_list s = xs @ ys0" "ret \<in> set xs" "records (hz_recs s) cur ys0"
    using D(9) [of t] pc by auto
  then obtain ys where ys: "ys0 = cur # ys" "records (hz_recs s) (hr_next c) ys"
    using cur by (cases ys0) auto
  have cur_L: "cur \<in> set (hz_list s)" and cur_ys: "cur \<notin> set ys"
    using ys0(1) ys(1) D(2) by auto
  show same: "\<forall>q \<in> set (hz_list s). map_option hr_next (hz_recs s' q) = map_option hr_next (hz_recs s q)"
    using cur by (simp add: s')
  have st': "hz_head s' = hz_head s" "hz_list s' = hz_list s"
    by (simp_all add: s')
  show "records (hz_recs s') (hz_head s') (hz_list s')"
    unfolding st' by (rule records_same [OF D(1) same]) simp
  have ys': "records (hz_recs s') (hr_next c) ys"
    using records_same [OF ys(2) same] ys0(1) ys(1) by auto
  have before: "to_raise (hz_recs s) (hz_pc s t) = set ys0"
    unfolding pc using to_raise_eq [OF ys0(3)] .
  have after: "to_raise (hz_recs s') (hz_pc s' t) = set ys"
    using to_raise_eq [OF ys', of ret] by (simp add: s')
  have "raisers s' x = (raisers s x - {t}) \<union> (if x \<in> to_raise (hz_recs s') (hz_pc s' t) then {t} else {})" for x
    using same by (intro raisers_move [OF inv]) (simp_all add: s')
  moreover have in_before: "t \<in> raisers s x \<longleftrightarrow> x \<in> set ys0" for x
    using before by (simp add: raisers_def)
  ultimately have rs: "raisers s' x = (if x = cur then raisers s x - {t} else raisers s x)" for x
    using ys(1) cur_ys by (auto simp: after)
  show "thresholds K s'"
    unfolding thresholds_def
  proof
    fix x
    assume x: "x \<in> set (hz_list s')"
    show "hr_retire_threshold (the (hz_recs s' x)) + of_nat (card (raisers s' x)) * (2 * K) = of_nat (length (hz_list s')) * (2 * K)"
    proof (cases "x = cur")
      case True
      have "card (raisers s cur) = Suc (card (raisers s cur - {t}))"
        using card.remove [OF raisers_finite [OF inv], of t cur] in_before [of cur] ys(1) by simp
      then show ?thesis
        using D(11) cur_L True K cur(2) by (simp add: rs thresholds_def) (auto simp: s' algebra_simps)
    next
      case False
      then show ?thesis
        using D(11) x by (simp add: rs thresholds_def) (simp add: s')
    qed
  qed
  show "hpc_ok (hz_recs s') (hz_list s') K (hz_pc s' t)"
  proof -
    have "hz_pc s' t = H_raise ret (hr_next c)" "hz_list s' = (xs @ [cur]) @ ys" "ret \<in> set (xs @ [cur])"
      using ys0(1,2) ys(1) by (simp_all add: s')
    then show ?thesis
      using ys' unfolding hpc_ok.simps by (metis hpc_ok.simps(3))
  qed
  show "\<not> hz_bad s'" "\<forall>x r. hz_recs s' x = Some r \<longrightarrow> hr_hazard_pointers_count r = K"
    using D(3,4) K by (simp_all add: s')
  show "\<forall>q. q \<notin> joining (hz_pc s t) \<longrightarrow> q \<notin> set (hz_list s) \<longrightarrow> hz_recs s q \<noteq> None \<longrightarrow> hz_recs s' q = hz_recs s q"
    using cur_L by (auto simp: s')
  show "\<forall>r a. hz_pc s' t = H_raise r a \<longrightarrow> (\<exists>b. hz_pc s t = H_raise r b) \<or> r \<in> joining (hz_pc s t)"
    using pc by (simp add: s')
qed (simp_all add: s')


text \<open>The threshold of a record covers all the records from it on, whoever is joining.\<close>

lemma raisers_above:
  assumes inv: "hz_inv K s" and L: "hz_list s = xs @ x # ys"
  shows "card (raisers s x) \<le> length xs"
proof -
  note D = hz_invD [OF inv]
  have "\<exists>r a. hz_pc s t = H_raise r a \<and> r \<in> set xs" if "t \<in> raisers s x" for t
  proof -
    note member = that
    obtain r cur where pc: "hz_pc s t = H_raise r cur" "x \<in> to_raise (hz_recs s) (H_raise r cur)"
      by (rule raisersE [OF member])
    obtain us vs where us: "hz_list s = us @ vs" "r \<in> set us" "records (hz_recs s) cur vs"
      using D(9) [of t] pc(1) by auto
    have "x \<in> set vs"
      using pc(2) us(3) by (simp only: to_raise_eq)
    have "length us \<le> length xs"
    proof (rule ccontr)
      assume "\<not> length us \<le> length xs"
      then have "(us @ vs) ! length xs \<in> set us"
        by (simp add: nth_append)
      moreover have eq: "us @ vs = xs @ x # ys"
        using L us(1) by simp
      have "(us @ vs) ! length xs = x"
        unfolding eq by simp
      ultimately have "x \<in> set us"
        by simp
      with \<open>x \<in> set vs\<close> show False
        using D(2) us(1) by auto
    qed
    then have "set us \<subseteq> set xs"
      using L us(1) by (metis append_eq_append_conv_if set_take_subset)
    with us(2) pc(1) show ?thesis
      by blast
  qed
  then obtain f where f: "\<And>t. t \<in> raisers s x \<Longrightarrow> (\<exists>a. hz_pc s t = H_raise (f t) a) \<and> f t \<in> set xs"
    by metis
  have "inj_on f (raisers s x)"
    using f D(8) by (metis inj_onI)
  then have "card (raisers s x) \<le> card (set xs)"
    using f by (intro card_inj_on_le) auto
  then show ?thesis
    using card_length order_trans by blast
qed

lemma threshold_covers:
  assumes inv: "hz_inv K s" and L: "hz_list s = xs @ x # ys" and bound: "2 * length (hz_list s) * unat K < 2 ^ 64"
  shows "unat (hr_retire_threshold (the (hz_recs s x))) = 2 * (length (hz_list s) - card (raisers s x)) * unat K"
    and "length (x # ys) * unat K \<le> unat (hr_retire_threshold (the (hz_recs s x)) div 2)"
proof -
  let ?thr = "hr_retire_threshold (the (hz_recs s x))" and ?N = "length (hz_list s)" and ?c = "card (raisers s x)"
  have c: "?c \<le> length xs"
    by (rule raisers_above [OF inv L])
  then have "?N = (?N - ?c) + ?c"
    using L by simp
  then have "of_nat ?N = (of_nat (?N - ?c) + of_nat ?c :: u64)"
    by (simp flip: of_nat_add)
  then have "of_nat ?N * (2 * K) = of_nat (?N - ?c) * (2 * K) + of_nat ?c * (2 * K)"
    by (simp only: distrib_right)
  moreover have "?thr + of_nat ?c * (2 * K) = of_nat ?N * (2 * K)"
    using hz_invD(11) [OF inv] L by (simp add: thresholds_def)
  ultimately have "?thr = of_nat (?N - ?c) * (2 * K)"
    by simp
  then have thr: "?thr = of_nat (2 * (?N - ?c) * unat K)"
    by simp
  have "2 * (?N - ?c) * unat K \<le> 2 * ?N * unat K"
    by simp
  then show u: "unat ?thr = 2 * (?N - ?c) * unat K"
    using bound unfolding thr by (intro unat_of_nat_u64) linarith
  have "length (x # ys) \<le> ?N - ?c"
    using L c by simp
  then have "length (x # ys) * unat K \<le> (?N - ?c) * unat K"
    by (rule mult_le_mono1)
  then show "length (x # ys) * unat K \<le> unat (?thr div 2)"
    using u by (simp add: unat_div)
qed


lemma hz_list_mono: "hz_step a K s s' \<Longrightarrow> length (hz_list s) \<le> length (hz_list s')"
proof (elim hz_stepE)
  fix act assume "hz_do a K act s = Some s'"
  then show ?thesis
    by (cases act) (auto simp: hz_next_def Let_def split: if_splits hz_pc.splits prod.splits bool.splits bind_splits)
qed

lemma hz_inv_scan:
  assumes inv: "hz_inv K s" and K: "K \<noteq> 0" and bound: "2 * length (hz_list s) * unat K < 2 ^ 64"
    and step: "hz_next K t m s = Some s'"
    and pc: "case hz_pc s t of S_head \<Rightarrow> True | S_max _ \<Rightarrow> True | S_walk _ _ _ \<Rightarrow> True | _ \<Rightarrow> False"
  shows "hz_inv K s'"
proof -
  note D = hz_invD [OF inv]
  have clean: "s\<lparr>hz_bad := False\<rparr> = s"
    using D(3) by (cases s) simp
  have count: "\<forall>x r. hz_recs s x = Some r \<longrightarrow> hr_hazard_pointers_count r = K"
    using D(4) by blast
  show ?thesis
  proof (cases "hz_pc s t")
    case S_head
    then have "hz_list s \<noteq> []"
      using D(1,10) by (cases "hz_list s") auto
    then have "hpc_ok (hz_recs s) (hz_list s) K (S_max (hz_head s))"
      using D(1) unfolding hpc_ok.simps by (intro exI [of _ "[]"] exI [of _ "hz_list s"]) simp
    then show ?thesis
      using step S_head D(3) count
      by (intro hz_local [OF inv, where t = t and c = "S_max (hz_head s)" and recs' = "hz_recs s"]) (auto simp: hz_next_def)
  next
    case (S_max h)
    then obtain xs ys c where ys: "hz_list s = xs @ h # ys" "records (hz_recs s) h (h # ys)" "hz_recs s h = Some c"
      using D(9) [of t] by (auto simp: neq_Nil_conv split: option.splits)
    let ?c = "S_walk h 0 (hr_retire_threshold c div 2)"
    have "hpc_ok (hz_recs s) (hz_list s) K ?c"
      using threshold_covers(2) [OF inv ys(1) bound] ys unfolding hpc_ok.simps by (intro exI [of _ "h # ys"]) auto
    moreover have "s' = hz_goto s t ?c"
      using step S_max ys(3) by (simp add: hz_next_def)
    ultimately show ?thesis
      using S_max D(3) count by (intro hz_local [OF inv, where t = t and c = ?c and recs' = "hz_recs s"]) auto
  next
    case (S_walk cur i mx)
    then obtain ys where ys: "records (hz_recs s) cur ys" "set ys \<subseteq> set (hz_list s)" "unat i + length ys * unat K \<le> unat mx"
      using D(9) [of t] by auto
    show ?thesis
    proof (cases "cur = NULL")
      case True
      then show ?thesis
        using step S_walk D(3) count
        by (intro hz_local [OF inv, where t = t and c = H_idle and recs' = "hz_recs s"]) (auto simp: hz_next_def)
    next
      case False
      then obtain ys' c where c: "ys = cur # ys'" "hz_recs s cur = Some c" "records (hz_recs s) (hr_next c) ys'"
        using ys(1) by (cases ys) (auto split: option.splits)
      have m: "unat m \<le> unat K" and s': "s' = (hz_goto s t (S_walk (hr_next c) (i + m) mx))
          \<lparr>hz_bad := \<not> i < mx \<or> unat i + unat m > unat mx\<rparr>"
        using step S_walk False c(2) D(3) D(4) [OF c(2)]
        by (auto simp: hz_next_def c_assert_bind word_le_nat_alt split: if_splits)
      have le: "unat i + (unat K + length ys' * unat K) \<le> unat mx"
        using ys(3) by (simp add: c(1))
      moreover have "unat K > 0"
        using K by (simp add: unat_gt_0)
      ultimately have in_bounds: "i < mx" "unat i + unat m \<le> unat mx"
        using m unfolding word_less_nat_alt by linarith+
      have "unat i + unat m < 18446744073709551616"
        using in_bounds(2) unat_u64_less_numeral [of mx] by linarith
      then have "unat (i + m) = unat i + unat m"
        by (simp add: unat_word_ariths)
      then have "hpc_ok (hz_recs s) (hz_list s) K (S_walk (hr_next c) (i + m) mx)"
        using c ys(2) le m unfolding hpc_ok.simps by (intro exI [of _ ys']) auto
      then show ?thesis
        using S_walk D(3) count in_bounds
        by (intro hz_local [OF inv, where t = t and c = "S_walk (hr_next c) (i + m) mx" and recs' = "hz_recs s"]) (auto simp: s')
    qed
  qed (use pc in simp_all)
qed

lemma hz_inv_head:
  assumes inv: "hz_inv K s" and step: "hz_next K t m s = Some s'" and H_head: "hz_pc s t = H_head ret"
  shows "hz_inv K s'"
proof -
  note D = hz_invD [OF inv]
  have count: "\<forall>x r. hz_recs s x = Some r \<longrightarrow> hr_hazard_pointers_count r = K"
    using D(4) by blast
  from H_head obtain r where r: "hz_recs s ret = Some r" "ret \<notin> set (hz_list s)"
    using D(6) [of ret t] by auto
  let ?c = "H_count ret (hz_head s) (hz_head s) 1" and ?recs = "(hz_recs s)(ret \<mapsto> r\<lparr>hr_next := hz_head s\<rparr>)"
  have "records ?recs (hz_head s) (hz_list s)"
    using D(1) r(2) by simp
  then have "hpc_ok ?recs (hz_list s) K ?c"
    unfolding hpc_ok.simps by (intro conjI exI [of _ "[]"] exI [of _ "hz_list s"]) auto
  moreover have "s' = (hz_goto s t ?c)\<lparr>hz_recs := ?recs, hz_bad := False\<rparr>"
    using step H_head r(1) D(3) by (auto simp: hz_next_def Let_def)
  ultimately show ?thesis
    using H_head count r(1) by (intro hz_local [OF inv, where t = t and c = ?c and recs' = ?recs]) auto
qed

lemma hz_inv_count:
  assumes inv: "hz_inv K s" and step: "hz_next K t m s = Some s'" and H_count: "hz_pc s t = H_count ret h cur th"
  shows "hz_inv K s'"
proof -
  note D = hz_invD [OF inv]
  have count: "\<forall>x r. hz_recs s x = Some r \<longrightarrow> hr_hazard_pointers_count r = K"
    using D(4) by blast
  from H_count obtain r where r: "hz_recs s ret = Some r" "ret \<notin> set (hz_list s)"
    using D(6) [of ret t] by auto
  obtain ys zs where z: "hr_next r = h" "records (hz_recs s) h (ys @ zs)" "records (hz_recs s) cur zs"
      "set (ys @ zs) \<subseteq> set (hz_list s)" "th = 1 + of_nat (length ys)"
    using D(9) [of t] H_count r(1) by auto
  show ?thesis
  proof (cases "cur = NULL")
    case True
    then have zs: "zs = []"
      using z(3) by (cases zs) auto
    let ?recs = "(hz_recs s)(ret \<mapsto> r\<lparr>hr_retire_threshold := 2 * th * K\<rparr>)"
    have sub: "set ys \<subseteq> set (hz_list s)"
      using z(4) by simp
    then have "ret \<notin> set ys"
      using r(2) by blast
    then have "records ?recs h ys"
      using z(2) zs by simp
    then have "hpc_ok ?recs (hz_list s) K (H_cas ret h)"
      using z(1,5) sub unfolding hpc_ok.simps by (intro conjI exI [of _ ys]) simp_all
    moreover have "s' = (hz_goto s t (H_cas ret h))\<lparr>hz_recs := ?recs, hz_bad := False\<rparr>"
      using step H_count True r(1) D(3) by (auto simp: hz_next_def)
    ultimately show ?thesis
      using H_count count r(1) by (intro hz_local [OF inv, where t = t and c = "H_cas ret h" and recs' = ?recs]) auto
  next
    case False
    then obtain zs' c where c: "zs = cur # zs'" "hz_recs s cur = Some c" "records (hz_recs s) (hr_next c) zs'"
      using z(3) by (cases zs) (auto split: option.splits)
    let ?c = "H_count ret h (hr_next c) (th + 1)"
    have "records (hz_recs s) h ((ys @ [cur]) @ zs')" "set ((ys @ [cur]) @ zs') \<subseteq> set (hz_list s)"
        "th + 1 = 1 + of_nat (length (ys @ [cur]))"
      using z(2,4,5) c(1) by simp_all
    then have "hpc_ok (hz_recs s) (hz_list s) K ?c"
      using z(1) c(3) r(1) unfolding hpc_ok.simps by (intro conjI exI [of _ "ys @ [cur]"] exI [of _ zs']) simp_all
    moreover have "s' = (hz_goto s t ?c)\<lparr>hz_recs := hz_recs s, hz_bad := False\<rparr>"
      using step H_count False r(1) c(2) D(3) D(4) [OF c(2)] D(4) [OF r(1)] by (auto simp: hz_next_def)
    ultimately show ?thesis
      using H_count count r(1) by (intro hz_local [OF inv, where t = t and c = ?c and recs' = "hz_recs s"]) auto
  qed
qed

lemma hz_inv_raise:
  assumes inv: "hz_inv K s" and step: "hz_next K t m s = Some s'" and H_raise: "hz_pc s t = H_raise ret cur"
  shows "hz_inv K s'"
proof -
  note D = hz_invD [OF inv]
  have count: "\<forall>x r. hz_recs s x = Some r \<longrightarrow> hr_hazard_pointers_count r = K"
    using D(4) by blast
  show ?thesis
  proof (cases "cur = NULL")
    case True
    obtain ys where ys: "records (hz_recs s) cur ys"
      using D(9) [of t] H_raise by auto
    have "ys = []"
      using ys True by (cases ys) auto
    then have "to_raise (hz_recs s) (H_raise ret cur) = {}"
      using to_raise_eq [OF ys, of ret] by (simp only: list.set)
    moreover have "s' = (hz_goto s t H_idle)\<lparr>hz_recs := hz_recs s, hz_bad := False\<rparr>"
      using step H_raise True D(3) by (auto simp: hz_next_def)
    ultimately show ?thesis
      using H_raise count by (intro hz_local [OF inv, where t = t and c = H_idle and recs' = "hz_recs s"]) simp_all
  next
    case False
    then obtain c where "hz_recs s cur = Some c" "s' = hz_set (hz_goto s t (H_raise ret (hr_next c))) cur
        (c\<lparr>hr_retire_threshold := hr_retire_threshold c + 2 * hr_hazard_pointers_count c\<rparr>)"
      using step H_raise by (auto simp: hz_next_def split: bind_splits)
    then show ?thesis
      by (rule hz_raise [OF inv H_raise False])
  qed
qed

lemma hz_inv_join:
  assumes inv: "hz_inv K s" and step: "hz_next K t m s = Some s'"
    and pc: "case hz_pc s t of H_head _ \<Rightarrow> True | H_count _ _ _ _ \<Rightarrow> True | H_cas _ _ \<Rightarrow> True | H_raise _ _ \<Rightarrow> True | _ \<Rightarrow> False"
  shows "hz_inv K s'"
proof -
  note D = hz_invD [OF inv]
  have count: "\<forall>x r. hz_recs s x = Some r \<longrightarrow> hr_hazard_pointers_count r = K"
    using D(4) by blast
  show ?thesis
  proof (cases "hz_pc s t")
    case (H_head ret)
    then show ?thesis
      by (rule hz_inv_head [OF inv step])
  next
    case (H_count ret h cur th)
    then show ?thesis
      by (rule hz_inv_count [OF inv step])
  next
    case (H_cas ret h)
    then obtain r where r: "hz_recs s ret = Some r"
      using D(6) [of ret t] by auto
    show ?thesis
    proof (cases "hz_head s = h")
      case True
      then show ?thesis
        using step H_cas r by (intro hz_push [OF inv H_cas True r]) (auto simp: hz_next_def sync_bool_compare_and_swap_def)
    next
      case False
      then have "s' = (hz_goto s t (H_head ret))\<lparr>hz_recs := hz_recs s, hz_bad := False\<rparr>"
        using step H_cas D(3) by (auto simp: hz_next_def sync_bool_compare_and_swap_def)
      then show ?thesis
        using H_cas count r by (intro hz_local [OF inv, where t = t and c = "H_head ret" and recs' = "hz_recs s"]) auto
    qed
  next
    case (H_raise ret cur)
    then show ?thesis
      by (rule hz_inv_raise [OF inv step])
  qed (use pc in simp_all)
qed


lemma hz_inv_step:
  assumes inv: "hz_inv K s" and K: "K \<noteq> 0" and bound: "2 * length (hz_list s') * unat K < 2 ^ 64"
    and step: "hz_step a K s s'"
  shows "hz_inv K s'"
proof -
  note D = hz_invD [OF inv]
  obtain act where act: "hz_do a K act s = Some s'"
    using step by (auto elim: hz_stepE)
  have count: "\<forall>x r. hz_recs s x = Some r \<longrightarrow> hr_hazard_pointers_count r = K"
    using D(4) by blast
  show ?thesis
  proof (cases act)
    case (Call_create t ret)
    then have new: "hz_pc s t = H_idle" "ret \<noteq> NULL" "hz_recs s ret = None"
        "s' = hz_set (hz_goto s t (H_head ret)) ret (new_record a K)"
      using act by (auto split: if_splits)
    have "ret \<notin> set (hz_list s)"
      using records_alloc [OF D(1), of ret] new(3) by auto
    then have same: "\<forall>q \<in> set (hz_list s). hz_recs s' q = hz_recs s q"
      by (auto simp: new(4))
    have "records (hz_recs s') (hz_head s') (hz_list s')"
      using records_same [OF D(1), of "hz_list s" "hz_recs s'"] same by (simp add: new(4))
    moreover have "thresholds K s'"
      using same new by (intro thresholds_keep [OF inv, of t]) auto
    ultimately show ?thesis
      using same count new D(3) by (intro hz_move [OF inv, of t]) (auto simp: new_record_def)
  next
    case (Call_scan t)
    then have "hz_pc s t = H_idle" "hz_head s \<noteq> NULL" "s' = (hz_goto s t S_head)\<lparr>hz_recs := hz_recs s, hz_bad := False\<rparr>"
      using act D(3) by (auto split: if_splits)
    then show ?thesis
      using count by (intro hz_local [OF inv, where t = t and c = S_head and recs' = "hz_recs s"]) auto
  next
    case (Hgo t m)
    then have next': "hz_next K t m s = Some s'"
      using act by simp
    show ?thesis
    proof (cases "case hz_pc s t of S_head \<Rightarrow> True | S_max _ \<Rightarrow> True | S_walk _ _ _ \<Rightarrow> True | _ \<Rightarrow> False")
      case True
      have "length (hz_list s) \<le> length (hz_list s')"
        using hz_list_mono [OF step] .
      then have "2 * length (hz_list s) * unat K \<le> 2 * length (hz_list s') * unat K"
        by simp
      then show ?thesis
        using bound by (intro hz_inv_scan [OF inv K _ next' True]) linarith
    next
      case False
      have "hz_pc s t \<noteq> H_idle"
        using next' by (auto simp: hz_next_def)
      then show ?thesis
        using False by (intro hz_inv_join [OF inv next']) (auto split: hz_pc.splits)
    qed
  qed
qed

definition hz_bound :: "u64 \<Rightarrow> hz_sys \<Rightarrow> bool" where
  "hz_bound K s \<longleftrightarrow> 2 * length (hz_list s) * unat K < 2 ^ 64"

lemma hz_bound_back: "hz_step a K s s' \<Longrightarrow> hz_bound K s' \<Longrightarrow> hz_bound K s"
proof -
  assume "hz_step a K s s'" "hz_bound K s'"
  moreover from hz_list_mono [OF this(1)] have "2 * length (hz_list s) * unat K \<le> 2 * length (hz_list s') * unat K"
    by simp
  ultimately show ?thesis
    unfolding hz_bound_def by linarith
qed

interpretation hz_conc: bounded_invariant hz_init "hz_step a K" "hz_bound K" "\<lambda>s. K \<noteq> 0 \<longrightarrow> hz_inv K s" for a K
proof unfold_locales
  show "K \<noteq> 0 \<longrightarrow> hz_inv K s" if "hz_init s" for s
    using that by (simp add: hz_init_def hz_start_def hz_inv_def thresholds_def)
  show "hz_bound K s" if "hz_step a K s s'" "hz_bound K s'" for s s'
    by (rule hz_bound_back [OF that])
  show "K \<noteq> 0 \<longrightarrow> hz_inv K s'" if "K \<noteq> 0 \<longrightarrow> hz_inv K s" "hz_bound K s'" "hz_step a K s s'" for s s'
    using that hz_inv_step [of K s s' a] by (simp add: hz_bound_def)
qed

section \<open>Properties\<close>

text \<open>
  C36. While threads join and others scan, for fewer records than make \<open>2 * N * K\<close> overflow: the list holds every record
  that was swapped in, once; the threshold of each is at least \<open>2 * K\<close> for every record from it on and at most
  \<open>2 * N * K\<close>, and is \<open>2 * N * K\<close> when no thread is joining; and no scan fails an assertion or writes
  outside its scratch array, although it takes the size of the array from one read and the records from others.
\<close>

theorem hazard_pointer_registration:
  assumes "reach hz_init (hz_step a K) s" and "2 * length (hz_list s) * unat K < 2 ^ 64" and "K \<noteq> 0"
  shows "\<not> hz_bad s \<and> records (hz_recs s) (hz_head s) (hz_list s) \<and> distinct (hz_list s)
    \<and> (\<forall>xs x ys. hz_list s = xs @ x # ys \<longrightarrow>
        2 * length (x # ys) * unat K \<le> unat (hr_retire_threshold (the (hz_recs s x)))
      \<and> unat (hr_retire_threshold (the (hz_recs s x))) \<le> 2 * length (hz_list s) * unat K
      \<and> ((\<forall>t. case hz_pc s t of H_raise _ _ \<Rightarrow> False | _ \<Rightarrow> True) \<longrightarrow>
          unat (hr_retire_threshold (the (hz_recs s x))) = 2 * length (hz_list s) * unat K))"
proof (intro conjI allI impI)
  have inv: "hz_inv K s"
    using hz_conc.reach_inv [OF assms(1)] assms(2,3) by (simp add: hz_bound_def)
  note D = hz_invD [OF inv]
  show "\<not> hz_bad s" "records (hz_recs s) (hz_head s) (hz_list s)" "distinct (hz_list s)"
    by (rule D)+
  fix xs x ys
  assume L: "hz_list s = xs @ x # ys"
  note thr = threshold_covers(1) [OF inv L assms(2)] and above = raisers_above [OF inv L]
  have "length (x # ys) \<le> length (hz_list s) - card (raisers s x)"
    using L above by simp
  then show "2 * length (x # ys) * unat K \<le> unat (hr_retire_threshold (the (hz_recs s x)))"
    unfolding thr by (intro mult_le_mono1 mult_le_mono2)
  show "unat (hr_retire_threshold (the (hz_recs s x))) \<le> 2 * length (hz_list s) * unat K"
    unfolding thr by (intro mult_le_mono1 mult_le_mono2) simp
  assume idle: "\<forall>t. case hz_pc s t of H_raise _ _ \<Rightarrow> False | _ \<Rightarrow> True"
  have "t \<notin> raisers s x" for t
  proof
    assume "t \<in> raisers s x"
    then obtain r cur where "hz_pc s t = H_raise r cur"
      by (rule raisersE)
    then show False
      using idle [rule_format, of t] by simp
  qed
  then have "raisers s x = {}"
    by blast
  then show "unat (hr_retire_threshold (the (hz_recs s x))) = 2 * length (hz_list s) * unat K"
    unfolding thr by simp
qed

text \<open>Thread 1 joins while thread 0 has not raised anything yet; thread 2 scans from the older record.\<close>

theorem hazard_pointer_registration_witness:
  "\<exists>s. reach hz_init (hz_step 8 2) s \<and> hz_list s = [32, 16]
     \<and> 8 \<le> unat (hr_retire_threshold (the (hz_recs s 32)))
     \<and> unat (hr_retire_threshold (the (hz_recs s 16))) \<le> 8 \<and> 4 \<le> unat (hr_retire_threshold (the (hz_recs s 16)))
     \<and> \<not> hz_bad s"
proof -
  let ?acts = "Call_create 0 16 # replicate 4 (Hgo 0 0) @ Call_create 1 32 # replicate 2 (Hgo 1 0)
    @ [Call_scan 2, Hgo 2 0] @ replicate 2 (Hgo 1 0) @ [Hgo 2 0, Hgo 2 2, Hgo 2 0]"
  have "map_option hz_list (hz_run 8 2 ?acts hz_start) = Some [32, 16]"
    by code_simp
  then obtain s where s: "hz_run 8 2 ?acts hz_start = Some s" "hz_list s = [32, 16]"
    by auto
  have "reach hz_init (hz_step 8 2) hz_start"
    by (rule reach_init) (simp add: hz_init_def)
  note r = hz_run_reach [OF s(1) this]
  have "2 * length (hz_list s) * unat (2 :: u64) < 2 ^ 64" "(2 :: u64) \<noteq> 0"
    by (simp_all add: s(2))
  from hazard_pointer_registration [OF r this] have "\<not> hz_bad s" and
      cov: "\<And>xs x ys. hz_list s = xs @ x # ys \<Longrightarrow> 2 * length (x # ys) * unat (2 :: u64) \<le> unat (hr_retire_threshold (the (hz_recs s x)))
        \<and> unat (hr_retire_threshold (the (hz_recs s x))) \<le> 2 * length (hz_list s) * unat (2 :: u64)"
    by blast+
  moreover have "8 \<le> unat (hr_retire_threshold (the (hz_recs s 32)))"
    using cov [of "[]" 32 "[16]"] by (simp add: s(2))
  moreover have "4 \<le> unat (hr_retire_threshold (the (hz_recs s 16)))" "unat (hr_retire_threshold (the (hz_recs s 16))) \<le> 8"
    using cov [of "[32]" 16 "[]"] by (simp_all add: s(2))
  ultimately show ?thesis
    using r s(2) by blast
qed

end
