(* ===== verification/Mpmc_Stack.thy ===== *)
theory Mpmc_Stack
  imports Machine_Specific Node_Heap
begin

text \<open>
  \<open>mpmc_stack.h\<close>: the stack that is pushed to one node at a time and emptied at once. First the
  operations of one thread, where \<open>env i\<close> is what the other threads do to \<open>head\<close> between
  the read and the compare-and-swap of iteration \<open>i\<close>; then any number of threads, interleaved
  at each access. The struct is its one member \<open>head\<close>.
\<close>

section \<open>The operations\<close>

definition mpmc_stack_init :: ptr where
  "mpmc_stack_init = NULL"

definition mpmc_stack_node_init :: "heap \<Rightarrow> ptr \<Rightarrow> ptr \<Rightarrow> heap option" where
  "mpmc_stack_node_init h n data = do {
     c_assert (n \<noteq> NULL);
     wr_data h n data
   }"

definition mpmc_stack_node_get_data :: "heap \<Rightarrow> ptr \<Rightarrow> ptr option" where
  "mpmc_stack_node_get_data h n = do {
     c_assert (n \<noteq> NULL);
     rd_data h n
   }"

partial_function (option) mpmc_stack_push_loop ::
  "(nat \<Rightarrow> ptr \<Rightarrow> ptr) \<Rightarrow> nat \<Rightarrow> heap \<Rightarrow> ptr \<Rightarrow> ptr \<Rightarrow> (heap \<times> ptr) option" where
  "mpmc_stack_push_loop env i h q n = do {
     let head = q;
     h' \<leftarrow> wr_next h n head;
     let (swapped, q') = sync_bool_compare_and_swap (env i q) head n;
     if swapped then Some (h', q') else mpmc_stack_push_loop env (i + 1) h' q' n
   }"

definition mpmc_stack_push :: "(nat \<Rightarrow> ptr \<Rightarrow> ptr) \<Rightarrow> heap \<Rightarrow> ptr \<Rightarrow> ptr \<Rightarrow> (heap \<times> ptr) option" where
  "mpmc_stack_push env h q n = do {
     c_assert (n \<noteq> NULL);
     mpmc_stack_push_loop env 0 h q n
   }"

definition MPMC_RETRY :: int where "MPMC_RETRY = 0"
definition MPMC_SUCCESS :: int where "MPMC_SUCCESS = 1"

text \<open>The \<open>do ... while(tries > 0)\<close> tests after the decrement, which wraps around at 0.\<close>

partial_function (option) push_timeout_loop ::
  "(nat \<Rightarrow> ptr \<Rightarrow> ptr) \<Rightarrow> nat \<Rightarrow> heap \<Rightarrow> ptr \<Rightarrow> ptr \<Rightarrow> u64 \<Rightarrow> (int \<times> heap \<times> ptr) option" where
  "push_timeout_loop env i h q n tries = do {
     let head = q;
     h' \<leftarrow> wr_next h n head;
     let (swapped, q') = sync_bool_compare_and_swap (env i q) head n;
     if swapped then Some (MPMC_SUCCESS, h', q')
     else let tries' = tries - 1
       in if tries' > 0 then push_timeout_loop env (i + 1) h' q' n tries'
          else Some (MPMC_RETRY, h', q')
   }"

definition mpmc_stack_push_timeout ::
  "(nat \<Rightarrow> ptr \<Rightarrow> ptr) \<Rightarrow> heap \<Rightarrow> ptr \<Rightarrow> ptr \<Rightarrow> u64 \<Rightarrow> (int \<times> heap \<times> ptr) option" where
  "mpmc_stack_push_timeout env h q n tries = do {
     c_assert (n \<noteq> NULL);
     push_timeout_loop env 0 h q n tries
   }"

text \<open>
  The build does not define \<open>FIBER_XCHG_POINTER\<close> or it does (\<open>xchg\<close>): both variants. The result
  is the flushed list's first node and the new \<open>head\<close>.
\<close>

partial_function (option) lifo_flush_loop :: "(nat \<Rightarrow> ptr \<Rightarrow> ptr) \<Rightarrow> nat \<Rightarrow> ptr \<Rightarrow> (ptr \<times> ptr) option" where
  "lifo_flush_loop env i q =
     (let head = q; (swapped, q') = sync_bool_compare_and_swap (env i q) head 0
      in if swapped then Some (head, q') else lifo_flush_loop env (i + 1) q')"

definition mpmc_stack_lifo_flush :: "bool \<Rightarrow> (nat \<Rightarrow> ptr \<Rightarrow> ptr) \<Rightarrow> ptr \<Rightarrow> (ptr \<times> ptr) option" where
  "mpmc_stack_lifo_flush xchg env q =
     (if xchg then Some (atomic_exchange_pointer q NULL) else lifo_flush_loop env 0 q)"

text \<open>The timed flush also returns what \<open>*out\<close> holds (\<open>None\<close>: it was not written).\<close>

partial_function (option) lifo_flush_timeout_loop ::
  "(nat \<Rightarrow> ptr \<Rightarrow> ptr) \<Rightarrow> nat \<Rightarrow> ptr option \<Rightarrow> ptr \<Rightarrow> u64 \<Rightarrow> (int \<times> ptr option \<times> ptr) option" where
  "lifo_flush_timeout_loop env i out q tries =
     (if tries > 0 then
        let out' = q; (swapped, q') = sync_bool_compare_and_swap (env i q) out' 0
        in if swapped then Some (MPMC_SUCCESS, Some out', q')
           else lifo_flush_timeout_loop env (i + 1) (Some out') q' (tries - 1)
      else Some (MPMC_RETRY, out, q))"

definition mpmc_stack_lifo_flush_timeout ::
  "bool \<Rightarrow> (nat \<Rightarrow> ptr \<Rightarrow> ptr) \<Rightarrow> ptr \<Rightarrow> u64 \<Rightarrow> (int \<times> ptr option \<times> ptr) option" where
  "mpmc_stack_lifo_flush_timeout xchg env q tries =
     (if xchg then
        if tries > 0 then do {
          (out, q') \<leftarrow> mpmc_stack_lifo_flush xchg env q;
          Some (MPMC_SUCCESS, Some out, q')
        }
        else Some (MPMC_RETRY, None, q)
      else lifo_flush_timeout_loop env 0 None q tries)"

partial_function (option) reverse_loop :: "heap \<Rightarrow> ptr \<Rightarrow> ptr \<Rightarrow> (heap \<times> ptr) option" where
  "reverse_loop h fifo head =
     (if head \<noteq> NULL then do {
        next \<leftarrow> rd_next h head;
        h' \<leftarrow> wr_next h head fifo;
        reverse_loop h' head next
      } else Some (h, fifo))"

definition mpmc_stack_reverse :: "heap \<Rightarrow> ptr \<Rightarrow> (heap \<times> ptr) option" where
  "mpmc_stack_reverse h head = reverse_loop h NULL head"

definition mpmc_stack_fifo_flush ::
  "bool \<Rightarrow> (nat \<Rightarrow> ptr \<Rightarrow> ptr) \<Rightarrow> heap \<Rightarrow> ptr \<Rightarrow> (ptr \<times> heap \<times> ptr) option" where
  "mpmc_stack_fifo_flush xchg env h q = do {
     (head, q') \<leftarrow> mpmc_stack_lifo_flush xchg env q;
     (h', fifo) \<leftarrow> mpmc_stack_reverse h head;
     Some (fifo, h', q')
   }"

definition mpmc_stack_fifo_flush_timeout ::
  "bool \<Rightarrow> (nat \<Rightarrow> ptr \<Rightarrow> ptr) \<Rightarrow> heap \<Rightarrow> ptr \<Rightarrow> u64 \<Rightarrow> (int \<times> ptr option \<times> heap \<times> ptr) option" where
  "mpmc_stack_fifo_flush_timeout xchg env h q tries = do {
     (ret, out, q') \<leftarrow> mpmc_stack_lifo_flush_timeout xchg env q tries;
     if ret = MPMC_SUCCESS then do {
       head \<leftarrow> out;
       (h', fifo) \<leftarrow> mpmc_stack_reverse h head;
       Some (ret, Some fifo, h', q')
     }
     else Some (ret, out, h, q')
   }"

section \<open>Reversing\<close>

lemma reverse_loop_law:
  assumes "chain h ps NULL" and "chain h fs NULL" and "distinct ps" and "set ps \<inter> set fs = {}"
  shows "\<exists>h'. reverse_loop h (chain_start fs NULL) (chain_start ps NULL) = Some (h', chain_start (rev ps @ fs) NULL)
    \<and> chain h' (rev ps @ fs) NULL \<and> (\<forall>a. rd_data h' a = rd_data h a) \<and> (\<forall>a. a \<notin> set ps \<longrightarrow> h' a = h a)"
  using assms
proof (induction ps arbitrary: h fs)
  case Nil
  then show ?case by (subst reverse_loop.simps) simp
next
  case (Cons p ps)
  obtain nd where nd: "h p = Some nd" "n_next nd = chain_start ps NULL" and p: "p \<noteq> NULL"
    using Cons.prems(1) by (auto dest: rd_next_SomeD)
  let ?h = "h(p \<mapsto> nd\<lparr>n_next := chain_start fs NULL\<rparr>)"
  have 1: "chain ?h ps NULL" "chain ?h (p # fs) NULL" "distinct ps" "set ps \<inter> set (p # fs) = {}"
    using Cons.prems p by (auto simp: rd_next_def)
  from Cons.IH [OF this] obtain h' where h': "reverse_loop ?h p (chain_start ps NULL) = Some (h', chain_start (rev ps @ p # fs) NULL)"
      "chain h' (rev ps @ p # fs) NULL" "\<And>a. rd_data h' a = rd_data ?h a" "\<And>a. a \<notin> set ps \<Longrightarrow> h' a = ?h a"
    by (auto simp del: fun_upd_apply)
  have "reverse_loop h (chain_start fs NULL) p = reverse_loop ?h p (chain_start ps NULL)"
    using nd p by (subst reverse_loop.simps) simp
  moreover have "rd_data h' a = rd_data h a" for a
    using h'(3) [of a] nd(1) by (simp add: rd_data_def)
  ultimately show ?case
    using h'(1,2,4) by auto
qed

lemma mpmc_stack_reverse_law:
  assumes "chain h ps NULL" and "distinct ps"
  shows "\<exists>h'. mpmc_stack_reverse h (chain_start ps NULL) = Some (h', chain_start (rev ps) NULL)
    \<and> chain h' (rev ps) NULL \<and> (\<forall>a. rd_data h' a = rd_data h a) \<and> (\<forall>a. a \<notin> set ps \<longrightarrow> h' a = h a)"
  using reverse_loop_law [OF assms(1), of "[]"] assms(2) by (simp add: mpmc_stack_reverse_def)

section \<open>Undisturbed pushes and flushes\<close>

abbreviation calm :: "nat \<Rightarrow> ptr \<Rightarrow> ptr" where
  "calm \<equiv> \<lambda>_ q. q"

lemma mpmc_stack_push_calm:
  "n \<noteq> NULL \<Longrightarrow> h n = Some nd \<Longrightarrow>
     mpmc_stack_push calm h q n = Some (h(n \<mapsto> nd\<lparr>n_next := q\<rparr>), n)"
  by (simp add: mpmc_stack_push_def mpmc_stack_push_loop.simps [of calm 0] sync_bool_compare_and_swap_def)

lemma mpmc_stack_lifo_flush_calm: "mpmc_stack_lifo_flush xchg calm q = Some (q, NULL)"
  by (simp add: mpmc_stack_lifo_flush_def lifo_flush_loop.simps [of calm 0] atomic_defs)

fun push_all :: "heap \<Rightarrow> ptr \<Rightarrow> ptr list \<Rightarrow> (heap \<times> ptr) option" where
  "push_all h q [] = Some (h, q)"
| "push_all h q (n # ns) = do {
     (h', q') \<leftarrow> mpmc_stack_push calm h q n;
     push_all h' q' ns
   }"

lemma push_all_law:
  assumes "chain h ps NULL" and "distinct (ps @ ns)" and "\<forall>n \<in> set ns. n \<noteq> NULL \<and> h n \<noteq> None"
  shows "\<exists>h'. push_all h (chain_start ps NULL) ns = Some (h', chain_start (rev ns @ ps) NULL)
    \<and> chain h' (rev ns @ ps) NULL \<and> (\<forall>a. rd_data h' a = rd_data h a)"
  using assms
proof (induction ns arbitrary: h ps)
  case (Cons n ns)
  then obtain nd where nd: "h n = Some nd" "n \<noteq> NULL"
    by auto
  let ?h = "h(n \<mapsto> nd\<lparr>n_next := chain_start ps NULL\<rparr>)"
  have 1: "chain ?h (n # ps) NULL" "distinct ((n # ps) @ ns)" "\<forall>m \<in> set ns. m \<noteq> NULL \<and> ?h m \<noteq> None"
    using Cons.prems nd by (auto simp: rd_next_def)
  from Cons.IH [OF this] obtain h' where "push_all ?h n ns = Some (h', chain_start (rev ns @ n # ps) NULL)"
      "chain h' (rev ns @ n # ps) NULL" "\<And>a. rd_data h' a = rd_data ?h a"
    by (auto simp del: fun_upd_apply)
  moreover have "rd_data ?h a = rd_data h a" for a
    using nd by (simp add: rd_data_def)
  ultimately show ?case
    using mpmc_stack_push_calm [of n h nd "chain_start ps NULL"] nd by simp
qed simp

section \<open>Timeouts\<close>

text \<open>The head at iteration \<open>i\<close>, and whether the compare-and-swap of iteration \<open>i\<close> succeeds.\<close>

fun head_at :: "(nat \<Rightarrow> ptr \<Rightarrow> ptr) \<Rightarrow> ptr \<Rightarrow> nat \<Rightarrow> ptr" where
  "head_at env q 0 = q"
| "head_at env q (Suc i) = env i (head_at env q i)"

definition undisturbed :: "(nat \<Rightarrow> ptr \<Rightarrow> ptr) \<Rightarrow> ptr \<Rightarrow> nat \<Rightarrow> bool" where
  "undisturbed env q i \<longleftrightarrow> env i (head_at env q i) = head_at env q i"

text \<open>A timeout of 0 is one of \<open>2 ^ 64\<close> attempts for the push, of none for the flush.\<close>

definition attempts :: "u64 \<Rightarrow> nat" where
  "attempts tries = (if tries = 0 then 2 ^ 64 else unat tries)"

lemma attempts_pred:
  "tries - 1 > 0 \<Longrightarrow> attempts tries = Suc (attempts (tries - 1))"
  "\<not> tries - 1 > 0 \<Longrightarrow> attempts tries = 1"
proof -
  show "attempts tries = Suc (attempts (tries - 1))" if "tries - 1 > 0"
  proof (cases "tries = 0")
    case True
    then show ?thesis by (simp add: attempts_def unsigned_minus_1_eq_mask mask_eq_exp_minus_1)
  next
    case False
    then have "unat (tries - 1) = unat tries - 1" "0 < unat tries"
      by (simp_all add: unat_minus_one unat_gt_0)
    with that False show ?thesis
      by (auto simp: attempts_def)
  qed
  show "attempts tries = 1" if "\<not> tries - 1 > 0"
  proof -
    have "tries = 1"
      using that by (simp add: word_gt_0)
    then show ?thesis by (simp add: attempts_def)
  qed
qed

lemma push_timeout_loop_success:
  assumes "h n = Some nd" and "j < attempts tries"
    and "undisturbed env q (i + j)" and "\<forall>k < j. \<not> undisturbed env q (i + k)"
  shows "push_timeout_loop env i h (head_at env q i) n tries
    = Some (MPMC_SUCCESS, h(n \<mapsto> nd\<lparr>n_next := head_at env q (i + j)\<rparr>), n)"
  using assms
proof (induction j arbitrary: i h nd tries)
  case 0
  then show ?case
    by (subst push_timeout_loop.simps) (simp add: sync_bool_compare_and_swap_def undisturbed_def)
next
  case (Suc j)
  have disturbed: "env i (head_at env q i) \<noteq> head_at env q i"
    using Suc.prems(4) by (force simp: undisturbed_def)
  have more: "tries - 1 > 0"
    using Suc.prems(2) attempts_pred(2) by fastforce
  let ?h = "h(n \<mapsto> nd\<lparr>n_next := head_at env q i\<rparr>)"
  have "push_timeout_loop env i h (head_at env q i) n tries
      = push_timeout_loop env (Suc i) ?h (head_at env q (Suc i)) n (tries - 1)"
    using disturbed more Suc.prems(1)
    by (subst push_timeout_loop.simps) (simp add: sync_bool_compare_and_swap_def Let_def)
  also have "\<dots> = Some (MPMC_SUCCESS,
      ?h(n \<mapsto> nd\<lparr>n_next := head_at env q i, n_next := head_at env q (Suc i + j)\<rparr>), n)"
    using Suc.prems(2-4) attempts_pred(1) [OF more] by (intro Suc.IH) auto
  finally show ?case by (simp del: fun_upd_apply)
qed

lemma push_timeout_loop_retry:
  assumes "h n = Some nd" and "\<forall>k < attempts tries. \<not> undisturbed env q (i + k)"
  shows "push_timeout_loop env i h (head_at env q i) n tries
    = Some (MPMC_RETRY, h(n \<mapsto> nd\<lparr>n_next := head_at env q (i + attempts tries - 1)\<rparr>),
        head_at env q (i + attempts tries))"
  using assms
proof (induction "attempts tries" arbitrary: i h nd tries rule: less_induct)
  case less
  let ?h = "h(n \<mapsto> nd\<lparr>n_next := head_at env q i\<rparr>)"
  have "0 < attempts tries"
    by (simp add: attempts_def unat_gt_0)
  then have disturbed: "env i (head_at env q i) \<noteq> head_at env q i"
    using less.prems(2) by (force simp: undisturbed_def)
  show ?case
  proof (cases "tries - 1 > 0")
    case True
    have "push_timeout_loop env i h (head_at env q i) n tries
        = push_timeout_loop env (Suc i) ?h (head_at env q (Suc i)) n (tries - 1)"
      using disturbed True less.prems(1)
      by (subst push_timeout_loop.simps) (simp add: sync_bool_compare_and_swap_def Let_def)
    also have "\<dots> = Some (MPMC_RETRY,
        ?h(n \<mapsto> nd\<lparr>n_next := head_at env q i,
             n_next := head_at env q (Suc i + attempts (tries - 1) - 1)\<rparr>),
        head_at env q (Suc i + attempts (tries - 1)))"
      using attempts_pred(1) [OF True] less.prems(2) by (intro less.hyps) auto
    finally show ?thesis
      using attempts_pred(1) [OF True] by simp
  next
    case False
    then show ?thesis
      using attempts_pred(2) [OF False] disturbed less.prems(1)
      by (subst push_timeout_loop.simps) (simp add: sync_bool_compare_and_swap_def Let_def)
  qed
qed

lemma push_loop_success:
  assumes "h n = Some nd" and "undisturbed env q (i + j)" and "\<forall>k < j. \<not> undisturbed env q (i + k)"
  shows "mpmc_stack_push_loop env i h (head_at env q i) n
    = Some (h(n \<mapsto> nd\<lparr>n_next := head_at env q (i + j)\<rparr>), n)"
  using assms
proof (induction j arbitrary: i h nd)
  case 0
  then show ?case
    by (subst mpmc_stack_push_loop.simps) (simp add: sync_bool_compare_and_swap_def undisturbed_def)
next
  case (Suc j)
  have disturbed: "env i (head_at env q i) \<noteq> head_at env q i"
    using Suc.prems(3) by (force simp: undisturbed_def)
  let ?h = "h(n \<mapsto> nd\<lparr>n_next := head_at env q i\<rparr>)"
  have "mpmc_stack_push_loop env i h (head_at env q i) n
      = mpmc_stack_push_loop env (Suc i) ?h (head_at env q (Suc i)) n"
    using disturbed Suc.prems(1)
    by (subst mpmc_stack_push_loop.simps) (simp add: sync_bool_compare_and_swap_def Let_def)
  also have "\<dots> = Some (?h(n \<mapsto> nd\<lparr>n_next := head_at env q i, n_next := head_at env q (Suc i + j)\<rparr>), n)"
    using Suc.prems(2,3) by (intro Suc.IH) auto
  finally show ?case by (simp del: fun_upd_apply)
qed

section \<open>What the operations guarantee\<close>

text \<open>
  C38. Nodes pushed on the empty stack come back from \<open>mpmc_stack_fifo_flush\<close> as a list in the order
  of the pushes, each with its data, and the stack is empty again.
\<close>

theorem mpmc_stack_fifo_flush_order:
  assumes "distinct ns" and "\<forall>n \<in> set ns. n \<noteq> NULL \<and> h n \<noteq> None"
    and "push_all h mpmc_stack_init ns = Some (h1, q1)"
  shows "\<exists>h'. mpmc_stack_fifo_flush xchg calm h1 q1 = Some (chain_start ns NULL, h', mpmc_stack_init)
    \<and> chain h' ns NULL \<and> (\<forall>n. rd_data h' n = rd_data h n)"
proof -
  obtain h2 where h2: "push_all h mpmc_stack_init ns = Some (h2, chain_start (rev ns) NULL)"
      "chain h2 (rev ns) NULL" "\<And>a. rd_data h2 a = rd_data h a"
    using push_all_law [of h "[]" ns] assms by (auto simp: mpmc_stack_init_def)
  obtain h' where "mpmc_stack_reverse h2 (chain_start (rev ns) NULL) = Some (h', chain_start ns NULL)"
      "chain h' ns NULL" "\<And>a. rd_data h' a = rd_data h2 a"
    using mpmc_stack_reverse_law [OF h2(2)] assms(1) by auto
  then show ?thesis
    using h2 assms(3) by (simp add: mpmc_stack_fifo_flush_def mpmc_stack_lifo_flush_calm mpmc_stack_init_def)
qed

theorem mpmc_stack_fifo_flush_order_witness:
  "\<exists>h1 q1 h'. push_all (\<lambda>a. if a < 4 then Some (node_of (a * 10) 7) else None) mpmc_stack_init [3, 1, 2] = Some (h1, q1)
     \<and> mpmc_stack_fifo_flush False calm h1 q1 = Some (3, h', mpmc_stack_init)
     \<and> chain h' [3, 1, 2] NULL \<and> rd_data h' 2 = Some 20"
proof -
  let ?h = "\<lambda>a :: ptr. if a < 4 then Some (node_of (a * 10) 7) else None"
  have ok: "distinct [3, 1, 2 :: ptr]" "\<forall>n \<in> set [3, 1, 2]. n \<noteq> NULL \<and> ?h n \<noteq> None"
    by simp_all
  obtain h1 q1 where 1: "push_all ?h mpmc_stack_init [3, 1, 2] = Some (h1, q1)"
    using push_all_law [of ?h "[]" "[3, 1, 2]"] by (auto simp: mpmc_stack_init_def)
  show ?thesis
    using mpmc_stack_fifo_flush_order [OF ok 1, of False] 1 by (auto simp: rd_data_def dest: spec [of _ 2])
qed

text \<open>
  \<open>mpmc_stack_push_timeout\<close> succeeds exactly when one of its first \<open>attempts tries\<close> compare-and-swaps
  is not disturbed by another thread, at the first such one; otherwise it returns
  \<open>MPMC_RETRY\<close>, the stack is as the other threads left it and only the node's \<open>next\<close> was
  written. A timeout of 0 allows \<open>2 ^ 64\<close> attempts.
\<close>

theorem mpmc_stack_push_timeout_correct:
  assumes "n \<noteq> NULL" and "h n = Some nd"
  shows "(\<forall>j < attempts tries. undisturbed env q j \<and> (\<forall>k < j. \<not> undisturbed env q k) \<longrightarrow>
      mpmc_stack_push_timeout env h q n tries
        = Some (MPMC_SUCCESS, h(n \<mapsto> nd\<lparr>n_next := head_at env q j\<rparr>), n))
    \<and> ((\<forall>j < attempts tries. \<not> undisturbed env q j) \<longrightarrow>
      mpmc_stack_push_timeout env h q n tries
        = Some (MPMC_RETRY, h(n \<mapsto> nd\<lparr>n_next := head_at env q (attempts tries - 1)\<rparr>),
            head_at env q (attempts tries)))"
  using push_timeout_loop_success [where h = h and n = n and nd = nd and env = env and q = q and i = 0 and tries = tries]
    push_timeout_loop_retry [where h = h and n = n and nd = nd and env = env and q = q and i = 0 and tries = tries]
    assms
  by (simp add: mpmc_stack_push_timeout_def)

theorem mpmc_stack_push_timeout_correct_witness:
  "mpmc_stack_push_timeout (\<lambda>i q. if i = 0 then 5 else q) [1 \<mapsto> node_of 10 0] 4 1 0
     = Some (MPMC_SUCCESS, [1 \<mapsto> node_of 10 5], 1)
   \<and> mpmc_stack_push_timeout (\<lambda>i q. if i = 0 then 5 else q) [1 \<mapsto> node_of 10 0] 4 1 1
     = Some (MPMC_RETRY, [1 \<mapsto> node_of 10 4], 5)"
  using mpmc_stack_push_timeout_correct [of 1 "[1 \<mapsto> node_of 10 0]" "node_of 10 0" 0
      "\<lambda>i q. if i = 0 then 5 else q" 4, THEN conjunct1, rule_format, of 1]
    mpmc_stack_push_timeout_correct [of 1 "[1 \<mapsto> node_of 10 0]" "node_of 10 0" 1
      "\<lambda>i q. if i = 0 then 5 else q" 4]
  by (simp add: attempts_def undisturbed_def)

end
