(* ===== verification/Mpmc_Stack_Conc.thy ===== *)
theory Mpmc_Stack_Conc
  imports Mpmc_Stack
begin

text \<open>
  \<open>mpmc_stack.h\<close> under any number of threads: the pushes and flushes of \<open>Mpmc_Stack\<close> cut at
  each access to shared memory. A thread may push a node that it owns, owns the nodes of the
  list a flush returns, and may write to the nodes it owns at any time. The locked instructions
  drain the store buffer before the list is published, so memory is sequentially consistent here.
  \<open>ms_items\<close>, \<open>ms_batch\<close>, \<open>ms_pushed\<close> and \<open>ms_batches\<close> are ghost variables that no step reads
  to decide: the nodes on the stack, each thread's last flushed list, the pushes and the
  flushed lists, in order.
\<close>

section \<open>Steps\<close>

text \<open>
  \<open>tries\<close> is \<open>None\<close> in the operations without a timeout. \<open>M_reverse fifo head\<close> is the loop of
  \<open>mpmc_stack_reverse\<close>; \<open>M_done r p\<close> has \<open>p\<close> to return, reversed if \<open>r\<close>.
\<close>

datatype stack_pc =
    M_idle
  | M_push ptr "u64 option"
  | M_link ptr "u64 option" ptr
  | M_push_cas ptr "u64 option" ptr
  | M_flush bool "u64 option"
  | M_flush_cas bool "u64 option" ptr
  | M_reverse ptr ptr
  | M_done bool ptr

record stack_sys =
  ms_head :: ptr
  ms_heap :: heap
  ms_pc :: "tid \<Rightarrow> stack_pc"
  ms_own :: "tid \<Rightarrow> ptr set"
  ms_items :: "ptr list"
  ms_batch :: "tid \<Rightarrow> ptr list"
  ms_pushed :: "ptr list"
  ms_batches :: "ptr list list"

abbreviation stack_goto :: "stack_sys \<Rightarrow> tid \<Rightarrow> stack_pc \<Rightarrow> stack_sys" where
  "stack_goto s t pc \<equiv> s\<lparr>ms_pc := (ms_pc s)(t := pc)\<rparr>"

definition give :: "stack_sys \<Rightarrow> tid \<Rightarrow> ptr set \<Rightarrow> stack_sys" where
  "give s t ns = s\<lparr>ms_own := (ms_own s)(t := ms_own s t \<union> ns)\<rparr>"

definition flushed :: "stack_sys \<Rightarrow> tid \<Rightarrow> bool \<Rightarrow> ptr \<Rightarrow> ptr \<Rightarrow> stack_sys" where
  "flushed s t r head q' =
     (stack_goto s t (if r then M_reverse NULL head else M_done False head))
       \<lparr>ms_head := q', ms_items := [], ms_batch := (ms_batch s)(t := ms_items s),
        ms_batches := ms_batches s @ [ms_items s]\<rparr>"

definition stack_next :: "bool \<Rightarrow> tid \<Rightarrow> stack_sys \<Rightarrow> stack_sys option" where
  "stack_next xchg t s =
     (case ms_pc s t of
        M_idle \<Rightarrow> None
      | M_push n tries \<Rightarrow> Some (stack_goto s t (M_link n tries (ms_head s)))
      | M_link n tries head \<Rightarrow> do {
          h' \<leftarrow> wr_next (ms_heap s) n head;
          Some ((stack_goto s t (M_push_cas n tries head))\<lparr>ms_heap := h'\<rparr>)
        }
      | M_push_cas n tries head \<Rightarrow>
          (case sync_bool_compare_and_swap (ms_head s) head n of
             (True, q') \<Rightarrow> Some ((stack_goto s t M_idle)
               \<lparr>ms_head := q', ms_items := n # ms_items s, ms_pushed := ms_pushed s @ [n]\<rparr>)
           | (False, _) \<Rightarrow>
             (case tries of
                None \<Rightarrow> Some (stack_goto s t (M_push n None))
              | Some k \<Rightarrow>
                  if k - 1 > 0 then Some (stack_goto s t (M_push n (Some (k - 1))))
                  else Some (give (stack_goto s t M_idle) t {n})))
      | M_flush r tries \<Rightarrow>
          if tries = Some 0 then Some (stack_goto s t M_idle)
          else if xchg then
            let (head, q') = atomic_exchange_pointer (ms_head s) NULL in Some (flushed s t r head q')
          else Some (stack_goto s t (M_flush_cas r tries (ms_head s)))
      | M_flush_cas r tries head \<Rightarrow>
          (case sync_bool_compare_and_swap (ms_head s) head 0 of
             (True, q') \<Rightarrow> Some (flushed s t r head q')
           | (False, _) \<Rightarrow> Some (stack_goto s t (M_flush r (map_option (\<lambda>k. k - 1) tries))))
      | M_reverse fifo head \<Rightarrow>
          if head \<noteq> NULL then do {
            next \<leftarrow> rd_next (ms_heap s) head;
            h' \<leftarrow> wr_next (ms_heap s) head fifo;
            Some ((stack_goto s t (M_reverse head next))\<lparr>ms_heap := h'\<rparr>)
          }
          else Some (stack_goto s t (M_done True fifo))
      | M_done r p \<Rightarrow> Some (give (stack_goto s t M_idle) t (set (ms_batch s t))))"

text \<open>What can happen next: a call, a step of a thread, or a write to a node the thread owns.\<close>

datatype stack_act =
    Call_mpush tid ptr "u64 option"
  | Call_mflush tid bool "u64 option"
  | Go tid
  | Write tid ptr node

fun stack_do :: "bool \<Rightarrow> stack_act \<Rightarrow> stack_sys \<Rightarrow> stack_sys option" where
  "stack_do xchg (Call_mpush t n tries) s =
     (if ms_pc s t = M_idle \<and> n \<in> ms_own s t
      then Some ((stack_goto s t (M_push n tries))\<lparr>ms_own := (ms_own s)(t := ms_own s t - {n})\<rparr>)
      else None)"
| "stack_do xchg (Call_mflush t r tries) s =
     (if ms_pc s t = M_idle then Some (stack_goto s t (M_flush r tries)) else None)"
| "stack_do xchg (Go t) s = stack_next xchg t s"
| "stack_do xchg (Write t n nd) s =
     (if n \<in> ms_own s t then Some (s\<lparr>ms_heap := (ms_heap s)(n \<mapsto> nd)\<rparr>) else None)"

inductive stack_step :: "bool \<Rightarrow> stack_sys \<Rightarrow> stack_sys \<Rightarrow> bool" for xchg where
  stack_stepI: "stack_do xchg a s = Some s' \<Longrightarrow> stack_step xchg s s'"

inductive_cases stack_stepE: "stack_step xchg s s'"

text \<open>The start: an initialised stack, and allocated nodes that have at most one owner.\<close>

definition stack_start :: "heap \<Rightarrow> (tid \<Rightarrow> ptr set) \<Rightarrow> stack_sys" where
  "stack_start h own = \<lparr>ms_head = mpmc_stack_init, ms_heap = h, ms_pc = (\<lambda>_. M_idle), ms_own = own,
     ms_items = [], ms_batch = (\<lambda>_. []), ms_pushed = [], ms_batches = []\<rparr>"

definition owners_ok :: "heap \<Rightarrow> (tid \<Rightarrow> ptr set) \<Rightarrow> bool" where
  "owners_ok h own \<longleftrightarrow> (\<forall>t. \<forall>n \<in> own t. n \<noteq> NULL \<and> h n \<noteq> None)
     \<and> (\<forall>t u. t \<noteq> u \<longrightarrow> own t \<inter> own u = {})"

definition mstack_init :: "stack_sys \<Rightarrow> bool" where
  "mstack_init s \<longleftrightarrow> (\<exists>h own. owners_ok h own \<and> s = stack_start h own)"

fun stack_run :: "bool \<Rightarrow> stack_act list \<Rightarrow> stack_sys \<Rightarrow> stack_sys option" where
  "stack_run xchg [] s = Some s"
| "stack_run xchg (a # as) s = Option.bind (stack_do xchg a s) (stack_run xchg as)"

lemma stack_run_reach:
  "stack_run xchg as s = Some s' \<Longrightarrow> reach init (stack_step xchg) s \<Longrightarrow> reach init (stack_step xchg) s'"
proof (induction as arbitrary: s)
  case (Cons a as)
  then obtain s1 where "stack_do xchg a s = Some s1" "stack_run xchg as s1 = Some s'"
    by (auto split: bind_splits)
  then show ?case
    using Cons reach_step stack_stepI by metis
qed simp

section \<open>The invariant\<close>

text \<open>The nodes only thread \<open>t\<close> may write to.\<close>

fun in_transit :: "stack_pc \<Rightarrow> ptr list \<Rightarrow> ptr set" where
  "in_transit (M_push n _) b = {n}"
| "in_transit (M_link n _ _) b = {n}"
| "in_transit (M_push_cas n _ _) b = {n}"
| "in_transit (M_reverse _ _) b = set b"
| "in_transit (M_done _ _) b = set b"
| "in_transit _ b = {}"

fun mpc_ok :: "heap \<Rightarrow> ptr list \<Rightarrow> stack_pc \<Rightarrow> bool" where
  "mpc_ok h b (M_push_cas n _ head) \<longleftrightarrow> rd_next h n = Some head"
| "mpc_ok h b (M_reverse fifo head) \<longleftrightarrow> distinct b \<and>
     (\<exists>ds rs. b = ds @ rs \<and> chain h (rev ds) NULL \<and> fifo = chain_start (rev ds) NULL
       \<and> chain h rs NULL \<and> head = chain_start rs NULL)"
| "mpc_ok h b (M_done r p) \<longleftrightarrow>
     (let l = if r then rev b else b in chain h l NULL \<and> p = chain_start l NULL)"
| "mpc_ok h b _ = True"

definition holds :: "stack_sys \<Rightarrow> tid \<Rightarrow> ptr set" where
  "holds s t = ms_own s t \<union> in_transit (ms_pc s t) (ms_batch s t)"

definition mstack_inv :: "stack_sys \<Rightarrow> bool" where
  "mstack_inv s \<longleftrightarrow>
     distinct (ms_items s) \<and> chain (ms_heap s) (ms_items s) NULL
   \<and> ms_head s = chain_start (ms_items s) NULL
   \<and> (\<forall>t. \<forall>n \<in> holds s t. n \<noteq> NULL \<and> ms_heap s n \<noteq> None \<and> n \<notin> set (ms_items s))
   \<and> (\<forall>t u. t \<noteq> u \<longrightarrow> holds s t \<inter> holds s u = {})
   \<and> (\<forall>t. ms_own s t \<inter> in_transit (ms_pc s t) (ms_batch s t) = {})
   \<and> (\<forall>t. mpc_ok (ms_heap s) (ms_batch s t) (ms_pc s t))
   \<and> (\<forall>t. ms_batch s t = [] \<or> ms_batch s t \<in> set (ms_batches s))
   \<and> ms_pushed s = concat (List.map rev (ms_batches s)) @ rev (ms_items s)"

lemma mstack_invD:
  assumes "mstack_inv s"
  shows "distinct (ms_items s)" "chain (ms_heap s) (ms_items s) NULL"
    "ms_head s = chain_start (ms_items s) NULL"
    "n \<in> holds s t \<Longrightarrow> n \<noteq> NULL \<and> n \<notin> set (ms_items s) \<and> (\<exists>nd. ms_heap s n = Some nd)"
    "t \<noteq> u \<Longrightarrow> holds s t \<inter> holds s u = {}"
    "ms_own s t \<inter> in_transit (ms_pc s t) (ms_batch s t) = {}"
    "mpc_ok (ms_heap s) (ms_batch s t) (ms_pc s t)"
    "ms_batch s t = [] \<or> ms_batch s t \<in> set (ms_batches s)"
    "ms_pushed s = concat (List.map rev (ms_batches s)) @ rev (ms_items s)"
  using assms by (auto simp: mstack_inv_def)

lemma mpc_ok_frame:
  assumes "\<forall>n \<in> in_transit pc b. h' n = h n"
  shows "mpc_ok h' b pc = mpc_ok h b pc"
proof (cases pc)
  case (M_reverse fifo head)
  have "chain h' ns q = chain h ns q" if "set ns \<subseteq> set b" for ns q
    using assms that M_reverse by (intro chain_frame) (auto simp: rd_next_def)
  then have "chain h' (rev ds) NULL = chain h (rev ds) NULL \<and> chain h' rs NULL = chain h rs NULL"
    if "b = ds @ rs" for ds rs
    using that by auto
  then show ?thesis
    using M_reverse by auto
next
  case (M_done r p)
  have "chain h' ns q = chain h ns q" if "set ns \<subseteq> set b" for ns q
    using assms that M_done by (intro chain_frame) (auto simp: rd_next_def)
  then show ?thesis
    using M_done by (simp add: Let_def)
qed (use assms in \<open>simp_all add: rd_next_def\<close>)

text \<open>
  One thread moves: it writes only to nodes it holds, and what it holds and what is on the stack
  afterwards was held by it or on the stack before.
\<close>

lemma mstack_inv_move:
  assumes inv: "mstack_inv s"
    and others: "\<And>u. u \<noteq> t \<Longrightarrow> ms_own s' u = ms_own s u \<and> ms_pc s' u = ms_pc s u \<and> ms_batch s' u = ms_batch s u"
    and heap: "\<And>n. n \<notin> holds s t \<Longrightarrow> ms_heap s' n = ms_heap s n"
    and alloc: "\<And>n. ms_heap s n \<noteq> None \<Longrightarrow> ms_heap s' n \<noteq> None"
    and nodes: "holds s' t \<union> set (ms_items s') \<subseteq> holds s t \<union> set (ms_items s)"
    and sep: "holds s' t \<inter> set (ms_items s') = {}" "ms_own s' t \<inter> in_transit (ms_pc s' t) (ms_batch s' t) = {}"
    and items: "distinct (ms_items s')" "chain (ms_heap s') (ms_items s') NULL"
      "ms_head s' = chain_start (ms_items s') NULL"
    and pc: "mpc_ok (ms_heap s') (ms_batch s' t) (ms_pc s' t)"
    and logs: "set (ms_batches s) \<subseteq> set (ms_batches s')"
      "ms_batch s' t = [] \<or> ms_batch s' t \<in> set (ms_batches s')"
      "ms_pushed s' = concat (List.map rev (ms_batches s')) @ rev (ms_items s')"
  shows "mstack_inv s'"
proof -
  have held: "holds s' u = holds s u" if "u \<noteq> t" for u
    using others [OF that] by (simp add: holds_def)
  have apart: "n \<notin> holds s t" "n \<notin> holds s' t" "n \<notin> set (ms_items s')" "n \<noteq> NULL" "ms_heap s' n \<noteq> None"
    if "u \<noteq> t" "n \<in> holds s u" for u n
  proof -
    have 1: "n \<notin> holds s t" "n \<notin> set (ms_items s)" "n \<noteq> NULL" "ms_heap s n \<noteq> None"
      using mstack_invD(4,5) [OF inv] that by fastforce+
    then show "n \<notin> holds s t" "n \<notin> holds s' t" "n \<notin> set (ms_items s')" "n \<noteq> NULL" "ms_heap s' n \<noteq> None"
      using nodes alloc by auto
  qed
  have mine: "n \<noteq> NULL \<and> ms_heap s' n \<noteq> None" if "n \<in> holds s' t" for n
  proof -
    have "n \<in> holds s t \<or> n \<in> set (ms_items s)"
      using nodes that by auto
    then have "n \<noteq> NULL \<and> ms_heap s n \<noteq> None"
      using inv chain_allocated [of "ms_heap s" "ms_items s" NULL n] by (auto simp: mstack_inv_def)
    then show ?thesis using alloc by blast
  qed
  show ?thesis
    unfolding mstack_inv_def
  proof (intro conjI allI impI ballI)
    fix u n
    assume n: "n \<in> holds s' u"
    then show "n \<noteq> NULL" "ms_heap s' n \<noteq> None"
      using apart [of u n] mine held by (cases "u = t"; auto)+
    from n show "n \<notin> set (ms_items s')"
      using apart [of u n] sep held by (cases "u = t"; auto)
  next
    fix u v :: tid
    assume "u \<noteq> v"
    moreover have "holds s u \<inter> holds s v = {}" if "u \<noteq> v"
      using inv that by (simp add: mstack_inv_def)
    ultimately show "holds s' u \<inter> holds s' v = {}"
      using held apart by (cases "u = t"; cases "v = t") auto
  next
    fix u
    show "ms_own s' u \<inter> in_transit (ms_pc s' u) (ms_batch s' u) = {}"
      using inv others [of u] sep by (cases "u = t") (simp_all add: mstack_inv_def)
    show "mpc_ok (ms_heap s') (ms_batch s' u) (ms_pc s' u)"
    proof (cases "u = t")
      case False
      have "\<forall>n \<in> in_transit (ms_pc s u) (ms_batch s u). ms_heap s' n = ms_heap s n"
        using apart(1) [OF False] heap by (simp add: holds_def)
      from mpc_ok_frame [OF this] show ?thesis
        using inv others [OF False] by (simp add: mstack_inv_def)
    qed (simp add: pc)
    show "ms_batch s' u = [] \<or> ms_batch s' u \<in> set (ms_batches s')"
      using inv others [of u] logs by (cases "u = t") (auto simp: mstack_inv_def)
  qed (use items logs in simp_all)
qed

text \<open>The same when the stack, the heap and the logs stay as they are.\<close>

lemma mstack_inv_local:
  assumes inv: "mstack_inv s"
    and "\<And>u. u \<noteq> t \<Longrightarrow> ms_own s' u = ms_own s u \<and> ms_pc s' u = ms_pc s u"
    and "ms_batch s' = ms_batch s"
    and "holds s' t \<subseteq> holds s t" "ms_own s' t \<inter> in_transit (ms_pc s' t) (ms_batch s' t) = {}"
    and "\<And>n. n \<notin> holds s t \<Longrightarrow> ms_heap s' n = ms_heap s n"
    and "\<And>n. ms_heap s n \<noteq> None \<Longrightarrow> ms_heap s' n \<noteq> None"
    and "mpc_ok (ms_heap s') (ms_batch s' t) (ms_pc s' t)"
    and "ms_head s' = ms_head s" "ms_items s' = ms_items s" "ms_batches s' = ms_batches s" "ms_pushed s' = ms_pushed s"
  shows "mstack_inv s'"
proof -
  have "ms_heap s' n = ms_heap s n" if "n \<in> set (ms_items s)" for n
    using assms(6) [of n] mstack_invD(4) [OF inv, of n t] that by blast
  then have "chain (ms_heap s') (ms_items s) NULL = chain (ms_heap s) (ms_items s) NULL"
    by (intro chain_frame) (simp add: rd_next_def)
  moreover have "holds s' t \<inter> set (ms_items s) = {}"
    using assms(4) mstack_invD(4) [OF inv] by blast
  ultimately show ?thesis
    using assms(2-) mstack_invD [OF inv]
    by (intro mstack_inv_move [OF inv, of t]) auto
qed

lemma mpc_ok_reverse_start:
  "chain h b NULL \<Longrightarrow> distinct b \<Longrightarrow> mpc_ok h b (M_reverse NULL (chain_start b NULL))"
  by (simp, rule exI [of _ "[]"], simp)

lemma mstack_inv_flushed:
  assumes inv: "mstack_inv s" and pc: "in_transit (ms_pc s t) (ms_batch s t) = {}"
  shows "mstack_inv (flushed s t r (ms_head s) NULL)"
  using mstack_invD [OF inv] pc mpc_ok_reverse_start [of "ms_heap s" "ms_items s"]
  by (intro mstack_inv_move [OF inv, of t]) (auto simp: flushed_def holds_def simp del: mpc_ok.simps(2))

lemma mstack_inv_push_cas:
  assumes inv: "mstack_inv s" and step: "stack_next xchg t s = Some s'" and M_push_cas: "ms_pc s t = M_push_cas n tries head"
  shows "mstack_inv s'"
proof -
  note D = mstack_invD [OF inv]
  show ?thesis
  proof (cases "ms_head s = head")
    case True
    with step M_push_cas have s': "s' = (stack_goto s t M_idle)
        \<lparr>ms_head := n, ms_items := n # ms_items s, ms_pushed := ms_pushed s @ [n]\<rparr>"
      by (simp add: stack_next_def sync_bool_compare_and_swap_def)
    show ?thesis
      using M_push_cas True D(1-3,9) D(4) [of n t] D(4) [of _ t] D(6) [of t] D(7) [of t] D(8) [of t]
      by (intro mstack_inv_move [OF inv, of t]) (auto simp: holds_def s')
  next
    case False
    then show ?thesis
      using step M_push_cas D(6) [of t]
      by (intro mstack_inv_local [OF inv, of t])
        (auto simp: holds_def stack_next_def sync_bool_compare_and_swap_def give_def split: option.splits if_splits)
  qed
qed

lemma mstack_inv_flush_cas:
  assumes inv: "mstack_inv s" and step: "stack_next xchg t s = Some s'" and M_flush_cas: "ms_pc s t = M_flush_cas r tries head"
  shows "mstack_inv s'"
proof -
  show ?thesis
  proof (cases "ms_head s = head")
    case True
    then show ?thesis
      using step M_flush_cas mstack_inv_flushed [OF inv, of t r]
      by (simp add: stack_next_def sync_bool_compare_and_swap_def)
  next
    case False
    then show ?thesis
      using step M_flush_cas by (intro mstack_inv_local [OF inv, of t])
        (auto simp: holds_def stack_next_def sync_bool_compare_and_swap_def split: if_splits)
  qed
qed

lemma mstack_inv_reverse:
  assumes inv: "mstack_inv s" and step: "stack_next xchg t s = Some s'" and M_reverse: "ms_pc s t = M_reverse fifo head"
  shows "mstack_inv s'"
proof -
  note D = mstack_invD [OF inv]
  obtain ds rs where b: "ms_batch s t = ds @ rs" "distinct (ms_batch s t)"
      "chain (ms_heap s) (rev ds) NULL" "fifo = chain_start (rev ds) NULL"
      "chain (ms_heap s) rs NULL" "head = chain_start rs NULL"
    using D(7) [of t] M_reverse by auto
  show ?thesis
  proof (cases rs)
    case Nil
    then have "s' = stack_goto s t (M_done True fifo)"
      using step M_reverse b by (simp add: stack_next_def)
    then show ?thesis
      using M_reverse b Nil D(6) [of t]
      by (intro mstack_inv_local [OF inv, of t]) (auto simp: holds_def)
  next
    case (Cons r rs')
    obtain nd where nd: "ms_heap s r = Some nd" "r \<noteq> NULL" "n_next nd = chain_start rs' NULL"
      using b(5) Cons by (auto dest: rd_next_SomeD)
    let ?h = "(ms_heap s)(r \<mapsto> nd\<lparr>n_next := fifo\<rparr>)"
    have s': "s' = (stack_goto s t (M_reverse r (chain_start rs' NULL)))\<lparr>ms_heap := ?h\<rparr>"
      using step M_reverse b(6) Cons nd by (simp add: stack_next_def)
    have "chain ?h (rev (ds @ [r])) NULL" "chain ?h rs' NULL"
      using b Cons nd by (auto simp: rd_next_def)
    then have "\<exists>ds rs. ms_batch s t = ds @ rs \<and> chain ?h (rev ds) NULL \<and> r = chain_start (rev ds) NULL
        \<and> chain ?h rs NULL \<and> chain_start rs' NULL = chain_start rs NULL"
      using b(1,4) Cons by - (rule exI [of _ "ds @ [r]"], rule exI [of _ rs'], simp)
    then have "mpc_ok ?h (ms_batch s t) (M_reverse r (chain_start rs' NULL))"
      using b(2) by simp
    then show ?thesis
      using M_reverse b(1) Cons nd(1) D(6) [of t] unfolding s'
      by (intro mstack_inv_local [OF inv, of t]) (auto simp: holds_def simp del: mpc_ok.simps(2))
  qed
qed

lemma mstack_inv_next:
  assumes inv: "mstack_inv s" and step: "stack_next xchg t s = Some s'"
  shows "mstack_inv s'"
proof (cases "ms_pc s t")
  case M_idle
  with step show ?thesis by (simp add: stack_next_def)
next
  case (M_push n tries)
  with step have "s' = stack_goto s t (M_link n tries (ms_head s))"
    by (simp add: stack_next_def)
  then show ?thesis
    using M_push mstack_invD(6) [OF inv, of t]
    by (intro mstack_inv_local [OF inv, of t]) (auto simp: holds_def)
next
  case (M_link n tries head)
  obtain nd where nd: "ms_heap s n = Some nd"
    using mstack_invD(4) [OF inv, of n t] M_link by (auto simp: holds_def)
  with step M_link have "s' = (stack_goto s t (M_push_cas n tries head))\<lparr>ms_heap := (ms_heap s)(n \<mapsto> nd\<lparr>n_next := head\<rparr>)\<rparr>"
    by (simp add: stack_next_def)
  then show ?thesis
    using M_link mstack_invD(6) [OF inv, of t]
    by (intro mstack_inv_local [OF inv, of t]) (auto simp: holds_def rd_next_def)
next
  case (M_push_cas n tries head)
  then show ?thesis
    by (rule mstack_inv_push_cas [OF inv step])
next
  case (M_flush r tries)
  show ?thesis
  proof (cases "tries \<noteq> Some 0 \<and> xchg")
    case True
    then show ?thesis
      using step M_flush mstack_inv_flushed [OF inv, of t r]
      by (simp add: stack_next_def atomic_exchange_pointer_def)
  next
    case False
    then show ?thesis
      using step M_flush by (intro mstack_inv_local [OF inv, of t])
        (auto simp: holds_def stack_next_def split: if_splits)
  qed
next
  case (M_flush_cas r tries head)
  then show ?thesis
    by (rule mstack_inv_flush_cas [OF inv step])
next
  case (M_reverse fifo head)
  then show ?thesis
    by (rule mstack_inv_reverse [OF inv step])
next
  case (M_done r p)
  with step have "s' = give (stack_goto s t M_idle) t (set (ms_batch s t))"
    by (simp add: stack_next_def)
  then show ?thesis
    using M_done by (intro mstack_inv_local [OF inv, of t]) (auto simp: holds_def give_def)
qed

lemma mstack_inv_step: "mstack_inv s \<Longrightarrow> stack_step xchg s s' \<Longrightarrow> mstack_inv s'"
proof (elim stack_stepE)
  fix a assume inv: "mstack_inv s" and step: "stack_do xchg a s = Some s'"
  show "mstack_inv s'"
  proof (cases a)
    case (Call_mpush t n tries)
    then show ?thesis
      using step by (intro mstack_inv_local [OF inv, of t]) (auto simp: holds_def split: if_splits)
  next
    case (Call_mflush t r tries)
    then show ?thesis
      using step by (intro mstack_inv_local [OF inv, of t]) (auto simp: holds_def split: if_splits)
  next
    case (Go t)
    then show ?thesis
      using step mstack_inv_next [OF inv] by simp
  next
    case (Write t n nd)
    then have s': "s' = s\<lparr>ms_heap := (ms_heap s)(n \<mapsto> nd)\<rparr>" and n: "n \<in> ms_own s t"
      using step by (auto split: if_splits)
    have "mpc_ok (ms_heap s') (ms_batch s t) (ms_pc s t) = mpc_ok (ms_heap s) (ms_batch s t) (ms_pc s t)"
      using n mstack_invD(6) [OF inv, of t] by (intro mpc_ok_frame) (auto simp: s')
    then show ?thesis
      using n mstack_invD(6,7) [OF inv, of t]
      by (intro mstack_inv_local [OF inv, of t]) (auto simp: s' holds_def)
  qed
qed

lemma mstack_inv_start: "owners_ok h own \<Longrightarrow> mstack_inv (stack_start h own)"
  by (simp add: owners_ok_def mstack_inv_def stack_start_def holds_def mpmc_stack_init_def)

interpretation mstack: invariant mstack_init "stack_step xchg" mstack_inv for xchg
  by unfold_locales (auto simp: mstack_init_def intro: mstack_inv_start mstack_inv_step)

section \<open>Properties\<close>

text \<open>
  C15. Whatever the interleaving of pushes and flushes, with and without timeouts, in either
  variant of the flush: the flushed lists, each read in the order of \<open>mpmc_stack_fifo_flush\<close> and one
  after the other, and then what is still on the stack, are the pushed nodes in the order of
  their successful compare-and-swaps. A thread that is about to return from a flush has the first node of
  its flushed list, linked in that order for a FIFO flush and in the opposite one for a LIFO
  flush.
\<close>

theorem mpmc_stack_flushes_in_push_order:
  assumes "reach mstack_init (stack_step xchg) s"
  shows "ms_pushed s = concat (List.map rev (ms_batches s)) @ rev (ms_items s)
    \<and> chain (ms_heap s) (ms_items s) NULL \<and> ms_head s = chain_start (ms_items s) NULL
    \<and> (\<forall>t r p. ms_pc s t = M_done r p \<longrightarrow>
        (ms_batch s t = [] \<or> ms_batch s t \<in> set (ms_batches s))
        \<and> (let l = if r then rev (ms_batch s t) else ms_batch s t
           in chain (ms_heap s) l NULL \<and> p = chain_start l NULL))"
proof -
  note D = mstack_invD [OF mstack.reach_inv [OF assms TrueI]]
  have "(ms_batch s t = [] \<or> ms_batch s t \<in> set (ms_batches s))
        \<and> (let l = if r then rev (ms_batch s t) else ms_batch s t
           in chain (ms_heap s) l NULL \<and> p = chain_start l NULL)" if "ms_pc s t = M_done r p" for t r p
    using D(7,8) [of t] that by simp
  with D(2,3,9) show ?thesis by blast
qed

text \<open>
  No node is ever in two places: the stack does not hold a node twice or one that a thread
  owns, is pushing or has flushed, and no two threads have the same node.
\<close>

theorem mpmc_stack_nodes_exclusive:
  assumes "reach mstack_init (stack_step xchg) s" and "t \<noteq> u"
  shows "distinct (ms_items s) \<and> holds s t \<inter> set (ms_items s) = {} \<and> holds s t \<inter> holds s u = {}
    \<and> NULL \<notin> holds s t"
  using mstack_invD(1,4,5) [OF mstack.reach_inv [OF assms(1) TrueI]] assms(2) by blast

text \<open>
  Thread 1 pushes between thread 0's read of \<open>head\<close> and its compare-and-swap; thread 2 flushes
  both nodes while thread 0 pushes a third.
\<close>

definition mstack_demo :: "stack_act list" where
  "mstack_demo = [Call_mpush 0 1 None, Go 0, Go 0, Call_mpush 1 3 (Some 1), Go 1, Go 1, Go 1, Go 0, Go 0, Go 0, Go 0,
     Call_mflush 2 True None, Go 2, Go 2, Call_mpush 0 2 None, Go 0, Go 2, Go 0, Go 0, Go 2, Go 2]"

definition mstack_demo_start :: stack_sys where
  "mstack_demo_start = stack_start [1 \<mapsto> node_of 10 0, 2 \<mapsto> node_of 20 0, 3 \<mapsto> node_of 30 0]
     (\<lambda>t. if t = 0 then {1, 2} else if t = 1 then {3} else {})"

lemma mstack_demo_init: "mstack_init mstack_demo_start"
  unfolding mstack_init_def mstack_demo_start_def by (intro exI conjI, rule _ refl) (auto simp: owners_ok_def)

lemma mstack_demo_run:
  "\<exists>s. stack_run False mstack_demo mstack_demo_start = Some s \<and> ms_pushed s = [3, 1, 2]
     \<and> ms_batches s = [[1, 3]] \<and> ms_items s = [2] \<and> ms_pc s 2 = M_done True 3 \<and> ms_batch s 2 = [1, 3]"
proof -
  have "map_option (\<lambda>s. (ms_pushed s, ms_batches s, ms_items s, ms_pc s 2, ms_batch s 2))
      (stack_run False mstack_demo mstack_demo_start) = Some ([3, 1, 2], [[1, 3]], [2], M_done True 3, [1, 3])"
    by code_simp
  then show ?thesis by auto
qed

lemma mstack_demo_reach: "stack_run False mstack_demo mstack_demo_start = Some s \<Longrightarrow>
    reach mstack_init (stack_step False) s"
  using stack_run_reach reach_init mstack_demo_init by metis

theorem mpmc_stack_flushes_in_push_order_witness:
  "\<exists>s. reach mstack_init (stack_step False) s \<and> ms_pushed s = [3, 1] @ [2]
     \<and> ms_pc s 2 = M_done True 3 \<and> chain (ms_heap s) [3, 1] NULL \<and> ms_head s = 2"
proof -
  obtain s where s: "stack_run False mstack_demo mstack_demo_start = Some s" "ms_items s = [2]"
      "ms_pc s 2 = M_done True 3" "ms_batch s 2 = [1, 3]" "ms_pushed s = [3, 1, 2]"
    using mstack_demo_run by blast
  have r: "reach mstack_init (stack_step False) s"
    by (rule mstack_demo_reach [OF s(1)])
  note T = mpmc_stack_flushes_in_push_order [OF r]
  have "chain (ms_heap s) [3, 1] NULL"
    using T [THEN conjunct2, THEN conjunct2, THEN conjunct2, rule_format, OF s(3)] s(4) by simp
  moreover have "ms_head s = 2"
    using T s(2) by simp
  ultimately show ?thesis
    using r s(3,5) by (intro exI [of _ s]) simp
qed

theorem mpmc_stack_nodes_exclusive_witness:
  "\<exists>s. reach mstack_init (stack_step False) s \<and> 3 \<in> holds s 2 \<and> 3 \<notin> holds s 1 \<and> 2 \<in> set (ms_items s) \<and> 2 \<notin> holds s 2"
proof -
  obtain s where s: "stack_run False mstack_demo mstack_demo_start = Some s" "ms_items s = [2]"
      "ms_pc s 2 = M_done True 3" "ms_batch s 2 = [1, 3]"
    using mstack_demo_run by blast
  have r: "reach mstack_init (stack_step False) s"
    by (rule mstack_demo_reach [OF s(1)])
  have "3 \<in> holds s 2"
    using s by (simp add: holds_def)
  moreover note mpmc_stack_nodes_exclusive [OF r, of 2 1]
  ultimately show ?thesis
    using r s(2) by (intro exI [of _ s]) auto
qed

end
