(* ===== verification/Mpmc_Lifo.thy ===== *)
theory Mpmc_Lifo
  imports Machine_Specific Node_Heap
begin

text \<open>
  \<open>mpmc_lifo.h\<close>: the linked stack whose \<open>head\<close> is swapped together with a counter. The union
  \<open>mpmc_lifo_t\<close> is a \<open>pointer_pair\<close>: \<open>counter\<close> is its first member, \<open>head\<close> its second, and a
  pointer has 8 bytes. Here are the operations of one thread, where \<open>env i\<close> is what the other threads do between
  the reads and the compare-and-swap of iteration \<open>i\<close>; \<open>Mpmc_Lifo_Conc\<close> interleaves them.
\<close>

section \<open>The operations\<close>

definition mpmc_lifo_init :: pointer_pair where
  "mpmc_lifo_init = \<lparr>pp_low = 0, pp_high = NULL\<rparr>"

definition mpmc_lifo_destroy :: "heap \<Rightarrow> pointer_pair option \<Rightarrow> heap option" where
  "mpmc_lifo_destroy h lifo = (case lifo of None \<Rightarrow> Some h | Some l \<Rightarrow> free_list h (pp_high l))"

partial_function (option) lifo_push_loop ::
  "arch option \<Rightarrow> (nat \<Rightarrow> pointer_pair \<Rightarrow> pointer_pair) \<Rightarrow> nat \<Rightarrow> heap \<Rightarrow> pointer_pair \<Rightarrow> ptr
    \<Rightarrow> (heap \<times> pointer_pair) option" where
  "lifo_push_loop ar env i h lifo node = do {
     let snapshot = \<lparr>pp_low = pp_low lifo, pp_high = pp_high lifo\<rparr>;
     h' \<leftarrow> wr_next h node (pp_high snapshot);
     let temp = \<lparr>pp_low = pp_low snapshot + 1, pp_high = node\<rparr>;
     let (swapped, lifo') = compare_and_swap2 ar 8 (env i lifo) snapshot temp;
     if swapped then Some (h', lifo') else lifo_push_loop ar env (i + 1) h' lifo' node
   }"

definition mpmc_lifo_push ::
  "arch option \<Rightarrow> (nat \<Rightarrow> pointer_pair \<Rightarrow> pointer_pair) \<Rightarrow> heap \<Rightarrow> pointer_pair \<Rightarrow> ptr
    \<Rightarrow> (heap \<times> pointer_pair) option" where
  "mpmc_lifo_push ar env h lifo node = do {
     c_assert (node \<noteq> NULL);
     lifo_push_loop ar env 0 h lifo node
   }"

partial_function (option) lifo_pop_loop ::
  "arch option \<Rightarrow> (nat \<Rightarrow> pointer_pair \<Rightarrow> pointer_pair) \<Rightarrow> nat \<Rightarrow> heap \<Rightarrow> pointer_pair
    \<Rightarrow> (ptr \<times> pointer_pair) option" where
  "lifo_pop_loop ar env i h lifo =
     (let snapshot = \<lparr>pp_low = pp_low lifo, pp_high = pp_high lifo\<rparr>
      in if pp_high snapshot = NULL then Some (NULL, lifo)
      else do {
        next \<leftarrow> rd_next h (pp_high snapshot);
        let temp = \<lparr>pp_low = pp_low snapshot + 1, pp_high = next\<rparr>;
        let (swapped, lifo') = compare_and_swap2 ar 8 (env i lifo) snapshot temp;
        if swapped then Some (pp_high snapshot, lifo') else lifo_pop_loop ar env (i + 1) h lifo'
      })"

definition mpmc_lifo_pop ::
  "arch option \<Rightarrow> (nat \<Rightarrow> pointer_pair \<Rightarrow> pointer_pair) \<Rightarrow> heap \<Rightarrow> pointer_pair
    \<Rightarrow> (ptr \<times> pointer_pair) option" where
  "mpmc_lifo_pop ar env h lifo = lifo_pop_loop ar env 0 h lifo"

section \<open>A client\<close>

abbreviation alone :: "nat \<Rightarrow> pointer_pair \<Rightarrow> pointer_pair" where
  "alone \<equiv> \<lambda>_ l. l"

datatype lifo_op = Lifo_push ptr | Lifo_pop

fun run_lifo :: "arch option \<Rightarrow> heap \<Rightarrow> pointer_pair \<Rightarrow> lifo_op list \<Rightarrow> (ptr list \<times> heap \<times> pointer_pair) option" where
  "run_lifo ar h l [] = Some ([], h, l)"
| "run_lifo ar h l (Lifo_push n # ops) = do {
     (h', l') \<leftarrow> mpmc_lifo_push ar alone h l n;
     run_lifo ar h' l' ops
   }"
| "run_lifo ar h l (Lifo_pop # ops) = do {
     (r, l') \<leftarrow> mpmc_lifo_pop ar alone h l;
     (rs, h', l'') \<leftarrow> run_lifo ar h l' ops;
     Some (r # rs, h', l'')
   }"

text \<open>The specification: what the pops return, and the nodes left, last pushed first.\<close>

fun spec_lifo :: "ptr list \<Rightarrow> lifo_op list \<Rightarrow> ptr list \<times> ptr list" where
  "spec_lifo ns [] = ([], ns)"
| "spec_lifo ns (Lifo_push n # ops) = spec_lifo (n # ns) ops"
| "spec_lifo [] (Lifo_pop # ops) = (let (rs, ns') = spec_lifo [] ops in (NULL # rs, ns'))"
| "spec_lifo (n # ns) (Lifo_pop # ops) = (let (rs, ns') = spec_lifo ns ops in (n # rs, ns'))"

text \<open>The caller pushes nodes it owns: its own ones and those it popped.\<close>

fun legal_lifo :: "ptr list \<Rightarrow> ptr list \<Rightarrow> lifo_op list \<Rightarrow> bool" where
  "legal_lifo own ns [] = True"
| "legal_lifo own ns (Lifo_push n # ops) \<longleftrightarrow> n \<in> set own \<and> legal_lifo (removeAll n own) (n # ns) ops"
| "legal_lifo own [] (Lifo_pop # ops) = legal_lifo own [] ops"
| "legal_lifo own (n # ns) (Lifo_pop # ops) = legal_lifo (n # own) ns ops"

definition lifo_rep :: "heap \<Rightarrow> pointer_pair \<Rightarrow> ptr list \<Rightarrow> bool" where
  "lifo_rep h l ns \<longleftrightarrow> chain h ns NULL \<and> distinct ns \<and> pp_high l = chain_start ns NULL"

lemma lifo_push_law:
  assumes "lifo_rep h l ns" and "h n = Some nd" and "n \<noteq> NULL" and "n \<notin> set ns"
  shows "\<exists>h' l'. mpmc_lifo_push (Some ARCH_x86_64) alone h l n = Some (h', l') \<and> lifo_rep h' l' (n # ns)
    \<and> (\<forall>a. rd_data h' a = rd_data h a)"
proof -
  let ?h = "h(n \<mapsto> nd\<lparr>n_next := pp_high l\<rparr>)" and ?l = "\<lparr>pp_low = pp_low l + 1, pp_high = n\<rparr>"
  have "mpmc_lifo_push (Some ARCH_x86_64) alone h l n = Some (?h, ?l)"
    using assms(2,3) by (simp add: mpmc_lifo_push_def lifo_push_loop.simps [of _ alone 0] compare_and_swap2_def)
  moreover have "lifo_rep ?h ?l (n # ns)"
    using assms by (simp add: lifo_rep_def rd_next_def)
  moreover have "rd_data ?h a = rd_data h a" for a
    using assms(2) by (simp add: rd_data_def)
  ultimately show ?thesis by blast
qed

lemma lifo_pop_law:
  assumes "lifo_rep h l (n # ns)"
  shows "\<exists>l'. mpmc_lifo_pop (Some ARCH_x86_64) alone h l = Some (n, l') \<and> lifo_rep h l' ns"
  using assms by (auto simp: mpmc_lifo_pop_def lifo_pop_loop.simps [of _ alone 0] compare_and_swap2_def lifo_rep_def)

lemma lifo_pop_empty:
  assumes "lifo_rep h l []"
  shows "mpmc_lifo_pop ar alone h l = Some (NULL, l)"
  using assms by (simp add: mpmc_lifo_pop_def lifo_pop_loop.simps [of _ alone 0] lifo_rep_def Let_def)

lemma run_lifo_refines:
  assumes "legal_lifo own ns ops" and "lifo_rep h l ns" and "\<forall>n \<in> set own. n \<noteq> NULL \<and> h n \<noteq> None \<and> n \<notin> set ns"
  shows "\<exists>h' l'. run_lifo (Some ARCH_x86_64) h l ops = Some (fst (spec_lifo ns ops), h', l')
    \<and> lifo_rep h' l' (snd (spec_lifo ns ops)) \<and> (\<forall>a. rd_data h' a = rd_data h a)"
  using assms
proof (induction own ns ops arbitrary: h l rule: legal_lifo.induct)
  case (2 own ns n ops)
  then obtain nd where nd: "h n = Some nd" "n \<noteq> NULL" "n \<notin> set ns"
    by auto
  obtain h1 l1 where 1: "mpmc_lifo_push (Some ARCH_x86_64) alone h l n = Some (h1, l1)" "lifo_rep h1 l1 (n # ns)"
      "\<And>a. rd_data h1 a = rd_data h a"
    using lifo_push_law [OF 2(3) nd] by blast
  have same: "h1 a \<noteq> None \<longleftrightarrow> h a \<noteq> None" for a
    using 1(3) [of a] by (cases "h1 a"; cases "h a") (simp_all add: rd_data_def)
  have "legal_lifo (removeAll n own) (n # ns) ops"
      "\<forall>m \<in> set (removeAll n own). m \<noteq> NULL \<and> h1 m \<noteq> None \<and> m \<notin> set (n # ns)"
    using 2(2,4) same by auto
  from 2(1) [OF this(1) 1(2) this(2)] show ?case
    using 1 by simp
next
  case (3 own ops)
  from 3(1) [of h l] 3(2-) show ?case
    using lifo_pop_empty [of h l "Some ARCH_x86_64"] by (auto simp: split_beta Let_def)
next
  case (4 own n ns ops)
  obtain l1 where 1: "mpmc_lifo_pop (Some ARCH_x86_64) alone h l = Some (n, l1)" "lifo_rep h l1 ns"
    using lifo_pop_law [OF 4(3)] by blast
  have "\<forall>m \<in> set (n # own). m \<noteq> NULL \<and> h m \<noteq> None \<and> m \<notin> set ns"
    using 4(3,4) by (auto simp: lifo_rep_def dest: rd_next_SomeD)
  with 4(1) [OF _ 1(2)] 4(2) 1 show ?case
    by (auto simp: split_beta Let_def)
qed simp

section \<open>Properties\<close>

text \<open>
  On x86_64 every sequence of pushes and pops by one thread returns what a stack returns
  and leaves the data of the nodes alone; \<open>mpmc_lifo_destroy\<close> then frees exactly the nodes left.
\<close>

theorem mpmc_lifo_history:
  assumes "legal_lifo own [] ops" and "\<forall>n \<in> set own. n \<noteq> NULL \<and> h n \<noteq> None"
  shows "\<exists>h' l'. run_lifo (Some ARCH_x86_64) h mpmc_lifo_init ops = Some (fst (spec_lifo [] ops), h', l')
    \<and> (\<forall>a. rd_data h' a = rd_data h a)
    \<and> mpmc_lifo_destroy h' (Some l') = Some (\<lambda>a. if a \<in> set (snd (spec_lifo [] ops)) then None else h' a)"
proof -
  have "lifo_rep h mpmc_lifo_init []"
    by (simp add: lifo_rep_def mpmc_lifo_init_def)
  from run_lifo_refines [OF assms(1) this] assms(2) obtain h' l' where
    1: "run_lifo (Some ARCH_x86_64) h mpmc_lifo_init ops = Some (fst (spec_lifo [] ops), h', l')"
      "lifo_rep h' l' (snd (spec_lifo [] ops))" "\<forall>a. rd_data h' a = rd_data h a"
    by auto
  have "mpmc_lifo_destroy h' (Some l') = Some (\<lambda>a. if a \<in> set (snd (spec_lifo [] ops)) then None else h' a)"
    using 1(2) free_list_chain by (simp add: mpmc_lifo_destroy_def lifo_rep_def)
  with 1 show ?thesis by blast
qed

theorem mpmc_lifo_history_witness:
  "\<exists>h' l'. run_lifo (Some ARCH_x86_64) [1 \<mapsto> node_of 10 0, 2 \<mapsto> node_of 20 0] mpmc_lifo_init
       [Lifo_push 1, Lifo_push 2, Lifo_pop, Lifo_push 2, Lifo_pop, Lifo_pop, Lifo_pop, Lifo_push 1]
       = Some ([2, 2, 1, NULL], h', l')
     \<and> mpmc_lifo_destroy h' (Some l') = Some (\<lambda>a. if a = 1 then None else h' a)"
  using mpmc_lifo_history [of "[1, 2]" "[Lifo_push 1, Lifo_push 2, Lifo_pop, Lifo_push 2, Lifo_pop, Lifo_pop, Lifo_pop, Lifo_push 1]"
      "[1 \<mapsto> node_of 10 0, 2 \<mapsto> node_of 20 0]"]
  by auto

text \<open>
  On any other architecture with 8-byte pointers \<open>compare_and_swap2\<close> swaps the counter alone:
  a push returns without having pushed its node.
\<close>

theorem mpmc_lifo_push_lost_off_x86_64:
  assumes "ar \<noteq> Some ARCH_x86_64" and "n \<noteq> NULL" and "h n = Some nd"
  shows "\<exists>h' l'. mpmc_lifo_push ar alone h mpmc_lifo_init n = Some (h', l')
    \<and> mpmc_lifo_pop ar alone h' l' = Some (NULL, l')"
proof -
  have "mpmc_lifo_push ar alone h mpmc_lifo_init n
      = Some (h(n \<mapsto> nd\<lparr>n_next := NULL\<rparr>), \<lparr>pp_low = 1, pp_high = NULL\<rparr>)"
    using assms by (simp add: mpmc_lifo_push_def lifo_push_loop.simps [of _ alone 0] compare_and_swap2_def mpmc_lifo_init_def)
  then show ?thesis
    by (simp add: lifo_pop_empty lifo_rep_def)
qed

theorem mpmc_lifo_push_lost_off_x86_64_witness:
  "\<exists>h' l'. mpmc_lifo_push None alone [5 \<mapsto> node_of 50 0] mpmc_lifo_init 5 = Some (h', l')
     \<and> mpmc_lifo_pop None alone h' l' = Some (NULL, l')"
  by (rule mpmc_lifo_push_lost_off_x86_64) simp_all

end
