(* ===== verification/Mpmc_Lifo_Conc.thy ===== *)
theory Mpmc_Lifo_Conc
  imports Mpmc_Lifo
begin

text \<open>
  \<open>mpmc_lifo.h\<close> under any number of threads, cut at each access to shared memory: the counter,
  \<open>head\<close> and the node's \<open>next\<close> are read one by one, then the pair is swapped. A
  thread owns the nodes it popped and may write to them, free them, and get new ones from
  \<open>malloc\<close>, at addresses that were freed before too. A pop that reads the \<open>next\<close> of a node another
  thread has freed in the meantime gets \<open>junk\<close>, and \<open>lf_freed_read\<close> remembers it. \<open>lf_items\<close> and
  \<open>lf_log\<close> are ghost variables: the nodes on the stack and the operations that took effect.
\<close>

section \<open>Steps\<close>

datatype lifo_pc =
    L_idle
  | L_push_counter ptr
  | L_push_head ptr u64
  | L_push_link ptr u64 ptr
  | L_push_cas ptr u64 ptr
  | L_pop_counter
  | L_pop_head u64
  | L_pop_next u64 ptr
  | L_pop_cas u64 ptr ptr

datatype lifo_event = L_pushed ptr | L_popped ptr | L_empty

record lifo_sys =
  lf_blob :: pointer_pair
  lf_heap :: heap
  lf_pc :: "tid \<Rightarrow> lifo_pc"
  lf_own :: "tid \<Rightarrow> ptr set"
  lf_freed_read :: bool
  lf_items :: "ptr list"
  lf_log :: "lifo_event list"

abbreviation lifo_goto :: "lifo_sys \<Rightarrow> tid \<Rightarrow> lifo_pc \<Rightarrow> lifo_sys" where
  "lifo_goto s t pc \<equiv> s\<lparr>lf_pc := (lf_pc s)(t := pc)\<rparr>"

definition lifo_next :: "arch option \<Rightarrow> tid \<Rightarrow> ptr \<Rightarrow> lifo_sys \<Rightarrow> lifo_sys option" where
  "lifo_next ar t junk s =
     (case lf_pc s t of
        L_idle \<Rightarrow> None
      | L_push_counter n \<Rightarrow> Some (lifo_goto s t (L_push_head n (pp_low (lf_blob s))))
      | L_push_head n c \<Rightarrow> Some (lifo_goto s t (L_push_link n c (pp_high (lf_blob s))))
      | L_push_link n c hp \<Rightarrow> do {
          h' \<leftarrow> wr_next (lf_heap s) n hp;
          Some ((lifo_goto s t (L_push_cas n c hp))\<lparr>lf_heap := h'\<rparr>)
        }
      | L_push_cas n c hp \<Rightarrow>
          (case compare_and_swap2 ar 8 (lf_blob s) \<lparr>pp_low = c, pp_high = hp\<rparr> \<lparr>pp_low = c + 1, pp_high = n\<rparr> of
             (True, b) \<Rightarrow> Some ((lifo_goto s t L_idle)\<lparr>lf_blob := b,
               lf_items := n # lf_items s, lf_log := lf_log s @ [L_pushed n]\<rparr>)
           | (False, _) \<Rightarrow> Some (lifo_goto s t (L_push_counter n)))
      | L_pop_counter \<Rightarrow> Some (lifo_goto s t (L_pop_head (pp_low (lf_blob s))))
      | L_pop_head c \<Rightarrow>
          (let hp = pp_high (lf_blob s)
           in if hp = NULL then Some ((lifo_goto s t L_idle)\<lparr>lf_log := lf_log s @ [L_empty]\<rparr>)
              else Some (lifo_goto s t (L_pop_next c hp)))
      | L_pop_next c hp \<Rightarrow>
          (case rd_next (lf_heap s) hp of
             Some nx \<Rightarrow> Some (lifo_goto s t (L_pop_cas c hp nx))
           | None \<Rightarrow> Some ((lifo_goto s t (L_pop_cas c hp junk))\<lparr>lf_freed_read := True\<rparr>))
      | L_pop_cas c hp nx \<Rightarrow>
          (case compare_and_swap2 ar 8 (lf_blob s) \<lparr>pp_low = c, pp_high = hp\<rparr> \<lparr>pp_low = c + 1, pp_high = nx\<rparr> of
             (True, b) \<Rightarrow> Some ((lifo_goto s t L_idle)\<lparr>lf_blob := b, lf_own := (lf_own s)(t := insert hp (lf_own s t)),
               lf_items := tl (lf_items s), lf_log := lf_log s @ [L_popped hp]\<rparr>)
           | (False, _) \<Rightarrow> Some (lifo_goto s t L_pop_counter)))"

text \<open>
  What can happen next; \<open>frees\<close> tells whether the program frees nodes while the stack is in use.
\<close>

datatype lifo_act =
    Call_lpush tid ptr
  | Call_lpop tid
  | Lgo tid ptr
  | Lwrite tid ptr node
  | Lmalloc tid ptr node
  | Lfree tid ptr

fun lifo_do :: "bool \<Rightarrow> arch option \<Rightarrow> lifo_act \<Rightarrow> lifo_sys \<Rightarrow> lifo_sys option" where
  "lifo_do frees ar (Call_lpush t n) s =
     (if lf_pc s t = L_idle \<and> n \<in> lf_own s t
      then Some ((lifo_goto s t (L_push_counter n))\<lparr>lf_own := (lf_own s)(t := lf_own s t - {n})\<rparr>)
      else None)"
| "lifo_do frees ar (Call_lpop t) s =
     (if lf_pc s t = L_idle then Some (lifo_goto s t L_pop_counter) else None)"
| "lifo_do frees ar (Lgo t junk) s = lifo_next ar t junk s"
| "lifo_do frees ar (Lwrite t n nd) s =
     (if n \<in> lf_own s t then Some (s\<lparr>lf_heap := (lf_heap s)(n \<mapsto> nd)\<rparr>) else None)"
| "lifo_do frees ar (Lmalloc t n nd) s =
     (if n \<noteq> NULL \<and> lf_heap s n = None
      then Some (s\<lparr>lf_heap := (lf_heap s)(n \<mapsto> nd), lf_own := (lf_own s)(t := insert n (lf_own s t))\<rparr>)
      else None)"
| "lifo_do frees ar (Lfree t n) s =
     (if frees \<and> n \<in> lf_own s t
      then Some (s\<lparr>lf_heap := (lf_heap s)(n := None), lf_own := (lf_own s)(t := lf_own s t - {n})\<rparr>)
      else None)"

inductive lifo_step :: "bool \<Rightarrow> arch option \<Rightarrow> lifo_sys \<Rightarrow> lifo_sys \<Rightarrow> bool" for frees ar where
  lifo_stepI: "lifo_do frees ar a s = Some s' \<Longrightarrow> lifo_step frees ar s s'"

inductive_cases lifo_stepE: "lifo_step frees ar s s'"

definition lifo_start :: lifo_sys where
  "lifo_start = \<lparr>lf_blob = mpmc_lifo_init, lf_heap = (\<lambda>_. None), lf_pc = (\<lambda>_. L_idle), lf_own = (\<lambda>_. {}),
     lf_freed_read = False, lf_items = [], lf_log = []\<rparr>"

definition lifo_init :: "lifo_sys \<Rightarrow> bool" where
  "lifo_init s \<longleftrightarrow> s = lifo_start"

fun lifo_run :: "bool \<Rightarrow> arch option \<Rightarrow> lifo_act list \<Rightarrow> lifo_sys \<Rightarrow> lifo_sys option" where
  "lifo_run frees ar [] s = Some s"
| "lifo_run frees ar (a # as) s = Option.bind (lifo_do frees ar a s) (lifo_run frees ar as)"

lemma lifo_run_reach:
  "lifo_run frees ar as s = Some s' \<Longrightarrow> reach init (lifo_step frees ar) s \<Longrightarrow> reach init (lifo_step frees ar) s'"
proof (induction as arbitrary: s)
  case (Cons a as)
  then obtain s1 where "lifo_do frees ar a s = Some s1" "lifo_run frees ar as s1 = Some s'"
    by (auto split: bind_splits)
  then show ?case
    using Cons reach_step lifo_stepI by metis
qed simp

section \<open>The specification\<close>

text \<open>What a stack does with the operations of a log; \<open>None\<close>: they are not those of a stack.\<close>

fun replay_lifo :: "ptr list \<Rightarrow> lifo_event list \<Rightarrow> ptr list option" where
  "replay_lifo ns [] = Some ns"
| "replay_lifo ns (L_pushed n # es) = replay_lifo (n # ns) es"
| "replay_lifo ns (L_popped n # es) = (case ns of [] \<Rightarrow> None | m # ms \<Rightarrow> if m = n then replay_lifo ms es else None)"
| "replay_lifo ns (L_empty # es) = (if ns = [] then replay_lifo ns es else None)"

lemma replay_lifo_append:
  "replay_lifo ns (es @ es') = Option.bind (replay_lifo ns es) (\<lambda>ms. replay_lifo ms es')"
  by (induction ns es rule: replay_lifo.induct) (auto split: list.splits)

text \<open>The number of swaps of the pair so far.\<close>

definition swaps :: "lifo_event list \<Rightarrow> nat" where
  "swaps es = length (filter (\<lambda>e. e \<noteq> L_empty) es)"

lemma swaps_simps [simp]:
  "swaps [] = 0" "swaps (es @ [L_pushed n]) = Suc (swaps es)" "swaps (es @ [L_popped n]) = Suc (swaps es)"
  "swaps (es @ [L_empty]) = swaps es"
  by (simp_all add: swaps_def)

section \<open>The invariant\<close>

fun lifo_transit :: "lifo_pc \<Rightarrow> ptr set" where
  "lifo_transit (L_push_counter n) = {n}"
| "lifo_transit (L_push_head n _) = {n}"
| "lifo_transit (L_push_link n _ _) = {n}"
| "lifo_transit (L_push_cas n _ _) = {n}"
| "lifo_transit _ = {}"

definition lf_holds :: "lifo_sys \<Rightarrow> tid \<Rightarrow> ptr set" where
  "lf_holds s t = lf_own s t \<union> lifo_transit (lf_pc s t)"

fun lpc_ok :: "nat \<Rightarrow> ptr \<Rightarrow> heap \<Rightarrow> lifo_pc \<Rightarrow> bool" where
  "lpc_ok m q h (L_push_cas n c hp) \<longleftrightarrow> rd_next h n = Some hp"
| "lpc_ok m q h (L_pop_head c) \<longleftrightarrow> since m c True"
| "lpc_ok m q h (L_pop_next c hp) \<longleftrightarrow> hp \<noteq> NULL \<and> since m c (q = hp)"
| "lpc_ok m q h (L_pop_cas c hp nx) \<longleftrightarrow> hp \<noteq> NULL \<and> since m c (q = hp \<and> rd_next h hp = Some nx)"
| "lpc_ok m q h _ = True"

definition lifo_inv :: "lifo_sys \<Rightarrow> bool" where
  "lifo_inv s \<longleftrightarrow>
     distinct (lf_items s) \<and> chain (lf_heap s) (lf_items s) NULL
   \<and> pp_high (lf_blob s) = chain_start (lf_items s) NULL
   \<and> pp_low (lf_blob s) = of_nat (swaps (lf_log s))
   \<and> (\<forall>t. \<forall>n \<in> lf_holds s t. n \<noteq> NULL \<and> lf_heap s n \<noteq> None \<and> n \<notin> set (lf_items s))
   \<and> (\<forall>t u. t \<noteq> u \<longrightarrow> lf_holds s t \<inter> lf_holds s u = {})
   \<and> (\<forall>t. lf_own s t \<inter> lifo_transit (lf_pc s t) = {})
   \<and> (\<forall>t. lpc_ok (swaps (lf_log s)) (pp_high (lf_blob s)) (lf_heap s) (lf_pc s t))
   \<and> replay_lifo [] (lf_log s) = Some (lf_items s)"

lemma lifo_invD:
  assumes "lifo_inv s"
  shows "distinct (lf_items s)" "chain (lf_heap s) (lf_items s) NULL"
    "pp_high (lf_blob s) = chain_start (lf_items s) NULL"
    "pp_low (lf_blob s) = of_nat (swaps (lf_log s))"
    "n \<in> lf_holds s t \<Longrightarrow> n \<noteq> NULL \<and> n \<notin> set (lf_items s) \<and> (\<exists>nd. lf_heap s n = Some nd)"
    "t \<noteq> u \<Longrightarrow> lf_holds s t \<inter> lf_holds s u = {}"
    "lf_own s t \<inter> lifo_transit (lf_pc s t) = {}"
    "lpc_ok (swaps (lf_log s)) (pp_high (lf_blob s)) (lf_heap s) (lf_pc s t)"
    "replay_lifo [] (lf_log s) = Some (lf_items s)"
  using assms by (auto simp: lifo_inv_def)

text \<open>The facts of a thread survive what the others do.\<close>

lemma lpc_ok_swap:
  assumes "lpc_ok m q h pc" and "\<forall>n \<in> lifo_transit pc. h' n = h n"
  shows "lpc_ok (Suc m) q' h' pc"
  using assms by (cases pc) (auto simp: rd_next_def intro: since_later)

lemma lpc_ok_frame:
  assumes "lpc_ok m q h pc" and "\<forall>n \<in> lifo_transit pc. h' n = h n" and "q \<noteq> NULL \<Longrightarrow> h' q = h q"
  shows "lpc_ok m q h' pc"
  using assms by (cases pc) (auto simp: rd_next_def elim!: since_mono)

text \<open>
  One thread moves: what it writes to is its own or newly allocated, and what it holds and what
  is on the stack afterwards was so before, or is newly allocated.
\<close>

lemma lifo_inv_move:
  assumes inv: "lifo_inv s"
    and others: "\<And>u. u \<noteq> t \<Longrightarrow> lf_own s' u = lf_own s u \<and> lf_pc s' u = lf_pc s u"
    and heap: "\<And>n. n \<notin> lf_holds s t \<Longrightarrow> lf_heap s n \<noteq> None \<Longrightarrow> lf_heap s' n = lf_heap s n"
    and nodes: "lf_holds s' t \<union> set (lf_items s') \<subseteq> lf_holds s t \<union> set (lf_items s) \<union> {n. lf_heap s n = None}"
    and alloc: "\<And>n. n \<in> lf_holds s' t \<Longrightarrow> n \<noteq> NULL \<and> lf_heap s' n \<noteq> None"
    and sep: "lf_holds s' t \<inter> set (lf_items s') = {}" "lf_own s' t \<inter> lifo_transit (lf_pc s' t) = {}"
    and items: "distinct (lf_items s')" "chain (lf_heap s') (lf_items s') NULL"
      "pp_high (lf_blob s') = chain_start (lf_items s') NULL"
      "pp_low (lf_blob s') = of_nat (swaps (lf_log s'))"
    and pc: "lpc_ok (swaps (lf_log s')) (pp_high (lf_blob s')) (lf_heap s') (lf_pc s' t)"
    and log: "swaps (lf_log s') = Suc (swaps (lf_log s))
        \<or> swaps (lf_log s') = swaps (lf_log s) \<and> pp_high (lf_blob s') = pp_high (lf_blob s)"
      "replay_lifo [] (lf_log s') = Some (lf_items s')"
  shows "lifo_inv s'"
proof -
  note D = lifo_invD [OF inv]
  have held: "lf_holds s' u = lf_holds s u" if "u \<noteq> t" for u
    using others [OF that] by (simp add: lf_holds_def)
  have apart: "n \<notin> lf_holds s' t" "n \<notin> set (lf_items s')" "n \<noteq> NULL" "lf_heap s' n \<noteq> None" "lf_heap s' n = lf_heap s n"
    if "u \<noteq> t" "n \<in> lf_holds s u" for u n
  proof -
    have 1: "n \<notin> lf_holds s t" "n \<notin> set (lf_items s)" "n \<noteq> NULL" "lf_heap s n \<noteq> None"
      using D(5,6) that by fastforce+
    then show "n \<notin> lf_holds s' t" "n \<notin> set (lf_items s')" "n \<noteq> NULL" "lf_heap s' n \<noteq> None" "lf_heap s' n = lf_heap s n"
      using nodes heap by auto
  qed
  show ?thesis
    unfolding lifo_inv_def
  proof (intro conjI allI impI ballI)
    fix u n
    assume n: "n \<in> lf_holds s' u"
    then show "n \<noteq> NULL" "lf_heap s' n \<noteq> None"
      using apart [of u n] alloc [of n] held by (cases "u = t"; auto)+
    from n show "n \<notin> set (lf_items s')"
      using apart [of u n] sep held by (cases "u = t"; auto)
  next
    fix u v :: tid
    assume "u \<noteq> v"
    then show "lf_holds s' u \<inter> lf_holds s' v = {}"
      using D(6) held apart by (cases "u = t"; cases "v = t") auto
  next
    fix u
    show "lf_own s' u \<inter> lifo_transit (lf_pc s' u) = {}"
      using D(7) others [of u] sep by (cases "u = t") simp_all
    show "lpc_ok (swaps (lf_log s')) (pp_high (lf_blob s')) (lf_heap s') (lf_pc s' u)"
    proof (cases "u = t")
      case False
      have same: "\<forall>n \<in> lifo_transit (lf_pc s u). lf_heap s' n = lf_heap s n"
        using apart(5) [OF False] by (simp add: lf_holds_def)
      have "lf_heap s' q = lf_heap s q" if "q = pp_high (lf_blob s)" "q \<noteq> NULL" for q
      proof -
        have "q \<in> set (lf_items s)"
          using that D(3) by (cases "lf_items s") simp_all
        then show ?thesis
          using heap [of q] D(5) [of q t] chain_allocated [OF D(2), of q] by auto
      qed
      then show ?thesis
        using log(1) lpc_ok_swap [OF D(8) same] lpc_ok_frame [OF D(8) same] others [OF False] by auto
    qed (simp add: pc)
  qed (use items log in simp_all)
qed

text \<open>The same when no swap happens and \<open>t\<close> gets no node that was not its own.\<close>

lemma lifo_inv_local:
  assumes inv: "lifo_inv s"
    and "\<And>u. u \<noteq> t \<Longrightarrow> lf_own s' u = lf_own s u \<and> lf_pc s' u = lf_pc s u"
    and "\<And>n. n \<notin> lf_holds s t \<Longrightarrow> lf_heap s n \<noteq> None \<Longrightarrow> lf_heap s' n = lf_heap s n"
    and "lf_holds s' t \<subseteq> lf_holds s t \<union> {n. lf_heap s n = None}"
    and "\<And>n. n \<in> lf_holds s' t \<Longrightarrow> n \<noteq> NULL \<and> lf_heap s' n \<noteq> None"
    and "lf_own s' t \<inter> lifo_transit (lf_pc s' t) = {}"
    and "lpc_ok (swaps (lf_log s)) (pp_high (lf_blob s)) (lf_heap s') (lf_pc s' t)"
    and "lf_blob s' = lf_blob s" "lf_items s' = lf_items s" "lf_log s' = lf_log s"
  shows "lifo_inv s'"
proof -
  note D = lifo_invD [OF inv]
  have "lf_heap s' n = lf_heap s n" if "n \<in> set (lf_items s)" for n
    using assms(3) [of n] D(5) [of n t] chain_allocated [OF D(2) that] that by auto
  then have "chain (lf_heap s') (lf_items s) NULL"
    using D(2) chain_frame [of "lf_items s" "lf_heap s'" "lf_heap s" NULL] by (simp add: rd_next_def)
  moreover have "lf_holds s' t \<inter> set (lf_items s) = {}"
    using assms(4) D(5) chain_allocated [OF D(2)] by fastforce
  ultimately show ?thesis
    using assms(2-) D(1,3,4,9) by (intro lifo_inv_move [OF inv, of t]) auto
qed

lemma lifo_inv_push_cas:
  assumes inv: "lifo_inv s" and pc: "lf_pc s t = L_push_cas n c hp"
    and eq: "lf_blob s = \<lparr>pp_low = c, pp_high = hp\<rparr>"
    and s': "s' = (lifo_goto s t L_idle)\<lparr>lf_blob := \<lparr>pp_low = c + 1, pp_high = n\<rparr>,
      lf_items := n # lf_items s, lf_log := lf_log s @ [L_pushed n]\<rparr>"
  shows "lifo_inv s'"
proof -
  note D = lifo_invD [OF inv]
  have n: "n \<noteq> NULL" "n \<notin> set (lf_items s)" "n \<notin> lf_own s t" "rd_next (lf_heap s) n = Some hp"
    using D(5) [of n t] D(7) [of t] D(8) [of t] pc by (auto simp: lf_holds_def)
  moreover have "m \<noteq> NULL \<and> lf_heap s m \<noteq> None \<and> m \<notin> set (lf_items s)" if "m \<in> lf_own s t" for m
    using D(5) [of m t] that by (auto simp: lf_holds_def)
  ultimately show ?thesis
    using D(1,2,3,4,9) pc eq
    by (intro lifo_inv_move [OF inv, of t]) (auto simp: s' lf_holds_def replay_lifo_append)
qed

lemma lifo_inv_pop_cas:
  assumes inv: "lifo_inv s" and pc: "lf_pc s t = L_pop_cas c hp nx"
    and eq: "lf_blob s = \<lparr>pp_low = c, pp_high = hp\<rparr>" and bound: "swaps (lf_log s) < 2 ^ 64"
    and s': "s' = (lifo_goto s t L_idle)\<lparr>lf_blob := \<lparr>pp_low = c + 1, pp_high = nx\<rparr>,
      lf_own := (lf_own s)(t := insert hp (lf_own s t)),
      lf_items := tl (lf_items s), lf_log := lf_log s @ [L_popped hp]\<rparr>"
  shows "lifo_inv s'"
proof -
  note D = lifo_invD [OF inv]
  have "hp \<noteq> NULL" and nx: "rd_next (lf_heap s) hp = Some nx"
    using D(4) D(8) [of t] pc eq since_now [OF bound] by auto
  then obtain ns where ns: "lf_items s = hp # ns"
    using D(3) eq by (cases "lf_items s") auto
  have "m \<noteq> NULL \<and> lf_heap s m \<noteq> None \<and> m \<notin> set (lf_items s)" if "m \<in> lf_own s t" for m
    using D(5) [of m t] that by (auto simp: lf_holds_def)
  then show ?thesis
    using D(1,2,4,9) pc eq ns nx
    by (intro lifo_inv_move [OF inv, of t]) (auto simp: s' lf_holds_def replay_lifo_append rd_next_def)
qed

lemma lifo_inv_read_head:
  assumes inv: "lifo_inv s" and step: "lifo_next (Some ARCH_x86_64) t junk s = Some s'" and L_pop_head: "lf_pc s t = L_pop_head c"
  shows "lifo_inv s'"
proof -
  note D = lifo_invD [OF inv]
  have held: "\<forall>m \<in> lf_own s t \<union> lifo_transit (lf_pc s t). m \<noteq> NULL \<and> lf_heap s m \<noteq> None"
    using D(5) [of _ t] by (auto simp: lf_holds_def)
  show ?thesis
  proof (cases "pp_high (lf_blob s) = NULL")
    case True
    then have "lf_items s = []"
      using D(2,3) chain_start_NULL by metis
    moreover have "s' = (lifo_goto s t L_idle)\<lparr>lf_log := lf_log s @ [L_empty]\<rparr>"
      using step L_pop_head True by (simp add: lifo_next_def Let_def)
    ultimately show ?thesis
      using L_pop_head held D(1-4,9)
      by (intro lifo_inv_move [OF inv, of t]) (auto simp: lf_holds_def replay_lifo_append)
  next
    case False
    then show ?thesis
      using step L_pop_head held D(8) [of t]
      by (intro lifo_inv_local [OF inv, of t]) (auto simp: lifo_next_def lf_holds_def Let_def)
  qed
qed

lemma lifo_inv_swap:
  assumes inv: "lifo_inv s" and step: "lifo_next (Some ARCH_x86_64) t junk s = Some s'" and bound: "swaps (lf_log s') < 2 ^ 64" and L_pop_cas: "lf_pc s t = L_pop_cas c hp nx"
  shows "lifo_inv s'"
proof -
  note D = lifo_invD [OF inv]
  have held: "\<forall>m \<in> lf_own s t \<union> lifo_transit (lf_pc s t). m \<noteq> NULL \<and> lf_heap s m \<noteq> None"
    using D(5) [of _ t] by (auto simp: lf_holds_def)
  show ?thesis
  proof (cases "lf_blob s = \<lparr>pp_low = c, pp_high = hp\<rparr>")
    case True
    then have s': "s' = (lifo_goto s t L_idle)\<lparr>lf_blob := \<lparr>pp_low = c + 1, pp_high = nx\<rparr>,
        lf_own := (lf_own s)(t := insert hp (lf_own s t)),
        lf_items := tl (lf_items s), lf_log := lf_log s @ [L_popped hp]\<rparr>"
      using step L_pop_cas by (simp add: lifo_next_def compare_and_swap2_def)
    moreover from this bound have "swaps (lf_log s) < 2 ^ 64"
      by simp
    ultimately show ?thesis
      using lifo_inv_pop_cas [OF inv L_pop_cas True] by blast
  next
    case False
    then show ?thesis
      using step L_pop_cas held
      by (intro lifo_inv_local [OF inv, of t]) (auto simp: lifo_next_def lf_holds_def compare_and_swap2_def)
  qed
qed

lemma lifo_inv_next:
  assumes inv: "lifo_inv s" and bound: "swaps (lf_log s') < 2 ^ 64"
    and step: "lifo_next (Some ARCH_x86_64) t junk s = Some s'"
  shows "lifo_inv s'"
proof -
  note D = lifo_invD [OF inv]
  have held: "\<forall>m \<in> lf_own s t \<union> lifo_transit (lf_pc s t). m \<noteq> NULL \<and> lf_heap s m \<noteq> None"
    using D(5) [of _ t] by (auto simp: lf_holds_def)
  show ?thesis
  proof (cases "lf_pc s t")
    case L_idle
    with step show ?thesis by (simp add: lifo_next_def)
  next
    case (L_push_counter n)
    then show ?thesis
      using step held D(7) [of t] by (intro lifo_inv_local [OF inv, of t]) (auto simp: lifo_next_def lf_holds_def)
  next
    case (L_push_head n c)
    then show ?thesis
      using step held D(7) [of t] by (intro lifo_inv_local [OF inv, of t]) (auto simp: lifo_next_def lf_holds_def)
  next
    case (L_push_link n c hp)
    then obtain nd where nd: "lf_heap s n = Some nd"
      using held by fastforce
    with step L_push_link have "s' = (lifo_goto s t (L_push_cas n c hp))\<lparr>lf_heap := (lf_heap s)(n \<mapsto> nd\<lparr>n_next := hp\<rparr>)\<rparr>"
      by (simp add: lifo_next_def)
    then show ?thesis
      using L_push_link held D(7) [of t]
      by (intro lifo_inv_local [OF inv, of t]) (auto simp: lf_holds_def rd_next_def)
  next
    case (L_push_cas n c hp)
    show ?thesis
    proof (cases "lf_blob s = \<lparr>pp_low = c, pp_high = hp\<rparr>")
      case True
      show ?thesis
        by (rule lifo_inv_push_cas [OF inv L_push_cas True])
          (use step L_push_cas True in \<open>simp add: lifo_next_def compare_and_swap2_def\<close>)
    next
      case False
      then show ?thesis
        using step L_push_cas held D(7) [of t]
        by (intro lifo_inv_local [OF inv, of t]) (auto simp: lifo_next_def lf_holds_def compare_and_swap2_def)
    qed
  next
    case L_pop_counter
    then show ?thesis
      using step held D(4) since_new
      by (intro lifo_inv_local [OF inv, of t]) (auto simp: lifo_next_def lf_holds_def)
  next
    case (L_pop_head c)
    then show ?thesis
      by (rule lifo_inv_read_head [OF inv step])
  next
    case (L_pop_next c hp)
    have "rd_next (lf_heap s) hp \<noteq> None" if "pp_high (lf_blob s) = hp"
      using that D(2,3) D(8) [of t] L_pop_next by (cases "lf_items s") auto
    then show ?thesis
      using step L_pop_next held D(8) [of t]
      by (intro lifo_inv_local [OF inv, of t])
        (auto simp: lifo_next_def lf_holds_def split: option.splits elim!: since_mono)
  next
    case (L_pop_cas c hp nx)
    then show ?thesis
      by (rule lifo_inv_swap [OF inv step bound])
  qed
qed

lemma lifo_inv_step:
  assumes inv: "lifo_inv s" and bound: "swaps (lf_log s') < 2 ^ 64" and step: "lifo_step frees (Some ARCH_x86_64) s s'"
  shows "lifo_inv s'"
proof -
  note D = lifo_invD [OF inv]
  obtain a where a: "lifo_do frees (Some ARCH_x86_64) a s = Some s'"
    using step by (elim lifo_stepE)
  have held: "\<forall>m \<in> lf_own s t \<union> lifo_transit (lf_pc s t). m \<noteq> NULL \<and> lf_heap s m \<noteq> None" for t
    using D(5) [of _ t] by (auto simp: lf_holds_def)
  show ?thesis
  proof (cases a)
    case (Call_lpush t n)
    then show ?thesis
      using a held [where t = t] by (intro lifo_inv_local [OF inv, of t]) (auto simp: lf_holds_def split: if_splits)
  next
    case (Call_lpop t)
    then show ?thesis
      using a held [where t = t] by (intro lifo_inv_local [OF inv, of t]) (auto simp: lf_holds_def split: if_splits)
  next
    case (Lgo t junk)
    then show ?thesis
      using a lifo_inv_next [OF inv bound] by simp
  next
    case (Lwrite t n nd)
    then have s': "s' = s\<lparr>lf_heap := (lf_heap s)(n \<mapsto> nd)\<rparr>" and n: "n \<in> lf_own s t"
      using a by (auto split: if_splits)
    have "n \<notin> set (lf_items s)"
      using D(5) [of n t] n by (simp add: lf_holds_def)
    then have "lpc_ok (swaps (lf_log s)) (pp_high (lf_blob s)) (lf_heap s') (lf_pc s t)"
      using n D(7) [of t] D(3) by (intro lpc_ok_frame [OF D(8)]) (cases "lf_items s"; auto simp: s')+
    then show ?thesis
      using n held [where t = t] D(7) [of t] by (intro lifo_inv_local [OF inv, of t]) (auto simp: s' lf_holds_def)
  next
    case (Lmalloc t n nd)
    then have s': "s' = s\<lparr>lf_heap := (lf_heap s)(n \<mapsto> nd), lf_own := (lf_own s)(t := insert n (lf_own s t))\<rparr>"
      and n: "n \<noteq> NULL" "lf_heap s n = None"
      using a by (auto split: if_splits)
    have "n \<notin> set (lf_items s)" "n \<notin> lifo_transit (lf_pc s t)"
      using n chain_allocated [OF D(2), of n] bspec [OF held [of t], of n] by auto
    then have "lpc_ok (swaps (lf_log s)) (pp_high (lf_blob s)) (lf_heap s') (lf_pc s t)"
      using D(3) by (intro lpc_ok_frame [OF D(8)]) (cases "lf_items s"; auto simp: s')+
    then show ?thesis
      using n held [where t = t] D(7) [of t] \<open>n \<notin> lifo_transit (lf_pc s t)\<close>
      by (intro lifo_inv_local [OF inv, of t]) (auto simp: s' lf_holds_def)
  next
    case (Lfree t n)
    then have s': "s' = s\<lparr>lf_heap := (lf_heap s)(n := None), lf_own := (lf_own s)(t := lf_own s t - {n})\<rparr>"
      and n: "n \<in> lf_own s t"
      using a by (auto split: if_splits)
    have "n \<notin> set (lf_items s)"
      using D(5) [of n t] n by (simp add: lf_holds_def)
    then have "lpc_ok (swaps (lf_log s)) (pp_high (lf_blob s)) (lf_heap s') (lf_pc s t)"
      using n D(7) [of t] D(3) by (intro lpc_ok_frame [OF D(8)]) (cases "lf_items s"; auto simp: s')+
    then show ?thesis
      using n held [where t = t] D(7) [of t] by (intro lifo_inv_local [OF inv, of t]) (auto simp: s' lf_holds_def)
  qed
qed

text \<open>Without \<open>free\<close>, no pop reads a freed node.\<close>

definition no_freed_read :: "lifo_sys \<Rightarrow> bool" where
  "no_freed_read s \<longleftrightarrow> \<not> lf_freed_read s \<and> (\<forall>t c hp. lf_pc s t = L_pop_next c hp \<longrightarrow> lf_heap s hp \<noteq> None)"

lemma no_freed_read_step:
  assumes inv: "lifo_inv s" and ok: "no_freed_read s" and step: "lifo_step False ar s s'"
  shows "no_freed_read s'"
proof -
  note D = lifo_invD [OF inv]
  have head: "lf_heap s (pp_high (lf_blob s)) \<noteq> None" if "pp_high (lf_blob s) \<noteq> NULL"
    using that D(2,3) by (cases "lf_items s") (auto dest: rd_next_SomeD)
  obtain a where a: "lifo_do False ar a s = Some s'"
    using step by (elim lifo_stepE)
  have mine: "\<forall>c hp. lf_pc s t = L_pop_next c hp \<longrightarrow> lf_heap s hp \<noteq> None" for t
    using ok by (simp add: no_freed_read_def)
  have clean: "\<not> lf_freed_read s"
    using ok by (simp add: no_freed_read_def)
  have "\<not> lf_freed_read s'"
  proof (cases a)
    case (Lgo t junk)
    then show ?thesis
      using a clean mine [of t] by (auto simp: lifo_next_def rd_next_def Let_def
          split: if_splits lifo_pc.splits option.splits prod.splits bool.splits bind_splits)
  qed (use a clean in \<open>auto split: if_splits\<close>)
  moreover have "lf_heap s' hp \<noteq> None" if "lf_pc s' t = L_pop_next c hp" for t c hp
    using a that head mine [of t]
    by (cases a) (auto simp: lifo_next_def rd_next_def wr_next_def Let_def
        split: if_splits lifo_pc.splits option.splits prod.splits bool.splits)
  ultimately show ?thesis
    by (simp add: no_freed_read_def)
qed

definition lifo_bound :: "lifo_sys \<Rightarrow> bool" where
  "lifo_bound s \<longleftrightarrow> swaps (lf_log s) < 2 ^ 64"

lemma lifo_bound_back: "lifo_step frees ar s s' \<Longrightarrow> lifo_bound s' \<Longrightarrow> lifo_bound s"
proof (elim lifo_stepE)
  fix a assume "lifo_do frees ar a s = Some s'" and "lifo_bound s'"
  then show "lifo_bound s"
    by (cases a) (auto simp: lifo_bound_def lifo_next_def Let_def
        split: if_splits lifo_pc.splits option.splits prod.splits bool.splits bind_splits)
qed

lemma lifo_inv_start: "lifo_inv lifo_start"
  by (simp add: lifo_inv_def lifo_start_def mpmc_lifo_init_def lf_holds_def)

interpretation lifo_sys: bounded_invariant lifo_init "lifo_step frees (Some ARCH_x86_64)" lifo_bound lifo_inv for frees
  by unfold_locales (auto simp: lifo_init_def lifo_inv_start lifo_bound_def
      intro: lifo_inv_step dest: lifo_bound_back [unfolded lifo_bound_def])

interpretation lifo_kept: bounded_invariant lifo_init "lifo_step False (Some ARCH_x86_64)" lifo_bound
    "\<lambda>s. lifo_inv s \<and> no_freed_read s"
proof unfold_locales
  show "lifo_inv s \<and> no_freed_read s" if "lifo_init s" for s
    using that lifo_inv_start by (simp add: lifo_init_def no_freed_read_def lifo_start_def)
qed (auto simp: lifo_bound_def intro: lifo_inv_step no_freed_read_step dest: lifo_bound_back [unfolded lifo_bound_def])

section \<open>Properties\<close>

text \<open>
  C11. Linearizability: whatever the interleaving of pushes, pops, and of the threads' writes to,
  frees and reallocations of their own nodes (so that a node can leave the stack and come back
  between a pop's reads and its swap), for fewer than \<open>2 ^ 64\<close> successful swaps: the operations,
  in the order in which they took effect, are those of a stack, and the stack holds what is left
  of them, linked from \<open>head\<close>. A pop that read a freed node does no harm, should the read return: its swap
  fails.
\<close>

theorem mpmc_lifo_linearizable:
  assumes "reach lifo_init (lifo_step frees (Some ARCH_x86_64)) s" and "swaps (lf_log s) < 2 ^ 64"
  shows "replay_lifo [] (lf_log s) = Some (lf_items s)
    \<and> chain (lf_heap s) (lf_items s) NULL \<and> pp_high (lf_blob s) = chain_start (lf_items s) NULL
    \<and> distinct (lf_items s)
    \<and> (\<forall>t. lf_holds s t \<inter> set (lf_items s) = {} \<and> (\<forall>u. t \<noteq> u \<longrightarrow> lf_holds s t \<inter> lf_holds s u = {}))"
proof -
  note D = lifo_invD [OF lifo_sys.reach_inv [OF assms(1)]]
  show ?thesis
    using D assms(2) by (simp add: lifo_bound_def) blast
qed

text \<open>
  No pop reads a freed node if nodes are not freed while the stack is in use.
\<close>

theorem mpmc_lifo_no_freed_read:
  assumes "reach lifo_init (lifo_step False (Some ARCH_x86_64)) s" and "swaps (lf_log s) < 2 ^ 64"
  shows "\<not> lf_freed_read s"
  using lifo_kept.reach_inv [OF assms(1)] assms(2) by (simp add: lifo_bound_def no_freed_read_def)

text \<open>
  C14. It does when nodes are freed as \<open>mpmc_lifo_test.c\<close> frees them, after the pop: thread 1 has
  read \<open>head\<close> when thread 0 pops that node and frees it, and thread 1 then reads its \<open>next\<close>.
\<close>

definition lifo_demo :: "lifo_act list" where
  "lifo_demo = [Lmalloc 0 5 (node_of 50 0), Call_lpush 0 5, Lgo 0 0, Lgo 0 0, Lgo 0 0, Lgo 0 0,
     Call_lpop 1, Lgo 1 0, Lgo 1 0, Call_lpop 0, Lgo 0 0, Lgo 0 0, Lgo 0 0, Lgo 0 0, Lfree 0 5]"

theorem mpmc_lifo_reads_freed_node:
  "\<exists>s. reach lifo_init (lifo_step True (Some ARCH_x86_64)) s
     \<and> lf_freed_read s \<and> lf_log s = [L_pushed 5, L_popped 5]"
proof -
  have "map_option (\<lambda>s. (lf_freed_read s, lf_log s))
      (lifo_run True (Some ARCH_x86_64) (lifo_demo @ [Lgo 1 99]) lifo_start) = Some (True, [L_pushed 5, L_popped 5])"
    by code_simp
  then obtain s where s: "lifo_run True (Some ARCH_x86_64) (lifo_demo @ [Lgo 1 99]) lifo_start = Some s"
      "lf_freed_read s" "lf_log s = [L_pushed 5, L_popped 5]"
    by auto
  have "reach lifo_init (lifo_step True (Some ARCH_x86_64)) lifo_start"
    by (rule reach_init) (simp add: lifo_init_def)
  from lifo_run_reach [OF s(1) this] s(2,3) show ?thesis by blast
qed

text \<open>The node comes back at the same address: thread 1's swap fails, although \<open>head\<close> is what it read.\<close>

theorem mpmc_lifo_linearizable_witness:
  "\<exists>s. reach lifo_init (lifo_step True (Some ARCH_x86_64)) s \<and> lf_pc s 1 = L_pop_counter
     \<and> replay_lifo [] [L_pushed 5, L_popped 5, L_pushed 6, L_pushed 5] = Some (lf_items s)
     \<and> chain (lf_heap s) [5, 6] NULL \<and> pp_high (lf_blob s) = 5"
proof -
  let ?run = "lifo_run True (Some ARCH_x86_64) (lifo_demo @ [Lgo 1 0, Lmalloc 0 6 (node_of 60 0),
    Call_lpush 0 6, Lgo 0 0, Lgo 0 0, Lgo 0 0, Lgo 0 0,
    Lmalloc 0 5 (node_of 51 0), Call_lpush 0 5, Lgo 0 0, Lgo 0 0, Lgo 0 0, Lgo 0 0, Lgo 1 0]) lifo_start"
  have "map_option (\<lambda>s. (lf_log s, lf_pc s 1, lf_items s)) ?run
      = Some ([L_pushed 5, L_popped 5, L_pushed 6, L_pushed 5], L_pop_counter, [5, 6])"
    by code_simp
  then obtain s where s: "?run = Some s" "lf_log s = [L_pushed 5, L_popped 5, L_pushed 6, L_pushed 5]"
      "lf_pc s 1 = L_pop_counter" "lf_items s = [5, 6]"
    by auto
  have "reach lifo_init (lifo_step True (Some ARCH_x86_64)) lifo_start"
    by (rule reach_init) (simp add: lifo_init_def)
  from lifo_run_reach [OF s(1) this] have r: "reach lifo_init (lifo_step True (Some ARCH_x86_64)) s" .
  have "swaps (lf_log s) < 2 ^ 64"
    by (simp add: s(2) swaps_def)
  from mpmc_lifo_linearizable [OF r this] s r show ?thesis
    by (intro exI [of _ s]) simp
qed

theorem mpmc_lifo_no_freed_read_witness:
  "\<exists>s. reach lifo_init (lifo_step False (Some ARCH_x86_64)) s \<and> lf_log s = [L_pushed 5, L_popped 5] \<and> \<not> lf_freed_read s"
proof -
  let ?run = "lifo_run False (Some ARCH_x86_64) (butlast lifo_demo @ [Lgo 1 0]) lifo_start"
  have "map_option (\<lambda>s. lf_log s) ?run = Some [L_pushed 5, L_popped 5]"
    by code_simp
  then obtain s where s: "?run = Some s" "lf_log s = [L_pushed 5, L_popped 5]"
    by auto
  have "reach lifo_init (lifo_step False (Some ARCH_x86_64)) lifo_start"
    by (rule reach_init) (simp add: lifo_init_def)
  from lifo_run_reach [OF s(1) this] have r: "reach lifo_init (lifo_step False (Some ARCH_x86_64)) s" .
  moreover from s(2) have "swaps (lf_log s) < 2 ^ 64"
    by (simp add: swaps_def)
  ultimately show ?thesis
    using mpmc_lifo_no_freed_read [OF r] s(2) by blast
qed

end
