(* ===== verification/Mpmc_Fifo.thy ===== *)
theory Mpmc_Fifo
  imports Hazard_Pointer Node_Queue "HOL-Library.Multiset"
begin

text \<open>
  \<open>mpmc_fifo.h\<close>: the multi-producer multi-consumer FIFO over hazard pointers, as one thread
  sees it; \<open>Mpmc_Fifo_Conc\<close> interleaves the same accesses. A node starts with the
  \<open>hazard_node_t\<close> that the hazard pointers know it by, so the two have one address: the
  \<open>hazard\<close> members are in the state of \<open>Hazard_Pointer\<close>, the others here, and a node that was handed to
  its \<open>gc_function\<close> is not accessible any more. The queue runs from \<open>head\<close> along \<open>prev\<close>; \<open>head\<close> is a
  dummy whose value has been taken.
\<close>

section \<open>The structs and the operations\<close>

definition MPMC_HAZARD_COUNT :: u64 where "MPMC_HAZARD_COUNT = 2"

record mpmc_fifo_node =
  mn_value :: ptr
  mn_prev :: ptr
  mn_next :: ptr

record mpmc_fifo =
  mf_head :: ptr
  mf_tail :: ptr

record mpmc_mem =
  mm_hp :: hazard_state
  mm_nodes :: "ptr \<Rightarrow> mpmc_fifo_node option"

definition rd_node :: "mpmc_mem \<Rightarrow> ptr \<Rightarrow> mpmc_fifo_node option" where
  "rd_node s n = do { _ \<leftarrow> hs_nodes (mm_hp s) n; mm_nodes s n }"

definition wr_node :: "mpmc_mem \<Rightarrow> ptr \<Rightarrow> (mpmc_fifo_node \<Rightarrow> mpmc_fifo_node) \<Rightarrow> mpmc_mem option" where
  "wr_node s n f = do {
     nd \<leftarrow> rd_node s n;
     Some (s\<lparr>mm_nodes := (mm_nodes s)(n \<mapsto> f nd)\<rparr>)
   }"

text \<open>A call into the hazard pointers.\<close>

definition with_hp :: "mpmc_mem \<Rightarrow> hazard_state option \<Rightarrow> mpmc_mem option" where
  "with_hp s r = map_option (\<lambda>hp. s\<lparr>mm_hp := hp\<rparr>) r"

definition mpmc_fifo_init :: "mpmc_mem \<Rightarrow> ptr \<Rightarrow> (int \<times> mpmc_mem \<times> mpmc_fifo) option" where
  "mpmc_fifo_init s initial_node = do {
     c_assert (initial_node \<noteq> NULL);
     hazard \<leftarrow> hs_nodes (mm_hp s) initial_node;
     c_assert (hn_gc_function hazard \<noteq> NULL);
     s1 \<leftarrow> wr_node s initial_node (\<lambda>nd. nd\<lparr>mn_value := NULL\<rparr>);
     s2 \<leftarrow> wr_node s1 initial_node (\<lambda>nd. nd\<lparr>mn_prev := NULL\<rparr>);
     s3 \<leftarrow> wr_node s2 initial_node (\<lambda>nd. nd\<lparr>mn_next := NULL\<rparr>);
     let tail = initial_node;
     let head = tail;
     Some (1, s3, \<lparr>mf_head = head, mf_tail = tail\<rparr>)
   }"

text \<open>\<open>malloc_ok\<close> and \<open>junk\<close> are those of \<open>hazard_pointer_free\<close>: what the scan gets when it allocates.\<close>

partial_function (option) mpmc_destroy_loop ::
  "bool \<Rightarrow> (nat \<Rightarrow> ptr) \<Rightarrow> ptr \<Rightarrow> mpmc_mem \<Rightarrow> mpmc_fifo \<Rightarrow> (mpmc_mem \<times> mpmc_fifo) option" where
  "mpmc_destroy_loop malloc_ok junk hptr s fifo =
     (if mf_head fifo \<noteq> NULL then do {
        let tmp = mf_head fifo;
        nd \<leftarrow> rd_node s tmp;
        let fifo' = fifo\<lparr>mf_head := mn_prev nd\<rparr>;
        s' \<leftarrow> with_hp s (hazard_pointer_free malloc_ok junk (mm_hp s) hptr tmp);
        mpmc_destroy_loop malloc_ok junk hptr s' fifo'
      } else Some (s, fifo))"

definition mpmc_fifo_destroy ::
  "bool \<Rightarrow> (nat \<Rightarrow> ptr) \<Rightarrow> ptr \<Rightarrow> mpmc_mem \<Rightarrow> mpmc_fifo option \<Rightarrow> mpmc_mem option" where
  "mpmc_fifo_destroy malloc_ok junk hptr s fifo = do {
     c_assert (hptr \<noteq> NULL);
     (case fifo of None \<Rightarrow> Some s | Some f \<Rightarrow> map_option fst (mpmc_destroy_loop malloc_ok junk hptr s f))
   }"

partial_function (option) mpmc_push_loop ::
  "ptr \<Rightarrow> mpmc_mem \<Rightarrow> mpmc_fifo \<Rightarrow> ptr \<Rightarrow> (mpmc_mem \<times> mpmc_fifo) option" where
  "mpmc_push_loop hptr s fifo new_node = do {
     let tail = mf_tail fifo;
     s1 \<leftarrow> with_hp s (hazard_pointer_using (mm_hp s) hptr tail 0);
     if tail \<noteq> mf_tail fifo then mpmc_push_loop hptr s1 fifo new_node
     else do {
       s2 \<leftarrow> wr_node s1 new_node (\<lambda>nd. nd\<lparr>mn_next := tail\<rparr>);
       let (won, tail') = sync_bool_compare_and_swap (mf_tail fifo) tail new_node;
       if won then do {
         s3 \<leftarrow> wr_node s2 tail (\<lambda>nd. nd\<lparr>mn_prev := new_node\<rparr>);
         s4 \<leftarrow> with_hp s3 (hazard_pointer_done_using (mm_hp s3) hptr 0);
         Some (s4, fifo\<lparr>mf_tail := tail'\<rparr>)
       }
       else mpmc_push_loop hptr s2 fifo new_node
     }
   }"

definition mpmc_fifo_push ::
  "ptr \<Rightarrow> mpmc_mem \<Rightarrow> mpmc_fifo \<Rightarrow> ptr \<Rightarrow> (mpmc_mem \<times> mpmc_fifo) option" where
  "mpmc_fifo_push hptr s fifo new_node = do {
     c_assert (hptr \<noteq> NULL);
     c_assert (new_node \<noteq> NULL);
     nd \<leftarrow> rd_node s new_node;
     c_assert (mn_value nd \<noteq> NULL);
     s' \<leftarrow> wr_node s new_node (\<lambda>nd. nd\<lparr>mn_prev := NULL\<rparr>);
     mpmc_push_loop hptr s' fifo new_node
   }"

partial_function (option) mpmc_trypop_loop ::
  "bool \<Rightarrow> (nat \<Rightarrow> ptr) \<Rightarrow> ptr \<Rightarrow> mpmc_mem \<Rightarrow> mpmc_fifo \<Rightarrow> (ptr \<times> mpmc_mem \<times> mpmc_fifo) option" where
  "mpmc_trypop_loop malloc_ok junk hptr s fifo = do {
     let head = mf_head fifo;
     s1 \<leftarrow> with_hp s (hazard_pointer_using (mm_hp s) hptr head 0);
     if head \<noteq> mf_head fifo then mpmc_trypop_loop malloc_ok junk hptr s1 fifo
     else do {
       nd \<leftarrow> rd_node s1 head;
       let prev = mn_prev nd;
       if prev = NULL then do {
         s2 \<leftarrow> with_hp s1 (hazard_pointer_done_using (mm_hp s1) hptr 0);
         Some (NULL, s2, fifo)
       }
       else do {
         s2 \<leftarrow> with_hp s1 (hazard_pointer_using (mm_hp s1) hptr prev 1);
         if head \<noteq> mf_head fifo then mpmc_trypop_loop malloc_ok junk hptr s2 fifo
         else do {
           pd \<leftarrow> rd_node s2 prev;
           let ret = mn_value pd;
           let (won, head') = sync_bool_compare_and_swap (mf_head fifo) head prev;
           if won then do {
             s3 \<leftarrow> with_hp s2 (hazard_pointer_done_using (mm_hp s2) hptr 0);
             s4 \<leftarrow> with_hp s3 (hazard_pointer_done_using (mm_hp s3) hptr 1);
             s5 \<leftarrow> with_hp s4 (hazard_pointer_free malloc_ok junk (mm_hp s4) hptr head);
             Some (ret, s5, fifo\<lparr>mf_head := head'\<rparr>)
           }
           else mpmc_trypop_loop malloc_ok junk hptr s2 fifo
         }
       }
     }
   }"

definition mpmc_fifo_trypop ::
  "bool \<Rightarrow> (nat \<Rightarrow> ptr) \<Rightarrow> ptr \<Rightarrow> mpmc_mem \<Rightarrow> mpmc_fifo \<Rightarrow> (ptr \<times> mpmc_mem \<times> mpmc_fifo) option" where
  "mpmc_fifo_trypop malloc_ok junk hptr s fifo = do {
     c_assert (hptr \<noteq> NULL);
     mpmc_trypop_loop malloc_ok junk hptr s fifo
   }"

section \<open>The representation\<close>

text \<open>The nodes as the nodes of the linked queues: the value, and \<open>prev\<close> as the link.\<close>

definition view :: "mpmc_mem \<Rightarrow> heap" where
  "view s n = map_option (\<lambda>nd. node_of (mn_value nd) (mn_prev nd)) (mm_nodes s n)"

definition mpmc_ok ::
  "mpmc_mem \<Rightarrow> mpmc_fifo \<Rightarrow> ptr list \<Rightarrow> ptr \<Rightarrow> nat \<Rightarrow> ptr list \<Rightarrow> (ptr \<Rightarrow> ptr list) \<Rightarrow> bool" where
  [inv_defs]: "mpmc_ok s f ns a K rs ret \<longleftrightarrow> hp_ok (mm_hp s) a K rs ret \<and> 2 \<le> K
     \<and> queue_rep (view s) (mf_head f) (mf_tail f) ns
     \<and> (\<forall>n \<in> set ns. \<exists>hz. hs_nodes (mm_hp s) n = Some hz \<and> hn_gc_function hz \<noteq> NULL)
     \<and> (\<forall>q \<in> set rs. set (ret q) \<inter> set ns = {} \<and> length (ret q) < 2 * (length rs * K))
     \<and> (\<forall>d \<in> set (datas (view s) (tl ns)). d \<noteq> NULL)"

lemma view_upd [simp]:
  "view (s\<lparr>mm_nodes := (mm_nodes s)(n \<mapsto> nd)\<rparr>) = (view s)(n \<mapsto> node_of (mn_value nd) (mn_prev nd))"
  "view (s\<lparr>mm_hp := hp\<rparr>) = view s"
  by (auto simp: view_def fun_eq_iff)

lemma mpmc_okD:
  assumes "mpmc_ok s f ns a K rs ret"
  shows "hp_ok (mm_hp s) a K rs ret" "2 \<le> K" "queue_rep (view s) (mf_head f) (mf_tail f) ns"
    "n \<in> set ns \<Longrightarrow> \<exists>hz. hs_nodes (mm_hp s) n = Some hz \<and> hn_gc_function hz \<noteq> NULL"
    "q \<in> set rs \<Longrightarrow> set (ret q) \<inter> set ns = {}" "q \<in> set rs \<Longrightarrow> length (ret q) < 2 * (length rs * K)"
    "d \<in> set (datas (view s) (tl ns)) \<Longrightarrow> d \<noteq> NULL"
  using assms by (simp_all add: mpmc_ok_def)

text \<open>Publishing a pointer changes nothing but the record.\<close>

lemma using_keeps:
  assumes ok: "hp_ok (mm_hp s) a K rs ret" and "2 \<le> K" and p: "p \<in> set rs" and i: "unat i < 2"
  shows "\<exists>s'. with_hp s (hazard_pointer_using (mm_hp s) p n i) = Some s' \<and> hp_ok (mm_hp s') a K rs ret
    \<and> mm_nodes s' = mm_nodes s \<and> hs_nodes (mm_hp s') = hs_nodes (mm_hp s) \<and> hs_calls (mm_hp s') = hs_calls (mm_hp s)"
proof -
  have "unat i < K"
    using i assms(2) by linarith
  from pointer_write_ok [OF ok p this, of n] show ?thesis
    by (auto simp: with_hp_def)
qed

lemma mpmc_node:
  assumes "mpmc_ok s f ns a K rs ret" and "n \<in> set ns"
  shows "\<exists>nd. rd_node s n = Some nd \<and> mm_nodes s n = Some nd"
proof -
  obtain hz where "hs_nodes (mm_hp s) n = Some hz"
    using mpmc_okD(4) [OF assms] by blast
  moreover obtain nd where "mm_nodes s n = Some nd"
    using chain_allocated [OF queue_repD(4) [OF mpmc_okD(3) [OF assms(1)]] assms(2)] by (auto simp: view_def)
  ultimately show ?thesis
    by (simp add: rd_node_def)
qed

section \<open>What the operations do\<close>

text \<open>A push appends the node, once it has been unlinked: \<open>linked\<close> is the heap of the other queues.\<close>

lemma mpmc_push_law:
  assumes ok: "mpmc_ok s f ns a K rs ret" and p: "p \<in> set rs" and n: "n \<notin> set ns" "n \<noteq> NULL"
    and nd: "mm_nodes s n = Some nd" "mn_value nd \<noteq> NULL"
    and hz: "hs_nodes (mm_hp s) n = Some hz" "hn_gc_function hz \<noteq> NULL" and new: "\<forall>q \<in> set rs. n \<notin> set (ret q)"
  shows "\<exists>s' f'. mpmc_fifo_push p s f n = Some (s', f') \<and> mpmc_ok s' f' (ns @ [n]) a K rs ret
    \<and> view s' = linked (view s) (List.last ns) n
    \<and> hs_nodes (mm_hp s') = hs_nodes (mm_hp s) \<and> hs_calls (mm_hp s') = hs_calls (mm_hp s)"
proof -
  let ?t = "List.last ns"
  note rep = mpmc_okD(3) [OF ok]
  have t: "mf_tail f = ?t" "?t \<in> set ns" "?t \<noteq> n"
    using queue_repD [OF rep] n(1) by auto
  obtain td where td: "rd_node s ?t = Some td" "mm_nodes s ?t = Some td"
    using mpmc_node [OF ok t(2)] by blast
  obtain tz where tz: "hs_nodes (mm_hp s) ?t = Some tz"
    using mpmc_okD(4) [OF ok t(2)] by blast
  have p0: "p \<noteq> NULL"
    using hp_okD(6) [OF mpmc_okD(1) [OF ok] p] .
  let ?s0 = "s\<lparr>mm_nodes := (mm_nodes s)(n \<mapsto> nd\<lparr>mn_prev := NULL\<rparr>)\<rparr>"
  have K: "2 \<le> K" and ok0: "hp_ok (mm_hp ?s0) a K rs ret"
    using mpmc_okD(1,2) [OF ok] by simp_all
  obtain s1 where s1: "with_hp ?s0 (hazard_pointer_using (mm_hp ?s0) p ?t 0) = Some s1" "hp_ok (mm_hp s1) a K rs ret"
      "mm_nodes s1 = mm_nodes ?s0" "hs_nodes (mm_hp s1) = hs_nodes (mm_hp s)" "hs_calls (mm_hp s1) = hs_calls (mm_hp s)"
    using using_keeps [OF ok0 K p, of 0 ?t] by auto
  let ?s2 = "s1\<lparr>mm_nodes := (mm_nodes s1)(n \<mapsto> nd\<lparr>mn_prev := NULL, mn_next := ?t\<rparr>)\<rparr>"
  let ?s3 = "?s2\<lparr>mm_nodes := (mm_nodes ?s2)(?t \<mapsto> td\<lparr>mn_prev := n\<rparr>)\<rparr>"
  have ok3: "hp_ok (mm_hp ?s3) a K rs ret"
    using s1(2) by simp
  obtain s4 where s4: "with_hp ?s3 (hazard_pointer_using (mm_hp ?s3) p NULL 0) = Some s4" "hp_ok (mm_hp s4) a K rs ret"
      "mm_nodes s4 = mm_nodes ?s3" "hs_nodes (mm_hp s4) = hs_nodes (mm_hp ?s3)" "hs_calls (mm_hp s4) = hs_calls (mm_hp ?s3)"
    using using_keeps [OF ok3 K p, of 0 NULL] by auto
  let ?f = "f\<lparr>mf_tail := n\<rparr>"
  have rd: "rd_node s n = Some nd" "rd_node s1 n = Some (nd\<lparr>mn_prev := NULL\<rparr>)" "rd_node ?s2 ?t = Some td"
    using nd hz td(2) tz t(3) s1(3,4) by (simp_all add: rd_node_def)
  have "mpmc_push_loop p ?s0 f n = Some (s4, ?f)"
    using s1(1) s4(1) rd t
    by (subst mpmc_push_loop.simps)
      (simp add: Let_def wr_node_def sync_bool_compare_and_swap_def done_using_is_using)
  then have "mpmc_fifo_push p s f n = Some (s4, ?f)"
    using p0 n(2) rd(1) nd(2) by (simp add: mpmc_fifo_push_def wr_node_def)
  moreover have vs: "view s4 = linked (view s) ?t n"
    using s4(3) s1(3) nd(1) td(2) t(3) by (auto simp: view_def linked_def fun_eq_iff)
  moreover have "mpmc_ok s4 ?f (ns @ [n]) a K rs ret"
  proof -
    have "queue_rep (view s4) (mf_head f) n (ns @ [n])"
      unfolding vs t(1) [symmetric] using queue_rep_push [OF rep n] nd(1) by (simp add: view_def)
    moreover have "datas (linked (view s) ?t n) (tl (ns @ [n])) = datas (view s) (tl ns) @ [mn_value nd]"
      using datas_linked [OF rep n(1)] nd(1) by (simp add: view_def)
    ultimately show ?thesis
      using s4 K mpmc_okD(4-7) [OF ok] hz new s1(4) nd(2) by (auto simp: mpmc_ok_def vs)
  qed
  ultimately show ?thesis
    using s4(4,5) s1(4,5) by auto
qed


text \<open>What \<open>hazard_pointer_free\<close> does to the FIFO: \<open>n\<close> is retired, or handed over with others.\<close>

lemma free_law:
  assumes ok: "hp_ok (mm_hp s) a K rs ret" and p: "p \<in> set rs" and len: "length (ret p) < 2 * (length rs * K)"
    and n: "n \<noteq> NULL" "hs_nodes (mm_hp s) n = Some hz" "hn_gc_function hz \<noteq> NULL" "\<forall>q \<in> set rs. n \<notin> set (ret q)"
  shows "\<exists>s' calls ns. with_hp s (hazard_pointer_free True junk (mm_hp s) p n) = Some s' \<and> mm_nodes s' = mm_nodes s
    \<and> hs_calls (mm_hp s') = hs_calls (mm_hp s) @ List.map (gc_call (hs_nodes (mm_hp s))) calls
    \<and> hp_ok (mm_hp s') a K rs (ret(p := ns)) \<and> length ns < 2 * (length rs * K)
    \<and> (\<forall>m. m \<notin> set (n # ret p) \<longrightarrow> hs_nodes (mm_hp s') m = hs_nodes (mm_hp s) m)
    \<and> mset calls + mset ns = mset (n # ret p)"
proof -
  let ?H = "set (hazards (hs_recs (mm_hp s)) rs)" and ?full = "Suc (length (ret p)) < 2 * (length rs * K)"
  obtain hp calls ns where *: "hazard_pointer_free True junk (mm_hp s) p n = Some hp"
      "hs_calls hp = hs_calls (mm_hp s) @ List.map (gc_call (hs_nodes (mm_hp s))) calls"
      "hp_ok hp a K rs (ret(p := ns))" "length ns < 2 * (length rs * K)"
      "\<forall>m. m \<notin> set (n # ret p) \<longrightarrow> hs_nodes hp m = hs_nodes (mm_hp s) m"
      "if ?full then calls = [] \<and> ns = n # ret p
       else calls = List.filter (\<lambda>m. m \<notin> ?H) (n # ret p) \<and> ns = rev (List.filter (\<lambda>m. m \<in> ?H) (n # ret p))
         \<and> length rs * K \<le> length calls \<and> length ns \<le> length rs * K"
    using hazard_pointer_free_ok [OF ok p len n, of junk] by blast
  have "mset calls + mset ns = mset (n # ret p)"
  proof (cases ?full)
    case False
    then have "mset calls + mset ns
        = filter_mset (\<lambda>m. m \<notin> ?H) (mset (n # ret p)) + filter_mset (\<lambda>m. m \<in> ?H) (mset (n # ret p))"
      using *(6) by (simp only: if_False mset_rev mset_filter)
    then show ?thesis
      using multiset_partition [of "mset (n # ret p)" "\<lambda>m. m \<notin> ?H"] by simp
  qed (use *(6) in simp)
  then show ?thesis
    using *(1-5) by (auto simp: with_hp_def)
qed

text \<open>A trypop of a queue with no item changes nothing of it.\<close>

lemma mpmc_pop_empty:
  assumes ok: "mpmc_ok s f [d] a K rs ret" and p: "p \<in> set rs"
  shows "\<exists>s'. mpmc_fifo_trypop True junk p s f = Some (NULL, s', f) \<and> mpmc_ok s' f [d] a K rs ret
    \<and> view s' = view s \<and> hs_calls (mm_hp s') = hs_calls (mm_hp s) \<and> hs_nodes (mm_hp s') = hs_nodes (mm_hp s)"
proof -
  note rep = mpmc_okD(3) [OF ok]
  have K: "2 \<le> K" and ok0: "hp_ok (mm_hp s) a K rs ret" and p0: "p \<noteq> NULL"
    using mpmc_okD(1,2) [OF ok] hp_okD(6) [OF mpmc_okD(1) [OF ok] p] by simp_all
  obtain s1 where s1: "with_hp s (hazard_pointer_using (mm_hp s) p d 0) = Some s1" "hp_ok (mm_hp s1) a K rs ret"
      "mm_nodes s1 = mm_nodes s" "hs_nodes (mm_hp s1) = hs_nodes (mm_hp s)" "hs_calls (mm_hp s1) = hs_calls (mm_hp s)"
    using using_keeps [OF ok0 K p, of 0 d] by auto
  obtain s2 where s2: "with_hp s1 (hazard_pointer_using (mm_hp s1) p NULL 0) = Some s2" "hp_ok (mm_hp s2) a K rs ret"
      "mm_nodes s2 = mm_nodes s1" "hs_nodes (mm_hp s2) = hs_nodes (mm_hp s1)" "hs_calls (mm_hp s2) = hs_calls (mm_hp s1)"
    using using_keeps [OF s1(2) K p, of 0 NULL] by auto
  obtain nd where nd: "rd_node s d = Some nd" "mm_nodes s d = Some nd"
    using mpmc_node [OF ok, of d] by auto
  have head: "mf_head f = d" "mn_prev nd = NULL"
    using queue_repD(2) [OF rep] queue_rep_empty [of "view s" d "mf_tail f"] rep nd(2)
    by (auto simp: view_def rd_next_def)
  have "rd_node s1 d = Some nd"
    using nd(1) s1(3,4) by (simp add: rd_node_def)
  then have "mpmc_fifo_trypop True junk p s f = Some (NULL, s2, f)"
    using p0 s1(1) s2(1) head
    by (simp add: mpmc_fifo_trypop_def mpmc_trypop_loop.simps [of _ _ _ s] Let_def done_using_is_using)
  moreover have "view s2 = view s"
    using s1(3) s2(3) by (simp add: view_def fun_eq_iff)
  ultimately show ?thesis
    using ok s1 s2 by (simp add: mpmc_ok_def)
qed

text \<open>
  Else it answers with the oldest value, and the old dummy goes to \<open>hazard_pointer_free\<close>: \<open>calls\<close>
  are handed over now, \<open>left\<close> is what is retired then.
\<close>

lemma mpmc_pop_law:
  assumes ok: "mpmc_ok s f (d # n # ns) a K rs ret" and p: "p \<in> set rs"
  shows "\<exists>s' f' calls left. mpmc_fifo_trypop True junk p s f = Some (n_data (the (view s n)), s', f')
    \<and> mpmc_ok s' f' (n # ns) a K rs (ret(p := left)) \<and> view s' = view s
    \<and> hs_calls (mm_hp s') = hs_calls (mm_hp s) @ List.map (gc_call (hs_nodes (mm_hp s))) calls
    \<and> mset calls + mset left = mset (d # ret p)"
proof -
  note rep = mpmc_okD(3) [OF ok]
  have K: "2 \<le> K" and ok0: "hp_ok (mm_hp s) a K rs ret" and p0: "p \<noteq> NULL"
    using mpmc_okD(1,2) [OF ok] hp_okD(6) [OF mpmc_okD(1) [OF ok] p] by simp_all
  obtain nd pd where nd: "rd_node s d = Some nd" "mm_nodes s d = Some nd" and pd: "rd_node s n = Some pd" "mm_nodes s n = Some pd"
    using mpmc_node [OF ok, of d] mpmc_node [OF ok, of n] by auto
  have head: "mf_head f = d" "mn_prev nd = n" "n \<noteq> NULL" "d \<noteq> NULL" "d \<noteq> n" "d \<notin> set ns"
    using queue_repD [OF rep] nd(2) by (auto simp: view_def rd_next_def)
  obtain s1 where s1: "with_hp s (hazard_pointer_using (mm_hp s) p d 0) = Some s1" "hp_ok (mm_hp s1) a K rs ret"
      "mm_nodes s1 = mm_nodes s" "hs_nodes (mm_hp s1) = hs_nodes (mm_hp s)" "hs_calls (mm_hp s1) = hs_calls (mm_hp s)"
    using using_keeps [OF ok0 K p, of 0 d] by auto
  obtain s2 where s2: "with_hp s1 (hazard_pointer_using (mm_hp s1) p n 1) = Some s2" "hp_ok (mm_hp s2) a K rs ret"
      "mm_nodes s2 = mm_nodes s1" "hs_nodes (mm_hp s2) = hs_nodes (mm_hp s1)" "hs_calls (mm_hp s2) = hs_calls (mm_hp s1)"
    using using_keeps [OF s1(2) K p, of 1 n] by auto
  obtain s3 where s3: "with_hp s2 (hazard_pointer_using (mm_hp s2) p NULL 0) = Some s3" "hp_ok (mm_hp s3) a K rs ret"
      "mm_nodes s3 = mm_nodes s2" "hs_nodes (mm_hp s3) = hs_nodes (mm_hp s2)" "hs_calls (mm_hp s3) = hs_calls (mm_hp s2)"
    using using_keeps [OF s2(2) K p, of 0 NULL] by auto
  obtain s4 where s4: "with_hp s3 (hazard_pointer_using (mm_hp s3) p NULL 1) = Some s4" "hp_ok (mm_hp s4) a K rs ret"
      "mm_nodes s4 = mm_nodes s3" "hs_nodes (mm_hp s4) = hs_nodes (mm_hp s3)" "hs_calls (mm_hp s4) = hs_calls (mm_hp s3)"
    using using_keeps [OF s3(2) K p, of 1 NULL] by auto
  have hs4: "hs_nodes (mm_hp s4) = hs_nodes (mm_hp s)" "hs_calls (mm_hp s4) = hs_calls (mm_hp s)"
    using s1(4,5) s2(4,5) s3(4,5) s4(4,5) by simp_all
  obtain hz where hz: "hs_nodes (mm_hp s) d = Some hz" "hn_gc_function hz \<noteq> NULL"
    using mpmc_okD(4) [OF ok, of d] by auto
  have len: "length (ret p) < 2 * (length rs * K)" and new: "\<forall>q \<in> set rs. d \<notin> set (ret q)"
    using mpmc_okD(5,6) [OF ok] p by auto
  obtain s5 calls left where s5: "with_hp s4 (hazard_pointer_free True junk (mm_hp s4) p d) = Some s5"
      "mm_nodes s5 = mm_nodes s4" "hs_calls (mm_hp s5) = hs_calls (mm_hp s) @ List.map (gc_call (hs_nodes (mm_hp s))) calls"
      "hp_ok (mm_hp s5) a K rs (ret(p := left))" "length left < 2 * (length rs * K)"
      "\<forall>m. m \<notin> set (d # ret p) \<longrightarrow> hs_nodes (mm_hp s5) m = hs_nodes (mm_hp s) m"
      "mset calls + mset left = mset (d # ret p)"
    using free_law [OF s4(2) p len head(4) _ _ new, of hz junk] hz unfolding hs4 by blast
  let ?f = "f\<lparr>mf_head := n\<rparr>"
  have rd: "rd_node s1 d = Some nd" "rd_node s2 n = Some pd"
    using nd(1) pd(1) s1(3,4) s2(3,4) by (simp_all add: rd_node_def)
  have "mpmc_fifo_trypop True junk p s f = Some (mn_value pd, s5, ?f)"
    using p0 s1(1) s2(1) s3(1) s4(1) s5(1) rd head
    by (simp add: mpmc_fifo_trypop_def mpmc_trypop_loop.simps [of _ _ _ s] Let_def done_using_is_using
        sync_bool_compare_and_swap_def)
  moreover have vs: "view s5 = view s"
    using s1(3) s2(3) s3(3) s4(3) s5(2) by (simp add: view_def fun_eq_iff)
  moreover have "mpmc_ok s5 ?f (n # ns) a K rs (ret(p := left))"
  proof -
    have "queue_rep (view s5) n (mf_tail f) (n # ns)"
      unfolding vs using rep by (simp add: queue_rep_def)
    moreover have "set left \<subseteq> insert d (set (ret p))"
      using arg_cong [OF s5(7), of set_mset] by auto
    then have "set left \<inter> set (n # ns) = {}"
      using mpmc_okD(5) [OF ok p] head(5,6) by auto
    moreover have "hs_nodes (mm_hp s5) m = hs_nodes (mm_hp s) m" if "m \<in> set (n # ns)" for m
      using that s5(6) mpmc_okD(5) [OF ok p] head(5,6) by auto
    moreover have "set (ret q) \<inter> set (n # ns) = {}" if "q \<in> set rs" for q
      using mpmc_okD(5) [OF ok that] by auto
    ultimately show ?thesis
      using s5(4,5) K mpmc_okD(4,6,7) [OF ok] by (auto simp: mpmc_ok_def vs)
  qed
  ultimately show ?thesis
    using s5(3,7) pd(2) by (auto simp: view_def)
qed


text \<open>The nodes handed to their \<open>gc_function\<close> so far.\<close>

definition handed :: "mpmc_mem \<Rightarrow> ptr list" where
  "handed s = List.map (snd \<circ> snd) (hs_calls (mm_hp s))"

lemma handed_append:
  "hs_calls (mm_hp s') = hs_calls (mm_hp s) @ List.map (gc_call nodes) calls \<Longrightarrow> handed s' = handed s @ calls"
  by (simp add: handed_def gc_call_def comp_def)

text \<open>A destroy hands every node left to \<open>hazard_pointer_free\<close>.\<close>

lemma destroy_loop_law:
  assumes "hp_ok (mm_hp s) a K rs ret" and "p \<in> set rs" and "length (ret p) < 2 * (length rs * K)"
    and "chain (view s) ns NULL" and "distinct ns" and "mf_head f = chain_start ns NULL"
    and "\<forall>n \<in> set ns. \<exists>hz. hs_nodes (mm_hp s) n = Some hz \<and> hn_gc_function hz \<noteq> NULL"
    and "\<forall>q \<in> set rs. set (ret q) \<inter> set ns = {}"
  shows "\<exists>s' f' calls left. mpmc_destroy_loop True junk p s f = Some (s', f') \<and> hp_ok (mm_hp s') a K rs (ret(p := left))
    \<and> handed s' = handed s @ calls
    \<and> mset calls + mset left = mset ns + mset (ret p)"
  using assms
proof (induction ns arbitrary: s f ret)
  case Nil
  then have "mpmc_destroy_loop True junk p s f = Some (s, f)"
    by (simp add: mpmc_destroy_loop.simps)
  with Nil.prems(1) show ?case
    by - (rule exI [of _ s], rule exI [of _ f], rule exI [of _ "[]"], rule exI [of _ "ret p"], simp)
next
  case (Cons n ns)
  obtain hz where hz: "hs_nodes (mm_hp s) n = Some hz" "hn_gc_function hz \<noteq> NULL"
    using Cons.prems(7) by auto
  obtain nd where nd: "mm_nodes s n = Some nd" "mn_prev nd = chain_start ns NULL"
    using Cons.prems(4) by (auto simp: view_def rd_next_def)
  have n: "n \<noteq> NULL" "\<forall>q \<in> set rs. n \<notin> set (ret q)"
    using Cons.prems(4,8) by auto
  obtain s1 calls1 left1 where s1: "with_hp s (hazard_pointer_free True junk (mm_hp s) p n) = Some s1" "mm_nodes s1 = mm_nodes s"
      "hs_calls (mm_hp s1) = hs_calls (mm_hp s) @ List.map (gc_call (hs_nodes (mm_hp s))) calls1"
      "hp_ok (mm_hp s1) a K rs (ret(p := left1))" "length left1 < 2 * (length rs * K)"
      "\<forall>m. m \<notin> set (n # ret p) \<longrightarrow> hs_nodes (mm_hp s1) m = hs_nodes (mm_hp s) m"
      "mset calls1 + mset left1 = mset (n # ret p)"
    using free_law [OF Cons.prems(1-3) n(1) hz n(2), of junk] by blast
  let ?f = "f\<lparr>mf_head := chain_start ns NULL\<rparr>" and ?ret = "ret(p := left1)"
  have loop: "mpmc_destroy_loop True junk p s f = mpmc_destroy_loop True junk p s1 ?f"
    using Cons.prems(6) n(1) hz nd s1(1)
    by (subst mpmc_destroy_loop.simps) (simp add: rd_node_def Let_def)
  have "set left1 \<subseteq> insert n (set (ret p))"
    using arg_cong [OF s1(7), of set_mset] by auto
  then have disj: "\<forall>q \<in> set rs. set (?ret q) \<inter> set ns = {}"
    using Cons.prems(2,5,8) by auto
  have "hs_nodes (mm_hp s1) m = hs_nodes (mm_hp s) m" if "m \<in> set ns" for m
  proof -
    have "set (ret p) \<inter> set ns = {}"
      using Cons.prems(2,8) by auto
    then have "m \<notin> set (n # ret p)"
      using that Cons.prems(5) by auto
    then show ?thesis
      using s1(6) by blast
  qed
  then have nodes: "\<forall>m \<in> set ns. \<exists>hz. hs_nodes (mm_hp s1) m = Some hz \<and> hn_gc_function hz \<noteq> NULL"
    using Cons.prems(7) by simp
  have "view s1 = view s"
    using s1(2) by (simp add: view_def fun_eq_iff)
  then have "chain (view s1) ns NULL"
    using Cons.prems(4) by simp
  moreover have "length (?ret p) < 2 * (length rs * K)" "distinct ns" "mf_head ?f = chain_start ns NULL"
    using s1(5) Cons.prems(5) by simp_all
  ultimately obtain s' f' calls left where r: "mpmc_destroy_loop True junk p s1 ?f = Some (s', f')"
      "hp_ok (mm_hp s') a K rs (?ret(p := left))"
      "handed s' = handed s1 @ calls"
      "mset calls + mset left = mset ns + mset (?ret p)"
    using Cons.IH [OF s1(4) Cons.prems(2) _ _ _ _ nodes disj, of ?f] by blast
  have "handed s' = handed s @ (calls1 @ calls)"
    using r(3) handed_append [OF s1(3)] by simp
  moreover have "mset (calls1 @ calls) + mset left = mset (n # ns) + mset (ret p)"
    using r(4) s1(7) by (simp add: ac_simps)
  ultimately show ?case
    unfolding loop using r(1) r(2) [unfolded fun_upd_upd] by blast
qed

section \<open>Histories\<close>

text \<open>
  A client pushes a new node, with its \<open>gc_function\<close> set to \<open>g\<close>, through the record of one of the
  threads, or pops through one.
\<close>

datatype mq_op = Mq_push ptr ptr ptr | Mq_pop ptr

definition new_node :: "ptr \<Rightarrow> mpmc_mem \<Rightarrow> ptr \<Rightarrow> ptr \<Rightarrow> mpmc_mem" where
  "new_node g s n v = \<lparr>
     mm_hp = (mm_hp s)\<lparr>hs_nodes := (hs_nodes (mm_hp s))(n \<mapsto> \<lparr>hn_next = NULL, hn_gc_data = NULL, hn_gc_function = g\<rparr>)\<rparr>,
     mm_nodes = (mm_nodes s)(n \<mapsto> \<lparr>mn_value = v, mn_prev = NULL, mn_next = NULL\<rparr>)\<rparr>"

fun run_mq :: "(nat \<Rightarrow> ptr) \<Rightarrow> ptr \<Rightarrow> mpmc_mem \<Rightarrow> mpmc_fifo \<Rightarrow> mq_op list \<Rightarrow> (ptr list \<times> mpmc_mem \<times> mpmc_fifo) option" where
  "run_mq junk g s f [] = Some ([], s, f)"
| "run_mq junk g s f (Mq_push p n v # ops) = do {
     (s', f') \<leftarrow> mpmc_fifo_push p (new_node g s n v) f n;
     run_mq junk g s' f' ops
   }"
| "run_mq junk g s f (Mq_pop p # ops) = do {
     (v, s', f') \<leftarrow> mpmc_fifo_trypop True junk p s f;
     (outs, r) \<leftarrow> run_mq junk g s' f' ops;
     Some (v # outs, r)
   }"

text \<open>What the pops answer on a list of values: \<open>NULL\<close> when there is none.\<close>

fun spec_mq :: "ptr list \<Rightarrow> mq_op list \<Rightarrow> ptr list" where
  "spec_mq vs [] = []"
| "spec_mq vs (Mq_push p n v # ops) = spec_mq (vs @ [v]) ops"
| "spec_mq vs (Mq_pop p # ops) = (case vs of [] \<Rightarrow> NULL # spec_mq [] ops | v # ws \<Rightarrow> v # spec_mq ws ops)"

fun pushed_nodes :: "mq_op list \<Rightarrow> ptr list" where
  "pushed_nodes [] = []"
| "pushed_nodes (Mq_push p n v # ops) = n # pushed_nodes ops"
| "pushed_nodes (Mq_pop p # ops) = pushed_nodes ops"

definition legal_mq :: "ptr list \<Rightarrow> mq_op list \<Rightarrow> bool" where
  "legal_mq rs ops = list_all (\<lambda>op. case op of Mq_push p n v \<Rightarrow> p \<in> set rs \<and> n \<noteq> NULL \<and> v \<noteq> NULL | Mq_pop p \<Rightarrow> p \<in> set rs) ops"

lemma hp_ok_alloc:
  assumes ok: "hp_ok s a K rs ret" and n: "\<forall>q \<in> set rs. n \<notin> set (ret q)"
  shows "hp_ok (s\<lparr>hs_nodes := (hs_nodes s)(n := x)\<rparr>) a K rs ret"
proof -
  have "retired_ok ((hs_nodes s)(n := x)) r (ret q) = retired_ok (hs_nodes s) r (ret q)" if "q \<in> set rs" for r q
    using that n by (auto simp: retired_ok_def)
  then show ?thesis
    using ok by (simp add: hp_ok_def hp_list_def)
qed

lemma sum_ret:
  assumes "p \<in> set rs"
  shows "(\<Sum>q \<in> set rs. mset ((ret(p := ns)) q)) + mset (ret p) = (\<Sum>q \<in> set rs. mset (ret q)) + mset ns"
proof -
  have "(\<Sum>q \<in> set rs - {p}. mset ((ret(p := ns)) q)) = (\<Sum>q \<in> set rs - {p}. mset (ret q))"
    by (rule sum.cong) simp_all
  then show ?thesis
    using assms by (simp add: sum.remove [of _ p] ac_simps)
qed

text \<open>Where the nodes are: in the FIFO, retired, or handed over.\<close>

definition accounted :: "mpmc_mem \<Rightarrow> ptr list \<Rightarrow> ptr list \<Rightarrow> (ptr \<Rightarrow> ptr list) \<Rightarrow> ptr multiset" where
  "accounted s ns rs ret = mset ns + (\<Sum>q \<in> set rs. mset (ret q)) + mset (handed s)"


lemma new_node_ok:
  assumes ok: "mpmc_ok s f ns a K rs ret" and n: "n \<notin> set ns" "\<forall>q \<in> set rs. n \<notin> set (ret q)"
  shows "mpmc_ok (new_node g s n v) f ns a K rs ret" "datas (view (new_node g s n v)) (tl ns) = datas (view s) (tl ns)"
proof -
  have ns: "n \<notin> set (tl ns)"
    using n(1) queue_repD(1) [OF mpmc_okD(3) [OF ok]] by (meson list.set_sel(2))
  have vs: "view (new_node g s n v) = (view s)(n \<mapsto> node_of v NULL)"
    by (simp add: new_node_def view_def fun_eq_iff)
  show datas: "datas (view (new_node g s n v)) (tl ns) = datas (view s) (tl ns)"
    unfolding vs using ns by simp
  have "queue_rep (view (new_node g s n v)) (mf_head f) (mf_tail f) ns"
    unfolding vs using mpmc_okD(3) [OF ok] n(1) by (simp add: queue_rep_def)
  moreover have "hp_ok (mm_hp (new_node g s n v)) a K rs ret"
    using hp_ok_alloc [OF mpmc_okD(1) [OF ok] n(2)] by (simp add: new_node_def)
  moreover have "hs_nodes (mm_hp (new_node g s n v)) m = hs_nodes (mm_hp s) m" if "m \<in> set ns" for m
    using that n(1) by (auto simp: new_node_def)
  ultimately show "mpmc_ok (new_node g s n v) f ns a K rs ret"
    using ok by (simp add: mpmc_ok_def datas)
qed

lemma accounted_push:
  "hs_calls (mm_hp s') = hs_calls (mm_hp s) \<Longrightarrow> accounted s' (ns @ [n]) rs ret = accounted s ns rs ret + {#n#}"
  by (simp add: accounted_def handed_def)

lemma multiset_balance:
  fixes A :: "'a multiset"
  assumes "A + B = C + L" and "X + L = D + B"
  shows "N + A + (H + X) + B = D + N + C + H + B"
proof (rule multiset_eqI)
  fix x
  have "count A x + count B x = count C x + count L x" "count X x + count L x = count D x + count B x"
    using arg_cong [OF assms(1), of "\<lambda>M. count M x"] arg_cong [OF assms(2), of "\<lambda>M. count M x"] by simp_all
  then show "count (N + A + (H + X) + B) x = count (D + N + C + H + B) x"
    by simp
qed

lemma accounted_pop:
  assumes "p \<in> set rs" and "mset calls + mset left = mset ds + mset (ret p)" and "handed s' = handed s @ calls"
  shows "accounted s' ns rs (ret(p := left)) = accounted s (ds @ ns) rs ret"
proof -
  have "accounted s' ns rs (ret(p := left)) + mset (ret p) = accounted s (ds @ ns) rs ret + mset (ret p)"
    using multiset_balance [OF sum_ret [OF assms(1), of ret left] assms(2)] assms(3)
    by (simp add: accounted_def)
  then show ?thesis by simp
qed

lemma run_mq_law:
  assumes "mpmc_ok s f ns a K rs ret" and "g \<noteq> NULL" and "legal_mq rs ops" and "distinct (pushed_nodes ops)"
    and "\<forall>n \<in> set (pushed_nodes ops). n \<notin> set ns \<and> (\<forall>q \<in> set rs. n \<notin> set (ret q))"
  shows "\<exists>s' f' ns' ret'. run_mq junk g s f ops = Some (spec_mq (datas (view s) (tl ns)) ops, s', f')
    \<and> mpmc_ok s' f' ns' a K rs ret' \<and> accounted s' ns' rs ret' = accounted s ns rs ret + mset (pushed_nodes ops)"
  using assms
proof (induction ops arbitrary: s f ns ret)
  case Nil
  then show ?case by auto
next
  case (Cons op ops)
  have legal: "legal_mq rs ops"
    using Cons.prems(3) by (simp add: legal_mq_def)
  show ?case
  proof (cases op)
    case (Mq_push p n v)
    have n: "n \<notin> set ns" "\<forall>q \<in> set rs. n \<notin> set (ret q)" and p: "p \<in> set rs" "n \<noteq> NULL" "v \<noteq> NULL"
      using Cons.prems(3,5) Mq_push by (simp_all add: legal_mq_def)
    let ?s0 = "new_node g s n v"
    note ok0 = new_node_ok [OF Cons.prems(1) n, of g v]
    have at: "mm_nodes ?s0 n = Some \<lparr>mn_value = v, mn_prev = NULL, mn_next = NULL\<rparr>"
        "hs_nodes (mm_hp ?s0) n = Some \<lparr>hn_next = NULL, hn_gc_data = NULL, hn_gc_function = g\<rparr>"
      by (simp_all add: new_node_def)
    obtain s1 f1 where s1: "mpmc_fifo_push p ?s0 f n = Some (s1, f1)" "mpmc_ok s1 f1 (ns @ [n]) a K rs ret"
        "view s1 = linked (view ?s0) (List.last ns) n" "hs_calls (mm_hp s1) = hs_calls (mm_hp ?s0)"
      using mpmc_push_law [OF ok0(1) p(1) n(1) p(2) at(1) _ at(2) _ n(2)] p(3) Cons.prems(2) by auto
    have view0: "view ?s0 n = Some (node_of v NULL)"
      by (simp add: view_def at(1))
    have datas: "datas (view s1) (tl (ns @ [n])) = datas (view s) (tl ns) @ [v]"
      unfolding s1(3) using datas_linked [OF mpmc_okD(3) [OF ok0(1)] n(1)] view0 ok0(2) by simp
    have acc: "accounted s1 (ns @ [n]) rs ret = accounted s ns rs ret + {#n#}"
      using s1(4) by (intro accounted_push) (simp add: new_node_def)
    have "distinct (pushed_nodes ops)"
        "\<forall>m \<in> set (pushed_nodes ops). m \<notin> set (ns @ [n]) \<and> (\<forall>q \<in> set rs. m \<notin> set (ret q))"
      using Cons.prems(4,5) Mq_push by auto
    from Cons.IH [OF s1(2) Cons.prems(2) legal this] show ?thesis
      unfolding datas acc using s1(1) Mq_push by auto
  next
    case (Mq_pop p)
    have p: "p \<in> set rs" and rest: "distinct (pushed_nodes ops)"
        "\<forall>m \<in> set (pushed_nodes ops). m \<notin> set ns \<and> (\<forall>q \<in> set rs. m \<notin> set (ret q))"
      using Cons.prems(3-5) Mq_pop by (simp_all add: legal_mq_def)
    consider d where "ns = [d]" | d m ms where "ns = d # m # ms"
      using queue_repD(1) [OF mpmc_okD(3) [OF Cons.prems(1)]] by (metis neq_Nil_conv)
    then show ?thesis
    proof cases
      case 1
      obtain s1 where s1: "mpmc_fifo_trypop True junk p s f = Some (NULL, s1, f)" "mpmc_ok s1 f ns a K rs ret"
          "view s1 = view s" "hs_calls (mm_hp s1) = hs_calls (mm_hp s)"
        using mpmc_pop_empty [of s f d] Cons.prems(1) p 1 by blast
      have "accounted s1 ns rs ret = accounted s ns rs ret"
        using s1(4) by (simp add: accounted_def handed_def)
      with Cons.IH [OF s1(2) Cons.prems(2) legal rest] obtain s' f' ns' ret' where
        "run_mq junk g s1 f ops = Some (spec_mq (datas (view s) (tl ns)) ops, s', f')" "mpmc_ok s' f' ns' a K rs ret'"
        "accounted s' ns' rs ret' = accounted s ns rs ret + mset (pushed_nodes ops)"
        unfolding s1(3) by auto
      moreover from this(1) have "run_mq junk g s f (op # ops) = Some (spec_mq (datas (view s) (tl ns)) (op # ops), s', f')"
        using s1(1) Mq_pop 1 by simp
      ultimately show ?thesis
        using Mq_pop by auto
    next
      case 2
      obtain s1 f1 calls left where s1: "mpmc_fifo_trypop True junk p s f = Some (n_data (the (view s m)), s1, f1)"
          "mpmc_ok s1 f1 (m # ms) a K rs (ret(p := left))" "view s1 = view s"
          "hs_calls (mm_hp s1) = hs_calls (mm_hp s) @ List.map (gc_call (hs_nodes (mm_hp s))) calls"
          "mset calls + mset left = mset (d # ret p)"
        using mpmc_pop_law [of s f d m ms] Cons.prems(1) p 2 by blast
      have acc: "accounted s1 (m # ms) rs (ret(p := left)) = accounted s ns rs ret"
        using accounted_pop [of p rs calls left "[d]" ret s1 s "m # ms"] p s1(5) handed_append [OF s1(4)] 2 by simp
      have "set left \<subseteq> insert d (set (ret p))"
        using arg_cong [OF s1(5), of set_mset] by auto
      then have "\<forall>k \<in> set (pushed_nodes ops). k \<notin> set (m # ms) \<and> (\<forall>q \<in> set rs. k \<notin> set ((ret(p := left)) q))"
        using rest(2) p 2 by auto
      from Cons.IH [OF s1(2) Cons.prems(2) legal rest(1) this] obtain s' f' ns' ret' where
        "run_mq junk g s1 f1 ops = Some (spec_mq (datas (view s) ms) ops, s', f')" "mpmc_ok s' f' ns' a K rs ret'"
        "accounted s' ns' rs ret' = accounted s ns rs ret + mset (pushed_nodes ops)"
        unfolding acc s1(3) by auto
      moreover from this(1) have "run_mq junk g s f (op # ops) = Some (spec_mq (datas (view s) (tl ns)) (op # ops), s', f')"
        using s1(1) Mq_pop 2 by simp
      ultimately show ?thesis
        using Mq_pop by auto
    qed
  qed
qed


section \<open>Properties\<close>

text \<open>A fresh FIFO over records with nothing retired.\<close>

lemma mpmc_init_ok:
  assumes "hp_ok hp a K rs (\<lambda>_. [])" and "2 \<le> K" and "d \<noteq> NULL" and "g \<noteq> NULL" and "rs \<noteq> []"
  defines "s \<equiv> new_node g \<lparr>mm_hp = hp, mm_nodes = Map.empty\<rparr> d NULL"
  shows "mpmc_fifo_init s d = Some (1, s, \<lparr>mf_head = d, mf_tail = d\<rparr>)"
    "mpmc_ok s \<lparr>mf_head = d, mf_tail = d\<rparr> [d] a K rs (\<lambda>_. [])"
proof -
  have at: "mm_nodes s d = Some \<lparr>mn_value = NULL, mn_prev = NULL, mn_next = NULL\<rparr>"
      "hs_nodes (mm_hp s) d = Some \<lparr>hn_next = NULL, hn_gc_data = NULL, hn_gc_function = g\<rparr>"
    by (simp_all add: s_def new_node_def)
  have same: "s\<lparr>mm_nodes := (mm_nodes s)(d \<mapsto> \<lparr>mn_value = NULL, mn_prev = NULL, mn_next = NULL\<rparr>)\<rparr> = s"
    using at(1) by (simp add: map_upd_triv)
  then show "mpmc_fifo_init s d = Some (1, s, \<lparr>mf_head = d, mf_tail = d\<rparr>)"
    using assms(3,4) at by (simp add: mpmc_fifo_init_def wr_node_def rd_node_def Let_def)
  have "hp_ok (mm_hp s) a K rs (\<lambda>_. [])"
    using hp_ok_alloc [OF assms(1)] by (simp add: s_def new_node_def)
  moreover have "queue_rep (view s) d d [d]"
    using assms(3) at(1) by (simp add: queue_rep_def view_def rd_next_def)
  ultimately show "mpmc_ok s \<lparr>mf_head = d, mf_tail = d\<rparr> [d] a K rs (\<lambda>_. [])"
    using assms(2,4,5) at(2) by (simp add: mpmc_ok_def)
qed

text \<open>
  C34. One thread after another, through any of the records, the FIFO answers every history of
  pushes and pops as a list of values does, with no invalid access and no failed assertion;
  and after the destroy every node that was pushed, and the first dummy, has been handed to its
  \<open>gc_function\<close> or is retired in some record, exactly once.
\<close>

theorem mpmc_fifo_history:
  assumes "hp_ok hp a K rs (\<lambda>_. [])" and "hs_calls hp = []" and "2 \<le> K" and "p \<in> set rs"
    and "d \<noteq> NULL" and "g \<noteq> NULL" and "legal_mq rs ops" and "distinct (d # pushed_nodes ops)"
  shows "\<exists>s0 f0 s f s' ret. mpmc_fifo_init (new_node g \<lparr>mm_hp = hp, mm_nodes = Map.empty\<rparr> d NULL) d = Some (1, s0, f0)
    \<and> run_mq junk g s0 f0 ops = Some (spec_mq [] ops, s, f)
    \<and> mpmc_fifo_destroy True junk p s (Some f) = Some s' \<and> hp_ok (mm_hp s') a K rs ret
    \<and> mset (handed s') + (\<Sum>q \<in> set rs. mset (ret q)) = mset (d # pushed_nodes ops)"
proof -
  let ?s = "new_node g \<lparr>mm_hp = hp, mm_nodes = Map.empty\<rparr> d NULL" and ?f = "\<lparr>mf_head = d, mf_tail = d\<rparr>"
  have rs: "rs \<noteq> []"
    using assms(4) by auto
  note init = mpmc_init_ok [OF assms(1,3,5,6) rs]
  have acc: "accounted ?s [d] rs (\<lambda>_. []) = {#d#}"
    using assms(2) by (simp add: accounted_def handed_def new_node_def)
  have "\<forall>n \<in> set (pushed_nodes ops). n \<notin> set [d] \<and> (\<forall>q \<in> set rs. n \<notin> set [])"
    using assms(8) by auto
  from run_mq_law [OF init(2) assms(6,7) _ this, of junk] assms(8)
  obtain s f ns ret where r: "run_mq junk g ?s ?f ops = Some (spec_mq [] ops, s, f)" "mpmc_ok s f ns a K rs ret"
      "accounted s ns rs ret = {#d#} + mset (pushed_nodes ops)"
    unfolding acc by auto
  note D = mpmc_okD [OF r(2)]
  have head: "mf_head f = chain_start ns NULL"
    using queue_repD(1,2) [OF D(3)] by (cases ns) simp_all
  have each: "\<forall>n \<in> set ns. \<exists>hz. hs_nodes (mm_hp s) n = Some hz \<and> hn_gc_function hz \<noteq> NULL"
      "\<forall>q \<in> set rs. set (ret q) \<inter> set ns = {}"
    using D(4,5) by auto
  obtain s' f' calls left where destroy: "mpmc_destroy_loop True junk p s f = Some (s', f')"
      "hp_ok (mm_hp s') a K rs (ret(p := left))" "handed s' = handed s @ calls" "mset calls + mset left = mset ns + mset (ret p)"
    using destroy_loop_law [OF D(1) assms(4) D(6) [OF assms(4)] queue_repD(4,5) [OF D(3)] head each] by blast
  have "accounted s' [] rs (ret(p := left)) = {#d#} + mset (pushed_nodes ops)"
    using accounted_pop [of p rs calls left ns ret s' s "[]"] assms(4) destroy(3,4) r(3) by simp
  then have "mset (handed s') + (\<Sum>q \<in> set rs. mset ((ret(p := left)) q)) = mset (d # pushed_nodes ops)"
    by (simp add: accounted_def ac_simps)
  moreover have "mpmc_fifo_destroy True junk p s (Some f) = Some s'"
    using destroy(1) hp_okD(6) [OF D(1) assms(4)] by (simp add: mpmc_fifo_destroy_def)
  ultimately show ?thesis
    using init(1) r(1) destroy(2) by blast
qed


text \<open>One record with two pointers: the fourth node retired is the first to be handed over.\<close>

definition mq_demo :: hazard_state where
  "mq_demo = \<lparr>hs_nodes = Map.empty, hs_recs = [16 \<mapsto> \<lparr>hr_head = 8, hr_next = NULL, hr_retire_threshold = 4,
       hr_retired_count = 0, hr_retired_list = NULL, hr_plist_size = 0, hr_plist = None,
       hr_hazard_pointers_count = 2, hr_hazard_pointers = [NULL, NULL]\<rparr>],
     hs_heads = [8 \<mapsto> 16], hs_calls = []\<rparr>"

lemma mq_demo_ok: "hp_ok mq_demo 8 2 [16] (\<lambda>_. [])"
  by (simp add: hp_ok_def hp_list_def rec_ok_def retired_ok_def mq_demo_def)

theorem mpmc_fifo_history_witness:
  "\<exists>s0 f0 s f s' ret. mpmc_fifo_init (new_node 2 \<lparr>mm_hp = mq_demo, mm_nodes = Map.empty\<rparr> 64 NULL) 64 = Some (1, s0, f0)
    \<and> run_mq (\<lambda>_. 0) 2 s0 f0 [Mq_push 16 96 7, Mq_push 16 112 8, Mq_pop 16, Mq_pop 16, Mq_pop 16, Mq_push 16 128 9]
      = Some ([7, 8, NULL], s, f)
    \<and> mpmc_fifo_destroy True (\<lambda>_. 0) 16 s (Some f) = Some s'
    \<and> mset (handed s') + (\<Sum>q \<in> set [16]. mset (ret q)) = {#64, 96, 112, 128#}"
proof -
  let ?ops = "[Mq_push 16 96 7, Mq_push 16 112 8, Mq_pop 16, Mq_pop 16, Mq_pop 16, Mq_push 16 128 9]"
  have spec: "spec_mq [] ?ops = [7, 8, NULL]" "mset (64 # pushed_nodes ?ops) = {#64, 96, 112, 128#}"
    by simp_all
  have "hs_calls mq_demo = []" "legal_mq [16] ?ops" "distinct (64 # pushed_nodes ?ops)" "(16 :: ptr) \<in> set [16]"
    by (simp_all add: mq_demo_def legal_mq_def)
  from mpmc_fifo_history [OF mq_demo_ok this(1) _ this(4) _ _ this(2,3), of 2 "\<lambda>_. 0"] show ?thesis
    unfolding spec by (fastforce simp del: run_mq.simps)
qed

end
