(* ===== verification/Mpmc_Fifo_Conc.thy ===== *)
theory Mpmc_Fifo_Conc
  imports Mpmc_Fifo
begin

text \<open>
  \<open>mpmc_fifo.h\<close> and the hazard pointers it rests on, under \<open>N\<close> threads, cut at each access to
  shared memory. A thread's stores to its hazard pointers and to the \<open>prev\<close> of the old tail are held in
  its store buffer, as on x86, until they are flushed, in order; \<open>hazard_pointer_using\<close> waits for
  that where \<open>store_load_barrier\<close> does so, and a compare-and-swap always does. \<open>head\<close> and \<open>tail\<close>
  are only written by compare-and-swap, and what a thread writes to a node before it
  publishes it with one goes to memory at once: no other thread can tell. The old head of a pop is
  retired; a thread that has retired as many nodes as the threshold reads the hazard pointers of
  all threads one by one and then frees those of its nodes that it has not met. A
  freed node may come back from \<open>malloc\<close> at once. An access to a freed node sets \<open>mq_bad\<close>, and a read
  then gives \<open>junk\<close>. \<open>mq_nodes\<close>, \<open>mq_pushed\<close> and \<open>mq_popped\<close> are ghost variables: the nodes from \<open>head\<close> to
  \<open>tail\<close>, the values in the order in which the pushes swapped the tail, and the values popped.
\<close>

section \<open>State\<close>

datatype mq_write = W_haz nat ptr | W_prev ptr ptr

datatype mq_pc =
    Q_idle
  | U_clear ptr
  | U_tail ptr
  | U_use ptr ptr
  | U_fence ptr ptr
  | U_check ptr ptr
  | U_next ptr ptr
  | U_cas ptr ptr
  | U_link ptr ptr
  | U_done
  | O_head
  | O_use ptr
  | O_fence ptr
  | O_check ptr
  | O_prev ptr
  | O_empty
  | O_use1 ptr ptr
  | O_fence1 ptr ptr
  | O_check1 ptr ptr
  | O_value ptr ptr
  | O_cas ptr ptr ptr
  | O_done0 ptr
  | O_done1 ptr
  | O_free ptr
  | O_scan "(tid \<times> nat) list" "ptr list"
  | O_sweep "ptr list" "ptr list"

record mq_sys =
  mq_head :: ptr
  mq_tail :: ptr
  mq_mem :: "ptr \<Rightarrow> mpmc_fifo_node option"
  mq_haz :: "tid \<Rightarrow> nat \<Rightarrow> ptr"
  mq_buf :: "tid \<Rightarrow> mq_write list"
  mq_pc :: "tid \<Rightarrow> mq_pc"
  mq_own :: "tid \<Rightarrow> ptr set"
  mq_ret :: "tid \<Rightarrow> ptr list"
  mq_bad :: bool
  mq_nodes :: "ptr list"
  mq_pushed :: "ptr list"
  mq_popped :: "ptr list"

abbreviation mq_goto :: "mq_sys \<Rightarrow> tid \<Rightarrow> mq_pc \<Rightarrow> mq_sys" where
  "mq_goto s t c \<equiv> s\<lparr>mq_pc := (mq_pc s)(t := c)\<rparr>"

abbreviation mq_store :: "mq_sys \<Rightarrow> tid \<Rightarrow> mq_write \<Rightarrow> mq_sys" where
  "mq_store s t w \<equiv> s\<lparr>mq_buf := (mq_buf s)(t := mq_buf s t @ [w])\<rparr>"

text \<open>What a thread reads: its own stores first.\<close>

definition own_haz :: "mq_sys \<Rightarrow> tid \<Rightarrow> nat \<Rightarrow> ptr" where
  "own_haz s t i = fold (\<lambda>w h. case w of W_haz j p \<Rightarrow> if j = i then p else h | W_prev _ _ \<Rightarrow> h) (mq_buf s t) (mq_haz s t i)"

definition own_prev :: "mq_sys \<Rightarrow> tid \<Rightarrow> ptr \<Rightarrow> ptr option" where
  "own_prev s t a = map_option (\<lambda>nd. fold (\<lambda>w q. case w of W_haz _ _ \<Rightarrow> q | W_prev b n \<Rightarrow> if b = a then n else q)
     (mq_buf s t) (mn_prev nd)) (mq_mem s a)"

text \<open>The hazard pointers a scan reads, in the order of the records.\<close>

definition slots :: "nat \<Rightarrow> (tid \<times> nat) list" where
  "slots N = List.product [0..<N] [0..<unat MPMC_HAZARD_COUNT]"

section \<open>Steps\<close>

definition mq_next :: "arch option \<Rightarrow> nat \<Rightarrow> tid \<Rightarrow> ptr \<Rightarrow> mq_sys \<Rightarrow> mq_sys option" where
  "mq_next ar N t junk s =
     (case mq_pc s t of
        Q_idle \<Rightarrow> None
      | U_clear n \<Rightarrow> do {
          nd \<leftarrow> mq_mem s n;
          Some ((mq_goto s t (U_tail n))\<lparr>mq_mem := (mq_mem s)(n \<mapsto> nd\<lparr>mn_prev := NULL\<rparr>)\<rparr>)
        }
      | U_tail n \<Rightarrow> Some (mq_goto s t (U_use n (mq_tail s)))
      | U_use n tail \<Rightarrow> Some (mq_goto (mq_store s t (W_haz 0 tail)) t (U_fence n tail))
      | U_fence n tail \<Rightarrow>
          if drains_stores (store_load_barrier ar) \<and> mq_buf s t \<noteq> [] then None
          else Some (mq_goto s t (U_check n tail))
      | U_check n tail \<Rightarrow> Some (mq_goto s t (if tail \<noteq> mq_tail s then U_tail n else U_next n tail))
      | U_next n tail \<Rightarrow> do {
          nd \<leftarrow> mq_mem s n;
          Some ((mq_goto s t (U_cas n tail))\<lparr>mq_mem := (mq_mem s)(n \<mapsto> nd\<lparr>mn_next := tail\<rparr>)\<rparr>)
        }
      | U_cas n tail \<Rightarrow>
          if mq_buf s t \<noteq> [] then None
          else (case sync_bool_compare_and_swap (mq_tail s) tail n of
                  (True, tail') \<Rightarrow> Some ((mq_goto s t (U_link n tail))\<lparr>mq_tail := tail', mq_nodes := mq_nodes s @ [n],
                    mq_pushed := mq_pushed s @ [mn_value (the (mq_mem s n))]\<rparr>)
                | (False, _) \<Rightarrow> Some (mq_goto s t (U_tail n)))
      | U_link n tail \<Rightarrow> Some (mq_goto (mq_store s t (W_prev tail n)) t U_done)
      | U_done \<Rightarrow> Some (mq_goto (mq_store s t (W_haz 0 NULL)) t Q_idle)
      | O_head \<Rightarrow> Some (mq_goto s t (O_use (mq_head s)))
      | O_use head \<Rightarrow> Some (mq_goto (mq_store s t (W_haz 0 head)) t (O_fence head))
      | O_fence head \<Rightarrow>
          if drains_stores (store_load_barrier ar) \<and> mq_buf s t \<noteq> [] then None
          else Some (mq_goto s t (O_check head))
      | O_check head \<Rightarrow> Some (mq_goto s t (if head \<noteq> mq_head s then O_head else O_prev head))
      | O_prev head \<Rightarrow>
          (let prev = (case own_prev s t head of None \<Rightarrow> junk | Some q \<Rightarrow> q)
           in Some ((mq_goto s t (if prev = NULL then O_empty else O_use1 head prev))
                \<lparr>mq_bad := mq_bad s \<or> mq_mem s head = None\<rparr>))
      | O_empty \<Rightarrow> Some (mq_goto (mq_store s t (W_haz 0 NULL)) t Q_idle)
      | O_use1 head prev \<Rightarrow> Some (mq_goto (mq_store s t (W_haz 1 prev)) t (O_fence1 head prev))
      | O_fence1 head prev \<Rightarrow>
          if drains_stores (store_load_barrier ar) \<and> mq_buf s t \<noteq> [] then None
          else Some (mq_goto s t (O_check1 head prev))
      | O_check1 head prev \<Rightarrow> Some (mq_goto s t (if head \<noteq> mq_head s then O_head else O_value head prev))
      | O_value head prev \<Rightarrow>
          (let ret = (case mq_mem s prev of None \<Rightarrow> junk | Some nd \<Rightarrow> mn_value nd)
           in Some ((mq_goto s t (O_cas head prev ret))\<lparr>mq_bad := mq_bad s \<or> mq_mem s prev = None\<rparr>))
      | O_cas head prev ret \<Rightarrow>
          if mq_buf s t \<noteq> [] then None
          else (case sync_bool_compare_and_swap (mq_head s) head prev of
                  (True, head') \<Rightarrow> Some ((mq_goto s t (O_done0 head))\<lparr>mq_head := head', mq_nodes := tl (mq_nodes s),
                    mq_popped := mq_popped s @ [ret]\<rparr>)
                | (False, _) \<Rightarrow> Some (mq_goto s t O_head))
      | O_done0 head \<Rightarrow> Some (mq_goto (mq_store s t (W_haz 0 NULL)) t (O_done1 head))
      | O_done1 head \<Rightarrow> Some (mq_goto (mq_store s t (W_haz 1 NULL)) t (O_free head))
      | O_free head \<Rightarrow>
          (let ret = head # mq_ret s t
           in Some ((mq_goto s t (if length ret \<ge> 2 * N * unat MPMC_HAZARD_COUNT then O_scan (slots N) [] else Q_idle))
                \<lparr>mq_ret := (mq_ret s)(t := ret)\<rparr>))
      | O_scan todo found \<Rightarrow>
          (case todo of
             [] \<Rightarrow> Some ((mq_goto s t (O_sweep (mq_ret s t) found))\<lparr>mq_ret := (mq_ret s)(t := [])\<rparr>)
           | (u, i) # todo' \<Rightarrow>
               let h = (if u = t then own_haz s t i else mq_haz s u i)
               in Some (mq_goto s t (O_scan todo' (if h \<noteq> NULL then h # found else found))))
      | O_sweep todo found \<Rightarrow>
          (case todo of
             [] \<Rightarrow> Some (mq_goto s t Q_idle)
           | n # todo' \<Rightarrow>
               if n \<in> set found then Some ((mq_goto s t (O_sweep todo' found))\<lparr>mq_ret := (mq_ret s)(t := n # mq_ret s t)\<rparr>)
               else Some ((mq_goto s t (O_sweep todo' found))\<lparr>mq_mem := (mq_mem s)(n := None)\<rparr>)))"

text \<open>The oldest store of a thread's buffer reaches memory.\<close>

definition mq_flush :: "tid \<Rightarrow> mq_sys \<Rightarrow> mq_sys option" where
  "mq_flush t s =
     (case mq_buf s t of
        [] \<Rightarrow> None
      | w # ws \<Rightarrow>
          let s' = s\<lparr>mq_buf := (mq_buf s)(t := ws)\<rparr>
          in Some (case w of
               W_haz i p \<Rightarrow> s'\<lparr>mq_haz := (mq_haz s)(t := (mq_haz s t)(i := p))\<rparr>
             | W_prev a b \<Rightarrow>
                 (case mq_mem s a of
                    None \<Rightarrow> s'\<lparr>mq_bad := True\<rparr>
                  | Some nd \<Rightarrow> s'\<lparr>mq_mem := (mq_mem s)(a \<mapsto> nd\<lparr>mn_prev := b\<rparr>)\<rparr>)))"

text \<open>
  What can happen next: a call, a step of a thread, a flush, and what the client does: get a node from
  \<open>malloc\<close>, with a node's contents, and write to a node of its own.
\<close>

datatype mq_act =
    Call_mqpush tid ptr
  | Call_mqpop tid
  | Mqgo tid ptr
  | Mqflush tid
  | Mqmalloc tid ptr mpmc_fifo_node
  | Mqwrite tid ptr mpmc_fifo_node

fun mq_tid :: "mq_act \<Rightarrow> tid" where
  "mq_tid (Call_mqpush t _) = t"
| "mq_tid (Call_mqpop t) = t"
| "mq_tid (Mqgo t _) = t"
| "mq_tid (Mqflush t) = t"
| "mq_tid (Mqmalloc t _ _) = t"
| "mq_tid (Mqwrite t _ _) = t"

fun mq_do :: "arch option \<Rightarrow> nat \<Rightarrow> mq_act \<Rightarrow> mq_sys \<Rightarrow> mq_sys option" where
  "mq_do ar N (Call_mqpush t n) s =
     (if mq_pc s t = Q_idle \<and> n \<in> mq_own s t \<and> mn_value (the (mq_mem s n)) \<noteq> NULL
      then Some ((mq_goto s t (U_clear n))\<lparr>mq_own := (mq_own s)(t := mq_own s t - {n})\<rparr>)
      else None)"
| "mq_do ar N (Call_mqpop t) s = (if mq_pc s t = Q_idle then Some (mq_goto s t O_head) else None)"
| "mq_do ar N (Mqgo t junk) s = mq_next ar N t junk s"
| "mq_do ar N (Mqflush t) s = mq_flush t s"
| "mq_do ar N (Mqmalloc t n nd) s =
     (if n \<noteq> NULL \<and> mq_mem s n = None
      then Some (s\<lparr>mq_mem := (mq_mem s)(n \<mapsto> nd), mq_own := (mq_own s)(t := insert n (mq_own s t))\<rparr>)
      else None)"
| "mq_do ar N (Mqwrite t n nd) s =
     (if n \<in> mq_own s t then Some (s\<lparr>mq_mem := (mq_mem s)(n \<mapsto> nd)\<rparr>) else None)"

inductive mq_step :: "arch option \<Rightarrow> nat \<Rightarrow> mq_sys \<Rightarrow> mq_sys \<Rightarrow> bool" for ar N where
  mq_stepI: "mq_tid a < N \<Longrightarrow> mq_do ar N a s = Some s' \<Longrightarrow> mq_step ar N s s'"

inductive_cases mq_stepE: "mq_step ar N s s'"

text \<open>The start: \<open>mpmc_fifo_init\<close> with the initial node at \<open>d\<close>.\<close>

definition mq_start :: "ptr \<Rightarrow> mq_sys" where
  "mq_start d = \<lparr>mq_head = d, mq_tail = d, mq_mem = [d \<mapsto> \<lparr>mn_value = NULL, mn_prev = NULL, mn_next = NULL\<rparr>],
     mq_haz = (\<lambda>_ _. NULL), mq_buf = (\<lambda>_. []), mq_pc = (\<lambda>_. Q_idle), mq_own = (\<lambda>_. {}), mq_ret = (\<lambda>_. []),
     mq_bad = False, mq_nodes = [d], mq_pushed = [], mq_popped = []\<rparr>"

definition mq_init :: "mq_sys \<Rightarrow> bool" where
  "mq_init s \<longleftrightarrow> (\<exists>d. d \<noteq> NULL \<and> s = mq_start d)"

fun mq_run :: "arch option \<Rightarrow> nat \<Rightarrow> mq_act list \<Rightarrow> mq_sys \<Rightarrow> mq_sys option" where
  "mq_run ar N [] s = Some s"
| "mq_run ar N (a # as) s = (if mq_tid a < N then Option.bind (mq_do ar N a s) (mq_run ar N as) else None)"

lemma mq_run_reach:
  "mq_run ar N as s = Some s' \<Longrightarrow> reach init (mq_step ar N) s \<Longrightarrow> reach init (mq_step ar N) s'"
proof (induction as arbitrary: s)
  case (Cons a as)
  then obtain s1 where "mq_tid a < N" "mq_do ar N a s = Some s1" "mq_run ar N as s1 = Some s'"
    by (auto split: bind_splits if_splits)
  then show ?case
    using Cons reach_step mq_stepI by metis
qed simp


section \<open>The invariant\<close>

text \<open>
  The node a thread is about to push; the nodes it is about to retire or still has to sweep, with
  those it has retired; all the nodes it holds.
\<close>

fun pushing :: "mq_pc \<Rightarrow> ptr set" where
  "pushing (U_clear n) = {n}"
| "pushing (U_tail n) = {n}"
| "pushing (U_use n _) = {n}"
| "pushing (U_fence n _) = {n}"
| "pushing (U_check n _) = {n}"
| "pushing (U_next n _) = {n}"
| "pushing (U_cas n _) = {n}"
| "pushing _ = {}"

fun leaving :: "mq_pc \<Rightarrow> ptr list" where
  "leaving (O_done0 h) = [h]"
| "leaving (O_done1 h) = [h]"
| "leaving (O_free h) = [h]"
| "leaving (O_sweep todo _) = todo"
| "leaving _ = []"

definition limbo :: "mq_sys \<Rightarrow> tid \<Rightarrow> ptr list" where
  "limbo s t = leaving (mq_pc s t) @ mq_ret s t"

definition mq_holds :: "mq_sys \<Rightarrow> tid \<Rightarrow> ptr set" where
  "mq_holds s t = mq_own s t \<union> pushing (mq_pc s t) \<union> set (limbo s t)"

text \<open>A link to the node before that is not in memory yet.\<close>

fun buf_pend :: "mq_write list \<Rightarrow> (ptr \<times> ptr) option" where
  "buf_pend (W_prev a b # _) = Some (a, b)"
| "buf_pend _ = None"

fun pend_of :: "mq_pc \<Rightarrow> mq_write list \<Rightarrow> (ptr \<times> ptr) option" where
  "pend_of (U_link n tail) b = Some (tail, n)"
| "pend_of _ b = buf_pend b"

definition pend :: "mq_sys \<Rightarrow> tid \<Rightarrow> (ptr \<times> ptr) option" where
  "pend s t = pend_of (mq_pc s t) (mq_buf s t)"

definition mq_gap :: "mq_sys \<Rightarrow> ptr \<Rightarrow> ptr \<Rightarrow> bool" where
  "mq_gap s a b \<longleftrightarrow> (\<exists>t. pend s t = Some (a, b))"

abbreviation mem_prev :: "mq_sys \<Rightarrow> ptr \<Rightarrow> ptr option" where
  "mem_prev s a \<equiv> map_option mn_prev (mq_mem s a)"

abbreviation mem_value :: "mq_sys \<Rightarrow> ptr \<Rightarrow> ptr option" where
  "mem_value s a \<equiv> map_option mn_value (mq_mem s a)"

definition queue_inv :: "mq_sys \<Rightarrow> bool" where
  "queue_inv s \<longleftrightarrow> mq_nodes s \<noteq> [] \<and> distinct (mq_nodes s) \<and> mq_head s = List.hd (mq_nodes s)
     \<and> mq_tail s = List.last (mq_nodes s) \<and> (\<forall>n \<in> set (mq_nodes s). n \<noteq> NULL \<and> mq_mem s n \<noteq> None)
     \<and> (\<forall>a b. follows (mq_nodes s) a b \<longrightarrow> mem_prev s a = Some (if mq_gap s a b then NULL else b))
     \<and> mem_prev s (mq_tail s) = Some NULL
     \<and> (\<forall>t a b. pend s t = Some (a, b) \<longrightarrow> follows (mq_nodes s) a b)
     \<and> (\<forall>t u a b. pend s t = Some (a, b) \<longrightarrow> pend s u = Some (a, b) \<longrightarrow> t = u)
     \<and> mq_pushed s = mq_popped s @ List.map (\<lambda>n. mn_value (the (mq_mem s n))) (tl (mq_nodes s))"

definition nodes_inv :: "mq_sys \<Rightarrow> bool" where
  "nodes_inv s \<longleftrightarrow> (\<forall>t. \<forall>n \<in> mq_holds s t. n \<noteq> NULL \<and> mq_mem s n \<noteq> None \<and> n \<notin> set (mq_nodes s))
     \<and> (\<forall>t u. t \<noteq> u \<longrightarrow> mq_holds s t \<inter> mq_holds s u = {})"

definition apart :: "mq_sys \<Rightarrow> tid \<Rightarrow> bool" where
  "apart s t \<longleftrightarrow> mq_own s t \<inter> pushing (mq_pc s t) = {} \<and> distinct (limbo s t)
     \<and> (mq_own s t \<union> pushing (mq_pc s t)) \<inter> set (limbo s t) = {}"

text \<open>
  The pointers a thread has published and then found still good, in the slots of the record
  they are in: these nodes must not be freed.
\<close>

fun prot :: "mq_pc \<Rightarrow> (nat \<times> ptr) set" where
  "prot (O_prev h) = {(0, h)}"
| "prot (O_use1 h p) = {(0, h)}"
| "prot (O_fence1 h p) = {(0, h)}"
| "prot (O_check1 h p) = {(0, h)}"
| "prot (O_value h p) = {(0, h), (1, p)}"
| "prot (O_cas h p _) = {(0, h), (1, p)}"
| "prot _ = {}"

text \<open>What a thread's program counter says of its store buffer and of its hazard pointers in memory.\<close>

fun bpc_ok :: "mq_pc \<Rightarrow> mq_write list \<Rightarrow> (nat \<Rightarrow> ptr) \<Rightarrow> bool" where
  "bpc_ok (U_link _ _) b hz \<longleftrightarrow> b = []"
| "bpc_ok (O_fence h) b hz \<longleftrightarrow> (if b = [] then hz 0 = h else List.last b = W_haz 0 h)"
| "bpc_ok (O_check h) b hz \<longleftrightarrow> b = [] \<and> hz 0 = h"
| "bpc_ok (O_prev h) b hz \<longleftrightarrow> b = [] \<and> hz 0 = h"
| "bpc_ok (O_use1 h p) b hz \<longleftrightarrow> b = [] \<and> hz 0 = h"
| "bpc_ok (O_fence1 h p) b hz \<longleftrightarrow> hz 0 = h \<and> (if b = [] then hz 1 = p else b = [W_haz 1 p])"
| "bpc_ok (O_check1 h p) b hz \<longleftrightarrow> b = [] \<and> hz 0 = h \<and> hz 1 = p"
| "bpc_ok (O_value h p) b hz \<longleftrightarrow> b = [] \<and> hz 0 = h \<and> hz 1 = p"
| "bpc_ok (O_cas h p _) b hz \<longleftrightarrow> b = [] \<and> hz 0 = h \<and> hz 1 = p"
| "bpc_ok _ b hz = True"

definition links_first :: "mq_write list \<Rightarrow> bool" where
  "links_first b \<longleftrightarrow> (\<forall>w \<in> set (tl b). \<exists>i p. w = W_haz i p)"

text \<open>What it says of the nodes.\<close>

fun npc_ok :: "mq_pc \<Rightarrow> (ptr \<Rightarrow> ptr option) \<Rightarrow> (ptr \<Rightarrow> ptr option) \<Rightarrow> bool" where
  "npc_ok (O_use1 h p) prv val \<longleftrightarrow> p \<noteq> NULL \<and> prv h = Some p"
| "npc_ok (O_fence1 h p) prv val \<longleftrightarrow> p \<noteq> NULL \<and> prv h = Some p"
| "npc_ok (O_check1 h p) prv val \<longleftrightarrow> p \<noteq> NULL \<and> prv h = Some p"
| "npc_ok (O_value h p) prv val \<longleftrightarrow> p \<noteq> NULL \<and> prv h = Some p"
| "npc_ok (O_cas h p v) prv val \<longleftrightarrow> p \<noteq> NULL \<and> prv h = Some p \<and> val p = Some v"
| "npc_ok _ prv val = True"

text \<open>The node of a push once its \<open>prev\<close> is cleared.\<close>

fun cleared :: "mq_pc \<Rightarrow> ptr set" where
  "cleared (U_clear n) = {}"
| "cleared c = pushing c"

text \<open>In the queue, or taken from it and not yet freed.\<close>

definition live :: "mq_sys \<Rightarrow> ptr \<Rightarrow> bool" where
  "live s n \<longleftrightarrow> n \<in> set (mq_nodes s) \<or> (\<exists>u. n \<in> set (limbo s u))"

text \<open>The scan of a thread will meet the node in the slot, or has met it.\<close>

fun spares :: "mq_pc \<Rightarrow> ptr list \<Rightarrow> tid \<times> nat \<Rightarrow> ptr \<Rightarrow> bool" where
  "spares (O_scan todo found) ret slot n \<longleftrightarrow> n \<in> set ret \<longrightarrow> slot \<in> set todo \<or> n \<in> set found"
| "spares (O_sweep todo found) ret slot n \<longleftrightarrow> n \<in> set todo \<longrightarrow> n \<in> set found"
| "spares _ ret slot n = True"

definition safe :: "mq_sys \<Rightarrow> tid \<Rightarrow> nat \<Rightarrow> ptr \<Rightarrow> bool" where
  "safe s t i n \<longleftrightarrow> live s n \<and> (\<forall>u. spares (mq_pc s u) (mq_ret s u) (t, i) n)"

definition mthread_ok :: "mq_sys \<Rightarrow> tid \<Rightarrow> bool" where
  "mthread_ok s t \<longleftrightarrow> apart s t \<and> bpc_ok (mq_pc s t) (mq_buf s t) (mq_haz s t) \<and> links_first (mq_buf s t)
     \<and> npc_ok (mq_pc s t) (mem_prev s) (mem_value s)
     \<and> (\<forall>n \<in> cleared (mq_pc s t). mem_prev s n = Some NULL) \<and> (\<forall>(i, n) \<in> prot (mq_pc s t). safe s t i n)"

definition mq_inv :: "nat \<Rightarrow> mq_sys \<Rightarrow> bool" where
  "mq_inv N s \<longleftrightarrow> queue_inv s \<and> nodes_inv s \<and> (\<forall>t. mthread_ok s t) \<and> \<not> mq_bad s
     \<and> (\<forall>t \<ge> N. mq_pc s t = Q_idle)"

lemma mq_invD:
  assumes "mq_inv N s"
  shows "queue_inv s" "nodes_inv s" "mthread_ok s t" "\<not> mq_bad s" "t \<ge> N \<Longrightarrow> mq_pc s t = Q_idle"
  using assms by (simp_all add: mq_inv_def)

lemma queue_invD:
  assumes "queue_inv s"
  shows "mq_nodes s \<noteq> []" "distinct (mq_nodes s)" "mq_head s = List.hd (mq_nodes s)" "mq_tail s = List.last (mq_nodes s)"
    "n \<in> set (mq_nodes s) \<Longrightarrow> n \<noteq> NULL \<and> mq_mem s n \<noteq> None"
    "follows (mq_nodes s) a b \<Longrightarrow> mem_prev s a = Some (if mq_gap s a b then NULL else b)"
    "mem_prev s (mq_tail s) = Some NULL" "pend s t = Some (a, b) \<Longrightarrow> follows (mq_nodes s) a b"
    "pend s t = Some (a, b) \<Longrightarrow> pend s u = Some (a, b) \<Longrightarrow> t = u"
    "mq_pushed s = mq_popped s @ List.map (\<lambda>n. mn_value (the (mq_mem s n))) (tl (mq_nodes s))"
  using assms unfolding queue_inv_def by blast+

lemma nodes_invD:
  assumes "nodes_inv s"
  shows "n \<in> mq_holds s t \<Longrightarrow> n \<noteq> NULL \<and> mq_mem s n \<noteq> None \<and> n \<notin> set (mq_nodes s)"
    "t \<noteq> u \<Longrightarrow> mq_holds s t \<inter> mq_holds s u = {}"
  using assms by (simp_all add: nodes_inv_def)

lemma mthread_okD:
  assumes "mthread_ok s t"
  shows "apart s t" "bpc_ok (mq_pc s t) (mq_buf s t) (mq_haz s t)" "links_first (mq_buf s t)"
    "npc_ok (mq_pc s t) (mem_prev s) (mem_value s)" "(i, n) \<in> prot (mq_pc s t) \<Longrightarrow> safe s t i n"
    "n \<in> cleared (mq_pc s t) \<Longrightarrow> mem_prev s n = Some NULL"
  using assms by (auto simp: mthread_ok_def)

text \<open>A node of the queue is in nobody's limbo; a live node is allocated.\<close>

lemma queue_not_limbo:
  assumes "nodes_inv s" and "n \<in> set (mq_nodes s)"
  shows "n \<notin> set (limbo s u)" "n \<notin> mq_holds s u"
  using nodes_invD(1) [OF assms(1), of n u] assms(2) by (auto simp: mq_holds_def)

lemma spares_not_limbo: "n \<notin> set (leaving c @ ret) \<Longrightarrow> spares c ret slot n"
  by (cases c) auto

lemma queue_safe:
  assumes "nodes_inv s" and "n \<in> set (mq_nodes s)"
  shows "safe s t i n"
proof -
  have "spares (mq_pc s u) (mq_ret s u) (t, i) n" for u
    using queue_not_limbo(1) [OF assms, of u] by (intro spares_not_limbo) (simp add: limbo_def)
  then show ?thesis
    using assms(2) by (simp add: safe_def live_def)
qed

lemma live_allocated:
  assumes "queue_inv s" and "nodes_inv s" and "live s n"
  shows "mq_mem s n \<noteq> None" "n \<noteq> NULL"
  using assms(3) queue_invD(5) [OF assms(1), of n] nodes_invD(1) [OF assms(2), of n]
  by (auto simp: live_def mq_holds_def)

text \<open>A live node is nobody's own.\<close>

lemma live_not_private:
  assumes inv: "mq_inv N s" and m: "live s m"
  shows "m \<notin> mq_own s t \<union> pushing (mq_pc s t)"
proof
  note M = nodes_invD [OF mq_invD(2) [OF inv]]
  assume own: "m \<in> mq_own s t \<union> pushing (mq_pc s t)"
  then have h: "m \<in> mq_holds s t"
    by (auto simp: mq_holds_def)
  then obtain u where u: "m \<in> set (limbo s u)"
    using m M(1) [OF h] unfolding live_def by blast
  then have "u = t"
    using M(2) [of u t] h by (auto simp: mq_holds_def)
  then show False
    using mthread_okD(1) [OF mq_invD(3) [OF inv], of t] u own by (auto simp: apart_def)
qed


section \<open>One thread moves\<close>

lemma npc_ok_frame:
  assumes "npc_ok c prv val"
    and "\<forall>i n. (i, n) \<in> prot c \<longrightarrow> val' n = val n \<and> (prv n \<noteq> Some NULL \<longrightarrow> prv' n = prv n)"
  shows "npc_ok c prv' val'"
  using assms by (cases c) auto

lemma cleared_pushing: "cleared c \<subseteq> pushing c"
  by (cases c) auto

text \<open>
  Thread \<open>t\<close> moves: what it holds afterwards and what is in the queue was so before, or is newly
  allocated; a node that another thread protects stays live, with its value and its link.
\<close>

lemma mq_move:
  assumes inv: "mq_inv N s" and t: "t < N"
    and others: "\<forall>u. u \<noteq> t \<longrightarrow> mq_pc s' u = mq_pc s u \<and> mq_buf s' u = mq_buf s u \<and> mq_haz s' u = mq_haz s u
      \<and> mq_own s' u = mq_own s u \<and> mq_ret s' u = mq_ret s u"
    and queue: "queue_inv s'"
    and alloc: "\<forall>n. n \<notin> mq_holds s t \<longrightarrow> mq_mem s n \<noteq> None \<longrightarrow> mq_mem s' n \<noteq> None \<and> (n \<notin> set (mq_nodes s) \<longrightarrow> mq_mem s' n = mq_mem s n)"
    and nodes: "mq_holds s' t \<union> set (mq_nodes s') \<subseteq> mq_holds s t \<union> set (mq_nodes s) \<union> {n. mq_mem s n = None}"
    and mine: "\<forall>n \<in> mq_holds s' t. n \<noteq> NULL \<and> mq_mem s' n \<noteq> None \<and> n \<notin> set (mq_nodes s')"
    and prots: "\<forall>u i n. u \<noteq> t \<longrightarrow> (i, n) \<in> prot (mq_pc s u) \<longrightarrow> live s' n \<and> spares (mq_pc s' t) (mq_ret s' t) (u, i) n
      \<and> mem_value s' n = mem_value s n \<and> (mem_prev s n \<noteq> Some NULL \<longrightarrow> mem_prev s' n = mem_prev s n)"
    and thr: "mthread_ok s' t" and bad: "\<not> mq_bad s'"
  shows "mq_inv N s'"
proof -
  note D = mq_invD [OF inv] and Q = queue_invD [OF mq_invD(1) [OF inv]] and M = nodes_invD [OF mq_invD(2) [OF inv]]
  have same: "limbo s' u = limbo s u" "mq_holds s' u = mq_holds s u" if "u \<noteq> t" for u
    using others that by (simp_all add: limbo_def mq_holds_def)
  have away: "n \<notin> mq_holds s' t" "n \<notin> set (mq_nodes s')" "n \<noteq> NULL" "mq_mem s' n \<noteq> None" "mq_mem s' n = mq_mem s n"
    if "u \<noteq> t" "n \<in> mq_holds s u" for u n
  proof -
    have "n \<notin> mq_holds s t" "n \<notin> set (mq_nodes s)" "n \<noteq> NULL" "mq_mem s n \<noteq> None"
      using M(1) [OF that(2)] M(2) [OF that(1)] that(2) by auto
    then show "n \<notin> mq_holds s' t" "n \<notin> set (mq_nodes s')" "n \<noteq> NULL" "mq_mem s' n \<noteq> None" "mq_mem s' n = mq_mem s n"
      using nodes alloc by auto
  qed
  have "nodes_inv s'"
    unfolding nodes_inv_def
  proof (intro conjI allI ballI impI)
    fix u n
    assume "n \<in> mq_holds s' u"
    then show "n \<noteq> NULL" "mq_mem s' n \<noteq> None" "n \<notin> set (mq_nodes s')"
      using mine away [of u n] same(2) [of u] by (cases "u = t"; auto)+
  next
    fix u v :: tid
    assume "u \<noteq> v"
    then show "mq_holds s' u \<inter> mq_holds s' v = {}"
      using M(2) [of u v] away(1) same(2) by (cases "u = t"; cases "v = t") auto
  qed
  moreover have "mthread_ok s' u" for u
  proof (cases "u = t")
    case False
    note T = mthread_okD [OF D(3) [of u]]
    have "npc_ok (mq_pc s' u) (mem_prev s') (mem_value s')"
      using npc_ok_frame [OF T(4), of "mem_value s'" "mem_prev s'"] prots others False by auto
    moreover have "mem_prev s' n = Some NULL" if "n \<in> cleared (mq_pc s u)" for n
      using T(6) [OF that] away(5) [OF False, of n] that cleared_pushing [of "mq_pc s u"] by (auto simp: mq_holds_def)
    moreover have "safe s' u i n" if "(i, n) \<in> prot (mq_pc s u)" for i n
    proof -
      have "spares (mq_pc s' v) (mq_ret s' v) (u, i) n" for v
        using T(5) [OF that] prots others that False by (cases "v = t") (auto simp: safe_def)
      then show ?thesis
        using prots that False by (auto simp: safe_def)
    qed
    ultimately show ?thesis
      using T(1-3) others False same(1) [OF False] by (auto simp: mthread_ok_def apart_def)
  qed (simp add: thr)
  ultimately show ?thesis
    using queue bad others D(5) t by (auto simp: mq_inv_def)
qed

lemma queue_inv_cong:
  assumes inv: "queue_inv s" and same: "mq_nodes s' = mq_nodes s" "mq_head s' = mq_head s" "mq_tail s' = mq_tail s"
    "mq_pushed s' = mq_pushed s" "mq_popped s' = mq_popped s"
    and pend: "\<forall>u. pend s' u = pend s u" and mem: "\<forall>m \<in> set (mq_nodes s). mq_mem s' m = mq_mem s m"
  shows "queue_inv s'"
proof -
  note Q = queue_invD [OF inv]
  have p: "pend s' = pend s"
    using pend by (simp add: fun_eq_iff)
  have m: "mem_prev s' a = mem_prev s a" if "a \<in> set (mq_nodes s)" for a
    using mem that by simp
  have "mq_tail s \<in> set (mq_nodes s)"
    using Q(1,4) by simp
  then have tail: "mem_prev s' (mq_tail s) = Some NULL"
    using m Q(7) by simp
  have links: "mem_prev s' a = Some (if mq_gap s a b then NULL else b)" if "follows (mq_nodes s) a b" for a b
    using m [of a] Q(6) [OF that] that follows_set by fastforce
  have vals: "List.map (\<lambda>n. mn_value (the (mq_mem s' n))) (tl (mq_nodes s)) = List.map (\<lambda>n. mn_value (the (mq_mem s n))) (tl (mq_nodes s))"
    using mem Q(1) by (auto intro!: map_cong dest: list.set_sel(2))
  show ?thesis
    unfolding queue_inv_def mq_gap_def p same vals
    using Q(1-5,8-10) tail links mem unfolding mq_gap_def by (intro conjI) (blast | simp)+
qed

lemma pend_other: "mq_pc s' u = mq_pc s u \<Longrightarrow> mq_buf s' u = mq_buf s u \<Longrightarrow> pend s' u = pend s u"
  by (simp add: pend_def)

lemma prot_spares: "(i, m) \<in> prot c \<Longrightarrow> spares c ret slot n"
  by (cases c) auto

text \<open>The thread changes nothing but its program counter and what it has written to its pointers.\<close>

lemma mq_local:
  assumes inv: "mq_inv N s" and t: "t < N"
    and pc: "mq_pc s' = (mq_pc s)(t := c)" and b: "mq_buf s' = (mq_buf s)(t := b)" and hz: "mq_haz s' = (mq_haz s)(t := h)"
    and same: "mq_nodes s' = mq_nodes s" "mq_head s' = mq_head s" "mq_tail s' = mq_tail s" "mq_mem s' = mq_mem s"
      "mq_pushed s' = mq_pushed s" "mq_popped s' = mq_popped s" "mq_own s' = mq_own s" "mq_ret s' = mq_ret s" "mq_bad s' = mq_bad s"
    and sets: "pushing c = pushing (mq_pc s t)" "leaving c = leaving (mq_pc s t)" "cleared c \<subseteq> cleared (mq_pc s t)" and pend: "pend s' t = pend s t"
    and sp: "\<forall>u i n. u \<noteq> t \<longrightarrow> (i, n) \<in> prot (mq_pc s u) \<longrightarrow> spares (mq_pc s t) (mq_ret s t) (u, i) n \<longrightarrow> spares c (mq_ret s t) (u, i) n"
    and ok: "bpc_ok c b h" "links_first b" "npc_ok c (mem_prev s) (mem_value s)"
    and new: "\<forall>(i, n) \<in> prot c. (i, n) \<in> prot (mq_pc s t) \<or> n \<in> set (mq_nodes s)"
  shows "mq_inv N s'"
proof (rule mq_move [OF inv t])
  note D = mq_invD [OF inv] and Q = queue_invD [OF mq_invD(1) [OF inv]] and M = nodes_invD [OF mq_invD(2) [OF inv]]
  note T = mthread_okD [OF mq_invD(3) [OF inv, of t]]
  have lim: "limbo s' u = limbo s u" for u
    using pc same sets by (simp add: limbo_def)
  then have holds: "mq_holds s' u = mq_holds s u" for u
    using pc same sets by (simp add: mq_holds_def)
  have live: "live s' n = live s n" for n
    by (simp add: live_def lim same)
  have "pend s' u = pend s u" for u
  proof (cases "u = t")
    case False
    then show ?thesis
      by (intro pend_other) (simp_all add: pc b)
  qed (simp add: pend)
  then show "queue_inv s'"
    by (intro queue_inv_cong [OF D(1)] same allI) (simp_all add: same)
  have safe: "live s n \<and> (\<forall>v. v \<noteq> t \<longrightarrow> spares (mq_pc s v) (mq_ret s v) (t, i) n)" if "(i, n) \<in> prot c" for i n
  proof -
    have "safe s t i n"
      using new that T(5) [of i n] queue_safe [OF D(2)] by auto
    then show ?thesis
      by (simp add: safe_def)
  qed
  have "safe s' t i n" if "(i, n) \<in> prot c" for i n
    using safe [OF that] prot_spares [OF that] pc same live by (auto simp: safe_def)
  moreover have "apart s' t"
    using T(1) pc same sets lim by (simp add: apart_def)
  ultimately show "mthread_ok s' t"
    using ok pc b hz same T(6) sets(3) by (auto simp: mthread_ok_def)
  show "\<forall>u i n. u \<noteq> t \<longrightarrow> (i, n) \<in> prot (mq_pc s u) \<longrightarrow> live s' n \<and> spares (mq_pc s' t) (mq_ret s' t) (u, i) n
      \<and> mem_value s' n = mem_value s n \<and> (mem_prev s n \<noteq> Some NULL \<longrightarrow> mem_prev s' n = mem_prev s n)"
    using sp mthread_okD(5) [OF D(3)] pc same live by (auto simp: safe_def)
  show "mq_holds s' t \<union> set (mq_nodes s') \<subseteq> mq_holds s t \<union> set (mq_nodes s) \<union> {n. mq_mem s n = None}"
    using same holds by auto
  show "\<forall>n \<in> mq_holds s' t. n \<noteq> NULL \<and> mq_mem s' n \<noteq> None \<and> n \<notin> set (mq_nodes s')"
    unfolding holds same using M(1) by blast
  show "\<not> mq_bad s'"
    using same D(4) by simp
qed (simp_all add: pc b hz same)


lemma buf_pend_haz [simp]: "buf_pend (b @ [W_haz i p]) = buf_pend b"
  by (cases b rule: buf_pend.cases) simp_all

lemma links_first_haz [simp]: "links_first b \<Longrightarrow> links_first (b @ [W_haz i p])"
  by (cases b) (auto simp: links_first_def)

lemma links_first_simps [simp]: "links_first []" "links_first [w]"
  by (simp_all add: links_first_def)

lemma follows_ex: "a \<in> set ns \<Longrightarrow> a \<noteq> List.last ns \<Longrightarrow> \<exists>b. follows ns a b"
proof (induction ns)
  case (Cons m ns)
  show ?case
  proof (cases "ns \<noteq> [] \<and> a \<in> set ns")
    case True
    then have "\<exists>b. follows ns a b"
      using Cons by simp
    then show ?thesis
      unfolding follows_Cons by blast
  next
    case False
    with Cons.prems have "a = m" "ns \<noteq> []"
      by (auto split: if_splits)
    then show ?thesis
      unfolding follows_Cons by blast
  qed
qed simp

lemma follows_mem: "follows ns a b \<Longrightarrow> a \<in> set ns \<and> b \<in> set ns"
  by (cases ns) (auto dest: follows_set)

lemma prev_follows:
  assumes "queue_inv s" and "h \<in> set (mq_nodes s)" and "mem_prev s h = Some p" and "p \<noteq> NULL"
  shows "follows (mq_nodes s) h p"
proof -
  note Q = queue_invD [OF assms(1)]
  have "h \<noteq> List.last (mq_nodes s)"
    using assms(3,4) Q(4,7) by auto
  then obtain b where b: "follows (mq_nodes s) h b"
    using follows_ex [OF assms(2)] by blast
  then have "p = b"
    using Q(6) [OF b] assms(3,4) by (auto split: if_splits)
  with b show ?thesis by simp
qed

text \<open>What a pop reads from a node it protects.\<close>

lemma read_prev:
  assumes inv: "mq_inv N s" and pc: "mq_pc s t = O_prev h"
  shows "\<exists>nd. mq_mem s h = Some nd \<and> own_prev s t h = Some (mn_prev nd)"
proof -
  note D = mq_invD [OF inv]
  note T = mthread_okD [OF D(3) [of t]]
  have "live s h"
    using T(5) [of 0 h] pc by (simp add: safe_def)
  then show ?thesis
    using live_allocated [OF D(1,2)] T(2) pc by (fastforce simp: own_prev_def)
qed

lemma read_value:
  assumes inv: "mq_inv N s" and pc: "mq_pc s t = O_value h p"
  shows "\<exists>nd. mq_mem s p = Some nd"
proof -
  note D = mq_invD [OF inv]
  have "live s p"
    using mthread_okD(5) [OF D(3) [of t], of 1 p] pc by (simp add: safe_def)
  then show ?thesis
    using live_allocated [OF D(1,2)] by blast
qed

section \<open>The steps\<close>

text \<open>The two forms that most steps have: a move of the program counter, with or without a store to a pointer.\<close>

lemma goto_local:
  assumes "mq_inv N s" and "t < N" and "pushing c = pushing (mq_pc s t)" and "leaving c = leaving (mq_pc s t)"
    and "cleared c \<subseteq> cleared (mq_pc s t)" and "pend_of c (mq_buf s t) = pend_of (mq_pc s t) (mq_buf s t)"
    and "\<forall>u i n. u \<noteq> t \<longrightarrow> (i, n) \<in> prot (mq_pc s u) \<longrightarrow> spares (mq_pc s t) (mq_ret s t) (u, i) n \<longrightarrow> spares c (mq_ret s t) (u, i) n"
    and "bpc_ok c (mq_buf s t) (mq_haz s t)" and "npc_ok c (mem_prev s) (mem_value s)"
    and "\<forall>(i, n) \<in> prot c. (i, n) \<in> prot (mq_pc s t) \<or> n \<in> set (mq_nodes s)"
  shows "mq_inv N (mq_goto s t c)"
  using assms mthread_okD(3) [OF mq_invD(3) [OF assms(1)]]
  by (intro mq_local [OF assms(1,2), where c = c and b = "mq_buf s t" and h = "mq_haz s t"]) (simp_all add: pend_def)

lemma store_local:
  assumes "mq_inv N s" and "t < N" and "pushing c = pushing (mq_pc s t)" and "leaving c = leaving (mq_pc s t)"
    and "cleared c \<subseteq> cleared (mq_pc s t)" and "pend_of c (mq_buf s t @ [W_haz i p]) = pend_of (mq_pc s t) (mq_buf s t)"
    and "\<forall>slot n. spares c (mq_ret s t) slot n"
    and "bpc_ok c (mq_buf s t @ [W_haz i p]) (mq_haz s t)" and "npc_ok c (mem_prev s) (mem_value s)"
    and "\<forall>(i, n) \<in> prot c. (i, n) \<in> prot (mq_pc s t) \<or> n \<in> set (mq_nodes s)"
  shows "mq_inv N (mq_store s t (W_haz i p)\<lparr>mq_pc := (mq_pc s)(t := c)\<rparr>)"
  using assms mthread_okD(3) [OF mq_invD(3) [OF assms(1)]]
  by (intro mq_local [OF assms(1,2), where c = c and b = "mq_buf s t @ [W_haz i p]" and h = "mq_haz s t"]) (simp_all add: pend_def)

lemma prot_published: "bpc_ok c b hz \<Longrightarrow> (i, n) \<in> prot c \<Longrightarrow> hz i = n"
  by (cases c) auto

lemma mq_bad_same: "\<not> mq_bad s \<Longrightarrow> s\<lparr>mq_bad := False\<rparr> = s"
  by (cases s) simp

lemma mq_inv_push_step:
  assumes inv: "mq_inv N s" and t: "t < N" and ar: "drains_stores (store_load_barrier ar)"
    and step: "mq_next ar N t junk s = Some s'"
    and pc: "case mq_pc s t of U_tail _ \<Rightarrow> True | U_use _ _ \<Rightarrow> True | U_fence _ _ \<Rightarrow> True | U_check _ _ \<Rightarrow> True
      | U_cas _ q \<Rightarrow> mq_tail s \<noteq> q | U_link _ _ \<Rightarrow> True | U_done \<Rightarrow> True | _ \<Rightarrow> False"
  shows "mq_inv N s'"
proof -
  note T = mthread_okD [OF mq_invD(3) [OF inv, of t]]
  show ?thesis
  proof (cases "mq_pc s t")
    case (U_link n q)
    then have "mq_buf s t = []"
      using T(2) by simp
    with U_link show ?thesis
      using step inv t by (intro mq_local [OF inv t, where c = U_done and b = "[W_prev q n]" and h = "mq_haz s t"])
        (auto simp: mq_next_def pend_def)
  qed (use step pc inv t ar in \<open>auto simp: mq_next_def sync_bool_compare_and_swap_def split: if_splits
    intro!: goto_local store_local\<close>)
qed


lemma mq_inv_pop_step:
  assumes inv: "mq_inv N s" and t: "t < N" and ar: "drains_stores (store_load_barrier ar)"
    and step: "mq_next ar N t junk s = Some s'"
    and pc: "case mq_pc s t of O_head \<Rightarrow> True | O_use _ \<Rightarrow> True | O_fence _ \<Rightarrow> True | O_check _ \<Rightarrow> True | O_prev _ \<Rightarrow> True
      | O_empty \<Rightarrow> True | O_use1 _ _ \<Rightarrow> True | O_fence1 _ _ \<Rightarrow> True | O_check1 _ _ \<Rightarrow> True | O_value _ _ \<Rightarrow> True
      | O_cas h _ _ \<Rightarrow> mq_head s \<noteq> h | O_done0 _ \<Rightarrow> True | O_done1 _ \<Rightarrow> True | O_scan todo _ \<Rightarrow> todo \<noteq> []
      | O_sweep todo _ \<Rightarrow> todo = [] | _ \<Rightarrow> False"
  shows "mq_inv N s'"
proof -
  note D = mq_invD [OF inv] and Q = queue_invD [OF mq_invD(1) [OF inv]]
  note T = mthread_okD [OF D(3) [of t]]
  have head: "mq_head s \<in> set (mq_nodes s)"
    using Q(1,3) by simp
  show ?thesis
  proof (cases "mq_pc s t")
    case (O_prev h)
    obtain nd where nd: "mq_mem s h = Some nd" "own_prev s t h = Some (mn_prev nd)"
      using read_prev [OF inv O_prev] by blast
    then have "s' = mq_goto s t (if mn_prev nd = NULL then O_empty else O_use1 h (mn_prev nd))"
      using step O_prev mq_bad_same [OF D(4)] by (auto simp: mq_next_def Let_def)
    then show ?thesis
      using inv t O_prev T(2) nd(1) by (auto intro!: goto_local split: if_splits)
  next
    case (O_use1 h p)
    then have s': "s' = mq_store s t (W_haz 1 p)\<lparr>mq_pc := (mq_pc s)(t := O_fence1 h p)\<rparr>"
      using step by (simp add: mq_next_def)
    show ?thesis
      unfolding s' by (rule store_local [OF inv t]) (use O_use1 T(2,4) in simp_all)
  next
    case (O_check1 h p)
    then have s': "s' = mq_goto s t (if h \<noteq> mq_head s then O_head else O_value h p)"
      using step by (simp add: mq_next_def)
    show ?thesis
      using inv t O_check1 T(2,4) head prev_follows [OF D(1), of h p] by (auto simp: s' intro!: goto_local dest: follows_mem)
  next
    case (O_value h p)
    obtain nd where nd: "mq_mem s p = Some nd"
      using read_value [OF inv O_value] by blast
    then have "s' = mq_goto s t (O_cas h p (mn_value nd))"
      using step O_value mq_bad_same [OF D(4)] by (auto simp: mq_next_def Let_def)
    then show ?thesis
      using inv t O_value T(2,4) nd by (auto intro!: goto_local)
  next
    case (O_scan todo found)
    then obtain u i todo' where todo: "todo = (u, i) # todo'"
      using pc by (cases todo) auto
    let ?h = "if u = t then own_haz s t i else mq_haz s u i"
    let ?c = "O_scan todo' (if ?h \<noteq> NULL then ?h # found else found)"
    have s': "s' = mq_goto s t ?c"
      using step O_scan todo by (simp add: mq_next_def Let_def)
    have "spares ?c (mq_ret s t) (v, j) n"
      if v: "v \<noteq> t" "(j, n) \<in> prot (mq_pc s v)" "spares (mq_pc s t) (mq_ret s t) (v, j) n" for v j n
    proof -
      have "mq_haz s v j = n"
        using prot_published [OF mthread_okD(2) [OF D(3)] v(2)] .
      moreover have "n \<noteq> NULL"
        using mthread_okD(5) [OF D(3) v(2)] live_allocated(2) [OF D(1,2)] by (simp add: safe_def)
      ultimately show ?thesis
        using v(1,3) O_scan todo by auto
    qed
    then show ?thesis
      unfolding s' using inv t O_scan by (intro goto_local) simp_all
  qed (use step pc inv t ar T head in \<open>auto simp: mq_next_def sync_bool_compare_and_swap_def split: if_splits list.splits
    intro!: goto_local store_local\<close>)
qed


text \<open>The thread works on nodes of its own, or gets one from \<open>malloc\<close>.\<close>

lemma mq_private:
  assumes inv: "mq_inv N s" and t: "t < N"
    and upd: "mq_pc s' = (mq_pc s)(t := c)" "mq_own s' = (mq_own s)(t := W)"
    and same: "mq_buf s' = mq_buf s" "mq_haz s' = mq_haz s" "mq_nodes s' = mq_nodes s" "mq_head s' = mq_head s"
      "mq_tail s' = mq_tail s" "mq_pushed s' = mq_pushed s" "mq_popped s' = mq_popped s" "mq_ret s' = mq_ret s" "mq_bad s' = mq_bad s"
    and mem: "\<forall>m. m \<notin> mq_own s t \<union> pushing (mq_pc s t) \<longrightarrow> mq_mem s m \<noteq> None \<longrightarrow> mq_mem s' m = mq_mem s m"
    and mine: "\<forall>m \<in> W \<union> pushing c. m \<noteq> NULL \<and> mq_mem s' m \<noteq> None"
    and sub: "W \<union> pushing c \<subseteq> mq_own s t \<union> pushing (mq_pc s t) \<union> {m. mq_mem s m = None}" "W \<inter> pushing c = {}"
    and pc: "leaving c = leaving (mq_pc s t)" "pend_of c = pend_of (mq_pc s t)" "prot c = prot (mq_pc s t)"
      "\<forall>m \<in> cleared c. mem_prev s' m = Some NULL"
      "spares c = spares (mq_pc s t)" "bpc_ok c = bpc_ok (mq_pc s t)" "npc_ok c = npc_ok (mq_pc s t)"
  shows "mq_inv N s'"
proof (rule mq_move [OF inv t])
  note D = mq_invD [OF inv] and Q = queue_invD [OF mq_invD(1) [OF inv]] and M = nodes_invD [OF mq_invD(2) [OF inv]]
  note T = mthread_okD [OF D(3) [of t]]
  have lim: "limbo s' u = limbo s u" for u
    using upd same pc by (simp add: limbo_def)
  have other: "mq_mem s' m = mq_mem s m" "m \<notin> W \<union> pushing c" if "live s m" for m
  proof -
    note lv = that
    have a: "mq_mem s m \<noteq> None"
      using live_allocated [OF D(1,2) lv] by simp
    have "m \<notin> mq_own s t \<union> pushing (mq_pc s t)"
      by (rule live_not_private [OF inv lv])
    then show "mq_mem s' m = mq_mem s m" "m \<notin> W \<union> pushing c"
      using mem a sub by auto
  qed
  have live: "live s' n = live s n" for n
    by (simp add: live_def lim same)
  have in_queue: "live s n" if "n \<in> set (mq_nodes s)" for n
    using that by (simp add: live_def)
  have "pend s' = pend s"
    using upd same pc by (simp add: pend_def fun_eq_iff)
  then show "queue_inv s'"
    using other(1) in_queue by (intro queue_inv_cong [OF D(1)] same) simp_all
  show "\<forall>n. n \<notin> mq_holds s t \<longrightarrow> mq_mem s n \<noteq> None \<longrightarrow> mq_mem s' n \<noteq> None \<and> (n \<notin> set (mq_nodes s) \<longrightarrow> mq_mem s' n = mq_mem s n)"
    using mem by (simp add: mq_holds_def)
  have holds: "mq_holds s' t = W \<union> pushing c \<union> set (limbo s t)"
    using upd lim by (auto simp: mq_holds_def)
  show "mq_holds s' t \<union> set (mq_nodes s') \<subseteq> mq_holds s t \<union> set (mq_nodes s) \<union> {n. mq_mem s n = None}"
    unfolding holds same using sub(1) by (auto simp: mq_holds_def)
  show "\<forall>n \<in> mq_holds s' t. n \<noteq> NULL \<and> mq_mem s' n \<noteq> None \<and> n \<notin> set (mq_nodes s')"
  proof
    fix n
    assume "n \<in> mq_holds s' t"
    then consider "n \<in> W \<union> pushing c" | "n \<in> set (limbo s t)"
      by (auto simp: holds)
    then show "n \<noteq> NULL \<and> mq_mem s' n \<noteq> None \<and> n \<notin> set (mq_nodes s')"
    proof cases
      case 1
      then show ?thesis
        using mine other(2) in_queue same by auto
    next
      case 2
      then have "live s n" "n \<in> mq_holds s t"
        by (auto simp: live_def mq_holds_def)
      then show ?thesis
        using other(1) M(1) same by auto
    qed
  qed
  have disj: "(W \<union> pushing c) \<inter> set (limbo s t) = {}"
    using other(2) by (auto simp: live_def)
  have npc: "npc_ok (mq_pc s t) (mem_prev s') (mem_value s')"
    using T(4,5) other(1) by (intro npc_ok_frame [OF T(4)]) (auto simp: safe_def)
  have "safe s' t i n" if "(i, n) \<in> prot (mq_pc s t)" for i n
    using T(5) [OF that] live upd same pc by (auto simp: safe_def)
  then show "mthread_ok s' t"
    using T(1-3) npc upd same pc lim sub(2) disj by (auto simp: mthread_ok_def apart_def)
  show "\<forall>u i n. u \<noteq> t \<longrightarrow> (i, n) \<in> prot (mq_pc s u) \<longrightarrow> live s' n \<and> spares (mq_pc s' t) (mq_ret s' t) (u, i) n
      \<and> mem_value s' n = mem_value s n \<and> (mem_prev s n \<noteq> Some NULL \<longrightarrow> mem_prev s' n = mem_prev s n)"
  proof (intro allI impI)
    fix u i n
    assume "(i, n) \<in> prot (mq_pc s u)"
    then have "safe s u i n"
      by (rule mthread_okD(5) [OF D(3)])
    then show "live s' n \<and> spares (mq_pc s' t) (mq_ret s' t) (u, i) n \<and> mem_value s' n = mem_value s n \<and> (mem_prev s n \<noteq> Some NULL \<longrightarrow> mem_prev s' n = mem_prev s n)"
      using live other(1) upd same pc by (auto simp: safe_def)
  qed
  show "\<not> mq_bad s'"
    using same D(4) by simp
qed (simp_all add: upd same)

lemma mq_own_node:
  assumes inv: "mq_inv N s" and t: "t < N" and n: "mq_mem s n \<noteq> None" "mn_prev nd = NULL"
    and pc: "pushing (mq_pc s t) = {n}" "pushing c = {n}" "leaving c = leaving (mq_pc s t)"
      "pend_of c = pend_of (mq_pc s t)" "prot c = prot (mq_pc s t)"
      "spares c = spares (mq_pc s t)" "bpc_ok c = bpc_ok (mq_pc s t)" "npc_ok c = npc_ok (mq_pc s t)"
  shows "mq_inv N ((mq_goto s t c)\<lparr>mq_mem := (mq_mem s)(n \<mapsto> nd)\<rparr>)"
proof -
  note T = mthread_okD [OF mq_invD(3) [OF inv, of t]]
  note M = nodes_invD(1) [OF mq_invD(2) [OF inv], of _ t]
  have "n \<notin> mq_own s t" "n \<noteq> NULL" "\<forall>m \<in> mq_own s t. m \<noteq> NULL \<and> mq_mem s m \<noteq> None"
    using T(1) M pc(1) by (auto simp: apart_def mq_holds_def)
  then show ?thesis
    using n pc cleared_pushing [of c] by (intro mq_private [OF inv t, where c = c and W = "mq_own s t"]) auto
qed

lemma mq_inv_private_step:
  assumes inv: "mq_inv N s" and t: "t < N" and step: "mq_next ar N t junk s = Some s'"
    and pc: "case mq_pc s t of U_clear _ \<Rightarrow> True | U_next _ _ \<Rightarrow> True | _ \<Rightarrow> False"
  shows "mq_inv N s'"
proof -
  note T = mthread_okD [OF mq_invD(3) [OF inv, of t]]
  show ?thesis
  proof (cases "mq_pc s t")
    case (U_clear n)
    then obtain nd where "mq_mem s n = Some nd" "s' = (mq_goto s t (U_tail n))\<lparr>mq_mem := (mq_mem s)(n \<mapsto> nd\<lparr>mn_prev := NULL\<rparr>)\<rparr>"
      using step by (auto simp: mq_next_def split: bind_splits)
    then show ?thesis
      using U_clear by (auto intro!: mq_own_node [OF inv t] simp: fun_eq_iff)
  next
    case (U_next n q)
    then obtain nd where "mq_mem s n = Some nd" "s' = (mq_goto s t (U_cas n q))\<lparr>mq_mem := (mq_mem s)(n \<mapsto> nd\<lparr>mn_next := q\<rparr>)\<rparr>"
      using step by (auto simp: mq_next_def split: bind_splits)
    then show ?thesis
      using U_next T(6) [of n] by (auto intro!: mq_own_node [OF inv t] simp: fun_eq_iff)
  qed (use pc in simp_all)
qed

lemma mq_inv_client_step:
  assumes inv: "mq_inv N s" and t: "mq_tid a < N" and step: "mq_do ar N a s = Some s'"
    and act: "case a of Mqgo _ _ \<Rightarrow> False | Mqflush _ \<Rightarrow> False | _ \<Rightarrow> True"
  shows "mq_inv N s'"
proof -
  note D = mq_invD [OF inv]
  note T = mthread_okD [OF D(3)] and M = nodes_invD(1) [OF D(2)]
  show ?thesis
  proof (cases a)
    case (Call_mqpush t n)
    then have s': "mq_pc s t = Q_idle" "n \<in> mq_own s t"
        "s' = (mq_goto s t (U_clear n))\<lparr>mq_own := (mq_own s)(t := mq_own s t - {n})\<rparr>"
      using step by (auto split: if_splits)
    have "\<forall>m \<in> mq_own s t. m \<noteq> NULL \<and> mq_mem s m \<noteq> None"
      using M [of _ t] by (auto simp: mq_holds_def)
    with s' show ?thesis
      using t Call_mqpush by (intro mq_private [OF inv, where t = t and c = "U_clear n" and W = "mq_own s t - {n}"])
        (auto simp: fun_eq_iff)
  next
    case (Call_mqpop t)
    then show ?thesis
      using step inv t by (auto split: if_splits intro!: goto_local)
  next
    case (Mqmalloc t n nd)
    then have s': "n \<noteq> NULL" "mq_mem s n = None"
        "s' = s\<lparr>mq_mem := (mq_mem s)(n \<mapsto> nd), mq_own := (mq_own s)(t := insert n (mq_own s t))\<rparr>"
      using step by (auto split: if_splits)
    have old: "m \<noteq> NULL \<and> mq_mem s m \<noteq> None" if "m \<in> mq_own s t \<union> pushing (mq_pc s t)" for m
      using M [of m t] that by (auto simp: mq_holds_def)
    then have "n \<notin> mq_own s t \<union> pushing (mq_pc s t)"
      using s'(2) by blast
    then show ?thesis
      using s' t Mqmalloc old T(1) [of t] T(6) [of _ t] cleared_pushing [of "mq_pc s t"]
      by (intro mq_private [OF inv, where t = t and c = "mq_pc s t" and W = "insert n (mq_own s t)"])
        (auto simp: apart_def)
  next
    case (Mqwrite t n nd)
    then have s': "n \<in> mq_own s t" "s' = s\<lparr>mq_mem := (mq_mem s)(n \<mapsto> nd)\<rparr>"
      using step by (auto split: if_splits)
    have old: "m \<noteq> NULL \<and> mq_mem s m \<noteq> None" if "m \<in> mq_own s t \<union> pushing (mq_pc s t)" for m
      using M [of m t] that by (auto simp: mq_holds_def)
    have "n \<notin> pushing (mq_pc s t)"
      using s'(1) T(1) [of t] by (auto simp: apart_def)
    then show ?thesis
      using s' t Mqwrite old T(1) [of t] T(6) [of _ t] cleared_pushing [of "mq_pc s t"]
      by (intro mq_private [OF inv, where t = t and c = "mq_pc s t" and W = "mq_own s t"])
        (auto simp: apart_def)
  qed (use act in simp_all)
qed

lemma mq_inv_publish:
  assumes inv: "mq_inv N s" and t: "t < N" and pc: "mq_pc s t = U_cas n q" and b: "mq_buf s t = []" and q: "mq_tail s = q"
    and s': "s' = (mq_goto s t (U_link n q))\<lparr>mq_tail := n, mq_nodes := mq_nodes s @ [n],
      mq_pushed := mq_pushed s @ [mn_value (the (mq_mem s n))]\<rparr>"
  shows "mq_inv N s'"
proof (rule mq_move [OF inv t])
  note D = mq_invD [OF inv] and Q = queue_invD [OF mq_invD(1) [OF inv]] and M = nodes_invD [OF mq_invD(2) [OF inv]]
  note T = mthread_okD [OF D(3) [of t]]
  have hn: "n \<in> mq_holds s t"
    using pc by (simp add: mq_holds_def)
  have n: "n \<noteq> NULL" "mq_mem s n \<noteq> None" "n \<notin> set (mq_nodes s)" "mem_prev s n = Some NULL" "n \<notin> mq_own s t" "n \<notin> set (limbo s t)"
    using M(1) [OF hn] T(1) T(6) [of n] pc by (auto simp: apart_def)
  have pend: "pend s' u = (if u = t then Some (q, n) else pend s u)" for u
    using pc by (simp add: s' pend_def)
  have old: "pend s t = None"
    using pc b by (simp add: pend_def)
  have new: "pend s u \<noteq> Some (a, n)" for u a
    using Q(8) [of u a n] n(3) by (auto dest: follows_mem)
  have gap: "mq_gap s' a b \<longleftrightarrow> (a = q \<and> b = n) \<or> mq_gap s a b" for a b
    unfolding mq_gap_def pend using old by (metis option.inject option.distinct(1) prod.inject)
  have qlast: "q = List.last (mq_nodes s)"
    using q Q(4) by simp
  have last_b: "b \<noteq> n" if "follows (mq_nodes s) a b" for a b
    using that n(3) by (auto dest: follows_mem)
  have links: "mem_prev s a = Some (if mq_gap s' a b then NULL else b)" if "follows (mq_nodes s @ [n]) a b" for a b
  proof (cases "follows (mq_nodes s) a b")
    case True
    then show ?thesis
      using Q(6) [OF True] last_b [OF True] by (simp add: gap)
  next
    case False
    then show ?thesis
      using that Q(7) q qlast by (simp add: follows_snoc gap)
  qed
  have mv: "map (\<lambda>n. mn_value (the (mq_mem s n))) (tl (mq_nodes s @ [n]))
      = map (\<lambda>n. mn_value (the (mq_mem s n))) (tl (mq_nodes s)) @ [mn_value (the (mq_mem s n))]"
    using Q(1) by simp
  have 1: "follows (mq_nodes s @ [n]) a b" if "pend s' u = Some (a, b)" for u a b
    using that Q(1,8) qlast by (auto simp: follows_snoc pend split: if_splits)
  have 2: "u = v" if "pend s' u = Some (a, b)" "pend s' v = Some (a, b)" for u v a b
    using that new Q(9) by (auto simp: pend split: if_splits)
  show "queue_inv s'"
    unfolding queue_inv_def
    using 1 2 links mv Q(1-5,10) n by (simp add: s')
  have hs: "mq_holds s' t = mq_own s t \<union> set (limbo s t)" "limbo s' u = limbo s u" for u
    using pc by (auto simp: s' mq_holds_def limbo_def)
  have live: "live s' m \<longleftrightarrow> m = n \<or> live s m" for m
    unfolding live_def hs(2) by (auto simp: s')
  show "\<forall>m \<in> mq_holds s' t. m \<noteq> NULL \<and> mq_mem s' m \<noteq> None \<and> m \<notin> set (mq_nodes s')"
    unfolding hs using M(1) [of _ t] n by (auto simp: s' mq_holds_def)
  show "mq_holds s' t \<union> set (mq_nodes s') \<subseteq> mq_holds s t \<union> set (mq_nodes s) \<union> {m. mq_mem s m = None}"
    unfolding hs using hn by (auto simp: s' mq_holds_def)
  show "mthread_ok s' t"
    using T(1,3) pc b by (simp add: mthread_ok_def apart_def hs) (simp add: s')
  show "\<not> mq_bad s'"
    using D(4) by (simp add: s')
  show "\<forall>u i m. u \<noteq> t \<longrightarrow> (i, m) \<in> prot (mq_pc s u) \<longrightarrow> live s' m \<and> spares (mq_pc s' t) (mq_ret s' t) (u, i) m
      \<and> mem_value s' m = mem_value s m \<and> (mem_prev s m \<noteq> Some NULL \<longrightarrow> mem_prev s' m = mem_prev s m)"
    unfolding live using mthread_okD(5) [OF D(3)] by (auto simp: s' safe_def)
qed (simp_all add: s')

lemma mq_inv_take:
  assumes inv: "mq_inv N s" and t: "t < N" and pc: "mq_pc s t = O_cas h p v" and b: "mq_buf s t = []" and h: "mq_head s = h"
    and s': "s' = (mq_goto s t (O_done0 h))\<lparr>mq_head := p, mq_nodes := tl (mq_nodes s), mq_popped := mq_popped s @ [v]\<rparr>"
  shows "mq_inv N s'"
proof (rule mq_move [OF inv t])
  note D = mq_invD [OF inv] and Q = queue_invD [OF mq_invD(1) [OF inv]] and M = nodes_invD [OF mq_invD(2) [OF inv]]
  note T = mthread_okD [OF D(3) [of t]]
  obtain tl' where hd: "mq_nodes s = h # tl'"
    using Q(1,3) h by (cases "mq_nodes s") auto
  have p: "p \<noteq> NULL" "mem_prev s h = Some p" "mem_value s p = Some v"
    using T(4) pc by simp_all
  have "follows (mq_nodes s) h p"
    using prev_follows [OF D(1), of h p] p hd by simp
  then obtain ns where ns: "mq_nodes s = h # p # ns"
    using Q(2) hd by (cases tl') (auto dest: follows_mem)
  have nogap: "\<not> mq_gap s h b" for b
  proof
    assume g: "mq_gap s h b"
    then have "follows (mq_nodes s) h b"
      using Q(8) by (auto simp: mq_gap_def)
    then show False
      using Q(6) [of h b] g p(1,2) by simp
  qed
  have dist: "h \<noteq> p" "h \<notin> set ns" "p \<notin> set ns" "distinct ns"
    using Q(2) ns by auto
  have pend: "pend s' u = pend s u" for u
    using pc by (simp add: s' pend_def)
  have gap: "mq_gap s' = mq_gap s"
    by (simp add: mq_gap_def pend fun_eq_iff)
  have 1: "follows (p # ns) a b" if "pend s u = Some (a, b)" for u a b
    using Q(8) [OF that] nogap [of b] that ns by (auto simp: mq_gap_def)
  have links: "mem_prev s a = Some (if mq_gap s a b then NULL else b)" if "follows (p # ns) a b" for a b
    using Q(6) [of a b] that ns by simp
  have mv: "mq_pushed s = (mq_popped s @ [v]) @ map (\<lambda>n. mn_value (the (mq_mem s n))) ns"
    using Q(10) ns p(3) by auto
  show "queue_inv s'"
    unfolding queue_inv_def pend gap
    using 1 links mv Q(4,5,7,9) ns dist by (simp add: s')
  have hs: "limbo s' t = h # limbo s t" "\<And>u. u \<noteq> t \<Longrightarrow> limbo s' u = limbo s u"
    using pc by (auto simp: s' limbo_def)
  have hold: "mq_holds s' t = insert h (mq_holds s t)"
    using pc hs(1) by (auto simp: s' mq_holds_def)
  have st': "mq_nodes s' = p # ns" "mq_mem s' = mq_mem s"
    using ns by (simp_all add: s')
  have live: "live s' m \<longleftrightarrow> live s m" for m
  proof -
    have "(\<exists>u. m \<in> set (limbo s' u)) \<longleftrightarrow> m = h \<or> (\<exists>u. m \<in> set (limbo s u))"
      using hs by (metis list.set_intros(1) set_ConsD list.set_intros(2))
    then show ?thesis
      using ns by (auto simp: live_def s')
  qed
  have hh: "h \<noteq> NULL" "mq_mem s h \<noteq> None" "h \<notin> mq_holds s u" for u
    using Q(5) [of h] M(1) [of h u] ns by auto
  show "\<forall>m \<in> mq_holds s' t. m \<noteq> NULL \<and> mq_mem s' m \<noteq> None \<and> m \<notin> set (mq_nodes s')"
    unfolding hold st' using M(1) [of _ t] hh(1,2) dist ns by auto
  show "mq_holds s' t \<union> set (mq_nodes s') \<subseteq> mq_holds s t \<union> set (mq_nodes s) \<union> {m. mq_mem s m = None}"
    unfolding hold st' using ns by auto
  have "apart s' t"
  proof -
    have "mq_own s' t = mq_own s t" "pushing (mq_pc s' t) = {}"
      by (simp_all add: s')
    then show ?thesis
      using T(1) pc hh(3) [of t] by (auto simp: apart_def hs mq_holds_def)
  qed
  then show "mthread_ok s' t"
    using T(3) b by (simp add: mthread_ok_def) (simp add: s')
  show "\<not> mq_bad s'"
    using D(4) by (simp add: s')
  show "\<forall>u i m. u \<noteq> t \<longrightarrow> (i, m) \<in> prot (mq_pc s u) \<longrightarrow> live s' m \<and> spares (mq_pc s' t) (mq_ret s' t) (u, i) m
      \<and> mem_value s' m = mem_value s m \<and> (mem_prev s m \<noteq> Some NULL \<longrightarrow> mem_prev s' m = mem_prev s m)"
    unfolding live st' using mthread_okD(5) [OF D(3)] by (auto simp: s' safe_def)
qed (simp_all add: s')


text \<open>The thread retires a node, moves one to its retired list, or frees one.\<close>

lemma mq_inv_retire:
  assumes inv: "mq_inv N s" and t: "t < N"
    and upd: "mq_pc s' = (mq_pc s)(t := c)" "mq_ret s' = (mq_ret s)(t := r)"
    and same: "mq_buf s' = mq_buf s" "mq_haz s' = mq_haz s" "mq_nodes s' = mq_nodes s" "mq_head s' = mq_head s"
      "mq_tail s' = mq_tail s" "mq_pushed s' = mq_pushed s" "mq_popped s' = mq_popped s" "mq_own s' = mq_own s" "mq_bad s' = mq_bad s"
    and pc: "pushing (mq_pc s t) = {}" "pushing c = {}" "prot c = {}" "pend_of c = pend_of (mq_pc s t)"
      "bpc_ok c = (\<lambda>_ _. True)" "npc_ok c = (\<lambda>_ _. True)"
    and lim: "distinct (leaving c @ r)" "set (leaving c @ r) \<subseteq> set (limbo s t)"
    and mem: "\<forall>m. m \<notin> set (limbo s t) - set (leaving c @ r) \<longrightarrow> mq_mem s' m = mq_mem s m"
    and sp: "\<forall>u i m. u \<noteq> t \<longrightarrow> u < N \<longrightarrow> (i, m) \<in> prot (mq_pc s u) \<longrightarrow> spares (mq_pc s t) (mq_ret s t) (u, i) m \<longrightarrow> mq_haz s u i = m
      \<longrightarrow> spares c r (u, i) m \<and> (m \<in> set (limbo s t) \<longrightarrow> m \<in> set (leaving c @ r))"
  shows "mq_inv N s'"
proof (rule mq_move [OF inv t])
  note D = mq_invD [OF inv] and Q = queue_invD [OF mq_invD(1) [OF inv]] and M = nodes_invD [OF mq_invD(2) [OF inv]]
  note T = mthread_okD [OF D(3) [of t]]
  have limt: "limbo s' t = leaving c @ r" "\<And>u. u \<noteq> t \<Longrightarrow> limbo s' u = limbo s u"
    using upd by (simp_all add: limbo_def)
  have hold: "mq_holds s' t = mq_own s t \<union> set (leaving c @ r)"
    using upd pc(2) same by (simp add: mq_holds_def limt)
  have sub: "mq_holds s' t \<subseteq> mq_holds s t"
    unfolding hold using lim(2) by (auto simp: mq_holds_def)
  have kept: "mq_mem s' m = mq_mem s m" if "m \<in> mq_holds s' t \<or> m \<notin> mq_holds s t" for m
  proof -
    have "m \<notin> set (limbo s t) - set (leaving c @ r)"
      using that T(1) unfolding hold unfolding mq_holds_def apart_def by auto
    then show ?thesis
      using mem by blast
  qed
  have q: "mq_mem s' m = mq_mem s m" if "m \<in> set (mq_nodes s)" for m
    using kept [of m] queue_not_limbo(2) [OF D(2) that, of t] by blast
  have "pend s' u = pend s u" for u
    using upd pc(4) same by (simp add: pend_def)
  then show "queue_inv s'"
    using q by (intro queue_inv_cong [OF D(1)] same) simp_all
  show "\<forall>n. n \<notin> mq_holds s t \<longrightarrow> mq_mem s n \<noteq> None \<longrightarrow> mq_mem s' n \<noteq> None \<and> (n \<notin> set (mq_nodes s) \<longrightarrow> mq_mem s' n = mq_mem s n)"
    using kept by simp
  show "mq_holds s' t \<union> set (mq_nodes s') \<subseteq> mq_holds s t \<union> set (mq_nodes s) \<union> {m. mq_mem s m = None}"
    using sub same by auto
  show "\<forall>n \<in> mq_holds s' t. n \<noteq> NULL \<and> mq_mem s' n \<noteq> None \<and> n \<notin> set (mq_nodes s')"
    using sub kept M(1) [of _ t] same by auto
  have "apart s' t"
    using T(1) lim pc(2) same upd by (auto simp: apart_def limt)
  then show "mthread_ok s' t"
    using T(3) upd same pc cleared_pushing [of c] by (auto simp: mthread_ok_def)
  show "\<not> mq_bad s'"
    using D(4) same by simp
  show "\<forall>u i m. u \<noteq> t \<longrightarrow> (i, m) \<in> prot (mq_pc s u) \<longrightarrow> live s' m \<and> spares (mq_pc s' t) (mq_ret s' t) (u, i) m
      \<and> mem_value s' m = mem_value s m \<and> (mem_prev s m \<noteq> Some NULL \<longrightarrow> mem_prev s' m = mem_prev s m)"
  proof (intro allI impI)
    fix u i m
    assume u: "u \<noteq> t" "(i, m) \<in> prot (mq_pc s u)"
    note U = mthread_okD [OF D(3) [of u]]
    have safe: "live s m" "spares (mq_pc s t) (mq_ret s t) (u, i) m"
      using U(5) [OF u(2)] by (simp_all add: safe_def)
    have "u < N"
      using D(5) [of u] u(2) by (cases "u < N") auto
    then have new: "spares c r (u, i) m" "m \<in> set (limbo s t) \<longrightarrow> m \<in> set (leaving c @ r)"
      using sp u safe(2) prot_published [OF U(2) u(2)] by blast+
    have "live s' m"
    proof (cases "m \<in> set (mq_nodes s)")
      case False
      then obtain v where v: "m \<in> set (limbo s v)"
        using safe(1) by (auto simp: live_def)
      then show ?thesis
        using new(2) limt(1) limt(2) [of v] unfolding live_def by (cases "v = t") (metis, metis)
    qed (simp add: live_def same)
    moreover have "mq_mem s' m = mq_mem s m"
      using mem new(2) by blast
    ultimately show "live s' m \<and> spares (mq_pc s' t) (mq_ret s' t) (u, i) m
        \<and> mem_value s' m = mem_value s m \<and> (mem_prev s m \<noteq> Some NULL \<longrightarrow> mem_prev s' m = mem_prev s m)"
      using new(1) upd by simp
  qed
qed (simp_all add: upd same)

lemma slots_mem: "(u, i) \<in> set (slots N) \<longleftrightarrow> u < N \<and> i < 2"
  by (auto simp: slots_def MPMC_HAZARD_COUNT_def)

lemma prot_slot: "(i, m) \<in> prot c \<Longrightarrow> i < 2"
  by (cases c) auto

lemma mq_inv_free_step:
  assumes inv: "mq_inv N s" and t: "t < N" and step: "mq_next ar N t junk s = Some s'"
    and pc: "case mq_pc s t of O_free _ \<Rightarrow> True | O_scan todo _ \<Rightarrow> todo = [] | O_sweep todo _ \<Rightarrow> todo \<noteq> [] | _ \<Rightarrow> False"
  shows "mq_inv N s'"
proof -
  note D = mq_invD [OF inv]
  note T = mthread_okD [OF D(3) [of t]]
  have dist: "distinct (limbo s t)"
    using T(1) by (simp add: apart_def)
  show ?thesis
  proof (cases "mq_pc s t")
    case (O_free h)
    let ?c = "if length (h # mq_ret s t) \<ge> 2 * N * unat MPMC_HAZARD_COUNT then O_scan (slots N) [] else Q_idle"
    have "s' = (mq_goto s t ?c)\<lparr>mq_ret := (mq_ret s)(t := h # mq_ret s t)\<rparr>"
      using step O_free by (simp add: mq_next_def Let_def)
    then show ?thesis
      using O_free dist by (intro mq_inv_retire [OF inv t, where c = ?c and r = "h # mq_ret s t"])
        (auto simp: limbo_def fun_eq_iff slots_mem dest: prot_slot)
  next
    case (O_scan todo found)
    then have "s' = (mq_goto s t (O_sweep (mq_ret s t) found))\<lparr>mq_ret := (mq_ret s)(t := [])\<rparr>"
      using step pc by (simp add: mq_next_def)
    then show ?thesis
      using O_scan pc dist by (intro mq_inv_retire [OF inv t, where c = "O_sweep (mq_ret s t) found" and r = "[]"])
        (auto simp: limbo_def fun_eq_iff)
  next
    case (O_sweep todo found)
    then obtain n todo' where todo: "todo = n # todo'"
      using pc by (cases todo) auto
    show ?thesis
    proof (cases "n \<in> set found")
      case True
      then have "s' = (mq_goto s t (O_sweep todo' found))\<lparr>mq_ret := (mq_ret s)(t := n # mq_ret s t)\<rparr>"
        using step O_sweep todo by (simp add: mq_next_def)
      then show ?thesis
        using O_sweep todo dist by (intro mq_inv_retire [OF inv t, where c = "O_sweep todo' found" and r = "n # mq_ret s t"])
          (auto simp: limbo_def fun_eq_iff)
    next
      case False
      then have "s' = (mq_goto s t (O_sweep todo' found))\<lparr>mq_mem := (mq_mem s)(n := None)\<rparr>"
        using step O_sweep todo by (simp add: mq_next_def)
      then show ?thesis
        using O_sweep todo dist False by (intro mq_inv_retire [OF inv t, where c = "O_sweep todo' found" and r = "mq_ret s t"])
          (auto simp: limbo_def fun_eq_iff)
    qed
  qed (use pc in simp_all)
qed

text \<open>A store reaches memory.\<close>

lemma links_first_tail: "links_first (w # ws) \<Longrightarrow> buf_pend ws = None \<and> links_first ws"
  by (cases ws) (auto simp: links_first_def)

lemma bpc_ok_flush_haz: "bpc_ok c (W_haz i p # ws) hz \<Longrightarrow> bpc_ok c ws (hz(i := p))"
  by (cases c) (auto split: if_splits)

lemma bpc_ok_flush_prev: "bpc_ok c (W_prev a b # ws) hz \<Longrightarrow> bpc_ok c ws hz"
  by (cases c) (auto split: if_splits)

lemma pend_of_buf: "bpc_ok c (w # ws) hz \<Longrightarrow> pend_of c b = buf_pend b"
  by (cases c) auto

lemma mq_inv_flush_prev:
  assumes inv: "mq_inv N s" and t: "t < N" and b: "mq_buf s t = W_prev a b # ws" and nd: "mq_mem s a = Some nd"
    and s': "s' = s\<lparr>mq_buf := (mq_buf s)(t := ws), mq_mem := (mq_mem s)(a \<mapsto> nd\<lparr>mn_prev := b\<rparr>)\<rparr>"
    and follow: "follows (mq_nodes s) a b"
  shows "mq_inv N s'"
proof (rule mq_move [OF inv t])
  note D = mq_invD [OF inv] and Q = queue_invD [OF mq_invD(1) [OF inv]] and M = nodes_invD [OF mq_invD(2) [OF inv]]
  note T = mthread_okD [OF D(3) [of t]]
  note po = pend_of_buf [OF T(2) [unfolded b]]
  have pend: "pend s t = Some (a, b)" "pend s' u = (if u = t then None else pend s u)" for u
    using links_first_tail [OF T(3) [unfolded b]] by (simp_all add: pend_def po b s')
  have gap: "mq_gap s' x y \<longleftrightarrow> mq_gap s x y \<and> (x, y) \<noteq> (a, b)" for x y
    unfolding mq_gap_def pend(2) using pend(1) Q(9) by (metis option.inject option.distinct(1))
  have gap_a: "mem_prev s a = Some NULL"
    using Q(6) [OF follow] pend(1) by (auto simp: mq_gap_def)
  have other: "mq_mem s' m = mq_mem s m" if "m \<noteq> a" for m
    using that by (simp add: s')
  have links: "mem_prev s' x = Some (if mq_gap s' x y then NULL else y)" if "follows (mq_nodes s) x y" for x y
  proof (cases "x = a")
    case True
    then have "y = b"
      using follows_fun [OF Q(2) follow] that by simp
    with True show ?thesis
      by (simp add: gap) (simp add: s')
  next
    case False
    then show ?thesis
      using Q(6) [OF that] other [of x] by (simp add: gap)
  qed
  have st': "mq_nodes s' = mq_nodes s" "mq_head s' = mq_head s" "mq_tail s' = mq_tail s" "mq_pushed s' = mq_pushed s"
    "mq_popped s' = mq_popped s" "mem_value s' = mem_value s" "mq_mem s' m = None \<longleftrightarrow> mq_mem s m = None"
    "mn_value (the (mq_mem s' m)) = mn_value (the (mq_mem s m))" for m
    using nd by (auto simp: s' fun_eq_iff)
  have tail: "mem_prev s' (mq_tail s) = Some NULL"
    using Q(4,7) follows_not_last [OF Q(2) follow] other [of "mq_tail s"] by simp
  have 1: "follows (mq_nodes s) x y" if "pend s' u = Some (x, y)" for u x y
    using that Q(8) by (auto simp: pend(2) split: if_splits)
  have 2: "u = v" if "pend s' u = Some (x, y)" "pend s' v = Some (x, y)" for u v x y
    using that Q(9) by (auto simp: pend(2) split: if_splits)
  show "queue_inv s'"
    unfolding queue_inv_def st'
    using 1 2 links tail Q(1-5,10) by (intro conjI) (blast | simp)+
  have hs: "limbo s' u = limbo s u" "mq_holds s' u = mq_holds s u" for u
    by (simp_all add: limbo_def mq_holds_def s')
  have live: "live s' m = live s m" for m
    by (simp add: live_def hs st')
  have not_a: "a \<noteq> m" if "m \<in> mq_holds s t" for m
    using M(1) [OF that] follows_mem [OF follow] by auto
  show "\<forall>n. n \<notin> mq_holds s t \<longrightarrow> mq_mem s n \<noteq> None \<longrightarrow> mq_mem s' n \<noteq> None \<and> (n \<notin> set (mq_nodes s) \<longrightarrow> mq_mem s' n = mq_mem s n)"
    using st'(7) other follows_mem [OF follow] by metis
  show "\<forall>m \<in> mq_holds s' t. m \<noteq> NULL \<and> mq_mem s' m \<noteq> None \<and> m \<notin> set (mq_nodes s')"
    unfolding hs st' using M(1) by blast
  show "mq_holds s' t \<union> set (mq_nodes s') \<subseteq> mq_holds s t \<union> set (mq_nodes s) \<union> {m. mq_mem s m = None}"
    unfolding hs st' by blast
  have "npc_ok (mq_pc s t) (mem_prev s') (mem_value s')"
    by (rule npc_ok_frame [OF T(4)]) (metis st'(6) other gap_a)
  moreover have "mem_prev s' m = Some NULL" if "m \<in> cleared (mq_pc s t)" for m
    using T(6) [OF that] not_a [of m] that cleared_pushing [of "mq_pc s t"] other [of m] by (auto simp: mq_holds_def)
  moreover have "safe s' t i m" if "(i, m) \<in> prot (mq_pc s t)" for i m
    using T(5) [OF that] unfolding safe_def live by (simp add: s')
  moreover have "apart s' t" "bpc_ok (mq_pc s t) ws (mq_haz s t)" "links_first ws"
    using T(1) bpc_ok_flush_prev [OF T(2) [unfolded b]] links_first_tail [OF T(3) [unfolded b]]
    unfolding apart_def hs by (simp_all add: s')
  moreover have "mq_pc s' t = mq_pc s t" "mq_buf s' t = ws" "mq_haz s' t = mq_haz s t"
    by (simp_all add: s')
  ultimately show "mthread_ok s' t"
    by (auto simp: mthread_ok_def)
  show "\<not> mq_bad s'"
    using D(4) by (simp add: s')
  show "\<forall>u i m. u \<noteq> t \<longrightarrow> (i, m) \<in> prot (mq_pc s u) \<longrightarrow> live s' m \<and> spares (mq_pc s' t) (mq_ret s' t) (u, i) m
      \<and> mem_value s' m = mem_value s m \<and> (mem_prev s m \<noteq> Some NULL \<longrightarrow> mem_prev s' m = mem_prev s m)"
  proof (intro allI impI)
    fix u i m
    assume "(i, m) \<in> prot (mq_pc s u)"
    then have "safe s u i m"
      by (rule mthread_okD(5) [OF D(3)])
    moreover have "mem_value s' m = mem_value s m" "mq_pc s' = mq_pc s" "mq_ret s' = mq_ret s"
      using fun_cong [OF st'(6), of m] by (simp_all add: s')
    ultimately show "live s' m \<and> spares (mq_pc s' t) (mq_ret s' t) (u, i) m
        \<and> mem_value s' m = mem_value s m \<and> (mem_prev s m \<noteq> Some NULL \<longrightarrow> mem_prev s' m = mem_prev s m)"
      unfolding live using other [of m] gap_a by (cases "m = a") (auto simp: safe_def)
  qed
qed (simp_all add: s')

lemma mq_inv_flush:
  assumes inv: "mq_inv N s" and t: "t < N" and step: "mq_flush t s = Some s'"
  shows "mq_inv N s'"
proof -
  note D = mq_invD [OF inv] and Q = queue_invD [OF mq_invD(1) [OF inv]]
  note T = mthread_okD [OF D(3) [of t]]
  obtain w ws where b: "mq_buf s t = w # ws"
    using step by (auto simp: mq_flush_def split: list.splits)
  note po = pend_of_buf [OF T(2) [unfolded b]] and lf = links_first_tail [OF T(3) [unfolded b]]
  show ?thesis
  proof (cases w)
    case (W_haz i p)
    then have s': "s' = s\<lparr>mq_buf := (mq_buf s)(t := ws), mq_haz := (mq_haz s)(t := (mq_haz s t)(i := p))\<rparr>"
      using step b by (simp add: mq_flush_def)
    have "bpc_ok (mq_pc s t) ws ((mq_haz s t)(i := p))"
      using T(2) b W_haz by (simp add: bpc_ok_flush_haz)
    then show ?thesis
      using T(4) lf po W_haz
      by (intro mq_local [OF inv t, where c = "mq_pc s t" and b = ws and h = "(mq_haz s t)(i := p)"])
        (auto simp: s' pend_def b)
  next
    case (W_prev a c)
    have pend: "pend s t = Some (a, c)"
      by (simp add: pend_def po b W_prev)
    then have f: "follows (mq_nodes s) a c"
      by (rule Q(8))
    then obtain nd where nd: "mq_mem s a = Some nd"
      using Q(5) [of a] follows_mem [OF f] by blast
    show ?thesis
      using step b W_prev nd by (intro mq_inv_flush_prev [OF inv t _ nd _ f]) (auto simp: mq_flush_def)
  qed
qed

lemma mq_inv_next:
  assumes inv: "mq_inv N s" and t: "t < N" and ar: "drains_stores (store_load_barrier ar)"
    and step: "mq_next ar N t junk s = Some s'"
  shows "mq_inv N s'"
proof (cases "mq_pc s t")
  case (U_cas n q)
  show ?thesis
  proof (cases "mq_tail s = q")
    case True
    then have "mq_buf s t = []" "s' = (mq_goto s t (U_link n q))\<lparr>mq_tail := n, mq_nodes := mq_nodes s @ [n],
        mq_pushed := mq_pushed s @ [mn_value (the (mq_mem s n))]\<rparr>"
      using step U_cas by (auto simp: mq_next_def sync_bool_compare_and_swap_def split: if_splits)
    then show ?thesis
      using U_cas True by (intro mq_inv_publish [OF inv t])
  qed (use U_cas mq_inv_push_step [OF inv t ar step] in simp)
next
  case (O_cas h p v)
  show ?thesis
  proof (cases "mq_head s = h")
    case True
    then have "mq_buf s t = []" "s' = (mq_goto s t (O_done0 h))\<lparr>mq_head := p, mq_nodes := tl (mq_nodes s),
        mq_popped := mq_popped s @ [v]\<rparr>"
      using step O_cas by (auto simp: mq_next_def sync_bool_compare_and_swap_def split: if_splits)
    then show ?thesis
      using O_cas True by (intro mq_inv_take [OF inv t])
  qed (use O_cas mq_inv_pop_step [OF inv t ar step] in simp)
next
  case (O_scan todo found)
  then show ?thesis
    using mq_inv_pop_step [OF inv t ar step] mq_inv_free_step [OF inv t step] by (cases "todo = []") auto
next
  case (O_sweep todo found)
  then show ?thesis
    using mq_inv_pop_step [OF inv t ar step] mq_inv_free_step [OF inv t step] by (cases "todo = []") auto
next
  case Q_idle
  then show ?thesis
    using step by (simp add: mq_next_def)
qed (use mq_inv_push_step [OF inv t ar step] mq_inv_private_step [OF inv t step] mq_inv_pop_step [OF inv t ar step]
    mq_inv_free_step [OF inv t step] in simp_all)

lemma mq_inv_step:
  assumes "mq_inv N s" and "drains_stores (store_load_barrier ar)" and "mq_step ar N s s'"
  shows "mq_inv N s'"
proof -
  obtain a where a: "mq_tid a < N" "mq_do ar N a s = Some s'"
    using assms(3) by (auto elim: mq_stepE)
  then show ?thesis
    using mq_inv_client_step [OF assms(1) a] mq_inv_flush [OF assms(1)] mq_inv_next [OF assms(1) _ assms(2)]
    by (cases a) auto
qed

lemma mq_inv_init:
  assumes "mq_init s"
  shows "mq_inv N s"
proof -
  obtain d where "d \<noteq> NULL" "s = mq_start d"
    using assms by (auto simp: mq_init_def)
  then show ?thesis
    by (auto simp: mq_inv_def mq_start_def queue_inv_def nodes_inv_def mthread_ok_def apart_def limbo_def mq_holds_def pend_def
        mq_gap_def)
qed

end
