(* ===== verification/Mpmc_Fifo_Safety.thy ===== *)
theory Mpmc_Fifo_Safety
  imports Mpmc_Fifo_Conc
begin

text \<open>
  What the invariant of Mpmc\_Fifo\_Conc gives where \<open>store_load_barrier\<close> drains the store buffer: no
  access to a freed node, no thread stuck, the values popped in the order of their pushes, and
  what an empty answer means. On x86\_64, where it does not, a run that reads a freed node.
\<close>

section \<open>The queue and the nodes taken from it\<close>

text \<open>
  A node that left the queue has its \<open>prev\<close>; the old head that a pop protects is the head as
  long as it is in the queue.
\<close>

definition mq_taken :: "mq_sys \<Rightarrow> bool" where
  "mq_taken s \<longleftrightarrow> (\<forall>u. \<forall>m \<in> set (limbo s u). mem_prev s m \<noteq> Some NULL)
     \<and> (\<forall>u h. (0, h) \<in> prot (mq_pc s u) \<longrightarrow> h \<in> set (mq_nodes s) \<longrightarrow> h = mq_head s)"

lemma mq_takenD:
  assumes "mq_taken s"
  shows "m \<in> set (limbo s u) \<Longrightarrow> mem_prev s m \<noteq> Some NULL"
    "(0, h) \<in> prot (mq_pc s u) \<Longrightarrow> h \<in> set (mq_nodes s) \<Longrightarrow> h = mq_head s"
  using assms by (auto simp: mq_taken_def)

text \<open>What an operation of thread \<open>t\<close> does to the queue, to the nodes in limbo and to memory.\<close>

lemma mq_do_other:
  assumes "mq_do ar N a s = Some s'" and "u \<noteq> mq_tid a"
  shows "mq_pc s' u = mq_pc s u" "mq_ret s' u = mq_ret s u"
  using assms by (cases a; auto simp: mq_next_def mq_flush_def sync_bool_compare_and_swap_def Let_def
      split: if_splits mq_pc.splits bind_splits list.splits option.splits mq_write.splits)+

lemma mq_do_nodes:
  assumes "mq_do ar N a s = Some s'" and "t = mq_tid a"
  shows "mq_nodes s' = mq_nodes s \<and> mq_head s' = mq_head s
    \<or> (\<exists>n \<in> pushing (mq_pc s t). mq_nodes s' = mq_nodes s @ [n] \<and> mq_head s' = mq_head s)
    \<or> (\<exists>p v. mq_pc s t = O_cas (mq_head s) p v \<and> mq_nodes s' = tl (mq_nodes s) \<and> mq_head s' = p)"
  using assms by (cases a; auto simp: mq_next_def mq_flush_def sync_bool_compare_and_swap_def Let_def
      split: if_splits mq_pc.splits bind_splits list.splits option.splits mq_write.splits)

lemma mq_do_limbo:
  assumes "mq_do ar N a s = Some s'" and "t = mq_tid a"
  shows "set (limbo s' t) \<subseteq> set (limbo s t)
    \<or> (\<exists>p v. mq_pc s t = O_cas (mq_head s) p v \<and> set (limbo s' t) \<subseteq> insert (mq_head s) (set (limbo s t)))"
  using assms by (cases a; auto simp: mq_next_def mq_flush_def sync_bool_compare_and_swap_def Let_def limbo_def
      split: if_splits mq_pc.splits bind_splits list.splits option.splits mq_write.splits)

lemma mq_do_prot:
  assumes "mq_do ar N a s = Some s'" and "t = mq_tid a" and "(0, h) \<in> prot (mq_pc s' t)"
  shows "(0, h) \<in> prot (mq_pc s t) \<or> h = mq_head s \<and> mq_nodes s' = mq_nodes s \<and> mq_head s' = mq_head s"
  using assms by (cases a; auto simp: mq_next_def mq_flush_def sync_bool_compare_and_swap_def Let_def
      split: if_splits mq_pc.splits bind_splits list.splits option.splits mq_write.splits)

lemma mq_do_mem:
  assumes "mq_do ar N a s = Some s'" and "t = mq_tid a"
  shows "mq_mem s' m = mq_mem s m \<or> mq_mem s' m = None \<or> mq_mem s m = None
    \<or> m \<in> mq_own s t \<union> pushing (mq_pc s t) \<or> (\<exists>b. buf_pend (mq_buf s t) = Some (m, b))"
  using assms by (cases a; auto simp: mq_next_def mq_flush_def sync_bool_compare_and_swap_def Let_def
      split: if_splits mq_pc.splits bind_splits list.splits option.splits mq_write.splits)

lemma mq_taken_step:
  assumes inv: "mq_inv N s" and taken: "mq_taken s" and step: "mq_do ar N a s = Some s'"
  shows "mq_taken s'"
  unfolding mq_taken_def
proof (intro conjI allI ballI impI)
  note D = mq_invD [OF inv] and Q = queue_invD [OF mq_invD(1) [OF inv]] and M = nodes_invD [OF mq_invD(2) [OF inv]]
  note T = mthread_okD [OF D(3)]
  let ?t = "mq_tid a"
  have head: "mq_head s \<in> set (mq_nodes s)"
    using Q(1,3) by simp
  {
    fix u m
    assume m: "m \<in> set (limbo s' u)"
    have "m \<in> set (limbo s u) \<or> (\<exists>p v. mq_pc s ?t = O_cas m p v \<and> m = mq_head s)"
      using m mq_do_limbo [OF step refl] mq_do_other [OF step, of u] by (cases "u = ?t") (auto simp: limbo_def)
    then have "live s m \<and> mem_prev s m \<noteq> Some NULL"
      using head T(4) [of ?t] mq_takenD(1) [OF taken] by (auto simp: live_def)
    note lv = conjunct1 [OF this] and prv = conjunct2 [OF this]
    have "buf_pend (mq_buf s ?t) \<noteq> Some (m, b)" for b
    proof
      assume b: "buf_pend (mq_buf s ?t) = Some (m, b)"
      then obtain w ws where w: "mq_buf s ?t = w # ws"
        by (cases "mq_buf s ?t") auto
      then have "pend s ?t = Some (m, b)"
        using b pend_of_buf [OF T(2) [of ?t, unfolded w]] by (simp add: pend_def)
      then have "follows (mq_nodes s) m b" "mq_gap s m b"
        using Q(8) by (auto simp: mq_gap_def)
      then show False
        using Q(6) [of m b] prv by simp
    qed
    then show "mem_prev s' m \<noteq> Some NULL"
      using mq_do_mem [OF step refl, of m] live_not_private [OF inv lv, of ?t] live_allocated(1) [OF D(1,2) lv] prv by auto
  next
    fix u h
    assume h: "(0, h) \<in> prot (mq_pc s' u)" "h \<in> set (mq_nodes s')"
    consider "(0, h) \<in> prot (mq_pc s u)" | "h = mq_head s" "mq_nodes s' = mq_nodes s" "mq_head s' = mq_head s"
      using h(1) mq_do_prot [OF step refl, of h] mq_do_other(1) [OF step, of u] by (cases "u = ?t") auto
    then show "h = mq_head s'"
    proof cases
      case 1
      then have "live s h"
        using T(5) by (simp add: safe_def)
      then have own: "h \<notin> pushing (mq_pc s ?t)"
        using live_not_private [OF inv] by blast
      have old: "h \<in> set (mq_nodes s) \<Longrightarrow> h = mq_head s"
        by (rule mq_takenD(2) [OF taken 1])
      from mq_do_nodes [OF step refl] show ?thesis
      proof (elim disjE bexE exE conjE)
        assume "mq_nodes s' = tl (mq_nodes s)"
        then show ?thesis
          using h(2) old Q(1,2,3) by (cases "mq_nodes s") auto
      qed (use h(2) old own in auto)
    qed simp
  }
qed

section \<open>The nodes a thread keeps\<close>

text \<open>
  The scan of \<open>N\<close> records of two pointers finds at most \<open>2 * N\<close> nodes, so that the sweep keeps at
  most that many.
\<close>

fun kept_ok :: "nat \<Rightarrow> mq_pc \<Rightarrow> ptr list \<Rightarrow> bool" where
  "kept_ok N (O_scan todo found) ret \<longleftrightarrow> length found + length todo \<le> 2 * N \<and> length ret \<le> 4 * N"
| "kept_ok N (O_sweep todo found) ret \<longleftrightarrow> length found \<le> 2 * N \<and> set ret \<subseteq> set found"
| "kept_ok N _ ret \<longleftrightarrow> length ret < 4 * N"

definition mq_kept :: "nat \<Rightarrow> mq_sys \<Rightarrow> bool" where
  "mq_kept N s \<longleftrightarrow> (\<forall>t < N. kept_ok N (mq_pc s t) (mq_ret s t))"

lemma length_slots: "length (slots N) = 2 * N"
  by (simp add: slots_def MPMC_HAZARD_COUNT_def)

lemma kept_ok_same:
  "kept_ok N c ret \<Longrightarrow> (case c of O_scan _ _ \<Rightarrow> False | O_sweep _ _ \<Rightarrow> False | _ \<Rightarrow> True)
    \<Longrightarrow> (case c' of O_scan _ _ \<Rightarrow> False | O_sweep _ _ \<Rightarrow> False | _ \<Rightarrow> True) \<Longrightarrow> kept_ok N c' ret"
  by (cases c; cases c') simp_all

lemma kept_sweep: "kept_ok N (O_sweep todo found) ret \<Longrightarrow> distinct ret \<Longrightarrow> length ret \<le> 2 * N"
  using card_mono [of "set found" "set ret"] card_length [of found] by (simp add: distinct_card)


lemma kept_ok_step:
  assumes "mq_do ar N a s = Some s'" and "t = mq_tid a" and "kept_ok N (mq_pc s t) (mq_ret s t)"
    and "distinct (mq_ret s t)" and "t < N"
  shows "kept_ok N (mq_pc s' t) (mq_ret s' t)"
proof (cases "\<exists>j. a = Mqgo t j")
  case False
  then show ?thesis
    using assms by (cases a) (auto simp: mq_flush_def Let_def split: if_splits list.splits option.splits mq_write.splits
        dest: kept_ok_same)
next
  case True
  then obtain j where step: "mq_next ar N t j s = Some s'"
    using assms(1) by auto
  show ?thesis
  proof (cases "mq_pc s t")
    case (O_sweep todo found)
    have "length (mq_ret s t) \<le> 2 * N"
      using kept_sweep assms(3,4) O_sweep by metis
    then show ?thesis
      using step O_sweep assms(3,5) by (auto simp: mq_next_def split: list.splits if_splits)
  next
    case (O_free h)
    then show ?thesis
      using step assms(3) by (auto simp: mq_next_def Let_def length_slots MPMC_HAZARD_COUNT_def split: if_splits)
  qed (use step assms(3) in \<open>auto simp: mq_next_def sync_bool_compare_and_swap_def Let_def split: if_splits bind_splits list.splits\<close>)
qed

lemma mq_kept_step:
  assumes inv: "mq_inv N s" and kept: "mq_kept N s" and step: "mq_do ar N a s = Some s'"
  shows "mq_kept N s'"
  unfolding mq_kept_def
proof (intro allI impI)
  fix t
  assume t: "t < N"
  have dist: "distinct (mq_ret s t)"
    using mthread_okD(1) [OF mq_invD(3) [OF inv], of t] by (simp add: apart_def limbo_def)
  have old: "kept_ok N (mq_pc s t) (mq_ret s t)"
    using kept t by (simp add: mq_kept_def)
  show "kept_ok N (mq_pc s' t) (mq_ret s' t)"
  proof (cases "t = mq_tid a")
    case True
    then show ?thesis
      using kept_ok_step [OF step True old dist t] by simp
  next
    case False
    then show ?thesis
      using mq_do_other [OF step False] old by simp
  qed
qed

interpretation mq_sys: invariant mq_init "mq_step ar N"
  "\<lambda>s. drains_stores (store_load_barrier ar) \<longrightarrow> mq_inv N s \<and> mq_taken s \<and> mq_kept N s" for ar N
proof unfold_locales
  show "drains_stores (store_load_barrier ar) \<longrightarrow> mq_inv N s \<and> mq_taken s \<and> mq_kept N s" if "mq_init s" for s
    using mq_inv_init [OF that] that
    by (auto simp: mq_init_def mq_taken_def mq_kept_def mq_start_def limbo_def)
  show "drains_stores (store_load_barrier ar) \<longrightarrow> mq_inv N s' \<and> mq_taken s' \<and> mq_kept N s'"
    if "drains_stores (store_load_barrier ar) \<longrightarrow> mq_inv N s \<and> mq_taken s \<and> mq_kept N s" "mq_step ar N s s'" for s s'
    using that mq_inv_step [of N s ar s'] mq_taken_step [of N s ar _ s'] mq_kept_step [of N s ar _ s']
    by (auto elim: mq_stepE)
qed

lemma mq_reach:
  assumes "drains_stores (store_load_barrier ar)" and "reach mq_init (mq_step ar N) s"
  shows "mq_inv N s" "mq_taken s" "mq_kept N s"
  using mq_sys.reach_inv [OF assms(2)] assms(1) by simp_all


section \<open>Properties\<close>

text \<open>
  C7. Where \<open>store_load_barrier\<close> drains the store buffer, in every reachable state of \<open>N\<close> threads that push and
  pop, with their hazard pointers still in store buffers or not: no thread has read or written a
  freed node; the values pushed are those popped, in that order, followed by those in the nodes
  from the one after \<open>head\<close> to \<open>tail\<close>; these nodes are allocated and no thread owns or has retired one of
  them; and no node is retired twice.
\<close>

theorem mpmc_fifo_conc_safe:
  assumes "drains_stores (store_load_barrier ar)" and "reach mq_init (mq_step ar N) s"
  shows "\<not> mq_bad s
    \<and> mq_pushed s = mq_popped s @ List.map (\<lambda>n. mn_value (the (mq_mem s n))) (tl (mq_nodes s))
    \<and> mq_head s = List.hd (mq_nodes s) \<and> mq_tail s = List.last (mq_nodes s) \<and> distinct (mq_nodes s)
    \<and> (\<forall>n \<in> set (mq_nodes s). mq_mem s n \<noteq> None \<and> (\<forall>t. n \<notin> mq_own s t \<and> n \<notin> set (mq_ret s t)))
    \<and> (\<forall>t. distinct (mq_ret s t)) \<and> (\<forall>t u. t \<noteq> u \<longrightarrow> set (mq_ret s t) \<inter> set (mq_ret s u) = {})"
proof (intro conjI ballI allI impI)
  note D = mq_invD [OF mq_reach(1) [OF assms]]
  note Q = queue_invD [OF D(1)] and M = nodes_invD [OF D(2)]
  show "\<not> mq_bad s"
    by (rule D(4))
  show "mq_pushed s = mq_popped s @ List.map (\<lambda>n. mn_value (the (mq_mem s n))) (tl (mq_nodes s))"
    by (rule Q(10))
  show "mq_head s = List.hd (mq_nodes s)" "mq_tail s = List.last (mq_nodes s)" "distinct (mq_nodes s)"
    by (rule Q)+
  show "mq_mem s n \<noteq> None" "n \<notin> mq_own s t" "n \<notin> set (mq_ret s t)" if "n \<in> set (mq_nodes s)" for n t
    using Q(5) [OF that] queue_not_limbo(2) [OF D(2) that, of t] by (auto simp: mq_holds_def limbo_def)
  show "distinct (mq_ret s t)" for t
    using mthread_okD(1) [OF D(3), of t] by (simp add: apart_def limbo_def)
  show "set (mq_ret s t) \<inter> set (mq_ret s u) = {}" if "t \<noteq> u" for t u
    using M(2) [OF that] by (auto simp: mq_holds_def limbo_def)
qed

text \<open>
  Runs to try the theorems on: thread \<open>t\<close> pushes a new node \<open>n\<close>, or pops, and each of its
  stores is flushed before the fence that waits for it.
\<close>

definition run_push :: "tid \<Rightarrow> ptr \<Rightarrow> ptr \<Rightarrow> mq_act list" where
  "run_push t n v = [Mqmalloc t n \<lparr>mn_value = v, mn_prev = NULL, mn_next = NULL\<rparr>, Call_mqpush t n]
     @ replicate 3 (Mqgo t 0) @ [Mqflush t] @ replicate 6 (Mqgo t 0) @ [Mqflush t, Mqflush t]"

definition run_pop :: "tid \<Rightarrow> mq_act list" where
  "run_pop t = [Call_mqpop t] @ replicate 2 (Mqgo t 0) @ [Mqflush t] @ replicate 4 (Mqgo t 0) @ [Mqflush t]
     @ replicate 6 (Mqgo t 0) @ [Mqflush t, Mqflush t, Mqgo t 0]"

lemma mq_run_start:
  assumes "map_option f (mq_run ar N as (mq_start 8)) = Some c"
  shows "\<exists>s. reach mq_init (mq_step ar N) s \<and> f s = c"
proof -
  have "mq_init (mq_start 8)"
    unfolding mq_init_def by (intro exI [of _ 8]) simp
  then have "reach mq_init (mq_step ar N) (mq_start 8)"
    by (rule reach_init)
  then show ?thesis
    using assms mq_run_reach by blast
qed

theorem mpmc_fifo_conc_safe_witness:
  "\<exists>s. reach mq_init (mq_step None 2) s
     \<and> (mq_nodes s, mq_pushed s, mq_popped s, mq_ret s 1) = ([16, 24], [5, 6], [5], [8])
     \<and> \<not> mq_bad s \<and> mq_pushed s = mq_popped s @ List.map (\<lambda>n. mn_value (the (mq_mem s n))) (tl (mq_nodes s))
     \<and> mq_head s = List.hd (mq_nodes s) \<and> mq_mem s 16 \<noteq> None \<and> 16 \<notin> mq_own s 1 \<and> distinct (mq_ret s 1)"
proof -
  have "map_option (\<lambda>s. (mq_nodes s, mq_pushed s, mq_popped s, mq_ret s 1))
      (mq_run None 2 (run_push 0 16 5 @ run_push 1 24 6 @ run_pop 1) (mq_start 8)) = Some ([16, 24], [5, 6], [5], [8])"
    by code_simp
  from mq_run_start [OF this] obtain s where s: "reach mq_init (mq_step None 2) s"
      "(mq_nodes s, mq_pushed s, mq_popped s, mq_ret s 1) = ([16, 24], [5, 6], [5], [8])"
    by auto
  moreover have "drains_stores (store_load_barrier None)"
    by code_simp
  note safe = mpmc_fifo_conc_safe [OF this s(1)]
  ultimately show ?thesis
    using safe by (intro exI [of _ s]) auto
qed

text \<open>
  Where \<open>store_load_barrier\<close> drains the store buffer: when a pop reads a \<open>prev\<close> of \<open>NULL\<close>, for which
  \<open>mpmc_fifo_trypop\<close> returns \<open>NULL\<close>, the node it looks at is the head, and either every value
  pushed so far is popped, or the push that swapped the tail next after it has yet to store the link, or
  has it in its store buffer.
\<close>

theorem mpmc_fifo_empty_answer:
  assumes "drains_stores (store_load_barrier ar)" and "reach mq_init (mq_step ar N) s"
    and "mq_pc s t = O_prev h" and "own_prev s t h = Some NULL"
  shows "h = mq_head s \<and> (mq_nodes s = [h] \<and> mq_pushed s = mq_popped s
    \<or> (\<exists>u b. follows (mq_nodes s) h b \<and> (mq_pc s u = U_link b h \<or> W_prev h b \<in> set (mq_buf s u))))"
proof -
  note inv = mq_reach [OF assms(1,2)]
  note D = mq_invD [OF inv(1)] and Q = queue_invD [OF mq_invD(1) [OF inv(1)]]
  have prev: "mem_prev s h = Some NULL"
    using read_prev [OF inv(1) assms(3)] assms(4) by auto
  have "live s h"
    using mthread_okD(5) [OF D(3) [of t], of 0 h] assms(3) by (simp add: safe_def)
  then have "h \<in> set (mq_nodes s)"
    using prev mq_takenD(1) [OF inv(2)] by (auto simp: live_def)
  then have head: "h = mq_head s"
    using mq_takenD(2) [OF inv(2), of h t] assms(3) by simp
  then obtain ns where ns: "mq_nodes s = h # ns"
    using Q(1,3) by (cases "mq_nodes s") auto
  show ?thesis
  proof (cases ns)
    case Nil
    then show ?thesis
      using head ns Q(10) by simp
  next
    case (Cons b ns')
    then have f: "follows (mq_nodes s) h b"
      by (simp add: ns)
    then have "mq_gap s h b"
      using Q(5) [of b] Q(6) [OF f] prev ns Cons by (auto split: if_splits)
    then obtain u where "pend s u = Some (h, b)"
      by (auto simp: mq_gap_def)
    then have "mq_pc s u = U_link b h \<or> W_prev h b \<in> set (mq_buf s u)"
      unfolding pend_def by (cases "mq_pc s u"; cases "mq_buf s u" rule: buf_pend.cases) auto
    then show ?thesis
      using head f by blast
  qed
qed

theorem mpmc_fifo_empty_answer_witness:
  "\<exists>s. reach mq_init (mq_step None 2) s \<and> mq_pc s 1 = O_prev 8 \<and> mq_pushed s = [5] \<and> 8 = mq_head s
     \<and> (\<exists>u b. follows (mq_nodes s) 8 b \<and> (mq_pc s u = U_link b 8 \<or> W_prev 8 b \<in> set (mq_buf s u)))"
proof -
  have "map_option (\<lambda>s. (mq_pc s 1, own_prev s 1 8, mq_nodes s, mq_pushed s))
      (mq_run None 2 (take 12 (run_push 0 16 5) @ take 6 (run_pop 1)) (mq_start 8)) = Some (O_prev 8, Some NULL, [8, 16], [5])"
    by code_simp
  from mq_run_start [OF this] obtain s where s: "reach mq_init (mq_step None 2) s" "(mq_pc s 1, own_prev s 1 8, mq_nodes s, mq_pushed s) = (O_prev 8, Some NULL, [8, 16], [5])"
    by auto
  moreover have "drains_stores (store_load_barrier None)"
    by code_simp
  note empty = mpmc_fifo_empty_answer [OF this s(1), of 1 8]
  ultimately show ?thesis
    using empty by (intro exI [of _ s]) auto
qed





text \<open>
  C8. On x86\_64, whose \<open>store_load_barrier\<close> is empty, there is a run of two threads in which a pop reads the
  \<open>prev\<close> of a node that has been freed: its store to its hazard pointer is still in its store buffer
  when the other thread, after its eighth pop, scans the hazard pointers and frees the node.
\<close>

theorem mpmc_fifo_use_after_free_on_x86_64:
  "\<exists>s s'. reach mq_init (mq_step (Some ARCH_x86_64) 2) s \<and> mq_pc s 0 = O_prev 8 \<and> mq_mem s 8 = None
     \<and> mq_next (Some ARCH_x86_64) 2 0 junk s = Some s' \<and> mq_bad s'"
proof -
  let ?run = "[Call_mqpop 0] @ replicate 4 (Mqgo 0 0)
    @ concat (List.map (\<lambda>n. run_push 1 n 5 @ run_pop 1) [16, 24, 32, 40, 48, 56, 64, 72]) @ replicate 13 (Mqgo 1 0)"
  have "map_option (\<lambda>s. (mq_pc s 0, mq_mem s 8)) (mq_run (Some ARCH_x86_64) 2 ?run (mq_start 8)) = Some (O_prev 8, None)"
    by code_simp
  from mq_run_start [OF this] obtain s where s: "reach mq_init (mq_step (Some ARCH_x86_64) 2) s" "(mq_pc s 0, mq_mem s 8) = (O_prev 8, None)"
    by auto
  then have "\<exists>s'. mq_next (Some ARCH_x86_64) 2 0 junk s = Some s' \<and> mq_bad s'"
    by (simp add: mq_next_def Let_def)
  with s show ?thesis
    by auto
qed

end
