(* ===== verification/Spec2Isabelle.thy ===== *)
theory Spec2Isabelle imports Queuedef Ring_Buffer_Tso Fifo_Steal_Tso Fifo_Steal_Sharded_Conc Mpscr_Tso Dist_Fifo_Conc
    Work_Queue_Conc Wsd_Tso Hazard_Conc Mpmc_Stack_Conc Mpmc_Lifo_Conc Mpmc_Fifo_Safety
begin

text \<open>
  Verification of libfibconcurrent, a C library of lock-free containers that threads share.

  \<^bold>\<open>The program.\<close> The containers are headers under \<open>src/include/fibconcurrent\<close> and four files under \<open>src/src\<close>. At the
  bottom are \<open>arch.h\<close> (which architecture is compiled for) and \<open>machine_specific.h\<close> (barriers and atomic instructions).
  Two buffers keep items in an array: \<open>lockfree_ring_buffer.h\<close> (any number of threads at both ends) and
  \<open>fifo_steal_buffer.h\<close> (one master, other threads steal; also several such shards in one allocation). The
  linked queues are \<open>spsc_fifo.h\<close>, \<open>mpsc_fifo.h\<close>, \<open>mpsc_relaxed_fifo.h\<close> (an array of SPSC queues), \<open>dist_fifo.h\<close> (one thread
  pushes, all pop) and \<open>mpmc_fifo.h\<close>; the linked stacks are \<open>mpmc_stack.h\<close> (emptied at once) and \<open>mpmc_lifo.h\<close>.
  \<open>work_queue.c\<close> elects a worker among the threads that push to an MPSC queue, \<open>work_stealing_deque.c\<close> is the
  deque of Chase and Lev, and \<open>hazard_pointer.c\<close> reclaims the nodes of \<open>mpmc_fifo.h\<close>. \<open>queuedef.c\<close> has the error
  codes and the size checks.

  \<^bold>\<open>Two models of each container.\<close> One theory has the operations as the code has them, as total functions of one
  thread on the struct, and on the heap for the linked ones; failed assertions and accesses outside the memory are
  \<open>None\<close>. A second theory, with \<open>Conc\<close> or \<open>Tso\<close> in its name, cuts the same operations at each access to shared memory: a program counter
  holds the locals that a thread has read, one function gives a thread's next step, an inductive relation lets the
  threads take turns, and \<open>reach\<close> is the set of reachable states. Both use the same primitives
  (\<open>sync_bool_compare_and_swap\<close>, \<open>atomic_exchange_pointer\<close>, \<open>compare_and_swap2\<close> and so on). Ghost variables record
  what was pushed and popped; no step reads them to decide. All of it is executable, and the witnesses run it.

  \<^bold>\<open>Theories.\<close>
  \<^item> \<open>Fib_Prelude\<close>: pointers and integers as words, assertions, words, lists, \<open>reach\<close>, the contracts
    \<open>invariant\<close> and \<open>bounded_invariant\<close> that every concurrent model interprets, and \<open>simulation\<close>, a system seen
    through a part of it.
  \<^item> \<open>Node_Heap\<close>, \<open>Node_Queue\<close>: nodes with \<open>data\<close> and \<open>next\<close>, allocation, chains; the contract \<open>node_queue\<close> of a queue
    with a dummy node and what clients get from it: histories return what a list returns, and nothing leaks.
  \<^item> \<open>Fifo_Interface\<close>, \<open>Deque_Interface\<close>: the contracts \<open>bounded_fifo\<close> and \<open>work_deque\<close> of the arrays.
  \<^item> \<open>Machine_Specific\<close>: \<open>arch.h\<close>, \<open>machine_specific.h\<close>; \<open>Queuedef\<close>: \<open>queuedef.h\<close>, \<open>queuedef.c\<close>.
  \<^item> \<open>Ring_Buffer\<close>, \<open>Ring_Buffer_Conc\<close>, \<open>Ring_Buffer_Tso\<close>: \<open>lockfree_ring_buffer.h\<close>. FIFO for any number of threads, also
    while the stores of the cells wait in store buffers (a waiting store is then a thread of its own, and the invariant of
    \<open>Ring_Buffer_Conc\<close> is used again), and a call that a thread makes alone ends, and only ends, where the sequential
    function says.
  \<^item> \<open>Fifo_Steal\<close>, \<open>Fifo_Steal_Conc\<close>, \<open>Fifo_Steal_Tso\<close>: \<open>fifo_steal_buffer.h\<close>. Every item leaves once, in order, to a thief, to
    the master, or into the void, also while the master's stores wait in its store buffer.
  \<^item> \<open>Fifo_Steal_Sharded\<close>: the shards, in the bytes of their allocation. \<open>Fifo_Steal_Sharded_Create\<close>: what the creation
    leaves there, which is the header of shard 0 and for the others what \<open>malloc\<close> returned.
  \<^item> \<open>Fifo_Steal_Sharded_Conc\<close>: the loops over the shards, with one master and any number of thieves, on the steps of
    \<open>Fifo_Steal_Conc\<close>. Each shard is a \<open>fifo_steal_buffer\<close> of its own although all are in one block (\<open>simulation\<close>), so what
    holds of one buffer holds of every shard that is one; what EMPTY means when the shards are visited one after the other. They start from
    what the creation returns, on the condition (\<open>headers_settled\<close>, in \<open>sg_start\<close>) that every shard but shard 0 got from
    the memory the header of an empty buffer or a closed one, of size 0. A sole shard meets it in any memory, and any
    number of them in zeroed memory when the \<open>24 * num_shards\<close> bytes written end before shard 1; in general the code does
    not establish it, and \<open>sharded_pop_before_any_push\<close> is a run where it fails.
  \<^item> \<open>Spsc_Fifo\<close>, \<open>Mpscr_Fifo\<close>, \<open>Mpscr_Tso\<close>: \<open>spsc_fifo.h\<close>, \<open>mpsc_relaxed_fifo.h\<close>. FIFO for each producer although all stores are
    plain ones and wait in store buffers, and wait-freedom.
  \<^item> \<open>Mpsc_Fifo\<close>, \<open>Mpsc_Fifo_Conc\<close>: \<open>mpsc_fifo.h\<close>, with the gaps that pushes in progress leave in the list.
  \<^item> \<open>Work_Queue\<close>, \<open>Work_Queue_Conc\<close>: \<open>work_queue.h\<close>, \<open>work_queue.c\<close>, on the steps of \<open>Mpsc_Fifo_Conc\<close>. One worker at a time, and
    one whenever an item is left.
  \<^item> \<open>Dist_Fifo\<close>, \<open>Dist_Fifo_Conc\<close>: \<open>dist_fifo.h\<close>, with nodes that are freed and allocated again.
  \<^item> \<open>Wsd\<close>, \<open>Wsd_Tso\<close>: \<open>work_stealing_deque.h\<close>, \<open>work_stealing_deque.c\<close>. On x86-TSO every item is taken once if
    \<open>store_load_barrier\<close> drains the store buffer, and a run takes one twice with the barrier as x86\_64 compiles it.
  \<^item> \<open>Hazard_Pointer\<close>, \<open>Hazard_Conc\<close>: \<open>hazard_pointer.h\<close>, \<open>hazard_pointer.c\<close>. What a scan frees and keeps, and threads that register
    while others scan.
  \<^item> \<open>Mpmc_Fifo\<close>, \<open>Mpmc_Fifo_Conc\<close>, \<open>Mpmc_Fifo_Safety\<close>: \<open>mpmc_fifo.h\<close> with the hazard pointers in store buffers, the
    scans, and freed nodes that \<open>malloc\<close> gives out again.
  \<^item> \<open>Mpmc_Stack\<close>, \<open>Mpmc_Stack_Conc\<close>: \<open>mpmc_stack.h\<close>; \<open>Mpmc_Lifo\<close>, \<open>Mpmc_Lifo_Conc\<close>: \<open>mpmc_lifo.h\<close>, linearizable despite reuse of nodes.

  \<^bold>\<open>The shape of the proofs.\<close> A sequential theory states what its struct represents (\<open>rb_ok\<close>, \<open>fs_ok\<close>, \<open>wd_ok\<close>, \<open>spsc_ok\<close>,
  \<open>mpscr_ok\<close>, \<open>hp_ok\<close> and so on), proves one law for each operation on every branch, and discharges with them the
  assumptions of an interface; the interface gives the refinement of whole histories. A concurrent theory has one
  invariant, one lemma for each kind of step, an interpretation of \<open>invariant\<close> or \<open>bounded_invariant\<close>, and the
  properties read off it. Sets of nodes held by the threads and by the container are kept disjoint; this is what makes
  the private steps of one thread invisible to the proof about another.

  \<^bold>\<open>Memory.\<close> Where correctness depends on the order in which stores reach memory (\<open>Wsd_Tso\<close>, \<open>Mpmc_Fifo_Conc\<close>,
  \<open>Mpscr_Tso\<close>, \<open>Fifo_Steal_Tso\<close>, \<open>Ring_Buffer_Tso\<close>), stores wait in a buffer as on x86 until they are flushed. In the other
  concurrent theories every store reaches memory at once.

  \<^bold>\<open>Bounds and fuel.\<close> Counters keep their width. Where the code relies on one not wrapping, the number of operations
  so far is bounded in the theorem (below \<open>2 ^ 64\<close> in \<open>Ring_Buffer_Conc\<close>, \<open>Ring_Buffer_Tso\<close>, \<open>Fifo_Steal_Conc\<close>, \<open>Fifo_Steal_Tso\<close>, \<open>Dist_Fifo_Conc\<close>,
  \<open>Mpmc_Lifo_Conc\<close> and \<open>Work_Queue_Conc\<close>, for each shard in \<open>Fifo_Steal_Sharded_Conc\<close>, below \<open>2 ^ 63\<close> in \<open>Wsd_Tso\<close>; \<open>2 * N * K < 2 ^ 64\<close> for \<open>N\<close> records of \<open>K\<close> pointers in \<open>Hazard_Conc\<close>). Loops over
  lists in memory are \<open>partial_function (option)\<close> or carry a fuel that their callers give as the number of
  iterations left; loops that wait for other threads take what the others do in each iteration as an argument in the
  sequential theory and are steps in the concurrent one.

  \<^bold>\<open>What the code relies on.\<close> \<open>malloc\<close> and \<open>calloc\<close> give any address that is not in use, or fail, as an argument says; the client's
  \<open>gc_function\<close> is called with what the log records; \<open>qsort\<close> is a stable sort by the comparison function it is given.
  A client touches only nodes that it owns, calls the operations reserved to one thread from one thread, and hands
  nodes over with stores to them completed.

  \<^bold>\<open>Not modelled.\<close> The order of memory accesses on processors weaker than x86, and store buffers in the theories not
  named under Memory; the creation and destruction of a container while other threads use it, which the interface
  forbids, apart from hazard pointer records, which join at any time; operands and
  clobbers of the inline assembly; \<open>mpmc_ring_queue_internal.h\<close>, whose two structs nothing uses; the tests and their
  support code.
\<close>

end
